(* ===== verification/Quic_Prelude.thy ===== *)
theory Quic_Prelude
  imports Main "HOL-Library.Word"
begin

text \<open>
  Shared vocabulary of the development: the machine types, the byte images of integers, the
  64-bit wrap-around operations on natural numbers, the sequencing of fallible operations, and
  the generic facts on lists and words that the component theories use.
\<close>

unbundle bit_operations_syntax

named_theorems wire_simps \<open>evaluation of the byte-level operations on a state with enough bytes\<close>
named_theorems iset_simps \<open>the point sets of intervals and interval lists\<close>
named_theorems u64_simps \<open>64-bit arithmetic when nothing wraps\<close>

section \<open>Machine types\<close>

type_synonym byte = "8 word"
type_synonym u8 = "8 word"
type_synonym u16 = "16 word"
type_synonym u32 = "32 word"
type_synonym u64 = "64 word"

section \<open>Byte images of integers\<close>

text \<open>The \<open>n\<close> low bytes of a word, least significant byte first, and back.\<close>

definition le_bytes :: "nat \<Rightarrow> u64 \<Rightarrow> byte list" where
  "le_bytes n w = map (\<lambda>i. ucast (drop_bit (8 * i) w)) [0..<n]"

fun le_word :: "byte list \<Rightarrow> u64" where
  "le_word [] = 0"
| "le_word (b # bs) = ucast b OR push_bit 8 (le_word bs)"

definition be_bytes :: "nat \<Rightarrow> u64 \<Rightarrow> byte list" where
  "be_bytes n w = rev (le_bytes n w)"

definition be_word :: "byte list \<Rightarrow> u64" where
  "be_word bs = le_word (rev bs)"

lemma length_le_bytes [simp]: "length (le_bytes n w) = n"
  by (simp add: le_bytes_def)

lemma length_be_bytes [simp]: "length (be_bytes n w) = n"
  by (simp add: be_bytes_def)

lemma be_bytes_eq_Nil [simp]: "be_bytes n w = [] \<longleftrightarrow> n = 0"
  using length_be_bytes [of n w] by (cases "be_bytes n w") auto

lemma bit_le_word:
  "bit (le_word bs) k \<longleftrightarrow> k < 64 \<and> k div 8 < length bs \<and> bit (bs ! (k div 8)) (k mod 8)"
proof (induction bs arbitrary: k)
  case Nil
  then show ?case by simp
next
  case (Cons b bs)
  show ?case
  proof (cases "k < 8")
    case True
    then show ?thesis
      by (auto simp: bit_simps dest: bit_imp_le_length)
  next
    case False
    have mod8: "(k - 8) mod 8 = k mod 8"
      using False by (simp add: le_mod_geq)
    have div8: "k div 8 = Suc ((k - 8) div 8)"
      using False by (simp add: le_div_geq)
    have nb: "\<not> bit b k"
      using False by (auto dest: bit_imp_le_length)
    show ?thesis
      using False nb by (auto simp: bit_simps Cons.IH mod8 div8)
  qed
qed

lemma le_word_le_bytes: "le_word (le_bytes n w) = take_bit (8 * n) w"
proof (rule bit_eqI)
  fix k
  assume "possible_bit TYPE(u64) k"
  then have k: "k < 64" by (simp add: possible_bit_word)
  have lt: "k div 8 < n \<longleftrightarrow> k < 8 * n"
    by (simp add: div_less_iff_less_mult mult.commute)
  have km: "8 * (k div 8) + k mod 8 = k" by simp
  have "k div 8 < n \<Longrightarrow> bit (le_bytes n w ! (k div 8)) (k mod 8) \<longleftrightarrow> bit w k"
    using k by (simp add: le_bytes_def bit_simps)
  then show "bit (le_word (le_bytes n w)) k \<longleftrightarrow> bit (take_bit (8 * n) w) k"
    using k lt by (auto simp: bit_le_word bit_simps)
qed

lemma le_bytes_le_word:
  assumes "length bs \<le> 8"
  shows "le_bytes (length bs) (le_word bs) = bs"
proof (rule nth_equalityI)
  show "length (le_bytes (length bs) (le_word bs)) = length bs" by simp
next
  fix i
  assume "i < length (le_bytes (length bs) (le_word bs))"
  then have i: "i < length bs" by simp
  show "le_bytes (length bs) (le_word bs) ! i = bs ! i"
  proof (rule bit_eqI)
    fix k
    assume "possible_bit TYPE(byte) k"
    then have k: "k < 8" by (simp add: possible_bit_word)
    with i assms have "8 * i + k < 64" by simp
    with i k show "bit (le_bytes (length bs) (le_word bs) ! i) k \<longleftrightarrow> bit (bs ! i) k"
      by (simp add: le_bytes_def bit_simps bit_le_word)
  qed
qed

lemma be_word_be_bytes: "be_word (be_bytes n w) = take_bit (8 * n) w"
  by (simp add: be_word_def be_bytes_def le_word_le_bytes)

lemma be_bytes_be_word: "length bs \<le> 8 \<Longrightarrow> be_bytes (length bs) (be_word bs) = bs"
  using le_bytes_le_word [of "rev bs"] by (simp add: be_word_def be_bytes_def)

lemma take_bit_64_u64 [simp]: "take_bit 64 (w :: u64) = w"
  by (simp add: take_bit_word_eq_self)

lemma drop_be_bytes: "m \<le> n \<Longrightarrow> drop (n - m) (be_bytes n w) = be_bytes m w"
  by (simp add: be_bytes_def le_bytes_def rev_map drop_map take_map flip: rev_take)
    (simp add: drop_rev rev_map take_map)

lemma take_le_bytes: "m \<le> n \<Longrightarrow> take m (le_bytes n w) = le_bytes m w"
  by (simp add: le_bytes_def take_map)

text \<open>Truncation to \<open>n\<close> bytes loses nothing exactly for the values below \<open>2 ^ (8 * n)\<close>.\<close>

lemma take_bit_bytes_eq_self: "take_bit (8 * n) w = (w :: u64) \<longleftrightarrow> unat w < 2 ^ (8 * n)"
  by (simp add: word_unat_eq_iff unsigned_take_bit_eq take_bit_nat_eq_self_iff)

lemma ucast_ucast_self [simp]:
  "LENGTH('a::len) \<le> LENGTH('b::len) \<Longrightarrow> ucast (ucast (w :: 'a word) :: 'b word) = w"
  by (rule bit_word_eqI) (simp add: bit_simps)

lemma ucast_take_bit_ucast_le:
  "LENGTH('b::len) \<le> n \<Longrightarrow> ucast (take_bit n (w :: 'a::len word)) = (ucast w :: 'b word)"
  by (rule bit_word_eqI) (simp add: bit_simps)

text \<open>The values of casts and shifts as natural numbers.\<close>

lemma unat_ucast_mod:
  "unat (ucast (w :: 'a::len word) :: 'b::len word) = unat w mod 2 ^ LENGTH('b)"
  by (simp add: unsigned_ucast_eq take_bit_eq_mod)

lemma unat_less_power: "unat (w :: 'a::len word) < 2 ^ LENGTH('a)"
  by (rule unsigned_less)

lemma unat_drop_bit_div: "unat (drop_bit n (w :: 'a::len word)) = unat w div 2 ^ n"
  unfolding unat_drop_bit_eq by (rule drop_bit_eq_div)

lemma unat_push_bit_mult: "unat (push_bit n (v :: u64)) = unat v * 2 ^ n mod 2 ^ 64"
  unfolding unsigned_push_bit_eq by (simp only: push_bit_eq_mult take_bit_eq_mod) simp

lemma unat_push_bit_one: "n < 64 \<Longrightarrow> unat (push_bit n 1 :: u64) = 2 ^ n"
  using power_strict_increasing [of n 64 "2 :: nat"] unfolding unat_push_bit_mult by simp

lemma ge_push_bit_one: "n < 64 \<Longrightarrow> push_bit n 1 \<le> (v :: u64) \<longleftrightarrow> 2 ^ n \<le> unat v"
  by (simp only: word_le_nat_alt unat_push_bit_one)

section \<open>64-bit arithmetic on natural numbers\<close>

definition U64_MAX :: nat where
  "U64_MAX = 2 ^ 64 - 1"

definition u64_add :: "nat \<Rightarrow> nat \<Rightarrow> nat" where
  "u64_add a b = (a + b) mod 2 ^ 64"

definition u64_sub :: "nat \<Rightarrow> nat \<Rightarrow> nat" where
  "u64_sub a b = (a + (2 ^ 64 - b mod 2 ^ 64)) mod 2 ^ 64"

lemma u64_add_small [u64_simps]: "a + b < 2 ^ 64 \<Longrightarrow> u64_add a b = a + b"
  by (simp add: u64_add_def)

lemma u64_sub_small [u64_simps]: "b \<le> a \<Longrightarrow> a < 2 ^ 64 \<Longrightarrow> u64_sub a b = a - b"
  by (simp add: u64_sub_def mod_if)

lemma u64_add_less [simp]: "u64_add a b < 2 ^ 64"
  by (simp add: u64_add_def)

lemma u64_sub_less [simp]: "u64_sub a b < 2 ^ 64"
  by (simp add: u64_sub_def)

end
