(* ===== verification/Quic_Data_Reader.thy ===== *)
theory Quic_Data_Reader
  imports Quic_Prelude
begin

text \<open>
  The model of \<open>QuicDataReader\<close> (src/quic/core/quic_data_reader.cc): a cursor over a byte buffer.
  Each \<open>Read\<close> method returns the value it stores in its out-parameter, or \<open>None\<close> where
  the method returns false, together with the reader afterwards: a failed read moves the cursor
  to the end for most methods, and leaves it in place for the variable-length integers.
  \<open>NETWORK_BYTE_ORDER\<close> integers are big endian and \<open>HOST_BYTE_ORDER\<close> integers are little
  endian, as the \<open>Endianness\<close> enumeration documents.
\<close>

section \<open>State\<close>

datatype Endianness = NETWORK_BYTE_ORDER | HOST_BYTE_ORDER

record QuicDataReader =
  rd_data :: "byte list"
  rd_len :: nat
  rd_pos :: nat
  rd_endianness :: Endianness

definition new_QuicDataReader :: "byte list \<Rightarrow> Endianness \<Rightarrow> QuicDataReader" where
  "new_QuicDataReader bs e =
     \<lparr>rd_data = bs, rd_len = length bs, rd_pos = 0, rd_endianness = e\<rparr>"

text \<open>The representation invariant: the cursor is within the length, the length within the buffer.\<close>

definition reader_ok :: "QuicDataReader \<Rightarrow> bool" where
  "reader_ok r \<longleftrightarrow> rd_pos r \<le> rd_len r \<and> rd_len r \<le> length (rd_data r)"

text \<open>The image of an integer in the byte order \<open>e\<close> and its value.\<close>

definition int_image :: "Endianness \<Rightarrow> nat \<Rightarrow> u64 \<Rightarrow> byte list" where
  "int_image e n v = (case e of NETWORK_BYTE_ORDER \<Rightarrow> be_bytes n v | HOST_BYTE_ORDER \<Rightarrow> le_bytes n v)"

definition int_value :: "Endianness \<Rightarrow> byte list \<Rightarrow> u64" where
  "int_value e bs = (case e of NETWORK_BYTE_ORDER \<Rightarrow> be_word bs | HOST_BYTE_ORDER \<Rightarrow> le_word bs)"

section \<open>Operations\<close>

definition CanRead :: "nat \<Rightarrow> QuicDataReader \<Rightarrow> bool" where
  "CanRead bytes r \<longleftrightarrow> bytes \<le> rd_len r - rd_pos r"

definition OnFailure :: "QuicDataReader \<Rightarrow> QuicDataReader" where
  "OnFailure r = r\<lparr>rd_pos := rd_len r\<rparr>"

definition BytesRemaining :: "QuicDataReader \<Rightarrow> nat" where
  "BytesRemaining r = rd_len r - rd_pos r"

definition IsDoneReading :: "QuicDataReader \<Rightarrow> bool" where
  "IsDoneReading r \<longleftrightarrow> rd_len r = rd_pos r"

definition PeekRemainingPayload :: "QuicDataReader \<Rightarrow> byte list" where
  "PeekRemainingPayload r = take (rd_len r - rd_pos r) (drop (rd_pos r) (rd_data r))"

definition ReadRemainingPayload :: "QuicDataReader \<Rightarrow> byte list \<times> QuicDataReader" where
  "ReadRemainingPayload r = (PeekRemainingPayload r, r\<lparr>rd_pos := rd_len r\<rparr>)"

definition ReadBytes :: "nat \<Rightarrow> QuicDataReader \<Rightarrow> byte list option \<times> QuicDataReader" where
  "ReadBytes sz r =
     (if \<not> CanRead sz r then (None, OnFailure r)
      else (Some (take sz (drop (rd_pos r) (rd_data r))), r\<lparr>rd_pos := rd_pos r + sz\<rparr>))"

definition ReadStringPiece :: "nat \<Rightarrow> QuicDataReader \<Rightarrow> byte list option \<times> QuicDataReader" where
  "ReadStringPiece sz r =
     (if \<not> CanRead sz r then (None, OnFailure r)
      else (Some (take sz (drop (rd_pos r) (rd_data r))), r\<lparr>rd_pos := rd_pos r + sz\<rparr>))"

definition Seek_reader :: "nat \<Rightarrow> QuicDataReader \<Rightarrow> bool \<times> QuicDataReader" where
  "Seek_reader sz r =
     (if \<not> CanRead sz r then (False, OnFailure r)
      else (True, r\<lparr>rd_pos := rd_pos r + sz\<rparr>))"

definition TruncateRemaining :: "nat \<Rightarrow> QuicDataReader \<Rightarrow> bool \<times> QuicDataReader" where
  "TruncateRemaining truncation_length r =
     (if truncation_length > BytesRemaining r then (False, r)
      else (True, r\<lparr>rd_len := rd_pos r + truncation_length\<rparr>))"

definition PeekByte :: "QuicDataReader \<Rightarrow> u8" where
  "PeekByte r = (if rd_pos r \<ge> rd_len r then 0 else rd_data r ! rd_pos r)"

definition ReadUInt8 :: "QuicDataReader \<Rightarrow> u8 option \<times> QuicDataReader" where
  "ReadUInt8 r =
     (case ReadBytes 1 r of
        (None, r') \<Rightarrow> (None, r')
      | (Some bs, r') \<Rightarrow> (Some (ucast (le_word bs)), r'))"

definition ReadUInt16 :: "QuicDataReader \<Rightarrow> u16 option \<times> QuicDataReader" where
  "ReadUInt16 r =
     (case ReadBytes 2 r of
        (None, r') \<Rightarrow> (None, r')
      | (Some bs, r') \<Rightarrow> (Some (ucast (int_value (rd_endianness r) bs)), r'))"

definition ReadUInt32 :: "QuicDataReader \<Rightarrow> u32 option \<times> QuicDataReader" where
  "ReadUInt32 r =
     (case ReadBytes 4 r of
        (None, r') \<Rightarrow> (None, r')
      | (Some bs, r') \<Rightarrow> (Some (ucast (int_value (rd_endianness r) bs)), r'))"

definition ReadUInt64 :: "QuicDataReader \<Rightarrow> u64 option \<times> QuicDataReader" where
  "ReadUInt64 r =
     (case ReadBytes 8 r of
        (None, r') \<Rightarrow> (None, r')
      | (Some bs, r') \<Rightarrow> (Some (int_value (rd_endianness r) bs), r'))"

text \<open>
  The network-order case reads the bytes into the last \<open>num_bytes\<close> positions of a zeroed
  eight-byte image; the host-order case into the first ones.
\<close>

definition ReadBytesToUInt64 :: "nat \<Rightarrow> QuicDataReader \<Rightarrow> u64 option \<times> QuicDataReader" where
  "ReadBytesToUInt64 num_bytes r =
     (if num_bytes > 8 then (None, r)
      else case rd_endianness r of
        HOST_BYTE_ORDER \<Rightarrow>
          (case ReadBytes num_bytes r of
             (None, r') \<Rightarrow> (None, r')
           | (Some bs, r') \<Rightarrow> (Some (le_word (bs @ replicate (8 - num_bytes) 0)), r'))
      | NETWORK_BYTE_ORDER \<Rightarrow>
          (case ReadBytes num_bytes r of
             (None, r') \<Rightarrow> (None, r')
           | (Some bs, r') \<Rightarrow> (Some (be_word (replicate (8 - num_bytes) 0 @ bs)), r')))"

definition kUFloat16ExponentBits :: nat where
  "kUFloat16ExponentBits = 5"

definition kUFloat16MaxExponent :: nat where
  "kUFloat16MaxExponent = 2 ^ kUFloat16ExponentBits - 2"

definition kUFloat16MantissaBits :: nat where
  "kUFloat16MantissaBits = 16 - kUFloat16ExponentBits"

definition kUFloat16MantissaEffectiveBits :: nat where
  "kUFloat16MantissaEffectiveBits = kUFloat16MantissaBits + 1"

definition kUFloat16MaxValue :: u64 where
  "kUFloat16MaxValue =
     push_bit kUFloat16MaxExponent (push_bit kUFloat16MantissaEffectiveBits 1 - 1)"

definition ufloat16_decode :: "u16 \<Rightarrow> u64" where
  "ufloat16_decode value =
     (if (ucast value :: u64) < push_bit kUFloat16MantissaEffectiveBits 1 then ucast value
      else
        let exponent = drop_bit kUFloat16MantissaBits value - 1
        in push_bit (unat exponent)
             (ucast value - push_bit kUFloat16MantissaBits (ucast exponent)))"

definition ReadUFloat16 :: "QuicDataReader \<Rightarrow> u64 option \<times> QuicDataReader" where
  "ReadUFloat16 r =
     (case ReadUInt16 r of
        (None, r') \<Rightarrow> (None, r')
      | (Some value, r') \<Rightarrow> (Some (ufloat16_decode value), r'))"

definition ReadStringPiece16 :: "QuicDataReader \<Rightarrow> byte list option \<times> QuicDataReader" where
  "ReadStringPiece16 r =
     (case ReadUInt16 r of
        (None, r') \<Rightarrow> (None, r')
      | (Some result_len, r') \<Rightarrow> ReadStringPiece (unat result_len) r')"

definition kQuicMaxConnectionIdLength :: nat where
  "kQuicMaxConnectionIdLength = 18"

text \<open>
  \<open>use_allocated\<close> is the restart flag \<open>quic_use_allocated_connection_ids\<close>: with it, a short
  buffer is detected before reading and the cursor stays.
\<close>

definition ReadConnectionId ::
    "bool \<Rightarrow> nat \<Rightarrow> QuicDataReader \<Rightarrow> byte list option \<times> QuicDataReader" where
  "ReadConnectionId use_allocated len r =
     (if len > kQuicMaxConnectionIdLength then (None, r)
      else if len = 0 then (Some [], r)
      else if \<not> use_allocated then ReadBytes len r
      else if BytesRemaining r < len then (None, r)
      else ReadBytes len r)"

definition ReadTag :: "QuicDataReader \<Rightarrow> u32 option \<times> QuicDataReader" where
  "ReadTag r =
     (case ReadBytes 4 r of
        (None, r') \<Rightarrow> (None, r')
      | (Some bs, r') \<Rightarrow> (Some (ucast (le_word bs)), r'))"

definition PeekVarInt62Length :: "QuicDataReader \<Rightarrow> nat" where
  "PeekVarInt62Length r =
     (if BytesRemaining r = 0 then 0
      else 2 ^ unat (drop_bit 6 (rd_data r ! rd_pos r AND 0xC0)))"

definition ReadVarInt62 :: "QuicDataReader \<Rightarrow> u64 option \<times> QuicDataReader" where
  "ReadVarInt62 r =
     (let remaining = BytesRemaining r;
          next = (\<lambda>i. ucast (rd_data r ! (rd_pos r + i)) :: u64);
          first = rd_data r ! rd_pos r AND 0xC0
      in if remaining \<noteq> 0 then
           (if first = 0xC0 then
              (if remaining \<ge> 8 then
                 (Some (push_bit 56 (next 0 AND 0x3F) + push_bit 48 (next 1) +
                        push_bit 40 (next 2) + push_bit 32 (next 3) + push_bit 24 (next 4) +
                        push_bit 16 (next 5) + push_bit 8 (next 6) + next 7),
                  r\<lparr>rd_pos := rd_pos r + 8\<rparr>)
               else (None, r))
            else if first = 0x80 then
              (if remaining \<ge> 4 then
                 (Some (push_bit 24 (next 0 AND 0x3F) + push_bit 16 (next 1) +
                        push_bit 8 (next 2) + next 3),
                  r\<lparr>rd_pos := rd_pos r + 4\<rparr>)
               else (None, r))
            else if first = 0x40 then
              (if remaining \<ge> 2 then
                 (Some (push_bit 8 (next 0 AND 0x3F) + next 1), r\<lparr>rd_pos := rd_pos r + 2\<rparr>)
               else (None, r))
            else (Some (next 0 AND 0x3F), r\<lparr>rd_pos := rd_pos r + 1\<rparr>))
         else (None, r))"

definition kMaxQuicStreamId :: nat where
  "kMaxQuicStreamId = 0xFFFFFFFF"

definition ReadVarIntU32 :: "QuicDataReader \<Rightarrow> u32 option \<times> QuicDataReader" where
  "ReadVarIntU32 r =
     (case ReadVarInt62 r of
        (None, r') \<Rightarrow> (None, r')
      | (Some temp, r') \<Rightarrow>
          if unat temp > kMaxQuicStreamId then (None, r') else (Some (ucast temp), r'))"

section \<open>Reading from the bytes that remain\<close>

definition advance :: "nat \<Rightarrow> QuicDataReader \<Rightarrow> QuicDataReader" where
  "advance n r = r\<lparr>rd_pos := rd_pos r + n\<rparr>"

lemma advance_0 [simp]: "advance 0 r = r"
  by (simp add: advance_def)

lemma advance_advance [simp]: "advance m (advance n r) = advance (n + m) r"
  by (simp add: advance_def add.assoc)

lemma rd_endianness_advance [simp]: "rd_endianness (advance n r) = rd_endianness r"
  by (simp add: advance_def)

lemma length_PeekRemainingPayload:
  "reader_ok r \<Longrightarrow> length (PeekRemainingPayload r) = BytesRemaining r"
  by (auto simp: reader_ok_def PeekRemainingPayload_def BytesRemaining_def)

lemma PeekRemainingPayload_advance [wire_simps]:
  "PeekRemainingPayload (advance n r) = drop n (PeekRemainingPayload r)"
  by (simp add: PeekRemainingPayload_def advance_def drop_take add.commute)

lemma reader_ok_advance [intro]:
  "reader_ok r \<Longrightarrow> n \<le> length (PeekRemainingPayload r) \<Longrightarrow> reader_ok (advance n r)"
  by (auto simp: length_PeekRemainingPayload BytesRemaining_def reader_ok_def advance_def)

lemma nth_PeekRemainingPayload:
  "i < length (PeekRemainingPayload r) \<Longrightarrow>
     rd_data r ! (rd_pos r + i) = PeekRemainingPayload r ! i"
  by (auto simp: PeekRemainingPayload_def)

text \<open>The one fact about the cursor all readers rest on: a read returns a prefix of what remains.\<close>

lemma ReadBytes_prefix [wire_simps]:
  assumes "reader_ok r" and "PeekRemainingPayload r = bs @ t" and "length bs = n"
  shows "ReadBytes n r = (Some bs, advance n r)"
proof -
  have n: "n \<le> BytesRemaining r"
    using assms length_PeekRemainingPayload [of r] by simp
  have "take n (drop (rd_pos r) (rd_data r)) = take n (PeekRemainingPayload r)"
    using n by (simp add: PeekRemainingPayload_def BytesRemaining_def min_def)
  with n assms show ?thesis
    by (simp add: ReadBytes_def CanRead_def BytesRemaining_def advance_def)
qed

lemma ReadBytes_short:
  assumes "BytesRemaining r < n"
  shows "ReadBytes n r = (None, r\<lparr>rd_pos := rd_len r\<rparr>)"
  using assms by (simp add: ReadBytes_def CanRead_def BytesRemaining_def OnFailure_def)

lemma ReadStringPiece_eq_ReadBytes: "ReadStringPiece n r = ReadBytes n r"
  by (simp add: ReadStringPiece_def ReadBytes_def)

lemma int_value_image: "int_value e (int_image e n v) = take_bit (8 * n) v"
  by (cases e) (simp_all add: int_value_def int_image_def be_word_be_bytes le_word_le_bytes)

lemma length_int_image [simp]: "length (int_image e n v) = n"
  by (cases e) (simp_all add: int_image_def)

lemma ReadUInt8_prefix [wire_simps]:
  "reader_ok r \<Longrightarrow> PeekRemainingPayload r = b # t \<Longrightarrow> ReadUInt8 r = (Some b, advance 1 r)"
  by (simp add: ReadUInt8_def ReadBytes_prefix [where bs = "[b]"])

lemma ReadUInt16_prefix [wire_simps]:
  "reader_ok r \<Longrightarrow> PeekRemainingPayload r = int_image (rd_endianness r) 2 (ucast v) @ t \<Longrightarrow>
     ReadUInt16 r = (Some v, advance 2 r)"
  by (simp add: ReadUInt16_def ReadBytes_prefix int_value_image ucast_take_bit_ucast_le)

lemma ReadUInt32_prefix [wire_simps]:
  "reader_ok r \<Longrightarrow> PeekRemainingPayload r = int_image (rd_endianness r) 4 (ucast v) @ t \<Longrightarrow>
     ReadUInt32 r = (Some v, advance 4 r)"
  by (simp add: ReadUInt32_def ReadBytes_prefix int_value_image ucast_take_bit_ucast_le)

lemma ReadUInt64_prefix [wire_simps]:
  "reader_ok r \<Longrightarrow> PeekRemainingPayload r = int_image (rd_endianness r) 8 v @ t \<Longrightarrow>
     ReadUInt64 r = (Some v, advance 8 r)"
  by (simp add: ReadUInt64_def ReadBytes_prefix int_value_image)

text \<open>Zero bytes above the most significant one do not change the value.\<close>

lemma le_word_append_zeros: "le_word (bs @ replicate m 0) = le_word bs"
proof (induction bs)
  case Nil
  show ?case by (induction m) simp_all
next
  case (Cons b bs)
  then show ?case by simp
qed

lemma be_word_zeros_append: "be_word (replicate m 0 @ bs) = be_word bs"
  by (simp add: be_word_def le_word_append_zeros)

lemma ReadBytesToUInt64_prefix [wire_simps]:
  assumes "reader_ok r" and "PeekRemainingPayload r = int_image (rd_endianness r) n v @ t"
    and "n \<le> 8"
  shows "ReadBytesToUInt64 n r = (Some (take_bit (8 * n) v), advance n r)"
  using assms
  by (cases "rd_endianness r")
    (simp_all add: ReadBytesToUInt64_def ReadBytes_prefix int_image_def le_word_append_zeros
      be_word_zeros_append le_word_le_bytes be_word_be_bytes)

section \<open>Cursor safety\<close>

text \<open>One step is one call of a method that may move the cursor or shorten the reader.\<close>

inductive reader_step :: "QuicDataReader \<Rightarrow> QuicDataReader \<Rightarrow> bool" where
  bytes: "reader_step r (snd (ReadBytes n r))"
| string: "reader_step r (snd (ReadStringPiece n r))"
| seek: "reader_step r (snd (Seek_reader n r))"
| truncate: "reader_step r (snd (TruncateRemaining n r))"
| remaining: "reader_step r (snd (ReadRemainingPayload r))"
| uint8: "reader_step r (snd (ReadUInt8 r))"
| uint16: "reader_step r (snd (ReadUInt16 r))"
| uint32: "reader_step r (snd (ReadUInt32 r))"
| uint64: "reader_step r (snd (ReadUInt64 r))"
| low_bytes: "reader_step r (snd (ReadBytesToUInt64 n r))"
| ufloat16: "reader_step r (snd (ReadUFloat16 r))"
| string16: "reader_step r (snd (ReadStringPiece16 r))"
| connection_id: "reader_step r (snd (ReadConnectionId flag n r))"
| tag: "reader_step r (snd (ReadTag r))"
| varint62: "reader_step r (snd (ReadVarInt62 r))"
| varint32: "reader_step r (snd (ReadVarIntU32 r))"

definition cursor_moved :: "QuicDataReader \<Rightarrow> QuicDataReader \<Rightarrow> bool" where
  "cursor_moved r r' \<longleftrightarrow> reader_ok r' \<and> rd_data r' = rd_data r \<and> rd_pos r \<le> rd_pos r' \<and>
     rd_len r' \<le> rd_len r"

lemma cursor_moved_refl: "reader_ok r \<Longrightarrow> cursor_moved r r"
  by (simp add: cursor_moved_def)

lemma cursor_moved_trans: "cursor_moved r s \<Longrightarrow> cursor_moved s t \<Longrightarrow> cursor_moved r t"
  by (auto simp: cursor_moved_def)

lemma cursor_moved_bytes: "reader_ok r \<Longrightarrow> cursor_moved r (snd (ReadBytes n r))"
  by (auto simp: ReadBytes_def CanRead_def OnFailure_def reader_ok_def cursor_moved_def)

lemma cursor_moved_uint16: "reader_ok r \<Longrightarrow> cursor_moved r (snd (ReadUInt16 r))"
  using cursor_moved_bytes [of r 2]
  by (auto simp: ReadUInt16_def split: prod.splits option.splits)

lemma cursor_moved_varint62: "reader_ok r \<Longrightarrow> cursor_moved r (snd (ReadVarInt62 r))"
  by (auto simp: ReadVarInt62_def BytesRemaining_def reader_ok_def cursor_moved_def Let_def)

lemma reader_step_cursor_moved: "reader_step r r' \<Longrightarrow> reader_ok r \<Longrightarrow> cursor_moved r r'"
proof (induction rule: reader_step.induct)
  case (string16 r)
  obtain x s where rs: "ReadUInt16 r = (x, s)" by fastforce
  then have m: "cursor_moved r s" and "reader_ok s"
    using string16 cursor_moved_uint16 [of r] by (auto simp: cursor_moved_def)
  then have "cursor_moved r (snd (ReadBytes n s))" for n
    by (blast intro: cursor_moved_trans cursor_moved_bytes)
  with rs m show ?case
    by (cases x) (simp_all add: ReadStringPiece16_def ReadStringPiece_eq_ReadBytes)
next
  case (low_bytes r n)
  then show ?case
    using cursor_moved_bytes [of r n]
    by (auto simp: ReadBytesToUInt64_def cursor_moved_refl split: Endianness.splits prod.splits option.splits)
next
  case (varint32 r)
  then show ?case
    using cursor_moved_varint62 [of r]
    by (auto simp: ReadVarIntU32_def split: prod.splits option.splits)
next
  case (connection_id r flag n)
  then show ?case by (auto simp: ReadConnectionId_def cursor_moved_refl cursor_moved_bytes)
next
  case (seek r n)
  then show ?case
    by (auto simp: Seek_reader_def CanRead_def OnFailure_def reader_ok_def cursor_moved_def)
next
  case (truncate r n)
  then show ?case
    by (auto simp: TruncateRemaining_def BytesRemaining_def reader_ok_def cursor_moved_def)
next
  case (remaining r)
  then show ?case by (simp add: ReadRemainingPayload_def reader_ok_def cursor_moved_def)
next
  case (uint8 r)
  then show ?case
    using cursor_moved_bytes [of r 1] by (auto simp: ReadUInt8_def split: prod.splits option.splits)
next
  case (uint32 r)
  then show ?case
    using cursor_moved_bytes [of r 4] by (auto simp: ReadUInt32_def split: prod.splits option.splits)
next
  case (uint64 r)
  then show ?case
    using cursor_moved_bytes [of r 8] by (auto simp: ReadUInt64_def split: prod.splits option.splits)
next
  case (ufloat16 r)
  then show ?case
    using cursor_moved_uint16 [of r] by (auto simp: ReadUFloat16_def split: prod.splits option.splits)
next
  case (tag r)
  then show ?case
    using cursor_moved_bytes [of r 4] by (auto simp: ReadTag_def split: prod.splits option.splits)
qed (simp_all add: cursor_moved_bytes cursor_moved_uint16 cursor_moved_varint62
    ReadStringPiece_eq_ReadBytes)

text \<open>
  C32: no sequence of reader calls, successful or not, moves the cursor past the length or the
  length past the buffer, changes the data, moves the cursor back, or makes the reader longer.
\<close>

theorem reader_steps_safe:
  assumes "reader_step\<^sup>*\<^sup>* r r'" and "reader_ok r"
  shows "reader_ok r' \<and> rd_data r' = rd_data r \<and> rd_pos r \<le> rd_pos r' \<and> rd_len r' \<le> rd_len r"
proof -
  have "cursor_moved r r'"
    using assms
  proof (induction rule: rtranclp_induct)
    case base
    then show ?case by (rule cursor_moved_refl)
  next
    case (step s t)
    then have "cursor_moved r s" and "reader_ok s" by (auto simp: cursor_moved_def)
    with step show ?case by (blast intro: cursor_moved_trans reader_step_cursor_moved)
  qed
  then show ?thesis by (simp add: cursor_moved_def)
qed

theorem reader_steps_safe_witness:
  "reader_ok (snd (ReadUInt32 (snd (ReadUInt8 (new_QuicDataReader [1, 2, 3] NETWORK_BYTE_ORDER))))) \<and>
   fst (ReadUInt32 (snd (ReadUInt8 (new_QuicDataReader [1, 2, 3] NETWORK_BYTE_ORDER)))) = None"
proof -
  let ?r = "new_QuicDataReader [1, 2, 3] NETWORK_BYTE_ORDER"
  have "reader_step\<^sup>*\<^sup>* ?r (snd (ReadUInt32 (snd (ReadUInt8 ?r))))"
    by (meson converse_rtranclp_into_rtranclp rtranclp.rtrancl_refl reader_step.intros)
  moreover have "reader_ok ?r" by (simp add: new_QuicDataReader_def reader_ok_def)
  moreover have "fst (ReadUInt32 (snd (ReadUInt8 ?r))) = None" by code_simp
  ultimately show ?thesis using reader_steps_safe by blast
qed

end
