(* ===== verification/Quic_Data_Writer.thy ===== *)
theory Quic_Data_Writer
  imports Quic_Data_Reader
begin

text \<open>
  The model of \<open>QuicDataWriter\<close> (src/quic/core/quic_data_writer.cc): a cursor over a fixed buffer.
  Each \<open>Write\<close> method returns the boolean of the source and the writer afterwards; a method
  that fails half-way leaves the part it wrote, as the source does. The second part of the theory
  gives each method as an append to the bytes written so far.
\<close>

section \<open>State\<close>

record QuicDataWriter =
  wr_buffer :: "byte list"
  wr_capacity :: nat
  wr_length :: nat
  wr_endianness :: Endianness

definition new_QuicDataWriter :: "byte list \<Rightarrow> Endianness \<Rightarrow> QuicDataWriter" where
  "new_QuicDataWriter buf e =
     \<lparr>wr_buffer = buf, wr_capacity = length buf, wr_length = 0, wr_endianness = e\<rparr>"

definition writer_ok :: "QuicDataWriter \<Rightarrow> bool" where
  "writer_ok w \<longleftrightarrow> wr_length w \<le> wr_capacity w \<and> wr_capacity w = length (wr_buffer w)"

definition written :: "QuicDataWriter \<Rightarrow> byte list" where
  "written w = take (wr_length w) (wr_buffer w)"

definition remaining :: "QuicDataWriter \<Rightarrow> nat" where
  "remaining w = wr_capacity w - wr_length w"

section \<open>Operations\<close>

text \<open>\<open>BeginWrite\<close> gives the position to write at, \<open>None\<close> for the null pointer.\<close>

definition BeginWrite :: "nat \<Rightarrow> QuicDataWriter \<Rightarrow> nat option" where
  "BeginWrite len w =
     (if wr_length w > wr_capacity w then None
      else if wr_capacity w - wr_length w < len then None
      else Some (wr_length w))"

text \<open>\<open>memcpy\<close> and \<open>memset\<close> into the buffer at a position.\<close>

definition memcpy :: "byte list \<Rightarrow> nat \<Rightarrow> byte list \<Rightarrow> byte list" where
  "memcpy buf dest bs = take dest buf @ bs @ drop (dest + length bs) buf"

definition WriteBytes :: "byte list \<Rightarrow> QuicDataWriter \<Rightarrow> bool \<times> QuicDataWriter" where
  "WriteBytes bs w =
     (case BeginWrite (length bs) w of
        None \<Rightarrow> (False, w)
      | Some dest \<Rightarrow>
          (True, w\<lparr>wr_buffer := memcpy (wr_buffer w) dest bs,
                   wr_length := wr_length w + length bs\<rparr>))"

text \<open>The short-circuit conjunction of two writes.\<close>

definition and_then ::
    "(QuicDataWriter \<Rightarrow> bool \<times> QuicDataWriter) \<Rightarrow> (QuicDataWriter \<Rightarrow> bool \<times> QuicDataWriter) \<Rightarrow>
       QuicDataWriter \<Rightarrow> bool \<times> QuicDataWriter" where
  "and_then f g w = (case f w of (True, w') \<Rightarrow> g w' | (False, w') \<Rightarrow> (False, w'))"

definition WriteUInt8 :: "u8 \<Rightarrow> QuicDataWriter \<Rightarrow> bool \<times> QuicDataWriter" where
  "WriteUInt8 v w = WriteBytes [v] w"

definition WriteUInt16 :: "u16 \<Rightarrow> QuicDataWriter \<Rightarrow> bool \<times> QuicDataWriter" where
  "WriteUInt16 v w = WriteBytes (int_image (wr_endianness w) 2 (ucast v)) w"

definition WriteUInt32 :: "u32 \<Rightarrow> QuicDataWriter \<Rightarrow> bool \<times> QuicDataWriter" where
  "WriteUInt32 v w = WriteBytes (int_image (wr_endianness w) 4 (ucast v)) w"

definition WriteUInt64 :: "u64 \<Rightarrow> QuicDataWriter \<Rightarrow> bool \<times> QuicDataWriter" where
  "WriteUInt64 v w = WriteBytes (int_image (wr_endianness w) 8 v) w"

definition WriteBytesToUInt64 :: "nat \<Rightarrow> u64 \<Rightarrow> QuicDataWriter \<Rightarrow> bool \<times> QuicDataWriter" where
  "WriteBytesToUInt64 num_bytes v w =
     (if num_bytes > 8 then (False, w)
      else case wr_endianness w of
        HOST_BYTE_ORDER \<Rightarrow> WriteBytes (take num_bytes (le_bytes 8 v)) w
      | NETWORK_BYTE_ORDER \<Rightarrow> WriteBytes (drop (8 - num_bytes) (be_bytes 8 v)) w)"

text \<open>
  The binary search of \<open>WriteUFloat16\<close>: the offset is halved from 16 down to 1, and the value is
  shifted right whenever it reaches bit \<open>11 + offset\<close>.
\<close>

fun ufloat16_shift :: "nat \<Rightarrow> u64 \<Rightarrow> nat \<Rightarrow> u64 \<times> nat" where
  "ufloat16_shift offset value exponent =
     (if offset = 0 then (value, exponent)
      else if value \<ge> push_bit (kUFloat16MantissaBits + offset) 1
      then ufloat16_shift (offset div 2) (drop_bit offset value) (exponent + offset)
      else ufloat16_shift (offset div 2) value exponent)"

definition ufloat16_encode :: "u64 \<Rightarrow> u16" where
  "ufloat16_encode value =
     (if value < push_bit kUFloat16MantissaEffectiveBits 1 then ucast value
      else if value \<ge> kUFloat16MaxValue then 0xFFFF
      else
        let (v, exponent) = ufloat16_shift 16 value 0
        in ucast (v + push_bit kUFloat16MantissaBits (word_of_nat exponent)))"

definition WriteUFloat16 :: "u64 \<Rightarrow> QuicDataWriter \<Rightarrow> bool \<times> QuicDataWriter" where
  "WriteUFloat16 value w =
     WriteBytes (int_image (wr_endianness w) 2 (ucast (ufloat16_encode value))) w"

definition WriteStringPiece :: "byte list \<Rightarrow> QuicDataWriter \<Rightarrow> bool \<times> QuicDataWriter" where
  "WriteStringPiece val w = WriteBytes val w"

definition WriteStringPiece16 :: "byte list \<Rightarrow> QuicDataWriter \<Rightarrow> bool \<times> QuicDataWriter" where
  "WriteStringPiece16 val w =
     (if length val > 0xFFFF then (False, w)
      else and_then (WriteUInt16 (word_of_nat (length val))) (WriteBytes val) w)"

definition WriteRepeatedByte :: "u8 \<Rightarrow> nat \<Rightarrow> QuicDataWriter \<Rightarrow> bool \<times> QuicDataWriter" where
  "WriteRepeatedByte b count w =
     (case BeginWrite count w of
        None \<Rightarrow> (False, w)
      | Some dest \<Rightarrow>
          (True, w\<lparr>wr_buffer := memcpy (wr_buffer w) dest (replicate count b),
                   wr_length := wr_length w + count\<rparr>))"

definition WritePadding :: "QuicDataWriter \<Rightarrow> QuicDataWriter" where
  "WritePadding w =
     (if wr_length w > wr_capacity w then w
      else w\<lparr>wr_buffer :=
               memcpy (wr_buffer w) (wr_length w) (replicate (wr_capacity w - wr_length w) 0),
             wr_length := wr_capacity w\<rparr>)"

definition WritePaddingBytes :: "nat \<Rightarrow> QuicDataWriter \<Rightarrow> bool \<times> QuicDataWriter" where
  "WritePaddingBytes count w = WriteRepeatedByte 0 count w"

definition WriteConnectionId :: "byte list \<Rightarrow> QuicDataWriter \<Rightarrow> bool \<times> QuicDataWriter" where
  "WriteConnectionId connection_id w =
     (if connection_id = [] then (True, w) else WriteBytes connection_id w)"

definition WriteTag :: "u32 \<Rightarrow> QuicDataWriter \<Rightarrow> bool \<times> QuicDataWriter" where
  "WriteTag tag w = WriteBytes (le_bytes 4 (ucast tag)) w"

text \<open>\<open>rand_bytes\<close> is the random source \<open>QuicRandom::RandBytes\<close>, a parameter.\<close>

definition WriteRandomBytes ::
    "(nat \<Rightarrow> byte list) \<Rightarrow> nat \<Rightarrow> QuicDataWriter \<Rightarrow> bool \<times> QuicDataWriter" where
  "WriteRandomBytes rand_bytes len w =
     (case BeginWrite len w of
        None \<Rightarrow> (False, w)
      | Some dest \<Rightarrow>
          (True, w\<lparr>wr_buffer := memcpy (wr_buffer w) dest (rand_bytes len),
                   wr_length := wr_length w + len\<rparr>))"

definition Seek_writer :: "nat \<Rightarrow> QuicDataWriter \<Rightarrow> bool \<times> QuicDataWriter" where
  "Seek_writer len w =
     (case BeginWrite len w of
        None \<Rightarrow> (False, w)
      | Some _ \<Rightarrow> (True, w\<lparr>wr_length := wr_length w + len\<rparr>))"

definition kVarInt62MaxValue :: u64 where
  "kVarInt62MaxValue = 0x3fffffffffffffff"

definition kVarInt62ErrorMask :: u64 where
  "kVarInt62ErrorMask = 0xc000000000000000"

definition kVarInt62Mask8Bytes :: u64 where
  "kVarInt62Mask8Bytes = 0x3fffffffc0000000"

definition kVarInt62Mask4Bytes :: u64 where
  "kVarInt62Mask4Bytes = 0x000000003fffc000"

definition kVarInt62Mask2Bytes :: u64 where
  "kVarInt62Mask2Bytes = 0x0000000000003fc0"

text \<open>Storing bytes at \<open>next = buffer_ + length_\<close> without \<open>BeginWrite\<close>.\<close>

definition store_next :: "byte list \<Rightarrow> QuicDataWriter \<Rightarrow> QuicDataWriter" where
  "store_next bs w =
     w\<lparr>wr_buffer := memcpy (wr_buffer w) (wr_length w) bs,
       wr_length := wr_length w + length bs\<rparr>"

definition WriteVarInt62 :: "u64 \<Rightarrow> QuicDataWriter \<Rightarrow> bool \<times> QuicDataWriter" where
  "WriteVarInt62 value w =
     (let rem = wr_capacity w - wr_length w
      in if value AND kVarInt62ErrorMask = 0 then
           (if value AND kVarInt62Mask8Bytes \<noteq> 0 then
              (if rem \<ge> 8 then
                 (True, store_next
                    [ucast ((drop_bit 56 value AND 0x3F) + 0xC0),
                     ucast (drop_bit 48 value AND 0xFF),
                     ucast (drop_bit 40 value AND 0xFF),
                     ucast (drop_bit 32 value AND 0xFF),
                     ucast (drop_bit 24 value AND 0xFF),
                     ucast (drop_bit 16 value AND 0xFF),
                     ucast (drop_bit 8 value AND 0xFF),
                     ucast (value AND 0xFF)] w)
               else (False, w))
            else if value AND kVarInt62Mask4Bytes \<noteq> 0 then
              (if rem \<ge> 4 then
                 (True, store_next
                    [ucast ((drop_bit 24 value AND 0x3F) + 0x80),
                     ucast (drop_bit 16 value AND 0xFF),
                     ucast (drop_bit 8 value AND 0xFF),
                     ucast (value AND 0xFF)] w)
               else (False, w))
            else if value AND kVarInt62Mask2Bytes \<noteq> 0 then
              (if rem \<ge> 2 then
                 (True, store_next
                    [ucast ((drop_bit 8 value AND 0x3F) + 0x40),
                     ucast (value AND 0xFF)] w)
               else (False, w))
            else if rem \<ge> 1 then (True, store_next [ucast (value AND 0x3F)] w)
            else (False, w))
         else (False, w))"

definition GetVarInt62Len :: "u64 \<Rightarrow> nat" where
  "GetVarInt62Len value =
     (if value AND kVarInt62ErrorMask \<noteq> 0 then 0
      else if value AND kVarInt62Mask8Bytes \<noteq> 0 then 8
      else if value AND kVarInt62Mask4Bytes \<noteq> 0 then 4
      else if value AND kVarInt62Mask2Bytes \<noteq> 0 then 2
      else 1)"

definition WriteVarInt62_forced :: "u64 \<Rightarrow> nat \<Rightarrow> QuicDataWriter \<Rightarrow> bool \<times> QuicDataWriter" where
  "WriteVarInt62_forced value write_length w =
     (let rem = wr_capacity w - wr_length w; min_length = GetVarInt62Len value
      in if rem < write_length then (False, w)
         else if write_length < min_length then (False, w)
         else if write_length = min_length then WriteVarInt62 value w
         else if write_length = 2 then
           and_then (WriteUInt8 0x40) (WriteUInt8 (ucast value)) w
         else if write_length = 4 then
           and_then (WriteUInt8 0x80) (and_then (WriteUInt8 0) (WriteUInt16 (ucast value))) w
         else if write_length = 8 then
           and_then (WriteUInt8 0xC0)
             (and_then (WriteUInt8 0)
               (and_then (WriteUInt16 0) (WriteUInt32 (ucast value)))) w
         else (False, w))"

definition WriteStringPieceVarInt62 :: "byte list \<Rightarrow> QuicDataWriter \<Rightarrow> bool \<times> QuicDataWriter" where
  "WriteStringPieceVarInt62 string_piece w =
     (case WriteVarInt62 (word_of_nat (length string_piece)) w of
        (False, w') \<Rightarrow> (False, w')
      | (True, w') \<Rightarrow>
          if string_piece \<noteq> [] then WriteBytes string_piece w' else (True, w'))"

section \<open>Variable-length integers\<close>

text \<open>The masks of the source test exactly for the ranges of the four encodings.\<close>

lemma and_not_mask_eq_0: "(v :: u64) AND NOT (mask n) = 0 \<longleftrightarrow> unat v < 2 ^ n"
proof -
  have "v AND NOT (mask n) = 0 \<longleftrightarrow> take_bit n v = v"
    by (auto simp: bit_eq_iff bit_simps)
  also have "\<dots> \<longleftrightarrow> unat v < 2 ^ n"
    by (simp add: word_unat_eq_iff unsigned_take_bit_eq take_bit_nat_eq_self_iff)
  finally show ?thesis .
qed

lemma and_mask_range_eq_0:
  assumes "unat (v :: u64) < 2 ^ m"
  shows "v AND (mask m AND NOT (mask n)) = 0 \<longleftrightarrow> unat v < 2 ^ n"
proof -
  have "take_bit m v = v"
    using assms by (simp add: word_unat_eq_iff unsigned_take_bit_eq take_bit_nat_eq_self_iff)
  then have "v AND (mask m AND NOT (mask n)) = v AND NOT (mask n)"
    by (metis and.assoc take_bit_eq_mask)
  then show ?thesis by (simp only: and_not_mask_eq_0)
qed

lemma varint62_masks:
  "kVarInt62ErrorMask = NOT (mask 62)"
  "kVarInt62Mask8Bytes = mask 62 AND NOT (mask 30)"
  "kVarInt62Mask4Bytes = mask 30 AND NOT (mask 14)"
  "kVarInt62Mask2Bytes = mask 14 AND NOT (mask 6)"
  by (simp_all add: kVarInt62ErrorMask_def kVarInt62Mask8Bytes_def kVarInt62Mask4Bytes_def
      kVarInt62Mask2Bytes_def mask_eq_exp_minus_1)

lemma varint62_error_mask: "v AND kVarInt62ErrorMask = 0 \<longleftrightarrow> unat v < 2 ^ 62"
  unfolding varint62_masks by (rule and_not_mask_eq_0)

lemma varint62_range_masks:
  "unat v < 2 ^ 62 \<Longrightarrow> v AND kVarInt62Mask8Bytes = 0 \<longleftrightarrow> unat v < 2 ^ 30"
  "unat v < 2 ^ 30 \<Longrightarrow> v AND kVarInt62Mask4Bytes = 0 \<longleftrightarrow> unat v < 2 ^ 14"
  "unat v < 2 ^ 14 \<Longrightarrow> v AND kVarInt62Mask2Bytes = 0 \<longleftrightarrow> unat v < 2 ^ 6"
  unfolding varint62_masks by (rule and_mask_range_eq_0, assumption)+

lemma GetVarInt62Len_eq:
  "GetVarInt62Len v =
     (if unat v < 2 ^ 6 then 1 else if unat v < 2 ^ 14 then 2
      else if unat v < 2 ^ 30 then 4 else if unat v < 2 ^ 62 then 8 else 0)"
  by (simp add: GetVarInt62Len_def varint62_error_mask varint62_range_masks)

text \<open>A word is the sum of its shifted bytes; a tagged first byte keeps the tag and the value apart.\<close>

lemma mask_6_u64: "(0x3F :: u64) = mask 6" and mask_8_u64: "(0xFF :: u64) = mask 8"
  by (simp_all add: mask_eq_exp_minus_1)

lemma push_drop_byte:
  "push_bit n (drop_bit n (v :: u64)) =
     push_bit (n + 8) (drop_bit (n + 8) v) + push_bit n (drop_bit n v AND 0xFF)"
proof -
  have "push_bit (n + 8) (drop_bit (n + 8) v) AND push_bit n (drop_bit n v AND 0xFF) = 0"
    unfolding mask_8_u64 by (rule bit_word_eqI) (auto simp: bit_simps)
  then have e: "push_bit (n + 8) (drop_bit (n + 8) v) + push_bit n (drop_bit n v AND 0xFF) =
       push_bit (n + 8) (drop_bit (n + 8) v) OR push_bit n (drop_bit n v AND 0xFF)"
    by (rule disjunctive_add_eq_or)
  show ?thesis
    unfolding e unfolding mask_8_u64
  proof (rule bit_word_eqI)
    fix k
    show "bit (push_bit n (drop_bit n v)) k \<longleftrightarrow>
        bit (push_bit (n + 8) (drop_bit (n + 8) v) OR push_bit n (drop_bit n v AND mask 8)) k"
      by (cases "n + 8 \<le> k") (auto simp: bit_simps)
  qed
qed

lemma tag_or: "t \<in> {0x40, 0x80, 0xC0} \<Longrightarrow> (x AND 0x3F) + t = (x AND 0x3F) OR (t :: u64)"
  by (rule disjunctive_add_eq_or) (auto simp: and.assoc)

lemma low_six: "ucast (ucast y :: byte) AND (0x3F :: u64) = (y :: u64) AND 0x3F"
  unfolding mask_6_u64 by (rule bit_word_eqI) (auto simp: bit_simps)

lemma tag_byte:
  assumes "t \<in> {0x40, 0x80, 0xC0 :: u64}"
  shows "(ucast ((x AND 0x3F) + t) :: byte) AND 0xC0 = ucast t"
    and "ucast (ucast ((x AND 0x3F) + t) :: byte) AND (0x3F :: u64) = x AND 0x3F"
proof -
  have "(ucast ((x AND 0x3F) + t) :: byte) = (ucast x AND 0x3F) OR ucast t"
    using assms by (simp add: tag_or unsigned_or_eq unsigned_and_eq)
  then show "(ucast ((x AND 0x3F) + t) :: byte) AND 0xC0 = ucast t"
    using assms by (auto simp: bit.conj_disj_distrib2 and.assoc)
  have "ucast (ucast ((x AND 0x3F) + t) :: byte) AND (0x3F :: u64) = ((x AND 0x3F) OR t) AND 0x3F"
    by (simp add: low_six tag_or [OF assms])
  also have "\<dots> = x AND 0x3F"
    using assms by (auto simp: bit.conj_disj_distrib2 and.assoc)
  finally show "ucast (ucast ((x AND 0x3F) + t) :: byte) AND (0x3F :: u64) = x AND 0x3F" .
qed

lemma low_byte: "ucast (ucast (x AND 0xFF) :: byte) = (x AND 0xFF :: u64)"
  unfolding mask_8_u64 by (rule bit_word_eqI) (auto simp: bit_simps)

lemma top_bits:
  assumes "unat (v :: u64) < 2 ^ (n + 6)" shows "push_bit n (drop_bit n v AND 0x3F) = push_bit n (drop_bit n v)"
proof -
  have t: "take_bit (n + 6) v = v"
    using assms by (simp add: word_unat_eq_iff unsigned_take_bit_eq take_bit_nat_eq_self_iff)
  have "push_bit n (drop_bit n (take_bit (n+6) v) AND 0x3F) = push_bit n (drop_bit n (take_bit (n+6) v))"
    unfolding mask_6_u64 by (rule bit_word_eqI) (auto simp: bit_simps)
  then show ?thesis by (simp add: t)
qed

lemma varint62_value8:
  assumes "unat (v :: u64) < 2 ^ 62"
  shows "push_bit 56 (drop_bit 56 v AND 0x3F) + push_bit 48 (drop_bit 48 v AND 0xFF) +
    push_bit 40 (drop_bit 40 v AND 0xFF) + push_bit 32 (drop_bit 32 v AND 0xFF) +
    push_bit 24 (drop_bit 24 v AND 0xFF) + push_bit 16 (drop_bit 16 v AND 0xFF) +
    push_bit 8 (drop_bit 8 v AND 0xFF) + (v AND 0xFF) = v"
 using top_bits [of v 56] assms push_drop_byte [of 48 v] push_drop_byte [of 40 v]
   push_drop_byte [of 32 v] push_drop_byte [of 24 v] push_drop_byte [of 16 v]
   push_drop_byte [of 8 v] push_drop_byte [of 0 v]
  by simp
lemma varint62_value4:
  assumes "unat (v :: u64) < 2 ^ 30"
  shows "push_bit 24 (drop_bit 24 v AND 0x3F) + push_bit 16 (drop_bit 16 v AND 0xFF) +
    push_bit 8 (drop_bit 8 v AND 0xFF) + (v AND 0xFF) = v"
 using top_bits [of v 24] assms push_drop_byte [of 16 v]
   push_drop_byte [of 8 v] push_drop_byte [of 0 v]
  by simp
lemma varint62_value2:
  assumes "unat (v :: u64) < 2 ^ 14"
  shows "push_bit 8 (drop_bit 8 v AND 0x3F) + (v AND 0xFF) = v"
 using top_bits [of v 8] assms push_drop_byte [of 0 v]
  by simp
lemma varint62_value1:
  assumes "unat (v :: u64) < 2 ^ 6"
  shows "v AND 0x3F = v"
 using top_bits [of v 0] assms by simp

section \<open>Writes as appends\<close>

lemma length_memcpy [simp]:
  "dest + length bs \<le> length buf \<Longrightarrow> length (memcpy buf dest bs) = length buf"
  by (simp add: memcpy_def)

lemma store_next_Nil [simp]: "store_next [] w = w"
  by (simp add: store_next_def memcpy_def)

lemma wr_endianness_store_next [simp]: "wr_endianness (store_next bs w) = wr_endianness w"
  by (simp add: store_next_def)

lemma remaining_store_next [simp]: "remaining (store_next bs w) = remaining w - length bs"
  by (simp add: store_next_def remaining_def)

lemma writer_ok_store_next [intro]:
  "writer_ok w \<Longrightarrow> length bs \<le> remaining w \<Longrightarrow> writer_ok (store_next bs w)"
  by (auto simp: writer_ok_def store_next_def remaining_def)

lemma store_next_store_next [simp]:
  assumes "writer_ok w" and "length bs + length cs \<le> remaining w"
  shows "store_next cs (store_next bs w) = store_next (bs @ cs) w"
  using assms by (simp add: writer_ok_def store_next_def remaining_def memcpy_def add.commute add.left_commute)

lemma written_store_next [simp]:
  assumes "writer_ok w" and "length bs \<le> remaining w"
  shows "written (store_next bs w) = written w @ bs"
  using assms by (simp add: writer_ok_def store_next_def remaining_def written_def memcpy_def)

lemma WriteBytes_eq [wire_simps]:
  assumes "writer_ok w"
  shows "WriteBytes bs w =
    (if length bs \<le> remaining w then (True, store_next bs w) else (False, w))"
  using assms
  by (auto simp: WriteBytes_def BeginWrite_def store_next_def remaining_def writer_ok_def)

lemma WriteBytesToUInt64_eq:
  "n \<le> 8 \<Longrightarrow> WriteBytesToUInt64 n v w = WriteBytes (int_image (wr_endianness w) n v) w"
  using take_le_bytes [of n 8 v] drop_be_bytes [of n 8 v]
  by (cases "wr_endianness w") (simp_all add: WriteBytesToUInt64_def int_image_def)

text \<open>The bytes of the variable-length encoding, by the length the source chooses.\<close>

definition varint62_bytes :: "u64 \<Rightarrow> byte list" where
  "varint62_bytes v =
     (if unat v < 2 ^ 6 then [ucast (v AND 0x3F)]
      else if unat v < 2 ^ 14 then
        [ucast ((drop_bit 8 v AND 0x3F) + 0x40), ucast (v AND 0xFF)]
      else if unat v < 2 ^ 30 then
        [ucast ((drop_bit 24 v AND 0x3F) + 0x80), ucast (drop_bit 16 v AND 0xFF),
         ucast (drop_bit 8 v AND 0xFF), ucast (v AND 0xFF)]
      else
        [ucast ((drop_bit 56 v AND 0x3F) + 0xC0), ucast (drop_bit 48 v AND 0xFF),
         ucast (drop_bit 40 v AND 0xFF), ucast (drop_bit 32 v AND 0xFF),
         ucast (drop_bit 24 v AND 0xFF), ucast (drop_bit 16 v AND 0xFF),
         ucast (drop_bit 8 v AND 0xFF), ucast (v AND 0xFF)])"

lemma length_varint62_bytes:
  "unat v < 2 ^ 62 \<Longrightarrow> length (varint62_bytes v) = GetVarInt62Len v"
  by (simp add: varint62_bytes_def GetVarInt62Len_eq)

lemma varint62_bytes_not_Nil [simp]: "varint62_bytes v \<noteq> []"
  by (simp add: varint62_bytes_def)

lemma WriteVarInt62_eq [wire_simps]:
  assumes "writer_ok w"
  shows "WriteVarInt62 v w =
    (if unat v < 2 ^ 62 \<and> length (varint62_bytes v) \<le> remaining w
     then (True, store_next (varint62_bytes v) w) else (False, w))"
  by (simp add: WriteVarInt62_def Let_def varint62_error_mask varint62_range_masks
      varint62_bytes_def remaining_def)

lemma ReadVarInt62_prefix [wire_simps]:
  assumes "reader_ok r" and v: "unat v < 2 ^ 62"
    and p: "PeekRemainingPayload r = varint62_bytes v @ t"
  shows "ReadVarInt62 r = (Some v, advance (length (varint62_bytes v)) r)"
proof -
  have rem: "BytesRemaining r = length (varint62_bytes v) + length t"
    using length_PeekRemainingPayload [OF assms(1)] p by simp
  have nth: "rd_data r ! (rd_pos r + i) = varint62_bytes v ! i" if "i < length (varint62_bytes v)" for i
    using nth_PeekRemainingPayload [of i r] p that by (simp add: nth_append)
  have nth0: "rd_data r ! rd_pos r = varint62_bytes v ! 0"
    using nth [of 0] by simp
  consider "unat v < 2 ^ 6" | "\<not> unat v < 2 ^ 6" "unat v < 2 ^ 14"
    | "\<not> unat v < 2 ^ 14" "unat v < 2 ^ 30" | "\<not> unat v < 2 ^ 30" by blast
  then show ?thesis
  proof cases
    case 1
    then have b: "varint62_bytes v = [ucast v]"
      by (simp add: varint62_bytes_def varint62_value1)
    have "(ucast (v AND 0x3F) :: byte) AND 0xC0 = 0"
      by (simp add: unsigned_and_eq and.assoc)
    then have z: "(ucast v :: byte) AND 0xC0 = 0"
      using 1 by (simp add: varint62_value1)
    have "ucast (ucast v :: byte) AND (0x3F :: u64) = v"
      using 1 low_six [of v] by (simp add: varint62_value1)
    with z b rem nth nth0 show ?thesis by (simp add: ReadVarInt62_def advance_def)
  next
    case 2
    then have b: "varint62_bytes v = [ucast ((drop_bit 8 v AND 0x3F) + 0x40), ucast (v AND 0xFF)]"
      by (simp add: varint62_bytes_def)
    show ?thesis
      using rem nth [of 1] nth0 varint62_value2 [OF 2(2)]
      by (simp add: b ReadVarInt62_def advance_def tag_byte low_byte)
  next
    case 3
    then have b: "varint62_bytes v =
        [ucast ((drop_bit 24 v AND 0x3F) + 0x80), ucast (drop_bit 16 v AND 0xFF),
         ucast (drop_bit 8 v AND 0xFF), ucast (v AND 0xFF)]"
      by (simp add: varint62_bytes_def)
    show ?thesis
      using rem nth [of 1] nth [of 2] nth [of 3] nth0 varint62_value4 [OF 3(2)]
      by (simp add: b ReadVarInt62_def advance_def tag_byte low_byte)
  next
    case 4
    then have b: "varint62_bytes v =
        [ucast ((drop_bit 56 v AND 0x3F) + 0xC0), ucast (drop_bit 48 v AND 0xFF),
         ucast (drop_bit 40 v AND 0xFF), ucast (drop_bit 32 v AND 0xFF),
         ucast (drop_bit 24 v AND 0xFF), ucast (drop_bit 16 v AND 0xFF),
         ucast (drop_bit 8 v AND 0xFF), ucast (v AND 0xFF)]"
      by (simp add: varint62_bytes_def)
    show ?thesis
      using rem nth [of 1] nth [of 2] nth [of 3] nth [of 4] nth [of 5] nth [of 6] nth [of 7]
        nth0 varint62_value8 [OF v]
      by (simp add: b ReadVarInt62_def advance_def tag_byte low_byte)
  qed
qed

end
