(* ===== verification/Quic_UFloat16.thy ===== *)
theory Quic_UFloat16
  imports Quic_Data_Writer
begin

text \<open>
  The 16-bit unsigned float of acknowledgement delays: \<open>ufloat16_encode\<close> and
  \<open>ufloat16_decode\<close> are the computations inside \<open>QuicDataWriter::WriteUFloat16\<close> and
  \<open>QuicDataReader::ReadUFloat16\<close>. The binary search for the exponent normalises the mantissa
  to twelve bits, so encoding rounds down and decoding is exact.
\<close>

unbundle bit_operations_syntax

section \<open>The search for the exponent\<close>

declare ufloat16_shift.simps [simp del]

lemmas ufloat16_consts = kUFloat16ExponentBits_def kUFloat16MaxExponent_def
  kUFloat16MantissaBits_def kUFloat16MantissaEffectiveBits_def kUFloat16MaxValue_def

lemma ufloat16_shift_0: "ufloat16_shift 0 v e = (v, e)"
  by (simp add: ufloat16_shift.simps)

lemma ufloat16_shift_step:
  assumes "0 < k" "k \<le> 16"
  shows "ufloat16_shift k v e =
    (if 2 ^ (11 + k) \<le> unat v then ufloat16_shift (k div 2) (drop_bit k v) (e + k)
     else ufloat16_shift (k div 2) v e)"
proof -
  have "push_bit (kUFloat16MantissaBits + k) 1 \<le> v \<longleftrightarrow> 2 ^ (11 + k) \<le> unat v"
    unfolding ufloat16_consts using ge_push_bit_one [of "11 + k" v] assms by simp
  with assms show ?thesis
    by (subst ufloat16_shift.simps) simp
qed

definition shift_ok :: "nat \<Rightarrow> bool" where
  "shift_ok k \<longleftrightarrow> (\<forall>v e. 2 ^ 11 \<le> unat v \<longrightarrow> unat v < 2 ^ (11 + max 1 (2 * k)) \<longrightarrow>
     (\<exists>v' d. ufloat16_shift k v e = (v', e + d) \<and> unat v' = unat v div 2 ^ d \<and>
        2 ^ 11 \<le> unat v' \<and> unat v' < 2 ^ 12))"

lemma shift_ok_0: "shift_ok 0"
  unfolding shift_ok_def ufloat16_shift_0 by (intro allI impI exI [of _ 0] exI) auto

lemma shift_ok_step:
  assumes ok: "shift_ok (k div 2)" and k: "0 < k" "k \<le> 16" "max 1 (2 * (k div 2)) = k"
  shows "shift_ok k"
  unfolding shift_ok_def
proof (intro allI impI)
  fix v :: u64 and e
  assume lo: "2 ^ 11 \<le> unat v" and hi: "unat v < 2 ^ (11 + max 1 (2 * k))"
  show "\<exists>v' d. ufloat16_shift k v e = (v', e + d) \<and> unat v' = unat v div 2 ^ d \<and>
        2 ^ 11 \<le> unat v' \<and> unat v' < 2 ^ 12"
  proof (cases "2 ^ (11 + k) \<le> unat v")
    case True
    let ?v = "drop_bit k v"
    have "2 ^ 11 * 2 ^ k \<le> unat v"
      using True by (simp only: power_add)
    then have "2 ^ 11 \<le> unat ?v"
      unfolding unat_drop_bit_div by (simp only: less_eq_div_iff_mult_less_eq zero_less_power zero_less_numeral)
    moreover have "11 + max 1 (2 * k) = (11 + k) + k" using k by simp
    then have "unat v < 2 ^ (11 + k) * 2 ^ k" using hi by (simp only: power_add)
    then have "unat ?v < 2 ^ (11 + max 1 (2 * (k div 2)))"
      unfolding unat_drop_bit_div k(3) by (simp only: div_less_iff_less_mult zero_less_power zero_less_numeral)
    ultimately obtain v' d where
        r: "ufloat16_shift (k div 2) ?v (e + k) = (v', e + k + d)"
          "unat v' = unat ?v div 2 ^ d" "2 ^ 11 \<le> unat v'" "unat v' < 2 ^ 12"
      using ok unfolding shift_ok_def by blast
    show ?thesis
      using r True
      by (intro exI [of _ v'] exI [of _ "k + d"])
        (simp only: ufloat16_shift_step [OF k(1,2)] unat_drop_bit_div div_mult2_eq power_add if_True add.assoc simp_thms)
  next
    case False
    then have "unat v < 2 ^ (11 + max 1 (2 * (k div 2)))" unfolding k(3) by simp
    with lo ok False show ?thesis
      unfolding shift_ok_def ufloat16_shift_step [OF k(1,2)] by auto
  qed
qed

lemma shift_ok_16: "shift_ok 16"
proof -
  have "shift_ok 1" using shift_ok_step [of 1] shift_ok_0 by simp
  then have "shift_ok 2" using shift_ok_step [of 2] by simp
  then have "shift_ok 4" using shift_ok_step [of 4] by simp
  then have "shift_ok 8" using shift_ok_step [of 8] by simp
  then show ?thesis using shift_ok_step [of 16] by simp
qed

lemma unat_kUFloat16MaxValue: "unat kUFloat16MaxValue = 4095 * 2 ^ 30"
  by (simp add: ufloat16_consts)

text \<open>Encoding keeps the twelve leading bits; decoding puts them back.\<close>

lemma ufloat16_encode_normal:
  assumes lo: "2 ^ 12 \<le> unat v" and hi: "unat v < 4095 * 2 ^ 30"
  obtains m e where "unat (ufloat16_encode v) = m + e * 2 ^ 11" and "m = unat v div 2 ^ e"
    and "2 ^ 11 \<le> m" and "m < 2 ^ 12" and "1 \<le> e" and "e \<le> 30"
proof -
  have "2 ^ 11 \<le> unat v" "unat v < 2 ^ (11 + max 1 (2 * 16))"
    using lo hi by simp_all
  with shift_ok_16 obtain v' d where s: "ufloat16_shift 16 v 0 = (v', d)"
    "unat v' = unat v div 2 ^ d" "2 ^ 11 \<le> unat v'" "unat v' < 2 ^ 12"
    unfolding shift_ok_def by (metis add_0)
  have d1: "1 \<le> d"
  proof (rule ccontr)
    assume "\<not> 1 \<le> d"
    then have "d = 0" by simp
    with s lo show False by simp
  qed
  have d30: "d \<le> 30"
  proof (rule ccontr)
    assume "\<not> d \<le> 30"
    then have "(2::nat) ^ 31 \<le> 2 ^ d" by (intro power_increasing) simp_all
    then have "unat v div 2 ^ d \<le> unat v div 2 ^ 31" by (intro div_le_mono2) simp_all
    with s(2,3) hi show False by simp
  qed
  have ud: "unat (word_of_nat d :: u64) = d" using d30 by (simp add: unat_of_nat)
  have up: "unat (push_bit 11 (word_of_nat d :: u64)) = d * 2 ^ 11"
    using d30 by (simp only: unat_push_bit_mult ud) simp
  have "\<not> v < push_bit 12 1" "\<not> kUFloat16MaxValue \<le> v"
    using lo hi unat_push_bit_one [of 12] unat_kUFloat16MaxValue
    by (simp_all only: word_less_nat_alt word_le_nat_alt)
  then have enc: "ufloat16_encode v = ucast (v' + push_bit 11 (word_of_nat d))"
    by (simp add: ufloat16_encode_def s(1)) (simp add: ufloat16_consts)
  have us: "unat (v' + push_bit 11 (word_of_nat d)) = unat v' + d * 2 ^ 11"
    using s(4) d30 up by (subst unat_add_lem [THEN iffD1]) simp_all
  have "unat (ufloat16_encode v) = unat v' + d * 2 ^ 11"
    unfolding enc unat_ucast_mod us using s(4) d30 by simp
  with that s d1 d30 show ?thesis by blast
qed


lemma ufloat16_decode_small: "unat x < 2 ^ 12 \<Longrightarrow> ufloat16_decode x = ucast x"
  using unat_push_bit_one [of 12]
  by (simp add: ufloat16_decode_def word_less_nat_alt ufloat16_consts unat_ucast_mod)

lemma ufloat16_decode_normal:
  assumes x: "unat x = m + e * 2 ^ 11" and m: "2 ^ 11 \<le> m" "m < 2 ^ 12" and e: "1 \<le> e" "e \<le> 30"
  shows "unat (ufloat16_decode x) = m * 2 ^ e"
proof -
  have ux: "unat (ucast x :: u64) = m + e * 2 ^ 11"
    using x m e by (simp add: unat_ucast_mod)
  have big: "\<not> (ucast x :: u64) < push_bit 12 1"
    using ux m e unat_push_bit_one [of 12] by (simp only: word_less_nat_alt)  simp
  have "unat (drop_bit 11 x) = unat x div 2 ^ 11"
    unfolding unat_drop_bit_eq by (rule drop_bit_eq_div)
  also have "\<dots> = Suc e" using x m by simp
  finally have "unat (drop_bit 11 x - 1) = e"
    by (simp add: unat_sub_if' )
  then have ex: "unat (drop_bit 11 x - 1) = e" .
  have ue: "unat (ucast (drop_bit 11 x - 1) :: u64) = e"
    using ex e by (simp only: unat_ucast_mod)  simp
  have up: "unat (push_bit 11 (ucast (drop_bit 11 x - 1) :: u64)) = e * 2 ^ 11"
    using e unfolding unat_push_bit_mult ue by simp
  have um: "unat (ucast x - push_bit 11 (ucast (drop_bit 11 x - 1)) :: u64) = m"
    using ux up by (simp only: unat_sub_if') simp
  have "m * 2 ^ e < 2 ^ 12 * 2 ^ 30"
    using m e by (intro mult_less_le_imp_less power_increasing) simp_all
  then have "unat (push_bit e (ucast x - push_bit 11 (ucast (drop_bit 11 x - 1)) :: u64)) = m * 2 ^ e"
    unfolding unat_push_bit_mult um by simp
  then show ?thesis
    using big ex by (simp add: ufloat16_decode_def ufloat16_consts Let_def)
qed

lemma normalised_unique:
  assumes "m * 2 ^ e = (m' :: nat) * 2 ^ e' + r" "r < 2 ^ e'"
    and "2 ^ 11 \<le> m" "m < 2 ^ 12" "2 ^ 11 \<le> m'" "m' < 2 ^ 12"
  shows "e = e'"
proof -
  let ?y = "m * 2 ^ e"
  have y: "2 ^ (11 + e) \<le> ?y" "?y < 2 ^ (12 + e)"
    using assms(3,4) by (simp_all add: power_add)
  have "?y < (m' + 1) * 2 ^ e'" using assms(1,2) by simp
  also have "\<dots> \<le> 2 ^ 12 * 2 ^ e'" using assms by (intro mult_le_mono1) simp
  finally have y2: "?y < 2 ^ (12 + e')" by (simp only: power_add)
  have "2 ^ 11 * 2 ^ e' \<le> m' * 2 ^ e'" using assms by (intro mult_le_mono1)
  then have y1: "2 ^ (11 + e') \<le> ?y" unfolding assms(1) by (simp only: power_add trans_le_add1)
  have "(2::nat) ^ (11 + e) < 2 ^ (12 + e')" "(2::nat) ^ (11 + e') < 2 ^ (12 + e)"
    using y y1 y2 by linarith+
  then have "11 + e < 12 + e'" "11 + e' < 12 + e"
    by (simp_all only: power_strict_increasing_iff one_less_numeral_iff semiring_norm)
  then show ?thesis by simp
qed

lemma ufloat16_encode_small: "unat v < 2 ^ 12 \<Longrightarrow> ufloat16_encode v = ucast v"
  using unat_push_bit_one [of 12]
  by (simp add: ufloat16_encode_def word_less_nat_alt ufloat16_consts)

lemma ufloat16_encode_max: "4095 * 2 ^ 30 \<le> unat v \<Longrightarrow> ufloat16_encode v = 0xFFFF"
  using unat_push_bit_one [of 12] unat_kUFloat16MaxValue
  by (simp add: ufloat16_encode_def word_less_nat_alt word_le_nat_alt) (simp add: ufloat16_consts)

lemma u16_normal_form:
  assumes "2 ^ 12 \<le> unat (x :: u16)"
  obtains m e where "unat x = m + e * 2 ^ 11" "2 ^ 11 \<le> m" "m < 2 ^ 12" "1 \<le> e" "e \<le> 30"
proof -
  let ?q = "unat x div 2048" and ?r = "unat x mod 2048"
  have x: "unat x = ?q * 2048 + ?r" and r: "?r < 2048" by simp_all
  have "unat x < 65536" using unat_less_power [of x] by simp
  with assms have "2 \<le> ?q" "?q \<le> 31"
    by (simp_all add: less_eq_div_iff_mult_less_eq)
  then obtain e where "?q = Suc e" "1 \<le> e" "e \<le> 30" by (cases ?q) auto
  with x r show ?thesis by (intro that [of "?r + 2048" e]) simp_all
qed

section \<open>Properties\<close>

text \<open>
  C33: every one of the 65536 encodings survives decoding and encoding again: \<open>WriteUFloat16\<close>
  of what \<open>ReadUFloat16\<close> gives for \<open>x\<close> is \<open>x\<close>.
\<close>

theorem ufloat16_encode_decode: "ufloat16_encode (ufloat16_decode x) = x"
proof (cases "unat x < 2 ^ 12")
  case True
  then show ?thesis
    by (simp add: ufloat16_decode_small ufloat16_encode_small unat_ucast_mod)
next
  case False
  then obtain m e where x: "unat x = m + e * 2 ^ 11"
    and m: "2 ^ 11 \<le> m" "m < 2 ^ 12" and e: "1 \<le> e" "e \<le> 30"
    using u16_normal_form [of x] by (auto simp: not_less)
  let ?y = "ufloat16_decode x"
  have y: "unat ?y = m * 2 ^ e"
    by (rule ufloat16_decode_normal [OF x m e])
  show ?thesis
  proof (cases "unat ?y < 4095 * 2 ^ 30")
    case True
    have "2 ^ 11 * 2 ^ 1 \<le> m * 2 ^ e"
      using m e by (intro mult_le_mono power_increasing) simp_all
    then have "2 ^ 12 \<le> unat ?y" unfolding y by simp
    then obtain m' e' where enc: "unat (ufloat16_encode ?y) = m' + e' * 2 ^ 11"
      "m' = unat ?y div 2 ^ e'" "2 ^ 11 \<le> m'" "m' < 2 ^ 12"
      using ufloat16_encode_normal True by metis
    have "m * 2 ^ e = m' * 2 ^ e' + unat ?y mod 2 ^ e'"
      unfolding enc(2) y [symmetric] by (rule div_mult_mod_eq [symmetric])
    then have "e = e'"
      by (rule normalised_unique) (use m enc(3,4) in simp_all)
    with enc(1,2) y have "unat (ufloat16_encode ?y) = unat x" by (simp add: x)
    then show ?thesis by (simp only: word_unat_eq_iff)
  next
    case False
    have "m * 2 ^ e \<le> 4095 * 2 ^ 30" using m e by (intro mult_le_mono power_increasing) simp_all
    with False y have eq: "m * 2 ^ e = 4095 * 2 ^ 30 + 0" by simp
    have "e = 30"
      by (rule normalised_unique [OF eq]) (use m in simp_all)
    with eq x have "unat x = 0xFFFF" by simp
    then have "x = 0xFFFF" by (simp add: word_unat_eq_iff)
    with False show ?thesis by (simp add: ufloat16_encode_max)
  qed
qed

text \<open>
  C34: \<open>WriteUFloat16\<close> rounds down: what is read back is at most the value written, equal below
  \<open>2 ^ 12\<close>, within a relative error of \<open>2 ^ -11\<close> below the maximum, and clamped to
  \<open>kUFloat16MaxValue\<close> from there on.
\<close>

theorem ufloat16_rounds_down:
  "unat (ufloat16_decode (ufloat16_encode v)) \<le> unat v \<and>
   (unat v < 2 ^ 12 \<longrightarrow> ufloat16_decode (ufloat16_encode v) = v) \<and>
   (unat v < unat kUFloat16MaxValue \<longrightarrow>
      (unat v - unat (ufloat16_decode (ufloat16_encode v))) * 2 ^ 11 \<le>
         unat (ufloat16_decode (ufloat16_encode v))) \<and>
   (unat kUFloat16MaxValue \<le> unat v \<longrightarrow>
      ufloat16_decode (ufloat16_encode v) = kUFloat16MaxValue)"
proof -
  consider "unat v < 2 ^ 12" | "2 ^ 12 \<le> unat v" "unat v < 4095 * 2 ^ 30" | "4095 * 2 ^ 30 \<le> unat v"
    by linarith
  then show ?thesis
  proof cases
    case 1
    then have "ufloat16_decode (ufloat16_encode v) = v"
      by (simp add: ufloat16_encode_small ufloat16_decode_small unat_ucast_mod word_unat_eq_iff)
    with 1 show ?thesis by (simp add: unat_kUFloat16MaxValue)
  next
    case 2
    then obtain m e where enc: "unat (ufloat16_encode v) = m + e * 2 ^ 11" "m = unat v div 2 ^ e"
      "2 ^ 11 \<le> m" "m < 2 ^ 12" "1 \<le> e" "e \<le> 30" using ufloat16_encode_normal by metis
    then have d: "unat (ufloat16_decode (ufloat16_encode v)) = m * 2 ^ e"
      by (intro ufloat16_decode_normal)
    have sp: "unat v = m * 2 ^ e + unat v mod 2 ^ e" unfolding enc(2) by (rule div_mult_mod_eq [symmetric])
    have "unat v mod 2 ^ e * 2 ^ 11 \<le> 2 ^ e * 2 ^ 11" by (intro mult_le_mono1) (simp add: less_imp_le)
    also have "\<dots> \<le> m * 2 ^ e" using enc(3) by (simp add: mult.commute)
    finally have "unat v mod 2 ^ e * 2 ^ 11 \<le> m * 2 ^ e" .
    moreover have "unat v - m * 2 ^ e = unat v mod 2 ^ e" using sp by linarith
    ultimately have "(unat v - m * 2 ^ e) * 2 ^ 11 \<le> m * 2 ^ e" by (simp only:)
    moreover have "m * 2 ^ e \<le> unat v" using sp by linarith
    ultimately show ?thesis using 2 unfolding d by (simp add: unat_kUFloat16MaxValue)
  next
    case 3
    then have "ufloat16_encode v = 0xFFFF" by (rule ufloat16_encode_max)
    moreover have "ufloat16_decode 0xFFFF = kUFloat16MaxValue"
      by (simp add: ufloat16_decode_def ufloat16_consts)
    ultimately show ?thesis using 3 by (simp add: unat_kUFloat16MaxValue)
  qed
qed

theorem ufloat16_rounds_down_witness:
  "ufloat16_encode 5001 = 0x11C4 \<and> ufloat16_decode 0x11C4 = 5000 \<and>
   (unat (5001 :: u64) - unat (ufloat16_decode (ufloat16_encode 5001))) * 2 ^ 11 \<le>
      unat (ufloat16_decode (ufloat16_encode 5001))"
proof -
  have "unat (5001 :: u64) < unat kUFloat16MaxValue"
    by (simp add: unat_kUFloat16MaxValue)
  moreover have "ufloat16_encode 5001 = 0x11C4" and "ufloat16_decode 0x11C4 = 5000"
    by code_simp+
  ultimately show ?thesis using ufloat16_rounds_down [of 5001] by blast
qed

end
