(* ===== verification/Quic_Wire_Codec.thy ===== *)
theory Quic_Wire_Codec
  imports Quic_Data_Writer
begin

text \<open>
  The contract between a \<open>Write\<close> method of \<open>QuicDataWriter\<close> and the \<open>Read\<close> method of
  \<open>QuicDataReader\<close> that undoes it, as a locale: what a write appends, and what a read of those bytes
  returns. The locale proves once that data written into a buffer is read back from that buffer;
  each pair of methods is an interpretation, and so is each pair of frame methods of the framer.
\<close>

unbundle bit_operations_syntax

section \<open>The contract\<close>

definition reader_at :: "byte list \<Rightarrow> nat \<Rightarrow> QuicDataReader" where
  "reader_at bs pos =
     \<lparr>rd_data = bs, rd_len = length bs, rd_pos = pos, rd_endianness = NETWORK_BYTE_ORDER\<rparr>"

definition net_writer :: "QuicDataWriter \<Rightarrow> bool" where
  "net_writer w \<longleftrightarrow> writer_ok w \<and> wr_endianness w = NETWORK_BYTE_ORDER"

definition net_reader :: "QuicDataReader \<Rightarrow> bool" where
  "net_reader r \<longleftrightarrow> reader_ok r \<and> rd_endianness r = NETWORK_BYTE_ORDER"

lemma net_reader_reader_at [simp]: "net_reader (reader_at bs pos) \<longleftrightarrow> pos \<le> length bs"
  by (simp add: net_reader_def reader_ok_def reader_at_def)

lemma PeekRemainingPayload_reader_at [simp]:
  "PeekRemainingPayload (reader_at bs pos) = drop pos bs"
  by (simp add: PeekRemainingPayload_def reader_at_def)

lemma advance_reader_at [simp]: "advance n (reader_at bs pos) = reader_at bs (pos + n)"
  by (simp add: advance_def reader_at_def)

lemma net_readerD: "net_reader r \<Longrightarrow> reader_ok r" "net_reader r \<Longrightarrow> rd_endianness r = NETWORK_BYTE_ORDER"
  by (simp_all add: net_reader_def)

lemma net_writerD: "net_writer w \<Longrightarrow> writer_ok w" "net_writer w \<Longrightarrow> wr_endianness w = NETWORK_BYTE_ORDER"
  by (simp_all add: net_writer_def)

lemma net_reader_advance [simp]:
  "net_reader r \<Longrightarrow> n \<le> length (PeekRemainingPayload r) \<Longrightarrow> net_reader (advance n r)"
  by (auto simp: net_reader_def)

lemma net_writer_store_next [simp]:
  "net_writer w \<Longrightarrow> length bs \<le> remaining w \<Longrightarrow> net_writer (store_next bs w)"
  by (auto simp: net_writer_def)

lemma length_written: "writer_ok w \<Longrightarrow> length (written w) = wr_length w"
  by (simp add: writer_ok_def written_def)

locale wire_codec =
  fixes wr :: "'a \<Rightarrow> QuicDataWriter \<Rightarrow> bool \<times> QuicDataWriter"
    and rd :: "QuicDataReader \<Rightarrow> 'a option \<times> QuicDataReader"
    and enc :: "'a \<Rightarrow> byte list"
    and valid :: "'a \<Rightarrow> bool"
  assumes wr_room: "net_writer w \<Longrightarrow> valid v \<Longrightarrow> length (enc v) \<le> remaining w \<Longrightarrow>
      wr v w = (True, store_next (enc v) w)"
    and wr_no_room: "net_writer w \<Longrightarrow> valid v \<Longrightarrow> remaining w < length (enc v) \<Longrightarrow> \<not> fst (wr v w)"
    and rd_enc: "net_reader r \<Longrightarrow> valid v \<Longrightarrow> PeekRemainingPayload r = enc v @ t \<Longrightarrow>
      rd r = (Some v, advance (length (enc v)) r)"
begin

text \<open>A write succeeds exactly when the encoding fits.\<close>

lemma wr_succeeds_iff:
  "net_writer w \<Longrightarrow> valid v \<Longrightarrow> fst (wr v w) \<longleftrightarrow> length (enc v) \<le> remaining w"
  using wr_room wr_no_room by (cases "length (enc v) \<le> remaining w") auto

lemma wr_success:
  assumes "net_writer w" and "valid v" and "wr v w = (True, w')"
  shows "w' = store_next (enc v) w \<and> length (enc v) \<le> remaining w \<and> net_writer w'"
proof -
  have "length (enc v) \<le> remaining w"
    using assms wr_succeeds_iff [OF assms(1,2)] by simp
  with assms wr_room [OF assms(1,2)] show ?thesis by auto
qed

text \<open>What was written is read back, wherever in the buffer and whatever follows it.\<close>

lemma read_back:
  assumes "net_writer w" and "valid v" and "wr v w = (True, w')"
  shows "rd (reader_at (written w' @ t) (wr_length w)) =
    (Some v, reader_at (written w' @ t) (wr_length w'))"
proof -
  note s = wr_success [OF assms]
  have ok: "writer_ok w" using assms(1) by (simp add: net_writer_def)
  have wn: "written w' = written w @ enc v"
    using s ok by (simp add: written_store_next)
  have len: "wr_length w' = wr_length w + length (enc v)"
    using s by (simp add: store_next_def)
  show ?thesis
    using rd_enc [of "reader_at (written w' @ t) (wr_length w)" v t] assms(2) ok
    by (simp add: wn len length_written)
qed

text \<open>The encoding of a valid value is a prefix code: no continuation can be taken for another value.\<close>

lemma enc_prefix_unique:
  assumes "valid u" and "valid v" and "enc u @ s = enc v @ t"
  shows "u = v"
proof -
  let ?r = "reader_at (enc u @ s) 0"
  have "rd ?r = (Some u, advance (length (enc u)) ?r)"
    using assms by (intro rd_enc [of _ _ s]) simp_all
  moreover have "rd ?r = (Some v, advance (length (enc v)) ?r)"
    using assms by (intro rd_enc [of _ _ t]) simp_all
  ultimately show ?thesis by simp
qed

end

section \<open>The method pairs\<close>

interpretation uint8_codec: wire_codec WriteUInt8 ReadUInt8 "\<lambda>v. [v]" "\<lambda>_. True"
  by unfold_locales
    (auto simp: WriteUInt8_def WriteBytes_eq ReadUInt8_prefix net_writerD net_readerD)

interpretation uint16_codec: wire_codec WriteUInt16 ReadUInt16 "\<lambda>v. be_bytes 2 (ucast v)" "\<lambda>_. True"
  by unfold_locales
    (auto simp: WriteUInt16_def WriteBytes_eq ReadUInt16_prefix int_image_def net_writerD net_readerD)

interpretation uint32_codec: wire_codec WriteUInt32 ReadUInt32 "\<lambda>v. be_bytes 4 (ucast v)" "\<lambda>_. True"
  by unfold_locales
    (auto simp: WriteUInt32_def WriteBytes_eq ReadUInt32_prefix int_image_def net_writerD net_readerD)

interpretation uint64_codec: wire_codec WriteUInt64 ReadUInt64 "be_bytes 8" "\<lambda>_. True"
  by unfold_locales
    (auto simp: WriteUInt64_def WriteBytes_eq ReadUInt64_prefix int_image_def net_writerD net_readerD)

interpretation varint62_codec: wire_codec WriteVarInt62 ReadVarInt62 varint62_bytes
    "\<lambda>v. unat v < 2 ^ 62"
  by unfold_locales (auto simp: WriteVarInt62_eq ReadVarInt62_prefix net_writerD net_readerD)

interpretation bytes_codec: wire_codec WriteBytes "ReadBytes n" "\<lambda>bs. bs" "\<lambda>bs. length bs = n" for n
  by unfold_locales (auto simp: WriteBytes_eq ReadBytes_prefix net_writerD net_readerD)

interpretation low_bytes_codec: wire_codec "WriteBytesToUInt64 n" "ReadBytesToUInt64 n"
    "be_bytes n" "\<lambda>v. n \<le> 8 \<and> unat v < 2 ^ (8 * n)" for n
  by unfold_locales
    (auto simp: WriteBytesToUInt64_eq WriteBytes_eq ReadBytesToUInt64_prefix int_image_def
      take_bit_bytes_eq_self net_writerD net_readerD)

text \<open>The 32-bit variable-length integers, the length-prefixed strings, tags and connection IDs.\<close>

lemma unat_ucast_u32: "unat (ucast (v :: u32) :: u64) = unat v"
  using unat_less_power [of v] by (simp add: unat_ucast_mod)

lemma unat_u32_varint [simp]: "unat (ucast (v :: u32) :: u64) < 0x4000000000000000"
  using unat_less_power [of v] by (simp add: unat_ucast_u32)

lemma ReadVarIntU32_prefix:
  assumes "net_reader r" and "PeekRemainingPayload r = varint62_bytes (ucast (v :: u32)) @ t"
  shows "ReadVarIntU32 r = (Some v, advance (length (varint62_bytes (ucast v))) r)"
proof -
  have "unat (ucast v :: u64) \<le> kMaxQuicStreamId"
    using unat_less_power [of v] by (simp add: unat_ucast_u32 kMaxQuicStreamId_def)
  then show ?thesis
    using varint62_codec.rd_enc [OF assms(1) _ assms(2)]
    by (simp add: ReadVarIntU32_def)
qed

interpretation varint_u32_codec: wire_codec "\<lambda>v :: u32. WriteVarInt62 (ucast v)" ReadVarIntU32
    "\<lambda>v. varint62_bytes (ucast v)" "\<lambda>_. True"
  by unfold_locales
    (auto simp: WriteVarInt62_eq ReadVarIntU32_prefix net_writerD)

definition string16_bytes :: "byte list \<Rightarrow> byte list" where
  "string16_bytes s = be_bytes 2 (word_of_nat (length s)) @ s"

lemma ucast_word_of_nat_u16:
  "n \<le> 0xFFFF \<Longrightarrow> ucast (word_of_nat n :: u16) = (word_of_nat n :: u64)"
  by (simp add: word_unat_eq_iff unat_ucast_mod unat_of_nat)

lemma WriteStringPiece16_eq:
  assumes w: "net_writer w" and n: "length s \<le> 0xFFFF"
  shows "WriteStringPiece16 s w =
    (if length (string16_bytes s) \<le> remaining w then (True, store_next (string16_bytes s) w)
     else if remaining w < 2 then (False, w)
     else (False, store_next (be_bytes 2 (word_of_nat (length s))) w))"
proof (cases "2 \<le> remaining w")
  case True
  let ?w = "store_next (be_bytes 2 (word_of_nat (length s))) w"
  have "WriteUInt16 (word_of_nat (length s)) w = (True, ?w)"
    using uint16_codec.wr_room [OF w] True n by (simp add: ucast_word_of_nat_u16)
  moreover have "net_writer ?w" using w True by simp
  ultimately show ?thesis
    using n True w
    by (simp add: WriteStringPiece16_def and_then_def WriteBytes_eq net_writerD string16_bytes_def)
      linarith
next
  case False
  have "WriteUInt16 (word_of_nat (length s)) w = (False, w)"
    using False w by (simp add: WriteUInt16_def WriteBytes_eq net_writerD)
  with False n show ?thesis
    by (simp add: WriteStringPiece16_def and_then_def string16_bytes_def)
qed

lemma ReadStringPiece16_prefix:
  assumes r: "net_reader r" and n: "length s \<le> 0xFFFF"
    and p: "PeekRemainingPayload r = string16_bytes s @ t"
  shows "ReadStringPiece16 r = (Some s, advance (length (string16_bytes s)) r)"
proof -
  have "ReadUInt16 r = (Some (word_of_nat (length s)), advance 2 r)"
    using uint16_codec.rd_enc [OF r, of "word_of_nat (length s)" "s @ t"] p n
    by (simp add: string16_bytes_def ucast_word_of_nat_u16)
  moreover have "net_reader (advance 2 r)" and "PeekRemainingPayload (advance 2 r) = s @ t"
    using r p by (simp_all add: PeekRemainingPayload_advance string16_bytes_def)
  moreover have "unat (word_of_nat (length s) :: u16) = length s"
    using n by (simp add: unat_of_nat)
  ultimately show ?thesis
    using ReadBytes_prefix [of "advance 2 r" s t "length s"]
    by (simp add: ReadStringPiece16_def ReadStringPiece_eq_ReadBytes net_readerD string16_bytes_def)
qed

interpretation string16_codec: wire_codec WriteStringPiece16 ReadStringPiece16 string16_bytes
    "\<lambda>s. length s \<le> 0xFFFF"
  by unfold_locales (simp_all add: WriteStringPiece16_eq ReadStringPiece16_prefix)

interpretation tag_codec: wire_codec WriteTag ReadTag "\<lambda>v. le_bytes 4 (ucast v)" "\<lambda>_. True"
  by unfold_locales
    (auto simp: WriteTag_def ReadTag_def WriteBytes_eq ReadBytes_prefix le_word_le_bytes
      ucast_take_bit_ucast_le net_writerD net_readerD)

interpretation connection_id_codec: wire_codec WriteConnectionId "ReadConnectionId flag n"
    "\<lambda>c. c" "\<lambda>c. length c = n \<and> n \<le> kQuicMaxConnectionIdLength" for flag n
proof unfold_locales
  fix r :: QuicDataReader and v t
  assume r: "net_reader r" and v: "length v = n \<and> n \<le> kQuicMaxConnectionIdLength"
    and p: "PeekRemainingPayload r = v @ t"
  have "n \<le> BytesRemaining r"
    using length_PeekRemainingPayload [of r] r p v by (simp add: net_readerD)
  then show "ReadConnectionId flag n r = (Some v, advance (length v) r)"
    using r v p by (auto simp: ReadConnectionId_def ReadBytes_prefix net_readerD)
qed (auto simp: WriteConnectionId_def WriteBytes_eq net_writerD)

section \<open>Forced lengths\<close>

text \<open>The encoding \<open>WriteVarInt62\<close> produces when the caller asks for a longer form.\<close>

definition forced_varint62_bytes :: "u64 \<Rightarrow> nat \<Rightarrow> byte list" where
  "forced_varint62_bytes v n =
     (if n = GetVarInt62Len v then varint62_bytes v
      else if n = 2 then [0x40, ucast v]
      else if n = 4 then [0x80, 0] @ be_bytes 2 (ucast (ucast v :: u16))
      else [0xC0, 0] @ be_bytes 2 0 @ be_bytes 4 (ucast (ucast v :: u32)))"

lemma be_bytes_2: "be_bytes 2 v = [ucast (drop_bit 8 v), ucast v]"
  by (simp add: be_bytes_def le_bytes_def numeral_2_eq_2)

lemma be_bytes_4:
  "be_bytes 4 v = [ucast (drop_bit 24 v), ucast (drop_bit 16 v), ucast (drop_bit 8 v), ucast v]"
  by (simp add: be_bytes_def le_bytes_def eval_nat_numeral)

lemma WriteVarInt62_forced_eq:
  assumes w: "net_writer w" and v: "unat v < 2 ^ 62" and n: "n \<in> {1, 2, 4, 8}"
    and len: "GetVarInt62Len v \<le> n" and room: "n \<le> remaining w"
  shows "WriteVarInt62_forced v n w = (True, store_next (forced_varint62_bytes v n) w) \<and>
    length (forced_varint62_bytes v n) = n"
proof (cases "n = GetVarInt62Len v")
  case True
  have "WriteVarInt62 v w = (True, store_next (varint62_bytes v) w)"
    using varint62_codec.wr_room [OF w v] room True length_varint62_bytes [OF v] by simp
  with True room length_varint62_bytes [OF v] show ?thesis
    by (simp add: WriteVarInt62_forced_def forced_varint62_bytes_def remaining_def)
next
  case False
  have pos: "1 \<le> GetVarInt62Len v" using v by (simp add: GetVarInt62Len_eq)
  with False len n have n: "n \<in> {2, 4, 8}" by auto
  have nr: "\<not> wr_capacity w - wr_length w < n" using room by (simp add: remaining_def)
  note eqs = WriteVarInt62_forced_def forced_varint62_bytes_def and_then_def
    uint8_codec.wr_room uint16_codec.wr_room uint32_codec.wr_room net_writerD
  show ?thesis using n False len nr room w by (auto simp: eqs)
qed

lemma nth_rest:
  assumes "PeekRemainingPayload r = bs @ t"
  shows "i < length bs \<Longrightarrow> rd_data r ! (rd_pos r + i) = bs ! i"
  using nth_PeekRemainingPayload [of i r] assms by (simp add: nth_append)

lemma ReadVarInt62_forced2:
  assumes "net_reader r" and p: "PeekRemainingPayload r = [0x40, b] @ t"
  shows "ReadVarInt62 r = (Some (ucast b), advance 2 r)"
  using nth_rest [OF p, of 0] nth_rest [OF p, of 1] length_PeekRemainingPayload [of r] assms
  by (simp add: ReadVarInt62_def advance_def net_readerD)

lemma ReadVarInt62_forced4:
  assumes "net_reader r" and p: "PeekRemainingPayload r = [0x80, 0, b1, b2] @ t"
  shows "ReadVarInt62 r = (Some (push_bit 8 (ucast b1) + ucast b2), advance 4 r)"
  using nth_rest [OF p, of 0] nth_rest [OF p, of 1] nth_rest [OF p, of 2] nth_rest [OF p, of 3]
    length_PeekRemainingPayload [of r] assms
  by (simp add: ReadVarInt62_def advance_def net_readerD)

lemma ReadVarInt62_forced8:
  assumes "net_reader r" and p: "PeekRemainingPayload r = [0xC0, 0, 0, 0, b1, b2, b3, b4] @ t"
  shows "ReadVarInt62 r =
    (Some (push_bit 24 (ucast b1) + push_bit 16 (ucast b2) + push_bit 8 (ucast b3) + ucast b4),
     advance 8 r)"
  using nth_rest [OF p, of 0] nth_rest [OF p, of 1] nth_rest [OF p, of 2] nth_rest [OF p, of 3]
    nth_rest [OF p, of 4] nth_rest [OF p, of 5] nth_rest [OF p, of 6] nth_rest [OF p, of 7]
    length_PeekRemainingPayload [of r] assms
  by (simp add: ReadVarInt62_def advance_def net_readerD)

lemma byte_of_u16:
  "k \<le> 8 \<Longrightarrow>
     ucast (ucast (drop_bit k (ucast (ucast (v :: u64) :: u16) :: u64)) :: byte) = drop_bit k v AND 0xFF"
  unfolding mask_8_u64 by (intro bit_word_eqI) (auto simp: bit_simps)

lemma byte_of_u32:
  "k \<le> 24 \<Longrightarrow>
     ucast (ucast (drop_bit k (ucast (ucast (v :: u64) :: u32) :: u64)) :: byte) = drop_bit k v AND 0xFF"
  unfolding mask_8_u64 by (intro bit_word_eqI) (auto simp: bit_simps)

lemma ReadVarInt62_forced_prefix:
  assumes r: "net_reader r" and v: "unat v < 2 ^ 62" and n: "n \<in> {1, 2, 4, 8}"
    and len: "GetVarInt62Len v \<le> n" and p: "PeekRemainingPayload r = forced_varint62_bytes v n @ t"
  shows "ReadVarInt62 r = (Some v, advance n r)"
proof (cases "n = GetVarInt62Len v")
  case True
  then show ?thesis
    using varint62_codec.rd_enc [OF r v, of t] p length_varint62_bytes [OF v]
    by (simp add: forced_varint62_bytes_def)
next
  case False
  with len n v consider "n = 2" "unat v < 2 ^ 6" | "n = 4" "unat v < 2 ^ 14"
    | "n = 8" "unat v < 2 ^ 30"
    by (auto simp: GetVarInt62Len_eq split: if_splits)
  then show ?thesis
  proof cases
    case 1
    have "ucast (ucast v :: byte) = v"
      using 1 by (simp add: word_unat_eq_iff unat_ucast_mod)
    with ReadVarInt62_forced2 [OF r, of "ucast v" t] p False 1 show ?thesis
      by (simp add: forced_varint62_bytes_def)
  next
    case 2
    have z: "drop_bit 16 v = 0"
      using 2 unat_drop_bit_div [of 16 v] by (simp only: word_unat_eq_iff) simp
    have "push_bit 8 (drop_bit 8 v AND 0xFF) + (v AND 0xFF) = v"
      using push_drop_byte [of 8 v] push_drop_byte [of 0 v] z by simp
    then show ?thesis
      using ReadVarInt62_forced4 [OF r] p False 2 byte_of_u16 [of 8 v] byte_of_u16 [of 0 v]
      by (simp add: forced_varint62_bytes_def be_bytes_2)
  next
    case 3
    have z: "drop_bit 32 v = 0"
      using 3 unat_drop_bit_div [of 32 v] by (simp only: word_unat_eq_iff) simp
    have "push_bit 24 (drop_bit 24 v AND 0xFF) + push_bit 16 (drop_bit 16 v AND 0xFF) +
        push_bit 8 (drop_bit 8 v AND 0xFF) + (v AND 0xFF) = v"
      using push_drop_byte [of 24 v] push_drop_byte [of 16 v] push_drop_byte [of 8 v]
        push_drop_byte [of 0 v] z by simp
    then show ?thesis
      using ReadVarInt62_forced8 [OF r] p False 3 byte_of_u32 [of 24 v] byte_of_u32 [of 16 v]
        byte_of_u32 [of 8 v] byte_of_u32 [of 0 v]
      by (simp add: forced_varint62_bytes_def be_bytes_2 be_bytes_4)
  qed
qed

section \<open>Properties\<close>

definition example_writer :: QuicDataWriter where
  "example_writer = new_QuicDataWriter (replicate 16 0) NETWORK_BYTE_ORDER"

lemma net_writer_example [simp]: "net_writer example_writer"
  by (simp add: example_writer_def new_QuicDataWriter_def net_writer_def writer_ok_def)

lemma remaining_example [simp]: "remaining example_writer = 16"
  by (simp add: example_writer_def new_QuicDataWriter_def remaining_def)

text \<open>
  C24: a variable-length integer that \<open>WriteVarInt62\<close> accepted is what \<open>ReadVarInt62\<close> returns at
  that position of the buffer, and the cursor ends where the writer's did, whatever follows.
\<close>

theorem varint62_write_read:
  assumes "net_writer w" and "WriteVarInt62 v w = (True, w')"
  shows "ReadVarInt62 (reader_at (written w' @ t) (wr_length w)) =
    (Some v, reader_at (written w' @ t) (wr_length w'))"
proof -
  have "unat v < 2 ^ 62"
    using assms by (simp add: WriteVarInt62_eq net_writerD split: if_splits)
  with assms show ?thesis by (intro varint62_codec.read_back)
qed

theorem varint62_write_read_witness:
  "WriteVarInt62 15293 example_writer = (True, store_next [0x7B, 0xBD] example_writer) \<and>
   fst (ReadVarInt62 (reader_at (written (store_next [0x7B, 0xBD] example_writer) @ [7])
          (wr_length example_writer))) = Some 15293"
proof -
  have w: "WriteVarInt62 15293 example_writer = (True, store_next [0x7B, 0xBD] example_writer)"
    by (simp add: WriteVarInt62_eq net_writerD varint62_bytes_def)
  show ?thesis
    using varint62_write_read [OF net_writer_example w, of "[7]"] w by simp
qed

text \<open>
  \<open>WriteVarInt62\<close> succeeds exactly for the values below \<open>2 ^ 62\<close> whose shortest encoding
  (1, 2, 4 or 8 bytes, \<open>GetVarInt62Len\<close>) fits into the buffer; it then advances by that length,
  and otherwise leaves the writer alone.
\<close>

theorem varint62_write_minimal:
  assumes "net_writer w"
  shows "(fst (WriteVarInt62 v w) \<longleftrightarrow> unat v < 2 ^ 62 \<and> GetVarInt62Len v \<le> remaining w) \<and>
    wr_length (snd (WriteVarInt62 v w)) =
      wr_length w + (if fst (WriteVarInt62 v w) then GetVarInt62Len v else 0) \<and>
    GetVarInt62Len v =
      (if unat v < 2 ^ 6 then 1 else if unat v < 2 ^ 14 then 2
       else if unat v < 2 ^ 30 then 4 else if unat v < 2 ^ 62 then 8 else 0)"
  using length_varint62_bytes [of v]
  by (auto simp: WriteVarInt62_eq net_writerD [OF assms] store_next_def GetVarInt62Len_eq)

theorem varint62_write_minimal_witness:
  "fst (WriteVarInt62 64 example_writer) \<and> GetVarInt62Len 64 = 2 \<and> GetVarInt62Len 63 = 1 \<and>
   \<not> fst (WriteVarInt62 0x4000000000000000 example_writer)"
  using varint62_write_minimal [OF net_writer_example, where v = 64]
    varint62_write_minimal [OF net_writer_example, where v = "0x4000000000000000"]
    GetVarInt62Len_eq [of 63] by simp

text \<open>
  asked for a length of 1, 2, 4 or 8 bytes that is long enough, \<open>WriteVarInt62\<close> with a
  forced length writes exactly that many bytes, and they read back as the value: the non-minimal
  encodings are decoded like the minimal one.
\<close>

theorem varint62_forced_write_read:
  assumes "net_writer w" and "unat v < 2 ^ 62" and "n \<in> {1, 2, 4, 8}"
    and "GetVarInt62Len v \<le> n" and "n \<le> remaining w"
  shows "\<exists>w'. WriteVarInt62_forced v n w = (True, w') \<and> wr_length w' = wr_length w + n \<and>
    ReadVarInt62 (reader_at (written w' @ t) (wr_length w)) =
      (Some v, reader_at (written w' @ t) (wr_length w + n))"
proof -
  let ?bs = "forced_varint62_bytes v n"
  from WriteVarInt62_forced_eq [OF assms]
  have f: "WriteVarInt62_forced v n w = (True, store_next ?bs w)" and l: "length ?bs = n" by auto
  have wn: "written (store_next ?bs w) = written w @ ?bs"
    using assms l by (simp add: net_writerD)
  have "ReadVarInt62 (reader_at (written w @ ?bs @ t) (wr_length w)) =
      (Some v, reader_at (written w @ ?bs @ t) (wr_length w + n))"
    using ReadVarInt62_forced_prefix [OF _ assms(2-4), of "reader_at (written w @ ?bs @ t) (wr_length w)" t]
      assms(1) by (simp add: length_written net_writerD)
  with f l wn show ?thesis by (simp add: store_next_def)
qed

theorem varint62_forced_write_read_witness:
  "GetVarInt62Len 25 \<le> 2 \<and>
   (\<exists>w'. WriteVarInt62_forced 25 2 example_writer = (True, w') \<and>
      fst (ReadVarInt62 (reader_at (written w' @ []) (wr_length example_writer))) = Some 25)"
proof -
  have l: "GetVarInt62Len 25 \<le> 2" by (simp add: GetVarInt62Len_eq)
  show ?thesis
    using varint62_forced_write_read [OF net_writer_example _ _ l, where t = "[]"] l by auto
qed

text \<open>
  C35: a value of \<open>2 ^ 62\<close> or more, for which \<open>GetVarInt62Len\<close> reports the length 0, is not
  rejected when a length of 8 is forced: the method returns true and writes the low 32 bits only, so
  the reader gets another value. (The header documents that the method returns false if the value
  does not fit.)
\<close>

theorem varint62_forced_out_of_range:
  assumes "net_writer w" and "2 ^ 62 \<le> unat v" and "8 \<le> remaining w"
  shows "\<exists>w'. WriteVarInt62_forced v 8 w = (True, w') \<and>
    ReadVarInt62 (reader_at (written w') (wr_length w)) =
      (Some (take_bit 32 v), reader_at (written w') (wr_length w + 8))"
proof -
  let ?x = "ucast (ucast v :: u32) :: u64"
  let ?bs = "[0xC0, 0] @ be_bytes 2 0 @ be_bytes 4 ?x"
  have x: "?x = take_bit 32 v" by (rule bit_word_eqI) (simp add: bit_simps)
  have len0: "GetVarInt62Len v = 0" using assms(2) by (simp add: GetVarInt62Len_eq)
  have w: "WriteVarInt62_forced v 8 w = (True, store_next ?bs w)"
    using assms len0
    by (simp add: WriteVarInt62_forced_def and_then_def uint8_codec.wr_room uint16_codec.wr_room
        uint32_codec.wr_room net_writerD) (simp add: remaining_def)
  have wn: "written (store_next ?bs w) = written w @ ?bs"
    using assms by (simp add: net_writerD)
  have sum: "push_bit 24 (drop_bit 24 ?x AND 0xFF) + push_bit 16 (drop_bit 16 ?x AND 0xFF) +
      push_bit 8 (drop_bit 8 ?x AND 0xFF) + (?x AND 0xFF) = ?x"
  proof -
    have "drop_bit 32 ?x = 0" unfolding x by (rule bit_word_eqI) (simp add: bit_simps)
    then show ?thesis
      using push_drop_byte [of 24 ?x] push_drop_byte [of 16 ?x] push_drop_byte [of 8 ?x]
        push_drop_byte [of 0 ?x] by simp
  qed
  have "ReadVarInt62 (reader_at (written w @ ?bs) (wr_length w)) =
      (Some ?x, reader_at (written w @ ?bs) (wr_length w + 8))"
    using ReadVarInt62_forced8 [of "reader_at (written w @ ?bs) (wr_length w)"] assms(1) sum
      byte_of_u32 [of 24 ?x] byte_of_u32 [of 16 ?x] byte_of_u32 [of 8 ?x] byte_of_u32 [of 0 ?x]
    by (simp add: be_bytes_2 be_bytes_4 length_written net_writerD)
  with w wn x show ?thesis by (simp add: store_next_def)
qed

theorem varint62_forced_out_of_range_witness:
  "\<exists>w'. WriteVarInt62_forced 0x4000000000000001 8 example_writer = (True, w') \<and>
     fst (ReadVarInt62 (reader_at (written w') (wr_length example_writer))) = Some 1"
proof -
  have "2 ^ 62 \<le> unat (0x4000000000000001 :: u64)" by simp
  then show ?thesis
    using varint62_forced_out_of_range [OF net_writer_example, where v = "0x4000000000000001"] by auto
qed

end
