(* ===== verification/Quic_Interval.thy ===== *)
theory Quic_Interval
  imports Quic_Prelude
begin

text \<open>
  The model of \<open>QuicInterval\<close> (src/quic/core/quic_interval.h): half-open intervals over any linearly
  ordered type. The default value of the element type (\<open>T()\<close>) is \<open>0\<close>. Each operation is shown
  against the set of points of its arguments.
\<close>

section \<open>Data and operations\<close>

datatype 'a QuicInterval = QuicInterval (imin: 'a) (imax: 'a)

definition Interval_Default :: "'a::{linorder, zero} QuicInterval" where
  "Interval_Default = QuicInterval 0 0"

definition Interval_Empty :: "'a::linorder QuicInterval \<Rightarrow> bool" where
  "Interval_Empty i \<longleftrightarrow> imin i \<ge> imax i"

definition Interval_Length :: "nat QuicInterval \<Rightarrow> nat" where
  "Interval_Length i = (if Interval_Empty i then imin i else imax i) - imin i"

definition Interval_Contains_value :: "'a::linorder QuicInterval \<Rightarrow> 'a \<Rightarrow> bool" where
  "Interval_Contains_value i t \<longleftrightarrow> imin i \<le> t \<and> imax i > t"

definition Interval_Contains :: "'a::linorder QuicInterval \<Rightarrow> 'a QuicInterval \<Rightarrow> bool" where
  "Interval_Contains this i \<longleftrightarrow>
     \<not> Interval_Empty this \<and> \<not> Interval_Empty i \<and> imin this \<le> imin i \<and> imax this \<ge> imax i"

definition Interval_Intersects :: "'a::linorder QuicInterval \<Rightarrow> 'a QuicInterval \<Rightarrow> bool" where
  "Interval_Intersects this i \<longleftrightarrow>
     \<not> Interval_Empty this \<and> \<not> Interval_Empty i \<and> imin this < imax i \<and> imax this > imin i"

text \<open>The overload with an out-parameter: \<open>None\<close> where the method returns false.\<close>

definition Interval_Intersects_out ::
    "'a::linorder QuicInterval \<Rightarrow> 'a QuicInterval \<Rightarrow> 'a QuicInterval option" where
  "Interval_Intersects_out this i =
     (if \<not> Interval_Intersects this i then None
      else Some (QuicInterval (max (imin this) (imin i)) (min (imax this) (imax i))))"

definition Interval_IntersectWith ::
    "'a::linorder QuicInterval \<Rightarrow> 'a QuicInterval \<Rightarrow> bool \<times> 'a QuicInterval" where
  "Interval_IntersectWith this i =
     (if Interval_Empty this then (False, this)
      else
        let (m1, t1) =
              (if imin i > imin this then (True, QuicInterval (imin i) (imax this)) else (False, this))
        in (if imax i < imax t1 then (True, QuicInterval (imin t1) (imax i)) else (m1, t1)))"

definition Interval_SpanningUnion ::
    "'a::linorder QuicInterval \<Rightarrow> 'a QuicInterval \<Rightarrow> bool \<times> 'a QuicInterval" where
  "Interval_SpanningUnion this i =
     (if Interval_Empty i then (False, this)
      else if Interval_Empty this then (True, i)
      else
        let (m1, t1) =
              (if imin i < imin this then (True, QuicInterval (imin i) (imax this)) else (False, this))
        in (if imax i > imax t1 then (True, QuicInterval (imin t1) (imax i)) else (m1, t1)))"

text \<open>\<open>Difference\<close> with a vector: the intervals appended, and the result of the method.\<close>

definition Interval_Difference_list ::
    "'a::linorder QuicInterval \<Rightarrow> 'a QuicInterval \<Rightarrow> bool \<times> 'a QuicInterval list" where
  "Interval_Difference_list this i =
     (if Interval_Empty this then (False, [])
      else if Interval_Empty i then (False, [this])
      else if imin this < imax i \<and> imin this \<ge> imin i \<and> imax this > imax i
      then (True, [QuicInterval (imax i) (imax this)])
      else if imax this > imin i \<and> imax this \<le> imax i \<and> imin this < imin i
      then (True, [QuicInterval (imin this) (imin i)])
      else if imin this < imin i \<and> imax this > imax i
      then (True, [QuicInterval (imin this) (imin i), QuicInterval (imax i) (imax this)])
      else if imin this \<ge> imin i \<and> imax this \<le> imax i then (True, [])
      else (False, [this]))"

text \<open>\<open>Difference\<close> with out-parameters \<open>lo\<close> and \<open>hi\<close>.\<close>

definition Interval_Difference ::
    "'a::{linorder, zero} QuicInterval \<Rightarrow> 'a QuicInterval \<Rightarrow>
       bool \<times> 'a QuicInterval \<times> 'a QuicInterval" where
  "Interval_Difference this i =
     (let nil = Interval_Default
      in if Interval_Empty this then (False, nil, nil)
         else if Interval_Empty i then (False, this, nil)
         else if imin this < imax i \<and> imin this \<ge> imin i \<and> imax this > imax i
         then (True, nil, QuicInterval (imax i) (imax this))
         else if imax this > imin i \<and> imax this \<le> imax i \<and> imin this < imin i
         then (True, QuicInterval (imin this) (imin i), nil)
         else if imin this < imin i \<and> imax this > imax i
         then (True, QuicInterval (imin this) (imin i), QuicInterval (imax i) (imax this))
         else if imin this \<ge> imin i \<and> imax this \<le> imax i then (True, nil, nil)
         else (False, this, nil))"

definition Interval_eq :: "'a::linorder QuicInterval \<Rightarrow> 'a QuicInterval \<Rightarrow> bool" where
  "Interval_eq a b =
     (let ae = Interval_Empty a; be = Interval_Empty b
      in if ae \<and> be then True
         else if ae \<noteq> be then False
         else imin a = imin b \<and> imax a = imax b)"

definition Interval_less :: "'a::linorder QuicInterval \<Rightarrow> 'a QuicInterval \<Rightarrow> bool" where
  "Interval_less a b \<longleftrightarrow> imin a < imin b \<or> (\<not> imin b < imin a \<and> imax b < imax a)"

section \<open>Points\<close>

definition points :: "'a::linorder QuicInterval \<Rightarrow> 'a set" where
  "points i = {imin i ..< imax i}"

lemma points_QuicInterval [iset_simps]: "points (QuicInterval a b) = {a ..< b}"
  by (simp add: points_def)

lemma points_Default [simp]: "points (Interval_Default :: 'a::{linorder, zero} QuicInterval) = {}"
  by (simp add: points_def Interval_Default_def)

lemma Interval_Empty_points: "Interval_Empty i \<longleftrightarrow> points i = {}"
  by (auto simp: Interval_Empty_def points_def)

lemma Interval_Empty_Default [simp]: "Interval_Empty Interval_Default"
  by (simp add: Interval_Empty_points)

lemma Interval_Contains_value_points: "Interval_Contains_value i t \<longleftrightarrow> t \<in> points i"
  by (auto simp: Interval_Contains_value_def points_def)

lemma Interval_Contains_points:
  "Interval_Contains this i \<longleftrightarrow> points i \<noteq> {} \<and> points i \<subseteq> points this"
  by (cases this; cases i)
    (auto simp: Interval_Contains_def Interval_Empty_def points_def ivl_subset)

lemma Interval_Intersects_points:
  "Interval_Intersects this i \<longleftrightarrow> points this \<inter> points i \<noteq> {}"
  by (cases this; cases i) (auto simp: Interval_Intersects_def Interval_Empty_def points_def)

lemma Interval_Intersects_out_points:
  "Interval_Intersects_out this i = Some j \<Longrightarrow> points j = points this \<inter> points i \<and> points j \<noteq> {}"
  by (auto simp: Interval_Intersects_out_def Interval_Intersects_points points_def split: if_splits)

lemma Interval_IntersectWith_points:
  "points (snd (Interval_IntersectWith this i)) = points this \<inter> points i"
  by (cases this; cases i)
    (auto simp: Interval_IntersectWith_def Interval_Empty_def points_def)

lemma Interval_SpanningUnion_least:
  assumes "\<not> Interval_Empty this" and "\<not> Interval_Empty i"
  shows "snd (Interval_SpanningUnion this i) =
    QuicInterval (min (imin this) (imin i)) (max (imax this) (imax i))"
  using assms by (cases this; cases i) (auto simp: Interval_SpanningUnion_def min_def max_def)

lemma Interval_Difference_points:
  assumes "Interval_Difference this i = (b, lo, hi)"
  shows "points this - points i = points lo \<union> points hi \<and> (b \<longleftrightarrow> points this \<inter> points i \<noteq> {})"
  using assms
  by (cases this; cases i)
    (auto simp: Interval_Difference_def Let_def Interval_Empty_def points_def Interval_Default_def
      split: if_splits)

lemma Interval_Difference_list_points:
  assumes "Interval_Difference_list this i = (b, ds)"
  shows "points this - points i = (\<Union>d \<in> set ds. points d) \<and>
    (b \<longleftrightarrow> points this \<inter> points i \<noteq> {})"
  using assms
  by (cases this; cases i)
    (auto simp: Interval_Difference_list_def Interval_Empty_def points_def split: if_splits)

lemma Interval_eq_points: "Interval_eq a b \<longleftrightarrow> points a = points b"
  by (cases a; cases b)
    (auto simp: Interval_eq_def Interval_Empty_def points_def Let_def atLeastLessThan_inj
      atLeastLessThan_eq_iff)

lemma Interval_less_contains: "Interval_Contains a b \<Longrightarrow> \<not> Interval_less b a"
  by (auto simp: Interval_Contains_def Interval_less_def)

end
