(* ===== verification/Quic_Interval_Set.thy ===== *)
theory Quic_Interval_Set
  imports Quic_Interval
begin

text \<open>
  The model of \<open>QuicIntervalSet\<close> (src/quic/core/quic_interval_set.h). The \<open>std::set\<close> of intervals is
  the list of its elements in the order of \<open>IntervalLess\<close>; an iterator is the suffix of that list
  that starts at the element it denotes (\<open>end()\<close> is the empty list), or, where the set changes under
  it, the element itself. The search for intersecting pairs and the loops of \<open>Difference\<close> and
  \<open>Intersection\<close> do not end on every set, so they are partial functions with \<open>None\<close> for a run that
  does not return; on sets that are \<open>Valid\<close> they are shown to return.
\<close>

section \<open>The underlying ordered set\<close>

type_synonym 'a QuicIntervalSet = "'a QuicInterval list"

definition IntervalLess :: "'a::linorder QuicInterval \<Rightarrow> 'a QuicInterval \<Rightarrow> bool" where
  "IntervalLess a b \<longleftrightarrow> imin a < imin b \<or> (imin a = imin b \<and> imax a > imax b)"

fun set_insert ::
    "'a::linorder QuicInterval \<Rightarrow> 'a QuicIntervalSet \<Rightarrow> 'a QuicIntervalSet \<times> bool" where
  "set_insert x [] = ([x], True)"
| "set_insert x (y # ys) =
     (if IntervalLess x y then (x # y # ys, True)
      else if IntervalLess y x then (let (zs, b) = set_insert x ys in (y # zs, b))
      else (y # ys, False))"

definition set_erase ::
    "'a::linorder QuicInterval \<Rightarrow> 'a QuicIntervalSet \<Rightarrow> 'a QuicIntervalSet" where
  "set_erase x S = filter (\<lambda>e. e \<noteq> x) S"

text \<open>\<open>upper_bound\<close> and \<open>lower_bound\<close>: the elements before the iterator, and the iterator.\<close>

definition upper_bound ::
    "'a::linorder QuicIntervalSet \<Rightarrow> 'a QuicInterval \<Rightarrow> 'a QuicIntervalSet \<times> 'a QuicIntervalSet" where
  "upper_bound S x =
     (takeWhile (\<lambda>e. \<not> IntervalLess x e) S, dropWhile (\<lambda>e. \<not> IntervalLess x e) S)"

definition lower_bound ::
    "'a::linorder QuicIntervalSet \<Rightarrow> 'a QuicInterval \<Rightarrow> 'a QuicIntervalSet \<times> 'a QuicIntervalSet" where
  "lower_bound S x = (takeWhile (\<lambda>e. IntervalLess e x) S, dropWhile (\<lambda>e. IntervalLess e x) S)"

text \<open>The iterator that denotes the element \<open>x\<close> of the current set.\<close>

definition iter_at :: "'a::linorder QuicIntervalSet \<Rightarrow> 'a QuicInterval \<Rightarrow> 'a QuicIntervalSet" where
  "iter_at S x = dropWhile (\<lambda>e. e \<noteq> x) S"

section \<open>Operations\<close>

definition Set_Clear :: "'a QuicIntervalSet \<Rightarrow> 'a QuicIntervalSet" where
  "Set_Clear S = []"

definition Set_Size :: "'a QuicIntervalSet \<Rightarrow> nat" where
  "Set_Size S = length S"

definition Set_Empty :: "'a QuicIntervalSet \<Rightarrow> bool" where
  "Set_Empty S \<longleftrightarrow> S = []"

definition SpanningInterval :: "'a::{linorder, zero} QuicIntervalSet \<Rightarrow> 'a QuicInterval" where
  "SpanningInterval S =
     (if S = [] then Interval_Default else QuicInterval (imin (hd S)) (imax (last S)))"

text \<open>The loop of \<open>Compact\<close>: the third argument is what is left between \<open>it\<close> and \<open>end\<close>.\<close>

fun Compact_loop ::
    "'a::linorder QuicIntervalSet \<Rightarrow> 'a QuicInterval \<Rightarrow> 'a QuicIntervalSet \<Rightarrow> 'a QuicIntervalSet"
  where
  "Compact_loop S prev [] = S"
| "Compact_loop S prev (it # next) =
     (if imax prev \<ge> imin it
      then let i = QuicInterval (imin prev) (max (imax prev) (imax it));
               S1 = set_erase prev S;
               S2 = set_erase it S1;
               S3 = fst (set_insert i S2)
           in Compact_loop S3 i next
      else Compact_loop S it next)"

text \<open>\<open>Compact(begin, end)\<close>; the second argument is the range from \<open>begin\<close> to \<open>end\<close>.\<close>

definition Compact ::
    "'a::linorder QuicIntervalSet \<Rightarrow> 'a QuicIntervalSet \<Rightarrow> 'a QuicIntervalSet" where
  "Compact S rng = (case rng of [] \<Rightarrow> S | b # rest \<Rightarrow> Compact_loop S b rest)"

definition Set_Add ::
    "'a::linorder QuicIntervalSet \<Rightarrow> 'a QuicInterval \<Rightarrow> 'a QuicIntervalSet" where
  "Set_Add S interval =
     (if Interval_Empty interval then S
      else case set_insert interval S of (S1, inserted) \<Rightarrow>
        if \<not> inserted then S
        else let before = takeWhile (\<lambda>e. e \<noteq> interval) S1;
                 begin_it = (if before = [] then S1 else iter_at S1 (last before));
                 end_it = snd (upper_bound S1 (QuicInterval (imax interval) (imax interval)));
                 rng = take (length begin_it - length end_it) begin_it
             in Compact S1 rng)"

definition AddOptimizedForAppend ::
    "'a::linorder QuicIntervalSet \<Rightarrow> 'a QuicInterval \<Rightarrow> 'a QuicIntervalSet" where
  "AddOptimizedForAppend S interval =
     (if Set_Empty S then Set_Add S interval
      else let last_interval = last S
           in if imin interval < imin last_interval \<or> imin interval > imax last_interval
              then Set_Add S interval
              else if imax interval \<le> imax last_interval then S
              else butlast S @ [QuicInterval (imin last_interval) (imax interval)])"

definition Set_Contains_value :: "'a::linorder QuicIntervalSet \<Rightarrow> 'a \<Rightarrow> bool" where
  "Set_Contains_value S v =
     (case upper_bound S (QuicInterval v v) of (before, it) \<Rightarrow>
        if before = [] then False else Interval_Contains_value (last before) v)"

definition Set_Contains :: "'a::linorder QuicIntervalSet \<Rightarrow> 'a QuicInterval \<Rightarrow> bool" where
  "Set_Contains S interval =
     (case upper_bound S interval of (before, it) \<Rightarrow>
        if before = [] then False else Interval_Contains (last before) interval)"

definition Set_Contains_set ::
    "'a::{linorder, zero} QuicIntervalSet \<Rightarrow> 'a QuicIntervalSet \<Rightarrow> bool" where
  "Set_Contains_set S other =
     (if \<not> Interval_Contains (SpanningInterval S) (SpanningInterval other) then False
      else list_all (Set_Contains S) other)"

text \<open>\<open>Find\<close> returns the interval, or \<open>None\<close> for \<open>end()\<close>.\<close>

definition Find_value :: "'a::linorder QuicIntervalSet \<Rightarrow> 'a \<Rightarrow> 'a QuicInterval option" where
  "Find_value S v =
     (case upper_bound S (QuicInterval v v) of (before, it) \<Rightarrow>
        if before = [] then None
        else if Interval_Contains_value (last before) v then Some (last before) else None)"

definition Find ::
    "'a::linorder QuicIntervalSet \<Rightarrow> 'a QuicInterval \<Rightarrow> 'a QuicInterval option" where
  "Find S probe =
     (case upper_bound S probe of (before, it) \<Rightarrow>
        if before = [] then None
        else if Interval_Contains (last before) probe then Some (last before) else None)"

definition LowerBound :: "'a::linorder QuicIntervalSet \<Rightarrow> 'a \<Rightarrow> 'a QuicIntervalSet" where
  "LowerBound S v =
     (case lower_bound S (QuicInterval v v) of (before, it) \<Rightarrow>
        if before = [] then it
        else if Interval_Contains_value (last before) v then last before # it else it)"

definition UpperBound :: "'a::linorder QuicIntervalSet \<Rightarrow> 'a \<Rightarrow> 'a QuicIntervalSet" where
  "UpperBound S v = snd (upper_bound S (QuicInterval v v))"

definition IsDisjoint :: "'a::linorder QuicIntervalSet \<Rightarrow> 'a QuicInterval \<Rightarrow> bool" where
  "IsDisjoint S interval =
     (if Interval_Empty interval then True
      else case upper_bound S (QuicInterval (imin interval) (imin interval)) of (before, it) \<Rightarrow>
        if it \<noteq> [] \<and> imax interval > imin (hd it) then False
        else if before = [] then True
        else imax (last before) \<le> imin interval)"

definition Set_Union ::
    "'a::linorder QuicIntervalSet \<Rightarrow> 'a QuicIntervalSet \<Rightarrow> 'a QuicIntervalSet" where
  "Set_Union S other =
     (let S1 = fold (\<lambda>i T. fst (set_insert i T)) other S in Compact S1 S1)"

text \<open>\<open>Valid\<close> with the interval before the current one, if there is one.\<close>

fun Valid_from :: "'a::linorder QuicInterval option \<Rightarrow> 'a QuicIntervalSet \<Rightarrow> bool" where
  "Valid_from prev [] = True"
| "Valid_from prev (it # rest) =
     (if imin it \<ge> imax it then False
      else if (case prev of None \<Rightarrow> False | Some p \<Rightarrow> imax p \<ge> imin it) then False
      else Valid_from (Some it) rest)"

definition Valid :: "'a::linorder QuicIntervalSet \<Rightarrow> bool" where
  "Valid S = Valid_from None S"

definition Set_assign :: "'a::linorder QuicInterval list \<Rightarrow> 'a QuicIntervalSet" where
  "Set_assign il = fold (\<lambda>i S. Set_Add S i) il (Set_Clear [])"

definition Set_eq :: "'a::linorder QuicIntervalSet \<Rightarrow> 'a QuicIntervalSet \<Rightarrow> bool" where
  "Set_eq a b \<longleftrightarrow> Set_Size a = Set_Size b \<and>
     list_all2 (\<lambda>x y. imin x = imin y \<and> imax x = imax y) a b"

definition FindIntersectionCandidate ::
    "'a::linorder QuicIntervalSet \<Rightarrow> 'a QuicInterval \<Rightarrow> 'a QuicIntervalSet" where
  "FindIntersectionCandidate S interval =
     (case upper_bound S interval of (before, mine) \<Rightarrow>
        if before \<noteq> [] then last before # mine else mine)"

text \<open>
  \<open>FindNextIntersectingPairImpl\<close>: \<open>on_hole\<close> receives the set and the range of skipped intervals. The
  result holds the set, the value returned and the two iterators.
\<close>

partial_function (option) FindNextIntersectingPairLoop ::
    "('s \<Rightarrow> 'a::linorder QuicIntervalSet \<Rightarrow> 's) \<Rightarrow> 's \<Rightarrow> 'a QuicIntervalSet \<Rightarrow> 'a QuicIntervalSet \<Rightarrow>
       ('s \<times> bool \<times> 'a QuicIntervalSet \<times> 'a QuicIntervalSet) option" where
  "FindNextIntersectingPairLoop on_hole x mine theirs =
     (if Interval_Intersects (hd mine) (hd theirs) then Some (x, True, mine, theirs)
      else let skipped = takeWhile (\<lambda>m. imax m \<le> imin (hd theirs)) mine;
               mine1 = dropWhile (\<lambda>m. imax m \<le> imin (hd theirs)) mine;
               x1 = on_hole x skipped
           in if mine1 = [] then Some (x1, False, mine1, theirs)
              else let theirs1 = dropWhile (\<lambda>t. imax t \<le> imin (hd mine1)) theirs
                   in if theirs1 = [] then Some (on_hole x1 mine1, False, mine1, theirs1)
                      else FindNextIntersectingPairLoop on_hole x1 mine1 theirs1)"

definition FindNextIntersectingPairImpl ::
    "('s \<Rightarrow> 'a::linorder QuicIntervalSet \<Rightarrow> 's) \<Rightarrow> 's \<Rightarrow> 'a QuicIntervalSet \<Rightarrow> 'a QuicIntervalSet \<Rightarrow>
       ('s \<times> bool \<times> 'a QuicIntervalSet \<times> 'a QuicIntervalSet) option" where
  "FindNextIntersectingPairImpl on_hole x mine theirs =
     (if mine = [] \<or> theirs = [] then Some (x, False, mine, theirs)
      else FindNextIntersectingPairLoop on_hole x mine theirs)"

definition FindNextIntersectingPair ::
    "'a::linorder QuicIntervalSet \<Rightarrow> 'a QuicIntervalSet \<Rightarrow> 'a QuicIntervalSet \<Rightarrow>
       ('a QuicIntervalSet \<times> bool \<times> 'a QuicIntervalSet \<times> 'a QuicIntervalSet) option" where
  "FindNextIntersectingPair = FindNextIntersectingPairImpl (\<lambda>S hole. S)"

definition FindNextIntersectingPairAndEraseHoles ::
    "'a::linorder QuicIntervalSet \<Rightarrow> 'a QuicIntervalSet \<Rightarrow> 'a QuicIntervalSet \<Rightarrow>
       ('a QuicIntervalSet \<times> bool \<times> 'a QuicIntervalSet \<times> 'a QuicIntervalSet) option" where
  "FindNextIntersectingPairAndEraseHoles =
     FindNextIntersectingPairImpl (\<lambda>S hole. filter (\<lambda>e. e \<notin> set hole) S)"

definition Set_Intersects ::
    "'a::{linorder, zero} QuicIntervalSet \<Rightarrow> 'a QuicIntervalSet \<Rightarrow> bool option" where
  "Set_Intersects S other =
     (if \<not> Interval_Intersects (SpanningInterval S) (SpanningInterval other) then Some False
      else let mine = FindIntersectionCandidate S (hd other)
           in if mine = [] then Some False
              else let theirs = FindIntersectionCandidate other (hd mine)
                   in map_option (\<lambda>(_, b, _, _). b) (FindNextIntersectingPair S mine theirs))"

text \<open>One turn of the loop of \<open>Difference\<close>, where \<open>*mine\<close> and \<open>*theirs\<close> overlap.\<close>

definition Difference_step ::
    "'a::{linorder, zero} QuicIntervalSet \<Rightarrow> 'a QuicIntervalSet \<Rightarrow> 'a QuicIntervalSet \<Rightarrow>
       'a QuicIntervalSet \<times> 'a QuicIntervalSet" where
  "Difference_step S mine theirs =
     (let i = hd mine;
          S1 = set_erase i S;
          mine1 = tl mine;
          (_, lo, hi) = Interval_Difference i (hd theirs);
          S2 = (if \<not> Interval_Empty lo then fst (set_insert lo S1) else S1)
      in if \<not> Interval_Empty hi
         then let S3 = fst (set_insert hi S2) in (S3, iter_at S3 hi)
         else (S2, if mine1 = [] then [] else iter_at S2 (hd mine1)))"

partial_function (option) Difference_loop ::
    "'a::{linorder, zero} QuicIntervalSet \<Rightarrow> 'a QuicIntervalSet \<Rightarrow> 'a QuicIntervalSet \<Rightarrow>
       'a QuicIntervalSet option" where
  "Difference_loop S mine theirs =
     Option.bind (FindNextIntersectingPair S mine theirs)
       (\<lambda>r. case r of (_, found, mine1, theirs1) \<Rightarrow>
          if \<not> found then Some S
          else Difference_loop (fst (Difference_step S mine1 theirs1))
                 (snd (Difference_step S mine1 theirs1)) theirs1)"

definition Set_Difference_set ::
    "'a::{linorder, zero} QuicIntervalSet \<Rightarrow> 'a QuicIntervalSet \<Rightarrow> 'a QuicIntervalSet option" where
  "Set_Difference_set S other =
     (if \<not> Interval_Intersects (SpanningInterval S) (SpanningInterval other) then Some S
      else let mine = FindIntersectionCandidate S (hd other)
           in if mine = [] then Some S
              else let theirs = FindIntersectionCandidate other (hd S)
                   in Difference_loop S mine theirs)"

definition Set_Difference ::
    "'a::{linorder, zero} QuicIntervalSet \<Rightarrow> 'a QuicInterval \<Rightarrow> 'a QuicIntervalSet option" where
  "Set_Difference S interval =
     (if \<not> Interval_Intersects (SpanningInterval S) interval then Some S
      else Set_Difference_set S (Set_Add [] interval))"

definition Set_Complement ::
    "'a::{linorder, zero} QuicIntervalSet \<Rightarrow> 'a \<Rightarrow> 'a \<Rightarrow> 'a QuicIntervalSet option" where
  "Set_Complement S mn mx = Set_Difference_set (Set_Add [] (QuicInterval mn mx)) S"

text \<open>
  The inner loop of \<open>Intersection\<close>: inserts the intersections of \<open>i\<close> with the intervals from \<open>theirs\<close>
  on. It returns the set, the iterator \<open>mine\<close> (the last interval inserted, \<open>None\<close> for \<open>end()\<close>) and
  the iterator \<open>theirs\<close> after the step back.
\<close>

fun Intersection_inner ::
    "'a::linorder QuicIntervalSet \<Rightarrow> 'a QuicInterval \<Rightarrow> 'a QuicInterval option \<Rightarrow>
       'a QuicIntervalSet \<Rightarrow> 'a QuicIntervalSet \<Rightarrow>
       'a QuicIntervalSet \<times> 'a QuicInterval option \<times> 'a QuicIntervalSet" where
  "Intersection_inner S i mine back [] = (S, mine, back)"
| "Intersection_inner S i mine back (t # theirs) =
     (case Interval_Intersects_out i t of
        None \<Rightarrow> (S, mine, back @ t # theirs)
      | Some intersection \<Rightarrow>
          Intersection_inner (fst (set_insert intersection S)) i (Some intersection) [t] theirs)"

partial_function (option) Intersection_loop ::
    "'a::{linorder, zero} QuicIntervalSet \<Rightarrow> 'a QuicIntervalSet \<Rightarrow> 'a QuicIntervalSet \<Rightarrow>
       'a QuicIntervalSet option" where
  "Intersection_loop S mine theirs =
     Option.bind (FindNextIntersectingPairAndEraseHoles S mine theirs)
       (\<lambda>r. case r of (S1, found, mine1, theirs1) \<Rightarrow>
          if \<not> found then Some S1
          else case Intersection_inner (set_erase (hd mine1) S1) (hd mine1) None [] theirs1 of
            (S2, last_inserted, theirs2) \<Rightarrow>
              Intersection_loop S2
                (case last_inserted of None \<Rightarrow> [] | Some l \<Rightarrow> tl (iter_at S2 l)) theirs2)"

definition Set_Intersection ::
    "'a::{linorder, zero} QuicIntervalSet \<Rightarrow> 'a QuicIntervalSet \<Rightarrow> 'a QuicIntervalSet option" where
  "Set_Intersection S other =
     (if \<not> Interval_Intersects (SpanningInterval S) (SpanningInterval other)
      then Some (Set_Clear S)
      else let mine = FindIntersectionCandidate S (hd other);
               S1 = mine;
               theirs = FindIntersectionCandidate other (hd S1)
           in Intersection_loop S1 mine theirs)"

section \<open>Order facts\<close>

definition before_gap :: "'a::linorder QuicInterval \<Rightarrow> 'a QuicInterval \<Rightarrow> bool" where
  "before_gap a b \<longleftrightarrow> imax a < imin b"

definition nonempty :: "'a::linorder QuicInterval \<Rightarrow> bool" where
  "nonempty i \<longleftrightarrow> imin i < imax i"

definition set_points :: "'a::linorder QuicIntervalSet \<Rightarrow> 'a set" where
  "set_points S = (\<Union>i \<in> set S. points i)"

lemma set_points_simps [simp, iset_simps]:
  "set_points [] = {}"
  "set_points (i # S) = points i \<union> set_points S"
  "set_points (S @ T) = set_points S \<union> set_points T"
  by (auto simp: set_points_def)

lemma Valid_from_iff:
  "Valid_from p S \<longleftrightarrow> sorted_wrt before_gap S \<and> list_all nonempty S \<and>
     (case p of None \<Rightarrow> True | Some q \<Rightarrow> list_all (before_gap q) S)"
proof (induction S arbitrary: p)
  case (Cons i S)
  show ?case
    by (auto simp: Cons.IH before_gap_def nonempty_def list_all_iff split: option.splits)
qed (simp split: option.splits)

lemma Valid_iff: "Valid S \<longleftrightarrow> sorted_wrt before_gap S \<and> list_all nonempty S"
  by (simp add: Valid_def Valid_from_iff)

lemma Valid_Nil [simp]: "Valid []"
  by (simp add: Valid_iff)

lemma Valid_Cons:
  "Valid (i # S) \<longleftrightarrow> imin i < imax i \<and> (\<forall>j \<in> set S. imax i < imin j) \<and> Valid S"
  by (auto simp: Valid_iff before_gap_def nonempty_def list_all_iff)

lemma Valid_append:
  "Valid (S @ T) \<longleftrightarrow> Valid S \<and> Valid T \<and> (\<forall>i \<in> set S. \<forall>j \<in> set T. imax i < imin j)"
  by (auto simp: Valid_iff sorted_wrt_append before_gap_def list_all_iff)

lemma Valid_nonempty: "Valid S \<Longrightarrow> i \<in> set S \<Longrightarrow> imin i < imax i"
  by (auto simp: Valid_iff nonempty_def list_all_iff)

lemma IntervalLess_trans: "IntervalLess a b \<Longrightarrow> IntervalLess b c \<Longrightarrow> IntervalLess a c"
  by (auto simp: IntervalLess_def)

lemma IntervalLess_irrefl [simp]: "\<not> IntervalLess a a"
  by (simp add: IntervalLess_def)

lemma IntervalLess_total: "\<not> IntervalLess a b \<Longrightarrow> \<not> IntervalLess b a \<Longrightarrow> a = b"
  by (cases a; cases b) (auto simp: IntervalLess_def)

lemma Valid_sorted: "Valid S \<Longrightarrow> sorted_wrt IntervalLess S"
  by (induction S) (auto simp: Valid_Cons IntervalLess_def)

lemma IntervalLess_distinct: "sorted_wrt IntervalLess S \<Longrightarrow> distinct S"
  by (induction S) auto

lemma set_insert_split:
  assumes "\<forall>b \<in> set bef. IntervalLess b j" and "\<forall>a \<in> set aft. IntervalLess j a"
  shows "set_insert j (bef @ aft) = (bef @ j # aft, True)"
  using assms
proof (induction bef)
  case Nil
  then show ?case by (cases aft) auto
next
  case (Cons b bef)
  then have "\<not> IntervalLess j b"
    using IntervalLess_trans by fastforce
  with Cons show ?case by simp
qed

lemma set_insert_member:
  assumes "sorted_wrt IntervalLess S" and "x \<in> set S"
  shows "set_insert x S = (S, False)"
  using assms
proof (induction S)
  case (Cons y S)
  then show ?case
    using IntervalLess_trans IntervalLess_irrefl by (cases "x = y") fastforce+
qed simp

text \<open>An insertion into an ordered set finds the place between the smaller and the larger elements.\<close>

lemma set_insert_new:
  assumes "sorted_wrt IntervalLess S" and "x \<notin> set S"
  obtains bef aft where "S = bef @ aft" "\<forall>b \<in> set bef. IntervalLess b x"
    "\<forall>a \<in> set aft. IntervalLess x a" "set_insert x S = (bef @ x # aft, True)"
proof -
  let ?p = "\<lambda>e. IntervalLess e x"
  have "\<forall>a \<in> set (dropWhile ?p S). IntervalLess x a"
    using assms
  proof (induction S)
    case (Cons y S)
    show ?case
    proof (cases "IntervalLess y x")
      case True
      with Cons show ?thesis by simp
    next
      case False
      with Cons.prems have "IntervalLess x y"
        using IntervalLess_total by fastforce
      with Cons.prems False show ?thesis
        using IntervalLess_trans by fastforce
    qed
  qed simp
  with that [of "takeWhile ?p S" "dropWhile ?p S"] set_insert_split [of "takeWhile ?p S" x "dropWhile ?p S"]
  show thesis by (auto dest: set_takeWhileD)
qed

lemma set_insert_facts:
  assumes "sorted_wrt IntervalLess S"
  shows "sorted_wrt IntervalLess (fst (set_insert x S)) \<and> set (fst (set_insert x S)) = insert x (set S)"
proof (cases "x \<in> set S")
  case True
  with assms show ?thesis by (auto simp: set_insert_member)
next
  case False
  with assms obtain bef aft where "S = bef @ aft" "\<forall>b \<in> set bef. IntervalLess b x"
    "\<forall>a \<in> set aft. IntervalLess x a" "set_insert x S = (bef @ x # aft, True)"
    by (rule set_insert_new)
  with assms show ?thesis
    by (auto simp: sorted_wrt_append)
qed

section \<open>Compaction\<close>

fun compact_list :: "'a::linorder QuicInterval \<Rightarrow> 'a QuicIntervalSet \<Rightarrow> 'a QuicIntervalSet" where
  "compact_list prev [] = [prev]"
| "compact_list prev (it # rest) =
     (if imax prev \<ge> imin it
      then compact_list (QuicInterval (imin prev) (max (imax prev) (imax it))) rest
      else prev # compact_list it rest)"

lemma compact_list_facts:
  assumes "imin prev < imax prev" and "\<forall>i \<in> set rest. imin i < imax i"
    and "sorted (map imin (prev # rest))"
  shows "Valid (compact_list prev rest)
    \<and> set_points (compact_list prev rest) = points prev \<union> set_points rest
    \<and> imax ` set (compact_list prev rest) \<subseteq> imax ` set (prev # rest)
    \<and> (\<forall>i \<in> set (compact_list prev rest). imin prev \<le> imin i)"
  using assms
proof (induction prev rest rule: compact_list.induct)
  case (1 prev)
  then show ?case by (simp add: Valid_Cons)
next
  case (2 prev it rest)
  show ?case
  proof (cases "imin it \<le> imax prev")
    case True
    let ?m = "QuicInterval (imin prev) (max (imax prev) (imax it))"
    have pts: "points ?m = points prev \<union> points it"
      using True 2(3-5) by (cases prev; cases it) (auto simp: points_def less_max_iff_disj)
    have "sorted (map imin (?m # rest))" "imin ?m < imax ?m"
      using 2(3-5) by (auto simp: less_max_iff_disj)
    with 2(1) [OF True] 2(4)
    have IH: "Valid (compact_list ?m rest)"
      "set_points (compact_list ?m rest) = points ?m \<union> set_points rest"
      "imax ` set (compact_list ?m rest) \<subseteq> imax ` set (?m # rest)"
      "\<forall>i \<in> set (compact_list ?m rest). imin ?m \<le> imin i"
      by auto
    have "imax ` set (?m # rest) \<subseteq> imax ` set (prev # it # rest)"
      by (auto simp: max_def)
    with IH have "imax ` set (compact_list ?m rest) \<subseteq> imax ` set (prev # it # rest)"
      by blast
    with IH(1,2,4) True pts show ?thesis
      by (simp add: Un_assoc)
  next
    case False
    with 2(2) 2(3-5)
    have IH: "Valid (compact_list it rest)"
      "set_points (compact_list it rest) = points it \<union> set_points rest"
      "imax ` set (compact_list it rest) \<subseteq> imax ` set (it # rest)"
      "\<forall>i \<in> set (compact_list it rest). imin it \<le> imin i"
      by auto
    from IH(4) False have "\<forall>i \<in> set (compact_list it rest). imax prev < imin i \<and> imin prev \<le> imin i"
      using 2(3,5) by force
    with IH(1-3) False 2(3) show ?thesis
      by (auto simp: Valid_Cons)
  qed
qed

lemma set_erase_split [simp]: "x \<notin> set bef \<Longrightarrow> x \<notin> set aft \<Longrightarrow> set_erase x (bef @ x # aft) = bef @ aft"
  by (auto simp: set_erase_def intro!: arg_cong2 [where f = append] filter_True)

lemma Compact_loop_eq:
  assumes "sorted_wrt IntervalLess (bef @ prev # rest @ aft)"
    and "\<forall>b \<in> set bef. imin b < imin prev" and "\<forall>i \<in> set (prev # rest). imin i < imax i"
  shows "Compact_loop (bef @ prev # rest @ aft) prev rest = bef @ compact_list prev rest @ aft"
  using assms
proof (induction prev rest arbitrary: bef rule: compact_list.induct)
  case (1 prev)
  then show ?case by simp
next
  case (2 prev it rest)
  show ?case
  proof (cases "imin it \<le> imax prev")
    case True
    let ?i = "QuicInterval (imin prev) (max (imax prev) (imax it))"
    let ?S = "bef @ prev # (it # rest) @ aft"
    have d: "distinct ?S"
      using 2(3) by (intro IntervalLess_distinct) simp
    have e1: "set_erase prev ?S = bef @ it # rest @ aft"
      using d by simp
    have e2: "set_erase it (bef @ it # rest @ aft) = bef @ rest @ aft"
      using d by (intro set_erase_split) auto
    have "\<forall>a \<in> set (rest @ aft). IntervalLess prev a \<and> IntervalLess it a"
      using 2(3) by (auto simp: sorted_wrt_append)
    then have up: "\<forall>a \<in> set (rest @ aft). IntervalLess ?i a"
      by (fastforce simp: IntervalLess_def max_def)
    moreover have lo: "\<forall>b \<in> set bef. IntervalLess b ?i"
      using 2(4) by (auto simp: IntervalLess_def)
    ultimately have ins: "set_insert ?i (bef @ rest @ aft) = (bef @ ?i # rest @ aft, True)"
      by (intro set_insert_split)
    have "sorted_wrt IntervalLess (bef @ ?i # rest @ aft)"
      using 2(3) up lo by (auto simp: sorted_wrt_append)
    with 2(1) [OF True, of bef] 2(4,5) True e1 e2 ins show ?thesis
      by (simp add: Let_def less_max_iff_disj)
  next
    case False
    have "\<forall>b \<in> set (bef @ [prev]). imin b < imin it"
      using 2(3-5) False by (fastforce simp: sorted_wrt_append IntervalLess_def)
    with 2(2) [OF False, of "bef @ [prev]"] 2(3,5) False show ?thesis by simp
  qed
qed

section \<open>Insertion and union\<close>

lemma Valid_IntervalLess_upper:
  "imin e < imax e \<Longrightarrow> \<not> IntervalLess (QuicInterval m m) e \<longleftrightarrow> imin e \<le> m"
  by (auto simp: IntervalLess_def)

lemma sorted_IntervalLess_imin: "sorted_wrt IntervalLess S \<Longrightarrow> sorted (map imin S)"
  by (induction S) (auto simp: IntervalLess_def)

lemma upper_bound_point:
  assumes "Valid S"
  shows "upper_bound S (QuicInterval v v) =
    (takeWhile (\<lambda>e. imin e \<le> v) S, dropWhile (\<lambda>e. imin e \<le> v) S)"
  using Valid_IntervalLess_upper [OF Valid_nonempty [OF assms]]
  by (auto simp: upper_bound_def intro!: takeWhile_cong dropWhile_cong)

lemma dropWhile_append_nonmember:
  "x \<notin> set xs \<Longrightarrow> dropWhile (\<lambda>e. e \<noteq> x) (xs @ x # ys) = x # ys"
  by (induction xs) auto

lemma iter_at_split: "distinct (xs @ x # ys) \<Longrightarrow> iter_at (xs @ x # ys) x = x # ys"
  by (simp add: iter_at_def dropWhile_append_nonmember)

lemma takeWhile_append_nonmember:
  "x \<notin> set xs \<Longrightarrow> takeWhile (\<lambda>e. e \<noteq> x) (xs @ x # ys) = xs"
  by (induction xs) auto

text \<open>
  The merge of the range that \<open>Add\<close> hands to \<open>Compact\<close>: the elements before it end below it, and the
  elements behind it start above the new interval.
\<close>

lemma Compact_range:
  assumes "sorted_wrt IntervalLess (pre @ b # mid @ post)"
    and "\<forall>e \<in> set (b # mid). imin e < imax e"
    and "Valid pre" "Valid post"
    and "\<forall>p \<in> set pre. imax p < imin b"
    and "\<forall>e \<in> set (b # mid). \<forall>q \<in> set post. imax e < imin q"
  shows "Valid (Compact (pre @ b # mid @ post) (b # mid))
    \<and> set_points (Compact (pre @ b # mid @ post) (b # mid)) = set_points (pre @ b # mid @ post)"
proof -
  let ?c = "compact_list b mid"
  have lt: "\<forall>p \<in> set pre. imin p < imin b"
    using assms(3,5) Valid_nonempty less_trans by blast
  have eq: "Compact (pre @ b # mid @ post) (b # mid) = pre @ ?c @ post"
    using Compact_loop_eq [of pre b mid post] assms(1,2) lt by (simp add: Compact_def)
  have "sorted_wrt IntervalLess (b # mid)"
    using assms(1) by (simp add: sorted_wrt_append)
  then have c: "Valid ?c" "set_points ?c = points b \<union> set_points mid"
    "imax ` set ?c \<subseteq> imax ` set (b # mid)" "\<forall>i \<in> set ?c. imin b \<le> imin i"
    using compact_list_facts [of b mid] assms(2) sorted_IntervalLess_imin [of "b # mid"] by auto
  have "\<forall>p \<in> set pre. \<forall>i \<in> set ?c. imax p < imin i"
    using c(4) assms(5) by force
  moreover have "\<forall>i \<in> set ?c. \<forall>q \<in> set post. imax i < imin q"
    using c(3) assms(6) by (metis (no_types, lifting) image_iff subsetD)
  moreover have "\<forall>p \<in> set pre. \<forall>q \<in> set post. imax p < imin q"
    using assms(2,5,6) by (meson list.set_intros(1) less_trans)
  ultimately show ?thesis
    using c(1,2) assms(3,4) by (auto simp: eq Valid_append)
qed

lemma take_diff_append: "take (length (xs @ ys) - length ys) (xs @ ys) = xs"
  by simp

lemma sorted_dropWhile_greater:
  "sorted (map f xs) \<Longrightarrow> q \<in> set (dropWhile (\<lambda>e. f e \<le> (m :: 'a::linorder)) xs) \<Longrightarrow> m < f q"
  by (induction xs) (auto split: if_splits)

lemma Set_Add_correct:
  assumes "Valid S"
  shows "Valid (Set_Add S i) \<and> set_points (Set_Add S i) = set_points S \<union> points i"
proof (cases "Interval_Empty i \<or> i \<in> set S")
  case True
  then show ?thesis
  proof
    assume "i \<in> set S"
    then have "Set_Add S i = S"
      using set_insert_member [OF Valid_sorted [OF assms]] by (simp add: Set_Add_def)
    with assms \<open>i \<in> set S\<close> show ?thesis by (auto simp: set_points_def)
  qed (use assms in \<open>simp add: Set_Add_def Interval_Empty_points\<close>)
next
  case False
  then have ne: "imin i < imax i" and new: "i \<notin> set S"
    by (auto simp: Interval_Empty_def)
  from new obtain bef aft where S: "S = bef @ aft" "\<forall>b \<in> set bef. IntervalLess b i"
    "\<forall>a \<in> set aft. IntervalLess i a" and ins: "set_insert i S = (bef @ i # aft, True)"
    by (rule set_insert_new [OF Valid_sorted [OF assms]])
  let ?p = "\<lambda>e. imin e \<le> imax i"
  define mid where "mid = takeWhile ?p aft"
  define post where "post = dropWhile ?p aft"
  have aft: "aft = mid @ post" by (simp add: mid_def post_def)
  have srt: "sorted_wrt IntervalLess (bef @ i # aft)"
    using S Valid_sorted [OF assms] by (auto simp: sorted_wrt_append)
  have nonempty: "\<forall>e \<in> set (bef @ i # aft). imin e < imax e"
    using assms S ne by (auto simp: Valid_nonempty)
  have "\<forall>b \<in> set bef. ?p b"
    using S(2) ne by (auto simp: IntervalLess_def)
  then have drop: "snd (upper_bound (bef @ i # aft) (QuicInterval (imax i) (imax i))) = post"
    using nonempty ne
    by (simp add: upper_bound_def dropWhile_append Valid_IntervalLess_upper post_def cong: dropWhile_cong)
  have post_gt: "\<forall>q \<in> set post. imax i < imin q"
    using srt sorted_dropWhile_greater [of imin aft] sorted_IntervalLess_imin [of aft]
    by (auto simp: sorted_wrt_append post_def)
  have d: "distinct (bef @ i # aft)"
    by (rule IntervalLess_distinct [OF srt])
  have V: "Valid (bef @ mid @ post)"
    using assms S(1) aft by simp
  have take: "take (length (xs @ aft) - length post) (xs @ aft) = xs @ mid" for xs
    using take_diff_append [of "xs @ mid" post] by (simp add: aft)
  have it: "bef \<noteq> [] \<Longrightarrow> iter_at (bef @ i # aft) (last bef) = last bef # i # aft"
    using d by (cases bef rule: rev_cases) (auto intro!: iter_at_split)
  have add: "Set_Add S i = Compact (bef @ i # aft) (if bef = [] then i # mid else last bef # i # mid)"
    using False d drop take [of "[i]"] take [of "[last bef, i]"] it
    by (simp add: Set_Add_def ins takeWhile_append_nonmember Let_def)
  have gap: "\<forall>e \<in> set (i # mid). \<forall>q \<in> set post. imax e < imin q"
    using post_gt V by (auto simp: Valid_append)
  have pts: "set_points S = set_points bef \<union> set_points mid \<union> set_points post"
    by (auto simp: S(1) aft)
  show ?thesis
  proof (cases bef rule: rev_cases)
    case Nil
    with Compact_range [of "[]" i mid post] srt nonempty V gap aft show ?thesis
      by (auto simp: add pts Valid_append)
  next
    case (snoc pre b)
    have "Valid (Compact (pre @ b # (i # mid) @ post) (b # i # mid)) \<and>
      set_points (Compact (pre @ b # (i # mid) @ post) (b # i # mid)) =
      set_points (pre @ b # (i # mid) @ post)"
      using srt nonempty V gap snoc aft by (intro Compact_range) (auto simp: Valid_append Valid_Cons)
    then show ?thesis
      by (auto simp: add pts snoc aft)
  qed
qed

lemma Set_Add_Nil: "Set_Add [] i = (if Interval_Empty i then [] else [i])"
  by (auto simp: Set_Add_def Compact_def upper_bound_def Let_def Interval_Empty_def IntervalLess_def)

lemma AddOptimizedForAppend_correct:
  assumes "Valid S"
  shows "Valid (AddOptimizedForAppend S i) \<and>
    set_points (AddOptimizedForAppend S i) = set_points S \<union> points i"
proof (cases S rule: rev_cases)
  case Nil
  then show ?thesis using Set_Add_correct [OF assms] by (simp add: AddOptimizedForAppend_def Set_Empty_def)
next
  case (snoc T l)
  have l: "imin l < imax l"
    using assms snoc by (simp add: Valid_append Valid_Cons)
  show ?thesis
  proof (cases "imin i < imin l \<or> imin i > imax l")
    case True
    then show ?thesis
      using Set_Add_correct [OF assms] snoc by (simp add: AddOptimizedForAppend_def Set_Empty_def)
  next
    case False
    then show ?thesis
      using assms snoc l
      by (cases i; cases l)
        (auto simp: AddOptimizedForAppend_def Set_Empty_def Let_def Valid_append Valid_Cons points_def)
  qed
qed

lemma fold_set_insert:
  assumes "sorted_wrt IntervalLess S"
  shows "sorted_wrt IntervalLess (fold (\<lambda>i T. fst (set_insert i T)) other S) \<and>
    set (fold (\<lambda>i T. fst (set_insert i T)) other S) = set other \<union> set S"
  using assms
proof (induction other arbitrary: S)
  case (Cons i other)
  with set_insert_facts [OF Cons.prems, of i] show ?case by simp
qed simp

lemma Set_Union_correct:
  assumes "Valid S" and "Valid other"
  shows "Valid (Set_Union S other) \<and> set_points (Set_Union S other) = set_points S \<union> set_points other"
proof -
  define U where "U = fold (\<lambda>i T. fst (set_insert i T)) other S"
  have U: "sorted_wrt IntervalLess U" "set U = set other \<union> set S"
    using fold_set_insert [OF Valid_sorted [OF assms(1)], of other] by (simp_all add: U_def)
  then have pts: "set_points U = set_points S \<union> set_points other"
    by (auto simp: set_points_def)
  have ne: "\<forall>e \<in> set U. imin e < imax e"
    using U(2) assms Valid_nonempty by blast
  show ?thesis
  proof (cases U)
    case Nil
    with pts show ?thesis by (simp add: Set_Union_def Compact_def flip: U_def)
  next
    case (Cons b mid)
    with Compact_range [of "[]" b mid "[]"] U(1) ne pts show ?thesis
      by (simp add: Set_Union_def Let_def flip: U_def)
  qed
qed

lemma Valid_assign: "Valid (Set_assign il) \<and> set_points (Set_assign il) = (\<Union>i \<in> set il. points i)"
proof -
  have "Valid S \<Longrightarrow> Valid (fold (\<lambda>i S. Set_Add S i) il S) \<and>
      set_points (fold (\<lambda>i S. Set_Add S i) il S) = (\<Union>i \<in> set il. points i) \<union> set_points S"
    for S :: "'a QuicIntervalSet"
    by (induction il arbitrary: S) (auto simp: Set_Add_correct)
  then show ?thesis by (simp add: Set_assign_def Set_Clear_def)
qed

section \<open>Queries\<close>

text \<open>The interval before an upper bound is the only one that can hold the point searched for.\<close>

lemma Valid_imin_sorted: "Valid S \<Longrightarrow> sorted (map imin S)"
  by (intro sorted_IntervalLess_imin Valid_sorted)

lemma points_before_last:
  assumes "Valid (bef @ [l] @ aft)" and "imin l \<le> v" and "\<forall>a \<in> set aft. v < imin a"
  shows "v \<in> set_points (bef @ [l] @ aft) \<longleftrightarrow> v \<in> points l"
  using assms by (force simp: Valid_append set_points_def points_def)

lemma upper_bound_cases:
  assumes "Valid S"
  obtains aft where "upper_bound S (QuicInterval v v) = ([], aft)" "S = aft" "\<forall>a \<in> set aft. v < imin a"
  | bef l aft where "upper_bound S (QuicInterval v v) = (bef @ [l], aft)" "S = bef @ [l] @ aft"
    "imin l \<le> v" "\<forall>a \<in> set aft. v < imin a"
proof -
  let ?p = "\<lambda>e. imin e \<le> v"
  have u: "upper_bound S (QuicInterval v v) = (takeWhile ?p S, dropWhile ?p S)"
    by (rule upper_bound_point [OF assms])
  have gt: "\<forall>a \<in> set (dropWhile ?p S). v < imin a"
    using sorted_dropWhile_greater [OF Valid_imin_sorted [OF assms]] by blast
  show thesis
  proof (cases "takeWhile ?p S" rule: rev_cases)
    case Nil
    with u gt that(1) [of S] show thesis by (metis append_Nil takeWhile_dropWhile_id)
  next
    case (snoc bef l)
    then have "?p l" by (metis in_set_conv_decomp set_takeWhileD)
    moreover have "S = bef @ [l] @ dropWhile ?p S"
      using snoc by (metis append_assoc takeWhile_dropWhile_id)
    ultimately show thesis using that(2) [OF u [unfolded snoc] _ _ gt] by blast
  qed
qed

lemma Set_Contains_value_iff:
  assumes "Valid S"
  shows "Set_Contains_value S v \<longleftrightarrow> v \<in> set_points S"
proof (rule upper_bound_cases [OF assms, of v])
  fix aft
  assume "upper_bound S (QuicInterval v v) = ([], aft)" "S = aft" "\<forall>a \<in> set aft. v < imin a"
  then show ?thesis by (force simp: Set_Contains_value_def set_points_def points_def)
next
  fix bef l aft
  assume u: "upper_bound S (QuicInterval v v) = (bef @ [l], aft)" and S: "S = bef @ [l] @ aft"
    and "imin l \<le> v" "\<forall>a \<in> set aft. v < imin a"
  then have "v \<in> set_points S \<longleftrightarrow> v \<in> points l"
    using points_before_last assms by blast
  with u show ?thesis by (simp add: Set_Contains_value_def Interval_Contains_value_points)
qed

lemma Find_value_iff:
  assumes "Valid S"
  shows "Find_value S v = Some i \<longleftrightarrow> i \<in> set S \<and> v \<in> points i"
proof (rule upper_bound_cases [OF assms, of v])
  fix aft
  assume "upper_bound S (QuicInterval v v) = ([], aft)" "S = aft" "\<forall>a \<in> set aft. v < imin a"
  then show ?thesis by (force simp: Find_value_def points_def)
next
  fix bef l aft
  assume u: "upper_bound S (QuicInterval v v) = (bef @ [l], aft)" and S: "S = bef @ [l] @ aft"
    and "imin l \<le> v" "\<forall>a \<in> set aft. v < imin a"
  then have "v \<in> points j \<Longrightarrow> j \<in> set S \<Longrightarrow> j = l" for j
    using assms by (force simp: Valid_append points_def)
  with u S show ?thesis by (auto simp: Find_value_def Interval_Contains_value_points)
qed

lemma IsDisjoint_iff:
  assumes "Valid S"
  shows "IsDisjoint S i \<longleftrightarrow> points i \<inter> set_points S = {}"
proof (cases "Interval_Empty i")
  case True
  then show ?thesis by (simp add: IsDisjoint_def Interval_Empty_points)
next
  case False
  then have ne: "imin i < imax i" by (simp add: Interval_Empty_def)
  have tail: "(aft \<noteq> [] \<and> imax i > imin (hd aft)) \<longleftrightarrow> points i \<inter> set_points aft \<noteq> {}"
    if "Valid aft" "\<forall>a \<in> set aft. imin i < imin a" for aft
  proof (cases aft)
    case (Cons a rest)
    have a: "\<forall>j \<in> set aft. imin a \<le> imin j" "imin a \<in> points a"
      using that(1) Cons by (auto simp: Valid_Cons points_def)
    show ?thesis
    proof (cases "imin a < imax i")
      case True
      with a(2) that(2) Cons have "imin a \<in> points i \<inter> set_points aft"
        by (simp add: points_def less_imp_le)
      with True Cons show ?thesis by auto
    next
      case False
      with a(1) have "\<forall>j \<in> set aft. imax i \<le> imin j" by fastforce
      then have "points i \<inter> set_points aft = {}" by (fastforce simp: set_points_def points_def)
      with False Cons show ?thesis by simp
    qed
  qed simp
  show ?thesis
  proof (rule upper_bound_cases [OF assms, of "imin i"])
    fix aft
    assume "upper_bound S (QuicInterval (imin i) (imin i)) = ([], aft)" "S = aft"
      "\<forall>a \<in> set aft. imin i < imin a"
    with tail [of aft] assms False show ?thesis by (auto simp: IsDisjoint_def)
  next
    fix bef l aft
    assume u: "upper_bound S (QuicInterval (imin i) (imin i)) = (bef @ [l], aft)"
      and S: "S = bef @ [l] @ aft" and l: "imin l \<le> imin i" and gt: "\<forall>a \<in> set aft. imin i < imin a"
    have "points i \<inter> set_points bef = {}"
      using assms S l by (force simp: Valid_append set_points_def points_def)
    moreover have "points i \<inter> points l = {} \<longleftrightarrow> imax l \<le> imin i"
      using ne l by (auto simp: points_def)
    ultimately show ?thesis
      using tail [of aft] gt assms S u False by (auto simp: IsDisjoint_def Valid_append Valid_Cons)
  qed
qed

text \<open>An interval contained in the union lies in one of the intervals: the gaps are not empty.\<close>

lemma Valid_subset_one:
  assumes "Valid S" and "points i \<noteq> {}" and "points i \<subseteq> set_points S"
  shows "\<exists>j \<in> set S. points i \<subseteq> points j"
proof -
  have i: "imin i < imax i" using assms(2) by (auto simp: points_def)
  with assms(3) obtain j where j: "j \<in> set S" "imin i \<in> points j"
    by (force simp: set_points_def points_def)
  have "imax i \<le> imax j"
  proof (rule ccontr)
    assume "\<not> imax i \<le> imax j"
    with j(2) have "imax j \<in> points i" by (auto simp: points_def)
    with assms(3) obtain k where k: "k \<in> set S" "imax j \<in> points k"
      by (auto simp: set_points_def)
    from j(1) obtain S1 S2 where S: "S = S1 @ j # S2" by (meson split_list)
    then show False
      using assms(1) k j(2) by (force simp: Valid_append Valid_Cons points_def)
  qed
  with j show ?thesis by (force simp: points_def)
qed

lemma Contains_last_before:
  assumes "Valid S" and "j \<in> set S" and "Interval_Contains j i"
  shows "\<exists>bef aft. S = bef @ j # aft \<and> upper_bound S i = (bef @ [j], aft)"
proof -
  from assms(2) obtain bef aft where S: "S = bef @ j # aft" by (meson split_list)
  have c: "imin j \<le> imin i" "imax i \<le> imax j" "imin i < imax i"
    using assms(3) by (auto simp: Interval_Contains_def Interval_Empty_def)
  have low: "\<forall>b \<in> set (bef @ [j]). \<not> IntervalLess i b"
  proof
    fix b assume b: "b \<in> set (bef @ [j])"
    then have "b = j \<or> imin b < imin j"
      using assms(1) S Valid_nonempty [OF assms(1), of b] by (auto simp: Valid_append)
    with c show "\<not> IntervalLess i b" by (auto simp: IntervalLess_def)
  qed
  have high: "\<forall>a \<in> set aft. IntervalLess i a"
    using assms(1) c S by (force simp: Valid_append Valid_Cons IntervalLess_def)
  have "upper_bound ((bef @ [j]) @ aft) i = (bef @ [j], aft)"
    using low high unfolding upper_bound_def
    by (subst takeWhile_append2, blast, subst dropWhile_append2, blast) (cases aft; simp)
  with S show ?thesis by auto
qed

lemma last_upper_bound_member:
  "upper_bound S i = (bef, aft) \<Longrightarrow> bef \<noteq> [] \<Longrightarrow> last bef \<in> set S"
  by (auto simp: upper_bound_def dest: set_takeWhileD last_in_set)

lemma Set_Contains_ex:
  assumes "Valid S"
  shows "Set_Contains S i \<longleftrightarrow> (\<exists>j \<in> set S. Interval_Contains j i)"
proof
  assume "Set_Contains S i"
  then show "\<exists>j \<in> set S. Interval_Contains j i"
    using last_upper_bound_member by (fastforce simp: Set_Contains_def split: prod.splits if_splits)
next
  assume "\<exists>j \<in> set S. Interval_Contains j i"
  then show "Set_Contains S i"
    using Contains_last_before [OF assms] by (fastforce simp: Set_Contains_def)
qed

lemma Set_Contains_iff:
  assumes "Valid S"
  shows "Set_Contains S i \<longleftrightarrow> points i \<noteq> {} \<and> points i \<subseteq> set_points S"
proof
  assume "Set_Contains S i"
  then show "points i \<noteq> {} \<and> points i \<subseteq> set_points S"
    by (auto simp: Set_Contains_ex [OF assms] Interval_Contains_points set_points_def)
next
  assume "points i \<noteq> {} \<and> points i \<subseteq> set_points S"
  then show "Set_Contains S i"
    using Valid_subset_one [OF assms] by (auto simp: Set_Contains_ex [OF assms] Interval_Contains_points)
qed

lemma Find_iff:
  assumes "Valid S"
  shows "Find S i = Some j \<longleftrightarrow> j \<in> set S \<and> Interval_Contains j i"
proof
  assume "Find S i = Some j"
  then show "j \<in> set S \<and> Interval_Contains j i"
    using last_upper_bound_member by (fastforce simp: Find_def split: prod.splits if_splits)
next
  assume "j \<in> set S \<and> Interval_Contains j i"
  then show "Find S i = Some j"
    using Contains_last_before [OF assms] by (fastforce simp: Find_def)
qed

lemma SpanningInterval_points:
  assumes "Valid S" and "S \<noteq> []"
  shows "imin (SpanningInterval S) = imin (hd S) \<and> imax (SpanningInterval S) = imax (last S)
    \<and> set_points S \<subseteq> points (SpanningInterval S) \<and> points (SpanningInterval S) \<noteq> {}"
proof -
  have "imin (hd S) \<le> imin j \<and> imax j \<le> imax (last S)" if "j \<in> set S" for j
  proof -
    from that obtain S1 S2 where S: "S = S1 @ j # S2" by (meson split_list)
    have "imin (hd S) \<le> imin j"
      using assms(1) S by (cases S1) (auto simp: Valid_Cons Valid_append)
    moreover have "imax j \<le> imax (last S)"
      using assms(1) S by (cases S2 rule: rev_cases) (auto simp: Valid_Cons Valid_append)
    ultimately show ?thesis ..
  qed
  moreover have "imin (hd S) < imax (last S)"
    using calculation [of "hd S"] assms Valid_nonempty [of S "hd S"] by fastforce
  ultimately show ?thesis
    using assms(2) by (fastforce simp: SpanningInterval_def set_points_def points_def)
qed

lemma spans_disjoint:
  assumes "Valid S" and "\<not> Interval_Intersects (SpanningInterval S) i"
  shows "set_points S \<inter> points i = {}"
  using SpanningInterval_points [OF assms(1)] assms(2) by (cases "S = []") (auto simp: Interval_Intersects_points)

lemma spans_disjoint_sets:
  assumes "Valid S" "Valid other" "\<not> Interval_Intersects (SpanningInterval S) (SpanningInterval other)"
  shows "set_points S \<inter> set_points other = {}"
  using spans_disjoint [OF assms(1,3)] SpanningInterval_points [OF assms(2)] by (cases "other = []") auto

lemma Set_Contains_set_iff:
  assumes "Valid S" and "Valid other"
  shows "Set_Contains_set S other \<longleftrightarrow> other \<noteq> [] \<and> set_points other \<subseteq> set_points S"
proof (cases "other = []")
  case True
  then show ?thesis by (simp add: Set_Contains_set_def SpanningInterval_def Interval_Contains_points)
next
  case False
  have all: "list_all (Set_Contains S) other \<longleftrightarrow> set_points other \<subseteq> set_points S"
    using Valid_nonempty [OF assms(2)]
    by (auto simp: list_all_iff Set_Contains_iff [OF assms(1)] set_points_def points_def)
  have "Interval_Contains (SpanningInterval S) (SpanningInterval other)"
    if sub: "set_points other \<subseteq> set_points S"
  proof -
    have "imin (hd other) \<in> set_points other"
      using False Valid_nonempty [OF assms(2), of "hd other"] by (auto simp: set_points_def points_def intro!: bexI [of _ "hd other"])
    then have ne: "S \<noteq> []" using sub by auto
    have "points o' \<subseteq> points (SpanningInterval S) \<and> imin o' < imax o'" if "o' \<in> set other" for o'
      using that sub SpanningInterval_points [OF assms(1) ne] Valid_nonempty [OF assms(2)]
      by (fastforce simp: set_points_def)
    from this [of "hd other"] this [of "last other"] False
    have "imin (SpanningInterval S) \<le> imin (hd other)" "imax (last other) \<le> imax (SpanningInterval S)"
      by (auto simp: points_def ivl_subset)
    then show ?thesis
      using SpanningInterval_points [OF assms(1) ne] SpanningInterval_points [OF assms(2) False]
      by (auto simp: Interval_Contains_def Interval_Empty_points)
  qed
  with all False show ?thesis by (auto simp: Set_Contains_set_def)
qed

section \<open>Search for intersecting pairs\<close>

text \<open>
  What the search needs of its \<open>on_hole\<close> argument: the ranges handed over one after the other act
  like the one range made of them. Both variants of the search meet it.
\<close>

locale hole_handler =
  fixes on_hole :: "'s \<Rightarrow> 'a::linorder QuicInterval list \<Rightarrow> 's"
  assumes hole_Nil: "on_hole x [] = x"
    and hole_append: "on_hole (on_hole x h1) h2 = on_hole x (h1 @ h2)"
begin

definition pair_found ::
    "'s \<Rightarrow> 'a QuicIntervalSet \<Rightarrow> 'a QuicIntervalSet \<Rightarrow> 's \<times> bool \<times> 'a QuicIntervalSet \<times> 'a QuicIntervalSet \<Rightarrow> bool"
  where
  "pair_found x mine theirs r \<longleftrightarrow> (case r of (x', found, mine', theirs') \<Rightarrow>
     (\<exists>m1 t1. mine = m1 @ mine' \<and> theirs = t1 @ theirs'
        \<and> set_points m1 \<inter> set_points theirs = {} \<and> set_points t1 \<inter> set_points mine' = {}
        \<and> x' = on_hole x (if found then m1 else mine)
        \<and> (if found then mine' \<noteq> [] \<and> theirs' \<noteq> [] \<and> Interval_Intersects (hd mine') (hd theirs')
               \<and> (m1 = [] \<and> t1 = [] \<longrightarrow> Interval_Intersects (hd mine) (hd theirs))
           else set_points mine \<inter> set_points theirs = {})))"

lemma skip_disjoint:
  assumes "Valid theirs"
  shows "set_points (takeWhile (\<lambda>m. imax m \<le> imin (hd theirs)) mine) \<inter> set_points theirs = {}"
proof -
  have "imin (hd theirs) \<le> imin t" if "t \<in> set theirs" for t
    using that assms by (cases theirs) (auto simp: Valid_Cons)
  moreover have "imax m \<le> imin (hd theirs)"
    if "m \<in> set (takeWhile (\<lambda>m. imax m \<le> imin (hd theirs)) mine)" for m
    using that by (auto dest: set_takeWhileD)
  ultimately show ?thesis by (fastforce simp: set_points_def points_def)
qed

lemma search_loop_returns:
  assumes "Valid mine" "Valid theirs" "mine \<noteq> []" "theirs \<noteq> []"
  shows "\<exists>r. FindNextIntersectingPairLoop on_hole x mine theirs = Some r \<and> pair_found x mine theirs r"
  using assms
proof (induction "length mine + length theirs" arbitrary: x mine theirs rule: less_induct)
  case less
  let ?p = "\<lambda>m. imax m \<le> imin (hd theirs)"
  define m0 where "m0 = takeWhile ?p mine"
  define mine1 where "mine1 = dropWhile ?p mine"
  have mine: "mine = m0 @ mine1" by (simp add: m0_def mine1_def)
  let ?q = "\<lambda>t. imax t \<le> imin (hd mine1)"
  define t0 where "t0 = takeWhile ?q theirs"
  define theirs1 where "theirs1 = dropWhile ?q theirs"
  have theirs: "theirs = t0 @ theirs1" by (simp add: t0_def theirs1_def)
  have V: "Valid mine1" "Valid theirs1"
    using less.prems mine theirs by (auto simp: Valid_append)
  have m0: "set_points m0 \<inter> set_points theirs = {}"
    unfolding m0_def by (rule skip_disjoint [OF less.prems(2)])
  have t0: "set_points t0 \<inter> set_points mine1 = {}"
    unfolding t0_def by (rule skip_disjoint [OF V(1)])
  note unfold = FindNextIntersectingPairLoop.simps [of on_hole x mine theirs, folded m0_def mine1_def]
  show ?case
  proof (cases "Interval_Intersects (hd mine) (hd theirs)")
    case True
    then show ?thesis
      using less.prems by (subst unfold) (auto simp: pair_found_def hole_Nil)
  next
    case no: False
    show ?thesis
    proof (cases "mine1 = [] \<or> theirs1 = []")
      case True
      have "set_points mine \<inter> set_points theirs = {}"
        using True m0 t0 mine theirs by auto
      moreover have "FindNextIntersectingPairLoop on_hole x mine theirs =
          Some (on_hole x mine, False, mine1, if mine1 = [] then theirs else [])"
        using True no mine by (subst unfold) (auto simp: Let_def hole_append theirs1_def)
      ultimately show ?thesis
        using True m0 t0 mine theirs by (auto simp: pair_found_def)
    next
      case False
      have "m0 \<noteq> [] \<or> t0 \<noteq> []"
      proof (rule ccontr)
        assume "\<not> ?thesis"
        then have "m0 = []" "t0 = []" "mine1 = mine" using mine by auto
        then have "imin (hd theirs) < imax (hd mine)" "imin (hd mine) < imax (hd theirs)"
          using less.prems(3,4) by (simp_all add: m0_def t0_def takeWhile_eq_Nil_iff not_le)
        with no less.prems Valid_nonempty [of mine "hd mine"] Valid_nonempty [of theirs "hd theirs"]
        show False by (auto simp: Interval_Intersects_def Interval_Empty_def)
      qed
      then have "length mine1 + length theirs1 < length mine + length theirs"
        using mine theirs by (auto simp: length_greater_0_conv simp flip: length_greater_0_conv)
      from less.hyps [OF this V] False obtain r where
        r: "FindNextIntersectingPairLoop on_hole (on_hole x m0) mine1 theirs1 = Some r"
          "pair_found (on_hole x m0) mine1 theirs1 r" by blast
      obtain x' f mine' theirs' where rr: "r = (x', f, mine', theirs')" by (cases r)
      from r(2) [unfolded rr pair_found_def prod.case] obtain m1 t1 where p: "mine1 = m1 @ mine'" "theirs1 = t1 @ theirs'"
        "set_points m1 \<inter> set_points theirs1 = {}" "set_points t1 \<inter> set_points mine' = {}"
        "x' = on_hole (on_hole x m0) (if f then m1 else mine1)"
        "if f then mine' \<noteq> [] \<and> theirs' \<noteq> [] \<and> Interval_Intersects (hd mine') (hd theirs')
         else set_points mine1 \<inter> set_points theirs1 = {}"
        by (elim exE conjE) (rule that; simp split: if_splits)
      have "set_points (m0 @ m1) \<inter> set_points theirs = {}" "set_points (t0 @ t1) \<inter> set_points mine' = {}"
        using m0 t0 p(1-4) theirs by auto
      moreover have "\<not> f \<Longrightarrow> set_points mine \<inter> set_points theirs = {}"
        using m0 t0 p(6) mine theirs by auto
      ultimately have "pair_found x mine theirs r"
        using p(1,2,5,6) mine theirs \<open>m0 \<noteq> [] \<or> t0 \<noteq> []\<close> unfolding pair_found_def rr prod.case
        by (intro exI [of _ "m0 @ m1"] exI [of _ "t0 @ t1"] conjI) (simp_all add: hole_append)
      with r(1) no False show ?thesis
        by (subst unfold) (auto simp: Let_def simp flip: theirs1_def)
    qed
  qed
qed

lemma search_returns:
  assumes "Valid mine" "Valid theirs" "theirs \<noteq> []"
  shows "\<exists>r. FindNextIntersectingPairImpl on_hole x mine theirs = Some r \<and> pair_found x mine theirs r"
proof (cases "mine = []")
  case True
  then show ?thesis
    by (simp add: FindNextIntersectingPairImpl_def pair_found_def hole_Nil)
next
  case False
  then show ?thesis
    using search_loop_returns [OF assms(1,2) _ assms(3)] assms(3) by (simp add: FindNextIntersectingPairImpl_def)
qed

lemma search_obtain:
  assumes "Valid mine" "Valid theirs" "theirs \<noteq> []"
  obtains f mine' theirs' m1 t1 where
    "FindNextIntersectingPairImpl on_hole x mine theirs =
       Some (on_hole x (if f then m1 else mine), f, mine', theirs')"
    "mine = m1 @ mine'" "theirs = t1 @ theirs'"
    "set_points m1 \<inter> set_points theirs = {}" "set_points t1 \<inter> set_points mine' = {}"
    "f \<longrightarrow> mine' \<noteq> [] \<and> theirs' \<noteq> [] \<and> Interval_Intersects (hd mine') (hd theirs')
       \<and> (m1 = [] \<and> t1 = [] \<longrightarrow> Interval_Intersects (hd mine) (hd theirs))"
    "\<not> f \<longrightarrow> set_points mine \<inter> set_points theirs = {}"
proof -
  from search_returns [OF assms, of x] obtain r where
    r: "FindNextIntersectingPairImpl on_hole x mine theirs = Some r" "pair_found x mine theirs r" by blast
  obtain x' f mine' theirs' where rr: "r = (x', f, mine', theirs')" by (cases r)
  from r(2) [unfolded rr pair_found_def prod.case] obtain m1 t1 where
    p: "mine = m1 @ mine'" "theirs = t1 @ theirs'"
      "set_points m1 \<inter> set_points theirs = {}" "set_points t1 \<inter> set_points mine' = {}"
      "x' = on_hole x (if f then m1 else mine)"
      "if f then mine' \<noteq> [] \<and> theirs' \<noteq> [] \<and> Interval_Intersects (hd mine') (hd theirs')
         \<and> (m1 = [] \<and> t1 = [] \<longrightarrow> Interval_Intersects (hd mine) (hd theirs))
       else set_points mine \<inter> set_points theirs = {}"
    by blast
  show thesis
  proof (rule that)
    show "FindNextIntersectingPairImpl on_hole x mine theirs =
       Some (on_hole x (if f then m1 else mine), f, mine', theirs')"
      using r(1) p(5) by (simp only: rr)
  qed (use p(1-4,6) in \<open>cases f; simp only: if_True if_False simp_thms\<close>)+
qed

end

interpretation keep_holes: hole_handler "\<lambda>(S :: 'a::linorder QuicIntervalSet) hole. S"
  by unfold_locales simp_all

interpretation erase_holes: hole_handler "\<lambda>(S :: 'a::linorder QuicIntervalSet) hole. filter (\<lambda>e. e \<notin> set hole) S"
  by unfold_locales (simp_all add: conj_commute)

lemma FindIntersectionCandidate_split:
  assumes "Valid S"
  shows "\<exists>bef. S = bef @ FindIntersectionCandidate S i \<and> (\<forall>b \<in> set bef. imax b \<le> imin i)
    \<and> (S \<noteq> [] \<longrightarrow> FindIntersectionCandidate S i \<noteq> [])"
proof (cases "takeWhile (\<lambda>e. \<not> IntervalLess i e) S" rule: rev_cases)
  case Nil
  then show ?thesis
    by (cases S) (auto simp: FindIntersectionCandidate_def upper_bound_def split: if_splits)
next
  case (snoc bef l)
  let ?aft = "dropWhile (\<lambda>e. \<not> IntervalLess i e) S"
  have S: "S = bef @ l # ?aft"
    using takeWhile_dropWhile_id [of "\<lambda>e. \<not> IntervalLess i e" S] snoc by simp
  have "\<not> IntervalLess i l"
    using snoc by (metis in_set_conv_decomp set_takeWhileD)
  then have "imin l \<le> imin i" by (auto simp: IntervalLess_def)
  moreover have "Valid (bef @ l # ?aft)" using assms by (subst (asm) S)
  ultimately have "\<forall>b \<in> set bef. imax b \<le> imin i" by (force simp: Valid_append)
  moreover have "FindIntersectionCandidate S i = l # ?aft"
    using snoc by (simp add: FindIntersectionCandidate_def upper_bound_def)
  ultimately show ?thesis using S by auto
qed

lemma below_first_disjoint:
  assumes "Valid T" and "T \<noteq> []" and "\<forall>b \<in> set bef. imax b \<le> imin (hd T)"
  shows "set_points bef \<inter> set_points T = {}"
proof -
  have "\<forall>t \<in> set T. imin (hd T) \<le> imin t"
    using assms(1,2) by (cases T) (auto simp: Valid_Cons)
  with assms(3) show ?thesis by (fastforce simp: set_points_def points_def)
qed

lemma candidate_disjoint:
  assumes "Valid S" "Valid other" "S \<noteq> []" "other \<noteq> []"
  obtains bef where "S = bef @ FindIntersectionCandidate S (hd other)"
    "FindIntersectionCandidate S (hd other) \<noteq> []" "set_points bef \<inter> set_points other = {}"
  using FindIntersectionCandidate_split [OF assms(1), of "hd other"] below_first_disjoint [OF assms(2,4)] assms(3)
  by blast

lemma Interval_Difference_parts:
  assumes "Interval_Intersects i t"
  shows "snd (Interval_Difference i t) =
    (if imin i < imin t then QuicInterval (imin i) (imin t) else Interval_Default,
     if imax t < imax i then QuicInterval (imax t) (imax i) else Interval_Default)"
  using assms
  by (auto simp: Interval_Difference_def Let_def Interval_Intersects_def Interval_Empty_def)

section \<open>Difference\<close>

lemma insert_in_gap:
  assumes "Valid (bef @ i # aft)" and "imin i \<le> imin j" "imax j \<le> imax i" "imin j < imax j"
  shows "set_insert j (bef @ aft) = (bef @ j # aft, True) \<and> Valid (bef @ j # aft)"
proof
  have b: "\<forall>b \<in> set bef. imin b < imax b" "\<forall>b \<in> set bef. imax b < imin i" "\<forall>a \<in> set aft. imax i < imin a"
    using assms(1) Valid_nonempty [OF assms(1)] by (auto simp: Valid_append Valid_Cons)
  show "set_insert j (bef @ aft) = (bef @ j # aft, True)"
  proof (rule set_insert_split)
    show "\<forall>b \<in> set bef. IntervalLess b j" using b assms(2) by (force simp: IntervalLess_def)
    show "\<forall>a \<in> set aft. IntervalLess j a" using b assms(3,4) by (force simp: IntervalLess_def)
  qed
  show "Valid (bef @ j # aft)"
    using assms b by (force simp: Valid_append Valid_Cons)
qed

lemma Valid_distinct: "Valid S \<Longrightarrow> distinct S"
  by (intro IntervalLess_distinct Valid_sorted)

lemma Difference_step_eq:
  assumes "Valid (bef @ i # aft)" and "Interval_Intersects i t" and "imin t < imax t"
  defines "lo \<equiv> (if imin i < imin t then [QuicInterval (imin i) (imin t)] else [])"
    and "hi \<equiv> (if imax t < imax i then [QuicInterval (imax t) (imax i)] else [])"
  shows "Difference_step (bef @ i # aft) (i # aft) (t # ts) = (bef @ lo @ hi @ aft, hi @ aft)
    \<and> Valid (bef @ lo @ hi @ aft)"
proof -
  have V: "Valid (bef @ aft)" using assms(1) by (auto simp: Valid_append Valid_Cons)
  have erase: "set_erase i (bef @ i # aft) = bef @ aft"
    using Valid_distinct [OF assms(1)] by simp
  have i: "imin i < imax i" "imin i < imax t" "imin t < imax i"
    using assms(2) by (auto simp: Interval_Intersects_def Interval_Empty_def)
  have tail: "Valid (xs @ ys) \<Longrightarrow> ys \<noteq> [] \<Longrightarrow> iter_at (xs @ ys) (hd ys) = ys" for xs ys
    using iter_at_split [of xs "hd ys" "tl ys"] Valid_distinct [of "xs @ ys"] by simp
  have LO: "set_insert (QuicInterval (imin i) (imin t)) (bef @ aft) = (bef @ lo @ aft, True) \<and> Valid (bef @ lo @ aft)"
    if "imin i < imin t"
    using insert_in_gap [OF assms(1), of "QuicInterval (imin i) (imin t)"] that i by (simp add: lo_def)
  have lo: "Valid (bef @ lo @ aft)" using LO V by (cases "imin i < imin t") (auto simp: lo_def)
  have HI: "set_insert (QuicInterval (imax t) (imax i)) ((bef @ lo) @ aft) = ((bef @ lo) @ hi @ aft, True)
      \<and> Valid ((bef @ lo) @ hi @ aft)" if "imax t < imax i"
  proof -
    have "Valid ((bef @ lo) @ QuicInterval (imax t) (imax i) # aft)"
      using assms(1,3) i that by (force simp: lo_def Valid_append Valid_Cons)
    from insert_in_gap [OF this, of "QuicInterval (imax t) (imax i)"] that show ?thesis
      by (simp add: hi_def)
  qed
  have V': "Valid ((bef @ lo) @ hi @ aft)" using HI lo by (cases "imax t < imax i") (auto simp: hi_def)
  obtain b where D: "Interval_Difference i t =
    (b, if imin i < imin t then QuicInterval (imin i) (imin t) else Interval_Default,
     if imax t < imax i then QuicInterval (imax t) (imax i) else Interval_Default)"
    using Interval_Difference_parts [OF assms(2)] by (metis prod.collapse)
  have "Difference_step (bef @ i # aft) (i # aft) (t # ts) = ((bef @ lo) @ hi @ aft, hi @ aft)"
    using LO HI tail [OF V'] D erase
    by (cases "imin i < imin t"; cases "imax t < imax i"; cases "aft = []")
      (simp_all add: Difference_step_def Let_def Interval_Empty_def [of "QuicInterval _ _"] lo_def hi_def not_le)
  with V' show ?thesis by simp
qed

definition pair_measure :: "'a::linorder QuicIntervalSet \<Rightarrow> 'a QuicIntervalSet \<Rightarrow> nat" where
  "pair_measure mine theirs = 2 * (length mine + length theirs) +
     (if mine \<noteq> [] \<and> theirs \<noteq> [] \<and> Interval_Intersects (hd mine) (hd theirs) then 1 else 0)"

lemma pair_measure_step:
  assumes "m1 = [] \<and> t1 = [] \<longrightarrow> Interval_Intersects i t"
  shows "pair_measure ((if imax t < imax i then [QuicInterval (imax t) (imax i)] else []) @ aft) (t # ts)
    < pair_measure (m1 @ i # aft) (t1 @ t # ts)"
proof (cases "m1 = [] \<and> t1 = []")
  case True
  with assms show ?thesis
    by (auto simp: pair_measure_def Interval_Intersects_def)
next
  case False
  then have "length m1 + length t1 \<noteq> 0" by simp
  then show ?thesis
    by (auto simp: pair_measure_def Interval_Intersects_def)
qed

lemma Difference_step_points:
  assumes "Interval_Intersects i t" and "imin t < imax t"
  defines "lo \<equiv> (if imin i < imin t then [QuicInterval (imin i) (imin t)] else [])"
    and "hi \<equiv> (if imax t < imax i then [QuicInterval (imax t) (imax i)] else [])"
  shows "set_points lo \<union> set_points hi = points i - points t"
  using assms(1,2) by (auto simp: lo_def hi_def points_def Interval_Intersects_def)

lemma Difference_loop_correct:
  assumes "Valid (bef @ mine)" "Valid theirs" "theirs \<noteq> []" "set_points bef \<inter> set_points theirs = {}"
  shows "\<exists>S'. Difference_loop (bef @ mine) mine theirs = Some S' \<and> Valid S'
    \<and> set_points S' = set_points (bef @ mine) - set_points theirs"
  using assms
proof (induction "pair_measure mine theirs" arbitrary: bef mine theirs rule: less_induct)
  case less
  have "Valid mine" using less.prems(1) by (simp add: Valid_append)
  then obtain f mine' theirs' m1 t1 where
    search: "FindNextIntersectingPair (bef @ mine) mine theirs = Some (bef @ mine, f, mine', theirs')"
    and split: "mine = m1 @ mine'" "theirs = t1 @ theirs'"
    and disj: "set_points m1 \<inter> set_points theirs = {}" "set_points t1 \<inter> set_points mine' = {}"
    and fnd: "f \<longrightarrow> mine' \<noteq> [] \<and> theirs' \<noteq> [] \<and> Interval_Intersects (hd mine') (hd theirs')
               \<and> (m1 = [] \<and> t1 = [] \<longrightarrow> Interval_Intersects (hd mine) (hd theirs))"
    and nfnd: "\<not> f \<longrightarrow> set_points mine \<inter> set_points theirs = {}"
    unfolding FindNextIntersectingPair_def
    by (rule keep_holes.search_obtain [OF _ less.prems(2,3), where x = "bef @ mine"])
  note loop = Difference_loop.simps [of "bef @ mine" mine theirs]
  show ?case
  proof (cases f)
    case False
    with loop search have "Difference_loop (bef @ mine) mine theirs = Some (bef @ mine)" by simp
    with nfnd False less.prems show ?thesis by auto
  next
    case True
    with fnd obtain i aft t ts where heads: "mine' = i # aft" "theirs' = t # ts"
      and it: "Interval_Intersects i t" "m1 = [] \<and> t1 = [] \<longrightarrow> Interval_Intersects i t"
      by (cases mine'; cases theirs'; auto)
    have t: "imin t < imax t" "Valid (t # ts)" "\<forall>s \<in> set ts. imin t < imin s"
      using less.prems(2) split(2) heads by (auto simp: Valid_append Valid_Cons)
    define lo where "lo = (if imin i < imin t then [QuicInterval (imin i) (imin t)] else [])"
    define hi where "hi = (if imax t < imax i then [QuicInterval (imax t) (imax i)] else [])"
    have step: "Difference_step (bef @ mine) mine' theirs' = ((bef @ m1 @ lo) @ hi @ aft, hi @ aft)"
      and V: "Valid ((bef @ m1 @ lo) @ hi @ aft)"
      using Difference_step_eq [of "bef @ m1" i aft t ts] less.prems(1) split heads it(1) t(1)
      by (simp_all add: lo_def hi_def)
    have pts: "set_points lo \<union> set_points hi = points i - points t"
      using Difference_step_points [OF it(1) t(1)] by (simp add: lo_def hi_def)
    have "set_points lo \<inter> set_points theirs' = {}"
      using t(3) heads by (force simp: lo_def set_points_def points_def)
    then have disj': "set_points (bef @ m1 @ lo) \<inter> set_points (t # ts) = {}"
      using less.prems(4) disj split heads by auto
    have "pair_measure (hi @ aft) (t # ts) < pair_measure mine theirs"
      using pair_measure_step [OF it(2), of aft ts] split heads by (simp add: hi_def)
    from less.hyps [OF this V t(2) _ disj'] obtain S' where
      S': "Difference_loop ((bef @ m1 @ lo) @ hi @ aft) (hi @ aft) (t # ts) = Some S'" "Valid S'"
        "set_points S' = set_points ((bef @ m1 @ lo) @ hi @ aft) - set_points (t # ts)"
      by auto
    have "Difference_loop (bef @ mine) mine theirs = Some S'"
      using loop search True step S'(1) heads by simp
    moreover have "set_points S' = set_points (bef @ mine) - set_points theirs"
      using S'(3) pts less.prems(4) disj split heads by auto
    ultimately show ?thesis using S'(2) by blast
  qed
qed

theorem Set_Difference_set_correct:
  assumes "Valid S" "Valid other"
  shows "\<exists>S'. Set_Difference_set S other = Some S' \<and> Valid S' \<and> set_points S' = set_points S - set_points other"
proof (cases "Interval_Intersects (SpanningInterval S) (SpanningInterval other)")
  case False
  then have "set_points S \<inter> set_points other = {}"
    by (rule spans_disjoint_sets [OF assms])
  with False assms show ?thesis by (auto simp: Set_Difference_set_def)
next
  case True
  then have ne: "S \<noteq> []" "other \<noteq> []"
    by (auto simp: SpanningInterval_def Interval_Intersects_points)
  obtain bef where bef: "S = bef @ FindIntersectionCandidate S (hd other)"
    "FindIntersectionCandidate S (hd other) \<noteq> []" "set_points bef \<inter> set_points other = {}"
    by (rule candidate_disjoint [OF assms ne])
  obtain tbef where tbef: "other = tbef @ FindIntersectionCandidate other (hd S)"
    "FindIntersectionCandidate other (hd S) \<noteq> []" "set_points tbef \<inter> set_points S = {}"
    by (rule candidate_disjoint [OF assms(2,1) ne(2,1)])
  let ?mine = "FindIntersectionCandidate S (hd other)" and ?theirs = "FindIntersectionCandidate other (hd S)"
  have eqs: "set_points other = set_points tbef \<union> set_points ?theirs"
    using arg_cong [OF tbef(1), of set_points] by simp
  have "Valid (bef @ ?mine)" "Valid ?theirs"
    using assms bef(1) tbef(1) by (metis, metis Valid_append)
  moreover have "set_points bef \<inter> set_points ?theirs = {}"
    using bef(3) eqs by auto
  ultimately obtain S' where "Difference_loop (bef @ ?mine) ?mine ?theirs = Some S'" "Valid S'"
    "set_points S' = set_points (bef @ ?mine) - set_points ?theirs"
    using Difference_loop_correct [of bef ?mine ?theirs] tbef(2) by blast
  moreover from bef(1) have "bef @ ?mine = S" ..
  ultimately show ?thesis
    using True bef(2) tbef(3) eqs by (auto simp: Set_Difference_set_def Let_def)
qed

lemma Set_Difference_correct:
  assumes "Valid S"
  shows "\<exists>S'. Set_Difference S i = Some S' \<and> Valid S' \<and> set_points S' = set_points S - points i"
proof (cases "Interval_Intersects (SpanningInterval S) i")
  case False
  with spans_disjoint [OF assms False] assms show ?thesis by (auto simp: Set_Difference_def)
next
  case True
  with Set_Difference_set_correct [OF assms, of "Set_Add [] i"] Set_Add_correct [of "[]" i] show ?thesis
    by (simp add: Set_Difference_def)
qed

lemma Set_Complement_correct:
  assumes "Valid S"
  shows "\<exists>S'. Set_Complement S a b = Some S' \<and> Valid S' \<and> set_points S' = {a ..< b} - set_points S"
  using Set_Difference_set_correct [OF _ assms, of "Set_Add [] (QuicInterval a b)"]
    Set_Add_correct [of "[]" "QuicInterval a b"]
  by (simp add: Set_Complement_def points_QuicInterval)

lemma Set_Intersects_correct:
  assumes "Valid S" "Valid other"
  shows "Set_Intersects S other = Some (set_points S \<inter> set_points other \<noteq> {})"
proof (cases "Interval_Intersects (SpanningInterval S) (SpanningInterval other)")
  case False
  then have "set_points S \<inter> set_points other = {}"
    by (rule spans_disjoint_sets [OF assms])
  with False show ?thesis by (simp add: Set_Intersects_def)
next
  case True
  then have ne: "S \<noteq> []" "other \<noteq> []"
    by (auto simp: SpanningInterval_def Interval_Intersects_points)
  let ?mine = "FindIntersectionCandidate S (hd other)"
  obtain bef where bef: "S = bef @ ?mine" "?mine \<noteq> []" "set_points bef \<inter> set_points other = {}"
    by (rule candidate_disjoint [OF assms ne])
  have Vm: "Valid ?mine" using assms(1) bef(1) by (metis Valid_append)
  let ?theirs = "FindIntersectionCandidate other (hd ?mine)"
  obtain tbef where tbef: "other = tbef @ ?theirs" "?theirs \<noteq> []" "set_points tbef \<inter> set_points ?mine = {}"
    by (rule candidate_disjoint [OF assms(2) Vm ne(2) bef(2)])
  have Vt: "Valid ?theirs" using assms(2) tbef(1) by (metis Valid_append)
  have pts: "set_points S \<inter> set_points other = set_points ?mine \<inter> set_points ?theirs"
    using arg_cong [OF bef(1), of set_points] arg_cong [OF tbef(1), of set_points] bef(3) tbef(3) by auto
  obtain f mine' theirs' m1 t1 where
    "FindNextIntersectingPair S ?mine ?theirs = Some (S, f, mine', theirs')"
    "?mine = m1 @ mine'" "?theirs = t1 @ theirs'"
    and r: "f \<longrightarrow> mine' \<noteq> [] \<and> theirs' \<noteq> [] \<and> Interval_Intersects (hd mine') (hd theirs')"
      "\<not> f \<longrightarrow> set_points ?mine \<inter> set_points ?theirs = {}"
    unfolding FindNextIntersectingPair_def
    by (rule keep_holes.search_obtain [OF Vm Vt tbef(2), where x = S]) blast
  moreover have "f \<Longrightarrow> set_points mine' \<inter> set_points theirs' \<noteq> {}"
    using r(1) by (cases mine'; cases theirs') (auto simp: Interval_Intersects_points)
  ultimately have "f \<longleftrightarrow> set_points ?mine \<inter> set_points ?theirs \<noteq> {}"
    using r(2) by (metis Int_Un_distrib Int_Un_distrib2 Un_empty set_points_simps(3))
  with True bef(2) pts \<open>FindNextIntersectingPair S ?mine ?theirs = Some (S, f, mine', theirs')\<close>
  show ?thesis by (simp add: Set_Intersects_def Let_def)
qed

section \<open>Intersection\<close>

definition common :: "'a::linorder QuicInterval \<Rightarrow> 'a QuicInterval \<Rightarrow> 'a QuicInterval" where
  "common i t = QuicInterval (max (imin i) (imin t)) (min (imax i) (imax t))"

lemma common_bounds:
  "imin i \<le> imin (common i t)" "imax (common i t) \<le> imax i"
  "imin t \<le> imin (common i t)" "imax (common i t) \<le> imax t"
  by (simp_all add: common_def)

lemma points_common: "points (common i t) = points i \<inter> points t"
  by (auto simp: common_def points_def)

lemma Intersects_out_common:
  "Interval_Intersects_out i t = (if Interval_Intersects i t then Some (common i t) else None)"
  by (simp add: Interval_Intersects_out_def common_def)

lemma common_nonempty: "Interval_Intersects i t \<Longrightarrow> imin (common i t) < imax (common i t)"
  by (auto simp: Interval_Intersects_def Interval_Empty_def common_def)

lemma Intersection_inner_eq:
  assumes "Valid (done @ ins @ aft)" "Valid theirs" "imin i < imax i"
    and "\<forall>d \<in> set done. imax d < imin i" "\<forall>a \<in> set aft. imax i < imin a"
    and "\<forall>x \<in> set ins. \<forall>t \<in> set theirs. imax x < imin t"
  defines "k \<equiv> takeWhile (Interval_Intersects i) theirs"
    and "d \<equiv> dropWhile (Interval_Intersects i) theirs"
  shows "Valid (done @ ins @ map (common i) k @ aft) \<and>
    Intersection_inner (done @ ins @ aft) i mine back theirs =
      (done @ ins @ map (common i) k @ aft, if k = [] then mine else Some (common i (last k)),
       if k = [] then back @ theirs else last k # d)"
  using assms(1,2,6) unfolding k_def d_def
proof (induction theirs arbitrary: ins mine "back")
  case Nil
  then show ?case by simp
next
  case (Cons t theirs)
  show ?case
  proof (cases "Interval_Intersects i t")
    case False
    with Cons.prems show ?thesis by (simp add: Intersects_out_common)
  next
    case True
    let ?c = "common i t"
    note b = common_bounds [where i = i and t = t] common_nonempty [OF True]
    have lo: "imax x < imin ?c" if "x \<in> set (done @ ins)" for x
      using that assms(4) Cons.prems(3) b by fastforce
    have hi: "imax ?c < imin x" if "x \<in> set aft" for x
      using that assms(5) b by fastforce
    have "Valid ((done @ ins) @ ?c # aft)"
      using Cons.prems(1) lo hi b(5) by (auto simp: Valid_append Valid_Cons)
    then have ins: "set_insert ?c ((done @ ins) @ aft) = ((done @ ins) @ ?c # aft, True)"
      and V: "Valid (done @ (ins @ [?c]) @ aft)"
      using insert_in_gap [of "done @ ins" ?c aft ?c] b(5) by simp_all
    have "\<forall>x \<in> set (ins @ [?c]). \<forall>t \<in> set theirs. imax x < imin t"
      using Cons.prems(2,3) b(4) by (fastforce simp: Valid_Cons)
    moreover have "takeWhile (Interval_Intersects i) theirs = [] \<Longrightarrow> dropWhile (Interval_Intersects i) theirs = theirs"
      by (metis append_Nil takeWhile_dropWhile_id)
    ultimately show ?thesis
      using Cons.IH [OF V, of "Some ?c" "[t]"] Cons.prems(2) True ins
      by (auto simp: Intersects_out_common Valid_Cons)
  qed
qed

lemma leading_intersections:
  assumes "Valid theirs" "theirs \<noteq> []" "Interval_Intersects i (hd theirs)"
    and "\<forall>a \<in> set aft. imax i < imin a"
  defines "k \<equiv> takeWhile (Interval_Intersects i) theirs"
    and "d \<equiv> dropWhile (Interval_Intersects i) theirs"
  shows "k \<noteq> [] \<and> Valid (last k # d) \<and> length (last k # d) \<le> length theirs
    \<and> points i \<inter> set_points theirs = points i \<inter> set_points k
    \<and> set_points aft \<inter> set_points theirs = set_points aft \<inter> set_points (last k # d)"
proof -
  have kd: "theirs = k @ d" by (simp add: k_def d_def)
  have k: "k \<noteq> []" using assms(2,3) by (cases theirs) (auto simp: k_def)
  then obtain k0 l where kl: "k = k0 @ [l]" by (cases k rule: rev_cases) auto
  have V: "Valid (k0 @ l # d)" using assms(1) kd kl by simp
  have il: "Interval_Intersects i l"
    using kl by (metis k_def in_set_conv_decomp set_takeWhileD)
  have "points i \<inter> set_points d = {}"
  proof (cases d)
    case (Cons e rest)
    have "\<not> Interval_Intersects i e"
      using hd_dropWhile [of "Interval_Intersects i" theirs] Cons by (metis d_def list.sel(1) list.distinct(1))
    moreover have "imax l < imin e" "imin e < imax e" "\<forall>r \<in> set rest. imax e < imin r"
      using V Cons by (auto simp: Valid_append Valid_Cons)
    ultimately have "imax i \<le> imin e"
      using il by (auto simp: Interval_Intersects_def Interval_Empty_def)
    with \<open>\<forall>r \<in> set rest. imax e < imin r\<close> \<open>imin e < imax e\<close>
    show ?thesis using Cons by (force simp: set_points_def points_def)
  qed simp
  moreover have "set_points aft \<inter> set_points k0 = {}"
  proof -
    have "\<forall>x \<in> set k0. imax x < imax i"
      using V il by (fastforce simp: Valid_append Interval_Intersects_def)
    then show ?thesis using assms(4) by (force simp: set_points_def points_def)
  qed
  moreover have "Valid (l # d)" using V by (simp add: Valid_append)
  ultimately show ?thesis using kd kl by auto
qed

lemma filter_erase_range:
  assumes "distinct (xs @ ys @ zs)"
  shows "filter (\<lambda>e. e \<notin> set ys) (xs @ ys @ zs) = xs @ zs"
proof -
  have "filter (\<lambda>e. e \<notin> set ys) xs = xs" "filter (\<lambda>e. e \<notin> set ys) zs = zs" "filter (\<lambda>e. e \<notin> set ys) ys = []"
    using assms by (auto intro!: filter_True filter_False)
  then show ?thesis by simp
qed

lemma Intersection_loop_correct:
  assumes "Valid (done @ mine)" "Valid theirs" "theirs \<noteq> []"
  shows "\<exists>S'. Intersection_loop (done @ mine) mine theirs = Some S' \<and> Valid S'
    \<and> set_points S' = set_points done \<union> (set_points mine \<inter> set_points theirs)"
  using assms
proof (induction "length mine" arbitrary: "done" mine theirs rule: less_induct)
  case less
  have "Valid mine" using less.prems(1) by (simp add: Valid_append)
  then obtain f mine' theirs' m1 t1 where
    search: "FindNextIntersectingPairAndEraseHoles (done @ mine) mine theirs =
      Some (filter (\<lambda>e. e \<notin> set (if f then m1 else mine)) (done @ mine), f, mine', theirs')"
    and split: "mine = m1 @ mine'" "theirs = t1 @ theirs'"
    and disj: "set_points m1 \<inter> set_points theirs = {}" "set_points t1 \<inter> set_points mine' = {}"
    and fnd: "f \<longrightarrow> mine' \<noteq> [] \<and> theirs' \<noteq> [] \<and> Interval_Intersects (hd mine') (hd theirs')
               \<and> (m1 = [] \<and> t1 = [] \<longrightarrow> Interval_Intersects (hd mine) (hd theirs))"
    and nfnd: "\<not> f \<longrightarrow> set_points mine \<inter> set_points theirs = {}"
    unfolding FindNextIntersectingPairAndEraseHoles_def
    by (rule erase_holes.search_obtain [OF _ less.prems(2,3), where x = "done @ mine"])
  note loop = Intersection_loop.simps [of "done @ mine" mine theirs]
  have dist: "distinct (done @ m1 @ mine')" "distinct (done @ mine @ [])"
    using Valid_distinct [OF less.prems(1)] split by auto
  show ?case
  proof (cases f)
    case False
    with loop search filter_erase_range [OF dist(2)]
    have "Intersection_loop (done @ mine) mine theirs = Some done" by simp
    with nfnd False less.prems show ?thesis by (auto simp: Valid_append)
  next
    case True
    with fnd obtain i aft where heads: "mine' = i # aft" and t: "theirs' \<noteq> []" "Interval_Intersects i (hd theirs')"
      by (cases mine'; auto)
    have V: "Valid (done @ m1 @ i # aft)" "Valid theirs'"
      using less.prems split heads by (auto simp: Valid_append)
    then have gaps: "\<forall>d \<in> set done. imax d < imin i" "\<forall>a \<in> set aft. imax i < imin a"
      "imin i < imax i" "Valid (done @ [] @ aft)"
      by (auto simp: Valid_append Valid_Cons)
    define k where "k = takeWhile (Interval_Intersects i) theirs'"
    define d where "d = dropWhile (Interval_Intersects i) theirs'"
    have lead: "k \<noteq> []" "Valid (last k # d)" "points i \<inter> set_points theirs' = points i \<inter> set_points k"
      "set_points aft \<inter> set_points theirs' = set_points aft \<inter> set_points (last k # d)"
      using leading_intersections [OF V(2) t gaps(2)] by (simp_all add: k_def d_def)
    let ?S2 = "done @ map (common i) k @ aft"
    have inner: "Valid ?S2"
      "Intersection_inner (done @ aft) i None [] theirs' = (?S2, Some (common i (last k)), last k # d)"
      using Intersection_inner_eq [OF gaps(4) V(2) gaps(3,1,2), of None "[]"] lead(1)
      by (simp_all add: k_def d_def)
    have "set_erase i (done @ i # aft) = done @ aft"
      using dist(1) heads by (intro set_erase_split) auto
    moreover have "filter (\<lambda>e. e \<notin> set m1) (done @ mine) = done @ i # aft"
      using filter_erase_range [OF dist(1)] split heads by simp
    moreover have "tl (iter_at ?S2 (common i (last k))) = aft"
    proof -
      obtain k0 l where kl: "k = k0 @ [l]" using lead(1) by (cases k rule: rev_cases) auto
      then show ?thesis
        using iter_at_split [of "done @ map (common i) k0" "common i l" aft] Valid_distinct [OF inner(1)]
        by simp
    qed
    ultimately have unf: "Intersection_loop (done @ mine) mine theirs =
        Intersection_loop ((done @ map (common i) k) @ aft) aft (last k # d)"
      using True loop search heads inner(2) by simp
    have "length aft < length mine" using split heads by simp
    from less.hyps [OF this, of "done @ map (common i) k" "last k # d"] inner(1) lead(2) obtain S' where
      "Intersection_loop ((done @ map (common i) k) @ aft) aft (last k # d) = Some S'" "Valid S'"
      and pts: "set_points S' = set_points (done @ map (common i) k) \<union> (set_points aft \<inter> set_points (last k # d))"
      by auto
    moreover have "set_points (map (common i) k) = points i \<inter> set_points theirs'"
      unfolding lead(3) by (auto simp: set_points_def points_common)
    then have "set_points S' = set_points done \<union> (points i \<union> set_points aft) \<inter> set_points theirs'"
      unfolding pts set_points_simps(3) lead(4) [symmetric] by blast
    moreover have "set_points mine \<inter> set_points theirs = (points i \<union> set_points aft) \<inter> set_points theirs'"
      using disj unfolding split heads set_points_simps by blast
    ultimately show ?thesis using unf by simp
  qed
qed

lemma Set_Intersection_correct:
  assumes "Valid S" "Valid other"
  shows "\<exists>S'. Set_Intersection S other = Some S' \<and> Valid S' \<and> set_points S' = set_points S \<inter> set_points other"
proof (cases "Interval_Intersects (SpanningInterval S) (SpanningInterval other)")
  case False
  then have "set_points S \<inter> set_points other = {}"
    by (rule spans_disjoint_sets [OF assms])
  with False show ?thesis by (auto simp: Set_Intersection_def Set_Clear_def)
next
  case True
  then have ne: "S \<noteq> []" "other \<noteq> []"
    by (auto simp: SpanningInterval_def Interval_Intersects_points)
  let ?mine = "FindIntersectionCandidate S (hd other)"
  obtain bef where bef: "S = bef @ ?mine" "?mine \<noteq> []" "set_points bef \<inter> set_points other = {}"
    by (rule candidate_disjoint [OF assms ne])
  have Vm: "Valid ?mine" using assms(1) bef(1) by (metis Valid_append)
  let ?theirs = "FindIntersectionCandidate other (hd ?mine)"
  obtain tbef where tbef: "other = tbef @ ?theirs" "?theirs \<noteq> []" "set_points tbef \<inter> set_points ?mine = {}"
    by (rule candidate_disjoint [OF assms(2) Vm ne(2) bef(2)])
  have Vt: "Valid ?theirs" using assms(2) tbef(1) by (metis Valid_append)
  have pts: "set_points S \<inter> set_points other = set_points ?mine \<inter> set_points ?theirs"
    using arg_cong [OF bef(1), of set_points] arg_cong [OF tbef(1), of set_points] bef(3) tbef(3) by auto
  from Intersection_loop_correct [of "[]" ?mine ?theirs] Vm Vt tbef(2) True pts show ?thesis
    by (auto simp: Set_Intersection_def Let_def)
qed

section \<open>The interval set implements a set of points\<close>

lemma LowerBound_first_above:
  assumes "Valid S"
  shows "LowerBound S v = dropWhile (\<lambda>e. imax e \<le> v) S"
proof -
  have lb: "lower_bound S (QuicInterval v v) = upper_bound S (QuicInterval v v)"
    using Valid_nonempty [OF assms] unfolding lower_bound_def upper_bound_def
    by (force simp: IntervalLess_def intro!: takeWhile_cong dropWhile_cong)
  show ?thesis
  proof (rule upper_bound_cases [OF assms, of v])
    fix aft
    assume u: "upper_bound S (QuicInterval v v) = ([], aft)" "S = aft" "\<forall>a \<in> set aft. v < imin a"
    then have "v < imax (hd S)" if "S \<noteq> []"
      using that Valid_nonempty [OF assms, of "hd S"] by (meson hd_in_set less_trans)
    with u lb show ?thesis by (cases S) (auto simp: LowerBound_def not_le)
  next
    fix bef l aft
    assume u: "upper_bound S (QuicInterval v v) = (bef @ [l], aft)" and S: "S = bef @ [l] @ aft"
      and l: "imin l \<le> v" and gt: "\<forall>a \<in> set aft. v < imin a"
    have "\<forall>b \<in> set bef. imax b \<le> v"
      using assms S l by (force simp: Valid_append)
    moreover have "dropWhile (\<lambda>e. imax e \<le> v) aft = aft"
      using gt assms S by (cases aft) (auto simp: Valid_append Valid_Cons)
    ultimately show ?thesis
      using u S l lb by (auto simp: LowerBound_def Interval_Contains_value_def dropWhile_append)
  qed
qed

text \<open>
  C23: The mutators that add points. On a valid set, \<open>Add\<close>, \<open>AddOptimizedForAppend\<close> and \<open>Union\<close> keep
  the set valid (intervals non-empty, sorted, disjoint, not adjacent) and the points of the result
  are exactly the old points and the new ones; the optimised append gives the same points as \<open>Add\<close>.
\<close>

theorem interval_set_insertions:
  assumes "Valid S" and "Valid other"
  shows "Valid (Set_Add S i) \<and> set_points (Set_Add S i) = set_points S \<union> points i
    \<and> Valid (AddOptimizedForAppend S i)
    \<and> set_points (AddOptimizedForAppend S i) = set_points (Set_Add S i)
    \<and> Valid (Set_Union S other) \<and> set_points (Set_Union S other) = set_points S \<union> set_points other"
  using Set_Add_correct [OF assms(1)] AddOptimizedForAppend_correct [OF assms(1)]
    Set_Union_correct [OF assms] by simp

theorem interval_set_insertions_witness:
  shows "Set_Add [QuicInterval (1::nat) 3, QuicInterval 5 9] (QuicInterval 2 5) = [QuicInterval 1 9]
    \<and> AddOptimizedForAppend [QuicInterval (1::nat) 3, QuicInterval 5 9] (QuicInterval 9 12) = [QuicInterval (1::nat) 3, QuicInterval 5 12]
    \<and> Valid (Set_Add [QuicInterval (1::nat) 3, QuicInterval 5 9] (QuicInterval 2 5)) \<and> set_points (Set_Add [QuicInterval (1::nat) 3, QuicInterval 5 9] (QuicInterval 2 5)) = {1 ..< 9}
    \<and> Valid (Set_Union [QuicInterval (1::nat) 3, QuicInterval 5 9] [QuicInterval 3 4, QuicInterval 20 30])"
proof -
  let ?S = "[QuicInterval 1 3, QuicInterval 5 9] :: nat QuicIntervalSet"
  have V: "Valid ?S" "Valid [QuicInterval 3 4, QuicInterval 20 (30::nat)]"
    by (simp_all add: Valid_def)
  have add: "Set_Add ?S (QuicInterval 2 5) = [QuicInterval 1 9]"
    and opt: "AddOptimizedForAppend ?S (QuicInterval 9 12) = [QuicInterval 1 3, QuicInterval 5 12]"
    by code_simp+
  show ?thesis
    using interval_set_insertions [OF V, of "QuicInterval 2 5"] add opt
    by (simp add: points_QuicInterval)
qed

text \<open>
  C18: The mutators that remove points. On valid sets the loops of \<open>Difference\<close>, \<open>Intersection\<close> and
  \<open>Complement\<close> end, the result is valid, and its points are the difference, the intersection and the
  complement within [a, b).
\<close>

theorem interval_set_removals:
  assumes "Valid S" and "Valid other"
  shows "(\<exists>D. Set_Difference_set S other = Some D \<and> Valid D
      \<and> set_points D = set_points S - set_points other)
    \<and> (\<exists>D. Set_Difference S i = Some D \<and> Valid D \<and> set_points D = set_points S - points i)
    \<and> (\<exists>I. Set_Intersection S other = Some I \<and> Valid I
      \<and> set_points I = set_points S \<inter> set_points other)
    \<and> (\<exists>C. Set_Complement S a b = Some C \<and> Valid C \<and> set_points C = {a ..< b} - set_points S)"
  using Set_Difference_set_correct [OF assms] Set_Difference_correct [OF assms(1)]
    Set_Intersection_correct [OF assms] Set_Complement_correct [OF assms(1)] by simp

theorem interval_set_removals_witness:
  shows "Valid [QuicInterval (1::nat) 4, QuicInterval 6 9] \<and>
    (\<exists>D. Set_Difference_set [QuicInterval (1::nat) 4, QuicInterval 6 9] [QuicInterval 2 7] = Some D \<and> set_points D = {1 ..< 2} \<union> {7 ..< 9})"
proof -
  let ?S = "[QuicInterval 1 4, QuicInterval 6 9] :: nat QuicIntervalSet"
  have V: "Valid ?S" "Valid [QuicInterval 2 (7::nat)]"
    by (simp_all add: Valid_def)
  have "set_points ?S - set_points [QuicInterval 2 7] = {1 ..< 2} \<union> {7 ..< 9}"
    by (auto simp: points_QuicInterval)
  with V interval_set_removals [OF V, of "QuicInterval 0 0" 0 0] show ?thesis
    by metis
qed

text \<open>
  C31: The queries. On valid sets, \<open>Contains\<close> (a value, an interval, a set), \<open>IsDisjoint\<close>,
  \<open>Intersects\<close>, \<open>Find\<close>, \<open>LowerBound\<close> and \<open>UpperBound\<close> answer for the set of points; the binary
  search looks at one interval only and misses nothing.
\<close>

theorem interval_set_queries:
  assumes "Valid S" and "Valid other"
  shows "(Set_Contains_value S v \<longleftrightarrow> v \<in> set_points S)
    \<and> (Set_Contains S i \<longleftrightarrow> points i \<noteq> {} \<and> points i \<subseteq> set_points S)
    \<and> (Set_Contains_set S other \<longleftrightarrow> other \<noteq> [] \<and> set_points other \<subseteq> set_points S)
    \<and> (IsDisjoint S i \<longleftrightarrow> points i \<inter> set_points S = {})
    \<and> Set_Intersects S other = Some (set_points S \<inter> set_points other \<noteq> {})
    \<and> (Find_value S v = Some j \<longleftrightarrow> j \<in> set S \<and> v \<in> points j)
    \<and> (Find S i = Some j \<longleftrightarrow> j \<in> set S \<and> Interval_Contains j i)
    \<and> LowerBound S v = dropWhile (\<lambda>e. imax e \<le> v) S
    \<and> UpperBound S v = dropWhile (\<lambda>e. imin e \<le> v) S"
  using Set_Contains_value_iff [OF assms(1)] Set_Contains_iff [OF assms(1)]
    Set_Contains_set_iff [OF assms] IsDisjoint_iff [OF assms(1)] Set_Intersects_correct [OF assms]
    Find_value_iff [OF assms(1)] Find_iff [OF assms(1)] LowerBound_first_above [OF assms(1)]
    upper_bound_point [OF assms(1)]
  by (simp add: UpperBound_def)

theorem interval_set_queries_witness:
  shows "Valid [QuicInterval (10::nat) 20, QuicInterval 30 40] \<and> Set_Contains_value [QuicInterval (10::nat) 20, QuicInterval 30 40] 15 \<and> \<not> Set_Contains_value [QuicInterval (10::nat) 20, QuicInterval 30 40] 20
    \<and> LowerBound [QuicInterval (10::nat) 20, QuicInterval 30 40] 20 = [QuicInterval 30 40]"
proof -
  let ?S = "[QuicInterval 10 20, QuicInterval 30 40] :: nat QuicIntervalSet"
  have V: "Valid ?S" by (simp add: Valid_def)
  then show ?thesis
    using interval_set_queries [OF V V, of 15 "QuicInterval 0 0" "QuicInterval 0 0"]
      interval_set_queries [OF V V, of 20 "QuicInterval 0 0" "QuicInterval 0 0"]
    by (simp add: points_QuicInterval)
qed

text \<open>The test that both buffers make before they take the fast path.\<close>

lemma disjoint_or_above:
  fixes S :: "nat QuicIntervalSet"
  assumes V: "Valid S" and fresh: "S = [] \<or> off \<ge> imax (last S) \<or> IsDisjoint S (QuicInterval off m)"
  shows "{off ..< m} \<inter> set_points S = {}"
proof (cases "S = [] \<or> IsDisjoint S (QuicInterval off m)")
  case True
  then show ?thesis using IsDisjoint_iff [OF V, of "QuicInterval off m"] by (auto simp: points_QuicInterval)
next
  case False
  then have ne: "S \<noteq> []" "imax (last S) \<le> off" using fresh by auto
  from SpanningInterval_points [OF V ne(1)] ne(2) show ?thesis by (auto simp: points_def subset_iff)
qed

section \<open>Counting\<close>

lemma card_set_points_Cons:
  fixes i :: "nat QuicInterval"
  assumes "Valid (i # S)"
  shows "card (set_points (i # S)) = (imax i - imin i) + card (set_points S)"
proof -
  have "points i \<inter> set_points S = {}"
    using assms by (fastforce simp: Valid_Cons set_points_def points_def)
  moreover have "finite (set_points S)" by (simp add: set_points_def points_def)
  ultimately show ?thesis by (simp add: card_Un_disjoint points_def)
qed

lemma Valid_bounded:
  assumes "Valid S" "set_points S \<subseteq> {0 ..< m}" "i \<in> set S"
  shows "imax i \<le> (m::nat)"
proof -
  have "imin i < imax i" using Valid_nonempty [OF assms(1,3)] .
  then have "imax i - 1 \<in> points i" by (auto simp: points_def)
  then have "imax i - 1 < m" using assms(2,3) by (auto simp: set_points_def)
  then show ?thesis by simp
qed

section \<open>The interface that the buffers use\<close>

text \<open>
  What the send buffer and the sequencer buffer rely on: a set of points that grows by intervals, can
  be cut by an interval in a call that returns, and answers whether an interval is wholly inside or
  wholly outside.
\<close>

locale point_set =
  fixes inv :: "'s \<Rightarrow> bool"
    and pts :: "'s \<Rightarrow> 'a::linorder set"
    and add :: "'s \<Rightarrow> 'a QuicInterval \<Rightarrow> 's"
    and diff :: "'s \<Rightarrow> 'a QuicInterval \<Rightarrow> 's option"
    and contains :: "'s \<Rightarrow> 'a QuicInterval \<Rightarrow> bool"
    and disjoint :: "'s \<Rightarrow> 'a QuicInterval \<Rightarrow> bool"
  assumes inv_add: "inv S \<Longrightarrow> inv (add S i)"
    and pts_add: "inv S \<Longrightarrow> pts (add S i) = pts S \<union> points i"
    and diff_returns: "inv S \<Longrightarrow> \<exists>D. diff S i = Some D \<and> inv D \<and> pts D = pts S - points i"
    and contains_iff: "inv S \<Longrightarrow> contains S i \<longleftrightarrow> points i \<noteq> {} \<and> points i \<subseteq> pts S"
    and disjoint_iff: "inv S \<Longrightarrow> disjoint S i \<longleftrightarrow> points i \<inter> pts S = {}"
begin

lemma diff_obtain:
  assumes "inv S"
  obtains D where "diff S i = Some D" "inv D" "pts D = pts S - points i"
  using diff_returns [OF assms] by blast

lemma add_all:
  assumes "inv S"
  shows "inv (fold (\<lambda>i T. add T i) is S) \<and>
    pts (fold (\<lambda>i T. add T i) is S) = pts S \<union> (\<Union>i \<in> set is. points i)"
  using assms by (induction "is" arbitrary: S) (auto simp: inv_add pts_add)

lemma contains_add: "inv S \<Longrightarrow> points i \<noteq> {} \<Longrightarrow> contains (add S i) i"
  by (simp add: contains_iff inv_add pts_add)

lemma disjoint_not_contains: "inv S \<Longrightarrow> disjoint S i \<Longrightarrow> \<not> contains S i"
  by (auto simp: contains_iff disjoint_iff)

lemma disjoint_diff:
  assumes "inv S" "diff S i = Some D"
  shows "disjoint D i"
proof -
  obtain D' where "diff S i = Some D'" "inv D'" "pts D' = pts S - points i"
    by (rule diff_obtain [OF assms(1)])
  with assms(2) show ?thesis by (auto simp: disjoint_iff)
qed

end

interpretation iset: point_set "Valid :: 'a::{linorder, zero} QuicIntervalSet \<Rightarrow> bool"
  set_points Set_Add Set_Difference Set_Contains IsDisjoint
  by unfold_locales
    (simp_all add: Set_Add_correct Set_Difference_correct Set_Contains_iff IsDisjoint_iff)

end
