(* ===== verification/Quic_Packet_Number.thy ===== *)
theory Quic_Packet_Number
  imports Quic_Interval_Set
begin

text \<open>
  The models of \<open>QuicPacketNumber\<close> (src/quic/core/quic_packet_number.cc and .h), a 64-bit number with
  the largest value as the mark of an uninitialized one, and of \<open>PacketNumberQueue\<close> and
  \<open>QuicAckFrame\<close> (src/quic/core/frames/quic_ack_frame.cc). The queue is a deque of intervals that
  must stay sorted, disjoint and not adjacent; its operations are shown against the set of packet
  numbers it stands for.
\<close>

section \<open>Packet numbers\<close>

type_synonym QuicPacketNumber = nat

definition UninitializedPacketNumber :: QuicPacketNumber where
  "UninitializedPacketNumber = U64_MAX"

definition IsInitialized :: "QuicPacketNumber \<Rightarrow> bool" where
  "IsInitialized p \<longleftrightarrow> p \<noteq> UninitializedPacketNumber"

definition pn_Clear :: "QuicPacketNumber \<Rightarrow> QuicPacketNumber" where
  "pn_Clear p = UninitializedPacketNumber"

definition UpdateMax :: "QuicPacketNumber \<Rightarrow> QuicPacketNumber \<Rightarrow> QuicPacketNumber" where
  "UpdateMax p new_value =
     (if \<not> IsInitialized new_value then p
      else if \<not> IsInitialized p then new_value
      else max p new_value)"

text \<open>\<open>operator+\<close> and \<open>operator-\<close> wrap around, as the unsigned arithmetic below them does.\<close>

definition pn_plus :: "QuicPacketNumber \<Rightarrow> nat \<Rightarrow> QuicPacketNumber" where
  "pn_plus p delta = u64_add p delta"

definition pn_minus :: "QuicPacketNumber \<Rightarrow> nat \<Rightarrow> QuicPacketNumber" where
  "pn_minus p delta = u64_sub p delta"

definition pn_inc :: "QuicPacketNumber \<Rightarrow> QuicPacketNumber" where
  "pn_inc p = u64_add p 1"

definition pn_dec :: "QuicPacketNumber \<Rightarrow> QuicPacketNumber" where
  "pn_dec p = u64_sub p 1"

definition pn_ok :: "QuicPacketNumber \<Rightarrow> bool" where
  "pn_ok p \<longleftrightarrow> p < U64_MAX"

lemma pn_ok_plus_one [simp]: "pn_ok p \<Longrightarrow> pn_plus p 1 = p + 1"
  by (simp add: pn_ok_def pn_plus_def u64_add_def U64_MAX_def)

lemma pn_ok_plus_Suc [simp]: "pn_ok p \<Longrightarrow> pn_plus p (Suc 0) = Suc p"
  using pn_ok_plus_one [of p] by simp

lemma pn_ok_initialized [simp]: "pn_ok p \<Longrightarrow> IsInitialized p"
  by (simp add: pn_ok_def IsInitialized_def UninitializedPacketNumber_def)

section \<open>The queue of received packet numbers\<close>

type_synonym PacketNumberQueue = "QuicPacketNumber QuicInterval list"

definition PacketNumberIntervalLength :: "QuicPacketNumber QuicInterval \<Rightarrow> nat" where
  "PacketNumberIntervalLength interval =
     (if Interval_Empty interval then 0 else u64_sub (imax interval) (imin interval))"

text \<open>The backward scan of \<open>Add\<close>; the index of the source is the third argument less one.\<close>

fun Queue_Add_loop :: "PacketNumberQueue \<Rightarrow> QuicPacketNumber \<Rightarrow> nat \<Rightarrow> PacketNumberQueue" where
  "Queue_Add_loop q packet_number 0 = q"
| "Queue_Add_loop q packet_number (Suc i) =
     (let packet_interval = q ! i
      in if Interval_Contains_value packet_interval packet_number then q
         else if imax packet_interval = packet_number
         then q[i := QuicInterval (imin packet_interval) (pn_plus packet_number 1)]
         else if imin packet_interval = pn_plus packet_number 1
         then let q1 = q[i := QuicInterval packet_number (imax packet_interval)]
              in if i > 0 \<and> packet_number = imax (q1 ! (i - 1))
                 then let q2 = q1[i - 1 := QuicInterval (imin (q1 ! (i - 1))) (imax packet_interval)]
                      in take i q2 @ drop (i + 1) q2
                 else q1
         else if imax packet_interval < pn_plus packet_number 1
         then take (i + 1) q @ QuicInterval packet_number (pn_plus packet_number 1) # drop (i + 1) q
         else Queue_Add_loop q packet_number i)"

definition Queue_Add :: "PacketNumberQueue \<Rightarrow> QuicPacketNumber \<Rightarrow> PacketNumberQueue" where
  "Queue_Add q packet_number =
     (if \<not> IsInitialized packet_number then q
      else if q = [] then [QuicInterval packet_number (pn_plus packet_number 1)]
      else let bk = last q; front = hd q
           in if imax bk = packet_number
              then butlast q @ [QuicInterval (imin bk) (pn_plus packet_number 1)]
              else if imax bk < packet_number
              then q @ [QuicInterval packet_number (pn_plus packet_number 1)]
              else if imin front > pn_plus packet_number 1
              then QuicInterval packet_number (pn_plus packet_number 1) # q
              else if imin front = pn_plus packet_number 1
              then QuicInterval packet_number (imax front) # tl q
              else Queue_Add_loop q packet_number (length q))"

text \<open>\<open>AddRange\<close>; the flag tells that the call ran into the \<open>QUIC_BUG\<close> branch.\<close>

definition Queue_AddRange ::
    "PacketNumberQueue \<Rightarrow> QuicPacketNumber \<Rightarrow> QuicPacketNumber \<Rightarrow> PacketNumberQueue \<times> bool" where
  "Queue_AddRange q lower higher =
     (if \<not> IsInitialized lower \<or> \<not> IsInitialized higher \<or> lower \<ge> higher then (q, False)
      else if q = [] then ([QuicInterval lower higher], False)
      else let bk = last q; front = hd q
           in if imax bk = lower then (butlast q @ [QuicInterval (imin bk) higher], False)
              else if imax bk < lower then (q @ [QuicInterval lower higher], False)
              else if imin front = higher then (QuicInterval lower (imax front) # tl q, False)
              else if imin front > higher then (QuicInterval lower higher # q, False)
              else (q, True))"

definition Queue_Empty :: "PacketNumberQueue \<Rightarrow> bool" where
  "Queue_Empty q \<longleftrightarrow> q = []"

definition Queue_Min :: "PacketNumberQueue \<Rightarrow> QuicPacketNumber" where
  "Queue_Min q = imin (hd q)"

definition Queue_Max :: "PacketNumberQueue \<Rightarrow> QuicPacketNumber" where
  "Queue_Max q = pn_minus (imax (last q)) 1"

fun RemoveUpTo_loop :: "PacketNumberQueue \<Rightarrow> QuicPacketNumber \<Rightarrow> PacketNumberQueue" where
  "RemoveUpTo_loop [] higher = []"
| "RemoveUpTo_loop (front # q) higher =
     (if imax front < higher then RemoveUpTo_loop q higher
      else if imin front < higher \<and> imax front \<ge> higher
      then (if imax front = higher then q else QuicInterval higher (imax front) # q)
      else front # q)"

definition RemoveUpTo :: "PacketNumberQueue \<Rightarrow> QuicPacketNumber \<Rightarrow> bool \<times> PacketNumberQueue" where
  "RemoveUpTo q higher =
     (if \<not> IsInitialized higher \<or> Queue_Empty q then (False, q)
      else let old_min = Queue_Min q; q1 = RemoveUpTo_loop q higher
           in (Queue_Empty q1 \<or> old_min \<noteq> Queue_Min q1, q1))"

text \<open>\<open>pop_front\<close> on an empty deque is undefined behaviour: \<open>None\<close>.\<close>

definition RemoveSmallestInterval :: "PacketNumberQueue \<Rightarrow> PacketNumberQueue option" where
  "RemoveSmallestInterval q = (case q of [] \<Rightarrow> None | _ # rest \<Rightarrow> Some rest)"

definition Queue_Clear :: "PacketNumberQueue \<Rightarrow> PacketNumberQueue" where
  "Queue_Clear q = []"

definition Queue_Contains :: "PacketNumberQueue \<Rightarrow> QuicPacketNumber \<Rightarrow> bool" where
  "Queue_Contains q packet_number =
     (if \<not> IsInitialized packet_number \<or> q = [] then False
      else if imin (hd q) > packet_number \<or> imax (last q) \<le> packet_number then False
      else list_ex (\<lambda>interval. Interval_Contains_value interval packet_number) q)"

definition NumPacketsSlow :: "PacketNumberQueue \<Rightarrow> nat" where
  "NumPacketsSlow q = fold (\<lambda>interval n. u64_add n (PacketNumberIntervalLength interval)) q 0"

definition NumIntervals :: "PacketNumberQueue \<Rightarrow> nat" where
  "NumIntervals q = length q"

definition LastIntervalLength :: "PacketNumberQueue \<Rightarrow> nat" where
  "LastIntervalLength q = PacketNumberIntervalLength (last q)"

section \<open>The ACK frame\<close>

text \<open>Times are microseconds; \<open>QuicTime::Delta::Infinite()\<close> is the largest signed 64-bit value.\<close>

definition kQuicInfiniteTimeUs :: int where
  "kQuicInfiniteTimeUs = 2 ^ 63 - 1"

record QuicAckFrame =
  largest_acked :: QuicPacketNumber
  ack_delay_time :: int
  received_packet_times :: "(QuicPacketNumber \<times> int) list"
  ack_packets :: PacketNumberQueue
  ecn_counters_populated :: bool
  ect_0_count :: nat
  ect_1_count :: nat
  ecn_ce_count :: nat

definition new_QuicAckFrame :: QuicAckFrame where
  "new_QuicAckFrame =
     \<lparr> largest_acked = UninitializedPacketNumber, ack_delay_time = kQuicInfiniteTimeUs,
       received_packet_times = [], ack_packets = [], ecn_counters_populated = False,
       ect_0_count = 0, ect_1_count = 0, ecn_ce_count = 0 \<rparr>"

definition AckFrame_Clear :: "QuicAckFrame \<Rightarrow> QuicAckFrame" where
  "AckFrame_Clear f =
     f\<lparr> largest_acked := pn_Clear (largest_acked f), ack_delay_time := kQuicInfiniteTimeUs,
        received_packet_times := [], ack_packets := Queue_Clear (ack_packets f) \<rparr>"

definition IsAwaitingPacket ::
    "QuicAckFrame \<Rightarrow> QuicPacketNumber \<Rightarrow> QuicPacketNumber \<Rightarrow> bool" where
  "IsAwaitingPacket ack_frame packet_number peer_least_packet_awaiting_ack \<longleftrightarrow>
     (\<not> IsInitialized peer_least_packet_awaiting_ack
       \<or> packet_number \<ge> peer_least_packet_awaiting_ack)
     \<and> \<not> Queue_Contains (ack_packets ack_frame) packet_number"

definition LargestAcked :: "QuicAckFrame \<Rightarrow> QuicPacketNumber" where
  "LargestAcked frame = largest_acked frame"

section \<open>Correctness of the queue\<close>

lemma Queue_Add_loop_correct:
  assumes "Valid (bef @ aft)" "bef \<noteq> []" "imin (hd bef) \<le> p" "\<forall>a \<in> set aft. p + 1 < imin a" "pn_ok p"
  shows "Valid (Queue_Add_loop (bef @ aft) p (length bef)) \<and>
    set_points (Queue_Add_loop (bef @ aft) p (length bef)) = insert p (set_points (bef @ aft))"
  using assms(1-4)
proof (induction bef arbitrary: aft rule: rev_induct)
  case Nil
  then show ?case by simp
next
  case (snoc iv bef)
  have iv: "imin iv < imax iv" "\<forall>b \<in> set bef. imax b < imin iv" "\<forall>a \<in> set aft. imax iv < imin a"
    "\<forall>b \<in> set bef. imin b < imax b"
    using snoc.prems(1) Valid_nonempty [OF snoc.prems(1)] by (auto simp: Valid_append Valid_Cons)
  let ?q = "(bef @ [iv]) @ aft"
  have nth: "?q ! length bef = iv" by simp
  consider (inside) "imin iv \<le> p" "p < imax iv" | (up) "imax iv = p" | (down) "imin iv = p + 1"
    | (new) "imax iv < p" | (below) "p + 1 < imin iv"
    by linarith
  then show ?case
  proof cases
    case inside
    then have "Queue_Add_loop ?q p (length (bef @ [iv])) = ?q"
      using nth by (simp add: Interval_Contains_value_def)
    with snoc.prems(1) inside show ?thesis by (auto simp: points_def)
  next
    case up
    then have "Queue_Add_loop ?q p (length (bef @ [iv])) = bef @ QuicInterval (imin iv) (p + 1) # aft"
      using nth assms(5) by (simp add: Interval_Contains_value_def list_update_append)
    with snoc.prems(1,4) up iv show ?thesis
      by (auto simp: Valid_append Valid_Cons points_def less_Suc_eq)
  next
    case down
    show ?thesis
    proof (cases "bef \<noteq> [] \<and> imax (last bef) = p")
      case True
      then obtain b0 l where b: "bef = b0 @ [l]" "imax l = p" by (cases bef rule: rev_cases) auto
      have "Queue_Add_loop ?q p (length (bef @ [iv])) = b0 @ QuicInterval (imin l) (imax iv) # aft"
        using down b assms(5) iv(1)
        by (simp add: Interval_Contains_value_def list_update_append nth_append Let_def)
      with snoc.prems(1) down b iv show ?thesis
        by (auto simp: Valid_append Valid_Cons points_def)
    next
      case False
      then have "Queue_Add_loop ?q p (length (bef @ [iv])) = bef @ QuicInterval p (imax iv) # aft"
        using down assms(5) iv(1)
        by (cases bef rule: rev_cases)
          (auto simp: Interval_Contains_value_def list_update_append nth_append Let_def)
      moreover have "\<forall>b \<in> set bef. imax b < p"
        using False iv(2) snoc.prems(1) down
        by (cases bef rule: rev_cases) (fastforce simp: Valid_append Valid_Cons)+
      ultimately show ?thesis
        using snoc.prems(1) down iv by (auto simp: Valid_append Valid_Cons points_def)
    qed
  next
    case new
    then have "Queue_Add_loop ?q p (length (bef @ [iv])) = bef @ iv # QuicInterval p (p + 1) # aft"
      using nth assms(5) iv(1) by (simp add: Interval_Contains_value_def)
    moreover have "\<forall>b \<in> set bef. imax b < p" using iv new by fastforce
    ultimately show ?thesis
      using snoc.prems(1,4) new iv by (auto simp: Valid_append Valid_Cons points_def less_Suc_eq)
  next
    case below
    then have step: "Queue_Add_loop ?q p (length (bef @ [iv])) = Queue_Add_loop (bef @ (iv # aft)) p (length bef)"
      using nth assms(5) iv(1) by (simp add: Interval_Contains_value_def)
    have "bef \<noteq> []" using below snoc.prems(3) by (cases bef) auto
    with snoc.IH [of "iv # aft"] snoc.prems below step show ?thesis by simp
  qed
qed

lemma hd_append_hd: "bef \<noteq> [] \<Longrightarrow> hd (bef @ aft) = hd bef"
  by simp

lemma Queue_Add_correct:
  assumes "Valid q" "pn_ok p"
  shows "Valid (Queue_Add q p) \<and> set_points (Queue_Add q p) = insert p (set_points q)"
proof (cases q rule: rev_cases)
  case Nil
  with assms show ?thesis by (auto simp: Queue_Add_def Valid_Cons points_def)
next
  case (snoc q0 bk)
  have bk: "imin bk < imax bk" "\<forall>b \<in> set q0. imax b < imin bk"
    using assms snoc by (auto simp: Valid_append Valid_Cons)
  consider (above) "imax bk \<le> p" | (front) "p < imax bk" "p < imin (hd q)" | (inside) "p < imax bk" "imin (hd q) \<le> p"
    by linarith
  then show ?thesis
  proof cases
    case above
    moreover have "\<forall>b \<in> set q0. imax b < p" using bk above by fastforce
    ultimately show ?thesis
      using assms bk snoc
      by (cases "imax bk = p") (auto simp: Queue_Add_def Valid_append Valid_Cons points_def less_Suc_eq)
  next
    case front
    obtain f rest where q: "q = f # rest" using snoc by (meson append_is_Nil_conv list.exhaust not_Cons_self2)
    have "last q = bk" using snoc by simp
    with front assms q have "Queue_Add q p =
        (if imin f = p + 1 then QuicInterval p (imax f) # rest else QuicInterval p (p + 1) # f # rest)"
      by (auto simp: Queue_Add_def Let_def)
    moreover have "p < imin f" "imin f < imax f" "\<forall>j \<in> set rest. imax f < imin j" "Valid rest"
      using front q assms(1) by (auto simp: Valid_Cons)
    ultimately show ?thesis
      using q by (cases "imin f = p + 1") (auto simp: Valid_Cons points_def dest: less_trans)
  next
    case inside
    with snoc assms Queue_Add_loop_correct [of q "[]" p] show ?thesis
      by (auto simp: Queue_Add_def Let_def)
  qed
qed

lemma Queue_AddRange_correct:
  assumes "Valid q" "pn_ok lower" "pn_ok higher" "lower < higher"
    and "q = [] \<or> imax (last q) \<le> lower \<or> higher \<le> imin (hd q)"
  shows "Valid (fst (Queue_AddRange q lower higher)) \<and>
    set_points (fst (Queue_AddRange q lower higher)) = set_points q \<union> {lower ..< higher} \<and>
    \<not> snd (Queue_AddRange q lower higher)"
proof (cases q rule: rev_cases)
  case Nil
  with assms show ?thesis by (auto simp: Queue_AddRange_def Valid_Cons points_def)
next
  case (snoc q0 bk)
  have bk: "imin bk < imax bk" "\<forall>b \<in> set q0. imax b < imin bk"
    using assms snoc by (auto simp: Valid_append Valid_Cons)
  show ?thesis
  proof (cases "imax bk \<le> lower")
    case True
    moreover have "\<forall>b \<in> set q0. imax b < lower" using bk True by fastforce
    ultimately show ?thesis
      using assms(1-4) bk snoc
      by (cases "imax bk = lower") (auto simp: Queue_AddRange_def Valid_append Valid_Cons points_def)
  next
    case False
    obtain f rest where q: "q = f # rest"
      using snoc by (meson append_is_Nil_conv list.exhaust not_Cons_self2)
    have l: "last q = bk" "hd q = f" using snoc apply simp using q by simp
    then have f: "higher \<le> imin f" using assms(5) False q by auto
    then have "Queue_AddRange q lower higher =
        (if imin f = higher then QuicInterval lower (imax f) # rest else QuicInterval lower higher # f # rest, False)"
      using False l q assms(2-4) by (auto simp: Queue_AddRange_def Let_def)
    moreover have "imin f < imax f" "\<forall>j \<in> set rest. imax f < imin j" "Valid rest"
      using q assms(1) by (auto simp: Valid_Cons)
    ultimately show ?thesis
      using q f assms(4) by (cases "imin f = higher") (auto simp: Valid_Cons points_def dest: less_trans)
  qed
qed

lemma Queue_AddRange_refused:
  assumes "Valid q" "q \<noteq> []" "lower < higher" "lower < imax (last q)" "imin (hd q) < higher"
    "pn_ok lower" "pn_ok higher"
  shows "Queue_AddRange q lower higher = (q, True)"
  using assms by (simp add: Queue_AddRange_def Let_def)

lemma RemoveUpTo_loop_correct:
  "Valid q \<Longrightarrow> Valid (RemoveUpTo_loop q h) \<and> set_points (RemoveUpTo_loop q h) = set_points q \<inter> {h ..}"
proof (induction q)
  case (Cons f q)
  then have q: "Valid q" "imin f < imax f" "\<forall>j \<in> set q. imax f < imin j" by (auto simp: Valid_Cons)
  have above: "set_points q \<subseteq> {h ..}" if "h \<le> imax f"
  proof
    fix x assume "x \<in> set_points q"
    then obtain j where "j \<in> set q" "imin j \<le> x" by (auto simp: set_points_def points_def)
    with q(3) that show "x \<in> {h ..}" by force
  qed
  consider "imax f < h" | "imin f < h" "h \<le> imax f" | "h \<le> imin f" by linarith
  then show ?case
  proof cases
    case 1
    then have "points f \<inter> {h ..} = {}" by (auto simp: points_def)
    with 1 Cons.IH q(1) show ?thesis by (simp add: Int_Un_distrib2)
  next
    case 2
    have "points f \<inter> {h ..} = {h ..< imax f}" using 2 by (auto simp: points_def)
    moreover have "set_points q \<inter> {h ..} = set_points q" using above 2 by blast
    ultimately show ?thesis
      using 2 q by (cases "imax f = h") (simp_all add: Valid_Cons points_QuicInterval Int_Un_distrib2)
  next
    case 3
    with above q(2) have "points f \<union> set_points q \<subseteq> {h ..}" by (auto simp: points_def)
    with 3 Cons.prems q(2) show ?thesis by (simp add: Int_absorb2)
  qed
qed simp

lemma Queue_Min_least:
  assumes "Valid q" "q \<noteq> []"
  shows "Queue_Min q \<in> set_points q \<and> (\<forall>p \<in> set_points q. Queue_Min q \<le> p)"
proof -
  obtain f rest where "q = f # rest" using assms(2) by (cases q) auto
  with assms(1) show ?thesis
    by (force simp: Queue_Min_def Valid_Cons points_def set_points_def)
qed

lemma Queue_Max_greatest:
  assumes "Valid q" "q \<noteq> []" "imax (last q) < 2 ^ 64"
  shows "Queue_Max q \<in> set_points q \<and> (\<forall>p \<in> set_points q. p \<le> Queue_Max q)"
proof -
  obtain q0 l where q: "q = q0 @ [l]" using assms(2) by (cases q rule: rev_cases) auto
  with assms have l: "imin l < imax l" "\<forall>b \<in> set q0. imax b < imin l" by (auto simp: Valid_append Valid_Cons)
  have mx: "Queue_Max q = imax l - 1"
    using l assms(3) q by (simp add: Queue_Max_def pn_minus_def u64_simps)
  moreover have "imax l - 1 \<in> points l"
    using l(1) by (simp add: points_def)
  moreover have "p \<le> imax l - 1" if "p \<in> set_points q" for p
    using that l q by (force simp: set_points_def points_def)
  ultimately show ?thesis using q by simp
qed

lemma RemoveUpTo_correct:
  assumes "Valid q" "pn_ok h"
  shows "Valid (snd (RemoveUpTo q h)) \<and> set_points (snd (RemoveUpTo q h)) = set_points q \<inter> {h ..}
    \<and> (fst (RemoveUpTo q h) \<longleftrightarrow> set_points (snd (RemoveUpTo q h)) \<noteq> set_points q)"
proof (cases "q = []")
  case True
  then show ?thesis by (simp add: RemoveUpTo_def Queue_Empty_def)
next
  case False
  let ?r = "RemoveUpTo_loop q h"
  have r: "Valid ?r" "set_points ?r = set_points q \<inter> {h ..}"
    using RemoveUpTo_loop_correct [OF assms(1)] by auto
  note mn = Queue_Min_least [OF assms(1) False]
  have "(?r = [] \<or> Queue_Min q \<noteq> Queue_Min ?r) \<longleftrightarrow> set_points ?r \<noteq> set_points q"
  proof (cases "?r = []")
    case True
    with mn show ?thesis by auto
  next
    case ne: False
    note mr = Queue_Min_least [OF r(1) ne]
    show ?thesis
    proof
      assume "?r = [] \<or> Queue_Min q \<noteq> Queue_Min ?r"
      then show "set_points ?r \<noteq> set_points q" using ne mn mr by (metis le_antisym)
    next
      assume d: "set_points ?r \<noteq> set_points q"
      then obtain p where "p \<in> set_points q" "p < h" using r(2) by fastforce
      then have "Queue_Min q < h" using mn by fastforce
      moreover have "h \<le> Queue_Min ?r" using mr r(2) by auto
      ultimately show "?r = [] \<or> Queue_Min q \<noteq> Queue_Min ?r" by simp
    qed
  qed
  with r assms(2) False show ?thesis by (simp add: RemoveUpTo_def Queue_Empty_def Let_def)
qed

lemma Queue_Contains_iff:
  assumes "Valid q" "pn_ok p"
  shows "Queue_Contains q p \<longleftrightarrow> p \<in> set_points q"
proof (cases "q = []")
  case False
  have ex: "list_ex (\<lambda>i. Interval_Contains_value i p) q \<longleftrightarrow> p \<in> set_points q"
    by (auto simp: list_ex_iff Interval_Contains_value_points set_points_def)
  have "p \<in> set_points q \<Longrightarrow> imin (hd q) \<le> p \<and> p < imax (last q)"
    using SpanningInterval_points [OF assms(1) False]
    by (auto simp: points_def)
  with ex False assms(2) show ?thesis by (auto simp: Queue_Contains_def)
qed (simp add: Queue_Contains_def)

lemma NumPacketsSlow_card:
  assumes "Valid q" "\<forall>i \<in> set q. imax i < 2 ^ 64"
  shows "NumPacketsSlow q = card (set_points q)"
proof -
  have small: "card (set_points q) < 2 ^ 64"
  proof (cases "q = []")
    case False
    have "set_points q \<subseteq> {0 ..< 2 ^ 64 - 1}"
      using assms(2) by (force simp: set_points_def points_def)
    then have "card (set_points q) \<le> 2 ^ 64 - 1"
      using card_mono [of "{0 ..< 2 ^ 64 - 1 :: nat}" "set_points q"] by simp
    then show ?thesis by simp
  qed simp
  have "n + card (set_points q) < 2 ^ 64 \<Longrightarrow>
      fold (\<lambda>interval n. u64_add n (PacketNumberIntervalLength interval)) q n = n + card (set_points q)" for n
    using assms
  proof (induction q arbitrary: n)
    case (Cons i q)
    have i: "PacketNumberIntervalLength i = imax i - imin i"
      using Cons.prems by (simp add: PacketNumberIntervalLength_def Interval_Empty_def Valid_Cons u64_simps)
    have c: "card (set_points (i # q)) = (imax i - imin i) + card (set_points q)"
      by (rule card_set_points_Cons [OF Cons.prems(2)])
    have "u64_add n (imax i - imin i) = n + (imax i - imin i)"
      using Cons.prems(1) c by (intro u64_add_small) simp
    then show ?case using Cons.IH [of "n + (imax i - imin i)"] Cons.prems c i by (simp add: Valid_Cons)
  qed simp
  from this [of 0] small show ?thesis by (simp add: NumPacketsSlow_def)
qed

lemmas queue_eval = IsInitialized_def UninitializedPacketNumber_def U64_MAX_def pn_plus_def u64_add_def
  Interval_Contains_value_def Queue_Empty_def Queue_Min_def Let_def

text \<open>
  C19: The packet number queue is a set. On a queue whose intervals are sorted, disjoint and not
  adjacent, \<open>Add\<close>, \<open>RemoveUpTo\<close> and \<open>AddRange\<close> (above or below what is there) keep that shape and
  act as insertion, removal of everything smaller, and union with the range; \<open>RemoveUpTo\<close> returns
  whether anything was removed, and \<open>Contains\<close> is membership.
\<close>

theorem packet_number_queue_refines_set:
  assumes "Valid q" "pn_ok p"
  shows "Valid (Queue_Add q p) \<and> set_points (Queue_Add q p) = insert p (set_points q)
    \<and> Valid (snd (RemoveUpTo q p)) \<and> set_points (snd (RemoveUpTo q p)) = set_points q \<inter> {p ..}
    \<and> (fst (RemoveUpTo q p) \<longleftrightarrow> set_points (snd (RemoveUpTo q p)) \<noteq> set_points q)
    \<and> (Queue_Contains q p \<longleftrightarrow> p \<in> set_points q)
    \<and> (pn_ok lower \<and> lower < p \<and> (q = [] \<or> imax (last q) \<le> lower \<or> p \<le> imin (hd q)) \<longrightarrow>
        Valid (fst (Queue_AddRange q lower p))
        \<and> set_points (fst (Queue_AddRange q lower p)) = set_points q \<union> {lower ..< p})"
  using Queue_Add_correct [OF assms] RemoveUpTo_correct [OF assms] Queue_Contains_iff [OF assms]
    Queue_AddRange_correct [OF assms(1) _ assms(2), of lower] by simp

theorem packet_number_queue_refines_set_witness:
  "Queue_Add [QuicInterval 1 3, QuicInterval 4 9] 3 = [QuicInterval 1 9]
   \<and> RemoveUpTo [QuicInterval 1 3, QuicInterval 4 9] 6 = (True, [QuicInterval 6 9])
   \<and> Valid (Queue_Add [QuicInterval 1 3, QuicInterval 4 9] 3)
   \<and> set_points (Queue_Add [QuicInterval 1 3, QuicInterval 4 9] 3) = {1 ..< 9}
   \<and> set_points (fst (Queue_AddRange [QuicInterval 1 3] 3 7)) = {1 ..< 7}"
proof -
  have ok: "pn_ok 3" "pn_ok 7" by (simp_all add: pn_ok_def U64_MAX_def)
  have V: "Valid [QuicInterval 1 (3::nat), QuicInterval 4 9]" "Valid [QuicInterval 1 (3::nat)]"
    by (simp_all add: Valid_def)
  have "Queue_Add [QuicInterval 1 3, QuicInterval 4 9] 3 = [QuicInterval 1 9]"
    and "RemoveUpTo [QuicInterval 1 3, QuicInterval 4 9] 6 = (True, [QuicInterval 6 9])"
    by (simp_all add: Queue_Add_def RemoveUpTo_def queue_eval)
  moreover have "insert 3 (set_points [QuicInterval 1 3, QuicInterval 4 9]) = {1 ..< 9::nat}"
    "set_points [QuicInterval 1 3] \<union> {3 ..< 7} = {1 ..< 7::nat}"
    by (auto simp: points_QuicInterval)
  ultimately show ?thesis
    using packet_number_queue_refines_set [OF V(1) ok(1), of 0]
      packet_number_queue_refines_set [OF V(2) ok(2), of 3] ok by simp
qed

text \<open>
  Bounds and size of the queue. On a valid, non-empty queue of 64-bit numbers \<open>Min\<close> and \<open>Max\<close> are
  the least and the greatest packet number in it, and \<open>NumPacketsSlow\<close> counts its packets.
\<close>

theorem packet_number_queue_bounds:
  assumes "Valid q" "q \<noteq> []" "\<forall>i \<in> set q. imax i < 2 ^ 64"
  shows "Queue_Min q = Min (set_points q) \<and> Queue_Max q = Max (set_points q)
    \<and> NumPacketsSlow q = card (set_points q)"
proof -
  have "finite (set_points q)" by (simp add: set_points_def points_def)
  moreover have "imax (last q) < 2 ^ 64" using assms by simp
  ultimately show ?thesis
    using Queue_Min_least [OF assms(1,2)] Queue_Max_greatest [OF assms(1,2)] NumPacketsSlow_card [OF assms(1,3)]
    by (metis Max_eqI Min_eqI)
qed

theorem packet_number_queue_bounds_witness:
  "Queue_Max [QuicInterval 1 3, QuicInterval 4 9] = Max (set_points [QuicInterval 1 3, QuicInterval 4 9])
   \<and> NumPacketsSlow [QuicInterval 1 3, QuicInterval 4 9] = card (set_points [QuicInterval 1 (3::nat), QuicInterval 4 9])
   \<and> NumPacketsSlow [QuicInterval 1 3, QuicInterval 4 9] = 7"
proof -
  have "Valid [QuicInterval 1 (3::nat), QuicInterval 4 9]" by (simp add: Valid_def)
  moreover have "NumPacketsSlow [QuicInterval 1 3, QuicInterval 4 9] = 7"
    by (simp add: NumPacketsSlow_def PacketNumberIntervalLength_def Interval_Empty_def u64_add_def u64_sub_def)
  ultimately show ?thesis
    using packet_number_queue_bounds [of "[QuicInterval 1 3, QuicInterval 4 9]"] by simp
qed

end
