(* ===== verification/Quic_Flow_Controller.thy ===== *)
theory Quic_Flow_Controller
  imports Quic_Prelude
begin

text \<open>
  The model of \<open>QuicFlowController\<close> (src/quic/core/quic_flow_controller.cc). Byte counts and offsets
  are 64-bit values kept as natural numbers with the wrap-around written out; times are microseconds,
  zero for an uninitialized one. What a call does to the session and the connection (WINDOW_UPDATE
  frames, closing the connection) is the list of actions it returns; the clock and the smoothed RTT
  are arguments. The flow controller of the session, which a stream's controller may grow, is passed
  along as an optional second controller.
\<close>

section \<open>State\<close>

record QuicFlowController =
  fc_id :: nat
  is_connection_flow_controller :: bool
  bytes_sent :: nat
  send_window_offset :: nat
  bytes_consumed :: nat
  highest_received_byte_offset :: nat
  receive_window_offset :: nat
  receive_window_size :: nat
  receive_window_size_limit :: nat
  auto_tune_receive_window :: bool
  last_blocked_send_window_offset :: nat
  prev_window_update_time :: int

datatype fc_action =
    SendWindowUpdate_action nat nat
  | CloseConnection_sent_too_much

text \<open>The clock, the smoothed RTT and the invalid stream id of the version in use.\<close>

record fc_env =
  env_now :: int
  env_smoothed_rtt :: int
  env_invalid_stream_id :: nat

definition new_QuicFlowController ::
    "nat \<Rightarrow> bool \<Rightarrow> nat \<Rightarrow> nat \<Rightarrow> nat \<Rightarrow> bool \<Rightarrow> QuicFlowController" where
  "new_QuicFlowController i is_conn send_offset receive_offset size_limit auto_tune =
     \<lparr> fc_id = i, is_connection_flow_controller = is_conn, bytes_sent = 0,
       send_window_offset = send_offset, bytes_consumed = 0, highest_received_byte_offset = 0,
       receive_window_offset = receive_offset, receive_window_size = receive_offset,
       receive_window_size_limit = size_limit, auto_tune_receive_window = auto_tune,
       last_blocked_send_window_offset = 0, prev_window_update_time = 0 \<rparr>"

section \<open>Sending\<close>

definition SendWindowSize :: "QuicFlowController \<Rightarrow> nat" where
  "SendWindowSize fc =
     (if bytes_sent fc > send_window_offset fc then 0
      else u64_sub (send_window_offset fc) (bytes_sent fc))"

definition IsBlocked :: "QuicFlowController \<Rightarrow> bool" where
  "IsBlocked fc \<longleftrightarrow> SendWindowSize fc = 0"

definition AddBytesSent :: "QuicFlowController \<Rightarrow> nat \<Rightarrow> QuicFlowController \<times> fc_action list" where
  "AddBytesSent fc n =
     (if u64_add (bytes_sent fc) n > send_window_offset fc
      then (fc\<lparr>bytes_sent := send_window_offset fc\<rparr>, [CloseConnection_sent_too_much])
      else (fc\<lparr>bytes_sent := u64_add (bytes_sent fc) n\<rparr>, []))"

definition ShouldSendBlocked :: "QuicFlowController \<Rightarrow> bool \<times> QuicFlowController" where
  "ShouldSendBlocked fc =
     (if SendWindowSize fc \<noteq> 0 \<or> last_blocked_send_window_offset fc \<ge> send_window_offset fc
      then (False, fc)
      else (True, fc\<lparr>last_blocked_send_window_offset := send_window_offset fc\<rparr>))"

definition UpdateSendWindowOffset :: "QuicFlowController \<Rightarrow> nat \<Rightarrow> bool \<times> QuicFlowController" where
  "UpdateSendWindowOffset fc new_send_window_offset =
     (if new_send_window_offset \<le> send_window_offset fc then (False, fc)
      else let was_previously_blocked = IsBlocked fc
           in (was_previously_blocked, fc\<lparr>send_window_offset := new_send_window_offset\<rparr>))"

section \<open>Receiving\<close>

definition UpdateHighestReceivedOffset :: "QuicFlowController \<Rightarrow> nat \<Rightarrow> bool \<times> QuicFlowController" where
  "UpdateHighestReceivedOffset fc new_offset =
     (if new_offset \<le> highest_received_byte_offset fc then (False, fc)
      else (True, fc\<lparr>highest_received_byte_offset := new_offset\<rparr>))"

definition FlowControlViolation :: "QuicFlowController \<Rightarrow> bool" where
  "FlowControlViolation fc \<longleftrightarrow> highest_received_byte_offset fc > receive_window_offset fc"

definition IncreaseWindowSize :: "QuicFlowController \<Rightarrow> QuicFlowController" where
  "IncreaseWindowSize fc =
     (let doubled = receive_window_size fc * 2 mod 2 ^ 64
      in fc\<lparr>receive_window_size := min doubled (receive_window_size_limit fc)\<rparr>)"

definition WindowUpdateThreshold :: "QuicFlowController \<Rightarrow> nat" where
  "WindowUpdateThreshold fc = receive_window_size fc div 2"

definition SendWindowUpdate :: "fc_env \<Rightarrow> QuicFlowController \<Rightarrow> fc_action list" where
  "SendWindowUpdate env fc =
     [SendWindowUpdate_action
        (if is_connection_flow_controller fc then env_invalid_stream_id env else fc_id fc)
        (receive_window_offset fc)]"

definition UpdateReceiveWindowOffsetAndSendWindowUpdate ::
    "fc_env \<Rightarrow> QuicFlowController \<Rightarrow> nat \<Rightarrow> QuicFlowController \<times> fc_action list" where
  "UpdateReceiveWindowOffsetAndSendWindowUpdate env fc available_window =
     (let fc1 = fc\<lparr>receive_window_offset :=
                     u64_add (receive_window_offset fc)
                       (u64_sub (receive_window_size fc) available_window)\<rparr>
      in (fc1, SendWindowUpdate env fc1))"

definition EnsureWindowAtLeast ::
    "fc_env \<Rightarrow> QuicFlowController \<Rightarrow> nat \<Rightarrow> QuicFlowController \<times> fc_action list" where
  "EnsureWindowAtLeast env fc window_size =
     (if receive_window_size_limit fc \<ge> window_size then (fc, [])
      else let available_window = u64_sub (receive_window_offset fc) (bytes_consumed fc)
           in UpdateReceiveWindowOffsetAndSendWindowUpdate env (IncreaseWindowSize fc) available_window)"

text \<open>
  \<open>kSessionFlowControlMultiplier * receive_window_size_\<close> is computed in single precision: the size is
  rounded to 24 significant bits (ties to even), the product with 1.5 is rounded again, and the
  conversion back drops the fraction.
\<close>

definition float32_round :: "nat \<Rightarrow> nat" where
  "float32_round n =
     (let s = nat (int (length (takeWhile (\<lambda>k. n \<ge> 2 ^ (k + 24)) [0..<64])));
          unit = 2 ^ s; q = n div unit; r = n mod unit
      in (if 2 * r > unit \<or> (2 * r = unit \<and> odd q) then (q + 1) * unit else q * unit))"

definition session_window_request :: "nat \<Rightarrow> nat" where
  "session_window_request sz = float32_round (3 * float32_round sz) div 2"

text \<open>
  \<open>MaybeIncreaseMaxWindowSize\<close>. The session's controller is \<open>None\<close> where the pointer is null.
\<close>

definition MaybeIncreaseMaxWindowSize ::
    "fc_env \<Rightarrow> QuicFlowController \<Rightarrow> QuicFlowController option \<Rightarrow>
       QuicFlowController \<times> QuicFlowController option \<times> fc_action list" where
  "MaybeIncreaseMaxWindowSize env fc session_fc =
     (let now = env_now env;
          prev = prev_window_update_time fc;
          fc1 = fc\<lparr>prev_window_update_time := now\<rparr>
      in if prev = 0 then (fc1, session_fc, [])
         else if \<not> auto_tune_receive_window fc1 then (fc1, session_fc, [])
         else let rtt = env_smoothed_rtt env
              in if rtt = 0 then (fc1, session_fc, [])
                 else let since_last = now - prev; two_rtt = 2 * rtt
                      in if since_last \<ge> two_rtt then (fc1, session_fc, [])
                         else let old_window = receive_window_size fc1;
                                  fc2 = IncreaseWindowSize fc1
                              in if receive_window_size fc2 > old_window
                                 then (case session_fc of
                                         None \<Rightarrow> (fc2, None, [])
                                       | Some s \<Rightarrow>
                                           let (s1, acts) =
                                                 EnsureWindowAtLeast env s
                                                   (session_window_request (receive_window_size fc2))
                                           in (fc2, Some s1, acts))
                                 else (fc2, session_fc, []))"

definition MaybeSendWindowUpdate ::
    "fc_env \<Rightarrow> QuicFlowController \<Rightarrow> QuicFlowController option \<Rightarrow>
       QuicFlowController \<times> QuicFlowController option \<times> fc_action list" where
  "MaybeSendWindowUpdate env fc session_fc =
     (let available_window = u64_sub (receive_window_offset fc) (bytes_consumed fc);
          threshold = WindowUpdateThreshold fc;
          fc1 = (if prev_window_update_time fc = 0
                 then fc\<lparr>prev_window_update_time := env_now env\<rparr> else fc)
      in if available_window \<ge> threshold then (fc1, session_fc, [])
         else let (fc2, s2, acts) = MaybeIncreaseMaxWindowSize env fc1 session_fc;
                  (fc3, acts') = UpdateReceiveWindowOffsetAndSendWindowUpdate env fc2 available_window
              in (fc3, s2, acts @ acts'))"

definition AddBytesConsumed ::
    "fc_env \<Rightarrow> QuicFlowController \<Rightarrow> QuicFlowController option \<Rightarrow> nat \<Rightarrow>
       QuicFlowController \<times> QuicFlowController option \<times> fc_action list" where
  "AddBytesConsumed env fc session_fc n =
     MaybeSendWindowUpdate env (fc\<lparr>bytes_consumed := u64_add (bytes_consumed fc) n\<rparr>) session_fc"

text \<open>\<open>UpdateReceiveWindowSize\<close>; the flag tells that the \<open>QUIC_BUG\<close> branch was taken.\<close>

definition UpdateReceiveWindowSize :: "QuicFlowController \<Rightarrow> nat \<Rightarrow> QuicFlowController \<times> bool" where
  "UpdateReceiveWindowSize fc sz =
     (if receive_window_size fc \<noteq> receive_window_offset fc then (fc, True)
      else (fc\<lparr>receive_window_size := sz, receive_window_offset := sz\<rparr>, False))"

definition set_receive_window_size_limit :: "QuicFlowController \<Rightarrow> nat \<Rightarrow> QuicFlowController" where
  "set_receive_window_size_limit fc l = fc\<lparr>receive_window_size_limit := l\<rparr>"

section \<open>Invariant\<close>

text \<open>
  Offsets stay below \<open>2 ^ 62\<close>, the largest offset the wire format can carry, and so does the limit of
  the window; then no addition in the receiving half wraps.
\<close>

definition fc_send_ok :: "QuicFlowController \<Rightarrow> bool" where
  "fc_send_ok fc \<longleftrightarrow> bytes_sent fc \<le> send_window_offset fc \<and> send_window_offset fc < 2 ^ 64
     \<and> last_blocked_send_window_offset fc \<le> send_window_offset fc"

definition fc_receive_ok :: "QuicFlowController \<Rightarrow> bool" where
  "fc_receive_ok fc \<longleftrightarrow> bytes_consumed fc \<le> receive_window_offset fc
     \<and> receive_window_offset fc - bytes_consumed fc \<le> receive_window_size fc
     \<and> receive_window_size fc \<le> receive_window_size_limit fc
     \<and> receive_window_size_limit fc < 2 ^ 62 \<and> bytes_consumed fc < 2 ^ 62"

definition fc_ok :: "QuicFlowController \<Rightarrow> bool" where
  "fc_ok fc \<longleftrightarrow> fc_send_ok fc \<and> fc_receive_ok fc"

lemmas fc_defs = fc_send_ok_def fc_receive_ok_def fc_ok_def

lemma AddBytesSent_ok: "fc_ok fc \<Longrightarrow> fc_ok (fst (AddBytesSent fc n))"
  by (auto simp: AddBytesSent_def fc_defs)

lemma ShouldSendBlocked_ok: "fc_ok fc \<Longrightarrow> fc_ok (snd (ShouldSendBlocked fc))"
  by (auto simp: ShouldSendBlocked_def fc_defs)

lemma UpdateSendWindowOffset_ok:
  "fc_ok fc \<Longrightarrow> w < 2 ^ 64 \<Longrightarrow> fc_ok (snd (UpdateSendWindowOffset fc w))"
  by (auto simp: UpdateSendWindowOffset_def fc_defs Let_def)

lemma UpdateHighestReceivedOffset_ok: "fc_ok fc \<Longrightarrow> fc_ok (snd (UpdateHighestReceivedOffset fc off))"
  by (auto simp: UpdateHighestReceivedOffset_def fc_defs)

lemma UpdateReceiveWindowSize_ok:
  "fc_ok fc \<Longrightarrow> bytes_consumed fc \<le> sz \<Longrightarrow> sz \<le> receive_window_size_limit fc \<Longrightarrow>
     fc_ok (fst (UpdateReceiveWindowSize fc sz))"
  by (auto simp: UpdateReceiveWindowSize_def fc_defs)

lemma set_receive_window_size_limit_ok:
  "fc_ok fc \<Longrightarrow> receive_window_size_limit fc \<le> l \<Longrightarrow> l < 2 ^ 62 \<Longrightarrow>
     fc_ok (set_receive_window_size_limit fc l)"
  by (auto simp: set_receive_window_size_limit_def fc_defs)

lemma IncreaseWindowSize_facts:
  assumes "fc_receive_ok fc"
  shows "IncreaseWindowSize fc =
      fc\<lparr>receive_window_size := min (2 * receive_window_size fc) (receive_window_size_limit fc)\<rparr>"
proof -
  have "receive_window_size fc * 2 < 2 ^ 64" using assms by (simp add: fc_receive_ok_def)
  then show ?thesis by (simp add: IncreaseWindowSize_def mult.commute)
qed

lemma IncreaseWindowSize_ok:
  assumes "fc_ok fc"
  shows "fc_ok (IncreaseWindowSize fc) \<and> receive_window_size fc \<le> receive_window_size (IncreaseWindowSize fc)"
  using assms by (auto simp: IncreaseWindowSize_facts fc_defs)

text \<open>The update of the receive window gives the peer the whole window behind the consumed bytes.\<close>

lemma UpdateReceiveWindow_full:
  assumes "fc_ok fc" "UpdateReceiveWindowOffsetAndSendWindowUpdate env fc
      (receive_window_offset fc - bytes_consumed fc) = (fc', acts)"
  shows "fc' = fc\<lparr>receive_window_offset := bytes_consumed fc + receive_window_size fc\<rparr> \<and> fc_ok fc'
    \<and> acts = SendWindowUpdate env fc'"
proof -
  have b: "bytes_consumed fc \<le> receive_window_offset fc"
    "receive_window_offset fc - bytes_consumed fc \<le> receive_window_size fc"
    "receive_window_size fc < 2 ^ 62" "bytes_consumed fc < 2 ^ 62"
    using assms(1) by (auto simp: fc_defs)
  then have "u64_sub (receive_window_size fc) (receive_window_offset fc - bytes_consumed fc) =
      receive_window_size fc - (receive_window_offset fc - bytes_consumed fc)"
    by (intro u64_sub_small) auto
  moreover have "u64_add (receive_window_offset fc)
      (receive_window_size fc - (receive_window_offset fc - bytes_consumed fc)) =
      bytes_consumed fc + receive_window_size fc"
    using b by (subst u64_add_small) auto
  ultimately show ?thesis
    using assms b by (auto simp: UpdateReceiveWindowOffsetAndSendWindowUpdate_def Let_def fc_defs)
qed

lemma available_window_eq:
  "fc_ok fc \<Longrightarrow> u64_sub (receive_window_offset fc) (bytes_consumed fc) =
     receive_window_offset fc - bytes_consumed fc"
  by (rule u64_sub_small) (auto simp: fc_defs)

lemma EnsureWindowAtLeast_ok:
  assumes "fc_ok fc"
  shows "fc_ok (fst (EnsureWindowAtLeast env fc w))"
proof (cases "receive_window_size_limit fc \<ge> w")
  case False
  obtain fc' acts where u: "UpdateReceiveWindowOffsetAndSendWindowUpdate env (IncreaseWindowSize fc)
      (receive_window_offset fc - bytes_consumed fc) = (fc', acts)" by fastforce
  have "receive_window_offset (IncreaseWindowSize fc) = receive_window_offset fc"
    "bytes_consumed (IncreaseWindowSize fc) = bytes_consumed fc"
    by (simp_all add: IncreaseWindowSize_def Let_def)
  with u have "UpdateReceiveWindowOffsetAndSendWindowUpdate env (IncreaseWindowSize fc)
      (receive_window_offset (IncreaseWindowSize fc) - bytes_consumed (IncreaseWindowSize fc)) = (fc', acts)"
    by simp
  from UpdateReceiveWindow_full [OF _ this] IncreaseWindowSize_ok [OF assms] have "fc_ok fc'" by blast
  with False u show ?thesis
    by (simp add: EnsureWindowAtLeast_def Let_def available_window_eq [OF assms])
qed (simp add: EnsureWindowAtLeast_def assms)

text \<open>What auto-tuning may change: the time of the last update, and the size, up to the limit.\<close>

lemma MaybeIncreaseMaxWindowSize_facts:
  assumes "fc_ok fc" and "\<forall>s. session_fc = Some s \<longrightarrow> fc_ok s"
    and "MaybeIncreaseMaxWindowSize env fc session_fc = (fc', session_fc', acts)"
  shows "fc_ok fc' \<and> (\<forall>s. session_fc' = Some s \<longrightarrow> fc_ok s)
    \<and> receive_window_size fc \<le> receive_window_size fc'
    \<and> receive_window_offset fc' = receive_window_offset fc \<and> bytes_consumed fc' = bytes_consumed fc"
proof -
  let ?fc1 = "fc\<lparr>prev_window_update_time := env_now env\<rparr>"
  have ok1: "fc_ok ?fc1" using assms(1) by (simp add: fc_defs)
  note inc = IncreaseWindowSize_ok [OF ok1]
  have same: "receive_window_offset (IncreaseWindowSize ?fc1) = receive_window_offset fc"
    "bytes_consumed (IncreaseWindowSize ?fc1) = bytes_consumed fc"
    by (simp_all add: IncreaseWindowSize_def Let_def)
  have sess: "fc_ok (fst (EnsureWindowAtLeast env s w))" if "session_fc = Some s" for s w
    using EnsureWindowAtLeast_ok assms(2) that by blast
  show ?thesis
    using assms(2,3) ok1 inc same sess unfolding MaybeIncreaseMaxWindowSize_def Let_def
    by (auto split: if_splits option.splits prod.splits) (metis fst_conv)
qed

lemma MaybeSendWindowUpdate_facts:
  assumes "fc_ok fc" and "\<forall>s. session_fc = Some s \<longrightarrow> fc_ok s"
    and "MaybeSendWindowUpdate env fc session_fc = (fc', session_fc', acts)"
  shows "fc_ok fc' \<and> (\<forall>s. session_fc' = Some s \<longrightarrow> fc_ok s)
    \<and> bytes_consumed fc' = bytes_consumed fc \<and> receive_window_size fc \<le> receive_window_size fc'
    \<and> receive_window_size fc' div 2 \<le> receive_window_offset fc' - bytes_consumed fc'
    \<and> (if receive_window_size fc div 2 \<le> receive_window_offset fc - bytes_consumed fc
       then receive_window_offset fc' = receive_window_offset fc \<and> acts = []
       else receive_window_offset fc' = bytes_consumed fc' + receive_window_size fc'
         \<and> receive_window_offset fc < receive_window_offset fc'
         \<and> (\<exists>acts0. acts = acts0 @ SendWindowUpdate env fc'))"
proof -
  let ?avail = "receive_window_offset fc - bytes_consumed fc"
  define fc1 where "fc1 = (if prev_window_update_time fc = 0 then fc\<lparr>prev_window_update_time := env_now env\<rparr> else fc)"
  have ok1: "fc_ok fc1" using assms(1) by (simp add: fc1_def fc_defs)
  have same: "receive_window_offset fc1 = receive_window_offset fc" "bytes_consumed fc1 = bytes_consumed fc"
    "receive_window_size fc1 = receive_window_size fc" by (simp_all add: fc1_def)
  note unf = MaybeSendWindowUpdate_def available_window_eq [OF assms(1)] WindowUpdateThreshold_def
    fc1_def [symmetric] Let_def
  show ?thesis
  proof (cases "receive_window_size fc div 2 \<le> ?avail")
    case True
    with assms(3) have "fc' = fc1" "session_fc' = session_fc" "acts = []"
      unfolding unf by auto
    with True ok1 same assms(2) show ?thesis by simp
  next
    case False
    obtain fc2 s2 acts2 where inc: "MaybeIncreaseMaxWindowSize env fc1 session_fc = (fc2, s2, acts2)"
      by (cases "MaybeIncreaseMaxWindowSize env fc1 session_fc")
    have f2: "fc_ok fc2" "\<forall>s. s2 = Some s \<longrightarrow> fc_ok s" "receive_window_size fc \<le> receive_window_size fc2"
      "receive_window_offset fc2 = receive_window_offset fc" "bytes_consumed fc2 = bytes_consumed fc"
      using MaybeIncreaseMaxWindowSize_facts [OF ok1 assms(2) inc] same by auto
    obtain fc3 acts3 where upd: "UpdateReceiveWindowOffsetAndSendWindowUpdate env fc2 ?avail = (fc3, acts3)"
      by fastforce
    have r: "fc' = fc3" "session_fc' = s2" "acts = acts2 @ acts3"
      using assms(3) False inc upd unfolding unf by auto
    have full: "fc' = fc2\<lparr>receive_window_offset := bytes_consumed fc2 + receive_window_size fc2\<rparr>"
      "fc_ok fc'" "acts3 = SendWindowUpdate env fc'"
      using UpdateReceiveWindow_full [OF f2(1), of env fc3 acts3] upd f2(4,5) r by auto
    have "receive_window_offset fc < bytes_consumed fc + receive_window_size fc"
      using False assms(1) by (auto simp: fc_defs)
    with full f2 r(2,3) False show ?thesis by auto
  qed
qed

section \<open>Runs\<close>

text \<open>
  One call on a stream's controller, with the session's controller beside it. The side conditions are
  what the callers guarantee: consumed bytes were received inside the window and offsets stay below
  \<open>2 ^ 62\<close>.
\<close>

inductive fc_step ::
    "QuicFlowController \<times> QuicFlowController option \<Rightarrow> QuicFlowController \<times> QuicFlowController option \<Rightarrow> bool"
  where
  fc_sent: "fc_step (fc, s) (fst (AddBytesSent fc n), s)"
| fc_blocked: "fc_step (fc, s) (snd (ShouldSendBlocked fc), s)"
| fc_window: "w < 2 ^ 64 \<Longrightarrow> fc_step (fc, s) (snd (UpdateSendWindowOffset fc w), s)"
| fc_received: "fc_step (fc, s) (snd (UpdateHighestReceivedOffset fc off), s)"
| fc_consumed: "bytes_consumed fc + n \<le> receive_window_offset fc \<Longrightarrow> bytes_consumed fc + n < 2 ^ 62 \<Longrightarrow>
    AddBytesConsumed env fc s n = (fc', s', acts) \<Longrightarrow> fc_step (fc, s) (fc', s')"
| fc_ensure: "fc_step (fc, s) (fst (EnsureWindowAtLeast env fc w), s)"
| fc_limit: "receive_window_size_limit fc \<le> l \<Longrightarrow> l < 2 ^ 62 \<Longrightarrow>
    fc_step (fc, s) (set_receive_window_size_limit fc l, s)"
| fc_size: "bytes_consumed fc \<le> sz \<Longrightarrow> sz \<le> receive_window_size_limit fc \<Longrightarrow>
    fc_step (fc, s) (fst (UpdateReceiveWindowSize fc sz), s)"

definition fc_pair_ok :: "QuicFlowController \<times> QuicFlowController option \<Rightarrow> bool" where
  "fc_pair_ok p \<longleftrightarrow> fc_ok (fst p) \<and> (\<forall>s. snd p = Some s \<longrightarrow> fc_ok s)"

text \<open>Consuming bytes inside the window moves the left edge of the window and keeps the invariant.\<close>

lemma consume_ok:
  assumes "fc_ok fc" "bytes_consumed fc + n \<le> receive_window_offset fc" "bytes_consumed fc + n < 2 ^ 62"
  shows "fc_ok (fc\<lparr>bytes_consumed := bytes_consumed fc + n\<rparr>)
    \<and> u64_add (bytes_consumed fc) n = bytes_consumed fc + n"
  using assms by (auto simp: fc_defs u64_add_small)

lemma AddBytesConsumed_facts:
  assumes "fc_ok fc" "\<forall>s. session_fc = Some s \<longrightarrow> fc_ok s"
    and "bytes_consumed fc + n \<le> receive_window_offset fc" "bytes_consumed fc + n < 2 ^ 62"
    and "AddBytesConsumed env fc session_fc n = (fc', session_fc', acts)"
  shows "fc_ok fc' \<and> (\<forall>s. session_fc' = Some s \<longrightarrow> fc_ok s)
    \<and> bytes_consumed fc' = bytes_consumed fc + n \<and> receive_window_size fc \<le> receive_window_size fc'
    \<and> receive_window_size fc' div 2 \<le> receive_window_offset fc' - bytes_consumed fc'
    \<and> (if receive_window_size fc div 2 \<le> receive_window_offset fc - (bytes_consumed fc + n)
       then receive_window_offset fc' = receive_window_offset fc \<and> acts = []
       else receive_window_offset fc' = bytes_consumed fc' + receive_window_size fc'
         \<and> receive_window_offset fc < receive_window_offset fc'
         \<and> (\<exists>acts0. acts = acts0 @ SendWindowUpdate env fc'))"
proof -
  let ?fc = "fc\<lparr>bytes_consumed := bytes_consumed fc + n\<rparr>"
  have "MaybeSendWindowUpdate env ?fc session_fc = (fc', session_fc', acts)" "fc_ok ?fc"
    using consume_ok [OF assms(1,3,4)] assms(5) by (simp_all add: AddBytesConsumed_def)
  from MaybeSendWindowUpdate_facts [OF this(2) assms(2) this(1)] show ?thesis
    by (cases "receive_window_size fc div 2 \<le> receive_window_offset fc - (bytes_consumed fc + n)") auto
qed

lemma fc_step_ok: "fc_step p p' \<Longrightarrow> fc_pair_ok p \<Longrightarrow> fc_pair_ok p'"
proof (induction rule: fc_step.induct)
  case (fc_consumed fc n env s fc' s' acts)
  then show ?case
    using AddBytesConsumed_facts [of fc s n env fc' s' acts] by (auto simp: fc_pair_ok_def)
qed (auto simp: fc_pair_ok_def AddBytesSent_ok ShouldSendBlocked_ok UpdateSendWindowOffset_ok
    UpdateHighestReceivedOffset_ok EnsureWindowAtLeast_ok set_receive_window_size_limit_ok
    UpdateReceiveWindowSize_ok)

lemma new_fc_ok:
  "send_offset < 2 ^ 64 \<Longrightarrow> receive_offset \<le> size_limit \<Longrightarrow> size_limit < 2 ^ 62 \<Longrightarrow>
     fc_ok (new_QuicFlowController i c send_offset receive_offset size_limit a)"
  by (simp add: new_QuicFlowController_def fc_defs)

text \<open>
  C20: The invariant of the flow controller. From a new controller (with the controller of its session,
  if any), after any sequence of calls: the bytes sent never exceed the window granted by the peer,
  the window offered to the peer never exceeds the window size, which never exceeds its limit, and the
  consumed bytes never pass the offset offered.
\<close>

theorem flow_controller_invariant:
  assumes "fc_step\<^sup>*\<^sup>* (new_QuicFlowController i c send_offset receive_offset size_limit a, s) (fc, s')"
    and "send_offset < 2 ^ 64" "receive_offset \<le> size_limit" "size_limit < 2 ^ 62"
    and "\<forall>f. s = Some f \<longrightarrow> fc_ok f"
  shows "bytes_sent fc \<le> send_window_offset fc
    \<and> bytes_consumed fc \<le> receive_window_offset fc
    \<and> receive_window_offset fc - bytes_consumed fc \<le> receive_window_size fc
    \<and> receive_window_size fc \<le> receive_window_size_limit fc"
proof -
  have "fc_pair_ok (fc, s')"
    using assms(1)
  proof (induction rule: rtranclp_induct)
    case base
    then show ?case using new_fc_ok [OF assms(2-4)] assms(5) by (simp add: fc_pair_ok_def)
  next
    case (step y z)
    then show ?case using fc_step_ok by blast
  qed
  then show ?thesis by (simp add: fc_pair_ok_def fc_defs)
qed

definition example_fc_env :: fc_env where
  "example_fc_env = \<lparr> env_now = 1000, env_smoothed_rtt = 100, env_invalid_stream_id = 0 \<rparr>"

theorem flow_controller_invariant_witness:
  "fc_step\<^sup>*\<^sup>* (new_QuicFlowController 5 False 100 64 1000 True, None)
     (fst (AddBytesSent (new_QuicFlowController 5 False 100 64 1000 True) 30), None)
   \<and> bytes_sent (fst (AddBytesSent (new_QuicFlowController 5 False 100 64 1000 True) 30)) = 30
   \<and> bytes_sent (fst (AddBytesSent (new_QuicFlowController 5 False 100 64 1000 True) 30)) \<le> 100"
proof -
  let ?fc = "new_QuicFlowController 5 False 100 64 1000 True"
  have step: "fc_step\<^sup>*\<^sup>* (?fc, None) (fst (AddBytesSent ?fc 30), None)"
    using fc_sent by blast
  have "send_window_offset (fst (AddBytesSent ?fc 30)) = 100" "bytes_sent (fst (AddBytesSent ?fc 30)) = 30"
    by (simp_all add: AddBytesSent_def new_QuicFlowController_def u64_add_def)
  with step flow_controller_invariant [OF step] show ?thesis by simp
qed

text \<open>
  C29: Consuming bytes keeps the window open. After \<open>AddBytesConsumed\<close> on a controller that satisfies
  the invariant, the peer may still send at least half a window; no frame is sent while that is so
  without one, and otherwise the offset grows to a full window behind the consumed bytes and the last
  frame sent announces exactly the new offset.
\<close>

theorem flow_controller_window_stays_open:
  assumes "fc_ok fc" "\<forall>s. session_fc = Some s \<longrightarrow> fc_ok s"
    and "bytes_consumed fc + n \<le> receive_window_offset fc" "bytes_consumed fc + n < 2 ^ 62"
    and "AddBytesConsumed env fc session_fc n = (fc', session_fc', acts)"
  shows "receive_window_size fc' div 2 \<le> receive_window_offset fc' - bytes_consumed fc'
    \<and> bytes_consumed fc' = bytes_consumed fc + n
    \<and> (if receive_window_size fc div 2 \<le> receive_window_offset fc - (bytes_consumed fc + n)
       then receive_window_offset fc' = receive_window_offset fc \<and> acts = []
       else receive_window_offset fc' = bytes_consumed fc' + receive_window_size fc'
         \<and> receive_window_offset fc < receive_window_offset fc'
         \<and> (\<exists>acts0. acts = acts0 @ SendWindowUpdate env fc'))"
  using AddBytesConsumed_facts [OF assms] by blast

theorem flow_controller_window_stays_open_witness:
  "\<exists>fc' acts. AddBytesConsumed example_fc_env (new_QuicFlowController 5 False 100 64 1000 True) None 40
       = (fc', None, acts)
     \<and> receive_window_size fc' = 128 \<and> receive_window_offset fc' = 168
     \<and> acts = [SendWindowUpdate_action 5 168]
     \<and> receive_window_size fc' div 2 \<le> receive_window_offset fc' - bytes_consumed fc'"
proof -
  let ?fc = "new_QuicFlowController 5 False 100 64 1000 True"
  obtain fc' s' acts where run: "AddBytesConsumed example_fc_env ?fc None 40 = (fc', s', acts)"
    by (cases "AddBytesConsumed example_fc_env ?fc None 40")
  have ok: "fc_ok ?fc" by (rule new_fc_ok) simp_all
  have "s' = None \<and> receive_window_size fc' = 128 \<and> receive_window_offset fc' = 168
      \<and> acts = [SendWindowUpdate_action 5 168]"
    using run
    by (auto simp: AddBytesConsumed_def MaybeSendWindowUpdate_def MaybeIncreaseMaxWindowSize_def
      UpdateReceiveWindowOffsetAndSendWindowUpdate_def SendWindowUpdate_def IncreaseWindowSize_def
      new_QuicFlowController_def example_fc_env_def WindowUpdateThreshold_def u64_add_def u64_sub_def
      Let_def)
  with run flow_controller_window_stays_open [OF ok _ _ _ run] show ?thesis
    by (auto simp: new_QuicFlowController_def)
qed



lemma float32_round_small: "n < 2 ^ 24 \<Longrightarrow> float32_round n = n"
proof -
  assume n: "n < 2 ^ 24"
  have "[0..<64] = 0 # [Suc 0..<64]" by (simp add: upt_conv_Cons)
  with n show ?thesis by (simp add: float32_round_def)
qed


section \<open>What receiving leaves alone\<close>

text \<open>
  An operation of the receiving half does not touch the sending half, the highest offset received or the limit,
  and never takes back what it has offered to the peer.
\<close>

definition fc_grows :: "QuicFlowController \<Rightarrow> QuicFlowController \<Rightarrow> bool" where
  "fc_grows fc fc' \<longleftrightarrow> fc_id fc' = fc_id fc \<and> bytes_sent fc' = bytes_sent fc \<and> send_window_offset fc' = send_window_offset fc
     \<and> last_blocked_send_window_offset fc' = last_blocked_send_window_offset fc
     \<and> highest_received_byte_offset fc' = highest_received_byte_offset fc
     \<and> receive_window_size_limit fc' = receive_window_size_limit fc \<and> receive_window_offset fc \<le> receive_window_offset fc'"

lemma fc_grows_refl: "fc_grows fc fc"
  by (simp add: fc_grows_def)

lemma fc_grows_trans: "fc_grows a b \<Longrightarrow> fc_grows b c \<Longrightarrow> fc_grows a c"
  by (simp add: fc_grows_def)

lemma UpdateReceiveWindow_grows:
  assumes "fc_ok fc" "avail = receive_window_offset fc - bytes_consumed fc"
  shows "fc_grows fc (fst (UpdateReceiveWindowOffsetAndSendWindowUpdate env fc avail))
    \<and> bytes_consumed (fst (UpdateReceiveWindowOffsetAndSendWindowUpdate env fc avail)) = bytes_consumed fc"
proof -
  obtain fc' acts where u: "UpdateReceiveWindowOffsetAndSendWindowUpdate env fc avail = (fc', acts)" by fastforce
  from UpdateReceiveWindow_full [OF assms(1) this [unfolded assms(2)]] assms(1) u show ?thesis
    by (auto simp: fc_grows_def fc_defs)
qed

lemma IncreaseWindowSize_grows:
  "fc_grows fc (IncreaseWindowSize fc)" "bytes_consumed (IncreaseWindowSize fc) = bytes_consumed fc"
  "receive_window_offset (IncreaseWindowSize fc) = receive_window_offset fc"
  by (simp_all add: fc_grows_def IncreaseWindowSize_def Let_def)

lemma EnsureWindowAtLeast_grows:
  assumes "fc_ok fc"
  shows "fc_grows fc (fst (EnsureWindowAtLeast env fc w)) \<and> bytes_consumed (fst (EnsureWindowAtLeast env fc w)) = bytes_consumed fc"
proof (cases "receive_window_size_limit fc \<ge> w")
  case True
  then show ?thesis by (simp add: EnsureWindowAtLeast_def fc_grows_refl)
next
  case False
  have ok: "fc_ok (IncreaseWindowSize fc)" using IncreaseWindowSize_ok [OF assms] by blast
  note inc = IncreaseWindowSize_grows [of fc]
  have "fc_grows (IncreaseWindowSize fc) (fst (EnsureWindowAtLeast env fc w))
    \<and> bytes_consumed (fst (EnsureWindowAtLeast env fc w)) = bytes_consumed (IncreaseWindowSize fc)"
    using UpdateReceiveWindow_grows [OF ok refl, of env] False inc
    by (simp add: EnsureWindowAtLeast_def Let_def available_window_eq [OF assms])
  then show ?thesis using fc_grows_trans [OF inc(1)] inc(2) by simp
qed

definition session_grows :: "QuicFlowController option \<Rightarrow> QuicFlowController option \<Rightarrow> bool" where
  "session_grows s s' \<longleftrightarrow> (case s of None \<Rightarrow> s' = None
     | Some f \<Rightarrow> (\<exists>f'. s' = Some f' \<and> fc_grows f f' \<and> bytes_consumed f' = bytes_consumed f))"

lemma session_grows_refl: "session_grows s s"
  by (simp add: session_grows_def fc_grows_refl split: option.splits)

lemma MaybeIncreaseMaxWindowSize_grows:
  assumes "fc_ok fc" and "\<forall>s. session_fc = Some s \<longrightarrow> fc_ok s"
    and "MaybeIncreaseMaxWindowSize env fc session_fc = (fc', session_fc', acts)"
  shows "fc_grows fc fc' \<and> session_grows session_fc session_fc'"
proof -
  let ?fc1 = "fc\<lparr>prev_window_update_time := env_now env\<rparr>" and ?fc2 = "IncreaseWindowSize (fc\<lparr>prev_window_update_time := env_now env\<rparr>)"
  have g1: "fc_grows fc ?fc1" by (simp add: fc_grows_def)
  have g2: "fc_grows fc ?fc2" using fc_grows_trans [OF g1 IncreaseWindowSize_grows(1)] .
  have sess: "session_grows (Some s) (Some s1)" if "session_fc = Some s" "EnsureWindowAtLeast env s w = (s1, a)" for s s1 w a
    using EnsureWindowAtLeast_grows [of s env w] assms(2) that by (auto simp: session_grows_def)
  show ?thesis
    using assms(3) g1 g2 session_grows_refl sess unfolding MaybeIncreaseMaxWindowSize_def Let_def
    by (auto split: if_splits option.splits prod.splits)
qed

lemma AddBytesConsumed_grows:
  assumes ok: "fc_ok fc" "\<forall>s. session_fc = Some s \<longrightarrow> fc_ok s"
    and n: "bytes_consumed fc + n \<le> receive_window_offset fc" "bytes_consumed fc + n < 2 ^ 62"
    and r: "AddBytesConsumed env fc session_fc n = (fc', session_fc', acts)"
  shows "fc_grows fc fc' \<and> session_grows session_fc session_fc'"
proof -
  let ?fc = "fc\<lparr>bytes_consumed := bytes_consumed fc + n\<rparr>"
  let ?fc1 = "if prev_window_update_time ?fc = 0 then ?fc\<lparr>prev_window_update_time := env_now env\<rparr> else ?fc"
  have okc: "fc_ok ?fc" and add: "u64_add (bytes_consumed fc) n = bytes_consumed fc + n"
    using consume_ok [OF ok(1) n] by simp_all
  have ok1: "fc_ok ?fc1" using okc by (simp add: fc_defs)
  have g1: "fc_grows fc ?fc1" by (simp add: fc_grows_def)
  let ?avail = "receive_window_offset ?fc1 - bytes_consumed ?fc1"
  have av: "u64_sub (receive_window_offset ?fc) (bytes_consumed ?fc) = ?avail" using available_window_eq [OF okc] by simp
  obtain fc2 s2 acts2 where inc: "MaybeIncreaseMaxWindowSize env ?fc1 session_fc = (fc2, s2, acts2)"
    by (cases "MaybeIncreaseMaxWindowSize env ?fc1 session_fc")
  note i = MaybeIncreaseMaxWindowSize_grows [OF ok1 ok(2) inc] and f = MaybeIncreaseMaxWindowSize_facts [OF ok1 ok(2) inc]
  have u: "fc_grows fc2 (fst (UpdateReceiveWindowOffsetAndSendWindowUpdate env fc2 ?avail))"
    using UpdateReceiveWindow_grows [of fc2 ?avail env] f by auto
  have "AddBytesConsumed env fc session_fc n =
      (if ?avail \<ge> WindowUpdateThreshold ?fc then (?fc1, session_fc, [])
       else let (fc3, acts') = UpdateReceiveWindowOffsetAndSendWindowUpdate env fc2 ?avail in (fc3, s2, acts2 @ acts'))"
    unfolding AddBytesConsumed_def add MaybeSendWindowUpdate_def Let_def av inc by simp
  then show ?thesis
    using r g1 i fc_grows_trans [OF fc_grows_trans [OF g1 conjunct1 [OF i]] u] session_grows_refl
    by (auto split: if_splits prod.splits)
qed

end
