(* ===== verification/Quic_Versions.thy ===== *)
theory Quic_Versions
  imports Quic_Prelude
begin

text \<open>
  Versions, perspectives and the arithmetic of stream identifiers: the predicates on transport versions
  of src/quic/core/quic_versions.h and the stream id helpers of src/quic/core/quic_utils.cc. A version
  is the number of its enumerator; identifiers and counts of streams are 32-bit values kept as natural
  numbers.
\<close>

section \<open>Versions and perspectives\<close>

type_synonym QuicTransportVersion = nat

definition VersionHasIetfInvariantHeader :: "QuicTransportVersion \<Rightarrow> bool" where
  "VersionHasIetfInvariantHeader v \<longleftrightarrow> v > 43"

definition VersionSupportsMessageFrames :: "QuicTransportVersion \<Rightarrow> bool" where
  "VersionSupportsMessageFrames v \<longleftrightarrow> v > 44"

definition QuicVersionHasLongHeaderLengths :: "QuicTransportVersion \<Rightarrow> bool" where
  "QuicVersionHasLongHeaderLengths v \<longleftrightarrow> v = 99"

definition QuicVersionUsesCryptoFrames :: "QuicTransportVersion \<Rightarrow> bool" where
  "QuicVersionUsesCryptoFrames v \<longleftrightarrow> v \<ge> 48"

definition VersionHasIetfQuicFrames :: "QuicTransportVersion \<Rightarrow> bool" where
  "VersionHasIetfQuicFrames v \<longleftrightarrow> v \<ge> 99"

datatype Perspective = IS_SERVER | IS_CLIENT

definition InvertPerspective :: "Perspective \<Rightarrow> Perspective" where
  "InvertPerspective p = (if p = IS_CLIENT then IS_SERVER else IS_CLIENT)"

section \<open>32-bit arithmetic\<close>

definition U32_MAX :: nat where
  "U32_MAX = 2 ^ 32 - 1"

definition u32_add :: "nat \<Rightarrow> nat \<Rightarrow> nat" where
  "u32_add a b = (a + b) mod 2 ^ 32"

definition u32_sub :: "nat \<Rightarrow> nat \<Rightarrow> nat" where
  "u32_sub a b = (a + (2 ^ 32 - b mod 2 ^ 32)) mod 2 ^ 32"

lemma u32_add_small: "a + b < 2 ^ 32 \<Longrightarrow> u32_add a b = a + b"
  by (simp add: u32_add_def)

lemma u32_sub_small: "b \<le> a \<Longrightarrow> a < 2 ^ 32 \<Longrightarrow> u32_sub a b = a - b"
  by (simp add: u32_sub_def mod_if)

section \<open>Stream identifiers\<close>

type_synonym QuicStreamId = nat
type_synonym QuicStreamCount = nat

datatype StreamType = BIDIRECTIONAL | WRITE_UNIDIRECTIONAL | READ_UNIDIRECTIONAL | CRYPTO

definition kMaxQuicStreamCount :: QuicStreamCount where
  "kMaxQuicStreamCount = U32_MAX"

definition GetInvalidStreamId :: "QuicTransportVersion \<Rightarrow> QuicStreamId" where
  "GetInvalidStreamId v = (if VersionHasIetfQuicFrames v then U32_MAX else 0)"

definition GetCryptoStreamId :: "QuicTransportVersion \<Rightarrow> QuicStreamId" where
  "GetCryptoStreamId v = (if QuicVersionUsesCryptoFrames v then GetInvalidStreamId v else 1)"

definition IsCryptoStreamId :: "QuicTransportVersion \<Rightarrow> QuicStreamId \<Rightarrow> bool" where
  "IsCryptoStreamId v i = (if QuicVersionUsesCryptoFrames v then False else i = GetCryptoStreamId v)"

definition IsClientInitiatedStreamId :: "QuicTransportVersion \<Rightarrow> QuicStreamId \<Rightarrow> bool" where
  "IsClientInitiatedStreamId v i =
     (if i = GetInvalidStreamId v then False
      else if VersionHasIetfQuicFrames v then i mod 2 = 0 else i mod 2 \<noteq> 0)"

definition IsServerInitiatedStreamId :: "QuicTransportVersion \<Rightarrow> QuicStreamId \<Rightarrow> bool" where
  "IsServerInitiatedStreamId v i =
     (if i = GetInvalidStreamId v then False
      else if VersionHasIetfQuicFrames v then i mod 2 \<noteq> 0 else i mod 2 = 0)"

definition IsBidirectionalStreamId :: "QuicStreamId \<Rightarrow> bool" where
  "IsBidirectionalStreamId i \<longleftrightarrow> i mod 4 < 2"

definition GetStreamType :: "QuicStreamId \<Rightarrow> Perspective \<Rightarrow> bool \<Rightarrow> StreamType" where
  "GetStreamType i perspective peer_initiated =
     (if IsBidirectionalStreamId i then BIDIRECTIONAL
      else if peer_initiated then READ_UNIDIRECTIONAL
      else WRITE_UNIDIRECTIONAL)"

definition StreamIdDelta :: "QuicTransportVersion \<Rightarrow> nat" where
  "StreamIdDelta v = (if VersionHasIetfQuicFrames v then 4 else 2)"

definition GetFirstBidirectionalStreamId :: "QuicTransportVersion \<Rightarrow> Perspective \<Rightarrow> QuicStreamId" where
  "GetFirstBidirectionalStreamId v p =
     (if VersionHasIetfQuicFrames v then (if p = IS_CLIENT then 0 else 1)
      else if QuicVersionUsesCryptoFrames v then (if p = IS_CLIENT then 1 else 2)
      else (if p = IS_CLIENT then 3 else 2))"

definition GetFirstUnidirectionalStreamId :: "QuicTransportVersion \<Rightarrow> Perspective \<Rightarrow> QuicStreamId" where
  "GetFirstUnidirectionalStreamId v p =
     (if VersionHasIetfQuicFrames v then (if p = IS_CLIENT then 2 else 3)
      else if QuicVersionUsesCryptoFrames v then (if p = IS_CLIENT then 1 else 2)
      else (if p = IS_CLIENT then 3 else 2))"

definition GetMaxStreamCount :: "bool \<Rightarrow> Perspective \<Rightarrow> QuicStreamCount" where
  "GetMaxStreamCount unidirectional p =
     (if \<not> unidirectional \<and> p = IS_CLIENT then kMaxQuicStreamCount div 4
      else kMaxQuicStreamCount div 4 + 1)"

definition VariableLengthConnectionIdAllowedForVersion :: "QuicTransportVersion \<Rightarrow> bool" where
  "VariableLengthConnectionIdAllowedForVersion v \<longleftrightarrow> v \<ge> 47 \<or> v = 0"

section \<open>Facts\<close>

lemma GetMaxStreamCount_bound: "GetMaxStreamCount u p \<le> 2 ^ 30" "0 < GetMaxStreamCount u p"
  by (simp_all add: GetMaxStreamCount_def kMaxQuicStreamCount_def U32_MAX_def)

text \<open>The four kinds of stream ids are told apart by their two low bits.\<close>

lemma first_stream_id_class:
  assumes "VersionHasIetfQuicFrames v"
  shows "GetFirstBidirectionalStreamId v p mod 4 = (if p = IS_CLIENT then 0 else 1)"
    and "GetFirstUnidirectionalStreamId v p mod 4 = (if p = IS_CLIENT then 2 else 3)"
  using assms by (simp_all add: GetFirstBidirectionalStreamId_def GetFirstUnidirectionalStreamId_def)

lemma initiator_exclusive:
  "i \<noteq> GetInvalidStreamId v \<Longrightarrow> IsClientInitiatedStreamId v i \<longleftrightarrow> \<not> IsServerInitiatedStreamId v i"
  by (simp add: IsClientInitiatedStreamId_def IsServerInitiatedStreamId_def)

end
