(* ===== verification/Quic_Stream_Id_Manager.thy ===== *)
theory Quic_Stream_Id_Manager
  imports Quic_Versions
begin

text \<open>
  The model of \<open>QuicStreamIdManager\<close> (src/quic/core/quic_stream_id_manager.cc): the limits on streams
  that this endpoint and its peer may open. Counts and identifiers are 32-bit values with the
  wrap-around written out, parameters of type \<open>size_t\<close> 64-bit ones. What a call asks of the session
  and the connection is the list of actions it returns.
\<close>

section \<open>State\<close>

record QuicStreamIdManager =
  sim_version :: QuicTransportVersion
  sim_perspective :: Perspective
  unidirectional :: bool
  outgoing_max_streams :: QuicStreamCount
  next_outgoing_stream_id :: QuicStreamId
  outgoing_stream_count :: QuicStreamCount
  outgoing_static_stream_count :: QuicStreamCount
  using_default_max_streams :: bool
  incoming_actual_max_streams :: QuicStreamCount
  incoming_advertised_max_streams :: QuicStreamCount
  incoming_initial_max_open_streams :: QuicStreamCount
  incoming_static_stream_count :: QuicStreamCount
  incoming_stream_count :: QuicStreamCount
  available_streams :: "QuicStreamId set"
  largest_peer_created_stream_id :: QuicStreamId
  max_streams_window :: QuicStreamCount

datatype sim_error = QUIC_STREAMS_BLOCKED_ERROR | QUIC_MAX_STREAMS_ERROR | QUIC_INVALID_STREAM_ID

datatype sim_action =
    SendMaxStreams QuicStreamCount bool
  | SendStreamsBlocked QuicStreamCount bool
  | OnCanCreateNewOutgoingStream
  | CloseConnection sim_error

definition sim_max :: "QuicStreamIdManager \<Rightarrow> QuicStreamCount" where
  "sim_max m = GetMaxStreamCount (unidirectional m) (sim_perspective m)"

definition first_stream_id :: "QuicTransportVersion \<Rightarrow> bool \<Rightarrow> Perspective \<Rightarrow> QuicStreamId" where
  "first_stream_id v uni p =
     (if uni then GetFirstUnidirectionalStreamId v p else GetFirstBidirectionalStreamId v p)"

definition GetFirstOutgoingStreamId :: "QuicStreamIdManager \<Rightarrow> QuicStreamId" where
  "GetFirstOutgoingStreamId m = first_stream_id (sim_version m) (unidirectional m) (sim_perspective m)"

definition GetFirstIncomingStreamId :: "QuicStreamIdManager \<Rightarrow> QuicStreamId" where
  "GetFirstIncomingStreamId m =
     first_stream_id (sim_version m) (unidirectional m) (InvertPerspective (sim_perspective m))"

definition kMaxStreamsWindowDivisor :: nat where
  "kMaxStreamsWindowDivisor = 2"

definition CalculateIncomingMaxStreamsWindow :: "QuicStreamIdManager \<Rightarrow> QuicStreamIdManager" where
  "CalculateIncomingMaxStreamsWindow m =
     (let w = incoming_actual_max_streams m div kMaxStreamsWindowDivisor
      in m\<lparr>max_streams_window := (if w = 0 then 1 else w)\<rparr>)"

definition new_QuicStreamIdManager ::
    "QuicTransportVersion \<Rightarrow> Perspective \<Rightarrow> bool \<Rightarrow> QuicStreamCount \<Rightarrow> QuicStreamCount \<Rightarrow> QuicStreamIdManager"
  where
  "new_QuicStreamIdManager v p uni max_out max_in =
     CalculateIncomingMaxStreamsWindow
       \<lparr> sim_version = v, sim_perspective = p, unidirectional = uni,
         outgoing_max_streams = max_out, next_outgoing_stream_id = first_stream_id v uni p,
         outgoing_stream_count = 0, outgoing_static_stream_count = 0,
         using_default_max_streams = True, incoming_actual_max_streams = max_in,
         incoming_advertised_max_streams = max_in, incoming_initial_max_open_streams = max_in,
         incoming_static_stream_count = 0, incoming_stream_count = 0, available_streams = {},
         largest_peer_created_stream_id = GetInvalidStreamId v, max_streams_window = 0 \<rparr>"

section \<open>Outgoing streams\<close>

definition ConfigureMaxOpenOutgoingStreams ::
    "QuicStreamIdManager \<Rightarrow> nat \<Rightarrow> bool \<times> QuicStreamIdManager \<times> sim_action list" where
  "ConfigureMaxOpenOutgoingStreams m max_open_streams =
     (if using_default_max_streams m \<and> max_open_streams < outgoing_stream_count m
      then (False, m, [CloseConnection QUIC_MAX_STREAMS_ERROR])
      else if \<not> using_default_max_streams m \<and> max_open_streams \<le> outgoing_max_streams m
      then (True, m, [])
      else (True, m\<lparr>using_default_max_streams := False,
                    outgoing_max_streams := min max_open_streams (sim_max m)\<rparr>, []))"

definition OnMaxStreamsFrame ::
    "QuicStreamIdManager \<Rightarrow> QuicStreamCount \<Rightarrow> bool \<times> QuicStreamIdManager \<times> sim_action list" where
  "OnMaxStreamsFrame m stream_count =
     (let current_outgoing_max_streams = outgoing_max_streams m;
          (ok, m1, acts) = ConfigureMaxOpenOutgoingStreams m stream_count
      in if \<not> ok then (False, m1, acts)
         else if outgoing_stream_count m1 = current_outgoing_max_streams
                 \<and> current_outgoing_max_streams < outgoing_max_streams m1
         then (True, m1, acts @ [OnCanCreateNewOutgoingStream])
         else (True, m1, acts))"

definition AdjustMaxOpenOutgoingStreams ::
    "QuicStreamIdManager \<Rightarrow> nat \<Rightarrow> QuicStreamIdManager \<times> sim_action list" where
  "AdjustMaxOpenOutgoingStreams m max_open_streams =
     (if u64_add (outgoing_static_stream_count m) max_open_streams < max_open_streams
      then snd (ConfigureMaxOpenOutgoingStreams m (sim_max m))
      else snd (ConfigureMaxOpenOutgoingStreams m
             (u64_add (outgoing_static_stream_count m) max_open_streams)))"

definition SetMaxOpenOutgoingStreams ::
    "QuicStreamIdManager \<Rightarrow> nat \<Rightarrow> QuicStreamIdManager \<times> sim_action list" where
  "SetMaxOpenOutgoingStreams m max_open_streams = AdjustMaxOpenOutgoingStreams m max_open_streams"

definition GetNextOutgoingStreamId :: "QuicStreamIdManager \<Rightarrow> QuicStreamId \<times> QuicStreamIdManager" where
  "GetNextOutgoingStreamId m =
     (next_outgoing_stream_id m,
      m\<lparr>next_outgoing_stream_id := u32_add (next_outgoing_stream_id m) (StreamIdDelta (sim_version m)),
        outgoing_stream_count := u32_add (outgoing_stream_count m) 1\<rparr>)"

definition CanOpenNextOutgoingStream :: "QuicStreamIdManager \<Rightarrow> bool \<times> sim_action list" where
  "CanOpenNextOutgoingStream m =
     (if outgoing_stream_count m < outgoing_max_streams m then (True, [])
      else (False, [SendStreamsBlocked (outgoing_max_streams m) (unidirectional m)]))"

section \<open>Incoming streams\<close>

definition IsIncomingStream :: "QuicStreamIdManager \<Rightarrow> QuicStreamId \<Rightarrow> bool" where
  "IsIncomingStream m i \<longleftrightarrow> i mod 2 \<noteq> next_outgoing_stream_id m mod 2"

definition SendMaxStreamsFrame :: "QuicStreamIdManager \<Rightarrow> QuicStreamIdManager \<times> sim_action list" where
  "SendMaxStreamsFrame m =
     (m\<lparr>incoming_advertised_max_streams := incoming_actual_max_streams m\<rparr>,
      [SendMaxStreams (incoming_actual_max_streams m) (unidirectional m)])"

definition MaybeSendMaxStreamsFrame :: "QuicStreamIdManager \<Rightarrow> QuicStreamIdManager \<times> sim_action list" where
  "MaybeSendMaxStreamsFrame m =
     (if u32_sub (incoming_advertised_max_streams m) (incoming_stream_count m) > max_streams_window m
      then (m, []) else SendMaxStreamsFrame m)"

definition OnStreamsBlockedFrame ::
    "QuicStreamIdManager \<Rightarrow> QuicStreamCount \<Rightarrow> bool \<times> QuicStreamIdManager \<times> sim_action list" where
  "OnStreamsBlockedFrame m stream_count =
     (if stream_count > incoming_advertised_max_streams m
      then (False, m, [CloseConnection QUIC_STREAMS_BLOCKED_ERROR])
      else if stream_count < incoming_actual_max_streams m
      then (True, SendMaxStreamsFrame m)
      else (True, m, []))"

definition SetMaxOpenIncomingStreams ::
    "QuicStreamIdManager \<Rightarrow> nat \<Rightarrow> QuicStreamIdManager \<times> sim_action list" where
  "SetMaxOpenIncomingStreams m max_open_streams =
     (let implementation_max = sim_max m;
          new_max0 = min implementation_max
            (u64_add max_open_streams (incoming_static_stream_count m) mod 2 ^ 32);
          new_max = (if new_max0 < max_open_streams then implementation_max else new_max0)
      in if new_max < incoming_stream_count m
         then (m, [CloseConnection QUIC_MAX_STREAMS_ERROR])
         else (CalculateIncomingMaxStreamsWindow
                 (m\<lparr>incoming_actual_max_streams := new_max, incoming_advertised_max_streams := new_max,
                    incoming_initial_max_open_streams := min max_open_streams implementation_max\<rparr>), []))"

definition OnStreamClosed ::
    "QuicStreamIdManager \<Rightarrow> QuicStreamId \<Rightarrow> QuicStreamIdManager \<times> sim_action list" where
  "OnStreamClosed m stream_id =
     (if \<not> IsIncomingStream m stream_id then (m, [])
      else if incoming_actual_max_streams m = sim_max m then (m, [])
      else MaybeSendMaxStreamsFrame
             (m\<lparr>incoming_actual_max_streams := u32_add (incoming_actual_max_streams m) 1\<rparr>))"

definition RegisterStaticStream ::
    "QuicStreamIdManager \<Rightarrow> QuicStreamId \<Rightarrow> bool \<Rightarrow> bool \<times> QuicStreamIdManager" where
  "RegisterStaticStream m stream_id stream_already_counted =
     (if IsIncomingStream m stream_id
      then (if incoming_stream_count m \<ge> sim_max m then (False, m)
            else let m1 = (if incoming_actual_max_streams m < sim_max m
                           then m\<lparr>incoming_actual_max_streams := u32_add (incoming_actual_max_streams m) 1\<rparr>
                           else m);
                     m2 = (if incoming_advertised_max_streams m1 < sim_max m
                           then m1\<lparr>incoming_advertised_max_streams := u32_add (incoming_advertised_max_streams m1) 1\<rparr>
                           else m1);
                     m3 = (if \<not> stream_already_counted
                           then m2\<lparr>incoming_stream_count := u32_add (incoming_stream_count m2) 1\<rparr> else m2)
                 in (True, m3\<lparr>incoming_static_stream_count := u32_add (incoming_static_stream_count m3) 1\<rparr>))
      else if outgoing_max_streams m \<ge> sim_max m then (False, m)
      else (True, m\<lparr>outgoing_max_streams := u32_add (outgoing_max_streams m) 1,
                    outgoing_static_stream_count := u32_add (outgoing_static_stream_count m) 1\<rparr>))"

text \<open>The loop that makes the skipped ids available; it wraps at 32 bits like the id it counts.\<close>

partial_function (option) skipped_stream_ids ::
    "nat \<Rightarrow> QuicStreamId \<Rightarrow> QuicStreamId \<Rightarrow> QuicStreamId set \<Rightarrow> QuicStreamId set option" where
  "skipped_stream_ids delta i stream_id avail =
     (if i < stream_id then skipped_stream_ids delta (u32_add i delta) stream_id (insert i avail)
      else Some avail)"

definition MaybeIncreaseLargestPeerStreamId ::
    "QuicStreamIdManager \<Rightarrow> QuicStreamId \<Rightarrow> (bool \<times> QuicStreamIdManager \<times> sim_action list) option" where
  "MaybeIncreaseLargestPeerStreamId m stream_id =
     (let m1 = m\<lparr>available_streams := available_streams m - {stream_id}\<rparr>;
          invalid = GetInvalidStreamId (sim_version m);
          delta = StreamIdDelta (sim_version m);
          largest = largest_peer_created_stream_id m
      in if largest \<noteq> invalid \<and> stream_id \<le> largest then Some (True, m1, [])
         else let increment = (if largest \<noteq> invalid then u32_sub stream_id largest div delta
                 else u32_add (u32_sub stream_id (GetFirstIncomingStreamId m) div delta) 1)
              in if u32_add (incoming_stream_count m) increment > incoming_advertised_max_streams m
                    \<or> u32_add (incoming_stream_count m) increment < incoming_stream_count m
                 then Some (False, m1, [CloseConnection QUIC_INVALID_STREAM_ID])
                 else let first = (if largest \<noteq> invalid then u32_add largest delta
                                   else GetFirstIncomingStreamId m)
                      in map_option
                           (\<lambda>avail. (True, m1\<lparr>available_streams := avail,
                              incoming_stream_count := u32_add (incoming_stream_count m) increment,
                              largest_peer_created_stream_id := stream_id\<rparr>, []))
                           (skipped_stream_ids delta first stream_id (available_streams m1)))"

definition IsAvailableStream :: "QuicStreamIdManager \<Rightarrow> QuicStreamId \<Rightarrow> bool" where
  "IsAvailableStream m i =
     (if \<not> IsIncomingStream m i then i \<ge> next_outgoing_stream_id m
      else largest_peer_created_stream_id m = GetInvalidStreamId (sim_version m)
           \<or> i > largest_peer_created_stream_id m \<or> i \<in> available_streams m)"

definition available_incoming_streams :: "QuicStreamIdManager \<Rightarrow> nat" where
  "available_incoming_streams m =
     u32_sub (incoming_advertised_max_streams m) (incoming_stream_count m)"

section \<open>Invariant\<close>

definition sim_ok :: "QuicStreamIdManager \<Rightarrow> bool" where
  "sim_ok m \<longleftrightarrow> VersionHasIetfQuicFrames (sim_version m)
     \<and> incoming_stream_count m \<le> incoming_advertised_max_streams m
     \<and> incoming_advertised_max_streams m \<le> incoming_actual_max_streams m
     \<and> incoming_actual_max_streams m \<le> sim_max m
     \<and> outgoing_stream_count m \<le> outgoing_max_streams m \<and> outgoing_max_streams m \<le> sim_max m
     \<and> next_outgoing_stream_id m = (GetFirstOutgoingStreamId m + 4 * outgoing_stream_count m) mod 2 ^ 32"

lemma sim_max_bound: "sim_max m \<le> 2 ^ 30"
  by (simp only: sim_max_def GetMaxStreamCount_bound)

lemma sim_ok_bounds:
  assumes "sim_ok m"
  shows "incoming_stream_count m \<le> 2 ^ 30" "incoming_advertised_max_streams m \<le> 2 ^ 30"
    "incoming_actual_max_streams m \<le> 2 ^ 30" "outgoing_stream_count m \<le> 2 ^ 30"
    "outgoing_max_streams m \<le> 2 ^ 30"
  using assms sim_max_bound [of m] by (auto simp: sim_ok_def)

lemmas sim_consts = sim_max_def GetFirstOutgoingStreamId_def

lemma new_sim_ok:
  assumes "VersionHasIetfQuicFrames v" "max_out \<le> GetMaxStreamCount uni p" "max_in \<le> GetMaxStreamCount uni p"
  shows "sim_ok (new_QuicStreamIdManager v p uni max_out max_in)"
proof -
  have "first_stream_id v uni p < 2 ^ 32"
    by (simp add: first_stream_id_def GetFirstUnidirectionalStreamId_def GetFirstBidirectionalStreamId_def)
  with assms show ?thesis
    by (simp add: new_QuicStreamIdManager_def CalculateIncomingMaxStreamsWindow_def Let_def sim_ok_def sim_consts)
qed

lemma Configure_ok:
  "sim_ok m \<Longrightarrow> ConfigureMaxOpenOutgoingStreams m n = (ok, m', acts) \<Longrightarrow> sim_ok m'"
  by (auto simp: ConfigureMaxOpenOutgoingStreams_def sim_ok_def sim_consts split: if_splits)

lemma OnMaxStreamsFrame_ok:
  "sim_ok m \<Longrightarrow> OnMaxStreamsFrame m n = (ok, m', acts) \<Longrightarrow> sim_ok m'"
  by (auto simp: OnMaxStreamsFrame_def Let_def split: prod.splits if_splits intro: Configure_ok)

lemma AdjustMaxOpenOutgoingStreams_ok: "sim_ok m \<Longrightarrow> sim_ok (fst (AdjustMaxOpenOutgoingStreams m n))"
  using Configure_ok by (auto simp: AdjustMaxOpenOutgoingStreams_def) (metis prod.collapse)+

lemma GetNextOutgoingStreamId_ok:
  assumes "sim_ok m" "fst (CanOpenNextOutgoingStream m)"
  shows "sim_ok (snd (GetNextOutgoingStreamId m))
    \<and> fst (GetNextOutgoingStreamId m) = GetFirstOutgoingStreamId m + 4 * outgoing_stream_count m"
proof -
  have lt: "outgoing_stream_count m < outgoing_max_streams m"
    using assms(2) by (simp add: CanOpenNextOutgoingStream_def split: if_splits)
  then have c: "outgoing_stream_count m < 2 ^ 30" "u32_add (outgoing_stream_count m) 1 = outgoing_stream_count m + 1"
    using sim_ok_bounds [OF assms(1)] by (auto simp: u32_add_def)
  have f: "GetFirstOutgoingStreamId m \<le> 3"
    by (simp add: GetFirstOutgoingStreamId_def first_stream_id_def GetFirstUnidirectionalStreamId_def
      GetFirstBidirectionalStreamId_def)
  have "StreamIdDelta (sim_version m) = 4"
    using assms(1) by (simp add: StreamIdDelta_def sim_ok_def)
  moreover have "(next_outgoing_stream_id m + 4) mod 2 ^ 32 =
      (GetFirstOutgoingStreamId m + 4 * (outgoing_stream_count m + 1)) mod 2 ^ 32"
    using assms(1) by (simp add: sim_ok_def mod_simps algebra_simps)
  moreover have "GetFirstOutgoingStreamId m + 4 * outgoing_stream_count m < 2 ^ 32"
    using c(1) f by simp
  ultimately show ?thesis
    using assms(1) c lt
    by (auto simp: GetNextOutgoingStreamId_def sim_ok_def sim_consts u32_add_def algebra_simps)
qed

lemma SendMaxStreamsFrame_ok: "sim_ok m \<Longrightarrow> sim_ok (fst (SendMaxStreamsFrame m))"
  by (auto simp: SendMaxStreamsFrame_def sim_ok_def sim_consts)

lemma MaybeSendMaxStreamsFrame_ok: "sim_ok m \<Longrightarrow> sim_ok (fst (MaybeSendMaxStreamsFrame m))"
  by (simp add: MaybeSendMaxStreamsFrame_def SendMaxStreamsFrame_ok)

lemma OnStreamsBlockedFrame_ok: "sim_ok m \<Longrightarrow> sim_ok (fst (snd (OnStreamsBlockedFrame m n)))"
  by (simp add: OnStreamsBlockedFrame_def SendMaxStreamsFrame_ok)

lemma SetMaxOpenIncomingStreams_ok: "sim_ok m \<Longrightarrow> sim_ok (fst (SetMaxOpenIncomingStreams m n))"
  by (auto simp: SetMaxOpenIncomingStreams_def Let_def CalculateIncomingMaxStreamsWindow_def sim_ok_def sim_consts)

lemma OnStreamClosed_ok:
  assumes "sim_ok m"
  shows "sim_ok (fst (OnStreamClosed m i))"
proof -
  have "u32_add (incoming_actual_max_streams m) 1 = incoming_actual_max_streams m + 1"
    using sim_ok_bounds [OF assms] by (intro u32_add_small) simp
  moreover have "incoming_actual_max_streams m \<noteq> sim_max m \<Longrightarrow> incoming_actual_max_streams m + 1 \<le> sim_max m"
    using assms by (simp add: sim_ok_def)
  ultimately have "incoming_actual_max_streams m \<noteq> sim_max m \<Longrightarrow>
      sim_ok (m\<lparr>incoming_actual_max_streams := u32_add (incoming_actual_max_streams m) 1\<rparr>)"
    using assms by (simp add: sim_ok_def sim_consts)
  with assms show ?thesis by (simp add: OnStreamClosed_def MaybeSendMaxStreamsFrame_ok)
qed

lemma RegisterStaticStream_ok:
  assumes "sim_ok m"
  shows "sim_ok (snd (RegisterStaticStream m i counted))"
proof -
  have "u32_add (incoming_actual_max_streams m) (Suc 0) = incoming_actual_max_streams m + 1"
    "u32_add (incoming_advertised_max_streams m) (Suc 0) = incoming_advertised_max_streams m + 1"
    "u32_add (incoming_stream_count m) (Suc 0) = incoming_stream_count m + 1"
    "u32_add (outgoing_max_streams m) (Suc 0) = outgoing_max_streams m + 1"
    using sim_ok_bounds [OF assms] by (simp_all add: u32_add_def)
  with assms show ?thesis
    by (auto simp: RegisterStaticStream_def Let_def sim_ok_def sim_consts)
qed

lemma MaybeIncrease_ok:
  assumes "sim_ok m" "MaybeIncreaseLargestPeerStreamId m i = Some (ok, m', acts)"
  shows "sim_ok m'"
  using assms by (auto simp: MaybeIncreaseLargestPeerStreamId_def Let_def sim_ok_def sim_consts split: if_splits)

section \<open>Runs\<close>

inductive sim_step :: "QuicStreamIdManager \<Rightarrow> QuicStreamIdManager \<Rightarrow> bool" where
  sim_max_frame: "OnMaxStreamsFrame m n = (ok, m', acts) \<Longrightarrow> sim_step m m'"
| sim_configure: "ConfigureMaxOpenOutgoingStreams m n = (ok, m', acts) \<Longrightarrow> sim_step m m'"
| sim_set_out: "sim_step m (fst (SetMaxOpenOutgoingStreams m n))"
| sim_open: "fst (CanOpenNextOutgoingStream m) \<Longrightarrow> sim_step m (snd (GetNextOutgoingStreamId m))"
| sim_blocked_frame: "sim_step m (fst (snd (OnStreamsBlockedFrame m n)))"
| sim_set_in: "sim_step m (fst (SetMaxOpenIncomingStreams m n))"
| sim_closed: "sim_step m (fst (OnStreamClosed m i))"
| sim_static: "sim_step m (snd (RegisterStaticStream m i counted))"
| sim_peer: "MaybeIncreaseLargestPeerStreamId m i = Some (ok, m', acts) \<Longrightarrow> sim_step m m'"

lemma sim_step_ok: "sim_step m m' \<Longrightarrow> sim_ok m \<Longrightarrow> sim_ok m'"
  by (induction rule: sim_step.induct)
    (auto simp: SetMaxOpenOutgoingStreams_def AdjustMaxOpenOutgoingStreams_ok GetNextOutgoingStreamId_ok
      OnStreamsBlockedFrame_ok SetMaxOpenIncomingStreams_ok OnStreamClosed_ok RegisterStaticStream_ok
      intro: OnMaxStreamsFrame_ok Configure_ok MaybeIncrease_ok)

text \<open>
  C28: The stream limits hold in every run. After any sequence of frames, closed streams, static
  streams and reconfigurations, the streams the peer has opened never exceed the limit advertised to
  it, which never exceeds the limit in force and the 32-bit maximum; the streams this endpoint has
  opened never exceed the peer's limit; and the next outgoing id, while a stream may be opened, is
  the first id of its kind plus four for each stream opened before.
\<close>

theorem stream_id_limits:
  assumes "sim_step\<^sup>*\<^sup>* (new_QuicStreamIdManager v p uni max_out max_in) m"
    and "VersionHasIetfQuicFrames v" "max_out \<le> GetMaxStreamCount uni p" "max_in \<le> GetMaxStreamCount uni p"
  shows "incoming_stream_count m \<le> incoming_advertised_max_streams m
    \<and> incoming_advertised_max_streams m \<le> incoming_actual_max_streams m
    \<and> incoming_actual_max_streams m \<le> sim_max m
    \<and> outgoing_stream_count m \<le> outgoing_max_streams m
    \<and> (fst (CanOpenNextOutgoingStream m) \<longrightarrow>
         fst (GetNextOutgoingStreamId m) = GetFirstOutgoingStreamId m + 4 * outgoing_stream_count m)"
proof -
  have ok: "sim_ok m"
    using assms(1)
  proof (induction rule: rtranclp_induct)
    case base
    then show ?case by (rule new_sim_ok [OF assms(2-4)])
  next
    case (step y z)
    then show ?case using sim_step_ok by blast
  qed
  then show ?thesis using GetNextOutgoingStreamId_ok by (auto simp: sim_ok_def)
qed

theorem stream_id_limits_witness:
  "sim_step\<^sup>*\<^sup>* (new_QuicStreamIdManager 99 IS_CLIENT False 10 20)
     (snd (GetNextOutgoingStreamId (new_QuicStreamIdManager 99 IS_CLIENT False 10 20)))
   \<and> outgoing_stream_count (snd (GetNextOutgoingStreamId (new_QuicStreamIdManager 99 IS_CLIENT False 10 20))) = 1
   \<and> outgoing_stream_count (snd (GetNextOutgoingStreamId (new_QuicStreamIdManager 99 IS_CLIENT False 10 20))) \<le> 10"
proof -
  let ?m = "new_QuicStreamIdManager 99 IS_CLIENT False 10 20"
  have fields: "outgoing_stream_count ?m = 0" "outgoing_max_streams ?m = 10"
    by (simp_all add: new_QuicStreamIdManager_def CalculateIncomingMaxStreamsWindow_def Let_def)
  then have "fst (CanOpenNextOutgoingStream ?m)" by (simp add: CanOpenNextOutgoingStream_def)
  then have run: "sim_step\<^sup>*\<^sup>* ?m (snd (GetNextOutgoingStreamId ?m))" using sim_open by blast
  moreover have "outgoing_stream_count (snd (GetNextOutgoingStreamId ?m)) = 1"
    "outgoing_max_streams (snd (GetNextOutgoingStreamId ?m)) = 10"
    using fields by (simp_all add: GetNextOutgoingStreamId_def u32_add_def)
  ultimately show ?thesis
    using stream_id_limits [OF run]
    by (simp add: VersionHasIetfQuicFrames_def GetMaxStreamCount_def kMaxQuicStreamCount_def U32_MAX_def)
qed

section \<open>Streams opened by the peer\<close>

text \<open>Without static streams, the largest id of the peer and the number of its streams go together.\<close>

definition peer_ok :: "QuicStreamIdManager \<Rightarrow> bool" where
  "peer_ok m \<longleftrightarrow>
     (if largest_peer_created_stream_id m = GetInvalidStreamId (sim_version m)
      then incoming_stream_count m = 0
      else incoming_stream_count m > 0 \<and>
        largest_peer_created_stream_id m + 4 = GetFirstIncomingStreamId m + 4 * incoming_stream_count m)"

definition peer_stream_number :: "QuicStreamIdManager \<Rightarrow> QuicStreamId \<Rightarrow> nat" where
  "peer_stream_number m i = (i - GetFirstIncomingStreamId m) div 4 + 1"

lemma first_incoming_small: "GetFirstIncomingStreamId m \<le> 3"
  by (simp add: GetFirstIncomingStreamId_def first_stream_id_def GetFirstUnidirectionalStreamId_def
    GetFirstBidirectionalStreamId_def)

lemma skipped_stream_ids_eq:
  "i + 4 * n < 2 ^ 32 \<Longrightarrow>
     skipped_stream_ids 4 i (i + 4 * n) avail = Some (avail \<union> (\<lambda>k. i + 4 * k) ` {..<n})"
proof (induction n arbitrary: i avail)
  case 0
  then show ?case by (subst skipped_stream_ids.simps) simp
next
  case (Suc n)
  have "skipped_stream_ids 4 i (i + 4 * Suc n) avail = skipped_stream_ids 4 (i + 4) (i + 4 + 4 * n) (insert i avail)"
    using Suc.prems by (subst skipped_stream_ids.simps) (simp add: u32_add_def add.assoc)
  also have "\<dots> = Some (insert i avail \<union> (\<lambda>k. i + 4 + 4 * k) ` {..<n})"
    using Suc.IH [of "i + 4"] Suc.prems by simp
  also have "(\<lambda>k. i + 4 + 4 * k) ` {..<n} = (\<lambda>k. i + 4 * k) ` Suc ` {..<n}"
    by (simp add: image_image add.assoc)
  finally show ?case by (simp add: lessThan_Suc_eq_insert_0 image_Suc_lessThan insert_commute)
qed

text \<open>
  What a new id of the peer does: \<open>n\<close> is its number among the streams of its kind. The ids skipped
  over become available, and an id beyond the advertised limit closes the connection.
\<close>

lemma MaybeIncrease_new:
  assumes ok: "sim_ok m" "peer_ok m"
    and id: "i = GetFirstIncomingStreamId m + 4 * (n - 1)" "incoming_stream_count m < n" "i < U32_MAX"
  shows "MaybeIncreaseLargestPeerStreamId m i =
    (if n \<le> incoming_advertised_max_streams m
     then Some (True, m\<lparr>available_streams := available_streams m - {i} \<union>
            (\<lambda>k. GetFirstIncomingStreamId m + 4 * k) ` {incoming_stream_count m ..< n - 1},
          incoming_stream_count := n, largest_peer_created_stream_id := i\<rparr>, [])
     else Some (False, m\<lparr>available_streams := available_streams m - {i}\<rparr>, [CloseConnection QUIC_INVALID_STREAM_ID]))"
proof -
  let ?f = "GetFirstIncomingStreamId m" and ?c = "incoming_stream_count m"
  let ?l = "largest_peer_created_stream_id m"
  have v: "VersionHasIetfQuicFrames (sim_version m)" using ok(1) by (simp add: sim_ok_def)
  then have cst: "GetInvalidStreamId (sim_version m) = U32_MAX" "StreamIdDelta (sim_version m) = 4"
    by (simp_all add: GetInvalidStreamId_def StreamIdDelta_def)
  have n: "n < 2 ^ 30 + 1" "0 < n" using id by (auto simp: U32_MAX_def)
  define first where "first = ?f + 4 * ?c"
  define inc where "inc = n - ?c"
  have i_first: "i = first + 4 * (n - 1 - ?c)" using id by (simp add: first_def)
  have i32: "i < 2 ^ 32" using id(3) by (simp add: U32_MAX_def)
  have incr: "(if ?l \<noteq> U32_MAX then u32_sub i ?l div 4 else u32_add (u32_sub i ?f div 4) 1) = inc"
  proof (cases "?l = U32_MAX")
    case True
    then have "?c = 0" using ok(2) cst by (simp add: peer_ok_def)
    moreover have "u32_sub i ?f = 4 * (n - 1)"
      using id(1) i32 by (subst u32_sub_small) auto
    ultimately show ?thesis using True n by (simp add: inc_def u32_add_def)
  next
    case False
    then have l: "?l + 4 = ?f + 4 * ?c" "0 < ?c" using ok(2) cst by (simp_all add: peer_ok_def)
    have "u32_sub i ?l = 4 * (n - ?c)"
      using id l i32 by (subst u32_sub_small) auto
    with False show ?thesis by (simp add: inc_def)
  qed
  have fst: "(if ?l \<noteq> U32_MAX then u32_add ?l 4 else ?f) = first"
  proof (cases "?l = U32_MAX")
    case True
    then show ?thesis using ok(2) cst by (simp add: peer_ok_def first_def)
  next
    case False
    then have "?l + 4 = ?f + 4 * ?c" using ok(2) cst by (simp add: peer_ok_def)
    moreover have "?f + 4 * ?c < 2 ^ 32" using id i32 by simp
    ultimately show ?thesis using False by (simp add: first_def u32_add_def)
  qed
  have newid: "\<not> (?l \<noteq> U32_MAX \<and> i \<le> ?l)"
    using ok(2) id cst by (auto simp: peer_ok_def)
  have sum: "u32_add ?c inc = n"
    using id(2) n by (simp add: inc_def u32_add_def)
  have skip: "skipped_stream_ids 4 first i A =
      Some (A \<union> (\<lambda>k. ?f + 4 * k) ` {?c ..< n - 1})" for A
  proof -
    have "{?c ..< n - 1} = (\<lambda>k. k + ?c) ` {..<n - 1 - ?c}"
      using image_add_atLeastLessThan' [of ?c 0 "n - 1 - ?c"] id(2) by (simp add: lessThan_atLeast0)
    then have "(\<lambda>k. ?f + 4 * k) ` {?c ..< n - 1} = (\<lambda>k. first + 4 * k) ` {..<n - 1 - ?c}"
      by (simp add: image_image first_def ac_simps)
    then show ?thesis
      using skipped_stream_ids_eq [of first "n - 1 - ?c" A] i_first i32 by simp
  qed
  show ?thesis
    unfolding MaybeIncreaseLargestPeerStreamId_def Let_def cst if_not_P [OF newid] incr fst sum
    using id(2) skip by (simp add: not_le)
qed

lemma MaybeIncrease_old:
  assumes "sim_ok m" "peer_ok m" "i = GetFirstIncomingStreamId m + 4 * (n - 1)"
    and "0 < n" "n \<le> incoming_stream_count m"
  shows "MaybeIncreaseLargestPeerStreamId m i = Some (True, m\<lparr>available_streams := available_streams m - {i}\<rparr>, [])"
proof -
  have "largest_peer_created_stream_id m \<noteq> GetInvalidStreamId (sim_version m)"
    "i \<le> largest_peer_created_stream_id m"
    using assms(2-5) by (auto simp: peer_ok_def split: if_splits)
  then show ?thesis by (simp add: MaybeIncreaseLargestPeerStreamId_def Let_def)
qed




end
