(* ===== verification/Quic_Send_Buffer.thy ===== *)
theory Quic_Send_Buffer
  imports Quic_Interval_Set Quic_Data_Writer
begin

text \<open>
  The model of \<open>QuicStreamSendBuffer\<close> (src/quic/core/quic_stream_send_buffer.cc): the slices of stream
  data kept until they are acknowledged, the set of acknowledged bytes and the set of bytes to
  retransmit. A slice of memory is its bytes, the empty list once it is reset. The differences of
  interval sets may in principle run forever, so the calls that use them give an option, \<open>None\<close> for a
  call that does not return; on the states that occur they return.
\<close>

section \<open>State\<close>

record BufferedSlice =
  slice :: "byte list"
  slice_offset :: nat

record QuicStreamSendBuffer =
  buffered_slices :: "BufferedSlice list"
  stream_offset :: nat
  stream_bytes_written :: nat
  stream_bytes_outstanding :: nat
  bytes_acked :: "nat QuicIntervalSet"
  pending_retransmissions :: "nat QuicIntervalSet"
  write_index :: int

definition new_QuicStreamSendBuffer :: QuicStreamSendBuffer where
  "new_QuicStreamSendBuffer =
     \<lparr> buffered_slices = [], stream_offset = 0, stream_bytes_written = 0,
       stream_bytes_outstanding = 0, bytes_acked = [], pending_retransmissions = [],
       write_index = -1 \<rparr>"

section \<open>Saving data\<close>

definition SaveMemSlice :: "QuicStreamSendBuffer \<Rightarrow> byte list \<Rightarrow> QuicStreamSendBuffer" where
  "SaveMemSlice b bs =
     (if bs = [] then b
      else let b1 = b\<lparr>buffered_slices := buffered_slices b @ [\<lparr>slice = bs, slice_offset = stream_offset b\<rparr>]\<rparr>;
               b2 = (if write_index b1 = -1
                     then b1\<lparr>write_index := int (length (buffered_slices b1)) - 1\<rparr> else b1)
           in b2\<lparr>stream_offset := u64_add (stream_offset b2) (length bs)\<rparr>)"

text \<open>
  \<open>QuicUtils::CopyToBuffer\<close> (src/quic/core/quic_utils.cc): the buffers that the offset skips, then the
  copy across the following ones, until the length is reached or the buffers end.
\<close>

fun copy_iov :: "byte list list \<Rightarrow> nat \<Rightarrow> byte list" where
  "copy_iov [] len = []"
| "copy_iov (v # iov) len =
     (let copy_len = min len (length v)
      in take copy_len v @ (if len - copy_len = 0 then [] else copy_iov iov (len - copy_len)))"

fun CopyToBuffer :: "byte list list \<Rightarrow> nat \<Rightarrow> nat \<Rightarrow> byte list" where
  "CopyToBuffer [] iov_offset buffer_length = []"
| "CopyToBuffer (v # iov) iov_offset buffer_length =
     (if iov_offset \<ge> length v then CopyToBuffer iov (iov_offset - length v) buffer_length
      else if buffer_length = 0 then []
      else copy_iov (drop iov_offset v # iov) buffer_length)"

text \<open>The loop of \<open>SaveStreamData\<close>; a slice size of zero makes it run forever.\<close>

partial_function (option) SaveStreamData ::
    "nat \<Rightarrow> QuicStreamSendBuffer \<Rightarrow> byte list list \<Rightarrow> nat \<Rightarrow> nat \<Rightarrow> QuicStreamSendBuffer option" where
  "SaveStreamData max_data_slice_size b iov iov_offset data_length =
     (if data_length > 0
      then let slice_len = min data_length max_data_slice_size
           in SaveStreamData max_data_slice_size
                (SaveMemSlice b (CopyToBuffer iov iov_offset slice_len))
                iov (iov_offset + slice_len) (data_length - slice_len)
      else Some b)"

definition OnStreamDataConsumed :: "QuicStreamSendBuffer \<Rightarrow> nat \<Rightarrow> QuicStreamSendBuffer" where
  "OnStreamDataConsumed b n =
     b\<lparr>stream_bytes_written := u64_add (stream_bytes_written b) n,
       stream_bytes_outstanding := u64_add (stream_bytes_outstanding b) n\<rparr>"

section \<open>Writing\<close>

text \<open>
  The loop of \<open>WriteStreamData\<close> over the slices from the iterator on. It returns false with the
  writer where the writer fails, and otherwise what is left to write and the write index.
\<close>

fun WriteStreamData_loop ::
    "bool \<Rightarrow> BufferedSlice list \<Rightarrow> nat \<Rightarrow> nat \<Rightarrow> int \<Rightarrow> QuicDataWriter \<Rightarrow> bool \<times> nat \<times> int \<times> QuicDataWriter" where
  "WriteStreamData_loop hit [] offset data_length wi w = (True, data_length, wi, w)"
| "WriteStreamData_loop hit (it # rest) offset data_length wi w =
     (if data_length = 0 \<or> offset < slice_offset it then (True, data_length, wi, w)
      else if offset \<ge> slice_offset it + length (slice it)
      then WriteStreamData_loop hit rest offset data_length wi w
      else let off = offset - slice_offset it;
               available = length (slice it) - off;
               copy_length = min data_length available
           in case WriteBytes (take copy_length (drop off (slice it))) w of
                (False, w1) \<Rightarrow> (False, data_length, wi, w1)
              | (True, w1) \<Rightarrow>
                  WriteStreamData_loop hit rest (offset + copy_length) (data_length - copy_length)
                    (if hit \<and> copy_length = available then wi + 1 else wi) w1)"

definition WriteStreamData ::
    "QuicStreamSendBuffer \<Rightarrow> nat \<Rightarrow> nat \<Rightarrow> QuicDataWriter \<Rightarrow> bool \<times> QuicStreamSendBuffer \<times> QuicDataWriter" where
  "WriteStreamData b offset data_length w =
     (let slices = buffered_slices b; wi = write_index b; it = slices ! nat wi
      in if wi \<noteq> -1 \<and> offset \<ge> slice_offset it + length (slice it) then (False, b, w)
         else let hit = (wi \<noteq> -1 \<and> offset \<ge> slice_offset it);
                  from_it = (if hit then drop (nat wi) slices else slices)
              in case WriteStreamData_loop hit from_it offset data_length wi w of
                   (ok, left, wi1, w1) \<Rightarrow>
                     if \<not> ok then (False, b\<lparr>write_index := wi1\<rparr>, w1)
                     else let wi2 = (if hit \<and> nat wi1 = length slices then -1 else wi1)
                          in (left = 0, b\<lparr>write_index := wi2\<rparr>, w1))"

section \<open>Acknowledgements and losses\<close>

text \<open>
  \<open>FreeMemSlices\<close>; \<open>std::lower_bound\<close> finds the first slice that does not end before \<open>start\<close>.
\<close>

fun reset_acked :: "nat QuicIntervalSet \<Rightarrow> nat \<Rightarrow> BufferedSlice list \<Rightarrow> BufferedSlice list" where
  "reset_acked acked end_offset [] = []"
| "reset_acked acked end_offset (it # rest) =
     (if slice_offset it \<ge> end_offset then it # rest
      else (if slice it \<noteq> [] \<and>
               Set_Contains acked (QuicInterval (slice_offset it) (slice_offset it + length (slice it)))
            then it\<lparr>slice := []\<rparr> else it) # reset_acked acked end_offset rest)"

definition FreeMemSlices :: "QuicStreamSendBuffer \<Rightarrow> nat \<Rightarrow> nat \<Rightarrow> bool \<times> QuicStreamSendBuffer" where
  "FreeMemSlices b start end_offset =
     (let slices = buffered_slices b; it = hd slices
      in if slices = [] \<or> slice it = [] then (False, b)
         else let ends_before = (\<lambda>s. slice_offset s + length (slice s) < start);
                  slow = (start \<ge> slice_offset it + length (slice it) \<or> start < slice_offset it);
                  before = (if slow then takeWhile ends_before slices else []);
                  from_it = (if slow then dropWhile ends_before slices else slices)
              in if from_it = [] \<or> slice (hd from_it) = [] then (False, b)
                 else (True, b\<lparr>buffered_slices := before @ reset_acked (bytes_acked b) end_offset from_it\<rparr>))"

fun CleanUp_loop :: "BufferedSlice list \<Rightarrow> int \<Rightarrow> BufferedSlice list \<times> int" where
  "CleanUp_loop [] wi = ([], wi)"
| "CleanUp_loop (s # rest) wi =
     (if slice s = [] then CleanUp_loop rest (if wi > 0 then wi - 1 else wi) else (s # rest, wi))"

definition CleanUpBufferedSlices :: "QuicStreamSendBuffer \<Rightarrow> QuicStreamSendBuffer" where
  "CleanUpBufferedSlices b =
     (case CleanUp_loop (buffered_slices b) (write_index b) of (slices, wi) \<Rightarrow>
        b\<lparr>buffered_slices := slices, write_index := wi\<rparr>)"

text \<open>\<open>OnStreamDataAcked\<close>: the result, the length newly acknowledged and the buffer.\<close>

definition free_and_clean ::
    "QuicStreamSendBuffer \<Rightarrow> nat \<Rightarrow> nat \<Rightarrow> nat \<Rightarrow> bool \<times> nat \<times> QuicStreamSendBuffer" where
  "free_and_clean b start end_offset newly =
     (case FreeMemSlices b start end_offset of (ok, b1) \<Rightarrow>
        if \<not> ok then (False, newly, b1) else (True, newly, CleanUpBufferedSlices b1))"

definition interval_lengths :: "nat QuicIntervalSet \<Rightarrow> nat" where
  "interval_lengths S = fold (\<lambda>i n. u64_add n (u64_sub (imax i) (imin i))) S 0"

definition OnStreamDataAcked ::
    "QuicStreamSendBuffer \<Rightarrow> nat \<Rightarrow> nat \<Rightarrow> (bool \<times> nat \<times> QuicStreamSendBuffer) option" where
  "OnStreamDataAcked b offset data_length =
     (if data_length = 0 then Some (True, 0, b)
      else let stop = u64_add offset data_length; acked = bytes_acked b; rng = QuicInterval offset stop
           in if acked = [] \<or> offset \<ge> imax (last acked) \<or> IsDisjoint acked rng
              then (if stream_bytes_outstanding b < data_length then Some (False, 0, b)
                    else Option.bind (Set_Difference (pending_retransmissions b) rng) (\<lambda>pending.
                      let b1 = b\<lparr>bytes_acked := Set_Add acked rng,
                                 stream_bytes_outstanding := u64_sub (stream_bytes_outstanding b) data_length,
                                 pending_retransmissions := pending\<rparr>
                      in Some (free_and_clean b1 offset stop data_length)))
              else if Set_Contains acked rng then Some (True, 0, b)
              else Option.bind (Set_Difference_set (Set_Add [] rng) acked) (\<lambda>newly_acked.
                let newly = interval_lengths newly_acked
                in if stream_bytes_outstanding b < newly then Some (False, newly, b)
                   else Option.bind (Set_Difference (pending_retransmissions b) rng) (\<lambda>pending.
                     let b1 = b\<lparr>stream_bytes_outstanding := u64_sub (stream_bytes_outstanding b) newly,
                                bytes_acked := Set_Add acked rng, pending_retransmissions := pending\<rparr>
                     in if newly_acked = [] then Some (True, newly, b1)
                        else Some (free_and_clean b1 (imin (hd newly_acked)) (imax (last newly_acked)) newly))))"

definition OnStreamDataLost :: "QuicStreamSendBuffer \<Rightarrow> nat \<Rightarrow> nat \<Rightarrow> QuicStreamSendBuffer option" where
  "OnStreamDataLost b offset data_length =
     (if data_length = 0 then Some b
      else map_option
        (\<lambda>bytes_lost.
           if bytes_lost = [] then b
           else b\<lparr>pending_retransmissions :=
                    fold (\<lambda>lost S. Set_Add S (QuicInterval (imin lost) (imax lost))) bytes_lost
                      (pending_retransmissions b)\<rparr>)
        (Set_Difference_set (Set_Add [] (QuicInterval offset (u64_add offset data_length))) (bytes_acked b)))"

definition OnStreamDataRetransmitted :: "QuicStreamSendBuffer \<Rightarrow> nat \<Rightarrow> nat \<Rightarrow> QuicStreamSendBuffer option" where
  "OnStreamDataRetransmitted b offset data_length =
     (if data_length = 0 then Some b
      else map_option (\<lambda>pending. b\<lparr>pending_retransmissions := pending\<rparr>)
        (Set_Difference (pending_retransmissions b) (QuicInterval offset (u64_add offset data_length))))"

definition HasPendingRetransmission :: "QuicStreamSendBuffer \<Rightarrow> bool" where
  "HasPendingRetransmission b \<longleftrightarrow> \<not> Set_Empty (pending_retransmissions b)"

text \<open>Offset and length; the second branch is the \<open>QUIC_BUG\<close>.\<close>

definition NextPendingRetransmission :: "QuicStreamSendBuffer \<Rightarrow> nat \<times> nat" where
  "NextPendingRetransmission b =
     (if HasPendingRetransmission b
      then let pending = hd (pending_retransmissions b)
           in (imin pending, u64_sub (imax pending) (imin pending))
      else (0, 0))"

definition IsStreamDataOutstanding :: "QuicStreamSendBuffer \<Rightarrow> nat \<Rightarrow> nat \<Rightarrow> bool" where
  "IsStreamDataOutstanding b offset data_length \<longleftrightarrow>
     data_length > 0 \<and> \<not> Set_Contains (bytes_acked b) (QuicInterval offset (u64_add offset data_length))"

section \<open>Invariant\<close>

text \<open>
  The buffered slices tile the stream \<open>s\<close> from \<open>p\<close> on: each holds its bytes, or is reset and all its
  bytes are in the set \<open>A\<close> of acknowledged offsets.
\<close>

fun slices_ok :: "byte list \<Rightarrow> nat set \<Rightarrow> nat \<Rightarrow> BufferedSlice list \<Rightarrow> bool" where
  "slices_ok s A p [] \<longleftrightarrow> p = length s"
| "slices_ok s A p (x # xs) \<longleftrightarrow> slice_offset x = p \<and>
     (\<exists>e. p < e \<and> e \<le> length s \<and>
        (slice x = [] \<and> {p ..< e} \<subseteq> A \<or> slice x = take (e - p) (drop p s)) \<and> slices_ok s A e xs)"

text \<open>The slice at an index holds the offset \<open>W\<close> at which the next new byte is to be written.\<close>

fun slice_at :: "byte list \<Rightarrow> BufferedSlice list \<Rightarrow> nat \<Rightarrow> nat \<Rightarrow> bool" where
  "slice_at s [] k W \<longleftrightarrow> False"
| "slice_at s (x # xs) 0 W \<longleftrightarrow> slice_offset x \<le> W \<and>
     W < (case xs of [] \<Rightarrow> length s | y # _ \<Rightarrow> slice_offset y)"
| "slice_at s (x # xs) (Suc k) W \<longleftrightarrow> slice_at s xs k W"

definition write_index_ok :: "byte list \<Rightarrow> BufferedSlice list \<Rightarrow> int \<Rightarrow> nat \<Rightarrow> bool" where
  "write_index_ok s xs wi W \<longleftrightarrow>
     (if wi = -1 then W = length s else wi \<ge> 0 \<and> slice_at s xs (nat wi) W)"

definition send_buffer_ok :: "byte list \<Rightarrow> nat \<Rightarrow> QuicStreamSendBuffer \<Rightarrow> bool" where
  "send_buffer_ok s W b \<longleftrightarrow>
     stream_offset b = length s \<and> length s < 2 ^ 62
   \<and> (\<exists>p. slices_ok s (set_points (bytes_acked b)) p (buffered_slices b)
          \<and> {0 ..< p} \<subseteq> set_points (bytes_acked b))
   \<and> (buffered_slices b \<noteq> [] \<longrightarrow> slice (hd (buffered_slices b)) \<noteq> [])
   \<and> Valid (bytes_acked b) \<and> Valid (pending_retransmissions b)
   \<and> set_points (bytes_acked b) \<subseteq> {0 ..< stream_bytes_written b}
   \<and> stream_bytes_written b \<le> W \<and> W \<le> length s
   \<and> stream_bytes_outstanding b + card (set_points (bytes_acked b)) = stream_bytes_written b
   \<and> set_points (pending_retransmissions b) \<subseteq> {0 ..< stream_bytes_written b} - set_points (bytes_acked b)
   \<and> write_index_ok s (buffered_slices b) (write_index b) W"

lemma slices_ok_le: "slices_ok s A p xs \<Longrightarrow> p \<le> length s"
  by (cases xs) auto

lemma slices_ok_mono: "slices_ok s A p xs \<Longrightarrow> A \<subseteq> B \<Longrightarrow> slices_ok s B p xs"
  by (induction xs arbitrary: p) (simp, fastforce)

lemma slices_ok_nonempty:
  assumes "slices_ok s A p (x # xs)" "slice x \<noteq> []"
  shows "slice x = take (length (slice x)) (drop p s) \<and> p + length (slice x) \<le> length s
    \<and> slices_ok s A (p + length (slice x)) xs"
proof -
  obtain e where e: "p < e" "e \<le> length s" "slice x = take (e - p) (drop p s)" "slices_ok s A e xs"
    using assms by auto
  then have "length (slice x) = e - p" by simp
  with e show ?thesis by simp
qed

lemma slices_ok_unacked:
  assumes "slices_ok s A p (x # xs)" "o' \<notin> A" "p \<le> o'"
  shows "slice x \<noteq> [] \<or> (\<exists>e. e \<le> o' \<and> p < e \<and> slices_ok s A e xs)"
  using assms by (auto simp: subset_iff) (metis atLeastLessThan_iff not_le)

lemma slice_at_unacked:
  assumes "slices_ok s A p xs" "slice_at s xs k W" "W \<notin> A"
  shows "k < length xs \<and> slice (xs ! k) \<noteq> [] \<and> slice_offset (xs ! k) \<le> W
    \<and> W < slice_offset (xs ! k) + length (slice (xs ! k))
    \<and> slices_ok s A (slice_offset (xs ! k)) (drop k xs)"
  using assms
proof (induction s xs k W arbitrary: p rule: slice_at.induct)
  case (2 s x xs W)
  obtain e where e: "slice_offset x = p" "p < e" "e \<le> length s"
    "slice x = [] \<and> {p ..< e} \<subseteq> A \<or> slice x = take (e - p) (drop p s)" "slices_ok s A e xs"
    using 2(1) by auto
  have "e = (case xs of [] \<Rightarrow> length s | y # _ \<Rightarrow> slice_offset y)"
    using e(5) by (cases xs) auto
  then have W: "p \<le> W" "W < e" using 2(2) e(1) by auto
  then have "slice x = take (e - p) (drop p s)" using e(4) 2(3) by auto
  with e W 2(1) show ?case by auto
qed auto

section \<open>Saving\<close>

lemma slices_ok_save:
  assumes "slices_ok s A p xs" "bs \<noteq> []"
  shows "slices_ok (s @ bs) A p (xs @ [\<lparr>slice = bs, slice_offset = length s\<rparr>])"
  using assms(1)
proof (induction xs arbitrary: p)
  case Nil
  with assms(2) show ?case by auto
next
  case (Cons x xs)
  then obtain e where e: "slice_offset x = p" "p < e" "e \<le> length s"
    "slice x = [] \<and> {p ..< e} \<subseteq> A \<or> slice x = take (e - p) (drop p s)" "slices_ok s A e xs"
    by auto
  have "take (e - p) (drop p (s @ bs)) = take (e - p) (drop p s)"
    using e(2,3) by simp
  with e Cons.IH [OF e(5)] show ?case by (auto intro!: exI [of _ e])
qed

lemma slice_at_save:
  "slices_ok s A p xs \<Longrightarrow> slice_at s xs k W \<Longrightarrow>
     slice_at (s @ bs) (xs @ [\<lparr>slice = bs, slice_offset = length s\<rparr>]) k W"
proof (induction s xs k W arbitrary: p rule: slice_at.induct)
  case (2 s x xs W)
  then show ?case by (cases xs) auto
qed auto

lemma slice_at_last:
  "bs \<noteq> [] \<Longrightarrow> slice_at (s @ bs) (xs @ [\<lparr>slice = bs, slice_offset = length s\<rparr>]) (length xs) (length s)"
  by (induction xs) auto

lemma SaveMemSlice_ok:
  assumes "send_buffer_ok s W b" "length s + length bs < 2 ^ 62"
  shows "send_buffer_ok (s @ bs) W (SaveMemSlice b bs)"
proof (cases "bs = []")
  case True
  with assms show ?thesis by (simp add: SaveMemSlice_def)
next
  case False
  let ?A = "set_points (bytes_acked b)" and ?new = "\<lparr>slice = bs, slice_offset = length s\<rparr>"
  from assms(1) obtain p where p: "slices_ok s ?A p (buffered_slices b)" "{0 ..< p} \<subseteq> ?A"
    by (auto simp: send_buffer_ok_def)
  have "slices_ok (s @ bs) ?A p (buffered_slices b @ [?new])"
    by (rule slices_ok_save [OF p(1) False])
  moreover have "write_index_ok (s @ bs) (buffered_slices b @ [?new])
      (if write_index b = -1 then int (length (buffered_slices b)) else write_index b) W"
    using assms(1) p(1) slice_at_last [OF False] slice_at_save
    by (auto simp: send_buffer_ok_def write_index_ok_def)
  moreover have "u64_add (length s) (length bs) = length (s @ bs)"
    using assms(2) by (simp add: u64_add_def)
  moreover have "slice (hd (buffered_slices b @ [?new])) \<noteq> []"
    using assms(1) False by (cases "buffered_slices b") (auto simp: send_buffer_ok_def)
  ultimately show ?thesis
    using assms p(2) False by (auto simp: send_buffer_ok_def SaveMemSlice_def Let_def)
qed

section \<open>Writing\<close>

lemma WriteStreamData_loop_done: "WriteStreamData_loop hit xs off 0 wi w = (True, 0, wi, w)"
  by (cases xs) auto

text \<open>
  From a tiling slice on, the loop writes exactly the bytes of the stream; started at the slice that
  holds the offset, it moves the write index to the slice of the next byte.
\<close>

lemma WriteStreamData_loop_correct:
  assumes "slices_ok s A p xs" "p \<le> off" "off + n \<le> length s" "{off ..< off + n} \<inter> A = {}"
    and "writer_ok w" "n \<le> remaining w"
    and "hit \<longrightarrow> (case xs of [] \<Rightarrow> True | x # ys \<Rightarrow> off < (case ys of [] \<Rightarrow> length s | y # _ \<Rightarrow> slice_offset y))"
  shows "\<exists>k. WriteStreamData_loop hit xs off n wi w =
      (True, 0, if hit then wi + int k else wi, store_next (take n (drop off s)) w)
    \<and> (hit \<longrightarrow> (k = length xs \<and> off + n = length s \<or> slice_at s xs k (off + n)))"
  using assms
proof (induction xs arbitrary: p off n wi w)
  case Nil
  then have "n = 0" "off = length s" by auto
  with Nil.prems(5) show ?case by (auto simp: store_next_Nil)
next
  case (Cons x xs)
  obtain e where e: "slice_offset x = p" "p < e" "e \<le> length s"
    "slice x = [] \<and> {p ..< e} \<subseteq> A \<or> slice x = take (e - p) (drop p s)" "slices_ok s A e xs"
    using Cons.prems(1) by auto
  have e_next: "e = (case xs of [] \<Rightarrow> length s | y # _ \<Rightarrow> slice_offset y)"
    using e(5) by (cases xs) auto
  show ?case
  proof (cases "n = 0")
    case True
    then show ?thesis
      using Cons.prems(2,5,7) e(1)
      by (intro exI [of _ 0]) (auto simp: WriteStreamData_loop_done store_next_Nil)
  next
    case n: False
    show ?thesis
    proof (cases "off < e")
      case False
      then have nohit: "\<not> hit" using Cons.prems(7) e_next by auto
      have "slice_offset x + length (slice x) \<le> off"
        using e False Cons.prems(2) by auto
      then have "WriteStreamData_loop hit (x # xs) off n wi w = WriteStreamData_loop hit xs off n wi w"
        using n e(1) Cons.prems(2) by simp
      moreover have "\<exists>k. WriteStreamData_loop hit xs off n wi w =
          (True, 0, if hit then wi + int k else wi, store_next (take n (drop off s)) w)"
        using Cons.IH [OF e(5) _ Cons.prems(3-6), of wi] False nohit by auto
      ultimately show ?thesis using nohit by auto
    next
      case True
      have "off \<in> {off ..< off + n}" using n by simp
      then have "off \<notin> A" using Cons.prems(4) by blast
      then have sl: "slice x = take (e - p) (drop p s)" using e(4) True Cons.prems(2) by auto
      then have len: "length (slice x) = e - p" using e(3) by simp
      let ?copy = "min n (e - off)"
      let ?w1 = "store_next (take ?copy (drop off s)) w"
      have bytes: "take ?copy (drop (off - p) (slice x)) = take ?copy (drop off s)"
        using Cons.prems(2) True by (simp add: sl drop_take min_def)
      have lenb: "length (take ?copy (drop off s)) = ?copy"
        using Cons.prems(3) by simp
      have wr: "WriteBytes (take ?copy (drop off s)) w = (True, ?w1)"
        using Cons.prems(5,6) lenb by (simp add: WriteBytes_eq)
      have w1: "writer_ok ?w1" "remaining ?w1 = remaining w - ?copy"
        using Cons.prems(5,6) lenb by (auto simp: remaining_store_next)
      have step: "WriteStreamData_loop hit (x # xs) off n wi w =
          WriteStreamData_loop hit xs (off + ?copy) (n - ?copy)
            (if hit \<and> ?copy = e - off then wi + 1 else wi) ?w1"
        using n e(1) Cons.prems(2) True len bytes wr by (simp add: Let_def)
      show ?thesis
      proof (cases "n < e - off")
        case True
        then have "WriteStreamData_loop hit (x # xs) off n wi w = (True, 0, wi, store_next (take n (drop off s)) w)"
          unfolding step by (simp add: min_def WriteStreamData_loop_done)
        moreover have "slice_at s (x # xs) 0 (off + n)"
          using e(1) e_next Cons.prems(2) True by simp
        ultimately show ?thesis by (intro exI [of _ 0]) auto
      next
        case False
        then have c: "?copy = e - off" by simp
        have IH: "\<exists>k. WriteStreamData_loop hit xs e (n - (e - off)) (if hit then wi + 1 else wi) ?w1 =
            (True, 0, if hit then (if hit then wi + 1 else wi) + int k else (if hit then wi + 1 else wi),
             store_next (take (n - (e - off)) (drop e s)) ?w1)
          \<and> (hit \<longrightarrow> (k = length xs \<and> e + (n - (e - off)) = length s \<or> slice_at s xs k (e + (n - (e - off)))))"
        proof (rule Cons.IH [OF e(5)])
          show "{e ..< e + (n - (e - off))} \<inter> A = {}"
          proof -
            have "{e ..< e + (n - (e - off))} \<subseteq> {off ..< off + n}" using True False by auto
            with Cons.prems(4) show ?thesis by blast
          qed
          show "hit \<longrightarrow> (case xs of [] \<Rightarrow> True | x # ys \<Rightarrow> e < (case ys of [] \<Rightarrow> length s | y # _ \<Rightarrow> slice_offset y))"
          proof (cases xs)
            case (Cons y ys)
            with e(5) obtain e' where "e < e'" "slices_ok s A e' ys" by auto
            then have "e < (case ys of [] \<Rightarrow> length s | z # _ \<Rightarrow> slice_offset z)" by (cases ys) auto
            then show ?thesis by (simp add: Cons)
          qed simp
        qed (use Cons.prems(3,6) True False w1 c in auto)
        obtain k where k: "WriteStreamData_loop hit xs e (n - (e - off)) (if hit then wi + 1 else wi) ?w1 =
            (True, 0, if hit then wi + 1 + int k else wi, store_next (take (n - (e - off)) (drop e s)) ?w1)"
          "hit \<longrightarrow> (k = length xs \<and> off + n = length s \<or> slice_at s xs k (off + n))"
        proof -
          have idx: "e + (n - (e - off)) = off + n" using True False by simp
          show thesis using that IH unfolding idx by (cases hit) auto
        qed
        have "take (e - off) (drop off s) @ take (n - (e - off)) (drop e s) = take n (drop off s)"
          using take_add [of "e - off" "n - (e - off)" "drop off s"] True False by simp
        moreover have "length (take (e - off) (drop off s)) + length (take (n - (e - off)) (drop e s)) \<le> remaining w"
          using Cons.prems(3,6) True False by simp
        ultimately have "store_next (take (n - (e - off)) (drop e s)) ?w1 = store_next (take n (drop off s)) w"
          using store_next_store_next [OF Cons.prems(5)] c by simp
        with k step c True False show ?thesis
          by (intro exI [of _ "Suc k"]) auto
      qed
    qed
  qed
qed

lemma slice_at_ge: "slices_ok s A p xs \<Longrightarrow> slice_at s xs k W \<Longrightarrow> p \<le> W"
proof (induction s xs k W arbitrary: p rule: slice_at.induct)
  case (3 s x xs k W)
  then obtain e where "p < e" "slices_ok s A e xs" by auto
  with 3 show ?case by fastforce
qed auto

lemma slice_at_less: "slices_ok s A p xs \<Longrightarrow> slice_at s xs k W \<Longrightarrow> W < length s"
proof (induction s xs k W arbitrary: p rule: slice_at.induct)
  case (2 s x xs W)
  then obtain e where "e \<le> length s" "slices_ok s A e xs" by auto
  with 2(2) show ?case by (cases xs) auto
qed auto

lemma slice_at_first:
  assumes "slices_ok s A p xs" "slice_at s xs 0 W" "slice_at s xs k W"
  shows "k = 0"
proof (rule ccontr)
  assume "k \<noteq> 0"
  then obtain j where k: "k = Suc j" by (cases k) auto
  obtain x ys where xs: "xs = x # ys" using assms(2) by (cases xs) auto
  then obtain e where e: "slices_ok s A e ys" using assms(1) by auto
  then have "e = (case ys of [] \<Rightarrow> length s | y # _ \<Rightarrow> slice_offset y)" by (cases ys) auto
  then have "W < e" using assms(2) xs by simp
  moreover have "e \<le> W" using slice_at_ge [OF e] assms(3) xs k by simp
  ultimately show False by simp
qed

lemma slice_at_length: "slice_at s xs k W \<Longrightarrow> k < length xs"
  by (induction s xs k W rule: slice_at.induct) auto

lemma slice_at_drop: "i \<le> length xs \<Longrightarrow> slice_at s (drop i xs) k W \<longleftrightarrow> slice_at s xs (i + k) W"
proof (induction i arbitrary: xs)
  case (Suc i)
  then show ?case by (cases xs) auto
qed simp

text \<open>
  Writing new data at the write position, or data before it again: the writer receives exactly the
  bytes of the stream, as long as none of them has been acknowledged.
\<close>

lemma WriteStreamData_correct:
  assumes ok: "send_buffer_ok s W b" and rng: "off = W \<or> off + n \<le> W" "off + n \<le> length s" "0 < n"
    and un: "{off ..< off + n} \<inter> set_points (bytes_acked b) = {}"
    and wok: "writer_ok w" "n \<le> remaining w"
  shows "\<exists>b'. WriteStreamData b off n w = (True, b', store_next (take n (drop off s)) w)
    \<and> send_buffer_ok s (max W (off + n)) b' \<and> bytes_acked b' = bytes_acked b
    \<and> stream_bytes_written b' = stream_bytes_written b"
proof -
  let ?A = "set_points (bytes_acked b)" and ?xs = "buffered_slices b" and ?wi = "write_index b"
  let ?it = "?xs ! nat ?wi"
  from ok obtain p where p: "slices_ok s ?A p ?xs" "{0 ..< p} \<subseteq> ?A"
    by (auto simp: send_buffer_ok_def)
  have "off \<in> {off ..< off + n}" using rng(3) by simp
  then have off: "off \<notin> ?A" using un by blast
  then have "p \<le> off" using p(2) by (meson atLeastLessThan_iff not_le subsetD zero_le)
  have WA: "W \<notin> ?A" using ok by (auto simp: send_buffer_ok_def)
  have wi: "write_index_ok s ?xs ?wi W" using ok by (simp add: send_buffer_ok_def)
  have wi_nat: "?wi \<noteq> -1 \<Longrightarrow> ?wi \<ge> 0 \<and> slice_at s ?xs (nat ?wi) W"
    using wi by (simp add: write_index_ok_def split: if_splits)
  define hit where "hit \<longleftrightarrow> ?wi \<noteq> -1 \<and> slice_offset ?it \<le> off"
  have it: "?wi \<noteq> -1 \<Longrightarrow> nat ?wi < length ?xs \<and> slice_offset ?it \<le> W
      \<and> W < slice_offset ?it + length (slice ?it) \<and> slices_ok s ?A (slice_offset ?it) (drop (nat ?wi) ?xs)"
    using slice_at_unacked [OF p(1) _ WA] wi_nat by blast
  have noseq: "\<not> (?wi \<noteq> -1 \<and> off \<ge> slice_offset ?it + length (slice ?it))"
    using it rng(1) by auto
  show ?thesis
  proof (cases hit)
    case False
    have "\<exists>b'. WriteStreamData b off n w = (True, b', store_next (take n (drop off s)) w) \<and> b' = b"
      using WriteStreamData_loop_correct [OF p(1) \<open>p \<le> off\<close> rng(2) un wok, of False ?wi] noseq False
      unfolding WriteStreamData_def Let_def hit_def [symmetric] by auto
    moreover have "max W (off + n) = W"
    proof (cases "?wi = -1")
      case True
      then show ?thesis using wi rng(2) by (simp add: write_index_ok_def)
    next
      case wi': False
      then have "off \<noteq> W" using False it by (auto simp: hit_def)
      then show ?thesis using rng(1) by simp
    qed
    ultimately show ?thesis using ok by auto
  next
    case True
    then have w1: "?wi \<noteq> -1" "slice_offset ?it \<le> off" by (auto simp: hit_def)
    let ?ys = "drop (nat ?wi) ?xs"
    have ys: "slices_ok s ?A (slice_offset ?it) ?ys" "nat ?wi < length ?xs" using it w1 by auto
    have at0: "slice_at s ?ys 0 W"
      using wi_nat w1 ys(2) slice_at_drop [of "nat ?wi" ?xs s 0 W] by simp
    have first: "case ?ys of [] \<Rightarrow> True | x # ys \<Rightarrow> off < (case ys of [] \<Rightarrow> length s | y # _ \<Rightarrow> slice_offset y)"
      using at0 rng(1,3) by (cases ?ys) auto
    from WriteStreamData_loop_correct [OF ys(1) w1(2) rng(2) un wok, of True ?wi] first obtain k where
      k: "WriteStreamData_loop True ?ys off n ?wi w = (True, 0, ?wi + int k, store_next (take n (drop off s)) w)"
      "k = length ?ys \<and> off + n = length s \<or> slice_at s ?ys k (off + n)" by auto
    define wi2 where "wi2 = (if nat (?wi + int k) = length ?xs then -1 else ?wi + int k)"
    have res: "WriteStreamData b off n w = (True, b\<lparr>write_index := wi2\<rparr>, store_next (take n (drop off s)) w)"
      using noseq True k(1) unfolding WriteStreamData_def Let_def hit_def [symmetric] wi2_def by simp
    have wi0: "?wi \<ge> 0" using wi_nat w1 by simp
    have "write_index_ok s ?xs wi2 (max W (off + n))"
    proof (cases "off + n \<le> W")
      case True
      have "slice_at s ?ys 0 (off + n)"
        using at0 True w1(2) ys(1) by (cases ?ys) auto
      moreover have "off + n \<noteq> length s" using True slice_at_less [OF ys(1) at0] by simp
      ultimately have "k = 0" using k(2) slice_at_first [OF ys(1)] by blast
      then have "wi2 = ?wi" using ys(2) by (simp add: wi2_def)
      then show ?thesis using True wi by (simp add: max_def)
    next
      case False
      then have "max W (off + n) = off + n" by simp
      moreover have "nat (?wi + int k) = nat ?wi + k" using wi0 by (simp add: nat_add_distrib)
      moreover have "slice_at s ?xs (nat ?wi + k) (off + n) \<Longrightarrow> nat ?wi + k < length ?xs"
        by (rule slice_at_length)
      ultimately show ?thesis
        using k(2) slice_at_drop [of "nat ?wi" ?xs s k "off + n"] ys(2) wi0
        by (auto simp: wi2_def write_index_ok_def)
    qed
    with res ok rng(2) show ?thesis by (auto simp: send_buffer_ok_def)
  qed
qed

section \<open>Acknowledgements\<close>

lemma reset_acked_ok:
  "Valid S \<Longrightarrow> slices_ok s (set_points S) p xs \<Longrightarrow> slices_ok s (set_points S) p (reset_acked S m xs)"
proof (induction xs arbitrary: p)
  case (Cons x xs)
  then obtain e where e: "slice_offset x = p" "p < e" "e \<le> length s"
    "slice x = [] \<and> {p ..< e} \<subseteq> set_points S \<or> slice x = take (e - p) (drop p s)"
    "slices_ok s (set_points S) e xs" by auto
  have "slice x \<noteq> [] \<Longrightarrow> Set_Contains S (QuicInterval p (p + length (slice x))) \<Longrightarrow> {p ..< e} \<subseteq> set_points S"
    using e Cons.prems(1) by (auto simp: iset.contains_iff points_QuicInterval)
  with e Cons.IH [OF Cons.prems(1) e(5)] show ?case by (auto intro!: exI [of _ e])
qed simp

lemma reset_acked_offsets: "map slice_offset (reset_acked S m xs) = map slice_offset xs"
  by (induction xs) auto

lemma slices_ok_replace:
  assumes "slices_ok s A p (xs @ ys)" "\<And>q. slices_ok s A q ys \<Longrightarrow> slices_ok s A q zs"
  shows "slices_ok s A p (xs @ zs)"
  using assms(1)
proof (induction xs arbitrary: p)
  case Nil
  then show ?case using assms(2) by simp
next
  case (Cons x xs)
  from Cons.prems obtain e where "slice_offset x = p" "p < e" "e \<le> length s"
    "slice x = [] \<and> {p ..< e} \<subseteq> A \<or> slice x = take (e - p) (drop p s)" and e: "slices_ok s A e (xs @ ys)"
    by auto
  with Cons.IH [OF e] show ?case by auto
qed

lemma slice_at_cong:
  "map slice_offset xs = map slice_offset ys \<Longrightarrow> slice_at s xs k W = slice_at s ys k W"
proof (induction xs arbitrary: ys k)
  case Nil
  then show ?case by simp
next
  case (Cons x xs)
  obtain y ys' where ys: "ys = y # ys'"
    using Cons.prems by (cases ys) simp_all
  have xy: "slice_offset x = slice_offset y" and tl: "map slice_offset xs = map slice_offset ys'"
    using Cons.prems unfolding ys list.map list.inject by simp_all
  have nx: "(case xs of [] \<Rightarrow> length s | z # _ \<Rightarrow> slice_offset z) = (case ys' of [] \<Rightarrow> length s | z # _ \<Rightarrow> slice_offset z)"
    using tl by (cases xs; cases ys') simp_all
  show ?case
  proof (cases k)
    case 0
    show ?thesis unfolding 0 ys slice_at.simps nx xy ..
  next
    case (Suc j)
    show ?thesis unfolding Suc ys slice_at.simps by (rule Cons.IH [OF tl])
  qed
qed

text \<open>The binary search ends at a slice that still has data.\<close>

lemma search_finds_data:
  assumes "slices_ok s A p xs" "p \<le> start" "start \<notin> A" "start < length s"
  shows "\<exists>y ys. dropWhile (\<lambda>x. slice_offset x + length (slice x) < start) xs = y # ys \<and> slice y \<noteq> []"
  using assms(1,2)
proof (induction xs arbitrary: p)
  case Nil
  with assms(4) show ?case by simp
next
  case (Cons x xs)
  then obtain e where e: "slice_offset x = p" "p < e" "e \<le> length s"
    "slice x = [] \<and> {p ..< e} \<subseteq> A \<or> slice x = take (e - p) (drop p s)" "slices_ok s A e xs" by auto
  have past: "e \<le> start \<and> p < start" if "slice x = []"
  proof -
    have "slice x = take (e - p) (drop p s) \<Longrightarrow> False" using that e(2,3) by simp
    then have "{p ..< e} \<subseteq> A" using e(4) by blast
    then have "start \<notin> {p ..< e}" using assms(3) by blast
    then show ?thesis using Cons.prems(2) e(2) by simp
  qed
  show ?case
  proof (cases "slice_offset x + length (slice x) < start")
    case True
    have "e \<le> start"
    proof (cases "slice x = []")
      case False
      then have "length (slice x) = e - p" using e by auto
      then show ?thesis using True e by simp
    qed (use past in simp)
    with Cons.IH [OF e(5)] True show ?thesis by simp
  next
    case False
    then have "slice x \<noteq> []" using past e(1) by auto
    with False show ?thesis by simp
  qed
qed

lemma CleanUp_loop_ok:
  assumes "slices_ok s A p xs" "{0 ..< p} \<subseteq> A" "W \<notin> A" "write_index_ok s xs wi W"
    and "CleanUp_loop xs wi = (ys, wi')"
  shows "(\<exists>q. slices_ok s A q ys \<and> {0 ..< q} \<subseteq> A) \<and> write_index_ok s ys wi' W
    \<and> (ys \<noteq> [] \<longrightarrow> slice (hd ys) \<noteq> [])"
  using assms
proof (induction xs arbitrary: p wi)
  case Nil
  then show ?case by auto
next
  case (Cons x xs)
  show ?case
  proof (cases "slice x = []")
    case False
    then show ?thesis using Cons.prems by auto
  next
    case True
    then obtain e where e: "p < e" "{p ..< e} \<subseteq> A" "slices_ok s A e xs"
      using Cons.prems(1) by auto
    have "{0 ..< e} \<subseteq> A"
    proof
      fix i assume "i \<in> {0 ..< e}"
      then show "i \<in> A" using e(2) Cons.prems(2) by (cases "i < p") auto
    qed
    moreover have "write_index_ok s xs (if wi > 0 then wi - 1 else wi) W"
    proof (cases "wi = -1")
      case True
      then show ?thesis using Cons.prems(4) by (simp add: write_index_ok_def)
    next
      case w: False
      then have at: "wi \<ge> 0" "slice_at s (x # xs) (nat wi) W"
        using Cons.prems(4) by (auto simp: write_index_ok_def split: if_splits)
      then obtain j where j: "nat wi = Suc j"
        using slice_at_unacked [OF Cons.prems(1) at(2) Cons.prems(3)] True
        by (cases "nat wi") auto
      then have "nat (wi - 1) = j" "wi > 0" by auto
      with at j show ?thesis by (simp add: write_index_ok_def)
    qed
    ultimately show ?thesis
      using Cons.IH [OF e(3)] Cons.prems(3,5) True by auto
  qed
qed

text \<open>
  The tail of \<open>OnStreamDataAcked\<close> after the accounting: what holds of the buffer once the set of
  acknowledged bytes has grown to that of \<open>b\<close>, and \<open>start\<close> was not acknowledged before.
\<close>

lemma free_and_clean_ok:
  assumes sl: "slices_ok s A p (buffered_slices b)" "{0 ..< p} \<subseteq> A" "A \<subseteq> set_points (bytes_acked b)"
    and first: "buffered_slices b \<noteq> [] \<longrightarrow> slice (hd (buffered_slices b)) \<noteq> []"
    and start: "start \<notin> A" "start < length s"
    and V: "Valid (bytes_acked b)" and W: "W \<notin> set_points (bytes_acked b)"
    and wi: "write_index_ok s (buffered_slices b) (write_index b) W"
  shows "\<exists>ys wi'. free_and_clean b start m newly = (True, newly, b\<lparr>buffered_slices := ys, write_index := wi'\<rparr>)
    \<and> (\<exists>q. slices_ok s (set_points (bytes_acked b)) q ys \<and> {0 ..< q} \<subseteq> set_points (bytes_acked b))
    \<and> write_index_ok s ys wi' W \<and> (ys \<noteq> [] \<longrightarrow> slice (hd ys) \<noteq> [])"
proof -
  let ?xs = "buffered_slices b" and ?A' = "set_points (bytes_acked b)"
  let ?ends = "\<lambda>x. slice_offset x + length (slice x) < start"
  have p: "p \<le> start" using sl(2) start(1) by (meson atLeastLessThan_iff not_le subsetD zero_le)
  have ne: "?xs \<noteq> []" using sl(1) p start(2) by auto
  obtain y ys0 where found: "dropWhile ?ends ?xs = y # ys0" "slice y \<noteq> []"
    using search_finds_data [OF sl(1) p start] by blast
  define slow where "slow \<longleftrightarrow> start \<ge> slice_offset (hd ?xs) + length (slice (hd ?xs)) \<or> start < slice_offset (hd ?xs)"
  define bef where "bef = (if slow then takeWhile ?ends ?xs else [])"
  define frm where "frm = (if slow then dropWhile ?ends ?xs else ?xs)"
  have split: "?xs = bef @ frm" by (simp add: bef_def frm_def)
  have data: "frm \<noteq> []" "slice (hd frm) \<noteq> []" using found first ne by (auto simp: frm_def)
  let ?zs = "bef @ reset_acked (bytes_acked b) m frm"
  have free: "FreeMemSlices b start m = (True, b\<lparr>buffered_slices := ?zs\<rparr>)"
    using ne first data
    unfolding FreeMemSlices_def Let_def slow_def [symmetric] bef_def [symmetric] frm_def [symmetric] by simp
  have "slices_ok s ?A' p (bef @ frm)"
    using slices_ok_mono [OF sl(1,3)] split by simp
  then have zs: "slices_ok s ?A' p ?zs"
    by (rule slices_ok_replace) (rule reset_acked_ok [OF V])
  have "map slice_offset ?zs = map slice_offset ?xs"
    by (simp add: split reset_acked_offsets)
  then have wi': "write_index_ok s ?zs (write_index b) W"
    using wi slice_at_cong [of ?zs ?xs] by (simp only: write_index_ok_def)
  obtain ys wi' where c: "CleanUp_loop ?zs (write_index b) = (ys, wi')" by fastforce
  have "{0 ..< p} \<subseteq> ?A'" using sl(2,3) by blast
  note cleaned = CleanUp_loop_ok [OF zs this W wi' c]
  have "free_and_clean b start m newly = (True, newly, b\<lparr>buffered_slices := ys, write_index := wi'\<rparr>)"
    using c by (simp add: free_and_clean_def free CleanUpBufferedSlices_def)
  with cleaned show ?thesis by blast
qed

lemma card_interval_lengths_aux:
  assumes "Valid S" "\<forall>i \<in> set S. imax i < 2 ^ 62" "n + card (set_points S) < 2 ^ 64"
  shows "fold (\<lambda>i n. u64_add n (u64_sub (imax i) (imin i))) S n = n + card (set_points (S :: nat QuicIntervalSet))"
  using assms
proof (induction S arbitrary: n)
  case (Cons i S)
  have c: "card (set_points (i # S)) = (imax i - imin i) + card (set_points S)"
    using Cons.prems(1) by (rule card_set_points_Cons)
  have "u64_sub (imax i) (imin i) = imax i - imin i"
    using Cons.prems(1,2) by (intro u64_sub_small) (auto simp: Valid_Cons)
  moreover have "u64_add n (imax i - imin i) = n + (imax i - imin i)"
    using Cons.prems(3) c by (intro u64_add_small) simp
  ultimately show ?case
    using Cons.IH [of "n + (imax i - imin i)"] Cons.prems c by (simp add: Valid_Cons)
qed simp

lemma interval_lengths_card:
  assumes "Valid S" "set_points S \<subseteq> {0 ..< m}" "m < 2 ^ 62"
  shows "interval_lengths S = card (set_points S)"
proof -
  have "\<forall>i \<in> set S. imax i < 2 ^ 62"
    using Valid_bounded [OF assms(1,2)] assms(3) by fastforce
  moreover have "card (set_points S) \<le> m"
    using card_mono [OF _ assms(2)] by simp
  ultimately show ?thesis
    using card_interval_lengths_aux [OF assms(1), of 0] assms(3) by (simp add: interval_lengths_def)
qed

text \<open>The accounting of an acknowledgement, whichever path of the code it takes.\<close>

lemma ack_counts:
  fixes A R :: "nat set"
  assumes "outstanding + card A = wtot" "A \<subseteq> {0 ..< wtot}" "R \<subseteq> {0 ..< wtot}"
  shows "card (R - A) \<le> outstanding \<and> (outstanding - card (R - A)) + card (A \<union> R) = wtot"
proof -
  have fin: "finite A" "finite R" using assms(2,3) finite_subset by blast+
  have "A \<union> R = A \<union> (R - A)" by blast
  then have c: "card (A \<union> R) = card A + card (R - A)"
    using fin card_Un_disjoint [of A "R - A"] by (metis Diff_disjoint finite_Diff)
  have "card (A \<union> R) \<le> wtot"
    using card_mono [of "{0 ..< wtot}" "A \<union> R"] assms(2,3) by simp
  with c assms(1) show ?thesis by simp
qed

text \<open>
  What an acknowledgement of the range \<open>R\<close> leaves, for any slices that fit the grown set.
\<close>

lemma send_buffer_ok_acked:
  assumes ok: "send_buffer_ok s W b" and R: "R \<subseteq> {0 ..< stream_bytes_written b}"
    and acked: "Valid acked" "set_points acked = set_points (bytes_acked b) \<union> R"
    and pend: "Valid pending" "set_points pending = set_points (pending_retransmissions b) - R"
    and ys: "slices_ok s (set_points (bytes_acked b) \<union> R) q ys" "{0 ..< q} \<subseteq> set_points (bytes_acked b) \<union> R"
      "write_index_ok s ys wi' W" "ys \<noteq> [] \<longrightarrow> slice (hd ys) \<noteq> []"
  shows "send_buffer_ok s W (b\<lparr>bytes_acked := acked,
      stream_bytes_outstanding := stream_bytes_outstanding b - card (R - set_points (bytes_acked b)),
      pending_retransmissions := pending, buffered_slices := ys, write_index := wi'\<rparr>)"
proof -
  have A: "set_points (bytes_acked b) \<subseteq> {0 ..< stream_bytes_written b}"
    and P: "set_points (pending_retransmissions b) \<subseteq> {0 ..< stream_bytes_written b} - set_points (bytes_acked b)"
    and cnt: "stream_bytes_outstanding b + card (set_points (bytes_acked b)) = stream_bytes_written b"
    and rest: "stream_offset b = length s" "length s < 2 ^ 62" "stream_bytes_written b \<le> W" "W \<le> length s"
    using ok by (simp_all add: send_buffer_ok_def)
  have "set_points acked \<subseteq> {0 ..< stream_bytes_written b}" using A R acked(2) by blast
  moreover have "set_points pending \<subseteq> {0 ..< stream_bytes_written b} - set_points acked"
    using P pend(2) acked(2) by blast
  moreover have "stream_bytes_outstanding b - card (R - set_points (bytes_acked b)) + card (set_points acked)
      = stream_bytes_written b"
    using ack_counts [OF cnt A R] acked(2) by simp
  moreover have "\<exists>q. slices_ok s (set_points acked) q ys \<and> {0 ..< q} \<subseteq> set_points acked"
    using ys(1,2) unfolding acked(2) by blast
  ultimately show ?thesis
    using rest acked(1) pend(1) ys(3,4) by (simp add: send_buffer_ok_def)
qed


text \<open>The state \<open>OnStreamDataAcked\<close> reaches before it frees memory, and what freeing makes of it.\<close>

definition acked_state :: "QuicStreamSendBuffer \<Rightarrow> nat \<Rightarrow> nat \<Rightarrow> nat QuicIntervalSet \<Rightarrow> QuicStreamSendBuffer" where
  "acked_state b off n P =
     b\<lparr>bytes_acked := Set_Add (bytes_acked b) (QuicInterval off (off + n)),
       stream_bytes_outstanding := stream_bytes_outstanding b
         - card ({off ..< off + n} - set_points (bytes_acked b)),
       pending_retransmissions := P\<rparr>"

definition acked_ok :: "byte list \<Rightarrow> nat \<Rightarrow> QuicStreamSendBuffer \<Rightarrow> nat \<Rightarrow> nat \<Rightarrow> QuicStreamSendBuffer \<Rightarrow> bool" where
  "acked_ok s W b off n b' \<longleftrightarrow> send_buffer_ok s W b'
    \<and> set_points (bytes_acked b') = set_points (bytes_acked b) \<union> {off ..< off + n}
    \<and> stream_bytes_written b' = stream_bytes_written b
    \<and> set_points (pending_retransmissions b') = set_points (pending_retransmissions b) - {off ..< off + n}"

lemma acked_state_free:
  assumes ok: "send_buffer_ok s W b" and n: "0 < n" "off + n \<le> stream_bytes_written b"
    and P: "Valid P" "set_points P = set_points (pending_retransmissions b) - {off ..< off + n}"
    and start: "start \<in> {off ..< off + n} - set_points (bytes_acked b)"
  shows "\<exists>b'. free_and_clean (acked_state b off n P) start m newly = (True, newly, b') \<and> acked_ok s W b off n b'"
proof -
  let ?A = "set_points (bytes_acked b)" and ?R = "{off ..< off + n}" and ?r = "QuicInterval off (off + n)"
  let ?b1 = "acked_state b off n P"
  have V: "Valid (bytes_acked b)" and AW: "?A \<subseteq> {0 ..< stream_bytes_written b}"
    and W: "stream_bytes_written b \<le> W" "W \<le> length s"
    and wi: "write_index_ok s (buffered_slices b) (write_index b) W"
    and first: "buffered_slices b \<noteq> [] \<longrightarrow> slice (hd (buffered_slices b)) \<noteq> []"
    using ok by (simp_all add: send_buffer_ok_def)
  obtain p where p: "slices_ok s ?A p (buffered_slices b)" "{0 ..< p} \<subseteq> ?A"
    using ok unfolding send_buffer_ok_def by blast
  have RW: "?R \<subseteq> {0 ..< stream_bytes_written b}" using n(2) by auto
  let ?A1 = "Set_Add (bytes_acked b) ?r"
  have A1: "Valid ?A1" "set_points ?A1 = ?A \<union> ?R"
    using iset.inv_add [OF V] iset.pts_add [OF V] by (simp_all add: points_QuicInterval)
  have b1: "bytes_acked ?b1 = ?A1" "buffered_slices ?b1 = buffered_slices b" "write_index ?b1 = write_index b"
    by (simp_all add: acked_state_def)
  have "W \<notin> {0 ..< stream_bytes_written b}" using W(1) by simp
  then have Wn: "W \<notin> ?A \<union> ?R" using AW RW by blast
  have "start \<notin> ?A" "start < length s" using start n(2) W by auto
  note fc = free_and_clean_ok [of s ?A p ?b1 start W, unfolded b1 A1(2), OF p _ first this A1(1) Wn wi]
  obtain ys wi' where
    y: "free_and_clean ?b1 start m newly = (True, newly, ?b1\<lparr>buffered_slices := ys, write_index := wi'\<rparr>)"
      "\<exists>q. slices_ok s (?A \<union> ?R) q ys \<and> {0 ..< q} \<subseteq> ?A \<union> ?R"
      "write_index_ok s ys wi' W" "ys \<noteq> [] \<longrightarrow> slice (hd ys) \<noteq> []"
    using fc by blast
  from y(2) obtain q where q: "slices_ok s (?A \<union> ?R) q ys" "{0 ..< q} \<subseteq> ?A \<union> ?R" by blast
  have "send_buffer_ok s W (?b1\<lparr>buffered_slices := ys, write_index := wi'\<rparr>)"
    using send_buffer_ok_acked [OF ok RW A1 P q y(3,4)] by (simp add: acked_state_def)
  then have "acked_ok s W b off n (?b1\<lparr>buffered_slices := ys, write_index := wi'\<rparr>)"
    unfolding acked_ok_def by (simp add: acked_state_def A1(2) P(2))
  with y(1) show ?thesis by blast
qed

lemma acked_fresh:
  assumes ok: "send_buffer_ok s W b" and n: "0 < n" "off + n \<le> stream_bytes_written b"
    and fresh: "bytes_acked b = [] \<or> off \<ge> imax (last (bytes_acked b)) \<or> IsDisjoint (bytes_acked b) (QuicInterval off (off + n))"
  shows "{off ..< off + n} \<inter> set_points (bytes_acked b) = {}"
  using disjoint_or_above [OF _ fresh] ok by (simp add: send_buffer_ok_def)

text \<open>The facts about a state that every branch of \<open>OnStreamDataAcked\<close> needs.\<close>

lemma acked_facts:
  assumes ok: "send_buffer_ok s W b" and n: "0 < n" "off + n \<le> stream_bytes_written b"
  shows "u64_add off n = off + n"
    and "\<exists>P. Set_Difference (pending_retransmissions b) (QuicInterval off (off + n)) = Some P \<and> Valid P
      \<and> set_points P = set_points (pending_retransmissions b) - {off ..< off + n}"
    and "card ({off ..< off + n} - set_points (bytes_acked b)) \<le> stream_bytes_outstanding b"
    and "u64_sub (stream_bytes_outstanding b) (card ({off ..< off + n} - set_points (bytes_acked b)))
       = stream_bytes_outstanding b - card ({off ..< off + n} - set_points (bytes_acked b))"
proof -
  have V: "Valid (pending_retransmissions b)" and AW: "set_points (bytes_acked b) \<subseteq> {0 ..< stream_bytes_written b}"
    and W: "stream_bytes_written b \<le> W" "W \<le> length s" "length s < 2 ^ 62"
    and cnt: "stream_bytes_outstanding b + card (set_points (bytes_acked b)) = stream_bytes_written b"
    using ok by (simp_all add: send_buffer_ok_def)
  have RW: "{off ..< off + n} \<subseteq> {0 ..< stream_bytes_written b}" using n by auto
  note cnts = ack_counts [OF cnt AW RW]
  show "u64_add off n = off + n" using n W by (intro u64_add_small) simp
  show "\<exists>P. Set_Difference (pending_retransmissions b) (QuicInterval off (off + n)) = Some P \<and> Valid P
      \<and> set_points P = set_points (pending_retransmissions b) - {off ..< off + n}"
    using iset.diff_returns [OF V, of "QuicInterval off (off + n)"] unfolding points_QuicInterval by blast
  show le: "card ({off ..< off + n} - set_points (bytes_acked b)) \<le> stream_bytes_outstanding b"
    using cnts by simp
  have "stream_bytes_outstanding b < 2 ^ 64" using cnt W by simp
  with le show "u64_sub (stream_bytes_outstanding b) (card ({off ..< off + n} - set_points (bytes_acked b)))
       = stream_bytes_outstanding b - card ({off ..< off + n} - set_points (bytes_acked b))"
    by (intro u64_sub_small) auto
qed

lemma OnStreamDataAcked_fresh:
  assumes ok: "send_buffer_ok s W b" and n: "0 < n" "off + n \<le> stream_bytes_written b"
    and fresh: "bytes_acked b = [] \<or> off \<ge> imax (last (bytes_acked b)) \<or> IsDisjoint (bytes_acked b) (QuicInterval off (off + n))"
  shows "\<exists>b'. OnStreamDataAcked b off n = Some (True, card ({off ..< off + n} - set_points (bytes_acked b)), b')
    \<and> acked_ok s W b off n b'"
proof -
  let ?A = "set_points (bytes_acked b)" and ?R = "{off ..< off + n}"
  note facts = acked_facts [OF ok n]
  obtain P where P: "Set_Difference (pending_retransmissions b) (QuicInterval off (off + n)) = Some P" "Valid P"
    "set_points P = set_points (pending_retransmissions b) - ?R" using facts(2) by blast
  have D: "?R - ?A = ?R" using acked_fresh [OF ok n fresh] by blast
  then have nn: "card (?R - ?A) = n" by simp
  have "off \<in> ?R - ?A" using D n(1) by simp
  from acked_state_free [OF ok n P(2,3) this] obtain b' where
    b': "free_and_clean (acked_state b off n P) off (off + n) n = (True, n, b')" "acked_ok s W b off n b'" by blast
  have n0: "n \<noteq> 0" using n(1) by simp
  have small: "\<not> stream_bytes_outstanding b < n" using facts(3) nn by simp
  have "OnStreamDataAcked b off n = Some (free_and_clean (acked_state b off n P) off (off + n) n)"
    unfolding OnStreamDataAcked_def Let_def facts(1) if_not_P [OF n0] if_P [OF fresh] P(1) if_not_P [OF small]
      bind.bind_lunit acked_state_def nn facts(4) [unfolded nn] by (rule refl)
  with b' nn show ?thesis by simp
qed

lemma OnStreamDataAcked_seen:
  assumes ok: "send_buffer_ok s W b" and n: "0 < n" "off + n \<le> stream_bytes_written b"
    and nf: "\<not> (bytes_acked b = [] \<or> off \<ge> imax (last (bytes_acked b)) \<or> IsDisjoint (bytes_acked b) (QuicInterval off (off + n)))"
    and seen: "Set_Contains (bytes_acked b) (QuicInterval off (off + n))"
  shows "\<exists>b'. OnStreamDataAcked b off n = Some (True, card ({off ..< off + n} - set_points (bytes_acked b)), b')
    \<and> acked_ok s W b off n b'"
proof -
  let ?A = "set_points (bytes_acked b)" and ?R = "{off ..< off + n}"
  have V: "Valid (bytes_acked b)" and PW: "set_points (pending_retransmissions b) \<subseteq> {0 ..< stream_bytes_written b} - ?A"
    using ok by (simp_all add: send_buffer_ok_def)
  have sub: "?R \<subseteq> ?A" using seen iset.contains_iff [OF V, of "QuicInterval off (off + n)"]
    unfolding points_QuicInterval by blast
  have n0: "n \<noteq> 0" using n(1) by simp
  have "?R - ?A = {}" "?A \<union> ?R = ?A" "set_points (pending_retransmissions b) - ?R = set_points (pending_retransmissions b)"
    using sub PW by blast+
  moreover have "OnStreamDataAcked b off n = Some (True, 0, b)"
    unfolding OnStreamDataAcked_def Let_def acked_facts(1) [OF ok n] if_not_P [OF n0] if_not_P [OF nf] if_P [OF seen] ..
  ultimately show ?thesis using ok unfolding acked_ok_def by simp
qed

lemma OnStreamDataAcked_holes:
  assumes ok: "send_buffer_ok s W b" and n: "0 < n" "off + n \<le> stream_bytes_written b"
    and nf: "\<not> (bytes_acked b = [] \<or> off \<ge> imax (last (bytes_acked b)) \<or> IsDisjoint (bytes_acked b) (QuicInterval off (off + n)))"
    and new: "\<not> Set_Contains (bytes_acked b) (QuicInterval off (off + n))"
  shows "\<exists>b'. OnStreamDataAcked b off n = Some (True, card ({off ..< off + n} - set_points (bytes_acked b)), b')
    \<and> acked_ok s W b off n b'"
proof -
  let ?A = "set_points (bytes_acked b)" and ?R = "{off ..< off + n}" and ?r = "QuicInterval off (off + n)"
  note facts = acked_facts [OF ok n]
  obtain P where P: "Set_Difference (pending_retransmissions b) ?r = Some P" "Valid P"
    "set_points P = set_points (pending_retransmissions b) - ?R" using facts(2) by blast
  have V: "Valid (bytes_acked b)" and W: "stream_bytes_written b \<le> W" "W \<le> length s" "length s < 2 ^ 62"
    using ok by (simp_all add: send_buffer_ok_def)
  have one: "Valid (Set_Add [] ?r)" "set_points (Set_Add [] ?r) = ?R"
    using iset.inv_add [of "[]" ?r] iset.pts_add [of "[]" ?r] by (simp_all add: points_QuicInterval)
  obtain N where N: "Set_Difference_set (Set_Add [] ?r) (bytes_acked b) = Some N" "Valid N"
    "set_points N = ?R - ?A"
    using Set_Difference_set_correct [OF one(1) V] unfolding one(2) by blast
  have "?R - ?A \<subseteq> {0 ..< off + n}" by auto
  moreover have "off + n < 2 ^ 62" using n W by linarith
  ultimately have newly: "interval_lengths N = card (?R - ?A)"
    using interval_lengths_card [OF N(2), of "off + n"] unfolding N(3) by blast
  have "\<not> ?R \<subseteq> ?A" using new iset.contains_iff [OF V, of ?r] n(1) by (simp add: points_QuicInterval)
  then have ne: "N \<noteq> []" using N(3) by auto
  have "hd N \<in> set N" using ne by simp
  then have "imin (hd N) < imax (hd N)" "points (hd N) \<subseteq> set_points N"
    using Valid_nonempty [OF N(2)] by (auto simp: set_points_def)
  then have start: "imin (hd N) \<in> ?R - ?A" unfolding N(3) points_def by force
  from acked_state_free [OF ok n P(2,3) start] obtain b' where
    b': "free_and_clean (acked_state b off n P) (imin (hd N)) (imax (last N)) (card (?R - ?A)) = (True, card (?R - ?A), b')"
      "acked_ok s W b off n b'" by blast
  have n0: "n \<noteq> 0" using n(1) by simp
  have small: "\<not> stream_bytes_outstanding b < card (?R - ?A)" using facts(3) by simp
  have st: "b\<lparr>stream_bytes_outstanding := u64_sub (stream_bytes_outstanding b) (card (?R - ?A)),
      bytes_acked := Set_Add (bytes_acked b) ?r, pending_retransmissions := P\<rparr> = acked_state b off n P"
    unfolding acked_state_def facts(4) by simp
  have "OnStreamDataAcked b off n =
      Some (free_and_clean (acked_state b off n P) (imin (hd N)) (imax (last N)) (card (?R - ?A)))"
    unfolding OnStreamDataAcked_def Let_def facts(1) if_not_P [OF n0] if_not_P [OF nf] if_not_P [OF new]
      P(1) N(1) bind.bind_lunit newly if_not_P [OF small] st if_not_P [OF ne] by (rule refl)
  with b' show ?thesis by simp
qed

lemma OnStreamDataAcked_correct:
  assumes "send_buffer_ok s W b" and "0 < n" "off + n \<le> stream_bytes_written b"
  shows "\<exists>b'. OnStreamDataAcked b off n = Some (True, card ({off ..< off + n} - set_points (bytes_acked b)), b')
    \<and> acked_ok s W b off n b'"
  using OnStreamDataAcked_fresh [OF assms] OnStreamDataAcked_seen [OF assms] OnStreamDataAcked_holes [OF assms]
  by blast

section \<open>Losses and retransmissions\<close>

lemma send_buffer_ok_pending:
  assumes "send_buffer_ok s W b" "Valid P" "set_points P \<subseteq> {0 ..< stream_bytes_written b} - set_points (bytes_acked b)"
  shows "send_buffer_ok s W (b\<lparr>pending_retransmissions := P\<rparr>)"
  using assms unfolding send_buffer_ok_def by simp

lemma OnStreamDataLost_correct:
  assumes ok: "send_buffer_ok s W b" and n: "0 < n" "off + n \<le> stream_bytes_written b"
  shows "\<exists>b'. OnStreamDataLost b off n = Some b' \<and> send_buffer_ok s W b'
    \<and> bytes_acked b' = bytes_acked b \<and> stream_bytes_written b' = stream_bytes_written b
    \<and> set_points (pending_retransmissions b') =
        set_points (pending_retransmissions b) \<union> ({off ..< off + n} - set_points (bytes_acked b))"
proof -
  let ?A = "set_points (bytes_acked b)" and ?R = "{off ..< off + n}" and ?r = "QuicInterval off (off + n)"
  let ?P = "pending_retransmissions b"
  have V: "Valid (bytes_acked b)" "Valid ?P"
    and PW: "set_points ?P \<subseteq> {0 ..< stream_bytes_written b} - ?A"
    using ok by (simp_all add: send_buffer_ok_def)
  have one: "Valid (Set_Add [] ?r)" "set_points (Set_Add [] ?r) = ?R"
    using iset.inv_add [of "[]" ?r] iset.pts_add [of "[]" ?r] by (simp_all add: points_QuicInterval)
  obtain L where L: "Set_Difference_set (Set_Add [] ?r) (bytes_acked b) = Some L" "Valid L"
    "set_points L = ?R - ?A"
    using Set_Difference_set_correct [OF one(1) V(1)] unfolding one(2) by blast
  let ?Q = "fold (\<lambda>lost S. Set_Add S (QuicInterval (imin lost) (imax lost))) L ?P"
  have same: "(\<lambda>lost S. Set_Add S (QuicInterval (imin lost) (imax lost))) = (\<lambda>i T. Set_Add T i)"
    by (intro ext) simp
  have Q: "Valid ?Q" "set_points ?Q = set_points ?P \<union> (?R - ?A)"
    using iset.add_all [OF V(2), of L] L(3) unfolding same by (simp_all add: set_points_def)
  have n0: "n \<noteq> 0" using n by simp
  have e: "OnStreamDataLost b off n = Some (if L = [] then b else b\<lparr>pending_retransmissions := ?Q\<rparr>)"
    unfolding OnStreamDataLost_def acked_facts(1) [OF ok n] if_not_P [OF n0] L(1) option.map by (rule refl)
  have "?R \<subseteq> {0 ..< stream_bytes_written b}" using n by auto
  then have "set_points ?Q \<subseteq> {0 ..< stream_bytes_written b} - ?A" using PW unfolding Q(2) by blast
  then have okQ: "send_buffer_ok s W (b\<lparr>pending_retransmissions := ?Q\<rparr>)"
    by (rule send_buffer_ok_pending [OF ok Q(1)])
  show ?thesis
  proof (cases "L = []")
    case True
    then have "?R - ?A = {}" using L(3) by simp
    then show ?thesis using e ok True by (auto simp: Un_absorb2)
  next
    case False
    then show ?thesis using e okQ Q(2) by simp
  qed
qed

lemma OnStreamDataRetransmitted_correct:
  assumes ok: "send_buffer_ok s W b" and n: "0 < n" "off + n \<le> stream_bytes_written b"
  shows "\<exists>b'. OnStreamDataRetransmitted b off n = Some b' \<and> send_buffer_ok s W b'
    \<and> bytes_acked b' = bytes_acked b \<and> stream_bytes_written b' = stream_bytes_written b
    \<and> set_points (pending_retransmissions b') = set_points (pending_retransmissions b) - {off ..< off + n}"
proof -
  obtain P where P: "Set_Difference (pending_retransmissions b) (QuicInterval off (off + n)) = Some P" "Valid P"
    "set_points P = set_points (pending_retransmissions b) - {off ..< off + n}"
    using acked_facts(2) [OF ok n] by blast
  have "set_points (pending_retransmissions b) \<subseteq> {0 ..< stream_bytes_written b} - set_points (bytes_acked b)"
    using ok by (simp add: send_buffer_ok_def)
  then have "send_buffer_ok s W (b\<lparr>pending_retransmissions := P\<rparr>)"
    by (intro send_buffer_ok_pending [OF ok P(2)]) (unfold P(3), blast)
  moreover have "OnStreamDataRetransmitted b off n = Some (b\<lparr>pending_retransmissions := P\<rparr>)"
    using n(1) unfolding OnStreamDataRetransmitted_def acked_facts(1) [OF ok n] P(1) by simp
  ultimately show ?thesis using P(3) by simp
qed

text \<open>
  The first interval to retransmit: it is not empty, lies within the data written and not
  acknowledged, and starts at the least offset that is pending.
\<close>

lemma NextPendingRetransmission_correct:
  assumes ok: "send_buffer_ok s W b" and has: "HasPendingRetransmission b"
  shows "case NextPendingRetransmission b of (off, n) \<Rightarrow> 0 < n \<and> off + n \<le> stream_bytes_written b
    \<and> {off ..< off + n} \<subseteq> set_points (pending_retransmissions b)
    \<and> {off ..< off + n} \<inter> set_points (bytes_acked b) = {}
    \<and> (\<forall>x \<in> set_points (pending_retransmissions b). off \<le> x)"
proof -
  let ?P = "pending_retransmissions b"
  have ne: "?P \<noteq> []" using has by (simp add: HasPendingRetransmission_def Set_Empty_def)
  have V: "Valid ?P" and PW: "set_points ?P \<subseteq> {0 ..< stream_bytes_written b} - set_points (bytes_acked b)"
    and W: "stream_bytes_written b \<le> W" "W \<le> length s" "length s < 2 ^ 62"
    using ok by (simp_all add: send_buffer_ok_def)
  let ?i = "hd ?P"
  have "?i \<in> set ?P" using ne by simp
  then have i: "imin ?i < imax ?i" "points ?i \<subseteq> set_points ?P"
    using Valid_nonempty [OF V] by (auto simp: set_points_def)
  have last: "imax ?i - 1 \<in> set_points ?P"
    using i by (auto simp: points_def subset_iff)
  then have "imax ?i - 1 < stream_bytes_written b" using PW by auto
  then have le: "imax ?i \<le> stream_bytes_written b" by simp
  have "u64_sub (imax ?i) (imin ?i) = imax ?i - imin ?i"
    using i(1) le W by (intro u64_sub_small) auto
  then have e: "NextPendingRetransmission b = (imin ?i, imax ?i - imin ?i)"
    using has by (simp add: NextPendingRetransmission_def Let_def)
  have pts: "{imin ?i ..< imax ?i} = points ?i"
    by (simp add: points_def)
  have "imin ?i \<le> x" if "x \<in> set_points ?P" for x
    using SpanningInterval_points [OF V ne] that by (auto simp: points_def)
  moreover have "points ?i \<inter> set_points (bytes_acked b) = {}" using i(2) PW by blast
  ultimately show ?thesis using e i le pts by simp
qed


section \<open>Runs\<close>

text \<open>
  The runs of a send buffer: the stream saved so far, the offset at which the next new byte is to be
  written, and the buffer. The stream writes new data at that offset, or again data before it; it
  counts as consumed what it has written; acknowledgements, losses and retransmissions concern
  data it has consumed.
\<close>

type_synonym sending = "byte list \<times> nat \<times> QuicStreamSendBuffer"

inductive sb_step :: "sending \<Rightarrow> sending \<Rightarrow> bool" where
  save: "length s + length bs < 2 ^ 62 \<Longrightarrow> sb_step (s, W, b) (s @ bs, W, SaveMemSlice b bs)"
| send: "off = W \<or> off + n \<le> W \<Longrightarrow> off + n \<le> length s \<Longrightarrow> 0 < n \<Longrightarrow>
     {off ..< off + n} \<inter> set_points (bytes_acked b) = {} \<Longrightarrow> writer_ok w \<Longrightarrow> n \<le> remaining w \<Longrightarrow>
     WriteStreamData b off n w = (True, b', w') \<Longrightarrow> sb_step (s, W, b) (s, max W (off + n), b')"
| consumed: "stream_bytes_written b + n \<le> W \<Longrightarrow> sb_step (s, W, b) (s, W, OnStreamDataConsumed b n)"
| acked: "0 < n \<Longrightarrow> off + n \<le> stream_bytes_written b \<Longrightarrow> OnStreamDataAcked b off n = Some (r, k, b') \<Longrightarrow>
     sb_step (s, W, b) (s, W, b')"
| lost: "0 < n \<Longrightarrow> off + n \<le> stream_bytes_written b \<Longrightarrow> OnStreamDataLost b off n = Some b' \<Longrightarrow>
     sb_step (s, W, b) (s, W, b')"
| retransmitted: "0 < n \<Longrightarrow> off + n \<le> stream_bytes_written b \<Longrightarrow>
     OnStreamDataRetransmitted b off n = Some b' \<Longrightarrow> sb_step (s, W, b) (s, W, b')"

inductive sending_reachable :: "sending \<Rightarrow> bool" where
  start: "sending_reachable ([], 0, new_QuicStreamSendBuffer)"
| step: "sending_reachable x \<Longrightarrow> sb_step x y \<Longrightarrow> sending_reachable y"

lemma new_send_buffer_ok: "send_buffer_ok [] 0 new_QuicStreamSendBuffer"
  by (simp add: send_buffer_ok_def new_QuicStreamSendBuffer_def write_index_ok_def set_points_def)

lemma OnStreamDataConsumed_ok:
  assumes "send_buffer_ok s W b" "stream_bytes_written b + n \<le> W"
  shows "send_buffer_ok s W (OnStreamDataConsumed b n)
    \<and> stream_bytes_written (OnStreamDataConsumed b n) = stream_bytes_written b + n
    \<and> stream_bytes_outstanding (OnStreamDataConsumed b n) = stream_bytes_outstanding b + n"
proof -
  have W: "stream_bytes_written b \<le> W" "W \<le> length s" "length s < 2 ^ 62"
    and c: "stream_bytes_outstanding b + card (set_points (bytes_acked b)) = stream_bytes_written b"
    and sub: "set_points (bytes_acked b) \<subseteq> {0 ..< stream_bytes_written b}"
      "set_points (pending_retransmissions b) \<subseteq> {0 ..< stream_bytes_written b} - set_points (bytes_acked b)"
    using assms(1) by (simp_all add: send_buffer_ok_def)
  have "{0 ..< stream_bytes_written b} \<subseteq> {0 ..< stream_bytes_written b + n}" by auto
  then have sub': "set_points (bytes_acked b) \<subseteq> {0 ..< stream_bytes_written b + n}"
      "set_points (pending_retransmissions b) \<subseteq> {0 ..< stream_bytes_written b + n} - set_points (bytes_acked b)"
    using sub by blast+
  have e: "u64_add (stream_bytes_written b) n = stream_bytes_written b + n"
    "u64_add (stream_bytes_outstanding b) n = stream_bytes_outstanding b + n"
    using assms(2) W c by (simp_all add: u64_add_small)
  show ?thesis
    using assms sub' c unfolding OnStreamDataConsumed_def e send_buffer_ok_def by simp
qed

lemma sb_step_ok:
  assumes ok: "send_buffer_ok s W b" and "sb_step (s, W, b) y"
  shows "case y of (s', W', b') \<Rightarrow> send_buffer_ok s' W' b'"
  using assms(2)
proof cases
  case (save bs)
  then show ?thesis using SaveMemSlice_ok [OF ok] by simp
next
  case (send off n w b' w')
  then show ?thesis using WriteStreamData_correct [OF ok send(2-7)] by auto
next
  case (consumed n)
  then show ?thesis using OnStreamDataConsumed_ok [OF ok] by simp
next
  case (acked n off r k b')
  then show ?thesis using OnStreamDataAcked_correct [OF ok acked(2,3)] by (auto simp: acked_ok_def)
next
  case (lost n off b')
  then show ?thesis using OnStreamDataLost_correct [OF ok lost(2,3)] by auto
next
  case (retransmitted n off b')
  then show ?thesis using OnStreamDataRetransmitted_correct [OF ok retransmitted(2,3)] by auto
qed

lemma sending_reachable_ok: "sending_reachable x \<Longrightarrow> case x of (s, W, b) \<Rightarrow> send_buffer_ok s W b"
proof (induction rule: sending_reachable.induct)
  case start
  show ?case by (simp add: new_send_buffer_ok)
next
  case (step x y)
  then show ?case using sb_step_ok [of "fst x" "fst (snd x)" "snd (snd x)" y] by (simp add: case_prod_beta)
qed


section \<open>Properties\<close>

text \<open>
  C17: in every run of a send buffer, whatever has been saved, acknowledged, lost and retransmitted
  before, writing new data at the write position or data before it again succeeds when the writer
  has room, and appends exactly the bytes of the stream at that range, provided no byte of the range has
  been acknowledged. Memory is thus never freed early, and the write index never points past data.
\<close>

theorem send_buffer_writes_stream:
  assumes "sending_reachable (s, W, b)"
    and "off = W \<or> off + n \<le> W" "off + n \<le> length s" "0 < n"
    and "{off ..< off + n} \<inter> set_points (bytes_acked b) = {}"
    and "writer_ok w" "n \<le> remaining w"
  shows "\<exists>b' w'. WriteStreamData b off n w = (True, b', w') \<and> written w' = written w @ take n (drop off s)
    \<and> sending_reachable (s, max W (off + n), b')"
proof -
  have ok: "send_buffer_ok s W b" using sending_reachable_ok [OF assms(1)] by simp
  from WriteStreamData_correct [OF ok assms(2-7)] obtain b' where
    b': "WriteStreamData b off n w = (True, b', store_next (take n (drop off s)) w)" by blast
  have "sb_step (s, W, b) (s, max W (off + n), b')"
    using assms(2-7) b' by (rule sb_step.send)
  with assms(1) have "sending_reachable (s, max W (off + n), b')" by (rule sending_reachable.step)
  with b' assms(3,6,7) show ?thesis by simp
qed

text \<open>A run used as an example: five bytes in two slices, all of them written and consumed.\<close>

definition example_saved :: QuicStreamSendBuffer where
  "example_saved = SaveMemSlice (SaveMemSlice new_QuicStreamSendBuffer [1, 2, 3]) [4, 5]"

definition example_sent :: QuicStreamSendBuffer where
  "example_sent = OnStreamDataConsumed (example_saved\<lparr>write_index := -1\<rparr>) 5"

definition example_buffer_writer :: QuicDataWriter where
  "example_buffer_writer = new_QuicDataWriter (replicate 8 0) NETWORK_BYTE_ORDER"

lemma example_saved_reachable: "sending_reachable ([1, 2, 3, 4, 5], 0, example_saved)"
proof -
  note start = sending_reachable.start
  have "sending_reachable ([1, 2, 3], 0, SaveMemSlice new_QuicStreamSendBuffer [1, 2, 3])"
    using sending_reachable.step [OF start sb_step.save [of "[]" "[1, 2, 3]"]] by simp
  from sending_reachable.step [OF this sb_step.save [of "[1, 2, 3]" "[4, 5]"]]
  show ?thesis by (simp add: example_saved_def)
qed

lemma example_saved_eq:
  "example_saved = \<lparr> buffered_slices = [\<lparr>slice = [1, 2, 3], slice_offset = 0\<rparr>, \<lparr>slice = [4, 5], slice_offset = 3\<rparr>],
     stream_offset = 5, stream_bytes_written = 0, stream_bytes_outstanding = 0, bytes_acked = [],
     pending_retransmissions = [], write_index = 0 \<rparr>"
  by (simp add: example_saved_def SaveMemSlice_def new_QuicStreamSendBuffer_def u64_add_def)

theorem send_buffer_writes_stream_witness:
  "\<exists>b' w'. WriteStreamData example_saved 0 4 example_buffer_writer = (True, b', w') \<and> written w' = [1, 2, 3, 4]
     \<and> sending_reachable ([1, 2, 3, 4, 5], 4, b')"
proof -
  have "writer_ok example_buffer_writer" "4 \<le> remaining example_buffer_writer" "written example_buffer_writer = []"
    by (simp_all add: example_buffer_writer_def new_QuicDataWriter_def writer_ok_def remaining_def written_def)
  then show ?thesis
    using send_buffer_writes_stream [OF example_saved_reachable, of 0 4 example_buffer_writer]
    by (simp add: example_saved_eq set_points_def)
qed


lemma example_written:
  "WriteStreamData example_saved 0 5 example_buffer_writer =
     (True, example_saved\<lparr>write_index := -1\<rparr>, store_next [4, 5] (store_next [1, 2, 3] example_buffer_writer))"
  by (simp add: WriteStreamData_def example_saved_eq example_buffer_writer_def new_QuicDataWriter_def
      WriteBytes_def BeginWrite_def store_next_def memcpy_def)

lemma example_sent_reachable: "sending_reachable ([1, 2, 3, 4, 5], 5, example_sent)"
proof -
  have "writer_ok example_buffer_writer" "5 \<le> remaining example_buffer_writer"
    by (simp_all add: example_buffer_writer_def new_QuicDataWriter_def writer_ok_def remaining_def)
  then have "sb_step ([1, 2, 3, 4, 5], 0, example_saved) ([1, 2, 3, 4, 5], max 0 (0 + 5), example_saved\<lparr>write_index := -1\<rparr>)"
    by (intro sb_step.send [OF _ _ _ _ _ _ example_written]) (simp_all add: example_saved_eq set_points_def)
  from sending_reachable.step [OF example_saved_reachable this]
  have "sending_reachable ([1, 2, 3, 4, 5], 5, example_saved\<lparr>write_index := -1\<rparr>)" by simp
  from sending_reachable.step [OF this sb_step.consumed [of _ 5]]
  show ?thesis by (simp add: example_sent_def example_saved_eq)
qed

text \<open>
  C21: acknowledging a range that has been sent always succeeds. The length it reports as newly
  acknowledged is the number of its bytes that were not acknowledged before, so a byte counts once
  however often and however fragmented it is acknowledged; that number is taken off the outstanding
  bytes, the range is added to the acknowledged set and dropped from what is to be retransmitted.
\<close>

theorem send_buffer_acks:
  assumes "sending_reachable (s, W, b)" and "0 < n" "off + n \<le> stream_bytes_written b"
  shows "\<exists>b'. OnStreamDataAcked b off n =
      Some (True, card ({off ..< off + n} - set_points (bytes_acked b)), b')
    \<and> set_points (bytes_acked b') = set_points (bytes_acked b) \<union> {off ..< off + n}
    \<and> set_points (pending_retransmissions b') = set_points (pending_retransmissions b) - {off ..< off + n}
    \<and> stream_bytes_outstanding b' + card (set_points (bytes_acked b')) = stream_bytes_written b
    \<and> \<not> IsStreamDataOutstanding b' off n"
proof -
  have ok: "send_buffer_ok s W b" using sending_reachable_ok [OF assms(1)] by simp
  obtain b' where b': "OnStreamDataAcked b off n = Some (True, card ({off ..< off + n} - set_points (bytes_acked b)), b')"
    "acked_ok s W b off n b'" using OnStreamDataAcked_correct [OF ok assms(2,3)] by blast
  have ok': "send_buffer_ok s W b'" and eqs: "set_points (bytes_acked b') = set_points (bytes_acked b) \<union> {off ..< off + n}"
    "stream_bytes_written b' = stream_bytes_written b"
    "set_points (pending_retransmissions b') = set_points (pending_retransmissions b) - {off ..< off + n}"
    using b'(2) by (simp_all add: acked_ok_def)
  have V: "Valid (bytes_acked b')"
    and cnt: "stream_bytes_outstanding b' + card (set_points (bytes_acked b')) = stream_bytes_written b'"
    using ok' by (simp_all add: send_buffer_ok_def)
  have "\<not> IsStreamDataOutstanding b' off n"
    using iset.contains_iff [OF V, of "QuicInterval off (off + n)"] eqs(1) assms(2)
    unfolding IsStreamDataOutstanding_def acked_facts(1) [OF ok assms(2,3)] points_QuicInterval by simp
  with b'(1) eqs cnt show ?thesis by simp
qed

theorem send_buffer_acks_witness:
  "\<exists>b'. OnStreamDataAcked example_sent 1 3 = Some (True, 3, b') \<and> set_points (bytes_acked b') = {1, 2, 3}"
proof -
  have e: "stream_bytes_written example_sent = 5" "bytes_acked example_sent = []"
    by (simp_all add: example_sent_def example_saved_eq OnStreamDataConsumed_def u64_add_def)
  moreover have "{1 ..< 4} = {1, 2, 3 :: nat}" by auto
  ultimately show ?thesis
    using send_buffer_acks [OF example_sent_reachable, of 3 1] by (auto simp: set_points_def)
qed

text \<open>
  C25: a loss marks exactly the bytes of the range that are not acknowledged for retransmission,
  and the next retransmission is then a non-empty range that was sent, lies within what is marked, is
  nowhere acknowledged, and starts at the least marked offset.
\<close>

theorem send_buffer_losses:
  assumes "sending_reachable (s, W, b)" and "0 < n" "off + n \<le> stream_bytes_written b"
  shows "\<exists>b'. OnStreamDataLost b off n = Some b'
    \<and> set_points (pending_retransmissions b') =
        set_points (pending_retransmissions b) \<union> ({off ..< off + n} - set_points (bytes_acked b))
    \<and> (HasPendingRetransmission b' \<longrightarrow>
        (case NextPendingRetransmission b' of (o', n') \<Rightarrow> 0 < n' \<and> o' + n' \<le> stream_bytes_written b
          \<and> {o' ..< o' + n'} \<subseteq> set_points (pending_retransmissions b') - set_points (bytes_acked b)
          \<and> (\<forall>x \<in> set_points (pending_retransmissions b'). o' \<le> x)))"
proof -
  have ok: "send_buffer_ok s W b" using sending_reachable_ok [OF assms(1)] by simp
  obtain b' where b': "OnStreamDataLost b off n = Some b'" "send_buffer_ok s W b'"
    "bytes_acked b' = bytes_acked b" "stream_bytes_written b' = stream_bytes_written b"
    "set_points (pending_retransmissions b') =
        set_points (pending_retransmissions b) \<union> ({off ..< off + n} - set_points (bytes_acked b))"
    using OnStreamDataLost_correct [OF ok assms(2,3)] by blast
  have "case NextPendingRetransmission b' of (o', n') \<Rightarrow> 0 < n' \<and> o' + n' \<le> stream_bytes_written b
      \<and> {o' ..< o' + n'} \<subseteq> set_points (pending_retransmissions b') - set_points (bytes_acked b)
      \<and> (\<forall>x \<in> set_points (pending_retransmissions b'). o' \<le> x)" if "HasPendingRetransmission b'"
    using NextPendingRetransmission_correct [OF b'(2) that] unfolding b'(3,4)
    by (cases "NextPendingRetransmission b'") (simp, blast)
  with b'(1,5) show ?thesis by (intro exI [of _ b']) simp
qed

theorem send_buffer_losses_witness:
  "\<exists>b'. OnStreamDataLost example_sent 1 3 = Some b' \<and> set_points (pending_retransmissions b') = {1, 2, 3}"
proof -
  have e: "stream_bytes_written example_sent = 5" "bytes_acked example_sent = []"
    "pending_retransmissions example_sent = []"
    by (simp_all add: example_sent_def example_saved_eq OnStreamDataConsumed_def u64_add_def)
  moreover have "{1 ..< 4} = {1, 2, 3 :: nat}" by auto
  ultimately show ?thesis
    using send_buffer_losses [OF example_sent_reachable, of 3 1] by (auto simp: set_points_def)
qed

end
