(* ===== verification/Quic_Frame_Codec.thy ===== *)
theory Quic_Frame_Codec
  imports Quic_Wire_Codec
begin

text \<open>
  The shape of the frame methods of \<open>QuicFramer\<close> (src/quic/core/quic_framer.cc): a \<open>Process\<close> method is
  a sequence of reads, each followed by \<open>set_detailed_error\<close> and \<open>return false\<close> where it fails, and
  an \<open>Append\<close> method a sequence of writes of that kind. The first section has the combinators the frame
  theories build these methods with; the second one the composition laws, from which the codec law of
  a frame follows field by field; the third the contract of a frame as a locale.
\<close>

section \<open>Sequences of reads and writes\<close>

text \<open>\<open>Inl\<close> carries the detail of the error; the cursor stays where the failing read left it.\<close>

type_synonym 'a reading = "QuicDataReader \<Rightarrow> (string + 'a) \<times> QuicDataReader"
type_synonym writing = "QuicDataWriter \<Rightarrow> (string + unit) \<times> QuicDataWriter"

definition reads ::
    "string \<Rightarrow> (QuicDataReader \<Rightarrow> 'a option \<times> QuicDataReader) \<Rightarrow> ('a \<Rightarrow> 'b reading) \<Rightarrow> 'b reading" where
  "reads msg R k r = (case R r of (None, r') \<Rightarrow> (Inl msg, r') | (Some v, r') \<Rightarrow> k v r')"

definition rejects :: "bool \<Rightarrow> string \<Rightarrow> 'b reading \<Rightarrow> 'b reading" where
  "rejects c msg k r = (if c then (Inl msg, r) else k r)"

definition gives :: "'a \<Rightarrow> 'a reading" where
  "gives v r = (Inr v, r)"

definition reads_when ::
    "bool \<Rightarrow> string \<Rightarrow> (QuicDataReader \<Rightarrow> 'a option \<times> QuicDataReader) \<Rightarrow> 'a \<Rightarrow> ('a \<Rightarrow> 'b reading) \<Rightarrow> 'b reading" where
  "reads_when c msg R d k = (if c then reads msg R k else k d)"

definition writes ::
    "string \<Rightarrow> (QuicDataWriter \<Rightarrow> bool \<times> QuicDataWriter) \<Rightarrow> writing \<Rightarrow> writing" where
  "writes msg W k w = (case W w of (False, w') \<Rightarrow> (Inl msg, w') | (True, w') \<Rightarrow> k w')"

definition writes_when ::
    "bool \<Rightarrow> string \<Rightarrow> (QuicDataWriter \<Rightarrow> bool \<times> QuicDataWriter) \<Rightarrow> writing \<Rightarrow> writing" where
  "writes_when c msg W k = (if c then writes msg W k else k)"

definition refuses :: "bool \<Rightarrow> string \<Rightarrow> writing \<Rightarrow> writing" where
  "refuses c msg k w = (if c then (Inl msg, w) else k w)"

definition complete :: writing where
  "complete w = (Inr (), w)"

section \<open>Composition\<close>

text \<open>
  \<open>reads_as R e v\<close>: a read method returns \<open>v\<close> from the bytes \<open>e\<close>; \<open>writes_as W e\<close>: a write method
  appends them. \<open>parses\<close> and \<open>emits\<close> say the same of a sequence.
\<close>

definition reads_as :: "(QuicDataReader \<Rightarrow> 'a option \<times> QuicDataReader) \<Rightarrow> byte list \<Rightarrow> 'a \<Rightarrow> bool" where
  "reads_as R e v \<longleftrightarrow> (\<forall>r t. net_reader r \<longrightarrow> PeekRemainingPayload r = e @ t \<longrightarrow>
     R r = (Some v, advance (length e) r))"

definition parses :: "'a reading \<Rightarrow> byte list \<Rightarrow> 'a \<Rightarrow> bool" where
  "parses P e v \<longleftrightarrow> (\<forall>r t. net_reader r \<longrightarrow> PeekRemainingPayload r = e @ t \<longrightarrow>
     P r = (Inr v, advance (length e) r))"

text \<open>The same where the bytes must be all that remains.\<close>

definition parses_rest :: "'a reading \<Rightarrow> byte list \<Rightarrow> 'a \<Rightarrow> bool" where
  "parses_rest P e v \<longleftrightarrow> (\<forall>r. net_reader r \<longrightarrow> PeekRemainingPayload r = e \<longrightarrow>
     P r = (Inr v, advance (length e) r))"

definition writes_as :: "(QuicDataWriter \<Rightarrow> bool \<times> QuicDataWriter) \<Rightarrow> byte list \<Rightarrow> bool" where
  "writes_as W e \<longleftrightarrow> (\<forall>w. net_writer w \<longrightarrow>
     (if length e \<le> remaining w then W w = (True, store_next e w) else \<not> fst (W w)))"

definition emits :: "writing \<Rightarrow> byte list \<Rightarrow> bool" where
  "emits W e \<longleftrightarrow> (\<forall>w. net_writer w \<longrightarrow>
     (if length e \<le> remaining w then W w = (Inr (), store_next e w) else \<exists>m. fst (W w) = Inl m))"

named_theorems codec_intros \<open>the composition laws of \<open>parses\<close> and \<open>emits\<close> and the fields they rest on\<close>

lemma reads_asD:
  "reads_as R e v \<Longrightarrow> net_reader r \<Longrightarrow> PeekRemainingPayload r = e @ t \<Longrightarrow> R r = (Some v, advance (length e) r)"
  by (auto simp: reads_as_def)

lemma parsesD:
  "parses P e v \<Longrightarrow> net_reader r \<Longrightarrow> PeekRemainingPayload r = e @ t \<Longrightarrow> P r = (Inr v, advance (length e) r)"
  by (auto simp: parses_def)

lemma parses_restD:
  "parses_rest P e v \<Longrightarrow> net_reader r \<Longrightarrow> PeekRemainingPayload r = e \<Longrightarrow> P r = (Inr v, advance (length e) r)"
  by (auto simp: parses_rest_def)

lemma parses_parses_rest: "parses P e v \<Longrightarrow> parses_rest P e v"
  by (simp add: parses_def parses_rest_def)

lemma net_reader_step:
  "net_reader r \<Longrightarrow> PeekRemainingPayload r = e @ t \<Longrightarrow> net_reader (advance (length e) r)"
  "PeekRemainingPayload r = e @ t \<Longrightarrow> PeekRemainingPayload (advance (length e) r) = t"
  by (simp_all add: PeekRemainingPayload_advance)

lemma parses_gives [codec_intros]: "parses (gives v) [] v"
  by (simp add: parses_def gives_def)

lemma parses_rest_gives [codec_intros]: "parses_rest (gives v) [] v"
  by (simp add: parses_rest_def gives_def)

lemma parses_reads [codec_intros]:
  assumes "reads_as R e v" "parses (k v) es u"
  shows "parses (reads msg R k) (e @ es) u"
  using assms unfolding parses_def reads_def
  by (simp add: reads_asD net_reader_step)

lemma parses_rest_reads [codec_intros]:
  assumes "reads_as R e v" "parses_rest (k v) es u"
  shows "parses_rest (reads msg R k) (e @ es) u"
  using assms unfolding parses_rest_def reads_def
  by (simp add: reads_asD [where e = e and t = es] net_reader_step)

lemma parses_rejects [codec_intros]: "\<not> c \<Longrightarrow> parses k e v \<Longrightarrow> parses (rejects c msg k) e v"
  by (simp add: parses_def rejects_def)

lemma parses_rest_rejects [codec_intros]: "\<not> c \<Longrightarrow> parses_rest k e v \<Longrightarrow> parses_rest (rejects c msg k) e v"
  by (simp add: parses_rest_def rejects_def)

lemma parses_reads_when [codec_intros]:
  assumes "c \<Longrightarrow> reads_as R e v" "parses (k (if c then v else d)) es u"
  shows "parses (reads_when c msg R d k) ((if c then e else []) @ es) u"
  using assms by (cases c) (simp_all add: reads_when_def parses_reads)

lemma parses_rest_reads_when [codec_intros]:
  assumes "c \<Longrightarrow> reads_as R e v" "parses_rest (k (if c then v else d)) es u"
  shows "parses_rest (reads_when c msg R d k) ((if c then e else []) @ es) u"
  using assms by (cases c) (simp_all add: reads_when_def parses_rest_reads)

lemma parses_last: "reads_as R e v \<Longrightarrow> parses (k v) [] u \<Longrightarrow> parses (reads msg R k) e u"
  using parses_reads [of R e v k "[]" u] by simp

lemma emits_complete [codec_intros]: "emits complete []"
  by (simp add: emits_def complete_def store_next_Nil)

lemma emits_writes [codec_intros]:
  assumes "writes_as W e" "emits k es"
  shows "emits (writes msg W k) (e @ es)"
proof -
  have "if length (e @ es) \<le> remaining w then writes msg W k w = (Inr (), store_next (e @ es) w)
      else \<exists>m. fst (writes msg W k w) = Inl m" if w: "net_writer w" for w
  proof (cases "length e \<le> remaining w")
    case True
    then have W: "W w = (True, store_next e w)" "net_writer (store_next e w)"
      using assms(1) w by (auto simp: writes_as_def)
    then have k: "if length es \<le> remaining w - length e then k (store_next e w) = (Inr (), store_next es (store_next e w))
        else \<exists>m. fst (k (store_next e w)) = Inl m"
      using assms(2) by (auto simp: emits_def)
    show ?thesis
    proof (cases "length es \<le> remaining w - length e")
      case fit: True
      then show ?thesis using k W True w
        by (simp add: writes_def store_next_store_next net_writerD)
    next
      case False
      then have "\<not> length (e @ es) \<le> remaining w" using True by simp
      then show ?thesis using k W False by (simp add: writes_def)
    qed
  next
    case False
    then have "\<not> fst (W w)" using assms(1) w by (simp add: writes_as_def)
    with False show ?thesis by (auto simp: writes_def split: prod.splits bool.splits)
  qed
  then show ?thesis by (simp add: emits_def)
qed

lemma emits_writes_when [codec_intros]:
  assumes "c \<Longrightarrow> writes_as W e" "emits k es"
  shows "emits (writes_when c msg W k) ((if c then e else []) @ es)"
  using assms by (cases c) (simp_all add: writes_when_def emits_writes)

lemma emits_eq: "emits W e \<Longrightarrow> e = e' \<Longrightarrow> emits W e'"
  by simp

lemma emits_end: "emits W (e @ []) \<Longrightarrow> emits W e"
  by simp

lemma parses_end: "parses P (e @ []) v \<Longrightarrow> parses P e v"
  by simp

lemma parses_rest_end: "parses_rest P (e @ []) v \<Longrightarrow> parses_rest P e v"
  by simp

lemma emits_refuses [codec_intros]: "\<not> c \<Longrightarrow> emits k e \<Longrightarrow> emits (refuses c msg k) e"
  by (simp add: emits_def refuses_def)

text \<open>Fields: every pair of methods that keeps the contract of the wire codecs can be a field.\<close>

context wire_codec
begin

lemma reads_as_enc: "valid v \<Longrightarrow> reads_as rd (enc v) v"
  using rd_enc by (simp add: reads_as_def)

lemma writes_as_enc: "valid v \<Longrightarrow> writes_as (wr v) (enc v)"
  using wr_room wr_no_room by (auto simp: writes_as_def)

end

lemma ReadStringPiece_reads_as [codec_intros]: "length bs = n \<Longrightarrow> reads_as (ReadStringPiece n) bs bs"
  unfolding ReadStringPiece_eq_ReadBytes [abs_def] by (rule bytes_codec.reads_as_enc)

lemma WriteStringPieceVarInt62_writes_as [codec_intros]:
  assumes "length bs < 2 ^ 62"
  shows "writes_as (WriteStringPieceVarInt62 bs) (varint62_bytes (word_of_nat (length bs)) @ bs)"
proof -
  let ?e = "varint62_bytes (word_of_nat (length bs))"
  have v: "unat (word_of_nat (length bs) :: u64) < 2 ^ 62"
    using assms by (simp add: unat_of_nat)
  have "if length (?e @ bs) \<le> remaining w then WriteStringPieceVarInt62 bs w = (True, store_next (?e @ bs) w)
      else \<not> fst (WriteStringPieceVarInt62 bs w)" if w: "net_writer w" for w
  proof (cases "length ?e \<le> remaining w")
    case True
    then have "WriteVarInt62 (word_of_nat (length bs)) w = (True, store_next ?e w)"
      using w v by (intro varint62_codec.wr_room)
    with w True show ?thesis
      by (cases "bs = []") (auto simp: WriteStringPieceVarInt62_def WriteBytes_eq net_writerD)
  next
    case False
    then have "\<not> fst (WriteVarInt62 (word_of_nat (length bs)) w)"
      using w v by (intro varint62_codec.wr_no_room) auto
    with False show ?thesis
      by (auto simp: WriteStringPieceVarInt62_def split: prod.splits bool.splits)
  qed
  then show ?thesis by (simp add: writes_as_def)
qed

section \<open>The contract of a frame\<close>

text \<open>
  A frame codec is a pair of an \<open>Append\<close> and a \<open>Process\<close> method, the image of a frame on the wire
  and the frame a receiver makes of it (fields that are not sent, such as the control frame id, are
  at their defaults there).
\<close>

locale frame_codec =
  fixes app :: "'a \<Rightarrow> writing"
    and proc :: "'b reading"
    and image :: "'a \<Rightarrow> byte list"
    and received :: "'a \<Rightarrow> 'b"
    and valid :: "'a \<Rightarrow> bool"
  assumes app_image: "valid f \<Longrightarrow> emits (app f) (image f)"
    and proc_image: "valid f \<Longrightarrow> parses proc (image f) (received f)"
begin

lemma app_room:
  "valid f \<Longrightarrow> net_writer w \<Longrightarrow> length (image f) \<le> remaining w \<Longrightarrow> app f w = (Inr (), store_next (image f) w)"
  using app_image by (auto simp: emits_def)

lemma app_succeeds_iff:
  assumes "valid f" "net_writer w"
  shows "fst (app f w) = Inr () \<longleftrightarrow> length (image f) \<le> remaining w"
  using app_image [OF assms(1)] assms(2) by (cases "length (image f) \<le> remaining w") (auto simp: emits_def)

text \<open>A frame that was appended is processed as the frame the receiver should see.\<close>

lemma processed:
  assumes "valid f" "net_writer w" "app f w = (Inr (), w')"
  shows "proc (reader_at (written w' @ t) (wr_length w)) =
    (Inr (received f), reader_at (written w' @ t) (wr_length w'))"
proof -
  have fits: "length (image f) \<le> remaining w"
    using app_succeeds_iff [OF assms(1,2)] assms(3) by simp
  then have w': "w' = store_next (image f) w" using app_room assms by simp
  have ok: "writer_ok w" using assms(2) by (rule net_writerD)
  have "written w' = written w @ image f" "wr_length w' = wr_length w + length (image f)"
    using w' fits ok by (simp_all add: store_next_def) (simp add: written_store_next flip: store_next_def)
  then show ?thesis
    using parsesD [OF proc_image [OF assms(1)], of "reader_at (written w' @ t) (wr_length w)" t] ok
    by (simp add: length_written)
qed

end

section \<open>Progress\<close>

text \<open>No read moves the cursor back: what remains never grows. The loops over frames end for this reason.\<close>

definition shrinks :: "(QuicDataReader \<Rightarrow> 'a \<times> QuicDataReader) \<Rightarrow> bool" where
  "shrinks R \<longleftrightarrow> (\<forall>r. BytesRemaining (snd (R r)) \<le> BytesRemaining r)"

named_theorems shrink_intros \<open>reads that never grow what remains\<close>

lemma shrinks_reads [shrink_intros]: "shrinks R \<Longrightarrow> (\<And>v. shrinks (k v)) \<Longrightarrow> shrinks (reads msg R k)"
  unfolding shrinks_def reads_def by (auto split: prod.splits option.splits) (metis dual_order.trans snd_conv)+

lemma shrinks_reads_when [shrink_intros]:
  "shrinks R \<Longrightarrow> (\<And>v. shrinks (k v)) \<Longrightarrow> shrinks (reads_when c msg R d k)"
  by (simp add: reads_when_def [abs_def] shrinks_reads)

lemma shrinks_rejects [shrink_intros]: "shrinks k \<Longrightarrow> shrinks (rejects c msg k)"
  by (simp add: shrinks_def rejects_def)

lemma shrinks_gives [shrink_intros]: "shrinks (gives v)"
  by (simp add: shrinks_def gives_def)

lemma shrinks_if [shrink_intros]: "shrinks P \<Longrightarrow> shrinks Q \<Longrightarrow> shrinks (if c then P else Q)"
  by simp

lemma shrinks_ReadBytes [shrink_intros]: "shrinks (ReadBytes n)"
  by (auto simp: shrinks_def ReadBytes_def OnFailure_def BytesRemaining_def)

lemma shrinks_ReadStringPiece [shrink_intros]: "shrinks (ReadStringPiece n)"
  unfolding ReadStringPiece_eq_ReadBytes [abs_def] by (rule shrinks_ReadBytes)

lemma shrinks_case [shrink_intros]:
  assumes "shrinks R"
  shows "shrinks (\<lambda>r. case R r of (None, r') \<Rightarrow> (None, r') | (Some v, r') \<Rightarrow> (Some (f v), r'))"
  using assms unfolding shrinks_def by (auto split: prod.splits option.splits) (metis snd_conv)+

lemma shrinks_ReadUInt8 [shrink_intros]: "shrinks ReadUInt8"
  unfolding ReadUInt8_def [abs_def] by (intro shrink_intros)

lemma shrinks_ReadVarInt62 [shrink_intros]: "shrinks ReadVarInt62"
  by (auto simp: shrinks_def ReadVarInt62_def Let_def BytesRemaining_def)

lemma ReadVarInt62_progress:
  "ReadVarInt62 r = (Some v, r') \<Longrightarrow> BytesRemaining r' < BytesRemaining r"
  by (auto simp: ReadVarInt62_def Let_def BytesRemaining_def split: if_splits)

lemma shrinks_ReadVarIntU32 [shrink_intros]: "shrinks ReadVarIntU32"
proof -
  have "BytesRemaining (snd (ReadVarIntU32 r)) \<le> BytesRemaining r" for r
    using shrinks_ReadVarInt62 unfolding shrinks_def ReadVarIntU32_def
    by (auto split: prod.splits option.splits) (metis snd_conv)+
  then show ?thesis by (simp add: shrinks_def)
qed

lemma shrinks_ReadUInt16 [shrink_intros]: "shrinks ReadUInt16"
proof -
  have "BytesRemaining (snd (ReadUInt16 r)) \<le> BytesRemaining r" for r
    using shrinks_ReadBytes [of 2] unfolding shrinks_def ReadUInt16_def
    by (auto split: prod.splits option.splits) (metis snd_conv)+
  then show ?thesis by (simp add: shrinks_def)
qed

lemma shrinks_ReadConnectionId [shrink_intros]: "shrinks (ReadConnectionId flag n)"
  by (auto simp: shrinks_def ReadConnectionId_def ReadBytes_def OnFailure_def BytesRemaining_def)

end
