(* ===== verification/Quic_Frames.thy ===== *)
theory Quic_Frames
  imports Quic_Frame_Codec Quic_Packet_Number Quic_Versions
begin

text \<open>
  The frames of src/quic/core/frames as records, and \<open>QuicFrame\<close> as the datatype of its tagged union.
  Stream ids and counts, offsets, error codes on the wire and control frame ids have the width of their
  C++ types; connection ids, tokens, error texts and data buffers are byte lists (the 128-bit reset token is
  its 16 bytes in memory), \<open>None\<close> stands for a null buffer. The two 16-bit members of the union of the
  connection close frame share their storage and are one field; other members of unions are separate
  fields, of which each version of the protocol uses one.
\<close>

section \<open>Frames\<close>

datatype QuicConnectionCloseType =
  GOOGLE_QUIC_CONNECTION_CLOSE
| IETF_QUIC_TRANSPORT_CONNECTION_CLOSE
| IETF_QUIC_APPLICATION_CONNECTION_CLOSE

datatype EncryptionLevel =
  ENCRYPTION_INITIAL | ENCRYPTION_HANDSHAKE | ENCRYPTION_ZERO_RTT | ENCRYPTION_FORWARD_SECURE
| NUM_ENCRYPTION_LEVELS

definition kInvalidControlFrameId :: u32 where
  "kInvalidControlFrameId = 0"

record QuicPaddingFrame =
  num_padding_bytes :: int

record QuicStreamFrame =
  sf_fin :: bool
  sf_data_length :: u16
  sf_stream_id :: u32
  sf_data_buffer :: "byte list option"
  sf_offset :: u64

record QuicCryptoFrame =
  cf_level :: EncryptionLevel
  cf_data_length :: u16
  cf_data_buffer :: "byte list option"
  cf_offset :: u64

record QuicMessageFrame =
  msg_id :: u32
  msg_received_data :: "byte list option"
  msg_length :: u16
  msg_data :: "byte list list"

record QuicRstStreamFrame =
  rst_control_frame_id :: u32
  rst_stream_id :: u32
  rst_error_code :: nat
  rst_ietf_error_code :: u16
  rst_byte_offset :: u64

record QuicConnectionCloseFrame =
  cc_close_type :: QuicConnectionCloseType
  cc_ietf_code :: u16
  cc_quic_error_code :: nat
  cc_extracted_error_code :: nat
  cc_error_details :: "byte list"
  cc_frame_type :: u64

record QuicGoAwayFrame =
  ga_control_frame_id :: u32
  ga_error_code :: nat
  ga_last_good_stream_id :: u32
  ga_reason_phrase :: "byte list"

record QuicWindowUpdateFrame =
  wu_control_frame_id :: u32
  wu_stream_id :: u32
  wu_byte_offset :: u64

record QuicBlockedFrame =
  bl_control_frame_id :: u32
  bl_stream_id :: u32
  bl_offset :: u64

record QuicMaxStreamsFrame =
  ms_control_frame_id :: u32
  ms_stream_count :: u32
  ms_unidirectional :: bool

record QuicStreamsBlockedFrame =
  sb_control_frame_id :: u32
  sb_stream_count :: u32
  sb_unidirectional :: bool

record QuicNewConnectionIdFrame =
  nc_control_frame_id :: u32
  nc_connection_id :: "byte list"
  nc_sequence_number :: u64
  nc_stateless_reset_token :: "byte list"
  nc_retire_prior_to :: u64

record QuicRetireConnectionIdFrame =
  rc_control_frame_id :: u32
  rc_sequence_number :: u64

record QuicNewTokenFrame =
  nt_control_frame_id :: u32
  nt_token :: "byte list"

record QuicStopSendingFrame =
  ss_control_frame_id :: u32
  ss_stream_id :: u32
  ss_application_error_code :: u16

record QuicPathFrame =
  pf_control_frame_id :: u32
  pf_data_buffer :: "byte list"

record QuicPingFrame =
  pg_control_frame_id :: u32

record QuicStopWaitingFrame =
  sw_least_unacked :: QuicPacketNumber

text \<open>\<open>QuicPathChallengeFrame\<close> and \<open>QuicPathResponseFrame\<close> have the same members.\<close>

datatype QuicFrame =
  PADDING_FRAME QuicPaddingFrame
| RST_STREAM_FRAME QuicRstStreamFrame
| CONNECTION_CLOSE_FRAME QuicConnectionCloseFrame
| GOAWAY_FRAME QuicGoAwayFrame
| WINDOW_UPDATE_FRAME QuicWindowUpdateFrame
| BLOCKED_FRAME QuicBlockedFrame
| STOP_WAITING_FRAME QuicStopWaitingFrame
| PING_FRAME QuicPingFrame
| CRYPTO_FRAME QuicCryptoFrame
| STREAM_FRAME QuicStreamFrame
| ACK_FRAME QuicAckFrame
| MTU_DISCOVERY_FRAME
| NEW_CONNECTION_ID_FRAME QuicNewConnectionIdFrame
| MAX_STREAMS_FRAME QuicMaxStreamsFrame
| STREAMS_BLOCKED_FRAME QuicStreamsBlockedFrame
| PATH_RESPONSE_FRAME QuicPathFrame
| PATH_CHALLENGE_FRAME QuicPathFrame
| STOP_SENDING_FRAME QuicStopSendingFrame
| MESSAGE_FRAME QuicMessageFrame
| NEW_TOKEN_FRAME QuicNewTokenFrame
| RETIRE_CONNECTION_ID_FRAME QuicRetireConnectionIdFrame

text \<open>The enumerators \<open>QUIC_IETF_GQUIC_ERROR_MISSING\<close>, \<open>QUIC_LAST_ERROR\<close> and \<open>QUIC_STREAM_LAST_ERROR\<close>.\<close>

definition QUIC_IETF_GQUIC_ERROR_MISSING :: nat where
  "QUIC_IETF_GQUIC_ERROR_MISSING = 122"

definition QUIC_LAST_ERROR :: nat where
  "QUIC_LAST_ERROR = 124"

definition QUIC_STREAM_LAST_ERROR :: nat where
  "QUIC_STREAM_LAST_ERROR = 17"

section \<open>Operations on frames (quic_frame.cc)\<close>

definition frame_of_stream :: "u32 \<Rightarrow> QuicFrame \<Rightarrow> bool" where
  "frame_of_stream stream_id f = (case f of STREAM_FRAME s \<Rightarrow> sf_stream_id s = stream_id | _ \<Rightarrow> False)"

fun RemoveFramesForStream :: "QuicFrame list \<Rightarrow> u32 \<Rightarrow> QuicFrame list" where
  "RemoveFramesForStream [] stream_id = []"
| "RemoveFramesForStream (f # frames) stream_id =
     (if \<not> frame_of_stream stream_id f then f # RemoveFramesForStream frames stream_id
      else RemoveFramesForStream frames stream_id)"

definition IsControlFrame :: "QuicFrame \<Rightarrow> bool" where
  "IsControlFrame f =
     (case f of RST_STREAM_FRAME _ \<Rightarrow> True | GOAWAY_FRAME _ \<Rightarrow> True | WINDOW_UPDATE_FRAME _ \<Rightarrow> True
      | BLOCKED_FRAME _ \<Rightarrow> True | STREAMS_BLOCKED_FRAME _ \<Rightarrow> True | MAX_STREAMS_FRAME _ \<Rightarrow> True
      | PING_FRAME _ \<Rightarrow> True | STOP_SENDING_FRAME _ \<Rightarrow> True | _ \<Rightarrow> False)"

definition GetControlFrameId :: "QuicFrame \<Rightarrow> u32" where
  "GetControlFrameId f =
     (case f of
        RST_STREAM_FRAME g \<Rightarrow> rst_control_frame_id g
      | GOAWAY_FRAME g \<Rightarrow> ga_control_frame_id g
      | WINDOW_UPDATE_FRAME g \<Rightarrow> wu_control_frame_id g
      | BLOCKED_FRAME g \<Rightarrow> bl_control_frame_id g
      | STREAMS_BLOCKED_FRAME g \<Rightarrow> sb_control_frame_id g
      | MAX_STREAMS_FRAME g \<Rightarrow> ms_control_frame_id g
      | PING_FRAME g \<Rightarrow> pg_control_frame_id g
      | STOP_SENDING_FRAME g \<Rightarrow> ss_control_frame_id g
      | _ \<Rightarrow> kInvalidControlFrameId)"

text \<open>The default case is a \<open>QUIC_BUG\<close> that leaves the frame alone.\<close>

definition SetControlFrameId :: "u32 \<Rightarrow> QuicFrame \<Rightarrow> QuicFrame" where
  "SetControlFrameId i f =
     (case f of
        RST_STREAM_FRAME g \<Rightarrow> RST_STREAM_FRAME (g\<lparr>rst_control_frame_id := i\<rparr>)
      | GOAWAY_FRAME g \<Rightarrow> GOAWAY_FRAME (g\<lparr>ga_control_frame_id := i\<rparr>)
      | WINDOW_UPDATE_FRAME g \<Rightarrow> WINDOW_UPDATE_FRAME (g\<lparr>wu_control_frame_id := i\<rparr>)
      | BLOCKED_FRAME g \<Rightarrow> BLOCKED_FRAME (g\<lparr>bl_control_frame_id := i\<rparr>)
      | PING_FRAME g \<Rightarrow> PING_FRAME (g\<lparr>pg_control_frame_id := i\<rparr>)
      | STREAMS_BLOCKED_FRAME g \<Rightarrow> STREAMS_BLOCKED_FRAME (g\<lparr>sb_control_frame_id := i\<rparr>)
      | MAX_STREAMS_FRAME g \<Rightarrow> MAX_STREAMS_FRAME (g\<lparr>ms_control_frame_id := i\<rparr>)
      | STOP_SENDING_FRAME g \<Rightarrow> STOP_SENDING_FRAME (g\<lparr>ss_control_frame_id := i\<rparr>)
      | _ \<Rightarrow> f)"

text \<open>The copy of a frame that is not a control frame is a ping (a \<open>QUIC_BUG\<close>).\<close>

definition CopyRetransmittableControlFrame :: "QuicFrame \<Rightarrow> QuicFrame" where
  "CopyRetransmittableControlFrame f =
     (case f of
        RST_STREAM_FRAME g \<Rightarrow> RST_STREAM_FRAME g
      | GOAWAY_FRAME g \<Rightarrow> GOAWAY_FRAME g
      | WINDOW_UPDATE_FRAME g \<Rightarrow> WINDOW_UPDATE_FRAME g
      | BLOCKED_FRAME g \<Rightarrow> BLOCKED_FRAME g
      | PING_FRAME g \<Rightarrow> PING_FRAME \<lparr>pg_control_frame_id = pg_control_frame_id g\<rparr>
      | STOP_SENDING_FRAME g \<Rightarrow> STOP_SENDING_FRAME g
      | STREAMS_BLOCKED_FRAME g \<Rightarrow> STREAMS_BLOCKED_FRAME g
      | MAX_STREAMS_FRAME g \<Rightarrow> MAX_STREAMS_FRAME g
      | _ \<Rightarrow> PING_FRAME \<lparr>pg_control_frame_id = kInvalidControlFrameId\<rparr>)"

lemma IsControlFrame_copy:
  "IsControlFrame f \<Longrightarrow> CopyRetransmittableControlFrame f = f"
  by (cases f) (simp_all add: IsControlFrame_def CopyRetransmittableControlFrame_def)

lemma GetControlFrameId_set:
  "GetControlFrameId (SetControlFrameId i f) = (if IsControlFrame f then i else kInvalidControlFrameId)"
  by (cases f) (simp_all add: IsControlFrame_def GetControlFrameId_def SetControlFrameId_def)

lemma RemoveFramesForStream_filter:
  "RemoveFramesForStream fs i = filter (\<lambda>f. \<not> frame_of_stream i f) fs"
  by (induction fs) auto

section \<open>Shared helpers of the framer\<close>

definition kMaxErrorStringLength :: nat where
  "kMaxErrorStringLength = 256"

definition TruncateErrorString :: "byte list \<Rightarrow> byte list" where
  "TruncateErrorString error =
     (if length error \<le> kMaxErrorStringLength then error else take kMaxErrorStringLength error)"

definition TruncatedErrorStringSize :: "byte list \<Rightarrow> nat" where
  "TruncatedErrorStringSize error =
     (if length error < kMaxErrorStringLength then length error else kMaxErrorStringLength)"

lemma length_TruncateErrorString: "length (TruncateErrorString e) = TruncatedErrorStringSize e"
  by (simp add: TruncateErrorString_def TruncatedErrorStringSize_def)

lemma TruncatedErrorStringSize_le: "TruncatedErrorStringSize e \<le> 256"
  by (simp add: TruncatedErrorStringSize_def kMaxErrorStringLength_def)

text \<open>\<open>QuicStrCat\<close> prints numbers in decimal.\<close>

fun decimal :: "nat \<Rightarrow> string" where
  "decimal n = (if n < 10 then [char_of (48 + n)] else decimal (n div 10) @ [char_of (48 + n mod 10)])"

text \<open>The bytes a null or valid buffer of a given length stands for.\<close>

definition buffer_bytes :: "byte list option \<Rightarrow> nat \<Rightarrow> byte list" where
  "buffer_bytes buf n = (case buf of None \<Rightarrow> [] | Some bs \<Rightarrow> take n bs)"

end
