(* ===== verification/Quic_Ietf_Frames.thy ===== *)
theory Quic_Ietf_Frames
  imports Quic_Frames
begin

text \<open>
  The IETF control and data frames of \<open>QuicFramer\<close> (src/quic/core/quic_framer.cc): for each frame its
  \<open>Append\<close> and its \<open>Process\<close> method, with the details they report, its image on the wire, and an
  interpretation of the frame contract. The type byte is written and read by the dispatching methods of
  the framer. \<open>v\<close> is the transport version, \<open>flag\<close> the restart flag \<open>quic_use_allocated_connection_ids\<close>.
\<close>

abbreviation invalid_stream_id :: "QuicTransportVersion \<Rightarrow> u32" where
  "invalid_stream_id v \<equiv> word_of_nat (GetInvalidStreamId v)"

abbreviation vi :: "u64 \<Rightarrow> byte list" where
  "vi \<equiv> varint62_bytes"

definition fits62 :: "u64 \<Rightarrow> bool" where
  "fits62 x \<longleftrightarrow> unat x < 2 ^ 62"

section \<open>The fields of frames\<close>

lemma vi_writes [codec_intros]: "fits62 x \<Longrightarrow> writes_as (WriteVarInt62 x) (vi x)"
  unfolding fits62_def by (rule varint62_codec.writes_as_enc)

lemma vi_reads [codec_intros]: "fits62 x \<Longrightarrow> reads_as ReadVarInt62 (vi x) x"
  unfolding fits62_def by (rule varint62_codec.reads_as_enc)

lemma fits62_u32 [simp, codec_intros]: "fits62 (ucast (x :: u32))"
  using unat_u32_varint [of x] by (simp add: fits62_def)

lemma fits62_u16 [simp, codec_intros]: "fits62 (ucast (x :: u16))"
  using unat_less_power [of x] by (simp add: fits62_def unat_ucast_mod)

lemma vi32_reads [codec_intros]: "reads_as ReadVarIntU32 (vi (ucast (x :: u32))) x"
  by (rule varint_u32_codec.reads_as_enc [OF TrueI])

lemma u8_writes [codec_intros]: "writes_as (WriteUInt8 x) [x]"
  by (rule uint8_codec.writes_as_enc [OF TrueI])

lemma u8_reads [codec_intros]: "reads_as ReadUInt8 [x] x"
  by (rule uint8_codec.reads_as_enc [OF TrueI])

lemma u16_writes [codec_intros]: "writes_as (WriteUInt16 x) (be_bytes 2 (ucast x))"
  by (rule uint16_codec.writes_as_enc [OF TrueI])

lemma u16_reads [codec_intros]: "reads_as ReadUInt16 (be_bytes 2 (ucast x)) x"
  by (rule uint16_codec.reads_as_enc [OF TrueI])

lemma bytes_writes [codec_intros]: "writes_as (WriteBytes bs) bs"
  by (rule bytes_codec.writes_as_enc [OF refl])

lemma bytes_reads [codec_intros]: "length bs = n \<Longrightarrow> reads_as (ReadBytes n) bs bs"
  by (rule bytes_codec.reads_as_enc)

lemma connection_id_writes [codec_intros]:
  "length c \<le> kQuicMaxConnectionIdLength \<Longrightarrow> writes_as (WriteConnectionId c) c"
  by (rule connection_id_codec.writes_as_enc [OF conjI [OF refl]])

lemma connection_id_reads [codec_intros]:
  "length c = n \<Longrightarrow> length c \<le> kQuicMaxConnectionIdLength \<Longrightarrow> reads_as (ReadConnectionId flag n) c c"
  by (rule connection_id_codec.reads_as_enc) simp

section \<open>Connection close\<close>

definition AppendIetfConnectionCloseFrame :: "QuicConnectionCloseFrame \<Rightarrow> writing" where
  "AppendIetfConnectionCloseFrame f =
     refuses (cc_close_type f \<noteq> IETF_QUIC_TRANSPORT_CONNECTION_CLOSE
              \<and> cc_close_type f \<noteq> IETF_QUIC_APPLICATION_CONNECTION_CLOSE)
       ''Invalid close_type for writing IETF CONNECTION CLOSE.''
     (writes ''Can not write connection close frame error code'' (WriteUInt16 (cc_ietf_code f))
     (writes_when (cc_close_type f = IETF_QUIC_TRANSPORT_CONNECTION_CLOSE)
        ''Writing frame type failed.'' (WriteVarInt62 (cc_frame_type f))
     (writes ''Can not write connection close phrase''
        (WriteStringPieceVarInt62 (TruncateErrorString (cc_error_details f)))
      complete)))"

definition new_QuicConnectionCloseFrame :: QuicConnectionCloseFrame where
  "new_QuicConnectionCloseFrame =
     \<lparr>cc_close_type = GOOGLE_QUIC_CONNECTION_CLOSE, cc_ietf_code = 0, cc_quic_error_code = 0,
      cc_extracted_error_code = QUIC_IETF_GQUIC_ERROR_MISSING, cc_error_details = [], cc_frame_type = 0\<rparr>"

definition ProcessIetfConnectionCloseFrame ::
    "QuicConnectionCloseType \<Rightarrow> QuicConnectionCloseFrame reading" where
  "ProcessIetfConnectionCloseFrame type =
     reads ''Unable to read connection close error code.'' ReadUInt16 (\<lambda>code.
     reads_when (type = IETF_QUIC_TRANSPORT_CONNECTION_CLOSE)
       ''Unable to read connection close frame type.'' ReadVarInt62 0 (\<lambda>frame_type.
     reads ''Unable to read connection close error details.'' ReadVarInt62 (\<lambda>phrase_length.
     reads ''Unable to read connection close error details.'' (ReadStringPiece (unat phrase_length)) (\<lambda>phrase.
     gives (new_QuicConnectionCloseFrame
              \<lparr>cc_close_type := type, cc_ietf_code := code, cc_frame_type := frame_type,
               cc_error_details := phrase\<rparr>)))))"

definition ConnectionClose_image :: "QuicConnectionCloseFrame \<Rightarrow> byte list" where
  "ConnectionClose_image f =
     be_bytes 2 (ucast (cc_ietf_code f))
     @ (if cc_close_type f = IETF_QUIC_TRANSPORT_CONNECTION_CLOSE then vi (cc_frame_type f) else [])
     @ vi (word_of_nat (length (TruncateErrorString (cc_error_details f))))
     @ TruncateErrorString (cc_error_details f)"

definition ConnectionClose_received :: "QuicConnectionCloseFrame \<Rightarrow> QuicConnectionCloseFrame" where
  "ConnectionClose_received f =
     new_QuicConnectionCloseFrame
       \<lparr>cc_close_type := cc_close_type f, cc_ietf_code := cc_ietf_code f,
        cc_frame_type := (if cc_close_type f = IETF_QUIC_TRANSPORT_CONNECTION_CLOSE then cc_frame_type f else 0),
        cc_error_details := TruncateErrorString (cc_error_details f)\<rparr>"

lemma length_truncated [simp, codec_intros]:
  "unat (word_of_nat (length (TruncateErrorString e)) :: u64) = length (TruncateErrorString e)"
  "fits62 (word_of_nat (length (TruncateErrorString e)))"
  "length (TruncateErrorString e) < 2 ^ 62"
  using TruncatedErrorStringSize_le [of e] by (simp_all add: fits62_def length_TruncateErrorString unat_of_nat)

interpretation connection_close: frame_codec AppendIetfConnectionCloseFrame
    "ProcessIetfConnectionCloseFrame type" ConnectionClose_image ConnectionClose_received
    "\<lambda>f. cc_close_type f = type \<and> type \<noteq> GOOGLE_QUIC_CONNECTION_CLOSE
       \<and> (type = IETF_QUIC_TRANSPORT_CONNECTION_CLOSE \<longrightarrow> fits62 (cc_frame_type f))" for type
proof
  fix f :: QuicConnectionCloseFrame
  assume "cc_close_type f = type \<and> type \<noteq> GOOGLE_QUIC_CONNECTION_CLOSE
       \<and> (type = IETF_QUIC_TRANSPORT_CONNECTION_CLOSE \<longrightarrow> fits62 (cc_frame_type f))"
  then have f: "type = cc_close_type f" "cc_close_type f \<noteq> GOOGLE_QUIC_CONNECTION_CLOSE"
    "cc_close_type f = IETF_QUIC_TRANSPORT_CONNECTION_CLOSE \<Longrightarrow> fits62 (cc_frame_type f)" by auto
  have ok: "\<not> (cc_close_type f \<noteq> IETF_QUIC_TRANSPORT_CONNECTION_CLOSE
              \<and> cc_close_type f \<noteq> IETF_QUIC_APPLICATION_CONNECTION_CLOSE)"
    using f(2) by (cases "cc_close_type f") auto
  show "emits (AppendIetfConnectionCloseFrame f) (ConnectionClose_image f)"
    unfolding AppendIetfConnectionCloseFrame_def ConnectionClose_image_def
    by (rule emits_eq) (rule codec_intros ok f(3) | assumption | simp only: append_assoc append_Nil2 length_truncated)+
  show "parses (ProcessIetfConnectionCloseFrame type) (ConnectionClose_image f) (ConnectionClose_received f)"
    unfolding f(1) ProcessIetfConnectionCloseFrame_def ConnectionClose_image_def ConnectionClose_received_def
    by (rule parses_end, unfold append_assoc) (rule codec_intros f(3) | assumption | simp only: length_truncated)+
qed

section \<open>Path challenge and response\<close>

definition kQuicPathFrameBufferSize :: nat where
  "kQuicPathFrameBufferSize = 8"

definition ProcessPathChallengeFrame :: "QuicPathFrame reading" where
  "ProcessPathChallengeFrame =
     reads ''Can not read path challenge data.'' (ReadBytes kQuicPathFrameBufferSize) (\<lambda>d.
     gives \<lparr>pf_control_frame_id = kInvalidControlFrameId, pf_data_buffer = d\<rparr>)"

definition ProcessPathResponseFrame :: "QuicPathFrame reading" where
  "ProcessPathResponseFrame =
     reads ''Can not read path response data.'' (ReadBytes kQuicPathFrameBufferSize) (\<lambda>d.
     gives \<lparr>pf_control_frame_id = kInvalidControlFrameId, pf_data_buffer = d\<rparr>)"

definition AppendPathChallengeFrame :: "QuicPathFrame \<Rightarrow> writing" where
  "AppendPathChallengeFrame f =
     writes ''Writing Path Challenge data failed.'' (WriteBytes (pf_data_buffer f)) complete"

definition AppendPathResponseFrame :: "QuicPathFrame \<Rightarrow> writing" where
  "AppendPathResponseFrame f =
     writes ''Writing Path Response data failed.'' (WriteBytes (pf_data_buffer f)) complete"

definition Path_received :: "QuicPathFrame \<Rightarrow> QuicPathFrame" where
  "Path_received f = \<lparr>pf_control_frame_id = kInvalidControlFrameId, pf_data_buffer = pf_data_buffer f\<rparr>"

interpretation path_challenge: frame_codec AppendPathChallengeFrame ProcessPathChallengeFrame pf_data_buffer
    Path_received "\<lambda>f. length (pf_data_buffer f) = kQuicPathFrameBufferSize"
proof
  fix f :: QuicPathFrame
  assume f: "length (pf_data_buffer f) = kQuicPathFrameBufferSize"
  show "emits (AppendPathChallengeFrame f) (pf_data_buffer f)"
    unfolding AppendPathChallengeFrame_def by (rule emits_end) (rule codec_intros)+
  show "parses ProcessPathChallengeFrame (pf_data_buffer f) (Path_received f)"
    unfolding ProcessPathChallengeFrame_def Path_received_def by (rule parses_end) (rule codec_intros f)+
qed

interpretation path_response: frame_codec AppendPathResponseFrame ProcessPathResponseFrame pf_data_buffer
    Path_received "\<lambda>f. length (pf_data_buffer f) = kQuicPathFrameBufferSize"
proof
  fix f :: QuicPathFrame
  assume f: "length (pf_data_buffer f) = kQuicPathFrameBufferSize"
  show "emits (AppendPathResponseFrame f) (pf_data_buffer f)"
    unfolding AppendPathResponseFrame_def by (rule emits_end) (rule codec_intros)+
  show "parses ProcessPathResponseFrame (pf_data_buffer f) (Path_received f)"
    unfolding ProcessPathResponseFrame_def Path_received_def by (rule parses_end) (rule codec_intros f)+
qed

section \<open>Reset stream and stop sending\<close>

definition AppendIetfResetStreamFrame :: "QuicRstStreamFrame \<Rightarrow> writing" where
  "AppendIetfResetStreamFrame f =
     writes ''Writing reset-stream stream id failed.'' (WriteVarInt62 (ucast (rst_stream_id f)))
     (writes ''Writing reset-stream error code failed.'' (WriteUInt16 (rst_ietf_error_code f))
     (writes ''Writing reset-stream final-offset failed.'' (WriteVarInt62 (rst_byte_offset f))
     complete))"

definition ProcessIetfResetStreamFrame :: "QuicRstStreamFrame reading" where
  "ProcessIetfResetStreamFrame =
     reads ''Unable to read rst stream stream id.'' ReadVarIntU32 (\<lambda>i.
     reads ''Unable to read rst stream error code.'' ReadUInt16 (\<lambda>code.
     reads ''Unable to read rst stream sent byte offset.'' ReadVarInt62 (\<lambda>offset.
     gives \<lparr>rst_control_frame_id = kInvalidControlFrameId, rst_stream_id = i, rst_error_code = 0,
            rst_ietf_error_code = code, rst_byte_offset = offset\<rparr>)))"

definition RstStream_image :: "QuicRstStreamFrame \<Rightarrow> byte list" where
  "RstStream_image f =
     vi (ucast (rst_stream_id f)) @ be_bytes 2 (ucast (rst_ietf_error_code f)) @ vi (rst_byte_offset f)"

definition RstStream_received :: "QuicRstStreamFrame \<Rightarrow> QuicRstStreamFrame" where
  "RstStream_received f =
     \<lparr>rst_control_frame_id = kInvalidControlFrameId, rst_stream_id = rst_stream_id f, rst_error_code = 0,
      rst_ietf_error_code = rst_ietf_error_code f, rst_byte_offset = rst_byte_offset f\<rparr>"

interpretation reset_stream: frame_codec AppendIetfResetStreamFrame ProcessIetfResetStreamFrame RstStream_image
    RstStream_received "\<lambda>f. fits62 (rst_byte_offset f)"
proof
  fix f :: QuicRstStreamFrame
  assume f: "fits62 (rst_byte_offset f)"
  show "emits (AppendIetfResetStreamFrame f) (RstStream_image f)"
    unfolding AppendIetfResetStreamFrame_def RstStream_image_def
    by (rule emits_end, unfold append_assoc) (rule codec_intros f)+
  show "parses ProcessIetfResetStreamFrame (RstStream_image f) (RstStream_received f)"
    unfolding ProcessIetfResetStreamFrame_def RstStream_image_def RstStream_received_def
    by (rule parses_end, unfold append_assoc) (rule codec_intros f)+
qed

definition ProcessStopSendingFrame :: "QuicStopSendingFrame reading" where
  "ProcessStopSendingFrame =
     reads ''Unable to read stop sending stream id.'' ReadVarIntU32 (\<lambda>i.
     reads ''Unable to read stop sending application error code.'' ReadUInt16 (\<lambda>code.
     gives \<lparr>ss_control_frame_id = kInvalidControlFrameId, ss_stream_id = i, ss_application_error_code = code\<rparr>))"

definition AppendStopSendingFrame :: "QuicStopSendingFrame \<Rightarrow> writing" where
  "AppendStopSendingFrame f =
     writes ''Can not write stop sending stream id'' (WriteVarInt62 (ucast (ss_stream_id f)))
     (writes ''Can not write application error code'' (WriteUInt16 (ss_application_error_code f))
     complete)"

definition StopSending_image :: "QuicStopSendingFrame \<Rightarrow> byte list" where
  "StopSending_image f = vi (ucast (ss_stream_id f)) @ be_bytes 2 (ucast (ss_application_error_code f))"

definition StopSending_received :: "QuicStopSendingFrame \<Rightarrow> QuicStopSendingFrame" where
  "StopSending_received f = f\<lparr>ss_control_frame_id := kInvalidControlFrameId\<rparr>"

interpretation stop_sending: frame_codec AppendStopSendingFrame ProcessStopSendingFrame StopSending_image
    StopSending_received "\<lambda>_. True"
proof
  fix f :: QuicStopSendingFrame
  show "emits (AppendStopSendingFrame f) (StopSending_image f)"
    unfolding AppendStopSendingFrame_def StopSending_image_def
    by (rule emits_end, unfold append_assoc) (rule codec_intros)+
  have r: "StopSending_received f = \<lparr>ss_control_frame_id = kInvalidControlFrameId, ss_stream_id = ss_stream_id f,
      ss_application_error_code = ss_application_error_code f\<rparr>"
    by (simp add: StopSending_received_def)
  show "parses ProcessStopSendingFrame (StopSending_image f) (StopSending_received f)"
    unfolding ProcessStopSendingFrame_def StopSending_image_def r
    by (rule parses_end, unfold append_assoc) (rule codec_intros)+
qed

section \<open>Limits: MAX_DATA, MAX_STREAM_DATA, MAX_STREAMS\<close>

definition AppendMaxDataFrame :: "QuicWindowUpdateFrame \<Rightarrow> writing" where
  "AppendMaxDataFrame f =
     writes ''Can not write MAX_DATA byte-offset'' (WriteVarInt62 (wu_byte_offset f)) complete"

definition ProcessMaxDataFrame :: "QuicTransportVersion \<Rightarrow> QuicWindowUpdateFrame reading" where
  "ProcessMaxDataFrame v =
     reads ''Can not read MAX_DATA byte-offset'' ReadVarInt62 (\<lambda>offset.
     gives \<lparr>wu_control_frame_id = kInvalidControlFrameId, wu_stream_id = invalid_stream_id v,
            wu_byte_offset = offset\<rparr>)"

definition MaxData_image :: "QuicWindowUpdateFrame \<Rightarrow> byte list" where
  "MaxData_image f = vi (wu_byte_offset f)"

definition MaxData_received :: "QuicTransportVersion \<Rightarrow> QuicWindowUpdateFrame \<Rightarrow> QuicWindowUpdateFrame" where
  "MaxData_received v f = \<lparr>wu_control_frame_id = kInvalidControlFrameId, wu_stream_id = invalid_stream_id v,
     wu_byte_offset = wu_byte_offset f\<rparr>"

interpretation max_data: frame_codec AppendMaxDataFrame "ProcessMaxDataFrame v" MaxData_image
    "MaxData_received v" "\<lambda>f. fits62 (wu_byte_offset f)" for v
proof
  fix f :: QuicWindowUpdateFrame
  assume f: "fits62 (wu_byte_offset f)"
  show "emits (AppendMaxDataFrame f) (MaxData_image f)"
    unfolding AppendMaxDataFrame_def MaxData_image_def by (rule emits_end) (rule codec_intros f)+
  show "parses (ProcessMaxDataFrame v) (MaxData_image f) (MaxData_received v f)"
    unfolding ProcessMaxDataFrame_def MaxData_image_def MaxData_received_def
    by (rule parses_end) (rule codec_intros f)+
qed

definition AppendMaxStreamDataFrame :: "QuicWindowUpdateFrame \<Rightarrow> writing" where
  "AppendMaxStreamDataFrame f =
     writes ''Can not write MAX_STREAM_DATA stream id'' (WriteVarInt62 (ucast (wu_stream_id f)))
     (writes ''Can not write MAX_STREAM_DATA byte-offset'' (WriteVarInt62 (wu_byte_offset f))
     complete)"

definition ProcessMaxStreamDataFrame :: "QuicWindowUpdateFrame reading" where
  "ProcessMaxStreamDataFrame =
     reads ''Can not read MAX_STREAM_DATA stream id'' ReadVarIntU32 (\<lambda>i.
     reads ''Can not read MAX_STREAM_DATA byte-count'' ReadVarInt62 (\<lambda>offset.
     gives \<lparr>wu_control_frame_id = kInvalidControlFrameId, wu_stream_id = i, wu_byte_offset = offset\<rparr>))"

definition MaxStreamData_image :: "QuicWindowUpdateFrame \<Rightarrow> byte list" where
  "MaxStreamData_image f = vi (ucast (wu_stream_id f)) @ vi (wu_byte_offset f)"

definition MaxStreamData_received :: "QuicWindowUpdateFrame \<Rightarrow> QuicWindowUpdateFrame" where
  "MaxStreamData_received f = \<lparr>wu_control_frame_id = kInvalidControlFrameId, wu_stream_id = wu_stream_id f,
     wu_byte_offset = wu_byte_offset f\<rparr>"

interpretation max_stream_data: frame_codec AppendMaxStreamDataFrame ProcessMaxStreamDataFrame
    MaxStreamData_image MaxStreamData_received "\<lambda>f. fits62 (wu_byte_offset f)"
proof
  fix f :: QuicWindowUpdateFrame
  assume f: "fits62 (wu_byte_offset f)"
  show "emits (AppendMaxStreamDataFrame f) (MaxStreamData_image f)"
    unfolding AppendMaxStreamDataFrame_def MaxStreamData_image_def
    by (rule emits_end, unfold append_assoc) (rule codec_intros f)+
  show "parses ProcessMaxStreamDataFrame (MaxStreamData_image f) (MaxStreamData_received f)"
    unfolding ProcessMaxStreamDataFrame_def MaxStreamData_image_def MaxStreamData_received_def
    by (rule parses_end, unfold append_assoc) (rule codec_intros f)+
qed

definition AppendMaxStreamsFrame :: "QuicMaxStreamsFrame \<Rightarrow> writing" where
  "AppendMaxStreamsFrame f =
     writes ''Can not write MAX_STREAMS stream count'' (WriteVarInt62 (ucast (ms_stream_count f))) complete"

definition IETF_MAX_STREAMS_UNIDIRECTIONAL :: u64 where
  "IETF_MAX_STREAMS_UNIDIRECTIONAL = 0x13"

definition ProcessMaxStreamsFrame :: "u64 \<Rightarrow> QuicMaxStreamsFrame reading" where
  "ProcessMaxStreamsFrame frame_type =
     reads ''Can not read MAX_STREAMS stream count.'' ReadVarIntU32 (\<lambda>count.
     gives \<lparr>ms_control_frame_id = kInvalidControlFrameId, ms_stream_count = count,
            ms_unidirectional = (frame_type = IETF_MAX_STREAMS_UNIDIRECTIONAL)\<rparr>)"

definition MaxStreams_image :: "QuicMaxStreamsFrame \<Rightarrow> byte list" where
  "MaxStreams_image f = vi (ucast (ms_stream_count f))"

definition MaxStreams_received :: "QuicMaxStreamsFrame \<Rightarrow> QuicMaxStreamsFrame" where
  "MaxStreams_received f = \<lparr>ms_control_frame_id = kInvalidControlFrameId, ms_stream_count = ms_stream_count f,
     ms_unidirectional = ms_unidirectional f\<rparr>"

interpretation max_streams: frame_codec AppendMaxStreamsFrame "ProcessMaxStreamsFrame type" MaxStreams_image
    MaxStreams_received "\<lambda>f. ms_unidirectional f = (type = IETF_MAX_STREAMS_UNIDIRECTIONAL)" for type
proof
  fix f :: QuicMaxStreamsFrame
  assume f: "ms_unidirectional f = (type = IETF_MAX_STREAMS_UNIDIRECTIONAL)"
  show "emits (AppendMaxStreamsFrame f) (MaxStreams_image f)"
    unfolding AppendMaxStreamsFrame_def MaxStreams_image_def by (rule emits_end) (rule codec_intros)+
  show "parses (ProcessMaxStreamsFrame type) (MaxStreams_image f) (MaxStreams_received f)"
    unfolding ProcessMaxStreamsFrame_def MaxStreams_image_def MaxStreams_received_def f
    by (rule parses_end) (rule codec_intros)+
qed

section \<open>Blocked frames\<close>

definition AppendIetfBlockedFrame :: "QuicBlockedFrame \<Rightarrow> writing" where
  "AppendIetfBlockedFrame f =
     writes ''Can not write blocked offset.'' (WriteVarInt62 (bl_offset f)) complete"

definition ProcessIetfBlockedFrame :: "QuicTransportVersion \<Rightarrow> QuicBlockedFrame reading" where
  "ProcessIetfBlockedFrame v =
     reads ''Can not read blocked offset.'' ReadVarInt62 (\<lambda>offset.
     gives \<lparr>bl_control_frame_id = kInvalidControlFrameId, bl_stream_id = invalid_stream_id v, bl_offset = offset\<rparr>)"

definition Blocked_image :: "QuicBlockedFrame \<Rightarrow> byte list" where
  "Blocked_image f = vi (bl_offset f)"

definition Blocked_received :: "QuicTransportVersion \<Rightarrow> QuicBlockedFrame \<Rightarrow> QuicBlockedFrame" where
  "Blocked_received v f =
     \<lparr>bl_control_frame_id = kInvalidControlFrameId, bl_stream_id = invalid_stream_id v, bl_offset = bl_offset f\<rparr>"

interpretation blocked: frame_codec AppendIetfBlockedFrame "ProcessIetfBlockedFrame v" Blocked_image
    "Blocked_received v" "\<lambda>f. fits62 (bl_offset f)" for v
proof
  fix f :: QuicBlockedFrame
  assume f: "fits62 (bl_offset f)"
  show "emits (AppendIetfBlockedFrame f) (Blocked_image f)"
    unfolding AppendIetfBlockedFrame_def Blocked_image_def by (rule emits_end) (rule codec_intros f)+
  show "parses (ProcessIetfBlockedFrame v) (Blocked_image f) (Blocked_received v f)"
    unfolding ProcessIetfBlockedFrame_def Blocked_image_def Blocked_received_def
    by (rule parses_end) (rule codec_intros f)+
qed

definition AppendStreamBlockedFrame :: "QuicBlockedFrame \<Rightarrow> writing" where
  "AppendStreamBlockedFrame f =
     writes ''Can not write stream blocked stream id.'' (WriteVarInt62 (ucast (bl_stream_id f)))
     (writes ''Can not write stream blocked offset.'' (WriteVarInt62 (bl_offset f))
     complete)"

definition ProcessStreamBlockedFrame :: "QuicBlockedFrame reading" where
  "ProcessStreamBlockedFrame =
     reads ''Can not read stream blocked stream id.'' ReadVarIntU32 (\<lambda>i.
     reads ''Can not read stream blocked offset.'' ReadVarInt62 (\<lambda>offset.
     gives \<lparr>bl_control_frame_id = kInvalidControlFrameId, bl_stream_id = i, bl_offset = offset\<rparr>))"

definition StreamBlocked_image :: "QuicBlockedFrame \<Rightarrow> byte list" where
  "StreamBlocked_image f = vi (ucast (bl_stream_id f)) @ vi (bl_offset f)"

definition StreamBlocked_received :: "QuicBlockedFrame \<Rightarrow> QuicBlockedFrame" where
  "StreamBlocked_received f =
     \<lparr>bl_control_frame_id = kInvalidControlFrameId, bl_stream_id = bl_stream_id f, bl_offset = bl_offset f\<rparr>"

interpretation stream_blocked: frame_codec AppendStreamBlockedFrame ProcessStreamBlockedFrame
    StreamBlocked_image StreamBlocked_received "\<lambda>f. fits62 (bl_offset f)"
proof
  fix f :: QuicBlockedFrame
  assume f: "fits62 (bl_offset f)"
  show "emits (AppendStreamBlockedFrame f) (StreamBlocked_image f)"
    unfolding AppendStreamBlockedFrame_def StreamBlocked_image_def
    by (rule emits_end, unfold append_assoc) (rule codec_intros f)+
  show "parses ProcessStreamBlockedFrame (StreamBlocked_image f) (StreamBlocked_received f)"
    unfolding ProcessStreamBlockedFrame_def StreamBlocked_image_def StreamBlocked_received_def
    by (rule parses_end, unfold append_assoc) (rule codec_intros f)+
qed

definition AppendStreamsBlockedFrame :: "QuicStreamsBlockedFrame \<Rightarrow> writing" where
  "AppendStreamsBlockedFrame f =
     writes ''Can not write STREAMS_BLOCKED stream count'' (WriteVarInt62 (ucast (sb_stream_count f))) complete"

definition IETF_STREAMS_BLOCKED_UNIDIRECTIONAL :: u64 where
  "IETF_STREAMS_BLOCKED_UNIDIRECTIONAL = 0x17"

definition ProcessStreamsBlockedFrame :: "Perspective \<Rightarrow> u64 \<Rightarrow> QuicStreamsBlockedFrame reading" where
  "ProcessStreamsBlockedFrame perspective frame_type =
     reads ''Can not read STREAMS_BLOCKED stream count.'' ReadVarIntU32 (\<lambda>count.
     rejects (unat count > GetMaxStreamCount (frame_type = IETF_STREAMS_BLOCKED_UNIDIRECTIONAL)
                             (if perspective = IS_CLIENT then IS_SERVER else IS_CLIENT))
       ''STREAMS_BLOCKED stream count exceeds implementation limit.''
     (gives \<lparr>sb_control_frame_id = kInvalidControlFrameId, sb_stream_count = count,
             sb_unidirectional = (frame_type = IETF_STREAMS_BLOCKED_UNIDIRECTIONAL)\<rparr>))"

definition StreamsBlocked_image :: "QuicStreamsBlockedFrame \<Rightarrow> byte list" where
  "StreamsBlocked_image f = vi (ucast (sb_stream_count f))"

definition StreamsBlocked_received :: "QuicStreamsBlockedFrame \<Rightarrow> QuicStreamsBlockedFrame" where
  "StreamsBlocked_received f = \<lparr>sb_control_frame_id = kInvalidControlFrameId, sb_stream_count = sb_stream_count f,
     sb_unidirectional = sb_unidirectional f\<rparr>"

interpretation streams_blocked: frame_codec AppendStreamsBlockedFrame "ProcessStreamsBlockedFrame p type"
    StreamsBlocked_image StreamsBlocked_received
    "\<lambda>f. sb_unidirectional f = (type = IETF_STREAMS_BLOCKED_UNIDIRECTIONAL)
       \<and> unat (sb_stream_count f) \<le> GetMaxStreamCount (sb_unidirectional f) (if p = IS_CLIENT then IS_SERVER else IS_CLIENT)" for type p
proof
  fix f :: QuicStreamsBlockedFrame
  assume "sb_unidirectional f = (type = IETF_STREAMS_BLOCKED_UNIDIRECTIONAL)
       \<and> unat (sb_stream_count f) \<le> GetMaxStreamCount (sb_unidirectional f) (if p = IS_CLIENT then IS_SERVER else IS_CLIENT)"
  then have f: "sb_unidirectional f = (type = IETF_STREAMS_BLOCKED_UNIDIRECTIONAL)"
    and le: "\<not> unat (sb_stream_count f) > GetMaxStreamCount (type = IETF_STREAMS_BLOCKED_UNIDIRECTIONAL)
      (if p = IS_CLIENT then IS_SERVER else IS_CLIENT)" by (auto simp: not_less)
  show "emits (AppendStreamsBlockedFrame f) (StreamsBlocked_image f)"
    unfolding AppendStreamsBlockedFrame_def StreamsBlocked_image_def by (rule emits_end) (rule codec_intros)+
  show "parses (ProcessStreamsBlockedFrame p type) (StreamsBlocked_image f) (StreamsBlocked_received f)"
    unfolding ProcessStreamsBlockedFrame_def StreamsBlocked_image_def StreamsBlocked_received_def f
    by (rule parses_end) (rule codec_intros le)+
qed

section \<open>Connection ids and tokens\<close>

definition AppendNewConnectionIdFrame :: "QuicNewConnectionIdFrame \<Rightarrow> writing" where
  "AppendNewConnectionIdFrame f =
     writes ''Can not write New Connection ID sequence number'' (WriteVarInt62 (nc_sequence_number f))
     (writes ''Can not write New Connection ID retire_prior_to'' (WriteVarInt62 (nc_retire_prior_to f))
     (writes ''Can not write New Connection ID frame connection ID Length''
        (WriteUInt8 (word_of_nat (length (nc_connection_id f))))
     (writes ''Can not write New Connection ID frame connection ID'' (WriteConnectionId (nc_connection_id f))
     (writes ''Can not write New Connection ID Reset Token'' (WriteBytes (nc_stateless_reset_token f))
     complete))))"

definition kQuicDefaultConnectionIdLength :: nat where
  "kQuicDefaultConnectionIdLength = 8"

definition reset_token_size :: nat where
  "reset_token_size = 16"

definition ProcessNewConnectionIdFrame :: "bool \<Rightarrow> QuicTransportVersion \<Rightarrow> QuicNewConnectionIdFrame reading" where
  "ProcessNewConnectionIdFrame flag v =
     reads ''Unable to read new connection ID frame sequence number.'' ReadVarInt62 (\<lambda>sequence_number.
     reads ''Unable to read new connection ID frame retire_prior_to.'' ReadVarInt62 (\<lambda>retire_prior_to.
     rejects (retire_prior_to > sequence_number) ''Retire_prior_to > sequence_number.''
     (reads ''Unable to read new connection ID frame connection id length.'' ReadUInt8 (\<lambda>len.
     rejects (unat len > kQuicMaxConnectionIdLength) ''New connection ID length too high.''
     (rejects (unat len \<noteq> kQuicDefaultConnectionIdLength \<and> \<not> VariableLengthConnectionIdAllowedForVersion v)
        ''Invalid new connection ID length for version.''
     (reads ''Unable to read new connection ID frame connection id.'' (ReadConnectionId flag (unat len)) (\<lambda>c.
     reads ''Can not read new connection ID frame reset token.'' (ReadBytes reset_token_size) (\<lambda>token.
     gives \<lparr>nc_control_frame_id = kInvalidControlFrameId, nc_connection_id = c,
            nc_sequence_number = sequence_number, nc_stateless_reset_token = token,
            nc_retire_prior_to = retire_prior_to\<rparr>))))))))"

definition NewConnectionId_image :: "QuicNewConnectionIdFrame \<Rightarrow> byte list" where
  "NewConnectionId_image f =
     vi (nc_sequence_number f) @ vi (nc_retire_prior_to f) @ [word_of_nat (length (nc_connection_id f))]
     @ nc_connection_id f @ nc_stateless_reset_token f"

definition NewConnectionId_received :: "QuicNewConnectionIdFrame \<Rightarrow> QuicNewConnectionIdFrame" where
  "NewConnectionId_received f =
     \<lparr>nc_control_frame_id = kInvalidControlFrameId, nc_connection_id = nc_connection_id f,
      nc_sequence_number = nc_sequence_number f, nc_stateless_reset_token = nc_stateless_reset_token f,
      nc_retire_prior_to = nc_retire_prior_to f\<rparr>"

definition NewConnectionId_valid :: "QuicTransportVersion \<Rightarrow> QuicNewConnectionIdFrame \<Rightarrow> bool" where
  "NewConnectionId_valid v f \<longleftrightarrow>
     fits62 (nc_sequence_number f) \<and> nc_retire_prior_to f \<le> nc_sequence_number f
   \<and> length (nc_connection_id f) \<le> kQuicMaxConnectionIdLength
   \<and> (length (nc_connection_id f) = kQuicDefaultConnectionIdLength \<or> VariableLengthConnectionIdAllowedForVersion v)
   \<and> length (nc_stateless_reset_token f) = reset_token_size"

interpretation new_connection_id: frame_codec AppendNewConnectionIdFrame "ProcessNewConnectionIdFrame flag v"
    NewConnectionId_image NewConnectionId_received "NewConnectionId_valid v" for flag v
proof
  fix f :: QuicNewConnectionIdFrame
  assume "NewConnectionId_valid v f"
  then have f: "fits62 (nc_sequence_number f)" "\<not> nc_retire_prior_to f > nc_sequence_number f"
    "length (nc_connection_id f) \<le> kQuicMaxConnectionIdLength"
    "length (nc_stateless_reset_token f) = reset_token_size"
    and len: "length (nc_connection_id f) = kQuicDefaultConnectionIdLength \<or> VariableLengthConnectionIdAllowedForVersion v"
    by (auto simp: NewConnectionId_valid_def)
  have f62: "fits62 (nc_retire_prior_to f)"
    using f(1,2) by (simp add: fits62_def word_le_nat_alt not_less)
  have u: "unat (word_of_nat (length (nc_connection_id f)) :: u8) = length (nc_connection_id f)"
    using f(3) by (simp add: unat_of_nat kQuicMaxConnectionIdLength_def)
  have side: "\<not> unat (word_of_nat (length (nc_connection_id f)) :: u8) > kQuicMaxConnectionIdLength"
    "\<not> (unat (word_of_nat (length (nc_connection_id f)) :: u8) \<noteq> kQuicDefaultConnectionIdLength
        \<and> \<not> VariableLengthConnectionIdAllowedForVersion v)"
    using f(3) len u by auto
  show "emits (AppendNewConnectionIdFrame f) (NewConnectionId_image f)"
    unfolding AppendNewConnectionIdFrame_def NewConnectionId_image_def
    by (rule emits_end, unfold append_assoc) (rule codec_intros f f62)+
  show "parses (ProcessNewConnectionIdFrame flag v) (NewConnectionId_image f) (NewConnectionId_received f)"
    unfolding ProcessNewConnectionIdFrame_def NewConnectionId_image_def NewConnectionId_received_def
    by (rule parses_end, unfold append_assoc) (rule codec_intros f f62 side u [symmetric])+
qed

definition AppendRetireConnectionIdFrame :: "QuicRetireConnectionIdFrame \<Rightarrow> writing" where
  "AppendRetireConnectionIdFrame f =
     writes ''Can not write Retire Connection ID sequence number'' (WriteVarInt62 (rc_sequence_number f)) complete"

definition ProcessRetireConnectionIdFrame :: "QuicRetireConnectionIdFrame reading" where
  "ProcessRetireConnectionIdFrame =
     reads ''Unable to read retire connection ID frame sequence number.'' ReadVarInt62 (\<lambda>n.
     gives \<lparr>rc_control_frame_id = kInvalidControlFrameId, rc_sequence_number = n\<rparr>)"

definition RetireConnectionId_image :: "QuicRetireConnectionIdFrame \<Rightarrow> byte list" where
  "RetireConnectionId_image f = vi (rc_sequence_number f)"

definition RetireConnectionId_received :: "QuicRetireConnectionIdFrame \<Rightarrow> QuicRetireConnectionIdFrame" where
  "RetireConnectionId_received f =
     \<lparr>rc_control_frame_id = kInvalidControlFrameId, rc_sequence_number = rc_sequence_number f\<rparr>"

interpretation retire_connection_id: frame_codec AppendRetireConnectionIdFrame ProcessRetireConnectionIdFrame
    RetireConnectionId_image RetireConnectionId_received "\<lambda>f. fits62 (rc_sequence_number f)"
proof
  fix f :: QuicRetireConnectionIdFrame
  assume f: "fits62 (rc_sequence_number f)"
  show "emits (AppendRetireConnectionIdFrame f) (RetireConnectionId_image f)"
    unfolding AppendRetireConnectionIdFrame_def RetireConnectionId_image_def by (rule emits_end) (rule codec_intros f)+
  show "parses ProcessRetireConnectionIdFrame (RetireConnectionId_image f) (RetireConnectionId_received f)"
    unfolding ProcessRetireConnectionIdFrame_def RetireConnectionId_image_def RetireConnectionId_received_def
    by (rule parses_end) (rule codec_intros f)+
qed

definition AppendNewTokenFrame :: "QuicNewTokenFrame \<Rightarrow> writing" where
  "AppendNewTokenFrame f =
     writes ''Writing token length failed.'' (WriteVarInt62 (word_of_nat (length (nt_token f))))
     (writes ''Writing token buffer failed.'' (WriteBytes (nt_token f))
     complete)"

definition kMaxNewTokenTokenLength :: nat where
  "kMaxNewTokenTokenLength = 0xffff"

definition ProcessNewTokenFrame :: "QuicNewTokenFrame reading" where
  "ProcessNewTokenFrame =
     reads ''Unable to read new token length.'' ReadVarInt62 (\<lambda>len.
     rejects (unat len > kMaxNewTokenTokenLength) ''Token length larger than maximum.''
     (reads ''Unable to read new token data.'' (ReadStringPiece (unat len)) (\<lambda>data.
     gives \<lparr>nt_control_frame_id = kInvalidControlFrameId, nt_token = data\<rparr>)))"

definition NewToken_image :: "QuicNewTokenFrame \<Rightarrow> byte list" where
  "NewToken_image f = vi (word_of_nat (length (nt_token f))) @ nt_token f"

definition NewToken_received :: "QuicNewTokenFrame \<Rightarrow> QuicNewTokenFrame" where
  "NewToken_received f = \<lparr>nt_control_frame_id = kInvalidControlFrameId, nt_token = nt_token f\<rparr>"

interpretation new_token: frame_codec AppendNewTokenFrame ProcessNewTokenFrame NewToken_image NewToken_received
    "\<lambda>f. length (nt_token f) \<le> kMaxNewTokenTokenLength"
proof
  fix f :: QuicNewTokenFrame
  assume f: "length (nt_token f) \<le> kMaxNewTokenTokenLength"
  then have u: "unat (word_of_nat (length (nt_token f)) :: u64) = length (nt_token f)"
    by (simp add: unat_of_nat kMaxNewTokenTokenLength_def)
  have side: "fits62 (word_of_nat (length (nt_token f)))"
    "\<not> unat (word_of_nat (length (nt_token f)) :: u64) > kMaxNewTokenTokenLength"
    using f u by (auto simp: fits62_def kMaxNewTokenTokenLength_def)
  show "emits (AppendNewTokenFrame f) (NewToken_image f)"
    unfolding AppendNewTokenFrame_def NewToken_image_def
    by (rule emits_end, unfold append_assoc) (rule codec_intros side)+
  show "parses ProcessNewTokenFrame (NewToken_image f) (NewToken_received f)"
    unfolding ProcessNewTokenFrame_def NewToken_image_def NewToken_received_def
    by (rule parses_end, unfold append_assoc) (rule codec_intros side u [symmetric])+
qed

end
