(* ===== verification/Quic_Ietf_Data_Frames.thy ===== *)
theory Quic_Ietf_Data_Frames
  imports Quic_Ietf_Frames Quic_Send_Buffer
begin

text \<open>
  The IETF frames of \<open>QuicFramer\<close> that carry data: STREAM, CRYPTO, MESSAGE and PADDING
  (src/quic/core/quic_framer.cc). The data of a stream frame comes from its buffer or from a
  \<open>QuicStreamFrameDataProducer\<close>, which is a parameter; the last section connects it to the send buffer.
\<close>

unbundle bit_operations_syntax

section \<open>Stream frames\<close>

definition IETF_STREAM :: u8 where "IETF_STREAM = 0x08"
definition IETF_STREAM_FRAME_FIN_BIT :: u8 where "IETF_STREAM_FRAME_FIN_BIT = 0x01"
definition IETF_STREAM_FRAME_LEN_BIT :: u8 where "IETF_STREAM_FRAME_LEN_BIT = 0x02"
definition IETF_STREAM_FRAME_OFF_BIT :: u8 where "IETF_STREAM_FRAME_OFF_BIT = 0x04"

definition GetIetfStreamFrameTypeByte :: "QuicStreamFrame \<Rightarrow> bool \<Rightarrow> u8" where
  "GetIetfStreamFrameTypeByte f last_frame_in_packet =
     (let t = IETF_STREAM;
          t = (if \<not> last_frame_in_packet then t OR IETF_STREAM_FRAME_LEN_BIT else t);
          t = (if sf_offset f \<noteq> 0 then t OR IETF_STREAM_FRAME_OFF_BIT else t)
      in if sf_fin f then t OR IETF_STREAM_FRAME_FIN_BIT else t)"

type_synonym stream_producer = "u32 \<Rightarrow> u64 \<Rightarrow> u16 \<Rightarrow> QuicDataWriter \<Rightarrow> bool \<times> QuicDataWriter"

definition stream_source ::
    "stream_producer option \<Rightarrow> QuicStreamFrame \<Rightarrow> QuicDataWriter \<Rightarrow> bool \<times> QuicDataWriter" where
  "stream_source data_producer f =
     (case data_producer of
        None \<Rightarrow> WriteBytes (buffer_bytes (sf_data_buffer f) (unat (sf_data_length f)))
      | Some produce \<Rightarrow> produce (sf_stream_id f) (sf_offset f) (sf_data_length f))"

definition AppendIetfStreamFrame :: "stream_producer option \<Rightarrow> QuicStreamFrame \<Rightarrow> bool \<Rightarrow> writing" where
  "AppendIetfStreamFrame data_producer f last_frame_in_packet =
     writes ''Writing stream id failed.'' (WriteVarInt62 (ucast (sf_stream_id f)))
     (writes_when (sf_offset f \<noteq> 0) ''Writing data offset failed.'' (WriteVarInt62 (sf_offset f))
     (writes_when (\<not> last_frame_in_packet) ''Writing data length failed.''
        (WriteVarInt62 (ucast (sf_data_length f)))
     (if sf_data_length f = 0 then complete
      else writes ''Writing frame data failed.'' (stream_source data_producer f) complete)))"

definition ReadStreamData :: "bool \<Rightarrow> u32 \<Rightarrow> u64 \<Rightarrow> u16 \<Rightarrow> QuicStreamFrame reading" where
  "ReadStreamData fin stream_id offset data_length =
     reads ''Unable to read frame data.'' (ReadStringPiece (unat data_length)) (\<lambda>data.
     gives \<lparr>sf_fin = fin, sf_data_length = word_of_nat (length data), sf_stream_id = stream_id,
            sf_data_buffer = Some data, sf_offset = offset\<rparr>)"

definition ProcessIetfStreamFrame :: "u8 \<Rightarrow> QuicStreamFrame reading" where
  "ProcessIetfStreamFrame frame_type =
     reads ''Unable to read stream_id.'' ReadVarIntU32 (\<lambda>stream_id.
     reads_when (frame_type AND IETF_STREAM_FRAME_OFF_BIT \<noteq> 0)
       ''Unable to read stream data offset.'' ReadVarInt62 0 (\<lambda>offset.
     (let fin = (frame_type AND IETF_STREAM_FRAME_FIN_BIT \<noteq> 0)
      in if frame_type AND IETF_STREAM_FRAME_LEN_BIT \<noteq> 0
         then reads ''Unable to read stream data length.'' ReadVarInt62 (\<lambda>len.
              rejects (len > 0xffff) ''Stream data length is too large.''
              (ReadStreamData fin stream_id offset (ucast len)))
         else (\<lambda>r. ReadStreamData fin stream_id offset (word_of_nat (BytesRemaining r)) r))))"

definition StreamFrame_image :: "bool \<Rightarrow> QuicStreamFrame \<Rightarrow> byte list \<Rightarrow> byte list" where
  "StreamFrame_image last_frame_in_packet f data =
     vi (ucast (sf_stream_id f)) @ (if sf_offset f \<noteq> 0 then vi (sf_offset f) else [])
     @ (if \<not> last_frame_in_packet then vi (ucast (sf_data_length f)) else []) @ data"

definition StreamFrame_received :: "QuicStreamFrame \<Rightarrow> byte list \<Rightarrow> QuicStreamFrame" where
  "StreamFrame_received f data =
     \<lparr>sf_fin = sf_fin f, sf_data_length = sf_data_length f, sf_stream_id = sf_stream_id f,
      sf_data_buffer = Some data, sf_offset = sf_offset f\<rparr>"

lemma type_byte_bits:
  "GetIetfStreamFrameTypeByte f lst AND IETF_STREAM_FRAME_OFF_BIT \<noteq> 0 \<longleftrightarrow> sf_offset f \<noteq> 0"
  "GetIetfStreamFrameTypeByte f lst AND IETF_STREAM_FRAME_LEN_BIT \<noteq> 0 \<longleftrightarrow> \<not> lst"
  "GetIetfStreamFrameTypeByte f lst AND IETF_STREAM_FRAME_FIN_BIT \<noteq> 0 \<longleftrightarrow> sf_fin f"
  by (simp_all add: GetIetfStreamFrameTypeByte_def Let_def IETF_STREAM_def IETF_STREAM_FRAME_FIN_BIT_def
      IETF_STREAM_FRAME_LEN_BIT_def IETF_STREAM_FRAME_OFF_BIT_def)

lemma AppendIetfStreamFrame_emits:
  assumes "fits62 (sf_offset f)" "length data = unat (sf_data_length f)"
    and "data \<noteq> [] \<Longrightarrow> writes_as (stream_source dp f) data"
  shows "emits (AppendIetfStreamFrame dp f lst) (StreamFrame_image lst f data)"
proof (cases "sf_data_length f = 0")
  case True
  then have "data = []" using assms(2) by simp
  then show ?thesis
    unfolding AppendIetfStreamFrame_def StreamFrame_image_def if_P [OF True]
    by (simp only:) (rule codec_intros assms(1))+
next
  case False
  then have "data \<noteq> []" using assms(2) by (auto simp: unat_eq_0)
  note src = assms(3) [OF this]
  show ?thesis
    unfolding AppendIetfStreamFrame_def StreamFrame_image_def if_not_P [OF False]
    by (rule emits_end, unfold append_assoc) (rule codec_intros assms(1) src)+
qed

lemma ReadStreamData_parses [codec_intros]:
  assumes "length data = unat (sf_data_length f)"
  shows "parses (ReadStreamData (sf_fin f) (sf_stream_id f) (sf_offset f) (sf_data_length f)) data
    (StreamFrame_received f data)"
proof -
  have "(word_of_nat (length data) :: u16) = sf_data_length f" using assms by simp
  then have r: "StreamFrame_received f data =
      \<lparr>sf_fin = sf_fin f, sf_data_length = word_of_nat (length data), sf_stream_id = sf_stream_id f,
       sf_data_buffer = Some data, sf_offset = sf_offset f\<rparr>"
    by (simp only: StreamFrame_received_def)
  show ?thesis
    unfolding ReadStreamData_def r by (rule parses_end) (rule codec_intros assms)+
qed

lemma u16_not_large: "\<not> (ucast (x :: u16) :: u64) > 0xffff"
  using unat_less_power [of x] by (simp add: word_less_nat_alt unat_ucast_mod)

lemma ucast_u16_u64 [simp]: "ucast (ucast (x :: u16) :: u64) = x"
  by (rule bit_word_eqI) (simp add: bit_simps)

text \<open>Not the last frame: the length is on the wire.\<close>

lemma ProcessIetfStreamFrame_parses:
  assumes f: "fits62 (sf_offset f)" "length data = unat (sf_data_length f)"
  shows "parses (ProcessIetfStreamFrame (GetIetfStreamFrameTypeByte f False)) (StreamFrame_image False f data)
    (StreamFrame_received f data)"
proof -
  let ?K = "\<lambda>offset. reads ''Unable to read stream data length.'' ReadVarInt62 (\<lambda>len.
      rejects (len > 0xffff) ''Stream data length is too large.''
      (ReadStreamData (sf_fin f) (sf_stream_id f) offset (ucast len)))"
  have K: "parses (?K (sf_offset f)) (vi (ucast (sf_data_length f)) @ data) (StreamFrame_received f data)"
  proof (rule parses_reads [OF vi_reads [OF fits62_u16]], rule parses_rejects [OF u16_not_large])
    show "parses (ReadStreamData (sf_fin f) (sf_stream_id f) (sf_offset f) (ucast (ucast (sf_data_length f) :: u64)))
        data (StreamFrame_received f data)"
      by (simp only: ucast_u16_u64 ReadStreamData_parses [OF f(2)])
  qed
  have off: "(if sf_offset f \<noteq> 0 then sf_offset f else 0) = sf_offset f" by simp
  show ?thesis
    unfolding ProcessIetfStreamFrame_def StreamFrame_image_def type_byte_bits Let_def not_False_eq_True if_True
    by (rule parses_reads [OF vi32_reads], rule parses_reads_when [OF vi_reads [OF f(1)]]) (simp only: off K)
qed

text \<open>The last frame: the data is what remains of the packet.\<close>

lemma ProcessIetfStreamFrame_parses_rest:
  assumes f: "fits62 (sf_offset f)" "length data = unat (sf_data_length f)"
  shows "parses_rest (ProcessIetfStreamFrame (GetIetfStreamFrameTypeByte f True)) (StreamFrame_image True f data)
    (StreamFrame_received f data)"
proof -
  let ?K = "\<lambda>offset r. ReadStreamData (sf_fin f) (sf_stream_id f) offset (word_of_nat (BytesRemaining r)) r"
  have K: "parses_rest (?K (sf_offset f)) data (StreamFrame_received f data)"
    unfolding parses_rest_def
  proof (intro allI impI)
    fix r assume r: "net_reader r" "PeekRemainingPayload r = data"
    then have "BytesRemaining r = unat (sf_data_length f)"
      using length_PeekRemainingPayload [of r] f(2) by (simp add: net_readerD)
    then have e: "word_of_nat (BytesRemaining r) = sf_data_length f" by simp
    show "?K (sf_offset f) r = (Inr (StreamFrame_received f data), advance (length data) r)"
      unfolding e using parsesD [OF ReadStreamData_parses [OF f(2)], of r "[]"] r by simp
  qed
  have off: "(if sf_offset f \<noteq> 0 then sf_offset f else 0) = sf_offset f" by simp
  show ?thesis
    unfolding ProcessIetfStreamFrame_def StreamFrame_image_def type_byte_bits Let_def not_True_eq_False
      if_False simp_thms append_Nil
    by (rule parses_rest_reads [OF vi32_reads], rule parses_rest_reads_when [OF vi_reads [OF f(1)]])
      (simp only: off K)
qed

lemma stream_source_buffer:
  "sf_data_buffer f = Some bs \<Longrightarrow> writes_as (stream_source None f) (take (unat (sf_data_length f)) bs)"
  by (simp add: stream_source_def buffer_bytes_def bytes_writes)

section \<open>Crypto frames\<close>

type_synonym crypto_producer = "EncryptionLevel \<Rightarrow> u64 \<Rightarrow> u16 \<Rightarrow> QuicDataWriter \<Rightarrow> bool \<times> QuicDataWriter"

text \<open>Where the producer fails, no detail is set.\<close>

definition AppendCryptoFrame :: "crypto_producer option \<Rightarrow> QuicCryptoFrame \<Rightarrow> writing" where
  "AppendCryptoFrame data_producer f =
     writes ''Writing data offset failed.'' (WriteVarInt62 (cf_offset f))
     (writes ''Writing data length failed.'' (WriteVarInt62 (ucast (cf_data_length f)))
     (case data_producer of
        None \<Rightarrow> refuses (cf_data_buffer f = None) ''Writing frame data failed.''
          (writes ''Writing frame data failed.''
             (WriteBytes (buffer_bytes (cf_data_buffer f) (unat (cf_data_length f)))) complete)
      | Some produce \<Rightarrow> writes '''' (produce (cf_level f) (cf_offset f) (cf_data_length f)) complete))"

definition ProcessCryptoFrame :: "QuicCryptoFrame reading" where
  "ProcessCryptoFrame =
     reads ''Unable to read crypto data offset.'' ReadVarInt62 (\<lambda>offset.
     reads ''Invalid data length.'' ReadVarInt62 (\<lambda>len.
     rejects (len > 0xffff) ''Invalid data length.''
     (reads ''Unable to read frame data.'' (ReadStringPiece (unat (ucast len :: u16))) (\<lambda>data.
     gives \<lparr>cf_level = ENCRYPTION_INITIAL, cf_data_length = ucast len, cf_data_buffer = Some data,
            cf_offset = offset\<rparr>))))"

definition cf_data :: "QuicCryptoFrame \<Rightarrow> byte list" where
  "cf_data f = buffer_bytes (cf_data_buffer f) (unat (cf_data_length f))"

definition Crypto_image :: "QuicCryptoFrame \<Rightarrow> byte list" where
  "Crypto_image f = vi (cf_offset f) @ vi (ucast (cf_data_length f)) @ cf_data f"

definition Crypto_received :: "QuicCryptoFrame \<Rightarrow> QuicCryptoFrame" where
  "Crypto_received f =
     \<lparr>cf_level = ENCRYPTION_INITIAL, cf_data_length = cf_data_length f, cf_data_buffer = Some (cf_data f),
      cf_offset = cf_offset f\<rparr>"

definition Crypto_valid :: "QuicCryptoFrame \<Rightarrow> bool" where
  "Crypto_valid f \<longleftrightarrow> fits62 (cf_offset f) \<and> cf_data_buffer f \<noteq> None
   \<and> unat (cf_data_length f) \<le> length (the (cf_data_buffer f))"

text \<open>With a producer, the data is what the producer writes.\<close>

definition Crypto_source :: "crypto_producer option \<Rightarrow> QuicCryptoFrame \<Rightarrow> byte list \<Rightarrow> bool" where
  "Crypto_source data_producer f data \<longleftrightarrow>
     (case data_producer of
        None \<Rightarrow> cf_data_buffer f \<noteq> None \<and> data = cf_data f
      | Some produce \<Rightarrow> writes_as (produce (cf_level f) (cf_offset f) (cf_data_length f)) data)"

lemma AppendCryptoFrame_emits:
  assumes "fits62 (cf_offset f)" "Crypto_source dp f data"
  shows "emits (AppendCryptoFrame dp f) (vi (cf_offset f) @ vi (ucast (cf_data_length f)) @ data)"
proof (cases dp)
  case None
  then have s: "\<not> cf_data_buffer f = None" "data = buffer_bytes (cf_data_buffer f) (unat (cf_data_length f))"
    using assms(2) by (simp_all add: Crypto_source_def cf_data_def)
  show ?thesis
    unfolding AppendCryptoFrame_def None option.case s(2)
    by (rule emits_end, unfold append_assoc) (rule codec_intros assms(1) s(1))+
next
  case (Some produce)
  then have s: "writes_as (produce (cf_level f) (cf_offset f) (cf_data_length f)) data"
    using assms(2) by (simp add: Crypto_source_def)
  show ?thesis
    unfolding AppendCryptoFrame_def Some option.case
    by (rule emits_end, unfold append_assoc) (rule codec_intros assms(1) s)+
qed

lemma ProcessCryptoFrame_parses:
  assumes "fits62 (cf_offset f)" "length data = unat (cf_data_length f)"
  shows "parses ProcessCryptoFrame (vi (cf_offset f) @ vi (ucast (cf_data_length f)) @ data)
    \<lparr>cf_level = ENCRYPTION_INITIAL, cf_data_length = cf_data_length f, cf_data_buffer = Some data,
     cf_offset = cf_offset f\<rparr>"
  unfolding ProcessCryptoFrame_def
proof (rule parses_end, unfold append_assoc, rule parses_reads [OF vi_reads [OF assms(1)]],
    rule parses_reads [OF vi_reads [OF fits62_u16]], rule parses_rejects [OF u16_not_large], unfold ucast_u16_u64)
  show "parses (reads ''Unable to read frame data.'' (ReadStringPiece (unat (cf_data_length f)))
      (\<lambda>data. gives \<lparr>cf_level = ENCRYPTION_INITIAL, cf_data_length = cf_data_length f,
         cf_data_buffer = Some data, cf_offset = cf_offset f\<rparr>)) (data @ [])
    \<lparr>cf_level = ENCRYPTION_INITIAL, cf_data_length = cf_data_length f, cf_data_buffer = Some data,
     cf_offset = cf_offset f\<rparr>"
    by (rule codec_intros assms(2))+
qed

interpretation crypto: frame_codec "AppendCryptoFrame None" ProcessCryptoFrame Crypto_image Crypto_received
    Crypto_valid
proof
  fix f :: QuicCryptoFrame
  assume "Crypto_valid f"
  then have f: "fits62 (cf_offset f)" "cf_data_buffer f \<noteq> None" "length (cf_data f) = unat (cf_data_length f)"
    by (auto simp: Crypto_valid_def cf_data_def buffer_bytes_def)
  then have "Crypto_source None f (cf_data f)" by (simp add: Crypto_source_def)
  then show "emits (AppendCryptoFrame None f) (Crypto_image f)"
    unfolding Crypto_image_def by (rule AppendCryptoFrame_emits [OF f(1)])
  show "parses ProcessCryptoFrame (Crypto_image f) (Crypto_received f)"
    unfolding Crypto_image_def Crypto_received_def by (rule ProcessCryptoFrame_parses [OF f(1,3)])
qed

section \<open>Message frames\<close>

definition IETF_EXTENSION_MESSAGE_NO_LENGTH :: u8 where "IETF_EXTENSION_MESSAGE_NO_LENGTH = 0x20"
definition IETF_EXTENSION_MESSAGE :: u8 where "IETF_EXTENSION_MESSAGE = 0x21"

fun AppendSlices :: "byte list list \<Rightarrow> writing" where
  "AppendSlices [] = complete"
| "AppendSlices (mem_slice # slices) = writes '''' (WriteBytes mem_slice) (AppendSlices slices)"

text \<open>The failures set no detail.\<close>

definition AppendMessageFrameAndTypeByte :: "QuicMessageFrame \<Rightarrow> bool \<Rightarrow> writing" where
  "AppendMessageFrameAndTypeByte f last_frame_in_packet =
     writes '''' (WriteUInt8 (if last_frame_in_packet then IETF_EXTENSION_MESSAGE_NO_LENGTH
                              else IETF_EXTENSION_MESSAGE))
     (writes_when (\<not> last_frame_in_packet) '''' (WriteVarInt62 (ucast (msg_length f)))
     (AppendSlices (msg_data f)))"

definition received_message :: "byte list \<Rightarrow> u16 \<Rightarrow> QuicMessageFrame" where
  "received_message data len =
     \<lparr>msg_id = 0, msg_received_data = Some data, msg_length = len, msg_data = []\<rparr>"

definition ProcessMessageFrame :: "bool \<Rightarrow> QuicMessageFrame reading" where
  "ProcessMessageFrame no_message_length =
     (if no_message_length
      then (\<lambda>r. case ReadRemainingPayload r of (rest, r') \<Rightarrow>
             (Inr (received_message rest (word_of_nat (length rest))), r'))
      else reads ''Unable to read message length'' ReadVarInt62 (\<lambda>len.
           reads ''Unable to read message data'' (ReadStringPiece (unat len)) (\<lambda>data.
           gives (received_message data (ucast len)))))"

definition Message_image :: "bool \<Rightarrow> QuicMessageFrame \<Rightarrow> byte list" where
  "Message_image last_frame_in_packet f =
     (if \<not> last_frame_in_packet then vi (ucast (msg_length f)) else []) @ concat (msg_data f)"

definition Message_valid :: "QuicMessageFrame \<Rightarrow> bool" where
  "Message_valid f \<longleftrightarrow> length (concat (msg_data f)) = unat (msg_length f)"

definition Message_received :: "QuicMessageFrame \<Rightarrow> QuicMessageFrame" where
  "Message_received f = received_message (concat (msg_data f)) (msg_length f)"

lemma AppendSlices_emits [codec_intros]: "emits (AppendSlices slices) (concat slices)"
  by (induction slices) (simp_all add: codec_intros)

lemma AppendMessageFrame_emits:
  "emits (AppendMessageFrameAndTypeByte f lst)
    ([if lst then IETF_EXTENSION_MESSAGE_NO_LENGTH else IETF_EXTENSION_MESSAGE] @ Message_image lst f)"
  unfolding AppendMessageFrameAndTypeByte_def Message_image_def by (rule codec_intros)+

lemma ProcessMessageFrame_parses:
  assumes "Message_valid f"
  shows "parses (ProcessMessageFrame False) (Message_image False f) (Message_received f)"
proof -
  have u: "length (concat (msg_data f)) = unat (ucast (msg_length f) :: u64)"
    using assms unat_less_power [of "msg_length f"] by (simp add: Message_valid_def unat_ucast_mod)
  have "parses (ProcessMessageFrame False) (vi (ucast (msg_length f)) @ concat (msg_data f) @ [])
      (received_message (concat (msg_data f)) (ucast (ucast (msg_length f) :: u64)))"
    unfolding ProcessMessageFrame_def if_False by (rule codec_intros u)+
  then show ?thesis by (simp add: Message_image_def Message_received_def)
qed

lemma ReadRemainingPayload_advance:
  "net_reader r \<Longrightarrow> ReadRemainingPayload r = (PeekRemainingPayload r, advance (length (PeekRemainingPayload r)) r)"
  using length_PeekRemainingPayload [of r]
  by (simp add: ReadRemainingPayload_def advance_def net_reader_def BytesRemaining_def reader_ok_def)

lemma ProcessMessageFrame_parses_rest:
  assumes "Message_valid f"
  shows "parses_rest (ProcessMessageFrame True) (Message_image True f) (Message_received f)"
proof -
  have "(word_of_nat (length (concat (msg_data f))) :: u16) = msg_length f"
    using assms by (simp only: Message_valid_def) simp
  then show ?thesis
    by (simp add: parses_rest_def ProcessMessageFrame_def Message_image_def Message_received_def
        ReadRemainingPayload_advance)
qed

section \<open>Padding\<close>

text \<open>The negative count asks for padding up to the end of the packet.\<close>

definition AppendPaddingFrame :: "QuicPaddingFrame \<Rightarrow> QuicDataWriter \<Rightarrow> bool \<times> QuicDataWriter" where
  "AppendPaddingFrame f w =
     (if num_padding_bytes f = 0 then (False, w)
      else if num_padding_bytes f < 0 then (True, WritePadding w)
      else WritePaddingBytes (nat (num_padding_bytes f - 1)) w)"

function skip_zeros :: "QuicDataReader \<Rightarrow> int \<Rightarrow> int \<times> QuicDataReader" where
  "skip_zeros r n =
     (if \<not> IsDoneReading r \<and> PeekByte r = 0 then skip_zeros (snd (ReadBytes 1 r)) (n + 1) else (n, r))"
  by auto
termination
  by (relation "measure (\<lambda>(r, n). if rd_len r < rd_pos r then 1 else BytesRemaining r)")
    (auto simp: IsDoneReading_def ReadBytes_def CanRead_def OnFailure_def BytesRemaining_def)

declare skip_zeros.simps [simp del]

definition ProcessPaddingFrame :: "QuicDataReader \<Rightarrow> QuicPaddingFrame \<times> QuicDataReader" where
  "ProcessPaddingFrame r = (case skip_zeros r 1 of (n, r') \<Rightarrow> (\<lparr>num_padding_bytes = n\<rparr>, r'))"

text \<open>The reader takes the zeros that follow, up to the first other byte or the end of the packet.\<close>

lemma PeekByte_Cons:
  "net_reader r \<Longrightarrow> PeekRemainingPayload r = b # t \<Longrightarrow> PeekByte r = b \<and> \<not> IsDoneReading r"
  using nth_PeekRemainingPayload [of 0 r] length_PeekRemainingPayload [of r]
  by (auto simp: PeekByte_def IsDoneReading_def net_reader_def BytesRemaining_def)

lemma IsDoneReading_iff:
  "net_reader r \<Longrightarrow> IsDoneReading r \<longleftrightarrow> PeekRemainingPayload r = []"
  by (auto simp: IsDoneReading_def PeekRemainingPayload_def net_reader_def reader_ok_def)

lemma skip_zeros_correct:
  assumes "net_reader r" "PeekRemainingPayload r = replicate k 0 @ t" "t = [] \<or> hd t \<noteq> 0"
  shows "skip_zeros r n = (n + int k, advance k r)"
  using assms
proof (induction k arbitrary: r n)
  case 0
  then show ?case
    by (cases t) (auto simp: skip_zeros.simps [of r] IsDoneReading_iff dest!: PeekByte_Cons)
next
  case (Suc k)
  then have p: "PeekRemainingPayload r = 0 # (replicate k 0 @ t)" by simp
  have rb: "ReadBytes 1 r = (Some [0], advance 1 r)"
    using ReadBytes_prefix [of r "[0]" "replicate k 0 @ t" 1] p Suc.prems(1) by (simp add: net_readerD)
  have "skip_zeros (advance 1 r) (n + 1) = (n + 1 + int k, advance k (advance 1 r))"
    using Suc.prems(1,3) p by (intro Suc.IH) (simp_all add: PeekRemainingPayload_advance)
  then show ?case
    using PeekByte_Cons [OF Suc.prems(1) p] rb by (simp add: skip_zeros.simps [of r])
qed

end
