(* ===== verification/Quic_Google_Frames.thy ===== *)
theory Quic_Google_Frames
  imports Quic_Ietf_Data_Frames
begin

text \<open>
  The frames of the Google versions of the protocol in \<open>QuicFramer\<close> (src/quic/core/quic_framer.cc), the
  sizes of their variable fields and the methods that choose between the two formats by the version.
  The writes of these frames report no detail.
\<close>

unbundle bit_operations_syntax

section \<open>Field sizes\<close>

function GetStreamIdSize_loop :: "nat \<Rightarrow> u32 \<Rightarrow> nat" where
  "GetStreamIdSize_loop i stream_id =
     (if i > 4 then 4
      else let shifted = drop_bit 8 stream_id
           in if shifted = 0 then i else GetStreamIdSize_loop (i + 1) shifted)"
  by auto
termination by (relation "measure (\<lambda>(i, _). 5 - i)") auto

declare GetStreamIdSize_loop.simps [simp del]

definition GetStreamIdSize :: "u32 \<Rightarrow> nat" where
  "GetStreamIdSize stream_id = GetStreamIdSize_loop 1 stream_id"

function GetStreamOffsetSize_loop :: "nat \<Rightarrow> u64 \<Rightarrow> nat" where
  "GetStreamOffsetSize_loop i offset =
     (if i > 8 then 8
      else let shifted = drop_bit 8 offset
           in if shifted = 0 then i else GetStreamOffsetSize_loop (i + 1) shifted)"
  by auto
termination by (relation "measure (\<lambda>(i, _). 9 - i)") auto

declare GetStreamOffsetSize_loop.simps [simp del]

definition GetStreamOffsetSize :: "u64 \<Rightarrow> nat" where
  "GetStreamOffsetSize offset =
     (if offset = 0 then 0 else GetStreamOffsetSize_loop 2 (drop_bit 8 offset))"

lemma pow_byte: "(2 :: nat) ^ (8 * Suc n) = 256 * 2 ^ (8 * n)"
  by (simp add: power_add)

lemma byte_step:
  fixes x :: "'a :: len word"
  shows "unat (drop_bit 8 x) < 2 ^ (8 * n) \<longleftrightarrow> unat x < 2 ^ (8 * Suc n)"
    and "drop_bit 8 x = 0 \<longleftrightarrow> unat x < 2 ^ (8 * Suc 0)"
proof -
  show "unat (drop_bit 8 x) < 2 ^ (8 * n) \<longleftrightarrow> unat x < 2 ^ (8 * Suc n)" for n
    unfolding unat_drop_bit_div pow_byte by (simp add: div_less_iff_less_mult mult.commute)
  from this [of 0] show "drop_bit 8 x = 0 \<longleftrightarrow> unat x < 2 ^ (8 * Suc 0)"
    by (simp only: mult_0_right power_0 less_one unat_eq_0)
qed

lemma GetStreamIdSize_loop_correct:
  "i + j = 4 \<Longrightarrow> unat x < 2 ^ (8 * Suc j) \<Longrightarrow>
     \<exists>d \<le> j. GetStreamIdSize_loop i x = i + d \<and> unat x < 2 ^ (8 * Suc d)"
proof (induction j arbitrary: i x)
  case 0
  then have "drop_bit 8 x = 0" using byte_step(2) [of x] by simp
  then show ?case using 0 by (subst GetStreamIdSize_loop.simps) simp
next
  case (Suc j)
  show ?case
  proof (cases "drop_bit 8 x = 0")
    case True
    then show ?thesis using Suc.prems(1) byte_step(2) [of x]
      by (intro exI [of _ 0]) (simp add: GetStreamIdSize_loop.simps [of i x])
  next
    case False
    have "\<exists>d \<le> j. GetStreamIdSize_loop (i + 1) (drop_bit 8 x) = i + 1 + d \<and> unat (drop_bit 8 x) < 2 ^ (8 * Suc d)"
      using Suc.prems by (intro Suc.IH) (simp, simp only: byte_step(1))
    then obtain d where d: "d \<le> j" "GetStreamIdSize_loop (i + 1) (drop_bit 8 x) = i + 1 + d"
      "unat x < 2 ^ (8 * Suc (Suc d))" unfolding byte_step(1) by blast
    with False Suc.prems(1) show ?thesis
      by (intro exI [of _ "Suc d"]) (simp add: GetStreamIdSize_loop.simps [of i x] Let_def)
  qed
qed

lemma GetStreamOffsetSize_loop_correct:
  "i + j = 8 \<Longrightarrow> unat x < 2 ^ (8 * Suc j) \<Longrightarrow>
     \<exists>d \<le> j. GetStreamOffsetSize_loop i x = i + d \<and> unat x < 2 ^ (8 * Suc d)"
proof (induction j arbitrary: i x)
  case 0
  then have "drop_bit 8 x = 0" using byte_step(2) [of x] by simp
  then show ?case using 0 by (subst GetStreamOffsetSize_loop.simps) simp
next
  case (Suc j)
  show ?case
  proof (cases "drop_bit 8 x = 0")
    case True
    then show ?thesis using Suc.prems(1) byte_step(2) [of x]
      by (intro exI [of _ 0]) (simp add: GetStreamOffsetSize_loop.simps [of i x])
  next
    case False
    have "\<exists>d \<le> j. GetStreamOffsetSize_loop (i + 1) (drop_bit 8 x) = i + 1 + d \<and> unat (drop_bit 8 x) < 2 ^ (8 * Suc d)"
      using Suc.prems by (intro Suc.IH) (simp, simp only: byte_step(1))
    then obtain d where d: "d \<le> j" "GetStreamOffsetSize_loop (i + 1) (drop_bit 8 x) = i + 1 + d"
      "unat x < 2 ^ (8 * Suc (Suc d))" unfolding byte_step(1) by blast
    with False Suc.prems(1) show ?thesis
      by (intro exI [of _ "Suc d"]) (simp add: GetStreamOffsetSize_loop.simps [of i x] Let_def)
  qed
qed

text \<open>The size of a stream id is 1 to 4 bytes, that of an offset 0 or 2 to 8, and the value fits.\<close>

lemma GetStreamIdSize_bounds:
  "GetStreamIdSize x \<in> {1, 2, 3, 4}" "unat x < 2 ^ (8 * GetStreamIdSize x)"
proof -
  have "unat x < 2 ^ (8 * Suc 3)" using unat_less_power [of x] by simp
  then obtain d where d: "d \<le> 3" "GetStreamIdSize x = 1 + d" "unat x < 2 ^ (8 * Suc d)"
    using GetStreamIdSize_loop_correct [of 1 3 x] unfolding GetStreamIdSize_def by auto
  from d(1) have "d = 0 \<or> d = 1 \<or> d = 2 \<or> d = 3" by arith
  with d(2) show "GetStreamIdSize x \<in> {1, 2, 3, 4}" by auto
  from d(2,3) show "unat x < 2 ^ (8 * GetStreamIdSize x)" by simp
qed

lemma GetStreamOffsetSize_bounds:
  "GetStreamOffsetSize x \<in> {0, 2, 3, 4, 5, 6, 7, 8}" "unat x < 2 ^ (8 * GetStreamOffsetSize x)"
proof -
  show "GetStreamOffsetSize x \<in> {0, 2, 3, 4, 5, 6, 7, 8}" "unat x < 2 ^ (8 * GetStreamOffsetSize x)"
  proof (atomize (full), cases "x = 0")
    case True
    then show "GetStreamOffsetSize x \<in> {0, 2, 3, 4, 5, 6, 7, 8} \<and> unat x < 2 ^ (8 * GetStreamOffsetSize x)"
      by (simp add: GetStreamOffsetSize_def)
  next
    case False
    have "unat x < 2 ^ (8 * Suc (Suc 6))" using unat_less_power [of x] by simp
    then have "unat (drop_bit 8 x) < 2 ^ (8 * Suc 6)" unfolding byte_step(1) .
    then obtain d where d: "d \<le> 6" "GetStreamOffsetSize x = 2 + d" "unat x < 2 ^ (8 * Suc (Suc d))"
      using GetStreamOffsetSize_loop_correct [of 2 6 "drop_bit 8 x"] False
      unfolding GetStreamOffsetSize_def byte_step(1) by auto
    from d(1) have "d = 0 \<or> d = 1 \<or> d = 2 \<or> d = 3 \<or> d = 4 \<or> d = 5 \<or> d = 6" by arith
    with d(2) have "GetStreamOffsetSize x \<in> {0, 2, 3, 4, 5, 6, 7, 8}" by auto
    with d(2,3) show "GetStreamOffsetSize x \<in> {0, 2, 3, 4, 5, 6, 7, 8} \<and> unat x < 2 ^ (8 * GetStreamOffsetSize x)"
      by simp
  qed
qed

section \<open>Fields of the Google frames\<close>

definition IsValidPacketNumberLength :: "nat \<Rightarrow> bool" where
  "IsValidPacketNumberLength n \<longleftrightarrow> n = 1 \<or> n = 2 \<or> n = 4 \<or> n = 6 \<or> n = 8"

definition AppendPacketNumber :: "nat \<Rightarrow> QuicPacketNumber \<Rightarrow> QuicDataWriter \<Rightarrow> bool \<times> QuicDataWriter" where
  "AppendPacketNumber packet_number_length packet_number w =
     (if \<not> IsValidPacketNumberLength packet_number_length then (False, w)
      else WriteBytesToUInt64 packet_number_length (word_of_nat packet_number) w)"

definition AppendStreamId :: "nat \<Rightarrow> u32 \<Rightarrow> QuicDataWriter \<Rightarrow> bool \<times> QuicDataWriter" where
  "AppendStreamId stream_id_length stream_id w =
     (if stream_id_length = 0 \<or> stream_id_length > 4 then (False, w)
      else WriteBytesToUInt64 stream_id_length (ucast stream_id) w)"

definition AppendStreamOffset :: "nat \<Rightarrow> u64 \<Rightarrow> QuicDataWriter \<Rightarrow> bool \<times> QuicDataWriter" where
  "AppendStreamOffset offset_length offset w =
     (if offset_length = 1 \<or> offset_length > 8 then (False, w)
      else WriteBytesToUInt64 offset_length offset w)"

definition AppendAckBlock :: "u8 \<Rightarrow> nat \<Rightarrow> nat \<Rightarrow> QuicDataWriter \<Rightarrow> bool \<times> QuicDataWriter" where
  "AppendAckBlock gap length_length len w =
     (if len = 0
      then if \<not> IsValidPacketNumberLength length_length then (False, w)
           else and_then (WriteUInt8 gap) (WriteBytesToUInt64 length_length (word_of_nat len)) w
      else and_then (WriteUInt8 gap) (AppendPacketNumber length_length len) w)"

lemma low_bytes_writes [codec_intros]:
  "n \<le> 8 \<Longrightarrow> unat v < 2 ^ (8 * n) \<Longrightarrow> writes_as (WriteBytesToUInt64 n v) (be_bytes n v)"
  by (rule low_bytes_codec.writes_as_enc) simp

lemma low_bytes_reads [codec_intros]:
  "n \<le> 8 \<Longrightarrow> unat v < 2 ^ (8 * n) \<Longrightarrow> reads_as (ReadBytesToUInt64 n) (be_bytes n v) v"
  by (rule low_bytes_codec.reads_as_enc) simp

lemma u32_writes [codec_intros]: "writes_as (WriteUInt32 x) (be_bytes 4 (ucast x))"
  by (rule uint32_codec.writes_as_enc [OF TrueI])

lemma u32_reads [codec_intros]: "reads_as ReadUInt32 (be_bytes 4 (ucast x)) x"
  by (rule uint32_codec.reads_as_enc [OF TrueI])

lemma u64_writes [codec_intros]: "writes_as (WriteUInt64 x) (be_bytes 8 x)"
  by (rule uint64_codec.writes_as_enc [OF TrueI])

lemma u64_reads [codec_intros]: "reads_as ReadUInt64 (be_bytes 8 x) x"
  by (rule uint64_codec.reads_as_enc [OF TrueI])

lemma string16_writes [codec_intros]: "length s \<le> 0xFFFF \<Longrightarrow> writes_as (WriteStringPiece16 s) (string16_bytes s)"
  by (rule string16_codec.writes_as_enc)

lemma string16_reads [codec_intros]: "length s \<le> 0xFFFF \<Longrightarrow> reads_as ReadStringPiece16 (string16_bytes s) s"
  by (rule string16_codec.reads_as_enc)

lemma stream_id_writes [codec_intros]:
  "writes_as (AppendStreamId (GetStreamIdSize i) i) (be_bytes (GetStreamIdSize i) (ucast i))"
proof -
  have "\<not> (GetStreamIdSize i = 0 \<or> GetStreamIdSize i > 4)" using GetStreamIdSize_bounds(1) [of i] by auto
  then have "AppendStreamId (GetStreamIdSize i) i = WriteBytesToUInt64 (GetStreamIdSize i) (ucast i)"
    by (intro ext) (simp add: AppendStreamId_def)
  moreover have "GetStreamIdSize i \<le> 8" using GetStreamIdSize_bounds(1) [of i] by auto
  ultimately show ?thesis
    using GetStreamIdSize_bounds(2) [of i] by (simp add: low_bytes_writes unat_ucast_u32)
qed

lemma stream_offset_writes [codec_intros]:
  "writes_as (AppendStreamOffset (GetStreamOffsetSize x) x) (be_bytes (GetStreamOffsetSize x) x)"
proof -
  have "\<not> (GetStreamOffsetSize x = 1 \<or> GetStreamOffsetSize x > 8)" using GetStreamOffsetSize_bounds(1) [of x] by auto
  then have "AppendStreamOffset (GetStreamOffsetSize x) x = WriteBytesToUInt64 (GetStreamOffsetSize x) x"
    by (intro ext) (simp add: AppendStreamOffset_def)
  moreover have "GetStreamOffsetSize x \<le> 8" using GetStreamOffsetSize_bounds(1) [of x] by auto
  ultimately show ?thesis
    using GetStreamOffsetSize_bounds(2) [of x] by (simp add: low_bytes_writes)
qed

section \<open>The stream frame\<close>

definition kQuicFrameTypeStreamMask :: u8 where "kQuicFrameTypeStreamMask = 0x80"
definition kQuicStreamIdShift :: nat where "kQuicStreamIdShift = 2"
definition kQuicStreamIDLengthMask :: u8 where "kQuicStreamIDLengthMask = 0x03"
definition kQuicStreamShift :: nat where "kQuicStreamShift = 3"
definition kQuicStreamOffsetMask :: u8 where "kQuicStreamOffsetMask = 0x07"
definition kQuicStreamDataLengthShift :: nat where "kQuicStreamDataLengthShift = 1"
definition kQuicStreamDataLengthMask :: u8 where "kQuicStreamDataLengthMask = 0x01"
definition kQuicStreamFinShift :: nat where "kQuicStreamFinShift = 1"
definition kQuicStreamFinMask :: u8 where "kQuicStreamFinMask = 0x01"

lemmas stream_flag_defs = kQuicFrameTypeStreamMask_def kQuicStreamIdShift_def kQuicStreamIDLengthMask_def
  kQuicStreamShift_def kQuicStreamOffsetMask_def kQuicStreamDataLengthShift_def kQuicStreamDataLengthMask_def
  kQuicStreamFinShift_def kQuicStreamFinMask_def

definition google_stream_type_byte :: "bool \<Rightarrow> bool \<Rightarrow> nat \<Rightarrow> nat \<Rightarrow> u8" where
  "google_stream_type_byte fin last_frame_in_packet offset_len stream_id_len =
     (let t = (if fin then kQuicStreamFinMask else 0);
          t = push_bit kQuicStreamDataLengthShift t;
          t = t OR (if last_frame_in_packet then 0 else kQuicStreamDataLengthMask);
          t = push_bit kQuicStreamShift t;
          t = (if offset_len > 0 then t OR word_of_nat (offset_len - 1) else t);
          t = push_bit kQuicStreamIdShift t;
          t = t OR word_of_nat (stream_id_len - 1)
      in t OR kQuicFrameTypeStreamMask)"

definition GetStreamFrameTypeByte :: "QuicTransportVersion \<Rightarrow> QuicStreamFrame \<Rightarrow> bool \<Rightarrow> u8" where
  "GetStreamFrameTypeByte v f last_frame_in_packet =
     (if VersionHasIetfQuicFrames v then GetIetfStreamFrameTypeByte f last_frame_in_packet
      else google_stream_type_byte (sf_fin f) last_frame_in_packet (GetStreamOffsetSize (sf_offset f))
             (GetStreamIdSize (sf_stream_id f)))"

definition AppendStreamFrame ::
    "QuicTransportVersion \<Rightarrow> stream_producer option \<Rightarrow> QuicStreamFrame \<Rightarrow> bool \<Rightarrow> writing" where
  "AppendStreamFrame v data_producer f no_stream_frame_length =
     (if VersionHasIetfQuicFrames v then AppendIetfStreamFrame data_producer f no_stream_frame_length
      else writes '''' (AppendStreamId (GetStreamIdSize (sf_stream_id f)) (sf_stream_id f))
           (writes '''' (AppendStreamOffset (GetStreamOffsetSize (sf_offset f)) (sf_offset f))
           (writes_when (\<not> no_stream_frame_length) '''' (WriteUInt16 (sf_data_length f))
           (if data_producer \<noteq> None \<and> sf_data_length f = 0 then complete
            else writes '''' (stream_source data_producer f) complete))))"

text \<open>The four fields of the type byte, in the order the source takes them off.\<close>

definition stream_type_fields :: "u8 \<Rightarrow> nat \<times> nat \<times> bool \<times> bool" where
  "stream_type_fields frame_type =
     (let flags = frame_type AND NOT kQuicFrameTypeStreamMask;
          stream_id_length = (flags AND kQuicStreamIDLengthMask) + 1;
          flags = drop_bit kQuicStreamIdShift flags;
          offset_length = flags AND kQuicStreamOffsetMask;
          offset_length = (if offset_length > 0 then offset_length + 1 else offset_length);
          flags = drop_bit kQuicStreamShift flags;
          has_data_length = (flags AND kQuicStreamDataLengthMask = kQuicStreamDataLengthMask);
          flags = drop_bit kQuicStreamDataLengthShift flags;
          fin = (flags AND kQuicStreamFinMask = word_of_nat kQuicStreamFinShift)
      in (unat stream_id_length, unat offset_length, has_data_length, fin))"

definition ProcessStreamFrame :: "u8 \<Rightarrow> QuicStreamFrame reading" where
  "ProcessStreamFrame frame_type =
     (case stream_type_fields frame_type of (stream_id_length, offset_length, has_data_length, fin) \<Rightarrow>
        reads ''Unable to read stream_id.'' (ReadBytesToUInt64 stream_id_length) (\<lambda>stream_id.
        reads ''Unable to read offset.'' (ReadBytesToUInt64 offset_length) (\<lambda>offset.
        reads ''Unable to read frame data.''
          (if has_data_length then ReadStringPiece16 else (\<lambda>r. ReadStringPiece (BytesRemaining r) r)) (\<lambda>data.
        gives \<lparr>sf_fin = fin, sf_data_length = word_of_nat (length data), sf_stream_id = ucast stream_id,
               sf_data_buffer = Some data, sf_offset = offset\<rparr>))))"

text \<open>Fields packed into a byte come out again.\<close>

lemma packed_fields:
  fixes R O' S M :: u8
  assumes "\<forall>n. bit S n \<longrightarrow> n < 2" "\<forall>n. bit O' n \<longrightarrow> n < 3" "\<forall>n. bit R n \<longrightarrow> n < 2"
    "\<And>n. bit M n \<longleftrightarrow> n = 7"
  defines "b \<equiv> (push_bit 2 (push_bit 3 R OR O') OR S OR M) AND NOT M"
  shows "b AND mask 2 = S" "drop_bit 2 b AND mask 3 = O'" "drop_bit 3 (drop_bit 2 b) = R"
proof -
  show "b AND mask 2 = S"
    unfolding b_def by (rule bit_word_eqI) (auto simp: bit_simps assms(4) dest: assms(1-3) [rule_format])
  show "drop_bit 2 b AND mask 3 = O'"
    unfolding b_def by (rule bit_word_eqI) (auto simp: bit_simps assms(4) dest: assms(1-3) [rule_format])
  show "drop_bit 3 (drop_bit 2 b) = R"
    unfolding b_def by (rule bit_word_eqI) (auto simp: bit_simps assms(4) dest: assms(1-3) [rule_format])
qed

lemma small_word_bits: "unat (w :: u8) < 2 ^ k \<Longrightarrow> \<forall>n. bit w n \<longrightarrow> n < k"
proof (intro allI impI)
  fix n
  assume w: "unat w < 2 ^ k" and b: "bit w n"
  have "take_bit k w = w" using w by (simp add: word_unat_eq_iff unsigned_take_bit_eq take_bit_nat_eq_self)
  then have "bit (take_bit k w) n" using b by simp
  then show "n < k" by (simp add: bit_simps)
qed

lemma stream_type_fields_google:
  assumes s: "s = 1 \<or> s = 2 \<or> s = 3 \<or> s = 4"
    and o: "o' = 0 \<or> o' = 2 \<or> o' = 3 \<or> o' = 4 \<or> o' = 5 \<or> o' = 6 \<or> o' = 7 \<or> o' = 8"
  shows "stream_type_fields (google_stream_type_byte fin lst o' s) = (s, o', \<not> lst, fin)"
    and "google_stream_type_byte fin lst o' s AND kQuicFrameTypeStreamMask \<noteq> 0"
proof -
  let ?S = "word_of_nat (s - 1) :: u8" and ?O = "word_of_nat (o' - 1) :: u8"
  define R where "R = push_bit 1 (if fin then 1 else 0) OR (if lst then 0 else 1 :: u8)"
  have S: "unat ?S < 2 ^ 2" using s by auto
  have O: "unat ?O < 2 ^ 3" using o by auto
  have R: "unat R < 2 ^ 2" by (simp add: R_def)
  have M: "bit (0x80 :: u8) n \<longleftrightarrow> n = 7" for n
    using bit_push_bit_iff [of 7 "1 :: u8" n] by (auto simp: bit_1_iff)
  have byte: "google_stream_type_byte fin lst o' s = push_bit 2 (push_bit 3 R OR ?O) OR ?S OR 0x80"
    using o by (auto simp: google_stream_type_byte_def Let_def stream_flag_defs R_def or.assoc)
  note pf = packed_fields [of ?S ?O R "0x80", OF small_word_bits [OF S] small_word_bits [OF O] small_word_bits [OF R] M]
  have m: "(0x03 :: u8) = mask 2" "(0x07 :: u8) = mask 3" by (simp_all add: mask_eq_exp_minus_1)
  have Rf: "(R AND 1 = 1) = (\<not> lst)" "(drop_bit 1 R AND 1 = 1) = fin"
    by (auto simp: R_def)
  have o8: "unat (if ?O > 0 then ?O + 1 else ?O) = o'" and s4: "unat (?S + 1) = s"
    using o s by auto
  show "stream_type_fields (google_stream_type_byte fin lst o' s) = (s, o', \<not> lst, fin)"
    unfolding byte stream_type_fields_def Let_def stream_flag_defs m pf of_nat_1 Rf o8 s4 ..
  have "bit (google_stream_type_byte fin lst o' s AND 0x80) 7"
    unfolding byte by (simp only: bit_and_iff bit_or_iff M) simp
  then show "google_stream_type_byte fin lst o' s AND kQuicFrameTypeStreamMask \<noteq> 0"
    unfolding kQuicFrameTypeStreamMask_def by auto
qed

text \<open>The image of a stream frame; without a length field the data must be the rest of the packet.\<close>

definition GoogleStream_image :: "bool \<Rightarrow> QuicStreamFrame \<Rightarrow> byte list \<Rightarrow> byte list" where
  "GoogleStream_image no_length f data =
     be_bytes (GetStreamIdSize (sf_stream_id f)) (ucast (sf_stream_id f))
     @ be_bytes (GetStreamOffsetSize (sf_offset f)) (sf_offset f)
     @ (if \<not> no_length then be_bytes 2 (ucast (sf_data_length f)) else []) @ data"

lemma AppendStreamFrame_google_emits:
  assumes "\<not> VersionHasIetfQuicFrames v" "length data = unat (sf_data_length f)"
    and "writes_as (stream_source dp f) data"
  shows "emits (AppendStreamFrame v dp f lst) (GoogleStream_image lst f data)"
proof (cases "dp \<noteq> None \<and> sf_data_length f = 0")
  case True
  then have "data = []" using assms(2) by simp
  then show ?thesis
    unfolding AppendStreamFrame_def GoogleStream_image_def if_not_P [OF assms(1)] if_P [OF True]
    by (simp only:) (rule codec_intros)+
next
  case False
  show ?thesis
    unfolding AppendStreamFrame_def GoogleStream_image_def if_not_P [OF assms(1)] if_not_P [OF False]
    by (rule emits_end, unfold append_assoc) (rule codec_intros assms(3))+
qed

lemma ucast_u32_u64 [simp]: "ucast (ucast (x :: u32) :: u64) = x"
  by (rule bit_word_eqI) (simp add: bit_simps)

lemma stream_fields_of_frame:
  assumes "\<not> VersionHasIetfQuicFrames v"
  shows "stream_type_fields (GetStreamFrameTypeByte v f lst) =
    (GetStreamIdSize (sf_stream_id f), GetStreamOffsetSize (sf_offset f), \<not> lst, sf_fin f)"
  unfolding GetStreamFrameTypeByte_def if_not_P [OF assms]
  by (rule stream_type_fields_google)
    (use GetStreamIdSize_bounds(1) [of "sf_stream_id f"] GetStreamOffsetSize_bounds(1) [of "sf_offset f"] in auto)

lemma stream_id_field: "GetStreamIdSize i \<le> 8" "unat (ucast (i :: u32) :: u64) < 2 ^ (8 * GetStreamIdSize i)"
  using GetStreamIdSize_bounds [of i] by (auto simp: unat_ucast_u32)

lemma stream_offset_field: "GetStreamOffsetSize x \<le> 8" "unat x < 2 ^ (8 * GetStreamOffsetSize x)"
  using GetStreamOffsetSize_bounds [of x] by auto

lemma ProcessStreamFrame_parses:
  assumes v: "\<not> VersionHasIetfQuicFrames v" and d: "length data = unat (sf_data_length f)"
  shows "parses (ProcessStreamFrame (GetStreamFrameTypeByte v f False)) (GoogleStream_image False f data)
    (StreamFrame_received f data)"
proof -
  have l: "length data \<le> 0xFFFF" using d unat_less_power [of "sf_data_length f"] by simp
  have w: "(word_of_nat (length data) :: u16) = sf_data_length f" using d by simp
  have s16: "be_bytes 2 (ucast (sf_data_length f)) @ data = string16_bytes data"
    using l by (simp add: string16_bytes_def flip: w) (simp add: ucast_word_of_nat_u16)
  have K: "parses (reads ''Unable to read frame data.'' ReadStringPiece16 (\<lambda>data.
      gives \<lparr>sf_fin = sf_fin f, sf_data_length = word_of_nat (length data), sf_stream_id = ucast (ucast (sf_stream_id f) :: u64),
               sf_data_buffer = Some data, sf_offset = sf_offset f\<rparr>)) (string16_bytes data) (StreamFrame_received f data)"
    unfolding StreamFrame_received_def w [symmetric] ucast_u32_u64
    by (rule parses_end) (rule codec_intros l)+
  show ?thesis
    unfolding ProcessStreamFrame_def GoogleStream_image_def stream_fields_of_frame [OF v] prod.case
      not_False_eq_True if_True s16
    by (rule parses_reads [OF low_bytes_reads [OF stream_id_field]],
        rule parses_reads [OF low_bytes_reads [OF stream_offset_field]], rule K)
qed

lemma ProcessStreamFrame_parses_rest:
  assumes v: "\<not> VersionHasIetfQuicFrames v" and d: "length data = unat (sf_data_length f)"
  shows "parses_rest (ProcessStreamFrame (GetStreamFrameTypeByte v f True)) (GoogleStream_image True f data)
    (StreamFrame_received f data)"
proof -
  have w: "(word_of_nat (length data) :: u16) = sf_data_length f" using d by simp
  have K: "parses_rest (reads ''Unable to read frame data.'' (\<lambda>r. ReadStringPiece (BytesRemaining r) r) (\<lambda>data.
      gives \<lparr>sf_fin = sf_fin f, sf_data_length = word_of_nat (length data), sf_stream_id = ucast (ucast (sf_stream_id f) :: u64),
               sf_data_buffer = Some data, sf_offset = sf_offset f\<rparr>)) data (StreamFrame_received f data)"
    unfolding parses_rest_def
  proof (intro allI impI)
    fix r assume r: "net_reader r" "PeekRemainingPayload r = data"
    then have "BytesRemaining r = length data" using length_PeekRemainingPayload [of r] by (simp add: net_readerD)
    moreover have "ReadStringPiece (length data) r = (Some data, advance (length data) r)"
      using reads_asD [OF ReadStringPiece_reads_as [OF refl], of r data "[]"] r by simp
    ultimately show "reads ''Unable to read frame data.'' (\<lambda>r. ReadStringPiece (BytesRemaining r) r) (\<lambda>data.
      gives \<lparr>sf_fin = sf_fin f, sf_data_length = word_of_nat (length data), sf_stream_id = ucast (ucast (sf_stream_id f) :: u64),
               sf_data_buffer = Some data, sf_offset = sf_offset f\<rparr>) r = (Inr (StreamFrame_received f data), advance (length data) r)"
      by (simp add: reads_def gives_def StreamFrame_received_def w)
  qed
  show ?thesis
    unfolding ProcessStreamFrame_def GoogleStream_image_def stream_fields_of_frame [OF v] prod.case
      not_True_eq_False simp_thms if_False append_Nil
    by (rule parses_rest_reads [OF low_bytes_reads [OF stream_id_field]],
        rule parses_rest_reads [OF low_bytes_reads [OF stream_offset_field]], rule K)
qed

section \<open>Control frames\<close>

definition AppendRstStreamFrame :: "QuicTransportVersion \<Rightarrow> QuicRstStreamFrame \<Rightarrow> writing" where
  "AppendRstStreamFrame v f =
     (if VersionHasIetfQuicFrames v then AppendIetfResetStreamFrame f
      else writes '''' (WriteUInt32 (rst_stream_id f))
           (writes '''' (WriteUInt64 (rst_byte_offset f))
           (writes '''' (WriteUInt32 (word_of_nat (rst_error_code f))) complete)))"

definition clamp_error :: "nat \<Rightarrow> u32 \<Rightarrow> nat" where
  "clamp_error last_error code = (if unat code \<ge> last_error then last_error else unat code)"

definition ProcessRstStreamFrame :: "QuicRstStreamFrame reading" where
  "ProcessRstStreamFrame =
     reads ''Unable to read stream_id.'' ReadUInt32 (\<lambda>stream_id.
     reads ''Unable to read rst stream sent byte offset.'' ReadUInt64 (\<lambda>byte_offset.
     reads ''Unable to read rst stream error code.'' ReadUInt32 (\<lambda>error_code.
     gives \<lparr>rst_control_frame_id = kInvalidControlFrameId, rst_stream_id = stream_id,
            rst_error_code = clamp_error QUIC_STREAM_LAST_ERROR error_code, rst_ietf_error_code = 0,
            rst_byte_offset = byte_offset\<rparr>)))"

definition GoogleRst_image :: "QuicRstStreamFrame \<Rightarrow> byte list" where
  "GoogleRst_image f = be_bytes 4 (ucast (rst_stream_id f)) @ be_bytes 8 (rst_byte_offset f)
     @ be_bytes 4 (ucast (word_of_nat (rst_error_code f) :: u32))"

definition GoogleRst_received :: "QuicRstStreamFrame \<Rightarrow> QuicRstStreamFrame" where
  "GoogleRst_received f =
     \<lparr>rst_control_frame_id = kInvalidControlFrameId, rst_stream_id = rst_stream_id f,
      rst_error_code = rst_error_code f, rst_ietf_error_code = 0, rst_byte_offset = rst_byte_offset f\<rparr>"

lemma clamp_error_id: "n \<le> k \<Longrightarrow> k < 2 ^ 32 \<Longrightarrow> clamp_error k (word_of_nat n) = n"
  by (auto simp: clamp_error_def unat_of_nat)

interpretation google_rst: frame_codec "AppendRstStreamFrame v" ProcessRstStreamFrame GoogleRst_image
    GoogleRst_received "\<lambda>f. rst_error_code f \<le> QUIC_STREAM_LAST_ERROR \<and> \<not> VersionHasIetfQuicFrames v" for v
proof
  fix f :: QuicRstStreamFrame
  assume "rst_error_code f \<le> QUIC_STREAM_LAST_ERROR \<and> \<not> VersionHasIetfQuicFrames v"
  then have v: "\<not> VersionHasIetfQuicFrames v"
    and c: "clamp_error QUIC_STREAM_LAST_ERROR (word_of_nat (rst_error_code f)) = rst_error_code f"
    by (auto intro: clamp_error_id simp: QUIC_STREAM_LAST_ERROR_def)
  show "emits (AppendRstStreamFrame v f) (GoogleRst_image f)"
    unfolding AppendRstStreamFrame_def GoogleRst_image_def if_not_P [OF v]
    by (rule emits_end, unfold append_assoc) (rule codec_intros)+
  show "parses ProcessRstStreamFrame (GoogleRst_image f) (GoogleRst_received f)"
    unfolding ProcessRstStreamFrame_def GoogleRst_image_def GoogleRst_received_def
    by (rule parses_end, unfold append_assoc, subst (2) c [symmetric]) (rule codec_intros)+
qed

definition AppendConnectionCloseFrame :: "QuicTransportVersion \<Rightarrow> QuicConnectionCloseFrame \<Rightarrow> writing" where
  "AppendConnectionCloseFrame v f =
     (if VersionHasIetfQuicFrames v then AppendIetfConnectionCloseFrame f
      else writes '''' (WriteUInt32 (word_of_nat (cc_quic_error_code f)))
           (writes '''' (WriteStringPiece16 (TruncateErrorString (cc_error_details f))) complete))"

definition ProcessConnectionCloseFrame :: "QuicConnectionCloseFrame reading" where
  "ProcessConnectionCloseFrame =
     reads ''Unable to read connection close error code.'' ReadUInt32 (\<lambda>error_code.
     reads ''Unable to read connection close error details.'' ReadStringPiece16 (\<lambda>error_details.
     gives (new_QuicConnectionCloseFrame
       \<lparr>cc_close_type := GOOGLE_QUIC_CONNECTION_CLOSE, cc_quic_error_code := clamp_error QUIC_LAST_ERROR error_code,
        cc_error_details := error_details\<rparr>)))"

definition GoogleClose_image :: "QuicConnectionCloseFrame \<Rightarrow> byte list" where
  "GoogleClose_image f = be_bytes 4 (ucast (word_of_nat (cc_quic_error_code f) :: u32))
     @ string16_bytes (TruncateErrorString (cc_error_details f))"

definition GoogleClose_received :: "QuicConnectionCloseFrame \<Rightarrow> QuicConnectionCloseFrame" where
  "GoogleClose_received f = new_QuicConnectionCloseFrame
     \<lparr>cc_close_type := GOOGLE_QUIC_CONNECTION_CLOSE, cc_quic_error_code := cc_quic_error_code f,
      cc_error_details := TruncateErrorString (cc_error_details f)\<rparr>"

lemma length_truncated16: "length (TruncateErrorString e) \<le> 0xFFFF"
  using TruncatedErrorStringSize_le [of e] by (simp add: length_TruncateErrorString)

interpretation google_close: frame_codec "AppendConnectionCloseFrame v" ProcessConnectionCloseFrame
    GoogleClose_image GoogleClose_received
    "\<lambda>f. cc_quic_error_code f \<le> QUIC_LAST_ERROR \<and> \<not> VersionHasIetfQuicFrames v" for v
proof
  fix f :: QuicConnectionCloseFrame
  assume "cc_quic_error_code f \<le> QUIC_LAST_ERROR \<and> \<not> VersionHasIetfQuicFrames v"
  then have v: "\<not> VersionHasIetfQuicFrames v"
    and c: "clamp_error QUIC_LAST_ERROR (word_of_nat (cc_quic_error_code f)) = cc_quic_error_code f"
    by (auto intro: clamp_error_id simp: QUIC_LAST_ERROR_def)
  show "emits (AppendConnectionCloseFrame v f) (GoogleClose_image f)"
    unfolding AppendConnectionCloseFrame_def GoogleClose_image_def if_not_P [OF v]
    by (rule emits_end, unfold append_assoc) (rule codec_intros length_truncated16)+
  show "parses ProcessConnectionCloseFrame (GoogleClose_image f) (GoogleClose_received f)"
    unfolding ProcessConnectionCloseFrame_def GoogleClose_image_def GoogleClose_received_def
    by (rule parses_end, unfold append_assoc, subst (2) c [symmetric]) (rule codec_intros length_truncated16)+
qed

definition AppendGoAwayFrame :: "QuicGoAwayFrame \<Rightarrow> writing" where
  "AppendGoAwayFrame f =
     writes '''' (WriteUInt32 (word_of_nat (ga_error_code f)))
     (writes '''' (WriteUInt32 (ga_last_good_stream_id f))
     (writes '''' (WriteStringPiece16 (TruncateErrorString (ga_reason_phrase f))) complete))"

definition ProcessGoAwayFrame :: "QuicGoAwayFrame reading" where
  "ProcessGoAwayFrame =
     reads ''Unable to read go away error code.'' ReadUInt32 (\<lambda>error_code.
     reads ''Unable to read last good stream id.'' ReadUInt32 (\<lambda>stream_id.
     reads ''Unable to read goaway reason.'' ReadStringPiece16 (\<lambda>reason_phrase.
     gives \<lparr>ga_control_frame_id = kInvalidControlFrameId, ga_error_code = clamp_error QUIC_LAST_ERROR error_code,
            ga_last_good_stream_id = stream_id, ga_reason_phrase = reason_phrase\<rparr>)))"

definition GoAway_image :: "QuicGoAwayFrame \<Rightarrow> byte list" where
  "GoAway_image f = be_bytes 4 (ucast (word_of_nat (ga_error_code f) :: u32))
     @ be_bytes 4 (ucast (ga_last_good_stream_id f)) @ string16_bytes (TruncateErrorString (ga_reason_phrase f))"

definition GoAway_received :: "QuicGoAwayFrame \<Rightarrow> QuicGoAwayFrame" where
  "GoAway_received f =
     \<lparr>ga_control_frame_id = kInvalidControlFrameId, ga_error_code = ga_error_code f,
      ga_last_good_stream_id = ga_last_good_stream_id f,
      ga_reason_phrase = TruncateErrorString (ga_reason_phrase f)\<rparr>"

interpretation goaway: frame_codec AppendGoAwayFrame ProcessGoAwayFrame GoAway_image GoAway_received
    "\<lambda>f. ga_error_code f \<le> QUIC_LAST_ERROR"
proof
  fix f :: QuicGoAwayFrame
  assume "ga_error_code f \<le> QUIC_LAST_ERROR"
  then have c: "clamp_error QUIC_LAST_ERROR (word_of_nat (ga_error_code f)) = ga_error_code f"
    by (auto intro: clamp_error_id simp: QUIC_LAST_ERROR_def)
  show "emits (AppendGoAwayFrame f) (GoAway_image f)"
    unfolding AppendGoAwayFrame_def GoAway_image_def
    by (rule emits_end, unfold append_assoc) (rule codec_intros length_truncated16)+
  show "parses ProcessGoAwayFrame (GoAway_image f) (GoAway_received f)"
    unfolding ProcessGoAwayFrame_def GoAway_image_def GoAway_received_def
    by (rule parses_end, unfold append_assoc, subst (2) c [symmetric]) (rule codec_intros length_truncated16)+
qed

definition AppendWindowUpdateFrame :: "QuicWindowUpdateFrame \<Rightarrow> writing" where
  "AppendWindowUpdateFrame f =
     writes '''' (WriteUInt32 (wu_stream_id f)) (writes '''' (WriteUInt64 (wu_byte_offset f)) complete)"

definition ProcessWindowUpdateFrame :: "QuicWindowUpdateFrame reading" where
  "ProcessWindowUpdateFrame =
     reads ''Unable to read stream_id.'' ReadUInt32 (\<lambda>stream_id.
     reads ''Unable to read window byte_offset.'' ReadUInt64 (\<lambda>byte_offset.
     gives \<lparr>wu_control_frame_id = kInvalidControlFrameId, wu_stream_id = stream_id, wu_byte_offset = byte_offset\<rparr>))"

definition WindowUpdate_image :: "QuicWindowUpdateFrame \<Rightarrow> byte list" where
  "WindowUpdate_image f = be_bytes 4 (ucast (wu_stream_id f)) @ be_bytes 8 (wu_byte_offset f)"

interpretation window_update: frame_codec AppendWindowUpdateFrame ProcessWindowUpdateFrame WindowUpdate_image
    MaxStreamData_received "\<lambda>_. True"
proof
  fix f :: QuicWindowUpdateFrame
  show "emits (AppendWindowUpdateFrame f) (WindowUpdate_image f)"
    unfolding AppendWindowUpdateFrame_def WindowUpdate_image_def
    by (rule emits_end, unfold append_assoc) (rule codec_intros)+
  show "parses ProcessWindowUpdateFrame (WindowUpdate_image f) (MaxStreamData_received f)"
    unfolding ProcessWindowUpdateFrame_def WindowUpdate_image_def MaxStreamData_received_def
    by (rule parses_end, unfold append_assoc) (rule codec_intros)+
qed

definition AppendBlockedFrame :: "QuicTransportVersion \<Rightarrow> QuicBlockedFrame \<Rightarrow> writing" where
  "AppendBlockedFrame v f =
     (if VersionHasIetfQuicFrames v
      then if bl_stream_id f = invalid_stream_id v then AppendIetfBlockedFrame f else AppendStreamBlockedFrame f
      else writes '''' (WriteUInt32 (bl_stream_id f)) complete)"

definition ProcessBlockedFrame :: "QuicBlockedFrame reading" where
  "ProcessBlockedFrame =
     reads ''Unable to read stream_id.'' ReadUInt32 (\<lambda>stream_id.
     gives \<lparr>bl_control_frame_id = kInvalidControlFrameId, bl_stream_id = stream_id, bl_offset = 0\<rparr>)"

definition GoogleBlocked_image :: "QuicBlockedFrame \<Rightarrow> byte list" where
  "GoogleBlocked_image f = be_bytes 4 (ucast (bl_stream_id f))"

definition GoogleBlocked_received :: "QuicBlockedFrame \<Rightarrow> QuicBlockedFrame" where
  "GoogleBlocked_received f =
     \<lparr>bl_control_frame_id = kInvalidControlFrameId, bl_stream_id = bl_stream_id f, bl_offset = 0\<rparr>"

interpretation google_blocked: frame_codec "AppendBlockedFrame v" ProcessBlockedFrame GoogleBlocked_image
    GoogleBlocked_received "\<lambda>_. \<not> VersionHasIetfQuicFrames v" for v
proof
  fix f :: QuicBlockedFrame
  assume v: "\<not> VersionHasIetfQuicFrames v"
  show "emits (AppendBlockedFrame v f) (GoogleBlocked_image f)"
    unfolding AppendBlockedFrame_def GoogleBlocked_image_def if_not_P [OF v]
    by (rule emits_end) (rule codec_intros)+
  show "parses ProcessBlockedFrame (GoogleBlocked_image f) (GoogleBlocked_received f)"
    unfolding ProcessBlockedFrame_def GoogleBlocked_image_def GoogleBlocked_received_def
    by (rule parses_end) (rule codec_intros)+
qed

text \<open>
  The stop waiting frame is relative to the packet number and its length in the header of the packet;
  the shift by the length in bits is one of a 64-bit value.
\<close>

definition AppendStopWaitingFrame :: "nat \<Rightarrow> QuicPacketNumber \<Rightarrow> QuicStopWaitingFrame \<Rightarrow> writing" where
  "AppendStopWaitingFrame packet_number_length packet_number f =
     (let delta = u64_sub packet_number (sw_least_unacked f)
      in refuses (delta div 2 ^ (packet_number_length * 8) > 0) ''''
         (if delta = 0 then writes '''' (WriteBytesToUInt64 packet_number_length (word_of_nat delta)) complete
          else writes '''' (AppendPacketNumber packet_number_length delta) complete))"

definition ProcessStopWaitingFrame :: "nat \<Rightarrow> QuicPacketNumber \<Rightarrow> QuicStopWaitingFrame reading" where
  "ProcessStopWaitingFrame packet_number_length packet_number =
     reads ''Unable to read least unacked delta.'' (ReadBytesToUInt64 packet_number_length) (\<lambda>delta.
     rejects (packet_number \<le> unat delta) ''Invalid unacked delta.''
     (gives \<lparr>sw_least_unacked = pn_minus packet_number (unat delta)\<rparr>))"

definition StopWaiting_image :: "nat \<Rightarrow> QuicPacketNumber \<Rightarrow> QuicStopWaitingFrame \<Rightarrow> byte list" where
  "StopWaiting_image packet_number_length packet_number f =
     be_bytes packet_number_length (word_of_nat (packet_number - sw_least_unacked f))"

definition StopWaiting_valid :: "nat \<Rightarrow> QuicPacketNumber \<Rightarrow> QuicStopWaitingFrame \<Rightarrow> bool" where
  "StopWaiting_valid packet_number_length packet_number f \<longleftrightarrow>
     packet_number_length \<in> {1, 2, 4, 6} \<and> packet_number < 2 ^ 64
   \<and> 0 < sw_least_unacked f \<and> sw_least_unacked f \<le> packet_number
   \<and> packet_number - sw_least_unacked f < 2 ^ (packet_number_length * 8)"

interpretation stop_waiting: frame_codec "AppendStopWaitingFrame n p" "ProcessStopWaitingFrame n p"
    "StopWaiting_image n p" "\<lambda>f. f" "StopWaiting_valid n p" for n p
proof
  fix f :: QuicStopWaitingFrame
  assume "StopWaiting_valid n p f"
  then have n: "n = 1 \<or> n = 2 \<or> n = 4 \<or> n = 6" and p: "p < 2 ^ 64" "0 < sw_least_unacked f" "sw_least_unacked f \<le> p"
    and d: "p - sw_least_unacked f < 2 ^ (8 * n)"
    by (auto simp: StopWaiting_valid_def mult.commute)
  let ?d = "p - sw_least_unacked f"
  have sub: "u64_sub p (sw_least_unacked f) = ?d" using p by (intro u64_sub_small) auto
  have u: "unat (word_of_nat ?d :: u64) = ?d" using p(1) by (intro of_nat_inverse) simp_all
  have n8: "n \<le> 8" using n by auto
  have fits: "unat (word_of_nat ?d :: u64) < 2 ^ (8 * n)" using d u by simp
  have nr: "\<not> ?d div 2 ^ (n * 8) > 0" using d by (simp add: mult.commute)
  have ap: "AppendPacketNumber n ?d = WriteBytesToUInt64 n (word_of_nat ?d :: u64)"
    using n by (intro ext) (auto simp: AppendPacketNumber_def IsValidPacketNumberLength_def)
  show "emits (AppendStopWaitingFrame n p f) (StopWaiting_image n p f)"
    unfolding AppendStopWaitingFrame_def Let_def sub StopWaiting_image_def ap if_cancel
    by (rule emits_end) (rule codec_intros nr n8 fits)+
  have again: "f = \<lparr>sw_least_unacked = pn_minus p (unat (word_of_nat ?d :: u64))\<rparr>"
    unfolding u using p by (simp add: pn_minus_def u64_sub_small)
  have nr2: "\<not> p \<le> unat (word_of_nat ?d :: u64)" unfolding u using p by simp
  show "parses (ProcessStopWaitingFrame n p) (StopWaiting_image n p f) f"
    unfolding ProcessStopWaitingFrame_def StopWaiting_image_def
    by (rule parses_end, subst (2) again) (rule codec_intros n8 fits nr2)+
qed

end
