(* ===== verification/Quic_Ietf_Ack.thy ===== *)
theory Quic_Ietf_Ack
  imports Quic_Ietf_Frames
begin

text \<open>
  The IETF ACK frame of \<open>QuicFramer\<close> (src/quic/core/quic_framer.cc): \<open>AppendIetfAckFrameAndTypeByte\<close>,
  \<open>GetIetfAckFrameSize\<close> and \<open>ProcessIetfAckFrame\<close>. Processing an ACK calls the visitor for each range, so a
  method here also carries the list of the calls made so far; the answer of the visitor to a call is a
  function of the calls up to and including it.
\<close>

section \<open>The visitor\<close>

datatype FramerEvent =
  OnAckFrameStart QuicPacketNumber int
| OnAckRange QuicPacketNumber QuicPacketNumber
| OnAckTimestamp QuicPacketNumber int
| OnAckFrameEnd QuicPacketNumber
| OnFrame QuicFrame

type_synonym visitor = "FramerEvent list \<Rightarrow> bool"

type_synonym 'a visiting =
  "FramerEvent list \<Rightarrow> QuicDataReader \<Rightarrow> (string + 'a) \<times> FramerEvent list \<times> QuicDataReader"

definition vreads ::
    "string \<Rightarrow> (QuicDataReader \<Rightarrow> 'a option \<times> QuicDataReader) \<Rightarrow> ('a \<Rightarrow> 'b visiting) \<Rightarrow> 'b visiting" where
  "vreads msg R k ev r = (case R r of (None, r') \<Rightarrow> (Inl msg, ev, r') | (Some v, r') \<Rightarrow> k v ev r')"

definition vreads_when ::
    "bool \<Rightarrow> string \<Rightarrow> (QuicDataReader \<Rightarrow> 'a option \<times> QuicDataReader) \<Rightarrow> 'a \<Rightarrow> ('a \<Rightarrow> 'b visiting) \<Rightarrow> 'b visiting" where
  "vreads_when c msg R d k = (if c then vreads msg R k else k d)"

definition vrejects :: "bool \<Rightarrow> string \<Rightarrow> 'b visiting \<Rightarrow> 'b visiting" where
  "vrejects c msg k ev r = (if c then (Inl msg, ev, r) else k ev r)"

definition vtells :: "visitor \<Rightarrow> FramerEvent \<Rightarrow> string \<Rightarrow> 'b visiting \<Rightarrow> 'b visiting" where
  "vtells visitor e msg k ev r =
     (if visitor (ev @ [e]) then k (ev @ [e]) r else (Inl msg, ev @ [e], r))"

definition vgives :: "'a \<Rightarrow> 'a visiting" where
  "vgives v ev r = (Inr v, ev, r)"

section \<open>Appending\<close>

definition kIetfAckTimestampShift :: nat where
  "kIetfAckTimestampShift = 3"

definition IETF_ACK :: u8 where "IETF_ACK = 0x02"
definition IETF_ACK_ECN :: u8 where "IETF_ACK_ECN = 0x03"

definition has_ecn :: "QuicAckFrame \<Rightarrow> bool" where
  "has_ecn f \<longleftrightarrow> ecn_counters_populated f \<and> (ect_0_count f \<noteq> 0 \<or> ect_1_count f \<noteq> 0 \<or> ecn_ce_count f \<noteq> 0)"

abbreviation w64 :: "nat \<Rightarrow> u64" where
  "w64 \<equiv> word_of_nat"

text \<open>The loop over the remaining intervals, from the highest down.\<close>

fun AppendAckBlocks :: "QuicPacketNumber \<Rightarrow> QuicPacketNumber QuicInterval list \<Rightarrow> writing" where
  "AppendAckBlocks ack_block_smallest [] = complete"
| "AppendAckBlocks ack_block_smallest (itr # rest) =
     writes ''No room for gap block in ack frame''
       (WriteVarInt62 (w64 (u64_sub (u64_sub ack_block_smallest (imax itr)) 1)))
     (writes ''No room for nth ack block in ack frame''
        (WriteVarInt62 (w64 (u64_sub (u64_sub (imax itr) (imin itr)) 1)))
     (AppendAckBlocks (imin itr) rest))"

definition encoded_ack_delay :: "QuicAckFrame \<Rightarrow> u64" where
  "encoded_ack_delay f =
     (if ack_delay_time f = kQuicInfiniteTimeUs then kVarInt62MaxValue
      else drop_bit kIetfAckTimestampShift (word_of_int (ack_delay_time f)))"

definition AppendIetfAckFrameAndTypeByte :: "QuicAckFrame \<Rightarrow> writing" where
  "AppendIetfAckFrameAndTypeByte f =
     writes ''No room for frame-type'' (WriteUInt8 (if has_ecn f then IETF_ACK_ECN else IETF_ACK))
     (writes ''No room for largest-acked in ack frame'' (WriteVarInt62 (w64 (LargestAcked f)))
     (writes ''No room for ack-delay in ack frame'' (WriteVarInt62 (encoded_ack_delay f))
     (writes_when (has_ecn f) ''No room for ect_0_count in ack frame'' (WriteVarInt62 (w64 (ect_0_count f)))
     (writes_when (has_ecn f) ''No room for ect_1_count in ack frame'' (WriteVarInt62 (w64 (ect_1_count f)))
     (writes_when (has_ecn f) ''No room for ecn_ce_count in ack frame'' (WriteVarInt62 (w64 (ecn_ce_count f)))
     (let largest = LargestAcked f; itrs = rev (ack_packets f)
      in if NumIntervals (ack_packets f) = 0
         then writes ''No room for ack block count in ack frame'' (WriteVarInt62 0)
              (writes ''No room for first ack block in ack frame'' (WriteVarInt62 0) complete)
         else let in_first = (pn_minus (imax (hd itrs)) 1 = largest);
                  smallest = (if in_first then imin (hd itrs) else largest);
                  rest = (if in_first then tl itrs else itrs)
              in writes ''No room for ack block count in ack frame''
                   (WriteVarInt62 (w64 (if in_first then NumIntervals (ack_packets f) - 1
                                        else NumIntervals (ack_packets f))))
                 (writes ''No room for first ack block in ack frame''
                    (WriteVarInt62 (w64 (u64_sub largest smallest)))
                 (AppendAckBlocks smallest rest))))))))"

section \<open>The size of the frame\<close>

fun ack_blocks_size :: "QuicPacketNumber \<Rightarrow> QuicPacketNumber QuicInterval list \<Rightarrow> nat" where
  "ack_blocks_size ack_block_smallest [] = 0"
| "ack_blocks_size ack_block_smallest (itr # rest) =
     GetVarInt62Len (w64 (u64_sub (u64_sub ack_block_smallest (imax itr)) 1))
     + GetVarInt62Len (w64 (u64_sub (u64_sub (imax itr) (imin itr)) 1))
     + ack_blocks_size (imin itr) rest"

definition kQuicFrameTypeSize :: nat where
  "kQuicFrameTypeSize = 1"

definition GetIetfAckFrameSize :: "QuicAckFrame \<Rightarrow> nat" where
  "GetIetfAckFrameSize f =
     (let size1 = kQuicFrameTypeSize + GetVarInt62Len (w64 (LargestAcked f))
            + GetVarInt62Len (drop_bit kIetfAckTimestampShift (word_of_int (ack_delay_time f)));
          size2 = (if has_ecn f
                   then size1 + GetVarInt62Len (w64 (ect_0_count f)) + GetVarInt62Len (w64 (ect_1_count f))
                        + GetVarInt62Len (w64 (ecn_ce_count f))
                   else size1);
          largest = LargestAcked f; itrs = rev (ack_packets f); count = NumIntervals (ack_packets f)
      in if count = 0 then size2 + 2
         else let in_first = (pn_minus (imax (hd itrs)) 1 = largest);
                  smallest = (if in_first then imin (hd itrs) else largest)
              in size2 + GetVarInt62Len (w64 (if in_first then count - 1 else count))
                 + GetVarInt62Len (w64 (u64_sub largest smallest))
                 + ack_blocks_size smallest (if in_first then tl itrs else itrs))"

section \<open>Processing\<close>

definition suppressed :: string where
  "suppressed = ''Visitor suppresses further processing of ACK frame.''"

text \<open>The loop over the blocks below the first one; it ends with \<open>OnAckFrameEnd\<close>, which sets no detail.\<close>

fun ProcessAckBlocks :: "visitor \<Rightarrow> u64 \<Rightarrow> nat \<Rightarrow> u64 \<Rightarrow> unit visiting" where
  "ProcessAckBlocks visitor first_sending 0 block_low =
     vtells visitor (OnAckFrameEnd (unat block_low)) '''' (vgives ())"
| "ProcessAckBlocks visitor first_sending (Suc ack_block_count) block_low =
     vreads ''Unable to read gap block value.'' ReadVarInt62 (\<lambda>gap_block_value.
     vrejects (gap_block_value + 2 > block_low)
       (''Underflow with gap block length '' @ decimal (unat (gap_block_value + 1))
        @ '' previous ack block start is '' @ decimal (unat block_low) @ ''.'')
     (let block_high = block_low - 1 - gap_block_value
      in vreads ''Unable to read ack block value.'' ReadVarInt62 (\<lambda>ack_block_value.
         vrejects (ack_block_value + first_sending > block_high - 1)
           (''Underflow with ack block length '' @ decimal (unat (ack_block_value + 1))
            @ '' latest ack block end is '' @ decimal (unat (block_high - 1)) @ ''.'')
         (let low = block_high - 1 - ack_block_value
          in vtells visitor (OnAckRange (unat low) (unat block_high)) suppressed
             (ProcessAckBlocks visitor first_sending ack_block_count low)))))"

definition decoded_ack_delay :: "u64 \<Rightarrow> int" where
  "decoded_ack_delay w =
     (if w = kVarInt62MaxValue then kQuicInfiniteTimeUs else sint (push_bit kIetfAckTimestampShift w))"

definition ProcessIetfAckFrame :: "visitor \<Rightarrow> u64 \<Rightarrow> u64 \<Rightarrow> unit visiting" where
  "ProcessIetfAckFrame visitor first_sending frame_type =
     vreads ''Unable to read largest acked.'' ReadVarInt62 (\<lambda>largest.
     vrejects (largest < first_sending) ''Largest acked is 0.''
     (vreads ''Unable to read ack delay time.'' ReadVarInt62 (\<lambda>delay.
     (let ecn = (frame_type = ucast IETF_ACK_ECN)
      in vreads_when ecn ''Unable to read ack ect_0_count.'' ReadVarInt62 0 (\<lambda>ect_0.
         vreads_when ecn ''Unable to read ack ect_1_count.'' ReadVarInt62 0 (\<lambda>ect_1.
         vreads_when ecn ''Unable to read ack ecn_ce_count.'' ReadVarInt62 0 (\<lambda>ecn_ce.
         vtells visitor (OnAckFrameStart (unat largest) (decoded_ack_delay delay)) suppressed
         (vreads ''Unable to read ack block count.'' ReadVarInt62 (\<lambda>ack_block_count.
         vreads ''Unable to read first ack block length.'' ReadVarInt62 (\<lambda>ack_block_value.
         (let block_high = largest + 1; block_low = largest - ack_block_value
          in vrejects (ack_block_value + first_sending > largest)
               (''Underflow with first ack block length '' @ decimal (unat (ack_block_value + 1))
                @ '' largest acked is '' @ decimal (unat largest) @ ''.'')
             (vtells visitor (OnAckRange (unat block_low) (unat block_high)) suppressed
             (ProcessAckBlocks visitor first_sending (unat ack_block_count) block_low)))))))))))))"

section \<open>Composition\<close>

text \<open>
  \<open>vparses visitor P e evs v\<close>: on the bytes \<open>e\<close> the method makes the calls \<open>evs\<close> and returns \<open>v\<close>, if the
  visitor asks for none of them to stop.
\<close>

definition vparses :: "visitor \<Rightarrow> 'a visiting \<Rightarrow> byte list \<Rightarrow> FramerEvent list \<Rightarrow> 'a \<Rightarrow> bool" where
  "vparses visitor P e evs v \<longleftrightarrow> (\<forall>es. visitor es) \<longrightarrow>
     (\<forall>ev r t. net_reader r \<longrightarrow> PeekRemainingPayload r = e @ t \<longrightarrow>
        P ev r = (Inr v, ev @ evs, advance (length e) r))"

named_theorems vcodec_intros \<open>the composition laws of \<open>vparses\<close>\<close>

lemma vparses_vgives [vcodec_intros]: "vparses visitor (vgives v) [] [] v"
  by (simp add: vparses_def vgives_def)

lemma vparses_vreads [vcodec_intros]:
  assumes "reads_as R e x" "vparses visitor (k x) es evs v"
  shows "vparses visitor (vreads msg R k) (e @ es) evs v"
  using assms unfolding vparses_def vreads_def by (simp add: reads_asD net_reader_step)

lemma vparses_vreads_when [vcodec_intros]:
  assumes "c \<Longrightarrow> reads_as R e x" "vparses visitor (k (if c then x else d)) es evs v"
  shows "vparses visitor (vreads_when c msg R d k) ((if c then e else []) @ es) evs v"
  using assms by (cases c) (simp_all add: vreads_when_def vparses_vreads)

lemma vparses_vrejects [vcodec_intros]:
  "\<not> c \<Longrightarrow> vparses visitor k es evs v \<Longrightarrow> vparses visitor (vrejects c msg k) es evs v"
  by (simp add: vparses_def vrejects_def)

lemma vparses_vtells [vcodec_intros]:
  "vparses visitor k es evs v \<Longrightarrow> vparses visitor (vtells visitor e msg k) es (e # evs) v"
  by (simp add: vparses_def vtells_def)

lemma vparses_end: "vparses visitor P (e @ []) evs v \<Longrightarrow> vparses visitor P e evs v"
  by simp

section \<open>The blocks below the first one\<close>

text \<open>Ranges in descending order with a gap below \<open>s\<close> and between any two.\<close>

fun ranges_below :: "nat \<Rightarrow> nat \<Rightarrow> nat QuicInterval list \<Rightarrow> bool" where
  "ranges_below low s [] \<longleftrightarrow> True"
| "ranges_below low s (i # is) \<longleftrightarrow> low \<le> imin i \<and> imin i < imax i \<and> imax i < s \<and> ranges_below low (imin i) is"

fun blocks_image :: "nat \<Rightarrow> nat QuicInterval list \<Rightarrow> byte list" where
  "blocks_image s [] = []"
| "blocks_image s (i # is) =
     vi (w64 (s - imax i - 1)) @ vi (w64 (imax i - imin i - 1)) @ blocks_image (imin i) is"

fun lowest :: "nat \<Rightarrow> nat QuicInterval list \<Rightarrow> nat" where
  "lowest s [] = s"
| "lowest s (i # is) = lowest (imin i) is"

definition range_events :: "nat QuicInterval list \<Rightarrow> FramerEvent list" where
  "range_events = map (\<lambda>i. OnAckRange (imin i) (imax i))"

lemma unat_w64: "n < 2 ^ 64 \<Longrightarrow> unat (w64 n) = n"
  by (simp add: unat_of_nat)

lemma fits62_w64: "n < 2 ^ 62 \<Longrightarrow> fits62 (w64 n)"
  by (simp add: fits62_def unat_of_nat)

lemma w64_diff: "b \<le> a \<Longrightarrow> w64 a - w64 b = w64 (a - b)"
  by (simp add: of_nat_diff)

lemma w64_less: "a < 2 ^ 64 \<Longrightarrow> b < 2 ^ 64 \<Longrightarrow> w64 a < w64 b \<longleftrightarrow> a < b"
  by (simp add: word_less_nat_alt unat_of_nat)

lemma AppendAckBlocks_emits:
  "ranges_below low s is \<Longrightarrow> s < 2 ^ 62 \<Longrightarrow> emits (AppendAckBlocks s is) (blocks_image s is)"
proof (induction "is" arbitrary: s)
  case Nil
  then show ?case by (simp add: emits_complete)
next
  case (Cons i "is")
  then have i: "imin i < imax i" "imax i < s" "ranges_below low (imin i) is" by auto
  have g: "u64_sub (u64_sub s (imax i)) 1 = s - imax i - 1"
    "u64_sub (u64_sub (imax i) (imin i)) 1 = imax i - imin i - 1"
    using i Cons.prems(2) by (simp_all add: u64_sub_small)
  have f: "fits62 (w64 (s - imax i - 1))" "fits62 (w64 (imax i - imin i - 1))"
    by (rule fits62_w64, use i Cons.prems(2) in simp)+
  have IH: "emits (AppendAckBlocks (imin i) is) (blocks_image (imin i) is)"
    using i Cons.prems(2) by (intro Cons.IH) auto
  show ?case
    unfolding AppendAckBlocks.simps blocks_image.simps g by (rule codec_intros f IH)+
qed

lemma blocks_size_image:
  "ranges_below low s is \<Longrightarrow> s < 2 ^ 62 \<Longrightarrow> ack_blocks_size s is = length (blocks_image s is)"
proof (induction "is" arbitrary: s)
  case (Cons i "is")
  then have i: "imin i < imax i" "imax i < s" "ranges_below low (imin i) is" by auto
  have g: "u64_sub (u64_sub s (imax i)) 1 = s - imax i - 1"
    "u64_sub (u64_sub (imax i) (imin i)) 1 = imax i - imin i - 1"
    using i Cons.prems(2) by (simp_all add: u64_sub_small)
  have f: "fits62 (w64 (s - imax i - 1))" "fits62 (w64 (imax i - imin i - 1))"
    by (rule fits62_w64, use i Cons.prems(2) in simp)+
  have "ack_blocks_size (imin i) is = length (blocks_image (imin i) is)"
    using i Cons.prems(2) by (intro Cons.IH) auto
  then show ?case
    unfolding ack_blocks_size.simps blocks_image.simps g
    using f by (simp add: length_varint62_bytes fits62_def)
qed simp

lemma ProcessAckBlocks_parses:
  assumes "ranges_below low s is" "s < 2 ^ 62"
  shows "vparses visitor (ProcessAckBlocks visitor (w64 low) (length is) (w64 s)) (blocks_image s is)
    (range_events is @ [OnAckFrameEnd (lowest s is)]) ()"
  using assms
proof (induction "is" arbitrary: s)
  case Nil
  have "s < 2 ^ 64" using Nil by simp
  then have "unat (w64 s) = s" by (rule unat_w64)
  then show ?case
    by (simp add: range_events_def) (rule vcodec_intros)+
next
  case (Cons i "is")
  then have i: "low \<le> imin i" "imin i < imax i" "imax i < s" "ranges_below low (imin i) is" and s: "s < 2 ^ 62"
    by auto
  let ?gap = "w64 (s - imax i - 1)" and ?val = "w64 (imax i - imin i - 1)"
  have f: "fits62 ?gap" "fits62 ?val" by (rule fits62_w64, use i s in simp)+
  have "?gap + 2 = w64 (s - imax i - 1 + 2)" by simp
  also have "\<not> \<dots> > w64 s" using i s by (subst w64_less) auto
  finally have c1: "\<not> ?gap + 2 > w64 s" .
  have hi: "w64 s - 1 - ?gap = w64 (imax i)"
  proof -
    have "w64 s - 1 - ?gap = w64 s - w64 1 - ?gap" by simp
    also have "\<dots> = w64 (s - 1 - (s - imax i - 1))" using i by (subst w64_diff, simp, subst w64_diff) auto
    finally show ?thesis using i by simp
  qed
  have hi1: "w64 (imax i) - 1 = w64 (imax i - 1)" using w64_diff [of 1 "imax i"] i by simp
  have "?val + w64 low = w64 (imax i - imin i - 1 + low)" by simp
  also have "\<not> \<dots> > w64 (imax i - 1)" using i s by (subst w64_less) auto
  finally have c2: "\<not> ?val + w64 low > w64 (imax i) - 1" unfolding hi1 .
  have lo: "w64 (imax i) - 1 - ?val = w64 (imin i)"
    unfolding hi1 using i by (subst w64_diff) auto
  have u: "unat (w64 (imin i)) = imin i" "unat (w64 (imax i)) = imax i" using i s by (auto intro!: unat_w64)
  have IH: "vparses visitor (ProcessAckBlocks visitor (w64 low) (length is) (w64 (imin i)))
      (blocks_image (imin i) is) (range_events is @ [OnAckFrameEnd (lowest (imin i) is)]) ()"
    using i s by (intro Cons.IH) auto
  have ev: "range_events (i # is) @ [OnAckFrameEnd (lowest s (i # is))] =
      OnAckRange (imin i) (imax i) # (range_events is @ [OnAckFrameEnd (lowest (imin i) is)])"
    by (simp add: range_events_def)
  show ?case
    unfolding list.size add_Suc_right add_0_right ProcessAckBlocks.simps blocks_image.simps Let_def ev
    by (rule vparses_vreads [OF vi_reads [OF f(1)]], rule vparses_vrejects [OF c1], unfold hi,
        rule vparses_vreads [OF vi_reads [OF f(2)]], rule vparses_vrejects [OF c2], unfold lo u)
      (rule vparses_vtells [OF IH])
qed


section \<open>The whole frame\<close>

text \<open>
  The ranges an ACK frame stands for, from the highest down: its intervals, or the largest acknowledged
  packet alone followed by its intervals where they end below it.
\<close>

definition ack_ranges :: "QuicAckFrame \<Rightarrow> nat QuicInterval list" where
  "ack_ranges f =
     (if ack_packets f \<noteq> [] \<and> imax (last (ack_packets f)) = largest_acked f + 1 then rev (ack_packets f)
      else QuicInterval (largest_acked f) (largest_acked f + 1) # rev (ack_packets f))"

definition Ack_valid :: "nat \<Rightarrow> QuicAckFrame \<Rightarrow> bool" where
  "Ack_valid first_sending f \<longleftrightarrow>
     (let top = hd (ack_ranges f)
      in largest_acked f < 2 ^ 62 - 1 \<and> imin top \<le> largest_acked f \<and> first_sending \<le> imin top
       \<and> ranges_below first_sending (imin top) (tl (ack_ranges f))
       \<and> 0 \<le> ack_delay_time f \<and> ack_delay_time f \<le> kQuicInfiniteTimeUs
       \<and> ect_0_count f < 2 ^ 62 \<and> ect_1_count f < 2 ^ 62 \<and> ecn_ce_count f < 2 ^ 62)"

definition Ack_image :: "QuicAckFrame \<Rightarrow> byte list" where
  "Ack_image f =
     (let rs = ack_ranges f
      in vi (w64 (largest_acked f)) @ vi (encoded_ack_delay f)
         @ (if has_ecn f then vi (w64 (ect_0_count f)) else [])
         @ (if has_ecn f then vi (w64 (ect_1_count f)) else [])
         @ (if has_ecn f then vi (w64 (ecn_ce_count f)) else [])
         @ vi (w64 (length rs - 1)) @ vi (w64 (largest_acked f - imin (hd rs)))
         @ blocks_image (imin (hd rs)) (tl rs))"

text \<open>The delay loses its three low bits.\<close>

definition Ack_events :: "QuicAckFrame \<Rightarrow> FramerEvent list" where
  "Ack_events f =
     OnAckFrameStart (largest_acked f)
       (if ack_delay_time f = kQuicInfiniteTimeUs then kQuicInfiniteTimeUs else ack_delay_time f div 8 * 8)
     # range_events (ack_ranges f) @ [OnAckFrameEnd (imin (last (ack_ranges f)))]"

lemma ranges_below_length: "ranges_below low s is \<Longrightarrow> length is \<le> s"
proof (induction "is" arbitrary: s)
  case (Cons i "is")
  then have "length is \<le> imin i" "imin i < s" by auto
  then show ?case by simp
qed simp

lemma ack_ranges_top: "ack_ranges f \<noteq> []" "imax (hd (ack_ranges f)) = largest_acked f + 1"
  by (auto simp: ack_ranges_def hd_rev)

lemma lowest_last: "lowest (imin i) is = imin (last (i # is))"
  by (induction "is" arbitrary: i) auto

lemma delay_bits:
  assumes "0 \<le> d" "d < kQuicInfiniteTimeUs"
  shows "unat (word_of_int d :: u64) = nat d" "nat d < 2 ^ 63"
proof -
  have "uint (word_of_int d :: u64) = d"
    using assms by (simp add: uint_word_of_int kQuicInfiniteTimeUs_def)
  then show "unat (word_of_int d :: u64) = nat d" by (simp only: unat_eq_nat_uint)
  show "nat d < 2 ^ 63" using assms by (simp add: kQuicInfiniteTimeUs_def)
qed

lemma encoded_ack_delay_fits:
  assumes "Ack_valid low f"
  shows "fits62 (encoded_ack_delay f)"
proof (cases "ack_delay_time f = kQuicInfiniteTimeUs")
  case True
  then show ?thesis by (simp add: encoded_ack_delay_def fits62_def kVarInt62MaxValue_def)
next
  case False
  then have "0 \<le> ack_delay_time f" "ack_delay_time f < kQuicInfiniteTimeUs"
    using assms by (auto simp: Ack_valid_def Let_def)
  note d = delay_bits [OF this]
  have "unat (drop_bit 3 (word_of_int (ack_delay_time f)) :: u64) < 2 ^ 62"
    using d unfolding unat_drop_bit_div by (simp add: less_mult_imp_div_less)
  with False show ?thesis by (simp add: encoded_ack_delay_def kIetfAckTimestampShift_def fits62_def)
qed

lemma decoded_encoded_ack_delay:
  assumes "Ack_valid low f"
  shows "decoded_ack_delay (encoded_ack_delay f) =
    (if ack_delay_time f = kQuicInfiniteTimeUs then kQuicInfiniteTimeUs else ack_delay_time f div 8 * 8)"
proof (cases "ack_delay_time f = kQuicInfiniteTimeUs")
  case True
  then show ?thesis by (simp add: encoded_ack_delay_def decoded_ack_delay_def)
next
  case False
  let ?d = "ack_delay_time f" and ?w = "word_of_int (ack_delay_time f) :: u64"
  have b: "0 \<le> ?d" "?d < kQuicInfiniteTimeUs"
    using assms False by (auto simp: Ack_valid_def Let_def)
  note d = delay_bits [OF b]
  have u: "unat (drop_bit 3 ?w) = nat ?d div 8" using d unat_drop_bit_div [of 3 ?w] by simp
  then have "unat (drop_bit 3 ?w) < 2 ^ 60" using d(2) by (simp add: less_mult_imp_div_less)
  then have "drop_bit 3 ?w \<noteq> kVarInt62MaxValue"
    by (auto simp: kVarInt62MaxValue_def)
  moreover have "sint (push_bit 3 (drop_bit 3 ?w)) = ?d div 8 * 8"
  proof -
    have n: "unat (push_bit 3 (drop_bit 3 ?w)) = nat ?d div 8 * 8"
      using u d(2) unat_push_bit_mult [of 3 "drop_bit 3 ?w"] by simp
    have lt: "nat ?d div 8 * 8 < 2 ^ 63" using d(2) div_times_less_eq_dividend [of "nat ?d" 8] by linarith
    have "uint (push_bit 3 (drop_bit 3 ?w)) < 2 ^ 63"
      using n lt by (simp only: uint_nat) simp
    then have "sint (push_bit 3 (drop_bit 3 ?w)) = uint (push_bit 3 (drop_bit 3 ?w))"
      by (simp only: sint_uint) (rule signed_take_bit_int_eq_self, auto intro: order_trans [of _ 0])
    then have "sint (push_bit 3 (drop_bit 3 ?w)) = int (unat (push_bit 3 (drop_bit 3 ?w)))"
      by (simp only: uint_nat)
    then show ?thesis using n b(1) by (simp add: nat_div_distrib)
  qed
  ultimately show ?thesis using False
    by (simp add: encoded_ack_delay_def decoded_ack_delay_def kIetfAckTimestampShift_def)
qed


lemma Ack_valid_bounds:
  assumes "Ack_valid low f"
  shows "fits62 (w64 (largest_acked f))" "fits62 (w64 (largest_acked f - imin (hd (ack_ranges f))))"
    "fits62 (w64 (length (ack_ranges f) - 1))" "fits62 (w64 (ect_0_count f))" "fits62 (w64 (ect_1_count f))"
    "fits62 (w64 (ecn_ce_count f))"
    and "emits (AppendAckBlocks (imin (hd (ack_ranges f))) (tl (ack_ranges f)))
      (blocks_image (imin (hd (ack_ranges f))) (tl (ack_ranges f)))"
proof -
  have b: "largest_acked f < 2 ^ 62 - 1" "imin (hd (ack_ranges f)) \<le> largest_acked f"
    "ranges_below low (imin (hd (ack_ranges f))) (tl (ack_ranges f))"
    "ect_0_count f < 2 ^ 62" "ect_1_count f < 2 ^ 62" "ecn_ce_count f < 2 ^ 62"
    using assms by (simp_all add: Ack_valid_def Let_def)
  show "fits62 (w64 (ect_0_count f))" "fits62 (w64 (ect_1_count f))" "fits62 (w64 (ecn_ce_count f))"
    using b by (auto intro: fits62_w64)
  show "fits62 (w64 (largest_acked f))" "fits62 (w64 (largest_acked f - imin (hd (ack_ranges f))))"
    by (rule fits62_w64, use b in simp)+
  have "length (tl (ack_ranges f)) \<le> imin (hd (ack_ranges f))"
    using ranges_below_length [OF b(3)] .
  then show "fits62 (w64 (length (ack_ranges f) - 1))"
    by (intro fits62_w64) (use b in simp)
  show "emits (AppendAckBlocks (imin (hd (ack_ranges f))) (tl (ack_ranges f)))
      (blocks_image (imin (hd (ack_ranges f))) (tl (ack_ranges f)))"
    using b by (intro AppendAckBlocks_emits) auto
qed

text \<open>The three cases of the source, by the ranges.\<close>

lemma ack_ranges_source:
  assumes "Ack_valid low f" "ack_packets f \<noteq> []"
  defines "itrs \<equiv> rev (ack_packets f)"
  defines "in_first \<equiv> (pn_minus (imax (hd itrs)) 1 = largest_acked f)"
  shows "(if in_first then imin (hd itrs) else largest_acked f) = imin (hd (ack_ranges f))"
    and "(if in_first then tl itrs else itrs) = tl (ack_ranges f)"
    and "(if in_first then NumIntervals (ack_packets f) - 1 else NumIntervals (ack_packets f)) = length (ack_ranges f) - 1"
proof -
  have hd: "hd itrs = last (ack_packets f)" using assms(2) by (simp add: itrs_def hd_rev)
  have b: "largest_acked f < 2 ^ 62 - 1" "ranges_below low (imin (hd (ack_ranges f))) (tl (ack_ranges f))"
    using assms(1) by (simp_all add: Ack_valid_def Let_def)
  have "in_first \<longleftrightarrow> imax (last (ack_packets f)) = largest_acked f + 1"
  proof (cases "imax (last (ack_packets f)) = largest_acked f + 1")
    case True
    then show ?thesis using b(1) by (simp add: in_first_def hd pn_minus_def u64_sub_small)
  next
    case False
    obtain i "is" where i: "itrs = i # is" using assms(2) by (cases itrs) (auto simp: itrs_def)
    then have "imin i < imax i \<and> imax i < largest_acked f"
      using b(2) False assms(2) by (simp add: ack_ranges_def itrs_def)
    moreover from this have "u64_sub (imax i) 1 = imax i - 1" using b(1) by (intro u64_sub_small) auto
    ultimately have "pn_minus (imax (hd itrs)) 1 \<noteq> largest_acked f" using i by (auto simp: pn_minus_def)
    then show ?thesis using False by (simp add: in_first_def)
  qed
  then show "(if in_first then imin (hd itrs) else largest_acked f) = imin (hd (ack_ranges f))"
    "(if in_first then tl itrs else itrs) = tl (ack_ranges f)"
    "(if in_first then NumIntervals (ack_packets f) - 1 else NumIntervals (ack_packets f)) = length (ack_ranges f) - 1"
    using assms(2) by (simp_all add: ack_ranges_def itrs_def NumIntervals_def)
qed

lemma AppendIetfAckFrame_emits:
  assumes "Ack_valid low f"
  shows "emits (AppendIetfAckFrameAndTypeByte f) ([if has_ecn f then IETF_ACK_ECN else IETF_ACK] @ Ack_image f)"
proof -
  note b = Ack_valid_bounds [OF assms] encoded_ack_delay_fits [OF assms]
  show ?thesis
  proof (cases "ack_packets f = []")
    case True
    have z: "NumIntervals (ack_packets f) = 0" using True by (simp add: NumIntervals_def)
    have img: "vi (w64 (length (ack_ranges f) - 1)) @ vi (w64 (largest_acked f - imin (hd (ack_ranges f))))
        @ blocks_image (imin (hd (ack_ranges f))) (tl (ack_ranges f)) = vi 0 @ vi 0 @ []"
      using True by (simp add: ack_ranges_def)
    have f0: "fits62 0" by (simp add: fits62_def)
    show ?thesis
      unfolding AppendIetfAckFrameAndTypeByte_def Ack_image_def Let_def LargestAcked_def if_P [OF z] img
      by (rule codec_intros b f0)+
  next
    case False
    then have z: "NumIntervals (ack_packets f) \<noteq> 0" by (simp add: NumIntervals_def)
    note s = ack_ranges_source [OF assms False]
    have d: "u64_sub (largest_acked f) (imin (hd (ack_ranges f))) = largest_acked f - imin (hd (ack_ranges f))"
      using assms by (intro u64_sub_small) (simp_all add: Ack_valid_def Let_def)
    show ?thesis
      unfolding AppendIetfAckFrameAndTypeByte_def Ack_image_def Let_def LargestAcked_def if_not_P [OF z] s d
      by (rule codec_intros b)+
  qed
qed

lemma ProcessIetfAckFrame_parses:
  assumes "Ack_valid low f"
  shows "vparses visitor (ProcessIetfAckFrame visitor (w64 low) (ucast (if has_ecn f then IETF_ACK_ECN else IETF_ACK)))
    (Ack_image f) (Ack_events f) ()"
proof -
  note b = Ack_valid_bounds [OF assms] encoded_ack_delay_fits [OF assms]
  let ?top = "hd (ack_ranges f)" and ?rest = "tl (ack_ranges f)" and ?L = "largest_acked f"
  have l: "?L < 2 ^ 62 - 1" "imin ?top \<le> ?L" "low \<le> imin ?top" "ranges_below low (imin ?top) ?rest"
    using assms by (simp_all add: Ack_valid_def Let_def)
  have t: "(ucast (if has_ecn f then IETF_ACK_ECN else IETF_ACK) :: u64) = ucast IETF_ACK_ECN \<longleftrightarrow> has_ecn f"
    by (simp add: IETF_ACK_ECN_def IETF_ACK_def)
  have c1: "\<not> w64 ?L < w64 low" using l by (subst w64_less) auto
  have lo: "w64 ?L - w64 (?L - imin ?top) = w64 (imin ?top)" using l(2) by (subst w64_diff) auto
  have "w64 (?L - imin ?top) + w64 low = w64 (?L - imin ?top + low)" by simp
  also have "\<not> \<dots> > w64 ?L" using l by (subst w64_less) auto
  finally have c2: "\<not> w64 (?L - imin ?top) + w64 low > w64 ?L" .
  have hi: "w64 ?L + 1 = w64 (imax ?top)" by (simp add: ack_ranges_top)
  have "imax ?top < 2 ^ 64" "imin ?top < 2 ^ 64" "?L < 2 ^ 64"
    using l(1,2) ack_ranges_top(2) [of f] by auto
  then have u: "unat (w64 (imax ?top)) = imax ?top" "unat (w64 (imin ?top)) = imin ?top" "unat (w64 ?L) = ?L"
    by (auto intro!: unat_w64)
  have n: "unat (w64 (length (ack_ranges f) - 1)) = length ?rest"
    using ranges_below_length [OF l(4)] l(1,2) by (subst unat_w64) auto
  have blocks: "vparses visitor (ProcessAckBlocks visitor (w64 low) (length ?rest) (w64 (imin ?top)))
      (blocks_image (imin ?top) ?rest) (range_events ?rest @ [OnAckFrameEnd (lowest (imin ?top) ?rest)]) ()"
    using l by (intro ProcessAckBlocks_parses) auto
  have rs: "ack_ranges f = ?top # ?rest" using ack_ranges_top(1) [of f] by simp
  have ev: "Ack_events f = OnAckFrameStart ?L (decoded_ack_delay (encoded_ack_delay f))
      # OnAckRange (imin ?top) (imax ?top) # range_events ?rest @ [OnAckFrameEnd (lowest (imin ?top) ?rest)]"
    unfolding Ack_events_def decoded_encoded_ack_delay [OF assms]
    by (subst (1) rs, subst (1) rs) (simp add: range_events_def lowest_last)
  show ?thesis
    unfolding ProcessIetfAckFrame_def Ack_image_def Let_def t ev
    apply (rule vparses_vreads [OF vi_reads [OF b(1)]], rule vparses_vrejects [OF c1])
    apply (rule vparses_vreads [OF vi_reads [OF b(8)]])
    apply (rule vparses_vreads_when [OF vi_reads [OF b(4)]], rule vparses_vreads_when [OF vi_reads [OF b(5)]],
        rule vparses_vreads_when [OF vi_reads [OF b(6)]])
    apply (unfold u, rule vparses_vtells)
    apply (rule vparses_vreads [OF vi_reads [OF b(3)]], rule vparses_vreads [OF vi_reads [OF b(2)]])
    apply (rule vparses_vrejects [OF c2], unfold lo hi u n)
    apply (rule vparses_vtells [OF blocks])
    done
qed

lemma GetIetfAckFrameSize_image:
  assumes "Ack_valid low f"
  shows "GetIetfAckFrameSize f = 1 + length (Ack_image f)"
proof -
  note b = Ack_valid_bounds [OF assms] encoded_ack_delay_fits [OF assms]
  have len: "fits62 x \<Longrightarrow> length (vi x) = GetVarInt62Len x" for x
    by (simp add: length_varint62_bytes fits62_def)
  have d: "GetVarInt62Len (drop_bit kIetfAckTimestampShift (word_of_int (ack_delay_time f))) = length (vi (encoded_ack_delay f))"
  proof (cases "ack_delay_time f = kQuicInfiniteTimeUs")
    case True
    have "unat (drop_bit 3 (word_of_int kQuicInfiniteTimeUs :: u64)) = 2 ^ 60 - 1"
      unfolding unat_drop_bit_div by (simp add: kQuicInfiniteTimeUs_def)
    with True show ?thesis
      using len [OF b(8)]
      by (simp add: encoded_ack_delay_def kIetfAckTimestampShift_def GetVarInt62Len_eq kVarInt62MaxValue_def)
  next
    case False
    then show ?thesis using len [OF b(8)] by (simp add: encoded_ack_delay_def)
  qed
  have bl: "ranges_below low (imin (hd (ack_ranges f))) (tl (ack_ranges f))" "imin (hd (ack_ranges f)) < 2 ^ 62"
    using assms by (auto simp: Ack_valid_def Let_def)
  show ?thesis
  proof (cases "ack_packets f = []")
    case True
    have "length (vi 0) = 1" using len [of 0] by (simp add: fits62_def GetVarInt62Len_eq)
    with True show ?thesis
      using b d by (simp add: GetIetfAckFrameSize_def Ack_image_def Let_def NumIntervals_def ack_ranges_def
          LargestAcked_def kQuicFrameTypeSize_def len)
  next
    case False
    then have z: "NumIntervals (ack_packets f) \<noteq> 0" by (simp add: NumIntervals_def)
    note s = ack_ranges_source [OF assms False]
    have e: "u64_sub (largest_acked f) (imin (hd (ack_ranges f))) = largest_acked f - imin (hd (ack_ranges f))"
      using assms by (intro u64_sub_small) (simp_all add: Ack_valid_def Let_def)
    show ?thesis
      unfolding GetIetfAckFrameSize_def Let_def LargestAcked_def if_not_P [OF z] s e d Ack_image_def
        length_append blocks_size_image [OF bl] kQuicFrameTypeSize_def
      using b by (cases "has_ecn f") (simp_all only: if_True if_False len length_append list.size add_0_right add.assoc)
  qed
qed


section \<open>Long delays\<close>

text \<open>
  C38: the shift that decodes the ACK delay wraps around at 64 bits: a delay of \<open>2 ^ 60\<close> or more units on
  the wire (other than the largest value, which stands for infinity) is not decoded to eight times
  its value; some are decoded to zero, others to negative delays.
\<close>

theorem ietf_ack_delay_overflows:
  assumes "2 ^ 60 \<le> unat w" "w \<noteq> kVarInt62MaxValue"
  shows "decoded_ack_delay w \<noteq> int (unat w) * 8
    \<and> decoded_ack_delay 0x2000000000000000 = 0 \<and> decoded_ack_delay 0x1000000000000000 < 0"
proof -
  have "sint (push_bit 3 w) < 2 ^ 63" using sint_less [of "push_bit 3 w"] by simp
  moreover have "(2 :: int) ^ 63 \<le> int (unat w) * 8"
    using assms(1) by (simp flip: of_nat_le_iff [where ?'a = int])
  ultimately have "decoded_ack_delay w \<noteq> int (unat w) * 8"
    using assms(2) by (simp add: decoded_ack_delay_def kIetfAckTimestampShift_def)
  moreover have "decoded_ack_delay 0x2000000000000000 = 0"
    by (simp add: decoded_ack_delay_def kIetfAckTimestampShift_def kVarInt62MaxValue_def push_bit_eq_mult)
  moreover have "decoded_ack_delay 0x1000000000000000 < 0"
    by (simp add: decoded_ack_delay_def kIetfAckTimestampShift_def kVarInt62MaxValue_def push_bit_eq_mult)
  ultimately show ?thesis by simp
qed

theorem ietf_ack_delay_overflows_witness:
  "decoded_ack_delay 0x3000000000000000 \<noteq> 8 * 0x3000000000000000"
  using ietf_ack_delay_overflows [of "0x3000000000000000"] by (simp add: kVarInt62MaxValue_def)

end
