(* ===== verification/Quic_Error_Codes.thy ===== *)
theory Quic_Error_Codes
  imports Main
begin

text \<open>
  The error codes (src/quic/core/quic_error_codes.h): of \<open>QuicErrorCode\<close> the enumerators that the modelled
  components raise, and those of \<open>QuicRstStreamErrorCode\<close> that the streams use.
\<close>

datatype QuicErrorCode =
  QUIC_NO_ERROR | QUIC_INTERNAL_ERROR | QUIC_EMPTY_STREAM_FRAME_NO_FIN | QUIC_TOO_MANY_STREAM_DATA_INTERVALS
| QUIC_STREAM_SEQUENCER_INVALID_STATE | QUIC_STREAM_LENGTH_OVERFLOW | QUIC_FLOW_CONTROL_RECEIVED_TOO_MUCH_DATA
| QUIC_FLOW_CONTROL_SENT_TOO_MUCH_DATA | QUIC_DATA_RECEIVED_ON_WRITE_UNIDIRECTIONAL_STREAM
| QUIC_TRY_TO_WRITE_DATA_ON_READ_UNIDIRECTIONAL_STREAM | QUIC_WINDOW_UPDATE_RECEIVED_ON_READ_UNIDIRECTIONAL_STREAM
| QUIC_INVALID_FRAME_DATA | QUIC_MISSING_PAYLOAD | QUIC_INVALID_STREAM_DATA
| QUIC_INVALID_RST_STREAM_DATA | QUIC_INVALID_CONNECTION_CLOSE_DATA | QUIC_INVALID_GOAWAY_DATA
| QUIC_INVALID_WINDOW_UPDATE_DATA | QUIC_INVALID_BLOCKED_DATA | QUIC_INVALID_STOP_WAITING_DATA
| QUIC_INVALID_ACK_DATA | QUIC_INVALID_MESSAGE_DATA | QUIC_INVALID_MAX_DATA_FRAME_DATA
| QUIC_INVALID_MAX_STREAM_DATA_FRAME_DATA | QUIC_MAX_STREAMS_DATA | QUIC_STREAMS_BLOCKED_DATA
| QUIC_INVALID_STREAM_BLOCKED_DATA | QUIC_INVALID_NEW_CONNECTION_ID_DATA
| QUIC_INVALID_STOP_SENDING_FRAME_DATA | QUIC_INVALID_PATH_CHALLENGE_DATA
| QUIC_INVALID_PATH_RESPONSE_DATA | IETF_QUIC_PROTOCOL_VIOLATION | QUIC_INVALID_NEW_TOKEN
| QUIC_INVALID_RETIRE_CONNECTION_ID_DATA

text \<open>
  The enumerators of \<open>QuicRstStreamErrorCode\<close> that the stream code names, as the numbers the frames carry.
\<close>

type_synonym QuicRstStreamErrorCode = nat

definition QUIC_STREAM_NO_ERROR :: QuicRstStreamErrorCode where
  "QUIC_STREAM_NO_ERROR = 0"

definition QUIC_ERROR_PROCESSING_STREAM :: QuicRstStreamErrorCode where
  "QUIC_ERROR_PROCESSING_STREAM = 1"

definition QUIC_MULTIPLE_TERMINATION_OFFSETS :: QuicRstStreamErrorCode where
  "QUIC_MULTIPLE_TERMINATION_OFFSETS = 2"

definition QUIC_STREAM_CONNECTION_ERROR :: QuicRstStreamErrorCode where
  "QUIC_STREAM_CONNECTION_ERROR = 4"

definition QUIC_RST_ACKNOWLEDGEMENT :: QuicRstStreamErrorCode where
  "QUIC_RST_ACKNOWLEDGEMENT = 7"

definition QUIC_STREAM_TTL_EXPIRED :: QuicRstStreamErrorCode where
  "QUIC_STREAM_TTL_EXPIRED = 16"

end
