(* ===== verification/Quic_Ietf_Framer.thy ===== *)
theory Quic_Ietf_Framer
  imports Quic_Google_Frames Quic_Ietf_Ack Quic_Error_Codes
begin

text \<open>
  The frame loops of \<open>QuicFramer\<close> for IETF QUIC (src/quic/core/quic_framer.cc): \<open>AppendIetfFrames\<close> writes
  the frames of a packet, \<open>ProcessIetfFrameData\<close> reads them and calls the visitor for each, and the size
  methods predict the lengths. The members of the framer that these methods read are the record
  \<open>QuicFramer\<close>; what they write (the error and its detail) is their result.
\<close>

unbundle bit_operations_syntax

section \<open>State and constants\<close>

record QuicFramer =
  transport_version :: QuicTransportVersion
  perspective :: Perspective
  first_sending_packet_number :: u64
  use_allocated_connection_ids :: bool
  data_producer :: "stream_producer option"
  crypto_data_producer :: "crypto_producer option"

definition IETF_PADDING :: u8 where "IETF_PADDING = 0x00"
definition IETF_PING :: u8 where "IETF_PING = 0x01"
definition IETF_RST_STREAM :: u8 where "IETF_RST_STREAM = 0x04"
definition IETF_STOP_SENDING :: u8 where "IETF_STOP_SENDING = 0x05"
definition IETF_CRYPTO :: u8 where "IETF_CRYPTO = 0x06"
definition IETF_NEW_TOKEN :: u8 where "IETF_NEW_TOKEN = 0x07"
definition IETF_MAX_DATA :: u8 where "IETF_MAX_DATA = 0x10"
definition IETF_MAX_STREAM_DATA :: u8 where "IETF_MAX_STREAM_DATA = 0x11"
definition IETF_MAX_STREAMS_BIDIRECTIONAL :: u8 where "IETF_MAX_STREAMS_BIDIRECTIONAL = 0x12"
definition IETF_BLOCKED :: u8 where "IETF_BLOCKED = 0x14"
definition IETF_STREAM_BLOCKED :: u8 where "IETF_STREAM_BLOCKED = 0x15"
definition IETF_STREAMS_BLOCKED_BIDIRECTIONAL :: u8 where "IETF_STREAMS_BLOCKED_BIDIRECTIONAL = 0x16"
definition IETF_NEW_CONNECTION_ID :: u8 where "IETF_NEW_CONNECTION_ID = 0x18"
definition IETF_RETIRE_CONNECTION_ID :: u8 where "IETF_RETIRE_CONNECTION_ID = 0x19"
definition IETF_PATH_CHALLENGE :: u8 where "IETF_PATH_CHALLENGE = 0x1a"
definition IETF_PATH_RESPONSE :: u8 where "IETF_PATH_RESPONSE = 0x1b"
definition IETF_CONNECTION_CLOSE :: u8 where "IETF_CONNECTION_CLOSE = 0x1c"
definition IETF_APPLICATION_CLOSE :: u8 where "IETF_APPLICATION_CLOSE = 0x1d"

definition IETF_STREAM_FRAME_TYPE_MASK :: u64 where
  "IETF_STREAM_FRAME_TYPE_MASK = 0xfffffffffffffff8"

definition IS_IETF_STREAM_FRAME :: "u64 \<Rightarrow> bool" where
  "IS_IETF_STREAM_FRAME t \<longleftrightarrow> t AND IETF_STREAM_FRAME_TYPE_MASK = ucast IETF_STREAM"

lemmas ietf_type_defs = IETF_PADDING_def IETF_PING_def IETF_RST_STREAM_def IETF_STOP_SENDING_def
  IETF_CRYPTO_def IETF_NEW_TOKEN_def IETF_MAX_DATA_def IETF_MAX_STREAM_DATA_def
  IETF_MAX_STREAMS_BIDIRECTIONAL_def IETF_BLOCKED_def IETF_STREAM_BLOCKED_def
  IETF_STREAMS_BLOCKED_BIDIRECTIONAL_def IETF_NEW_CONNECTION_ID_def IETF_RETIRE_CONNECTION_ID_def
  IETF_PATH_CHALLENGE_def IETF_PATH_RESPONSE_def IETF_CONNECTION_CLOSE_def IETF_APPLICATION_CLOSE_def
  IETF_MAX_STREAMS_UNIDIRECTIONAL_def IETF_STREAMS_BLOCKED_UNIDIRECTIONAL_def IETF_ACK_def IETF_ACK_ECN_def
  IETF_EXTENSION_MESSAGE_def IETF_EXTENSION_MESSAGE_NO_LENGTH_def IS_IETF_STREAM_FRAME_def
  IETF_STREAM_FRAME_TYPE_MASK_def IETF_STREAM_def

section \<open>Appending frames\<close>

definition AppendIetfTypeByte :: "QuicFramer \<Rightarrow> QuicFrame \<Rightarrow> bool \<Rightarrow> writing" where
  "AppendIetfTypeByte fr frame last_frame_in_packet =
     (let byte = (\<lambda>b. writes '''' (WriteUInt8 b) complete); v = transport_version fr
      in case frame of
        PADDING_FRAME _ \<Rightarrow> byte IETF_PADDING
      | RST_STREAM_FRAME _ \<Rightarrow> byte IETF_RST_STREAM
      | CONNECTION_CLOSE_FRAME f \<Rightarrow>
          (case cc_close_type f of
             IETF_QUIC_APPLICATION_CONNECTION_CLOSE \<Rightarrow> byte IETF_APPLICATION_CLOSE
           | IETF_QUIC_TRANSPORT_CONNECTION_CLOSE \<Rightarrow> byte IETF_CONNECTION_CLOSE
           | GOOGLE_QUIC_CONNECTION_CLOSE \<Rightarrow> refuses True ''Invalid QuicConnectionCloseFrame type.'' complete)
      | GOAWAY_FRAME _ \<Rightarrow> refuses True ''Attempt to create non-IETF QUIC GOAWAY frame in IETF QUIC.'' complete
      | WINDOW_UPDATE_FRAME f \<Rightarrow>
          byte (if wu_stream_id f = invalid_stream_id v then IETF_MAX_DATA else IETF_MAX_STREAM_DATA)
      | BLOCKED_FRAME f \<Rightarrow>
          byte (if bl_stream_id f = invalid_stream_id v then IETF_BLOCKED else IETF_STREAM_BLOCKED)
      | STOP_WAITING_FRAME _ \<Rightarrow>
          refuses True ''Attempt to append type byte of STOP WAITING frame in IETF QUIC.'' complete
      | PING_FRAME _ \<Rightarrow> byte IETF_PING
      | STREAM_FRAME f \<Rightarrow> byte (GetStreamFrameTypeByte v f last_frame_in_packet)
      | ACK_FRAME _ \<Rightarrow> complete
      | MTU_DISCOVERY_FRAME \<Rightarrow> byte IETF_PING
      | NEW_CONNECTION_ID_FRAME _ \<Rightarrow> byte IETF_NEW_CONNECTION_ID
      | RETIRE_CONNECTION_ID_FRAME _ \<Rightarrow> byte IETF_RETIRE_CONNECTION_ID
      | NEW_TOKEN_FRAME _ \<Rightarrow> byte IETF_NEW_TOKEN
      | MAX_STREAMS_FRAME f \<Rightarrow>
          byte (if ms_unidirectional f then ucast IETF_MAX_STREAMS_UNIDIRECTIONAL else IETF_MAX_STREAMS_BIDIRECTIONAL)
      | STREAMS_BLOCKED_FRAME f \<Rightarrow>
          byte (if sb_unidirectional f then ucast IETF_STREAMS_BLOCKED_UNIDIRECTIONAL
                else IETF_STREAMS_BLOCKED_BIDIRECTIONAL)
      | PATH_RESPONSE_FRAME _ \<Rightarrow> byte IETF_PATH_RESPONSE
      | PATH_CHALLENGE_FRAME _ \<Rightarrow> byte IETF_PATH_CHALLENGE
      | STOP_SENDING_FRAME _ \<Rightarrow> byte IETF_STOP_SENDING
      | MESSAGE_FRAME _ \<Rightarrow> complete
      | CRYPTO_FRAME _ \<Rightarrow> byte IETF_CRYPTO)"

definition AppendIetfFrame :: "QuicFramer \<Rightarrow> QuicFrame \<Rightarrow> bool \<Rightarrow> writing" where
  "AppendIetfFrame fr frame last_frame_in_packet =
     (let v = transport_version fr
      in case frame of
        PADDING_FRAME f \<Rightarrow> writes '''' (AppendPaddingFrame f) complete
      | STREAM_FRAME f \<Rightarrow> AppendStreamFrame v (data_producer fr) f last_frame_in_packet
      | ACK_FRAME f \<Rightarrow> AppendIetfAckFrameAndTypeByte f
      | STOP_WAITING_FRAME _ \<Rightarrow> refuses True ''Attempt to append STOP WAITING frame in IETF QUIC.'' complete
      | MTU_DISCOVERY_FRAME \<Rightarrow> complete
      | PING_FRAME _ \<Rightarrow> complete
      | RST_STREAM_FRAME f \<Rightarrow> AppendRstStreamFrame v f
      | CONNECTION_CLOSE_FRAME f \<Rightarrow> AppendIetfConnectionCloseFrame f
      | GOAWAY_FRAME _ \<Rightarrow> refuses True ''Attempt to append GOAWAY frame in IETF QUIC.'' complete
      | WINDOW_UPDATE_FRAME f \<Rightarrow>
          (if wu_stream_id f = invalid_stream_id v then AppendMaxDataFrame f else AppendMaxStreamDataFrame f)
      | BLOCKED_FRAME f \<Rightarrow> AppendBlockedFrame v f
      | MAX_STREAMS_FRAME f \<Rightarrow> AppendMaxStreamsFrame f
      | STREAMS_BLOCKED_FRAME f \<Rightarrow> AppendStreamsBlockedFrame f
      | NEW_CONNECTION_ID_FRAME f \<Rightarrow> AppendNewConnectionIdFrame f
      | RETIRE_CONNECTION_ID_FRAME f \<Rightarrow> AppendRetireConnectionIdFrame f
      | NEW_TOKEN_FRAME f \<Rightarrow> AppendNewTokenFrame f
      | STOP_SENDING_FRAME f \<Rightarrow> AppendStopSendingFrame f
      | PATH_CHALLENGE_FRAME f \<Rightarrow> AppendPathChallengeFrame f
      | PATH_RESPONSE_FRAME f \<Rightarrow> AppendPathResponseFrame f
      | MESSAGE_FRAME f \<Rightarrow> AppendMessageFrameAndTypeByte f last_frame_in_packet
      | CRYPTO_FRAME f \<Rightarrow> AppendCryptoFrame (crypto_data_producer fr) f)"

text \<open>One frame after the other; a failure ends the loop.\<close>

definition then_writes :: "writing \<Rightarrow> writing \<Rightarrow> writing" where
  "then_writes P Q w = (case P w of (Inl m, w') \<Rightarrow> (Inl m, w') | (Inr _, w') \<Rightarrow> Q w')"

fun AppendIetfFrames_loop :: "QuicFramer \<Rightarrow> QuicFrame list \<Rightarrow> writing" where
  "AppendIetfFrames_loop fr [] = complete"
| "AppendIetfFrames_loop fr (frame # frames) =
     then_writes (AppendIetfTypeByte fr frame (frames = []))
       (then_writes (AppendIetfFrame fr frame (frames = [])) (AppendIetfFrames_loop fr frames))"

text \<open>The length of the packet so far, or 0 where a frame fails.\<close>

definition AppendIetfFrames :: "QuicFramer \<Rightarrow> QuicFrame list \<Rightarrow> QuicDataWriter \<Rightarrow> nat \<times> QuicDataWriter" where
  "AppendIetfFrames fr frames w =
     (case AppendIetfFrames_loop fr frames w of
        (Inl m, w') \<Rightarrow> (0, w')
      | (Inr _, w') \<Rightarrow> (wr_length w', w'))"

section \<open>Processing frames\<close>

datatype frame_outcome = Continue | Stop | Raise QuicErrorCode string

text \<open>A frame that was read goes to the visitor, whose answer decides whether the loop goes on.\<close>

definition deliver ::
    "visitor \<Rightarrow> QuicErrorCode \<Rightarrow> 'a reading \<Rightarrow> ('a \<Rightarrow> QuicFrame) \<Rightarrow> FramerEvent list \<Rightarrow> QuicDataReader \<Rightarrow>
       frame_outcome \<times> FramerEvent list \<times> QuicDataReader" where
  "deliver visitor error P frame ev r =
     (case P r of
        (Inl msg, r') \<Rightarrow> (Raise error msg, ev, r')
      | (Inr f, r') \<Rightarrow> let ev' = ev @ [OnFrame (frame f)] in (if visitor ev' then Continue else Stop, ev', r'))"

definition visit_ack ::
    "visitor \<Rightarrow> u64 \<Rightarrow> u64 \<Rightarrow> FramerEvent list \<Rightarrow> QuicDataReader \<Rightarrow>
       frame_outcome \<times> FramerEvent list \<times> QuicDataReader" where
  "visit_ack visitor first_sending t ev r =
     (case ProcessIetfAckFrame visitor first_sending t ev r of
        (Inl msg, ev', r') \<Rightarrow> (Raise QUIC_INVALID_ACK_DATA msg, ev', r')
      | (Inr _, ev', r') \<Rightarrow> (Continue, ev', r'))"

definition ping_frame :: QuicPingFrame where
  "ping_frame = \<lparr>pg_control_frame_id = kInvalidControlFrameId\<rparr>"

definition ProcessIetfFrame ::
    "QuicFramer \<Rightarrow> visitor \<Rightarrow> u64 \<Rightarrow> FramerEvent list \<Rightarrow> QuicDataReader \<Rightarrow>
       frame_outcome \<times> FramerEvent list \<times> QuicDataReader" where
  "ProcessIetfFrame fr visitor t =
     (let v = transport_version fr; is = (\<lambda>b :: u8. t = ucast b)
      in if IS_IETF_STREAM_FRAME t
         then deliver visitor QUIC_INVALID_STREAM_DATA (ProcessIetfStreamFrame (ucast t)) STREAM_FRAME
         else if is IETF_PADDING
         then deliver visitor QUIC_INTERNAL_ERROR
                (\<lambda>r. case ProcessPaddingFrame r of (f, r') \<Rightarrow> (Inr f, r')) PADDING_FRAME
         else if is IETF_RST_STREAM
         then deliver visitor QUIC_INVALID_RST_STREAM_DATA ProcessIetfResetStreamFrame RST_STREAM_FRAME
         else if is IETF_APPLICATION_CLOSE \<or> is IETF_CONNECTION_CLOSE
         then deliver visitor QUIC_INVALID_CONNECTION_CLOSE_DATA
                (ProcessIetfConnectionCloseFrame
                   (if is IETF_CONNECTION_CLOSE then IETF_QUIC_TRANSPORT_CONNECTION_CLOSE
                    else IETF_QUIC_APPLICATION_CONNECTION_CLOSE)) CONNECTION_CLOSE_FRAME
         else if is IETF_MAX_DATA
         then deliver visitor QUIC_INVALID_MAX_DATA_FRAME_DATA (ProcessMaxDataFrame v) WINDOW_UPDATE_FRAME
         else if is IETF_MAX_STREAM_DATA
         then deliver visitor QUIC_INVALID_MAX_STREAM_DATA_FRAME_DATA ProcessMaxStreamDataFrame WINDOW_UPDATE_FRAME
         else if is IETF_MAX_STREAMS_BIDIRECTIONAL \<or> t = IETF_MAX_STREAMS_UNIDIRECTIONAL
         then deliver visitor QUIC_MAX_STREAMS_DATA (ProcessMaxStreamsFrame t) MAX_STREAMS_FRAME
         else if is IETF_PING
         then deliver visitor QUIC_INTERNAL_ERROR (gives ping_frame) PING_FRAME
         else if is IETF_BLOCKED
         then deliver visitor QUIC_INVALID_BLOCKED_DATA (ProcessIetfBlockedFrame v) BLOCKED_FRAME
         else if is IETF_STREAM_BLOCKED
         then deliver visitor QUIC_INVALID_STREAM_BLOCKED_DATA ProcessStreamBlockedFrame BLOCKED_FRAME
         else if t = IETF_STREAMS_BLOCKED_UNIDIRECTIONAL \<or> is IETF_STREAMS_BLOCKED_BIDIRECTIONAL
         then deliver visitor QUIC_STREAMS_BLOCKED_DATA (ProcessStreamsBlockedFrame (perspective fr) t)
                STREAMS_BLOCKED_FRAME
         else if is IETF_NEW_CONNECTION_ID
         then deliver visitor QUIC_INVALID_NEW_CONNECTION_ID_DATA
                (ProcessNewConnectionIdFrame (use_allocated_connection_ids fr) v) NEW_CONNECTION_ID_FRAME
         else if is IETF_RETIRE_CONNECTION_ID
         then deliver visitor QUIC_INVALID_RETIRE_CONNECTION_ID_DATA ProcessRetireConnectionIdFrame
                RETIRE_CONNECTION_ID_FRAME
         else if is IETF_NEW_TOKEN
         then deliver visitor QUIC_INVALID_NEW_TOKEN ProcessNewTokenFrame NEW_TOKEN_FRAME
         else if is IETF_STOP_SENDING
         then deliver visitor QUIC_INVALID_STOP_SENDING_FRAME_DATA ProcessStopSendingFrame STOP_SENDING_FRAME
         else if is IETF_ACK_ECN \<or> is IETF_ACK
         then visit_ack visitor (first_sending_packet_number fr) t
         else if is IETF_PATH_CHALLENGE
         then deliver visitor QUIC_INVALID_PATH_CHALLENGE_DATA ProcessPathChallengeFrame PATH_CHALLENGE_FRAME
         else if is IETF_PATH_RESPONSE
         then deliver visitor QUIC_INVALID_PATH_RESPONSE_DATA ProcessPathResponseFrame PATH_RESPONSE_FRAME
         else if is IETF_EXTENSION_MESSAGE_NO_LENGTH \<or> is IETF_EXTENSION_MESSAGE
         then deliver visitor QUIC_INVALID_MESSAGE_DATA
                (ProcessMessageFrame (is IETF_EXTENSION_MESSAGE_NO_LENGTH)) MESSAGE_FRAME
         else if is IETF_CRYPTO
         then deliver visitor QUIC_INVALID_FRAME_DATA ProcessCryptoFrame CRYPTO_FRAME
         else (\<lambda>ev r. (Raise QUIC_INVALID_FRAME_DATA ''Illegal frame type.'', ev, r)))"


section \<open>Progress\<close>

lemma shrinks_let [shrink_intros]: "shrinks (P v) \<Longrightarrow> shrinks (let x = v in P x)"
  by simp

lemma shrinks_at: "(\<And>r. shrinks (P r)) \<Longrightarrow> shrinks (\<lambda>r. P r r)"
  by (simp add: shrinks_def)

lemma shrinks_returns:
  "(\<And>r. BytesRemaining (snd (R r)) \<le> BytesRemaining r) \<Longrightarrow> shrinks (\<lambda>r. case R r of (x, r') \<Rightarrow> (f x, r'))"
  unfolding shrinks_def by (auto split: prod.splits) (metis snd_conv)

lemma skip_zeros_shrinks: "BytesRemaining (snd (skip_zeros r n)) \<le> BytesRemaining r"
proof (induction r n rule: skip_zeros.induct)
  case (1 r n)
  have "BytesRemaining (snd (ReadBytes 1 r)) \<le> BytesRemaining r"
    using shrinks_ReadBytes by (simp add: shrinks_def)
  then show ?case
    using 1 by (subst skip_zeros.simps) (auto intro: order_trans)
qed

lemma stream_shrinks: "shrinks (ProcessIetfStreamFrame t)"
  unfolding ProcessIetfStreamFrame_def ReadStreamData_def
  by (intro shrink_intros, rule shrinks_at, intro shrink_intros)

lemma message_shrinks: "shrinks (ProcessMessageFrame b)"
  unfolding ProcessMessageFrame_def
  by (intro shrink_intros, rule shrinks_returns, simp add: ReadRemainingPayload_def BytesRemaining_def)

lemma padding_shrinks: "shrinks (\<lambda>r. case ProcessPaddingFrame r of (f, r') \<Rightarrow> (Inr f, r'))"
  by (rule shrinks_returns) (simp add: ProcessPaddingFrame_def skip_zeros_shrinks split_def)

lemma frames_shrink:
  "shrinks ProcessIetfResetStreamFrame" "shrinks (ProcessIetfConnectionCloseFrame c)"
  "shrinks (ProcessMaxDataFrame v)" "shrinks ProcessMaxStreamDataFrame" "shrinks (ProcessMaxStreamsFrame t)"
  "shrinks (ProcessIetfBlockedFrame v)" "shrinks ProcessStreamBlockedFrame"
  "shrinks (ProcessStreamsBlockedFrame p t)" "shrinks (ProcessNewConnectionIdFrame b v)"
  "shrinks ProcessRetireConnectionIdFrame" "shrinks ProcessNewTokenFrame" "shrinks ProcessStopSendingFrame"
  "shrinks ProcessPathChallengeFrame" "shrinks ProcessPathResponseFrame" "shrinks ProcessCryptoFrame"
  unfolding ProcessIetfResetStreamFrame_def ProcessIetfConnectionCloseFrame_def ProcessMaxDataFrame_def
    ProcessMaxStreamDataFrame_def ProcessMaxStreamsFrame_def ProcessIetfBlockedFrame_def
    ProcessStreamBlockedFrame_def ProcessStreamsBlockedFrame_def ProcessNewConnectionIdFrame_def
    ProcessRetireConnectionIdFrame_def ProcessNewTokenFrame_def ProcessStopSendingFrame_def
    ProcessPathChallengeFrame_def ProcessPathResponseFrame_def ProcessCryptoFrame_def
  by (intro shrink_intros)+

lemmas frame_shrinks = stream_shrinks message_shrinks padding_shrinks frames_shrink shrinks_gives

definition vshrinks :: "(FramerEvent list \<Rightarrow> QuicDataReader \<Rightarrow> 'a \<times> FramerEvent list \<times> QuicDataReader) \<Rightarrow> bool" where
  "vshrinks P \<longleftrightarrow> (\<forall>ev r. BytesRemaining (snd (snd (P ev r))) \<le> BytesRemaining r)"

lemma vshrinks_vreads: "shrinks R \<Longrightarrow> (\<And>v. vshrinks (k v)) \<Longrightarrow> vshrinks (vreads msg R k)"
  unfolding shrinks_def vshrinks_def vreads_def by (auto split: prod.splits option.splits) (metis order_trans snd_conv)+

lemma vshrinks_vreads_when: "shrinks R \<Longrightarrow> (\<And>v. vshrinks (k v)) \<Longrightarrow> vshrinks (vreads_when c msg R d k)"
  by (simp add: vreads_when_def [abs_def] vshrinks_vreads)

lemma vshrinks_others:
  "vshrinks k \<Longrightarrow> vshrinks (vrejects c msg k)" "vshrinks k \<Longrightarrow> vshrinks (vtells visitor e msg k)"
  "vshrinks (vgives v)" "vshrinks (P v) \<Longrightarrow> vshrinks (let x = v in P x)"
  by (simp_all add: vshrinks_def vrejects_def vtells_def vgives_def)

lemmas vshrink_intros = vshrinks_vreads vshrinks_vreads_when vshrinks_others shrinks_ReadVarInt62

lemma ProcessAckBlocks_shrinks: "vshrinks (ProcessAckBlocks visitor first n low)"
proof (induction n arbitrary: low)
  case 0
  show ?case unfolding ProcessAckBlocks.simps by (intro vshrink_intros)
next
  case (Suc n)
  show ?case unfolding ProcessAckBlocks.simps Let_def by (intro vshrink_intros Suc)
qed

lemma ProcessIetfAckFrame_shrinks: "vshrinks (ProcessIetfAckFrame visitor first t)"
  unfolding ProcessIetfAckFrame_def by (intro vshrink_intros ProcessAckBlocks_shrinks)

lemma deliver_shrinks:
  assumes P: "shrinks P"
  shows "vshrinks (deliver visitor error P frame)"
proof -
  have "BytesRemaining (snd (snd (deliver visitor error P frame ev r))) \<le> BytesRemaining r" for ev r
    using P [unfolded shrinks_def, rule_format, of r]
    by (cases "P r"; cases "fst (P r)") (auto simp: deliver_def Let_def)
  then show ?thesis by (simp add: vshrinks_def)
qed

lemma vshrinks_if: "vshrinks P \<Longrightarrow> vshrinks Q \<Longrightarrow> vshrinks (if c then P else Q)"
  by simp

lemma visit_ack_shrinks: "vshrinks (visit_ack visitor first t)"
proof -
  have "BytesRemaining (snd (snd (visit_ack visitor first t ev r))) \<le> BytesRemaining r" for ev r
  proof -
    obtain res ev' r' where eq: "ProcessIetfAckFrame visitor first t ev r = (res, ev', r')"
      by (cases "ProcessIetfAckFrame visitor first t ev r") auto
    have "BytesRemaining r' \<le> BytesRemaining r"
      using ProcessIetfAckFrame_shrinks [of visitor first t] eq unfolding vshrinks_def by (metis snd_conv)
    with eq show ?thesis by (cases res) (simp_all add: visit_ack_def split: unit.split)
  qed
  then show ?thesis by (simp add: vshrinks_def)
qed

lemma illegal_shrinks: "vshrinks (\<lambda>ev r. (outcome, ev, r))"
  by (simp add: vshrinks_def)

lemma ProcessIetfFrame_shrinks: "vshrinks (ProcessIetfFrame fr visitor t)"
  unfolding ProcessIetfFrame_def Let_def
  by (rule vshrinks_if deliver_shrinks frame_shrinks visit_ack_shrinks illegal_shrinks)+

section \<open>The loop over the frames of a packet\<close>

function ProcessIetfFrames ::
    "QuicFramer \<Rightarrow> visitor \<Rightarrow> FramerEvent list \<Rightarrow> QuicDataReader \<Rightarrow>
       ((QuicErrorCode \<times> string) + unit) \<times> FramerEvent list \<times> QuicDataReader" where
  "ProcessIetfFrames fr visitor ev r =
     (if IsDoneReading r then (Inr (), ev, r)
      else case ReadVarInt62 r of
        (None, r1) \<Rightarrow> (Inl (QUIC_INVALID_FRAME_DATA, ''Unable to read frame type.''), ev, r1)
      | (Some frame_type, r1) \<Rightarrow>
          if BytesRemaining r - BytesRemaining r1 \<noteq> GetVarInt62Len frame_type
          then (Inl (IETF_QUIC_PROTOCOL_VIOLATION, ''Frame type not minimally encoded.''), ev, r1)
          else case ProcessIetfFrame fr visitor frame_type ev r1 of
            (Continue, ev', r2) \<Rightarrow> ProcessIetfFrames fr visitor ev' r2
          | (Stop, ev', r2) \<Rightarrow> (Inr (), ev', r2)
          | (Raise error detail, ev', r2) \<Rightarrow> (Inl (error, detail), ev', r2))"
  by auto
termination
proof (relation "measure (\<lambda>(fr, visitor, ev, r). BytesRemaining r)")
  fix fr visitor ev r read r1 t out y ev' r2
  assume "(read, r1) = ReadVarInt62 r" "read = Some t"
    and out: "(out, y) = ProcessIetfFrame fr visitor t ev r1" "(ev', r2) = y"
  then have "BytesRemaining r1 < BytesRemaining r"
    by (auto intro: ReadVarInt62_progress [of r t])
  moreover have "BytesRemaining r2 \<le> BytesRemaining r1"
    using ProcessIetfFrame_shrinks [of fr visitor t] out unfolding vshrinks_def by (metis snd_conv)
  ultimately show "((fr, visitor, ev', r2), fr, visitor, ev, r) \<in> measure (\<lambda>(fr, visitor, ev, r). BytesRemaining r)"
    by simp
qed simp

declare ProcessIetfFrames.simps [simp del]

definition ProcessIetfFrameData ::
    "QuicFramer \<Rightarrow> visitor \<Rightarrow> FramerEvent list \<Rightarrow> QuicDataReader \<Rightarrow>
       ((QuicErrorCode \<times> string) + unit) \<times> FramerEvent list \<times> QuicDataReader" where
  "ProcessIetfFrameData fr visitor ev r =
     (if IsDoneReading r then (Inl (QUIC_MISSING_PAYLOAD, ''Packet has no frames.''), ev, r)
      else ProcessIetfFrames fr visitor ev r)"

end
