(* ===== verification/Quic_Ietf_Roundtrip.thy ===== *)
theory Quic_Ietf_Roundtrip
  imports Quic_Ietf_Framer
begin

text \<open>
  What one framer writes the other reads: the image of every frame of IETF QUIC with its type byte, the calls
  of the visitor it gives rise to, and the theorem about the whole payload of a packet.
\<close>

section \<open>Frames on the wire\<close>

text \<open>
  The data of the stream and crypto frames, which a producer or the buffer of the frame provides, is given
  by the functions \<open>data\<close> and \<open>crypto_data\<close>. The flag tells the last frame of the packet.
\<close>

definition Frame_type :: "QuicTransportVersion \<Rightarrow> bool \<Rightarrow> QuicFrame \<Rightarrow> u8" where
  "Frame_type v lst frame =
     (case frame of
        PADDING_FRAME _ \<Rightarrow> IETF_PADDING
      | RST_STREAM_FRAME _ \<Rightarrow> IETF_RST_STREAM
      | CONNECTION_CLOSE_FRAME f \<Rightarrow>
          (if cc_close_type f = IETF_QUIC_TRANSPORT_CONNECTION_CLOSE then IETF_CONNECTION_CLOSE
           else IETF_APPLICATION_CLOSE)
      | WINDOW_UPDATE_FRAME f \<Rightarrow>
          (if wu_stream_id f = invalid_stream_id v then IETF_MAX_DATA else IETF_MAX_STREAM_DATA)
      | BLOCKED_FRAME f \<Rightarrow>
          (if bl_stream_id f = invalid_stream_id v then IETF_BLOCKED else IETF_STREAM_BLOCKED)
      | STREAM_FRAME f \<Rightarrow> GetIetfStreamFrameTypeByte f lst
      | ACK_FRAME f \<Rightarrow> (if has_ecn f then IETF_ACK_ECN else IETF_ACK)
      | NEW_CONNECTION_ID_FRAME _ \<Rightarrow> IETF_NEW_CONNECTION_ID
      | RETIRE_CONNECTION_ID_FRAME _ \<Rightarrow> IETF_RETIRE_CONNECTION_ID
      | NEW_TOKEN_FRAME _ \<Rightarrow> IETF_NEW_TOKEN
      | MAX_STREAMS_FRAME f \<Rightarrow>
          (if ms_unidirectional f then ucast IETF_MAX_STREAMS_UNIDIRECTIONAL else IETF_MAX_STREAMS_BIDIRECTIONAL)
      | STREAMS_BLOCKED_FRAME f \<Rightarrow>
          (if sb_unidirectional f then ucast IETF_STREAMS_BLOCKED_UNIDIRECTIONAL
           else IETF_STREAMS_BLOCKED_BIDIRECTIONAL)
      | PATH_RESPONSE_FRAME _ \<Rightarrow> IETF_PATH_RESPONSE
      | PATH_CHALLENGE_FRAME _ \<Rightarrow> IETF_PATH_CHALLENGE
      | STOP_SENDING_FRAME _ \<Rightarrow> IETF_STOP_SENDING
      | MESSAGE_FRAME _ \<Rightarrow> (if lst then IETF_EXTENSION_MESSAGE_NO_LENGTH else IETF_EXTENSION_MESSAGE)
      | CRYPTO_FRAME _ \<Rightarrow> IETF_CRYPTO
      | _ \<Rightarrow> IETF_PING)"

type_synonym stream_contents = "QuicStreamFrame \<Rightarrow> byte list"
type_synonym crypto_contents = "QuicCryptoFrame \<Rightarrow> byte list"

definition Frame_body ::
    "QuicTransportVersion \<Rightarrow> stream_contents \<Rightarrow> crypto_contents \<Rightarrow> bool \<Rightarrow> QuicFrame \<Rightarrow> byte list" where
  "Frame_body v data crypto_data lst frame =
     (case frame of
        PADDING_FRAME f \<Rightarrow> replicate (nat (num_padding_bytes f - 1)) 0
      | RST_STREAM_FRAME f \<Rightarrow> RstStream_image f
      | CONNECTION_CLOSE_FRAME f \<Rightarrow> ConnectionClose_image f
      | WINDOW_UPDATE_FRAME f \<Rightarrow>
          (if wu_stream_id f = invalid_stream_id v then MaxData_image f else MaxStreamData_image f)
      | BLOCKED_FRAME f \<Rightarrow>
          (if bl_stream_id f = invalid_stream_id v then Blocked_image f else StreamBlocked_image f)
      | STREAM_FRAME f \<Rightarrow> StreamFrame_image lst f (data f)
      | ACK_FRAME f \<Rightarrow> Ack_image f
      | NEW_CONNECTION_ID_FRAME f \<Rightarrow> NewConnectionId_image f
      | RETIRE_CONNECTION_ID_FRAME f \<Rightarrow> RetireConnectionId_image f
      | NEW_TOKEN_FRAME f \<Rightarrow> NewToken_image f
      | MAX_STREAMS_FRAME f \<Rightarrow> MaxStreams_image f
      | STREAMS_BLOCKED_FRAME f \<Rightarrow> StreamsBlocked_image f
      | PATH_RESPONSE_FRAME f \<Rightarrow> pf_data_buffer f
      | PATH_CHALLENGE_FRAME f \<Rightarrow> pf_data_buffer f
      | STOP_SENDING_FRAME f \<Rightarrow> StopSending_image f
      | MESSAGE_FRAME f \<Rightarrow> Message_image lst f
      | CRYPTO_FRAME f \<Rightarrow> vi (cf_offset f) @ vi (ucast (cf_data_length f)) @ crypto_data f
      | _ \<Rightarrow> [])"

text \<open>What the receiver sees; the fields that are not sent have their defaults.\<close>

definition Frame_received ::
    "QuicTransportVersion \<Rightarrow> stream_contents \<Rightarrow> crypto_contents \<Rightarrow> QuicFrame \<Rightarrow> QuicFrame" where
  "Frame_received v data crypto_data frame =
     (case frame of
        PADDING_FRAME f \<Rightarrow> PADDING_FRAME f
      | RST_STREAM_FRAME f \<Rightarrow> RST_STREAM_FRAME (RstStream_received f)
      | CONNECTION_CLOSE_FRAME f \<Rightarrow> CONNECTION_CLOSE_FRAME (ConnectionClose_received f)
      | WINDOW_UPDATE_FRAME f \<Rightarrow>
          WINDOW_UPDATE_FRAME
            (if wu_stream_id f = invalid_stream_id v then MaxData_received v f else MaxStreamData_received f)
      | BLOCKED_FRAME f \<Rightarrow>
          BLOCKED_FRAME
            (if bl_stream_id f = invalid_stream_id v then Blocked_received v f else StreamBlocked_received f)
      | STREAM_FRAME f \<Rightarrow> STREAM_FRAME (StreamFrame_received f (data f))
      | NEW_CONNECTION_ID_FRAME f \<Rightarrow> NEW_CONNECTION_ID_FRAME (NewConnectionId_received f)
      | RETIRE_CONNECTION_ID_FRAME f \<Rightarrow> RETIRE_CONNECTION_ID_FRAME (RetireConnectionId_received f)
      | NEW_TOKEN_FRAME f \<Rightarrow> NEW_TOKEN_FRAME (NewToken_received f)
      | MAX_STREAMS_FRAME f \<Rightarrow> MAX_STREAMS_FRAME (MaxStreams_received f)
      | STREAMS_BLOCKED_FRAME f \<Rightarrow> STREAMS_BLOCKED_FRAME (StreamsBlocked_received f)
      | PATH_RESPONSE_FRAME f \<Rightarrow> PATH_RESPONSE_FRAME (Path_received f)
      | PATH_CHALLENGE_FRAME f \<Rightarrow> PATH_CHALLENGE_FRAME (Path_received f)
      | STOP_SENDING_FRAME f \<Rightarrow> STOP_SENDING_FRAME (StopSending_received f)
      | MESSAGE_FRAME f \<Rightarrow> MESSAGE_FRAME (Message_received f)
      | CRYPTO_FRAME f \<Rightarrow>
          CRYPTO_FRAME \<lparr>cf_level = ENCRYPTION_INITIAL, cf_data_length = cf_data_length f,
                        cf_data_buffer = Some (crypto_data f), cf_offset = cf_offset f\<rparr>
      | _ \<Rightarrow> PING_FRAME ping_frame)"

definition Frame_events ::
    "QuicTransportVersion \<Rightarrow> stream_contents \<Rightarrow> crypto_contents \<Rightarrow> QuicFrame \<Rightarrow> FramerEvent list" where
  "Frame_events v data crypto_data frame =
     (case frame of
        ACK_FRAME f \<Rightarrow> Ack_events f
      | _ \<Rightarrow> [OnFrame (Frame_received v data crypto_data frame)])"

text \<open>
  The frames a sender may put into a packet: the values fit their encodings, the data sources deliver, and
  the limits the receiver checks hold.
\<close>

definition Frame_valid ::
    "QuicFramer \<Rightarrow> QuicFramer \<Rightarrow> stream_contents \<Rightarrow> crypto_contents \<Rightarrow> QuicFrame \<Rightarrow> bool" where
  "Frame_valid s r data crypto_data frame \<longleftrightarrow>
     (case frame of
        PADDING_FRAME f \<Rightarrow> 0 < num_padding_bytes f
      | RST_STREAM_FRAME f \<Rightarrow> fits62 (rst_byte_offset f)
      | CONNECTION_CLOSE_FRAME f \<Rightarrow>
          cc_close_type f \<noteq> GOOGLE_QUIC_CONNECTION_CLOSE
          \<and> (cc_close_type f = IETF_QUIC_TRANSPORT_CONNECTION_CLOSE \<longrightarrow> fits62 (cc_frame_type f))
      | GOAWAY_FRAME _ \<Rightarrow> False
      | WINDOW_UPDATE_FRAME f \<Rightarrow> fits62 (wu_byte_offset f)
      | BLOCKED_FRAME f \<Rightarrow> fits62 (bl_offset f)
      | STOP_WAITING_FRAME _ \<Rightarrow> False
      | STREAM_FRAME f \<Rightarrow>
          fits62 (sf_offset f) \<and> length (data f) = unat (sf_data_length f)
          \<and> (data f \<noteq> [] \<longrightarrow> writes_as (stream_source (data_producer s) f) (data f))
      | ACK_FRAME f \<Rightarrow> Ack_valid (unat (first_sending_packet_number r)) f
      | NEW_CONNECTION_ID_FRAME f \<Rightarrow> NewConnectionId_valid (transport_version s) f
      | RETIRE_CONNECTION_ID_FRAME f \<Rightarrow> fits62 (rc_sequence_number f)
      | NEW_TOKEN_FRAME f \<Rightarrow> length (nt_token f) \<le> kMaxNewTokenTokenLength
      | STREAMS_BLOCKED_FRAME f \<Rightarrow>
          unat (sb_stream_count f) \<le> GetMaxStreamCount (sb_unidirectional f) (InvertPerspective (perspective r))
      | PATH_RESPONSE_FRAME f \<Rightarrow> length (pf_data_buffer f) = kQuicPathFrameBufferSize
      | PATH_CHALLENGE_FRAME f \<Rightarrow> length (pf_data_buffer f) = kQuicPathFrameBufferSize
      | MESSAGE_FRAME f \<Rightarrow> Message_valid f
      | CRYPTO_FRAME f \<Rightarrow>
          fits62 (cf_offset f) \<and> length (crypto_data f) = unat (cf_data_length f)
          \<and> Crypto_source (crypto_data_producer s) f (crypto_data f)
      | _ \<Rightarrow> True)"

section \<open>Appending\<close>

lemma emits_then_writes:
  assumes "emits P e" "emits Q es"
  shows "emits (then_writes P Q) (e @ es)"
proof -
  have "if length (e @ es) \<le> remaining w then then_writes P Q w = (Inr (), store_next (e @ es) w)
      else \<exists>m. fst (then_writes P Q w) = Inl m" if w: "net_writer w" for w
  proof (cases "length e \<le> remaining w")
    case True
    then have P: "P w = (Inr (), store_next e w)" and w': "net_writer (store_next e w)"
      using assms(1) w by (auto simp: emits_def)
    have Q: "if length es \<le> remaining w - length e then Q (store_next e w) = (Inr (), store_next es (store_next e w))
        else \<exists>m. fst (Q (store_next e w)) = Inl m"
      using assms(2) w' True by (auto simp: emits_def)
    show ?thesis
    proof (cases "length es \<le> remaining w - length e")
      case fit: True
      then show ?thesis using P Q True w by (simp add: then_writes_def store_next_store_next net_writerD)
    next
      case False
      then have "\<not> length (e @ es) \<le> remaining w" using True by simp
      then show ?thesis using P Q False by (simp add: then_writes_def)
    qed
  next
    case False
    then obtain m where "fst (P w) = Inl m" using assms(1) w unfolding emits_def by metis
    with False show ?thesis by (cases "P w") (auto simp: then_writes_def)
  qed
  then show ?thesis by (simp add: emits_def)
qed

lemma padding_writes [codec_intros]:
  "0 < num_padding_bytes f \<Longrightarrow> writes_as (AppendPaddingFrame f) (replicate (nat (num_padding_bytes f - 1)) 0)"
  by (auto simp: writes_as_def AppendPaddingFrame_def WritePaddingBytes_def WriteRepeatedByte_def BeginWrite_def store_next_def remaining_def net_writer_def writer_ok_def)

lemma emits_byte: "emits (writes msg (WriteUInt8 b) complete) [b]"
  by (rule emits_end) (rule codec_intros)+

lemma emits_typed:
  "AppendIetfTypeByte s f lst = writes '''' (WriteUInt8 b) complete \<Longrightarrow> emits (AppendIetfFrame s f lst) e \<Longrightarrow>
    emits (then_writes (AppendIetfTypeByte s f lst) (AppendIetfFrame s f lst)) ([b] @ e)"
  by (simp only:) (rule emits_then_writes [OF emits_byte])

lemma emits_own_type:
  "AppendIetfTypeByte s f lst = complete \<Longrightarrow> emits (AppendIetfFrame s f lst) e \<Longrightarrow>
    emits (then_writes (AppendIetfTypeByte s f lst) (AppendIetfFrame s f lst)) e"
  using emits_then_writes [OF emits_complete] by simp

definition own_type :: "QuicFrame \<Rightarrow> bool" where
  "own_type frame = (case frame of ACK_FRAME _ \<Rightarrow> True | MESSAGE_FRAME _ \<Rightarrow> True | _ \<Rightarrow> False)"

lemma AppendIetfTypeByte_type:
  assumes "VersionHasIetfQuicFrames (transport_version s)" "Frame_valid s r data cdata frame" "\<not> own_type frame"
  shows "AppendIetfTypeByte s frame lst = writes '''' (WriteUInt8 (Frame_type (transport_version s) lst frame)) complete"
proof (cases frame)
  case (CONNECTION_CLOSE_FRAME f)
  with assms(2) show ?thesis
    by (cases "cc_close_type f") (simp_all add: AppendIetfTypeByte_def Frame_type_def Frame_valid_def)
qed (use assms in \<open>simp_all add: AppendIetfTypeByte_def Frame_type_def Frame_valid_def own_type_def GetStreamFrameTypeByte_def\<close>)

lemma AppendIetfFrame_body:
  assumes v: "VersionHasIetfQuicFrames (transport_version s)"
    and ok: "Frame_valid s r data cdata frame" "\<not> own_type frame"
  shows "emits (AppendIetfFrame s frame lst) (Frame_body (transport_version s) data cdata lst frame)"
proof (cases frame)
  case (PADDING_FRAME f)
  have "writes_as (AppendPaddingFrame f) (replicate (nat (num_padding_bytes f - 1)) 0)"
    using ok by (intro padding_writes) (simp add: PADDING_FRAME Frame_valid_def)
  from emits_writes [OF this emits_complete] show ?thesis
    by (simp add: AppendIetfFrame_def Frame_body_def PADDING_FRAME)
next
  case (STREAM_FRAME f)
  with ok have f: "fits62 (sf_offset f)" "length (data f) = unat (sf_data_length f)"
    "data f \<noteq> [] \<longrightarrow> writes_as (stream_source (data_producer s) f) (data f)" by (simp_all add: Frame_valid_def)
  show ?thesis
    using AppendIetfStreamFrame_emits [OF f(1,2) f(3) [rule_format]] v
    by (simp add: STREAM_FRAME AppendIetfFrame_def Frame_body_def AppendStreamFrame_def)
next
  case (CRYPTO_FRAME f)
  with ok have f: "fits62 (cf_offset f)" "Crypto_source (crypto_data_producer s) f (cdata f)"
    by (simp_all add: Frame_valid_def)
  show ?thesis
    using AppendCryptoFrame_emits [OF f] by (simp add: CRYPTO_FRAME AppendIetfFrame_def Frame_body_def)
next
  case (MAX_STREAMS_FRAME f)
  show ?thesis
    using max_streams.app_image [of f "if ms_unidirectional f then IETF_MAX_STREAMS_UNIDIRECTIONAL else 0"]
    by (simp add: MAX_STREAMS_FRAME AppendIetfFrame_def Frame_body_def IETF_MAX_STREAMS_UNIDIRECTIONAL_def)
next
  case (STREAMS_BLOCKED_FRAME f)
  show ?thesis
    using streams_blocked.app_image [of f "if sb_unidirectional f then IETF_STREAMS_BLOCKED_UNIDIRECTIONAL else 0" "perspective r"] ok
    by (simp add: STREAMS_BLOCKED_FRAME AppendIetfFrame_def Frame_body_def Frame_valid_def InvertPerspective_def
        IETF_STREAMS_BLOCKED_UNIDIRECTIONAL_def)
qed (use assms in \<open>simp_all add: AppendIetfFrame_def Frame_body_def Frame_valid_def own_type_def
    AppendRstStreamFrame_def AppendBlockedFrame_def emits_complete
    reset_stream.app_image connection_close.app_image max_data.app_image max_stream_data.app_image
    blocked.app_image stream_blocked.app_image max_streams.app_image streams_blocked.app_image
    new_connection_id.app_image retire_connection_id.app_image new_token.app_image stop_sending.app_image
    path_challenge.app_image path_response.app_image\<close>)

lemma AppendIetfFrame_emits:
  assumes v: "VersionHasIetfQuicFrames (transport_version s)"
    and ok: "Frame_valid s r data cdata frame"
  shows "emits (then_writes (AppendIetfTypeByte s frame lst) (AppendIetfFrame s frame lst))
    ([Frame_type (transport_version s) lst frame] @ Frame_body (transport_version s) data cdata lst frame)"
proof (cases "own_type frame")
  case False
  then show ?thesis
    by (intro emits_typed AppendIetfTypeByte_type [OF v ok] AppendIetfFrame_body [OF v ok])
next
  case True
  then have "AppendIetfTypeByte s frame lst = complete"
    by (cases frame) (simp_all add: own_type_def AppendIetfTypeByte_def)
  moreover have "emits (AppendIetfFrame s frame lst)
      ([Frame_type (transport_version s) lst frame] @ Frame_body (transport_version s) data cdata lst frame)"
  proof (cases frame)
    case (ACK_FRAME f)
    then have "Ack_valid (unat (first_sending_packet_number r)) f" using ok by (simp add: Frame_valid_def)
    from AppendIetfAckFrame_emits [OF this] show ?thesis
      by (simp add: ACK_FRAME AppendIetfFrame_def Frame_type_def Frame_body_def)
  next
    case (MESSAGE_FRAME f)
    show ?thesis
      using AppendMessageFrame_emits [of f lst]
      by (simp add: MESSAGE_FRAME AppendIetfFrame_def Frame_type_def Frame_body_def)
  qed (use True in \<open>simp_all add: own_type_def\<close>)
  ultimately show ?thesis by (rule emits_own_type)
qed

section \<open>Processing\<close>

definition delivers ::
    "QuicFramer \<Rightarrow> visitor \<Rightarrow> u8 \<Rightarrow> byte list \<Rightarrow> FramerEvent list \<Rightarrow> byte list \<Rightarrow> bool" where
  "delivers fr visitor b e evs rest \<longleftrightarrow> (\<forall>ev r. net_reader r \<longrightarrow> PeekRemainingPayload r = e @ rest \<longrightarrow>
     ProcessIetfFrame fr visitor (ucast b) ev r = (Continue, ev @ evs, advance (length e) r))"

lemma delivers_parses:
  assumes "ProcessIetfFrame fr visitor (ucast b) = deliver visitor error P frame"
    and "parses P e v" "\<forall>es. visitor es"
  shows "delivers fr visitor b e [OnFrame (frame v)] rest"
  using assms by (simp add: delivers_def deliver_def parsesD Let_def)

lemma delivers_parses_rest:
  assumes "ProcessIetfFrame fr visitor (ucast b) = deliver visitor error P frame"
    and "parses_rest P e v" "\<forall>es. visitor es"
  shows "delivers fr visitor b e [OnFrame (frame v)] []"
  using assms by (simp add: delivers_def deliver_def parses_restD Let_def)

lemma ProcessIetfFrame_types:
  "ProcessIetfFrame fr visitor (ucast IETF_PADDING) =
     deliver visitor QUIC_INTERNAL_ERROR (\<lambda>r. case ProcessPaddingFrame r of (f, r') \<Rightarrow> (Inr f, r')) PADDING_FRAME"
  "ProcessIetfFrame fr visitor (ucast IETF_RST_STREAM) =
     deliver visitor QUIC_INVALID_RST_STREAM_DATA ProcessIetfResetStreamFrame RST_STREAM_FRAME"
  "ProcessIetfFrame fr visitor (ucast IETF_CONNECTION_CLOSE) =
     deliver visitor QUIC_INVALID_CONNECTION_CLOSE_DATA
       (ProcessIetfConnectionCloseFrame IETF_QUIC_TRANSPORT_CONNECTION_CLOSE) CONNECTION_CLOSE_FRAME"
  "ProcessIetfFrame fr visitor (ucast IETF_APPLICATION_CLOSE) =
     deliver visitor QUIC_INVALID_CONNECTION_CLOSE_DATA
       (ProcessIetfConnectionCloseFrame IETF_QUIC_APPLICATION_CONNECTION_CLOSE) CONNECTION_CLOSE_FRAME"
  "ProcessIetfFrame fr visitor (ucast IETF_MAX_DATA) =
     deliver visitor QUIC_INVALID_MAX_DATA_FRAME_DATA (ProcessMaxDataFrame (transport_version fr)) WINDOW_UPDATE_FRAME"
  "ProcessIetfFrame fr visitor (ucast IETF_MAX_STREAM_DATA) =
     deliver visitor QUIC_INVALID_MAX_STREAM_DATA_FRAME_DATA ProcessMaxStreamDataFrame WINDOW_UPDATE_FRAME"
  "ProcessIetfFrame fr visitor (ucast IETF_PING) =
     deliver visitor QUIC_INTERNAL_ERROR (gives ping_frame) PING_FRAME"
  "ProcessIetfFrame fr visitor (ucast IETF_BLOCKED) =
     deliver visitor QUIC_INVALID_BLOCKED_DATA (ProcessIetfBlockedFrame (transport_version fr)) BLOCKED_FRAME"
  "ProcessIetfFrame fr visitor (ucast IETF_STREAM_BLOCKED) =
     deliver visitor QUIC_INVALID_STREAM_BLOCKED_DATA ProcessStreamBlockedFrame BLOCKED_FRAME"
  by (simp_all add: ProcessIetfFrame_def ietf_type_defs Let_def)

lemma ProcessIetfFrame_types_2:
  "ProcessIetfFrame fr visitor (ucast IETF_NEW_CONNECTION_ID) =
     deliver visitor QUIC_INVALID_NEW_CONNECTION_ID_DATA
       (ProcessNewConnectionIdFrame (use_allocated_connection_ids fr) (transport_version fr)) NEW_CONNECTION_ID_FRAME"
  "ProcessIetfFrame fr visitor (ucast IETF_RETIRE_CONNECTION_ID) =
     deliver visitor QUIC_INVALID_RETIRE_CONNECTION_ID_DATA ProcessRetireConnectionIdFrame RETIRE_CONNECTION_ID_FRAME"
  "ProcessIetfFrame fr visitor (ucast IETF_NEW_TOKEN) =
     deliver visitor QUIC_INVALID_NEW_TOKEN ProcessNewTokenFrame NEW_TOKEN_FRAME"
  "ProcessIetfFrame fr visitor (ucast IETF_STOP_SENDING) =
     deliver visitor QUIC_INVALID_STOP_SENDING_FRAME_DATA ProcessStopSendingFrame STOP_SENDING_FRAME"
  "ProcessIetfFrame fr visitor (ucast IETF_PATH_CHALLENGE) =
     deliver visitor QUIC_INVALID_PATH_CHALLENGE_DATA ProcessPathChallengeFrame PATH_CHALLENGE_FRAME"
  "ProcessIetfFrame fr visitor (ucast IETF_PATH_RESPONSE) =
     deliver visitor QUIC_INVALID_PATH_RESPONSE_DATA ProcessPathResponseFrame PATH_RESPONSE_FRAME"
  "ProcessIetfFrame fr visitor (ucast IETF_EXTENSION_MESSAGE_NO_LENGTH) =
     deliver visitor QUIC_INVALID_MESSAGE_DATA (ProcessMessageFrame True) MESSAGE_FRAME"
  "ProcessIetfFrame fr visitor (ucast IETF_EXTENSION_MESSAGE) =
     deliver visitor QUIC_INVALID_MESSAGE_DATA (ProcessMessageFrame False) MESSAGE_FRAME"
  "ProcessIetfFrame fr visitor (ucast IETF_CRYPTO) =
     deliver visitor QUIC_INVALID_FRAME_DATA ProcessCryptoFrame CRYPTO_FRAME"
  by (simp_all add: ProcessIetfFrame_def ietf_type_defs Let_def)

lemma ProcessIetfFrame_directed_types:
  "ProcessIetfFrame fr visitor (ucast (if u then ucast IETF_MAX_STREAMS_UNIDIRECTIONAL else IETF_MAX_STREAMS_BIDIRECTIONAL)) =
     deliver visitor QUIC_MAX_STREAMS_DATA
       (ProcessMaxStreamsFrame (if u then IETF_MAX_STREAMS_UNIDIRECTIONAL else 0x12)) MAX_STREAMS_FRAME"
  "ProcessIetfFrame fr visitor
       (ucast (if u then ucast IETF_STREAMS_BLOCKED_UNIDIRECTIONAL else IETF_STREAMS_BLOCKED_BIDIRECTIONAL)) =
     deliver visitor QUIC_STREAMS_BLOCKED_DATA
       (ProcessStreamsBlockedFrame (perspective fr) (if u then IETF_STREAMS_BLOCKED_UNIDIRECTIONAL else 0x16))
       STREAMS_BLOCKED_FRAME"
  "ProcessIetfFrame fr visitor (ucast (if u then IETF_ACK_ECN else IETF_ACK)) =
     visit_ack visitor (first_sending_packet_number fr) (ucast (if u then IETF_ACK_ECN else IETF_ACK))"
  by (cases u; simp add: ProcessIetfFrame_def ietf_type_defs Let_def)+

lemma ProcessIetfFrame_stream_type:
  "ProcessIetfFrame fr visitor (ucast (GetIetfStreamFrameTypeByte f lst)) =
     deliver visitor QUIC_INVALID_STREAM_DATA (ProcessIetfStreamFrame (GetIetfStreamFrameTypeByte f lst)) STREAM_FRAME"
proof -
  have "IS_IETF_STREAM_FRAME (ucast (GetIetfStreamFrameTypeByte f lst))"
    by (simp add: GetIetfStreamFrameTypeByte_def Let_def ietf_type_defs IETF_STREAM_FRAME_FIN_BIT_def
        IETF_STREAM_FRAME_LEN_BIT_def IETF_STREAM_FRAME_OFF_BIT_def)
  moreover have "ucast (ucast (b :: u8) :: u64) = b" for b by simp
  ultimately show ?thesis by (simp only: ProcessIetfFrame_def Let_def if_True)
qed

text \<open>
  Padding takes all the zeros that follow, and the last frame of a packet may leave its length out: the
  condition on what follows a frame.
\<close>

definition may_follow :: "bool \<Rightarrow> QuicFrame \<Rightarrow> byte list \<Rightarrow> bool" where
  "may_follow lst frame rest \<longleftrightarrow>
     (lst \<longrightarrow> rest = []) \<and> (case frame of PADDING_FRAME _ \<Rightarrow> rest = [] \<or> hd rest \<noteq> 0 | _ \<Rightarrow> True)"

lemma padding_delivers:
  assumes "0 < num_padding_bytes f" "rest = [] \<or> hd rest \<noteq> 0" "\<forall>es. visitor es"
  shows "delivers fr visitor IETF_PADDING (replicate (nat (num_padding_bytes f - 1)) 0)
    [OnFrame (PADDING_FRAME f)] rest"
  using assms
  by (auto simp: delivers_def ProcessIetfFrame_types deliver_def ProcessPaddingFrame_def Let_def skip_zeros_correct)

lemma ack_delivers:
  assumes "Ack_valid (unat (first_sending_packet_number fr)) f" "\<forall>es. visitor es"
  shows "delivers fr visitor (if has_ecn f then IETF_ACK_ECN else IETF_ACK) (Ack_image f) (Ack_events f) rest"
proof -
  have "w64 (unat (first_sending_packet_number fr)) = first_sending_packet_number fr" by simp
  then show ?thesis
    using ProcessIetfAckFrame_parses [OF assms(1), of visitor] assms(2)
    by (simp only: delivers_def ProcessIetfFrame_directed_types visit_ack_def vparses_def) simp
qed

lemmas proc_images = reset_stream.proc_image connection_close.proc_image max_data.proc_image
  max_stream_data.proc_image blocked.proc_image stream_blocked.proc_image new_connection_id.proc_image
  retire_connection_id.proc_image new_token.proc_image stop_sending.proc_image path_challenge.proc_image
  path_response.proc_image

lemma ProcessIetfFrame_delivers:
  assumes v: "transport_version r = transport_version s"
    and ok: "Frame_valid s r data cdata frame" "may_follow lst frame rest" and vis: "\<forall>es. visitor es"
  shows "delivers r visitor (Frame_type (transport_version s) lst frame)
    (Frame_body (transport_version s) data cdata lst frame) (Frame_events (transport_version s) data cdata frame) rest"
proof (cases frame)
  case (PADDING_FRAME f)
  then show ?thesis
    using padding_delivers [of f rest visitor r] ok vis
    by (simp add: Frame_type_def Frame_body_def Frame_events_def Frame_received_def Frame_valid_def may_follow_def)
next
  case (STREAM_FRAME f)
  with ok have f: "fits62 (sf_offset f)" "length (data f) = unat (sf_data_length f)" "lst \<longrightarrow> rest = []"
    by (simp_all add: Frame_valid_def may_follow_def)
  have "delivers r visitor (GetIetfStreamFrameTypeByte f lst) (StreamFrame_image lst f (data f))
      [OnFrame (STREAM_FRAME (StreamFrame_received f (data f)))] rest"
  proof (cases lst)
    case True
    with f(3) show ?thesis
      using delivers_parses_rest [OF ProcessIetfFrame_stream_type ProcessIetfStreamFrame_parses_rest [OF f(1,2)] vis] by simp
  next
    case False
    then show ?thesis
      using delivers_parses [OF ProcessIetfFrame_stream_type ProcessIetfStreamFrame_parses [OF f(1,2)] vis] by simp
  qed
  then show ?thesis by (simp add: STREAM_FRAME Frame_type_def Frame_body_def Frame_events_def Frame_received_def)
next
  case (MESSAGE_FRAME f)
  with ok have f: "Message_valid f" "lst \<longrightarrow> rest = []" by (simp_all add: Frame_valid_def may_follow_def)
  show ?thesis
    using delivers_parses_rest [OF ProcessIetfFrame_types_2(7) ProcessMessageFrame_parses_rest [OF f(1)] vis]
      delivers_parses [OF ProcessIetfFrame_types_2(8) ProcessMessageFrame_parses [OF f(1)] vis] f(2)
    by (cases lst) (simp_all add: MESSAGE_FRAME Frame_type_def Frame_body_def Frame_events_def Frame_received_def)
next
  case (CRYPTO_FRAME f)
  with ok have f: "fits62 (cf_offset f)" "length (cdata f) = unat (cf_data_length f)" by (simp_all add: Frame_valid_def)
  show ?thesis
    using delivers_parses [OF ProcessIetfFrame_types_2(9) ProcessCryptoFrame_parses [OF f] vis]
    by (simp add: CRYPTO_FRAME Frame_type_def Frame_body_def Frame_events_def Frame_received_def)
next
  case (ACK_FRAME f)
  then show ?thesis
    using ack_delivers [OF _ vis] ok
    by (simp add: Frame_type_def Frame_body_def Frame_events_def Frame_valid_def)
next
  case (MAX_STREAMS_FRAME f)
  show ?thesis
    using delivers_parses [OF ProcessIetfFrame_directed_types(1) max_streams.proc_image vis,
        of f "ms_unidirectional f" r rest]
    by (simp add: MAX_STREAMS_FRAME Frame_type_def Frame_body_def Frame_events_def Frame_received_def
        IETF_MAX_STREAMS_UNIDIRECTIONAL_def)
next
  case (STREAMS_BLOCKED_FRAME f)
  show ?thesis
    using delivers_parses [OF ProcessIetfFrame_directed_types(2) streams_blocked.proc_image vis,
        of f "sb_unidirectional f" r rest] ok
    by (simp add: STREAMS_BLOCKED_FRAME Frame_type_def Frame_body_def Frame_events_def Frame_received_def
        Frame_valid_def InvertPerspective_def IETF_STREAMS_BLOCKED_UNIDIRECTIONAL_def)
next
  case (CONNECTION_CLOSE_FRAME f)
  with ok show ?thesis
    by (cases "cc_close_type f") (simp_all add: Frame_type_def Frame_body_def Frame_events_def Frame_received_def
        Frame_valid_def delivers_parses [OF _ _ vis] ProcessIetfFrame_types connection_close.proc_image)
qed (use ok v in \<open>simp_all add: Frame_type_def Frame_body_def Frame_events_def Frame_received_def Frame_valid_def
    delivers_parses [OF _ _ vis] ProcessIetfFrame_types ProcessIetfFrame_types_2 proc_images parses_gives\<close>)

section \<open>The payload of a packet\<close>

fun Payload_image ::
    "QuicTransportVersion \<Rightarrow> stream_contents \<Rightarrow> crypto_contents \<Rightarrow> QuicFrame list \<Rightarrow> byte list" where
  "Payload_image v data cdata [] = []"
| "Payload_image v data cdata (frame # frames) =
     [Frame_type v (frames = []) frame] @ Frame_body v data cdata (frames = []) frame @ Payload_image v data cdata frames"

fun is_padding :: "QuicFrame \<Rightarrow> bool" where
  "is_padding (PADDING_FRAME _) = True"
| "is_padding _ = False"

text \<open>Two padding frames in a row would be read as one.\<close>

fun Payload_valid ::
    "QuicFramer \<Rightarrow> QuicFramer \<Rightarrow> stream_contents \<Rightarrow> crypto_contents \<Rightarrow> QuicFrame list \<Rightarrow> bool" where
  "Payload_valid s r data cdata [] \<longleftrightarrow> True"
| "Payload_valid s r data cdata (frame # frames) \<longleftrightarrow>
     Frame_valid s r data cdata frame
   \<and> (is_padding frame \<longrightarrow> frames = [] \<or> \<not> is_padding (hd frames))
   \<and> Payload_valid s r data cdata frames"

definition Payload_events ::
    "QuicTransportVersion \<Rightarrow> stream_contents \<Rightarrow> crypto_contents \<Rightarrow> QuicFrame list \<Rightarrow> FramerEvent list" where
  "Payload_events v data cdata frames = concat (map (Frame_events v data cdata) frames)"

lemma AppendIetfFrames_loop_emits:
  assumes "VersionHasIetfQuicFrames (transport_version s)" "Payload_valid s r data cdata frames"
  shows "emits (AppendIetfFrames_loop s frames) (Payload_image (transport_version s) data cdata frames)"
  using assms(2)
proof (induction frames)
  case (Cons frame frames)
  have assoc: "AppendIetfFrames_loop s (frame # frames) =
      then_writes (then_writes (AppendIetfTypeByte s frame (frames = [])) (AppendIetfFrame s frame (frames = [])))
        (AppendIetfFrames_loop s frames)"
    by (rule ext) (simp add: then_writes_def split: prod.splits sum.splits)
  have "emits (then_writes (AppendIetfTypeByte s frame (frames = [])) (AppendIetfFrame s frame (frames = [])))
      ([Frame_type (transport_version s) (frames = []) frame]
       @ Frame_body (transport_version s) data cdata (frames = []) frame)"
    using Cons.prems by (intro AppendIetfFrame_emits [OF assms(1)]) auto
  from emits_then_writes [OF this Cons.IH] show ?case using Cons.prems unfolding assoc by simp
qed (simp add: emits_complete)

lemma type_byte_small: "unat (Frame_type v lst frame) < 64"
  by (cases frame) (auto simp: Frame_type_def ietf_type_defs GetIetfStreamFrameTypeByte_def Let_def
      IETF_STREAM_FRAME_FIN_BIT_def IETF_STREAM_FRAME_LEN_BIT_def IETF_STREAM_FRAME_OFF_BIT_def)

lemma type_byte_padding: "Frame_type v lst frame = 0 \<longleftrightarrow> is_padding frame"
  by (cases frame) (auto simp: Frame_type_def ietf_type_defs GetIetfStreamFrameTypeByte_def Let_def
      IETF_STREAM_FRAME_FIN_BIT_def IETF_STREAM_FRAME_LEN_BIT_def IETF_STREAM_FRAME_OFF_BIT_def)

lemma vi_one_byte:
  assumes "unat (b :: u8) < 64"
  shows "vi (ucast b) = [b]" "GetVarInt62Len (ucast b) = 1" "fits62 (ucast b)"
proof -
  have u: "unat (ucast b :: u64) = unat b" using unat_less_power [of b] by (simp add: unat_ucast_mod)
  show "GetVarInt62Len (ucast b) = 1" "fits62 (ucast b)"
    using assms by (simp_all add: GetVarInt62Len_eq u fits62_def)
  have "bit (63 :: u64) n \<longleftrightarrow> n < 6" for n
  proof -
    have "(63 :: u64) = mask 6" by (simp add: mask_eq_exp_minus_1)
    then show ?thesis by (simp only: bit_mask_iff) auto
  qed
  then have "ucast (ucast b AND 63 :: u64) = b"
    using small_word_bits [of b 6] assms by (intro bit_word_eqI) (auto simp: bit_simps)
  then show "vi (ucast b) = [b]" using assms by (simp add: varint62_bytes_def u)
qed

lemma ProcessIetfFrames_processes:
  assumes "transport_version r = transport_version s" "Payload_valid s r data cdata frames" "\<forall>es. visitor es"
    and "net_reader rd" "PeekRemainingPayload rd = Payload_image (transport_version s) data cdata frames"
  shows "ProcessIetfFrames r visitor ev rd =
    (Inr (), ev @ Payload_events (transport_version s) data cdata frames,
     advance (length (Payload_image (transport_version s) data cdata frames)) rd)"
  using assms(2,4,5)
proof (induction frames arbitrary: ev rd)
  case Nil
  then show ?case
    by (simp add: ProcessIetfFrames.simps [of r visitor ev rd] IsDoneReading_iff Payload_events_def advance_def)
next
  case (Cons frame frames)
  let ?v = "transport_version s" and ?lst = "frames = []"
  let ?b = "Frame_type ?v ?lst frame" and ?e = "Frame_body ?v data cdata ?lst frame"
    and ?rest = "Payload_image ?v data cdata frames"
  note one = vi_one_byte [OF type_byte_small [of ?v ?lst frame]]
  have p: "PeekRemainingPayload rd = [?b] @ ?e @ ?rest" using Cons.prems(3) by simp
  have rd: "ReadVarInt62 rd = (Some (ucast ?b), advance (Suc 0) rd)"
    using reads_asD [OF vi_reads [OF one(3)] Cons.prems(2)] p unfolding one(1) by simp
  have len: "BytesRemaining rd - BytesRemaining (advance (Suc 0) rd) = Suc 0"
    using p length_PeekRemainingPayload [of rd] Cons.prems(2) by (auto simp: BytesRemaining_def advance_def net_reader_def)
  have nd: "\<not> IsDoneReading rd" using p Cons.prems(2) by (simp add: IsDoneReading_iff)
  have r1: "net_reader (advance (Suc 0) rd)" "PeekRemainingPayload (advance (Suc 0) rd) = ?e @ ?rest"
    using net_reader_step [of rd "[?b]" "?e @ ?rest"] Cons.prems(2) p by simp_all
  have "may_follow ?lst frame ?rest"
    using Cons.prems(1) type_byte_padding
    by (cases frames) (auto simp: may_follow_def split: QuicFrame.splits)
  then have "delivers r visitor ?b ?e (Frame_events ?v data cdata frame) ?rest"
    using Cons.prems(1) by (intro ProcessIetfFrame_delivers assms) auto
  then have step: "ProcessIetfFrame r visitor (ucast ?b) ev (advance (Suc 0) rd) =
      (Continue, ev @ Frame_events ?v data cdata frame, advance (length ?e) (advance (Suc 0) rd))"
    using r1 by (simp add: delivers_def)
  have r2: "net_reader (advance (length ?e) (advance (Suc 0) rd))"
    "PeekRemainingPayload (advance (length ?e) (advance (Suc 0) rd)) = ?rest"
    using net_reader_step(1) [OF r1] net_reader_step(2) [OF r1(2)] by simp_all
  have "ProcessIetfFrames r visitor ev rd =
      ProcessIetfFrames r visitor (ev @ Frame_events ?v data cdata frame) (advance (length ?e) (advance (Suc 0) rd))"
    using nd len by (subst ProcessIetfFrames.simps) (simp del: One_nat_def add: rd one(2) step)
  then show ?case
    using Cons.IH [OF _ r2] Cons.prems(1) by (simp add: Payload_events_def advance_def)
qed

section \<open>Properties\<close>

text \<open>
  C26: a packet payload is either written in full or refused: for valid frames \<open>AppendIetfFrames\<close> returns a
  positive length exactly when the images of the frames fit the room of the writer, and then the bytes it
  has appended are these images, in order, with the type bytes.
\<close>

theorem ietf_payload_written:
  assumes "VersionHasIetfQuicFrames (transport_version s)" "Payload_valid s r data cdata frames" "frames \<noteq> []"
    and "net_writer w"
  shows "(0 < fst (AppendIetfFrames s frames w) \<longleftrightarrow>
      length (Payload_image (transport_version s) data cdata frames) \<le> remaining w)
    \<and> (0 < fst (AppendIetfFrames s frames w) \<longrightarrow>
       written (snd (AppendIetfFrames s frames w)) = written w @ Payload_image (transport_version s) data cdata frames
       \<and> fst (AppendIetfFrames s frames w) = wr_length (snd (AppendIetfFrames s frames w)))"
proof -
  let ?e = "Payload_image (transport_version s) data cdata frames"
  have e: "if length ?e \<le> remaining w then AppendIetfFrames_loop s frames w = (Inr (), store_next ?e w)
      else \<exists>m. fst (AppendIetfFrames_loop s frames w) = Inl m"
    using AppendIetfFrames_loop_emits [OF assms(1,2)] assms(4) unfolding emits_def by blast
  have pos: "0 < length ?e" using assms(3) by (cases frames) auto
  show ?thesis
  proof (cases "length ?e \<le> remaining w")
    case True
    then have "AppendIetfFrames s frames w = (wr_length w + length ?e, store_next ?e w)"
      using e by (simp add: AppendIetfFrames_def) (simp add: store_next_def)
    then show ?thesis
      using True pos written_store_next [OF net_writerD(1) [OF assms(4)] True] by (simp add: store_next_def)
  next
    case False
    then obtain m where "fst (AppendIetfFrames_loop s frames w) = Inl m" using e by auto
    then have "fst (AppendIetfFrames s frames w) = 0"
      by (cases "AppendIetfFrames_loop s frames w") (auto simp: AppendIetfFrames_def)
    with False show ?thesis by simp
  qed
qed

lemma ietf_payload_roundtrip_of_valid:
  assumes "VersionHasIetfQuicFrames (transport_version s)" "transport_version r = transport_version s"
    and "Payload_valid s r data cdata frames" "frames \<noteq> []" "\<forall>es. visitor es" "net_writer w"
    and "AppendIetfFrames s frames w = (n, w')" "0 < n"
  shows "ProcessIetfFrameData r visitor [] (reader_at (written w') (wr_length w)) =
    (Inr (), Payload_events (transport_version s) data cdata frames, reader_at (written w') n)"
proof -
  let ?e = "Payload_image (transport_version s) data cdata frames"
  let ?rd = "reader_at (written w') (wr_length w)"
  have e: "if length ?e \<le> remaining w then AppendIetfFrames_loop s frames w = (Inr (), store_next ?e w)
      else \<exists>m. fst (AppendIetfFrames_loop s frames w) = Inl m"
    using AppendIetfFrames_loop_emits [OF assms(1,3)] assms(6) unfolding emits_def by blast
  have room: "length ?e \<le> remaining w"
  proof (rule ccontr)
    assume "\<not> length ?e \<le> remaining w"
    then obtain m where "fst (AppendIetfFrames_loop s frames w) = Inl m" using e by auto
    with assms(7,8) show False
      by (cases "AppendIetfFrames_loop s frames w") (auto simp: AppendIetfFrames_def)
  qed
  then have "w' = store_next ?e w" "n = wr_length w + length ?e"
    using e assms(7) by (auto simp: AppendIetfFrames_def) (auto simp: store_next_def)
  moreover have "length (written w) = wr_length w" using assms(6) by (simp add: length_written net_writerD)
  ultimately have rd: "net_reader ?rd" "PeekRemainingPayload ?rd = ?e" and n: "n = wr_length w + length ?e"
    using room assms(6) by (simp_all add: net_writerD)
  have "?e \<noteq> []" using assms(4) by (cases frames) auto
  then have "\<not> IsDoneReading ?rd" using rd by (simp add: IsDoneReading_iff)
  then show ?thesis
    using ProcessIetfFrames_processes [OF assms(2,3,5) rd, of "[]"] n by (simp add: ProcessIetfFrameData_def)
qed

text \<open>
  C3: what one framer writes the other reads. If a sender of IETF QUIC has put valid frames into a packet, the
  receiver of its payload calls its visitor once for each frame that was written, in order and with the
  values of the frame (three calls and more for an ACK frame: its start, every range and its end), raises no
  error and consumes the payload to the last byte.
\<close>

theorem ietf_payload_roundtrip:
  assumes "VersionHasIetfQuicFrames (transport_version s)" "transport_version r = transport_version s"
    and "Payload_valid s r data cdata frames" "frames \<noteq> []" "\<forall>es. visitor es" "net_writer w"
    and "AppendIetfFrames s frames w = (n, w')" "0 < n"
  shows "ProcessIetfFrameData r visitor [] (reader_at (written w') (wr_length w)) =
    (Inr (), Payload_events (transport_version s) data cdata frames, reader_at (written w') n)"
  using assms by (rule ietf_payload_roundtrip_of_valid)

lemma drop_bit_3_8: "unat (drop_bit 3 (8 :: u64)) = 1"
  by (simp add: unat_drop_bit_div)

text \<open>An accepting visitor never ends the loop early.\<close>

definition never_stops :: "(FramerEvent list \<Rightarrow> QuicDataReader \<Rightarrow> frame_outcome \<times> FramerEvent list \<times> QuicDataReader) \<Rightarrow> bool" where
  "never_stops P \<longleftrightarrow> (\<forall>ev r. fst (P ev r) \<noteq> Stop)"

lemma never_stops_intros:
  "never_stops P \<Longrightarrow> never_stops Q \<Longrightarrow> never_stops (if c then P else Q)"
  "\<forall>es. visitor es \<Longrightarrow> never_stops (deliver visitor error R frame)"
  "never_stops (visit_ack visitor first t)" "never_stops (\<lambda>ev r. (Raise error msg, ev, r))"
  by (auto simp: never_stops_def deliver_def visit_ack_def Let_def split: prod.splits sum.splits)

lemma ProcessIetfFrame_never_stops: "\<forall>es. visitor es \<Longrightarrow> never_stops (ProcessIetfFrame fr visitor t)"
  unfolding ProcessIetfFrame_def Let_def by (rule never_stops_intros | assumption)+

lemma ProcessIetfFrames_consumes:
  assumes "\<forall>es. visitor es"
  shows "ProcessIetfFrames fr visitor ev r = (Inr (), ev', r') \<Longrightarrow> IsDoneReading r'"
  using assms
proof (induction fr visitor ev r rule: ProcessIetfFrames.induct)
  case (1 fr visitor ev r)
  show ?case
  proof (cases "IsDoneReading r")
    case True
    then show ?thesis using 1(2) by (simp add: ProcessIetfFrames.simps [of fr visitor ev r])
  next
    case nd: False
    obtain t r1 where rd: "ReadVarInt62 r = (Some t, r1)"
      and min: "\<not> BytesRemaining r - BytesRemaining r1 \<noteq> GetVarInt62Len t"
      using 1(2) nd by (auto simp: ProcessIetfFrames.simps [of fr visitor ev r] split: prod.splits option.splits if_splits)
    obtain out ev1 r2 where f: "ProcessIetfFrame fr visitor t ev r1 = (out, ev1, r2)"
      by (cases "ProcessIetfFrame fr visitor t ev r1") auto
    have "out \<noteq> Stop"
      using ProcessIetfFrame_never_stops [OF 1(3), of fr t] f unfolding never_stops_def by (metis fst_conv)
    moreover have step: "ProcessIetfFrames fr visitor ev r =
        (case out of Continue \<Rightarrow> ProcessIetfFrames fr visitor ev1 r2 | Stop \<Rightarrow> (Inr (), ev1, r2)
         | Raise error detail \<Rightarrow> (Inl (error, detail), ev1, r2))"
      using nd rd min f by (cases out) (simp_all add: ProcessIetfFrames.simps [of fr visitor ev r])
    ultimately have c: "out = Continue" using 1(2) by (cases out) auto
    have "ProcessIetfFrames fr visitor ev1 r2 = (Inr (), ev', r')" using 1(2) step c by simp
    then show ?thesis
      using 1(1) [OF nd rd [symmetric] refl min f [symmetric] c refl] 1(3) by blast
  qed
qed


text \<open>
  a frame type that is not encoded in its minimal length ends the processing of the payload with
  \<open>IETF_QUIC_PROTOCOL_VIOLATION\<close>, before the visitor has heard of the frame.
\<close>

theorem ietf_frame_type_minimal:
  assumes "net_reader r" "unat t < 2 ^ 62" "n \<in> {2, 4, 8}" "GetVarInt62Len t < n"
    and "PeekRemainingPayload r = forced_varint62_bytes t n @ rest" "length (forced_varint62_bytes t n) = n"
  shows "ProcessIetfFrameData fr visitor ev r =
    (Inl (IETF_QUIC_PROTOCOL_VIOLATION, ''Frame type not minimally encoded.''), ev, advance n r)"
proof -
  have rd: "ReadVarInt62 r = (Some t, advance n r)"
    using assms by (intro ReadVarInt62_forced_prefix) auto
  have "BytesRemaining r \<ge> n"
    using length_PeekRemainingPayload [of r] assms(1,5,6) by (simp add: net_readerD)
  then have "BytesRemaining r - BytesRemaining (advance n r) = n"
    by (auto simp: BytesRemaining_def advance_def)
  moreover have "\<not> IsDoneReading r" using assms by (auto simp: IsDoneReading_iff)
  ultimately show ?thesis
    using rd assms(4) by (simp add: ProcessIetfFrameData_def ProcessIetfFrames.simps [of fr visitor ev r])
qed

lemma stream_type_small:
  assumes "IS_IETF_STREAM_FRAME t"
  shows "unat t < 16"
proof -
  have "drop_bit 3 (t AND 0xfffffffffffffff8) = drop_bit 3 t"
  proof (rule bit_word_eqI)
    fix n
    have m: "(0xfffffffffffffff8 :: u64) = NOT (mask 3)" by (simp add: mask_eq_exp_minus_1)
    show "bit (drop_bit 3 (t AND 0xfffffffffffffff8)) n = bit (drop_bit 3 t) n"
      unfolding m by (auto simp: bit_simps dest: bit_imp_le_length)
  qed
  moreover have "t AND 0xfffffffffffffff8 = 8"
    using assms by (simp add: IS_IETF_STREAM_FRAME_def IETF_STREAM_FRAME_TYPE_MASK_def IETF_STREAM_def)
  ultimately have "unat (drop_bit 3 t) = 1" by (metis drop_bit_3_8)
  then show ?thesis by (simp add: unat_drop_bit_div)
qed

text \<open>
  a frame type the protocol does not know ends the processing with \<open>QUIC_INVALID_FRAME_DATA\<close>: the
  known types are those up to \<open>IETF_APPLICATION_CLOSE\<close> and the two message types.
\<close>

theorem ietf_frame_type_unknown:
  assumes "net_reader r" "fits62 t" "0x1d < unat t" "t \<noteq> 0x20" "t \<noteq> 0x21"
    and "PeekRemainingPayload r = vi t @ rest"
  shows "ProcessIetfFrameData fr visitor ev r =
    (Inl (QUIC_INVALID_FRAME_DATA, ''Illegal frame type.''), ev, advance (GetVarInt62Len t) r)"
proof -
  let ?n = "GetVarInt62Len t"
  have n: "length (vi t) = ?n" "0 < ?n" using assms(2) by (simp_all add: fits62_def length_varint62_bytes GetVarInt62Len_eq)
  have rd: "ReadVarInt62 r = (Some t, advance ?n r)"
    using reads_asD [OF vi_reads [OF assms(2)] assms(1,6)] n by simp
  have "BytesRemaining r \<ge> ?n"
    using length_PeekRemainingPayload [of r] assms(1,6) n by (simp add: net_readerD)
  then have min: "BytesRemaining r - BytesRemaining (advance ?n r) = ?n"
    by (auto simp: BytesRemaining_def advance_def)
  have nd: "\<not> IsDoneReading r" using assms by (auto simp: IsDoneReading_iff)
  have "t \<noteq> 0" "t \<noteq> 1" "t \<noteq> 2" "t \<noteq> 3" "t \<noteq> 4" "t \<noteq> 5" "t \<noteq> 6" "t \<noteq> 7" "t \<noteq> 0x10" "t \<noteq> 0x11"
    "t \<noteq> 0x12" "t \<noteq> 0x13" "t \<noteq> 0x14" "t \<noteq> 0x15" "t \<noteq> 0x16" "t \<noteq> 0x17" "t \<noteq> 0x18" "t \<noteq> 0x19"
    "t \<noteq> 0x1a" "t \<noteq> 0x1b" "t \<noteq> 0x1c" "t \<noteq> 0x1d"
    using assms(3) by auto
  moreover have "\<not> IS_IETF_STREAM_FRAME t" using stream_type_small [of t] assms(3) by auto
  ultimately have "ProcessIetfFrame fr visitor t ev (advance ?n r) =
      (Raise QUIC_INVALID_FRAME_DATA ''Illegal frame type.'', ev, advance ?n r)"
    using assms(4,5) by (simp add: ProcessIetfFrame_def Let_def ietf_type_defs)
  with rd min nd show ?thesis
    by (simp add: ProcessIetfFrameData_def ProcessIetfFrames.simps [of fr visitor ev r])
qed

text \<open>The packet of the examples: a window update, a piece of padding and the end of a stream.\<close>

definition example_framer :: QuicFramer where
  "example_framer =
     \<lparr>transport_version = 99, perspective = IS_CLIENT, first_sending_packet_number = 1,
      use_allocated_connection_ids = True, data_producer = None, crypto_data_producer = None\<rparr>"

definition example_stream_frame :: QuicStreamFrame where
  "example_stream_frame =
     \<lparr>sf_fin = True, sf_data_length = 3, sf_stream_id = 4, sf_data_buffer = Some [7, 8, 9], sf_offset = 100\<rparr>"

definition example_frames :: "QuicFrame list" where
  "example_frames =
     [WINDOW_UPDATE_FRAME \<lparr>wu_control_frame_id = 1, wu_stream_id = 4, wu_byte_offset = 5\<rparr>,
      PADDING_FRAME \<lparr>num_padding_bytes = 2\<rparr>, STREAM_FRAME example_stream_frame]"

abbreviation example_data :: stream_contents where
  "example_data \<equiv> \<lambda>_. [7, 8, 9]"

abbreviation no_crypto :: crypto_contents where
  "no_crypto \<equiv> \<lambda>_. []"

lemma example_valid: "Payload_valid example_framer example_framer example_data no_crypto example_frames"
  using bytes_writes [of "[7, 8, 9]"]
  by (simp add: example_frames_def example_framer_def example_stream_frame_def Frame_valid_def fits62_def
      stream_source_def buffer_bytes_def)

lemma example_image:
  "Payload_image 99 example_data no_crypto example_frames = [0x11, 4, 5, 0, 0, 13, 4, 0x40, 100, 7, 8, 9]"
  by (simp add: example_frames_def example_stream_frame_def Frame_type_def Frame_body_def MaxStreamData_image_def
      StreamFrame_image_def varint62_bytes_def GetIetfStreamFrameTypeByte_def ietf_type_defs GetInvalidStreamId_def
      IETF_STREAM_FRAME_FIN_BIT_def IETF_STREAM_FRAME_LEN_BIT_def IETF_STREAM_FRAME_OFF_BIT_def be_bytes_2 U32_MAX_def)

lemma example_facts:
  "transport_version example_framer = 99" "VersionHasIetfQuicFrames 99" "example_frames \<noteq> []"
  by (simp_all add: example_framer_def VersionHasIetfQuicFrames_def example_frames_def)

lemma example_written_empty: "written example_writer = []" "wr_length example_writer = 0"
  by (simp_all add: example_writer_def new_QuicDataWriter_def written_def)

theorem ietf_payload_written_witness:
  "0 < fst (AppendIetfFrames example_framer example_frames example_writer)
   \<and> written (snd (AppendIetfFrames example_framer example_frames example_writer)) =
       [0x11, 4, 5, 0, 0, 13, 4, 0x40, 100, 7, 8, 9]"
  using ietf_payload_written [OF _ example_valid example_facts(3) net_writer_example]
  unfolding example_facts(1) example_image example_written_empty by (simp add: example_facts)

lemma example_append:
  "AppendIetfFrames example_framer example_frames example_writer =
     (12, store_next [0x11, 4, 5, 0, 0, 13, 4, 0x40, 100, 7, 8, 9] example_writer)"
proof -
  have "emits (AppendIetfFrames_loop example_framer example_frames) [0x11, 4, 5, 0, 0, 13, 4, 0x40, 100, 7, 8, 9]"
    using AppendIetfFrames_loop_emits [OF _ example_valid] unfolding example_facts(1) example_image
    by (simp add: example_facts)
  then have "AppendIetfFrames_loop example_framer example_frames example_writer =
      (Inr (), store_next [0x11, 4, 5, 0, 0, 13, 4, 0x40, 100, 7, 8, 9] example_writer)"
    by (simp add: emits_def)
  then show ?thesis by (simp add: AppendIetfFrames_def) (simp add: store_next_def example_written_empty)
qed

theorem ietf_payload_roundtrip_witness:
  "ProcessIetfFrameData example_framer (\<lambda>_. True) []
     (reader_at [0x11, 4, 5, 0, 0, 13, 4, 0x40, 100, 7, 8, 9] 0) =
   (Inr (),
    [OnFrame (WINDOW_UPDATE_FRAME \<lparr>wu_control_frame_id = 0, wu_stream_id = 4, wu_byte_offset = 5\<rparr>),
     OnFrame (PADDING_FRAME \<lparr>num_padding_bytes = 2\<rparr>), OnFrame (STREAM_FRAME example_stream_frame)],
    reader_at [0x11, 4, 5, 0, 0, 13, 4, 0x40, 100, 7, 8, 9] 12)"
proof -
  have ev: "Payload_events 99 example_data no_crypto example_frames =
      [OnFrame (WINDOW_UPDATE_FRAME \<lparr>wu_control_frame_id = 0, wu_stream_id = 4, wu_byte_offset = 5\<rparr>),
       OnFrame (PADDING_FRAME \<lparr>num_padding_bytes = 2\<rparr>), OnFrame (STREAM_FRAME example_stream_frame)]"
    by (simp add: Payload_events_def Frame_events_def Frame_received_def example_frames_def example_stream_frame_def
        StreamFrame_received_def MaxStreamData_received_def GetInvalidStreamId_def U32_MAX_def kInvalidControlFrameId_def)
  have w: "written (store_next [0x11, 4, 5, 0, 0, 13, 4, 0x40, 100, 7, 8, 9] example_writer) =
      [0x11, 4, 5, 0, 0, 13, 4, 0x40, 100, 7, 8, 9]"
    by (subst written_store_next) (simp_all add: net_writerD example_written_empty)
  show ?thesis
    using ietf_payload_roundtrip [OF _ refl example_valid example_facts(3) _ net_writer_example example_append, of "\<lambda>_. True"]
    unfolding example_facts(1) ev w example_written_empty by (simp add: example_facts)
qed


theorem ietf_frame_type_minimal_witness:
  "ProcessIetfFrameData example_framer (\<lambda>_. True) [] (reader_at [0x80, 0, 0, 1] 0) =
    (Inl (IETF_QUIC_PROTOCOL_VIOLATION, ''Frame type not minimally encoded.''), [], reader_at [0x80, 0, 0, 1] 4)"
  using ietf_frame_type_minimal [of "reader_at [0x80, 0, 0, 1] 0" 1 4 "[]" example_framer "\<lambda>_. True" "[]"]
  by (simp add: GetVarInt62Len_eq forced_varint62_bytes_def be_bytes_2)

theorem ietf_frame_type_unknown_witness:
  "ProcessIetfFrameData example_framer (\<lambda>_. True) [] (reader_at [0x1e, 1] 0) =
    (Inl (QUIC_INVALID_FRAME_DATA, ''Illegal frame type.''), [], reader_at [0x1e, 1] 1)"
  using ietf_frame_type_unknown [where r = "reader_at [0x1e, 1] 0" and t = "0x1e" and rest = "[1]"
      and fr = example_framer and visitor = "\<lambda>_. True" and ev = "[]"]
  by (simp add: GetVarInt62Len_eq fits62_def varint62_bytes_def)

end
