(* ===== verification/Quic_Stream_Payload.thy ===== *)
theory Quic_Stream_Payload
  imports Quic_Ietf_Roundtrip
begin

text \<open>
  The composition of the send buffers of streams with the framer. The data producer of the framer is the
  session, whose \<open>WriteStreamData\<close> (src/quic/core/quic_session.cc) passes the request on to the send
  buffer of the stream. The producer sees every buffer as it was before the packet.
\<close>

type_synonym send_buffers = "u32 \<Rightarrow> QuicStreamSendBuffer option"

datatype WriteStreamDataResult = WRITE_SUCCESS | STREAM_MISSING | WRITE_FAILED

definition Session_WriteStreamData ::
    "send_buffers \<Rightarrow> u32 \<Rightarrow> u64 \<Rightarrow> u16 \<Rightarrow> QuicDataWriter \<Rightarrow> WriteStreamDataResult \<times> QuicDataWriter" where
  "Session_WriteStreamData streams sid offset data_length w =
     (case streams sid of
        None \<Rightarrow> (STREAM_MISSING, w)
      | Some b \<Rightarrow>
          (case WriteStreamData b (unat offset) (unat data_length) w of
             (ok, b', w') \<Rightarrow> (if ok then WRITE_SUCCESS else WRITE_FAILED, w')))"

definition session_producer :: "send_buffers \<Rightarrow> stream_producer" where
  "session_producer streams sid offset data_length w =
     (case Session_WriteStreamData streams sid offset data_length w of (res, w') \<Rightarrow> (res = WRITE_SUCCESS, w'))"

lemma WriteStreamData_loop_length:
  assumes "WriteStreamData_loop hit its offset n wi w = (True, left, wi', w')" "writer_ok w"
  shows "writer_ok w' \<and> wr_capacity w' = wr_capacity w \<and> left \<le> n \<and> wr_length w' + left = wr_length w + n"
  using assms
proof (induction its arbitrary: offset n wi w)
  case (Cons it its)
  let ?off = "offset - slice_offset it"
  let ?c = "min n (length (slice it) - ?off)" and ?d = "take (min n (length (slice it) - ?off)) (drop ?off (slice it))"
  consider "n = 0 \<or> offset < slice_offset it" | "\<not> (n = 0 \<or> offset < slice_offset it)" "offset \<ge> slice_offset it + length (slice it)"
    | "\<not> (n = 0 \<or> offset < slice_offset it)" "\<not> offset \<ge> slice_offset it + length (slice it)" by blast
  then show ?case
  proof cases
    case 3
    have l: "length ?d = ?c" by simp
    have fits: "?c \<le> remaining w"
    proof (rule ccontr)
      assume "\<not> ?c \<le> remaining w"
      then have "WriteBytes ?d w = (False, w)" using Cons.prems(2) l by (simp add: WriteBytes_eq)
      then show False using Cons.prems(1) 3 by (simp add: Let_def)
    qed
    have "WriteStreamData_loop hit its (offset + ?c) (n - ?c) (if hit \<and> ?c = length (slice it) - ?off then wi + 1 else wi)
        (store_next ?d w) = (True, left, wi', w')"
    proof -
      have "WriteBytes ?d w = (True, store_next ?d w)" using Cons.prems(2) l fits by (simp add: WriteBytes_eq)
      then show ?thesis using Cons.prems(1) 3 by (simp add: Let_def)
    qed
    note IH = Cons.IH [OF this writer_ok_store_next [OF Cons.prems(2)]]
    have "length ?d \<le> remaining w" using fits l by (simp only:)
    note IH = IH [OF this]
    have "n - ?c \<le> n" by simp
    moreover note IH
    moreover have "wr_length (store_next ?d w) = wr_length w + ?c" "wr_capacity (store_next ?d w) = wr_capacity w"
      using l Cons.prems(2) fits by (simp_all add: store_next_def memcpy_def writer_ok_def remaining_def)
    ultimately show ?thesis by (metis Nat.add_diff_assoc add.assoc add.commute le_add_diff_inverse le_trans min.cobounded1)
  qed (use Cons in auto)
qed simp

lemma WriteStreamData_no_room:
  assumes "writer_ok w" "remaining w < n"
  shows "\<not> fst (WriteStreamData b off n w)"
proof
  assume ok: "fst (WriteStreamData b off n w)"
  let ?it = "buffered_slices b ! nat (write_index b)"
  let ?hit = "write_index b \<noteq> -1 \<and> off \<ge> slice_offset ?it"
  let ?its = "if ?hit then drop (nat (write_index b)) (buffered_slices b) else buffered_slices b"
  obtain res left wi' w' where l: "WriteStreamData_loop ?hit ?its off n (write_index b) w = (res, left, wi', w')"
    by (metis prod_cases4)
  have "res \<and> left = 0"
    using ok l by (cases "write_index b \<noteq> -1 \<and> off \<ge> slice_offset ?it + length (slice ?it)"; cases res)
      (simp_all add: WriteStreamData_def Let_def del: WriteStreamData_loop.simps)
  then have "WriteStreamData_loop ?hit ?its off n (write_index b) w = (True, 0, wi', w')" using l by simp
  from WriteStreamData_loop_length [OF this assms(1)] show False
    using assms by (auto simp: writer_ok_def remaining_def)
qed

text \<open>The frames the sender may make of a stream: new data at the write position, or data sent before.\<close>

definition sendable :: "byte list \<Rightarrow> nat \<Rightarrow> QuicStreamSendBuffer \<Rightarrow> QuicStreamFrame \<Rightarrow> bool" where
  "sendable s W b f \<longleftrightarrow>
     (let off = unat (sf_offset f); n = unat (sf_data_length f)
      in fits62 (sf_offset f) \<and> off + n \<le> length s
         \<and> (n = 0 \<or> (off = W \<or> off + n \<le> W) \<and> {off ..< off + n} \<inter> set_points (bytes_acked b) = {}))"

definition stream_bytes :: "(u32 \<Rightarrow> byte list) \<Rightarrow> stream_contents" where
  "stream_bytes S f = take (unat (sf_data_length f)) (drop (unat (sf_offset f)) (S (sf_stream_id f)))"

lemma producer_writes:
  assumes r: "sending_reachable (S i, W, b)" "streams i = Some b" and i: "i = sf_stream_id f"
    and ok: "sendable (S i) W b f" and ne: "stream_bytes S f \<noteq> []"
  shows "writes_as (stream_source (Some (session_producer streams)) f) (stream_bytes S f)"
proof -
  let ?off = "unat (sf_offset f)" and ?n = "unat (sf_data_length f)"
  let ?src = "stream_source (Some (session_producer streams)) f"
  have n: "0 < ?n" using ne by (auto simp: stream_bytes_def)
  have len: "length (stream_bytes S f) = ?n" using ok i by (auto simp: stream_bytes_def sendable_def Let_def min_def)
  have src: "?src w = (case WriteStreamData b ?off ?n w of (ok, b', w') \<Rightarrow> (ok, w'))" for w
    using r(2) i by (simp add: stream_source_def session_producer_def Session_WriteStreamData_def split: prod.splits)
  have "if length (stream_bytes S f) \<le> remaining w then ?src w = (True, store_next (stream_bytes S f) w)
      else \<not> fst (?src w)" if w: "net_writer w" for w
  proof (cases "?n \<le> remaining w")
    case True
    have sb: "send_buffer_ok (S i) W b" using sending_reachable_ok [OF r(1)] by simp
    obtain b' where "WriteStreamData b ?off ?n w = (True, b', store_next (take ?n (drop ?off (S i))) w)"
    proof -
      have c: "?off = W \<or> ?off + ?n \<le> W" "?off + ?n \<le> length (S i)" "{?off ..< ?off + ?n} \<inter> set_points (bytes_acked b) = {}"
        using ok n by (simp_all add: sendable_def Let_def)
      from WriteStreamData_correct [OF sb c(1,2) n c(3) net_writerD(1) [OF w] True] that show thesis by blast
    qed
    with True len i show ?thesis by (simp add: src stream_bytes_def)
  next
    case False
    then have "\<not> fst (WriteStreamData b ?off ?n w)"
      using w by (intro WriteStreamData_no_room) (auto simp: net_writerD)
    with False len show ?thesis by (auto simp: src split: prod.splits)
  qed
  then show ?thesis by (simp add: writes_as_def)
qed

lemma Payload_valid_iff:
  "Payload_valid s r data cdata frames \<longleftrightarrow>
     (\<forall>f \<in> set frames. Frame_valid s r data cdata f) \<and> successively (\<lambda>a b. \<not> (is_padding a \<and> is_padding b)) frames"
  by (induction frames) (auto simp: successively_Cons)


lemma sendable_payload_valid:
  assumes s: "data_producer s = Some (session_producer streams)"
    and streams: "\<forall>i b. streams i = Some b \<longrightarrow> sending_reachable (S i, W i, b)"
    and frames: "\<forall>frame \<in> set frames. case frame of
        STREAM_FRAME f \<Rightarrow> \<exists>b. streams (sf_stream_id f) = Some b \<and> sendable (S (sf_stream_id f)) (W (sf_stream_id f)) b f
      | _ \<Rightarrow> Frame_valid s r (stream_bytes S) crypto_data frame"
    and "successively (\<lambda>a b. \<not> (is_padding a \<and> is_padding b)) frames"
  shows "Payload_valid s r (stream_bytes S) crypto_data frames"
proof -
  have "Frame_valid s r (stream_bytes S) crypto_data frame" if mem: "frame \<in> set frames" for frame
  proof (cases frame)
    case (STREAM_FRAME f)
    then obtain b where b: "streams (sf_stream_id f) = Some b" "sendable (S (sf_stream_id f)) (W (sf_stream_id f)) b f"
      using bspec [OF frames mem] by auto
    have "writes_as (stream_source (data_producer s) f) (stream_bytes S f)" if ne: "stream_bytes S f \<noteq> []"
      unfolding s using streams b ne
      by (intro producer_writes [where i = "sf_stream_id f" and W = "W (sf_stream_id f)" and b = b]) simp_all
    moreover have "fits62 (sf_offset f)" "length (stream_bytes S f) = unat (sf_data_length f)"
      using b(2) by (auto simp: sendable_def stream_bytes_def Let_def min_def)
    ultimately show ?thesis by (simp add: STREAM_FRAME Frame_valid_def)
  qed (use bspec [OF frames mem] in simp_all)
  with assms(4) show ?thesis by (simp add: Payload_valid_iff)
qed

text \<open>
  C4: stream data crosses the connection unchanged. Let the streams of the sender be in reachable states of
  their send buffers, and let it fill a packet with new data at the write positions, with data to
  retransmit and with other valid frames. If the packet is written, the receiver's visitor gets the stream frames
  in order, each with exactly the bytes the application has written at its offset, and the other frames.
\<close>

theorem packet_carries_stream_data:
  assumes "VersionHasIetfQuicFrames (transport_version s)" "transport_version r = transport_version s"
    and "data_producer s = Some (session_producer streams)"
    and streams: "\<forall>i b. streams i = Some b \<longrightarrow> sending_reachable (S i, W i, b)"
    and frames: "\<forall>frame \<in> set frames. case frame of
        STREAM_FRAME f \<Rightarrow> \<exists>b. streams (sf_stream_id f) = Some b \<and> sendable (S (sf_stream_id f)) (W (sf_stream_id f)) b f
      | _ \<Rightarrow> Frame_valid s r (stream_bytes S) crypto_data frame"
    and "successively (\<lambda>a b. \<not> (is_padding a \<and> is_padding b)) frames" "frames \<noteq> []"
    and "\<forall>es. visitor es" "net_writer w" "AppendIetfFrames s frames w = (n, w')" "0 < n"
  shows "ProcessIetfFrameData r visitor [] (reader_at (written w') (wr_length w)) =
    (Inr (), Payload_events (transport_version s) (stream_bytes S) crypto_data frames, reader_at (written w') n)"
  using sendable_payload_valid [OF assms(3-6)] assms(1,2,7-11)
  by (intro ietf_payload_roundtrip_of_valid) auto

text \<open>The example buffer of five bytes, all of them still to be sent, behind stream 4.\<close>

definition example_streams :: send_buffers where
  "example_streams i = (if i = 4 then Some example_saved else None)"

definition example_sender :: QuicFramer where
  "example_sender = example_framer\<lparr>data_producer := Some (session_producer example_streams)\<rparr>"

definition example_new_data :: "QuicFrame list" where
  "example_new_data =
     [PING_FRAME ping_frame,
      STREAM_FRAME \<lparr>sf_fin = False, sf_data_length = 4, sf_stream_id = 4, sf_data_buffer = None, sf_offset = 0\<rparr>]"

lemma example_streams_reachable: "\<forall>i b. example_streams i = Some b \<longrightarrow> sending_reachable ([1, 2, 3, 4, 5], 0, b)"
  using example_saved_reachable by (simp add: example_streams_def)

lemma example_sender_facts:
  "transport_version example_sender = 99" "data_producer example_sender = Some (session_producer example_streams)"
  "example_new_data \<noteq> []" "successively (\<lambda>a b. \<not> (is_padding a \<and> is_padding b)) example_new_data"
  by (simp_all add: example_sender_def example_facts example_new_data_def)

lemma example_new_data_sendable:
  "\<forall>frame \<in> set example_new_data. case frame of
      STREAM_FRAME f \<Rightarrow> \<exists>b. example_streams (sf_stream_id f) = Some b \<and> sendable [1, 2, 3, 4, 5] 0 b f
    | _ \<Rightarrow> Frame_valid example_sender example_framer (stream_bytes (\<lambda>_. [1, 2, 3, 4, 5])) no_crypto frame"
  by (simp add: example_new_data_def example_streams_def sendable_def fits62_def Frame_valid_def
      example_saved_eq set_points_def)

lemma example_new_data_image:
  "Payload_image 99 (stream_bytes (\<lambda>_. [1, 2, 3, 4, 5])) no_crypto example_new_data = [1, 8, 4, 1, 2, 3, 4]"
  by (simp add: example_new_data_def Frame_type_def Frame_body_def StreamFrame_image_def varint62_bytes_def
      GetIetfStreamFrameTypeByte_def ietf_type_defs stream_bytes_def)

lemma example_sender_append:
  "AppendIetfFrames example_sender example_new_data example_writer =
     (7, store_next [1, 8, 4, 1, 2, 3, 4] example_writer)"
proof -
  have "emits (AppendIetfFrames_loop example_sender example_new_data) [1, 8, 4, 1, 2, 3, 4]"
    using AppendIetfFrames_loop_emits [OF _ sendable_payload_valid [OF example_sender_facts(2)
        example_streams_reachable example_new_data_sendable example_sender_facts(4)]]
    unfolding example_sender_facts(1) example_new_data_image by (simp add: example_facts)
  then have "AppendIetfFrames_loop example_sender example_new_data example_writer =
      (Inr (), store_next [1, 8, 4, 1, 2, 3, 4] example_writer)"
    by (simp add: emits_def)
  then show ?thesis by (simp add: AppendIetfFrames_def) (simp add: store_next_def example_written_empty)
qed

theorem packet_carries_stream_data_witness:
  "ProcessIetfFrameData example_framer (\<lambda>_. True) [] (reader_at [1, 8, 4, 1, 2, 3, 4] 0) =
     (Inr (),
      [OnFrame (PING_FRAME ping_frame),
       OnFrame (STREAM_FRAME \<lparr>sf_fin = False, sf_data_length = 4, sf_stream_id = 4,
                              sf_data_buffer = Some [1, 2, 3, 4], sf_offset = 0\<rparr>)],
      reader_at [1, 8, 4, 1, 2, 3, 4] 7)"
proof -
  have w: "written (store_next [1, 8, 4, 1, 2, 3, 4] example_writer) = [1, 8, 4, 1, 2, 3, 4]"
    by (subst written_store_next) (simp_all add: net_writerD example_written_empty)
  have ev: "Payload_events 99 (stream_bytes (\<lambda>_. [1, 2, 3, 4, 5])) no_crypto example_new_data =
      [OnFrame (PING_FRAME ping_frame),
       OnFrame (STREAM_FRAME \<lparr>sf_fin = False, sf_data_length = 4, sf_stream_id = 4,
                              sf_data_buffer = Some [1, 2, 3, 4], sf_offset = 0\<rparr>)]"
    by (simp add: Payload_events_def Frame_events_def Frame_received_def example_new_data_def
        StreamFrame_received_def stream_bytes_def)
  show ?thesis
    using packet_carries_stream_data [OF _ _ example_sender_facts(2) example_streams_reachable
        example_new_data_sendable example_sender_facts(4,3) _ net_writer_example example_sender_append, of "\<lambda>_. True"]
    unfolding example_sender_facts(1) ev w example_written_empty by (simp add: example_facts)
qed

end
