(* ===== verification/Quic_Sequencer_Buffer.thy ===== *)
theory Quic_Sequencer_Buffer
  imports Quic_Interval_Set Quic_Data_Writer Quic_Error_Codes
begin

text \<open>
  The buffer that puts received stream data into order (src/quic/core/quic_stream_sequencer_buffer.cc and .h):
  a ring of blocks of memory, allocated when data arrives for them and retired when they have been read, and the
  set of the offsets received so far. A block that is \<open>None\<close> is a null pointer, as is the array of blocks.
  Offsets and sizes are numbers with the wrap-around of \<open>uint64_t\<close> where the source computes with them.
  Loops that end only because the state is consistent return an option; the lemmas show that they end.
\<close>

section \<open>State\<close>

definition kBlockSizeBytes :: nat where
  "kBlockSizeBytes = 8 * 1024"

definition kMaxNumDataIntervalsAllowed :: nat where
  "kMaxNumDataIntervalsAllowed = 2 * 5000"

record QuicStreamSequencerBuffer =
  max_buffer_capacity_bytes :: nat
  blocks_count :: nat
  total_bytes_read :: nat
  buffer_blocks :: "byte list option list option"
  num_bytes_buffered :: nat
  bytes_received :: "nat QuicIntervalSet"
  total_bytes_prefetched :: nat

definition CalculateBlockCount :: "nat \<Rightarrow> nat" where
  "CalculateBlockCount max_capacity_bytes =
     u64_sub (u64_add max_capacity_bytes kBlockSizeBytes) 1 div kBlockSizeBytes"

definition block_at :: "QuicStreamSequencerBuffer \<Rightarrow> nat \<Rightarrow> byte list option" where
  "block_at b idx = (case buffer_blocks b of None \<Rightarrow> None | Some bs \<Rightarrow> bs ! idx)"

definition RetireBlock :: "QuicStreamSequencerBuffer \<Rightarrow> nat \<Rightarrow> bool \<times> QuicStreamSequencerBuffer" where
  "RetireBlock b idx =
     (if block_at b idx = None then (False, b)
      else (True, b\<lparr>buffer_blocks := map_option (\<lambda>bs. bs[idx := None]) (buffer_blocks b)\<rparr>))"

definition Clear :: "QuicStreamSequencerBuffer \<Rightarrow> QuicStreamSequencerBuffer" where
  "Clear b =
     (let b1 = (if buffer_blocks b \<noteq> None
                then fold (\<lambda>i b. if block_at b i \<noteq> None then snd (RetireBlock b i) else b) [0..<blocks_count b] b
                else b)
      in b1\<lparr>num_bytes_buffered := 0, bytes_received := Set_Add [] (QuicInterval 0 (total_bytes_read b)),
             total_bytes_prefetched := total_bytes_read b\<rparr>)"

definition new_QuicStreamSequencerBuffer :: "nat \<Rightarrow> QuicStreamSequencerBuffer" where
  "new_QuicStreamSequencerBuffer max_capacity_bytes =
     Clear \<lparr>max_buffer_capacity_bytes = max_capacity_bytes, blocks_count = CalculateBlockCount max_capacity_bytes,
            total_bytes_read = 0, buffer_blocks = None, num_bytes_buffered = 0, bytes_received = [],
            total_bytes_prefetched = 0\<rparr>"

section \<open>Positions\<close>

definition GetBlockIndex :: "QuicStreamSequencerBuffer \<Rightarrow> nat \<Rightarrow> nat" where
  "GetBlockIndex b offset = (offset mod max_buffer_capacity_bytes b) div kBlockSizeBytes"

definition GetInBlockOffset :: "QuicStreamSequencerBuffer \<Rightarrow> nat \<Rightarrow> nat" where
  "GetInBlockOffset b offset = (offset mod max_buffer_capacity_bytes b) mod kBlockSizeBytes"

definition ReadOffset :: "QuicStreamSequencerBuffer \<Rightarrow> nat" where
  "ReadOffset b = GetInBlockOffset b (total_bytes_read b)"

definition NextBlockToRead :: "QuicStreamSequencerBuffer \<Rightarrow> nat" where
  "NextBlockToRead b = GetBlockIndex b (total_bytes_read b)"

definition GetBlockCapacity :: "QuicStreamSequencerBuffer \<Rightarrow> nat \<Rightarrow> nat" where
  "GetBlockCapacity b block_index =
     (if block_index + 1 = blocks_count b
      then let result = max_buffer_capacity_bytes b mod kBlockSizeBytes
           in if result = 0 then kBlockSizeBytes else result
      else kBlockSizeBytes)"

definition FirstMissingByte :: "QuicStreamSequencerBuffer \<Rightarrow> nat" where
  "FirstMissingByte b =
     (if bytes_received b = [] \<or> imin (hd (bytes_received b)) > 0 then 0 else imax (hd (bytes_received b)))"

definition NextExpectedByte :: "QuicStreamSequencerBuffer \<Rightarrow> nat" where
  "NextExpectedByte b = (if bytes_received b = [] then 0 else imax (last (bytes_received b)))"

definition ReadableBytes :: "QuicStreamSequencerBuffer \<Rightarrow> nat" where
  "ReadableBytes b = u64_sub (FirstMissingByte b) (total_bytes_read b)"

definition HasBytesToRead :: "QuicStreamSequencerBuffer \<Rightarrow> bool" where
  "HasBytesToRead b \<longleftrightarrow> ReadableBytes b > 0"

definition BytesConsumed :: "QuicStreamSequencerBuffer \<Rightarrow> nat" where
  "BytesConsumed b = total_bytes_read b"

definition BytesBuffered :: "QuicStreamSequencerBuffer \<Rightarrow> nat" where
  "BytesBuffered b = num_bytes_buffered b"

definition Buffer_Empty :: "QuicStreamSequencerBuffer \<Rightarrow> bool" where
  "Buffer_Empty b \<longleftrightarrow>
     bytes_received b = []
   \<or> length (bytes_received b) = 1 \<and> total_bytes_read b > 0 \<and> imax (hd (bytes_received b)) = total_bytes_read b"

definition RetireBlockIfEmpty :: "QuicStreamSequencerBuffer \<Rightarrow> nat \<Rightarrow> bool \<times> QuicStreamSequencerBuffer" where
  "RetireBlockIfEmpty b block_index =
     (if Buffer_Empty b then RetireBlock b block_index
      else if GetBlockIndex b (u64_sub (NextExpectedByte b) 1) = block_index then (True, b)
      else if NextBlockToRead b = block_index
      then if length (bytes_received b) > 1
           then if GetBlockIndex b (imin (bytes_received b ! 1)) = block_index then (True, b)
                else RetireBlock b block_index
           else (False, b)
      else RetireBlock b block_index)"

section \<open>Receiving\<close>

text \<open>The result of a copy: whether it succeeded, the bytes copied and the buffer.\<close>

partial_function (option) CopyStreamData_loop ::
    "QuicStreamSequencerBuffer \<Rightarrow> nat \<Rightarrow> byte list \<Rightarrow> nat \<Rightarrow> (bool \<times> nat \<times> QuicStreamSequencerBuffer) option" where
  "CopyStreamData_loop b offset source bytes_copy =
     (if source = [] then Some (True, bytes_copy, b)
      else let write_block_num = GetBlockIndex b offset;
               write_block_offset = GetInBlockOffset b offset;
               limit = u64_add (total_bytes_read b) (max_buffer_capacity_bytes b);
               in_block = u64_sub (GetBlockCapacity b write_block_num) write_block_offset;
               bytes_avail = (if u64_add offset in_block > limit then u64_sub limit offset else in_block);
               bs = (case buffer_blocks b of None \<Rightarrow> replicate (blocks_count b) None | Some bs \<Rightarrow> bs)
           in if write_block_num \<ge> blocks_count b then Some (False, bytes_copy, b\<lparr>buffer_blocks := Some bs\<rparr>)
              else let block = (case bs ! write_block_num of None \<Rightarrow> replicate kBlockSizeBytes 0 | Some block \<Rightarrow> block);
                       bytes_to_copy = min bytes_avail (length source);
                       block' = memcpy block write_block_offset (take bytes_to_copy source)
                   in CopyStreamData_loop (b\<lparr>buffer_blocks := Some (bs[write_block_num := Some block'])\<rparr>)
                        (u64_add offset bytes_to_copy) (drop bytes_to_copy source) (bytes_copy + bytes_to_copy))"

definition CopyStreamData ::
    "QuicStreamSequencerBuffer \<Rightarrow> nat \<Rightarrow> byte list \<Rightarrow> (bool \<times> nat \<times> QuicStreamSequencerBuffer) option" where
  "CopyStreamData b offset data = CopyStreamData_loop b offset data 0"

text \<open>The slow path copies the parts that are new; \<open>data\<close> starts at \<open>starting_offset\<close>.\<close>

fun CopyIntervals ::
    "QuicStreamSequencerBuffer \<Rightarrow> nat \<Rightarrow> byte list \<Rightarrow> nat QuicInterval list \<Rightarrow> nat \<Rightarrow>
       (bool \<times> nat \<times> QuicStreamSequencerBuffer) option" where
  "CopyIntervals b starting_offset data [] bytes_buffered = Some (True, bytes_buffered, b)"
| "CopyIntervals b starting_offset data (interval # intervals) bytes_buffered =
     (let copy_offset = imin interval; copy_length = u64_sub (imax interval) (imin interval)
      in Option.bind (CopyStreamData b copy_offset (take copy_length (drop (u64_sub copy_offset starting_offset) data)))
           (\<lambda>(ok, bytes_copy, b'). if \<not> ok then Some (False, bytes_buffered, b')
              else CopyIntervals b' starting_offset data intervals (bytes_buffered + bytes_copy)))"

definition OnStreamData ::
    "QuicStreamSequencerBuffer \<Rightarrow> nat \<Rightarrow> byte list \<Rightarrow> (QuicErrorCode \<times> nat \<times> QuicStreamSequencerBuffer) option" where
  "OnStreamData b starting_offset data =
     (let stop = u64_add starting_offset (length data); rng = QuicInterval starting_offset stop;
          received = bytes_received b
      in if data = [] then Some (QUIC_EMPTY_STREAM_FRAME_NO_FIN, 0, b)
         else if stop > u64_add (total_bytes_read b) (max_buffer_capacity_bytes b) \<or> stop < starting_offset
         then Some (QUIC_INTERNAL_ERROR, 0, b)
         else if received = [] \<or> starting_offset \<ge> imax (last received) \<or> IsDisjoint received rng
         then let b1 = b\<lparr>bytes_received := AddOptimizedForAppend received rng\<rparr>
              in if length (bytes_received b1) \<ge> kMaxNumDataIntervalsAllowed
                 then Some (QUIC_TOO_MANY_STREAM_DATA_INTERVALS, 0, b1)
                 else Option.bind (CopyStreamData b1 starting_offset data)
                   (\<lambda>(ok, bytes_copy, b2). if \<not> ok then Some (QUIC_STREAM_SEQUENCER_INVALID_STATE, 0, b2)
                      else Some (QUIC_NO_ERROR, bytes_copy,
                             b2\<lparr>num_bytes_buffered := u64_add (num_bytes_buffered b2) bytes_copy\<rparr>))
         else Option.bind (Set_Difference_set (Set_Add [] rng) received) (\<lambda>newly_received.
           if newly_received = [] then Some (QUIC_NO_ERROR, 0, b)
           else let b1 = b\<lparr>bytes_received := Set_Add received rng\<rparr>
                in if length (bytes_received b1) \<ge> kMaxNumDataIntervalsAllowed
                   then Some (QUIC_TOO_MANY_STREAM_DATA_INTERVALS, 0, b1)
                   else Option.bind (CopyIntervals b1 starting_offset data newly_received 0)
                     (\<lambda>(ok, bytes_buffered, b2).
                        if \<not> ok then Some (QUIC_STREAM_SEQUENCER_INVALID_STATE, bytes_buffered, b2)
                        else Some (QUIC_NO_ERROR, bytes_buffered,
                               b2\<lparr>num_bytes_buffered := u64_add (num_bytes_buffered b2) bytes_buffered\<rparr>))))"

section \<open>Reading\<close>

text \<open>Filling one buffer of the caller: the error, the bytes written to it, and the state.\<close>

partial_function (option) Readv_one ::
    "QuicStreamSequencerBuffer \<Rightarrow> nat \<Rightarrow> byte list \<Rightarrow> (QuicErrorCode \<times> byte list \<times> QuicStreamSequencerBuffer) option" where
  "Readv_one b dest_remaining dest =
     (if dest_remaining > 0 \<and> ReadableBytes b > 0
      then let block_idx = NextBlockToRead b;
               start_offset_in_block = ReadOffset b;
               bytes_available_in_block =
                 min (ReadableBytes b) (u64_sub (GetBlockCapacity b block_idx) start_offset_in_block);
               bytes_to_copy = min bytes_available_in_block dest_remaining
           in case block_at b block_idx of
                None \<Rightarrow> Some (QUIC_STREAM_SEQUENCER_INVALID_STATE, dest, b)
              | Some block \<Rightarrow>
                  let dest' = dest @ take bytes_to_copy (drop start_offset_in_block block);
                      b1 = b\<lparr>num_bytes_buffered := u64_sub (num_bytes_buffered b) bytes_to_copy,
                             total_bytes_read := u64_add (total_bytes_read b) bytes_to_copy\<rparr>;
                      (retired, b2) = (if bytes_to_copy = bytes_available_in_block
                                       then RetireBlockIfEmpty b1 block_idx else (True, b1))
                  in if \<not> retired then Some (QUIC_STREAM_SEQUENCER_INVALID_STATE, dest', b2)
                     else Readv_one b2 (dest_remaining - bytes_to_copy) dest'
      else Some (QUIC_NO_ERROR, dest, b))"

text \<open>The buffers of the caller by their lengths, and what is written into each.\<close>

fun Readv_loop ::
    "QuicStreamSequencerBuffer \<Rightarrow> nat list \<Rightarrow> (QuicErrorCode \<times> byte list list \<times> QuicStreamSequencerBuffer) option" where
  "Readv_loop b [] = Some (QUIC_NO_ERROR, [], b)"
| "Readv_loop b (iov_len # iov) =
     (if ReadableBytes b > 0
      then Option.bind (Readv_one b iov_len []) (\<lambda>(error, dest, b1).
             if error \<noteq> QUIC_NO_ERROR then Some (error, [dest], b1)
             else map_option (\<lambda>(error, dests, b2). (error, dest # dests, b2)) (Readv_loop b1 iov))
      else Some (QUIC_NO_ERROR, [], b))"

definition Readv ::
    "QuicStreamSequencerBuffer \<Rightarrow> nat list \<Rightarrow> (QuicErrorCode \<times> byte list list \<times> QuicStreamSequencerBuffer) option" where
  "Readv b iov =
     map_option (\<lambda>(error, dests, b1).
         (error, dests,
          if error \<noteq> QUIC_NO_ERROR then b1
          else b1\<lparr>total_bytes_prefetched := max (total_bytes_prefetched b1) (total_bytes_read b1)\<rparr>))
       (Readv_loop b iov)"

partial_function (option) MarkConsumed_loop ::
    "QuicStreamSequencerBuffer \<Rightarrow> nat \<Rightarrow> QuicStreamSequencerBuffer option" where
  "MarkConsumed_loop b bytes_to_consume =
     (if bytes_to_consume = 0 then Some b
      else let block_idx = NextBlockToRead b;
               bytes_available = min (ReadableBytes b) (u64_sub (GetBlockCapacity b block_idx) (ReadOffset b));
               bytes_read = min bytes_to_consume bytes_available;
               b1 = b\<lparr>total_bytes_read := u64_add (total_bytes_read b) bytes_read,
                      num_bytes_buffered := u64_sub (num_bytes_buffered b) bytes_read\<rparr>;
               b2 = (if bytes_available = bytes_read then snd (RetireBlockIfEmpty b1 block_idx) else b1)
           in MarkConsumed_loop b2 (bytes_to_consume - bytes_read))"

definition MarkConsumed :: "QuicStreamSequencerBuffer \<Rightarrow> nat \<Rightarrow> (bool \<times> QuicStreamSequencerBuffer) option" where
  "MarkConsumed b bytes_used =
     (if bytes_used > ReadableBytes b then Some (False, b)
      else map_option (\<lambda>b1. (True, b1\<lparr>total_bytes_prefetched := max (total_bytes_read b1) (total_bytes_prefetched b1)\<rparr>))
             (MarkConsumed_loop b bytes_used))"

definition FlushBufferedFrames :: "QuicStreamSequencerBuffer \<Rightarrow> nat \<times> QuicStreamSequencerBuffer" where
  "FlushBufferedFrames b =
     (let b1 = Clear (b\<lparr>total_bytes_read := NextExpectedByte b\<rparr>)
      in (u64_sub (total_bytes_read b1) (total_bytes_read b), b1))"

definition ReleaseWholeBuffer :: "QuicStreamSequencerBuffer \<Rightarrow> QuicStreamSequencerBuffer" where
  "ReleaseWholeBuffer b = (Clear b)\<lparr>buffer_blocks := None\<rparr>"

section \<open>Regions\<close>

text \<open>An \<open>iovec\<close> that points into a block: the index of the block, the offset within it, the length.\<close>

type_synonym iovec = "nat \<times> nat \<times> nat"

fun ReadableRegions_loop :: "QuicStreamSequencerBuffer \<Rightarrow> nat \<Rightarrow> nat \<Rightarrow> nat \<Rightarrow> nat \<Rightarrow> iovec list" where
  "ReadableRegions_loop b start_block_idx end_block_idx iov_used 0 = []"
| "ReadableRegions_loop b start_block_idx end_block_idx iov_used (Suc left) =
     (let block_idx = (start_block_idx + iov_used) mod blocks_count b
      in if block_idx \<noteq> end_block_idx
         then (block_idx, 0, GetBlockCapacity b block_idx)
                # ReadableRegions_loop b start_block_idx end_block_idx (iov_used + 1) left
         else [(end_block_idx, 0, GetInBlockOffset b (FirstMissingByte b - 1) + 1)])"

definition GetReadableRegions :: "QuicStreamSequencerBuffer \<Rightarrow> nat \<Rightarrow> iovec list" where
  "GetReadableRegions b iov_count =
     (if ReadableBytes b = 0 then []
      else let start_block_idx = NextBlockToRead b;
               readable_offset_end = u64_sub (FirstMissingByte b) 1;
               end_block_offset = GetInBlockOffset b readable_offset_end;
               end_block_idx = GetBlockIndex b readable_offset_end
           in if start_block_idx = end_block_idx \<and> ReadOffset b \<le> end_block_offset
              then [(start_block_idx, ReadOffset b, ReadableBytes b)]
              else (start_block_idx, ReadOffset b, u64_sub (GetBlockCapacity b start_block_idx) (ReadOffset b))
                   # ReadableRegions_loop b start_block_idx end_block_idx 1 (iov_count - 1))"

definition GetReadableRegion :: "QuicStreamSequencerBuffer \<Rightarrow> iovec option" where
  "GetReadableRegion b = (case GetReadableRegions b 1 of [iov] \<Rightarrow> Some iov | _ \<Rightarrow> None)"

definition PeekRegion :: "QuicStreamSequencerBuffer \<Rightarrow> nat \<Rightarrow> iovec option" where
  "PeekRegion b offset =
     (if offset < total_bytes_read b then None
      else if offset \<ge> FirstMissingByte b then None
      else let block_idx = GetBlockIndex b offset;
               block_offset = GetInBlockOffset b offset;
               end_block_idx = GetBlockIndex b (FirstMissingByte b)
           in Some (block_idx, block_offset,
                if block_idx = end_block_idx
                then u64_sub (GetInBlockOffset b (FirstMissingByte b)) block_offset
                else u64_sub (GetBlockCapacity b block_idx) block_offset))"

definition PrefetchNextRegion :: "QuicStreamSequencerBuffer \<Rightarrow> iovec option \<times> QuicStreamSequencerBuffer" where
  "PrefetchNextRegion b =
     (case PeekRegion b (total_bytes_prefetched b) of
        None \<Rightarrow> (None, b)
      | Some (idx, off, len) \<Rightarrow>
          (Some (idx, off, len), b\<lparr>total_bytes_prefetched := u64_add (total_bytes_prefetched b) len\<rparr>))"

section \<open>The ring\<close>

text \<open>
  Arithmetic of positions: \<open>C\<close> bytes in blocks of \<open>B\<close>, the last one perhaps shorter. The end of the
  block of position \<open>k\<close> is \<open>block_end C B k\<close>.
\<close>

definition block_end :: "nat \<Rightarrow> nat \<Rightarrow> nat \<Rightarrow> nat" where
  "block_end C B k = min ((k div B + 1) * B) C"

lemma block_end_bounds:
  assumes "0 < B" "k < C"
  shows "k < block_end C B k" "block_end C B k \<le> C"
proof -
  have "k < (k div B + 1) * B" using assms(1) by (metis Suc_eq_plus1 dividend_less_times_div mult.commute mult_Suc_right)
  then show "k < block_end C B k" "block_end C B k \<le> C" using assms(2) by (simp_all add: block_end_def)
qed

lemma block_capacity:
  assumes "0 < B" "k < C" "count = (C - 1) div B + 1"
  shows "(if k div B + 1 = count then (if C mod B = 0 then B else C mod B) else B) = block_end C B k - k div B * B"
proof (cases "k div B = (C - 1) div B")
  case True
  let ?q = "(C - 1) div B" and ?r = "(C - 1) mod B"
  have C: "C = ?q * B + (?r + 1)" using assms(2) div_mult_mod_eq [of "C - 1" B] by simp
  have r: "?r + 1 \<le> B" using assms(1) by (simp add: Suc_leI)
  have "(?q * B + (?r + 1)) mod B = (?r + 1) mod B" by (rule mod_mult_self3)
  then have "C mod B = (?r + 1) mod B" using C by argo
  then have "(if C mod B = 0 then B else C mod B) = ?r + 1" using r by (cases "?r + 1 = B") auto
  moreover have "C \<le> (?q + 1) * B" using C r by (simp only: add_mult_distrib)
  then have "block_end C B k = C" unfolding block_end_def True by (rule min.absorb2)
  ultimately show ?thesis using C assms(3) True by (metis add_diff_cancel_left')
next
  case False
  moreover have "k div B \<le> (C - 1) div B" using assms(2) by (intro div_le_mono) simp
  ultimately have "k div B < (C - 1) div B" by simp
  then have "(k div B + 1) * B \<le> (C - 1) div B * B" by (intro mult_right_mono) auto
  also have "\<dots> \<le> C - 1" by simp
  finally have "block_end C B k = (k div B + 1) * B" by (simp add: block_end_def)
  then show ?thesis using False assms(3) by simp
qed

lemma same_block:
  assumes "0 < B" "k \<le> j" "j < block_end C B k"
  shows "j div B = k div B" "j mod B = k mod B + (j - k)"
proof -
  have "k div B \<le> j div B" using assms(2) by (rule div_le_mono)
  moreover have "j div B < k div B + 1" using assms(3) by (simp add: block_end_def less_mult_imp_div_less)
  ultimately show d: "j div B = k div B" by simp
  have "j = k div B * B + j mod B" using div_mult_mod_eq [of j B] d by metis
  moreover have "k = k div B * B + k mod B" by simp
  ultimately show "j mod B = k mod B + (j - k)" using assms(2) by linarith
qed

lemma mod_run:
  assumes "(o1 :: nat) mod C + d < C"
  shows "(o1 + d) mod C = o1 mod C + d"
  using assms by (metis mod_add_left_eq mod_less)

text \<open>Within a window of one lap no two offsets share a position.\<close>

lemma window_inj:
  assumes "T \<le> x" "x < T + C" "T \<le> y" "y < T + C" "x mod C = y mod (C :: nat)"
  shows "x = y"
proof -
  have "x' = y'" if "x' \<le> y'" "y' < x' + C" "x' mod C = y' mod C" for x' y' :: nat
  proof -
    have "C dvd y' - x'" using that(1,3) by (metis mod_eq_dvd_iff_nat)
    moreover have "y' - x' < C" using that(1,2) by linarith
    ultimately have "y' - x' = 0" using nat_dvd_not_less by blast
    with that(1) show ?thesis by simp
  qed
  from this [of x y] this [of y x] show ?thesis using assms by (cases "x \<le> y") auto
qed

text \<open>
  The offsets of a window \<open>[T, T + C)\<close> that lie in the block of \<open>T - 1\<close>: those that follow in the same lap, and
  those from some point on to the end of the window, in the next lap.
\<close>

lemma block_of_previous:
  assumes "0 < B" "0 < C" "0 < T" "T \<le> x" "x < T + C"
    and blk: "(x mod C) div B = ((T - 1) mod C) div B"
  shows "(T - 1) mod C + (x - (T - 1)) < block_end C B ((T - 1) mod C)
    \<or> (\<forall>y. x \<le> y \<longrightarrow> y < T + C \<longrightarrow> (y mod C) div B = ((T - 1) mod C) div B)"
proof -
  define u where "u = T - 1"
  define r where "r = u mod C"
  have r: "r < C" using assms(2) by (simp add: r_def)
  have step: "z mod C = (r + (z - u)) mod C" if "x \<le> z" for z
  proof -
    have "z = u + (z - u)" using that assms(3,4) by (simp add: u_def)
    then show ?thesis unfolding r_def by (metis mod_add_left_eq)
  qed
  then have xm: "x mod C = (r + (x - u)) mod C" by blast
  show ?thesis
  proof (cases "r + (x - u) < C")
    case True
    then have "x mod C = r + (x - u)" using xm by simp
    then have "(r + (x - u)) div B = r div B" using blk by (simp add: r_def u_def)
    then have "r + (x - u) < (r div B + 1) * B"
      by (metis Suc_eq_plus1 assms(1) dividend_less_times_div mult.commute mult_Suc_right)
    with True show ?thesis by (simp add: block_end_def r_def u_def)
  next
    case False
    have "(y mod C) div B = r div B" if "x \<le> y" "y < T + C" for y
    proof -
      have y: "y mod C = r + (y - u) - C" "x mod C = r + (x - u) - C"
      proof -
        have "z mod C = r + (z - u) - C" if "x \<le> z" "z < T + C" for z
        proof -
          have "z mod C = (r + (z - u)) mod C" using that(1) by (rule step)
          moreover have "r + (z - u) - C < C" "C \<le> r + (z - u)" using that False r assms(3,4) by (auto simp: u_def)
          ultimately show ?thesis by (metis le_mod_geq mod_less)
        qed
        with that assms(5) show "y mod C = r + (y - u) - C" "x mod C = r + (x - u) - C" by auto
      qed
      have "x mod C \<le> y mod C" using y that by simp
      moreover have "y mod C \<le> r" using y that assms(3) by (simp add: u_def)
      ultimately have "(x mod C) div B \<le> (y mod C) div B" "(y mod C) div B \<le> r div B" by (simp_all add: div_le_mono)
      with blk show ?thesis by (simp add: r_def u_def)
    qed
    then show ?thesis by (simp add: r_def u_def)
  qed
qed

text \<open>The byte at a position of the ring, where there is memory for it.\<close>

definition ring_at :: "QuicStreamSequencerBuffer \<Rightarrow> nat \<Rightarrow> byte option" where
  "ring_at b k = (case block_at b (k div kBlockSizeBytes) of None \<Rightarrow> None | Some block \<Rightarrow> Some (block ! (k mod kBlockSizeBytes)))"

definition shape_ok :: "QuicStreamSequencerBuffer \<Rightarrow> bool" where
  "shape_ok b \<longleftrightarrow>
     0 < max_buffer_capacity_bytes b \<and> max_buffer_capacity_bytes b < 2 ^ 62
   \<and> blocks_count b = (max_buffer_capacity_bytes b - 1) div kBlockSizeBytes + 1
   \<and> (case buffer_blocks b of None \<Rightarrow> True
      | Some bs \<Rightarrow> length bs = blocks_count b \<and> (\<forall>block. Some block \<in> set bs \<longrightarrow> length block = kBlockSizeBytes))"

lemma kBlockSizeBytes_pos [simp]: "0 < kBlockSizeBytes"
  by (simp add: kBlockSizeBytes_def)

lemma CalculateBlockCount_eq:
  assumes "0 < C" "C < 2 ^ 62"
  shows "CalculateBlockCount C = (C - 1) div kBlockSizeBytes + 1"
proof -
  have "u64_sub (u64_add C kBlockSizeBytes) 1 = C - 1 + kBlockSizeBytes"
    using assms by (simp add: u64_add_small u64_sub_small kBlockSizeBytes_def)
  then show ?thesis unfolding CalculateBlockCount_def by (simp only:) (rule div_add_self2, simp add: kBlockSizeBytes_def)
qed

lemma index_less_count:
  assumes "shape_ok b" "k < max_buffer_capacity_bytes b"
  shows "k div kBlockSizeBytes < blocks_count b"
proof -
  have "k div kBlockSizeBytes \<le> (max_buffer_capacity_bytes b - 1) div kBlockSizeBytes"
    using assms(2) by (intro div_le_mono) simp
  then show ?thesis using assms(1) by (simp add: shape_ok_def)
qed

lemma room_in_block:
  assumes "shape_ok b" "k < max_buffer_capacity_bytes b"
  shows "u64_sub (GetBlockCapacity b (k div kBlockSizeBytes)) (k mod kBlockSizeBytes) =
    block_end (max_buffer_capacity_bytes b) kBlockSizeBytes k - k"
proof -
  let ?C = "max_buffer_capacity_bytes b" and ?B = kBlockSizeBytes
  have cap: "GetBlockCapacity b (k div ?B) = block_end ?C ?B k - k div ?B * ?B"
    unfolding GetBlockCapacity_def Let_def
    using block_capacity [OF kBlockSizeBytes_pos assms(2), of "blocks_count b"] assms(1)
    unfolding shape_ok_def by blast
  have k: "k = k div ?B * ?B + k mod ?B" by simp
  have e: "k < block_end ?C ?B k" "block_end ?C ?B k \<le> ?C"
    using block_end_bounds [OF kBlockSizeBytes_pos assms(2)] by auto
  have "?C < 2 ^ 62" using assms(1) by (simp add: shape_ok_def)
  then have "block_end ?C ?B k - k div ?B * ?B < 2 ^ 64" using e by simp
  moreover have "k mod ?B \<le> block_end ?C ?B k - k div ?B * ?B" using e k by linarith
  ultimately show ?thesis unfolding cap using u64_sub_small k by (metis diff_diff_left)
qed

lemma block_at_length:
  assumes "shape_ok b" "idx < blocks_count b" "block_at b idx = Some block"
  shows "length block = kBlockSizeBytes"
  using assms by (auto simp: shape_ok_def block_at_def split: option.splits) (metis nth_mem)

section \<open>Copying\<close>

text \<open>One round of the loop: part of the data goes to consecutive positions of one block.\<close>

definition copy_into :: "QuicStreamSequencerBuffer \<Rightarrow> nat \<Rightarrow> byte list \<Rightarrow> QuicStreamSequencerBuffer" where
  "copy_into b k bs =
     (let idx = k div kBlockSizeBytes;
          blks = (case buffer_blocks b of None \<Rightarrow> replicate (blocks_count b) None | Some blks \<Rightarrow> blks);
          block = (case blks ! idx of None \<Rightarrow> replicate kBlockSizeBytes 0 | Some block \<Rightarrow> block)
      in b\<lparr>buffer_blocks := Some (blks[idx := Some (memcpy block (k mod kBlockSizeBytes) bs)])\<rparr>)"

lemma copy_into_fields [simp]:
  "max_buffer_capacity_bytes (copy_into b k bs) = max_buffer_capacity_bytes b"
  "blocks_count (copy_into b k bs) = blocks_count b"
  "total_bytes_read (copy_into b k bs) = total_bytes_read b"
  "num_bytes_buffered (copy_into b k bs) = num_bytes_buffered b"
  "bytes_received (copy_into b k bs) = bytes_received b"
  "total_bytes_prefetched (copy_into b k bs) = total_bytes_prefetched b"
  by (simp_all add: copy_into_def Let_def)

lemma nth_memcpy:
  assumes "p + length bs \<le> length block" "j < length block"
  shows "memcpy block p bs ! j = (if p \<le> j \<and> j < p + length bs then bs ! (j - p) else block ! j)"
  using assms by (auto simp: memcpy_def nth_append)

lemma length_memcpy_fits: "p + length bs \<le> length block \<Longrightarrow> length (memcpy block p bs) = length block"
  by (simp add: memcpy_def)

lemma copy_into_correct:
  assumes ok: "shape_ok b" and k: "k < max_buffer_capacity_bytes b"
    and fit: "k + length bs \<le> block_end (max_buffer_capacity_bytes b) kBlockSizeBytes k"
  shows "shape_ok (copy_into b k bs)"
    and "i < length bs \<Longrightarrow> ring_at (copy_into b k bs) (k + i) = Some (bs ! i)"
    and "ring_at b j = Some v \<Longrightarrow> j < max_buffer_capacity_bytes b \<Longrightarrow> \<not> (k \<le> j \<and> j < k + length bs) \<Longrightarrow>
      ring_at (copy_into b k bs) j = Some v"
proof -
  let ?B = kBlockSizeBytes and ?C = "max_buffer_capacity_bytes b"
  let ?idx = "k div ?B"
  define blks where "blks = (case buffer_blocks b of None \<Rightarrow> replicate (blocks_count b) None | Some blks \<Rightarrow> blks)"
  define block where "block = (case blks ! ?idx of None \<Rightarrow> replicate ?B 0 | Some block \<Rightarrow> block)"
  have len: "length blks = blocks_count b" and all: "\<forall>blk. Some blk \<in> set blks \<longrightarrow> length blk = ?B"
    using ok by (auto simp: blks_def shape_ok_def split: option.splits)
  have idx: "?idx < length blks" using index_less_count [OF ok k] len by simp
  have lb: "length block = ?B" using all idx by (auto simp: block_def split: option.splits) (metis nth_mem)
  have "block_end ?C ?B k \<le> (?idx + 1) * ?B" by (simp add: block_end_def)
  moreover have "k = ?idx * ?B + k mod ?B" by simp
  ultimately have p: "k mod ?B + length bs \<le> ?B" using fit by (simp only: add_mult_distrib)
  have eq: "copy_into b k bs = b\<lparr>buffer_blocks := Some (blks[?idx := Some (memcpy block (k mod ?B) bs)])\<rparr>"
    by (simp add: copy_into_def Let_def blks_def block_def)
  have lm: "length (memcpy block (k mod ?B) bs) = ?B" using p lb by (simp add: length_memcpy_fits)
  show "shape_ok (copy_into b k bs)"
    using ok len all lm set_update_subset_insert [of blks ?idx "Some (memcpy block (k mod ?B) bs)"]
    by (auto simp: eq shape_ok_def)
  show "ring_at (copy_into b k bs) (k + i) = Some (bs ! i)" if i: "i < length bs"
  proof -
    have "(k + i) div ?B = ?idx" "(k + i) mod ?B = k mod ?B + i"
      using same_block [OF kBlockSizeBytes_pos, of k "k + i" ?C] fit i by simp_all
    then show ?thesis
      using idx i p lb by (simp add: ring_at_def block_at_def eq nth_memcpy)
  qed
  show "ring_at (copy_into b k bs) j = Some v"
    if j: "ring_at b j = Some v" "j < ?C" "\<not> (k \<le> j \<and> j < k + length bs)"
  proof -
    obtain blk where blk: "block_at b (j div ?B) = Some blk" "v = blk ! (j mod ?B)"
      using j(1) by (auto simp: ring_at_def split: option.splits)
    then have bb: "buffer_blocks b = Some blks" "blks ! (j div ?B) = Some blk"
      by (auto simp: block_at_def blks_def split: option.splits)
    show ?thesis
    proof (cases "j div ?B = ?idx")
      case False
      then show ?thesis using blk bb by (simp add: ring_at_def block_at_def eq)
    next
      case True
      then have "block = blk" using bb(2) by (simp add: block_def)
      moreover have "k = ?idx * ?B + k mod ?B" "j = ?idx * ?B + j mod ?B"
        using div_mult_mod_eq [of j ?B] unfolding True by simp_all
      then have "\<not> (k mod ?B \<le> j mod ?B \<and> j mod ?B < k mod ?B + length bs)" using j(3) by linarith
      moreover have "j mod ?B < ?B" by simp
      ultimately show ?thesis
        using True idx p lb blk(2) by (auto simp: ring_at_def block_at_def eq nth_memcpy)
    qed
  qed
qed

text \<open>What a copy may change: the memory, at the positions of the data and nowhere else that held a byte.\<close>

definition same_but_blocks :: "QuicStreamSequencerBuffer \<Rightarrow> QuicStreamSequencerBuffer \<Rightarrow> bool" where
  "same_but_blocks b b' \<longleftrightarrow> b' = b\<lparr>buffer_blocks := buffer_blocks b'\<rparr>"

lemma same_but_blocks_fields:
  assumes "same_but_blocks b b'"
  shows "max_buffer_capacity_bytes b' = max_buffer_capacity_bytes b" "blocks_count b' = blocks_count b"
    "total_bytes_read b' = total_bytes_read b" "num_bytes_buffered b' = num_bytes_buffered b"
    "bytes_received b' = bytes_received b" "total_bytes_prefetched b' = total_bytes_prefetched b"
  using assms unfolding same_but_blocks_def
  by (metis QuicStreamSequencerBuffer.ext_inject QuicStreamSequencerBuffer.surjective QuicStreamSequencerBuffer.update_convs(4))+

lemma same_but_blocks_trans: "same_but_blocks a b \<Longrightarrow> same_but_blocks b c \<Longrightarrow> same_but_blocks a c"
  unfolding same_but_blocks_def by (metis QuicStreamSequencerBuffer.surjective QuicStreamSequencerBuffer.update_convs(4))

lemma same_but_blocks_copy_into: "same_but_blocks b (copy_into b k bs)"
  by (simp add: same_but_blocks_def copy_into_def Let_def)

lemma same_but_blocks_refl: "same_but_blocks b b"
  by (simp add: same_but_blocks_def)

definition copied :: "QuicStreamSequencerBuffer \<Rightarrow> nat \<Rightarrow> byte list \<Rightarrow> QuicStreamSequencerBuffer \<Rightarrow> bool" where
  "copied b offset source b' \<longleftrightarrow>
     shape_ok b' \<and> same_but_blocks b b'
   \<and> (\<forall>i < length source. ring_at b' ((offset + i) mod max_buffer_capacity_bytes b) = Some (source ! i))
   \<and> (\<forall>j v. ring_at b j = Some v \<longrightarrow> j < max_buffer_capacity_bytes b \<longrightarrow>
        (\<forall>i < length source. j \<noteq> (offset + i) mod max_buffer_capacity_bytes b) \<longrightarrow> ring_at b' j = Some v)"

lemma CopyStreamData_loop_correct:
  assumes "shape_ok b" "total_bytes_read b \<le> offset" "offset + length source \<le> total_bytes_read b + max_buffer_capacity_bytes b"
    and "total_bytes_read b < 2 ^ 62"
  shows "\<exists>b'. CopyStreamData_loop b offset source n = Some (True, n + length source, b') \<and> copied b offset source b'"
  using assms
proof (induction "length source" arbitrary: b offset source n rule: less_induct)
  case less
  let ?C = "max_buffer_capacity_bytes b" and ?B = kBlockSizeBytes
  show ?case
  proof (cases "source = []")
    case True
    moreover have "CopyStreamData_loop b offset [] n = Some (True, n, b)"
      by (subst CopyStreamData_loop.simps) simp
    moreover have "copied b offset [] b" using less.prems(1) by (simp add: copied_def same_but_blocks_refl)
    ultimately show ?thesis by auto
  next
    case False
    define k where "k = offset mod ?C"
    define room where "room = block_end ?C ?B k - k"
    define limit where "limit = total_bytes_read b + ?C"
    define avail where "avail = (if offset + room > limit then limit - offset else room)"
    define m where "m = min avail (length source)"
    have C: "0 < ?C" "?C < 2 ^ 62" using less.prems(1) by (simp_all add: shape_ok_def)
    have k: "k < ?C" using C by (simp add: k_def)
    have room: "0 < room" "k + room = block_end ?C ?B k" "room \<le> ?C"
      using block_end_bounds [OF kBlockSizeBytes_pos k] by (simp_all add: room_def)
    have off: "offset < limit" using less.prems(3) False by (auto simp: limit_def) (metis length_greater_0_conv less_le_trans add.commute less_add_same_cancel2)
    have m: "0 < m" "m \<le> length source" "m \<le> room"
      using room off False by (auto simp: m_def avail_def)
    have words: "u64_add (total_bytes_read b) ?C = limit" "u64_add offset room = offset + room"
      "u64_sub limit offset = limit - offset" "u64_add offset m = offset + m"
      using less.prems(2-4) C room off m by (simp_all add: u64_add_small u64_sub_small limit_def)
    have rb: "u64_sub (GetBlockCapacity b (GetBlockIndex b offset)) (GetInBlockOffset b offset) = room"
      using room_in_block [OF less.prems(1) k] by (simp add: GetBlockIndex_def GetInBlockOffset_def k_def room_def)
    have idx: "\<not> GetBlockIndex b offset \<ge> blocks_count b"
      using index_less_count [OF less.prems(1) k] by (simp add: GetBlockIndex_def k_def)
    let ?b1 = "copy_into b k (take m source)"
    have step: "CopyStreamData_loop b offset source n = CopyStreamData_loop ?b1 (offset + m) (drop m source) (n + m)"
    proof -
      have av: "min (if limit < offset + room then limit - offset else room) (length source) = m"
        by (simp add: m_def avail_def)
      have pos: "GetBlockIndex b offset = k div ?B" "GetInBlockOffset b offset = k mod ?B"
        by (simp_all add: GetBlockIndex_def GetInBlockOffset_def k_def)
      note rb' = rb [unfolded pos] and idx' = idx [unfolded pos]
      show ?thesis
        by (subst CopyStreamData_loop.simps)
          (simp only: False if_False Let_def pos rb' idx' words(1-3) av words(4) copy_into_def)
    qed
    have fit: "k + length (take m source) \<le> block_end ?C ?B k" using m room by simp
    note c1 = copy_into_correct [OF less.prems(1) k fit]
    obtain b' where b': "CopyStreamData_loop ?b1 (offset + m) (drop m source) (n + m) =
        Some (True, n + m + length (drop m source), b')" "copied ?b1 (offset + m) (drop m source) b'"
    proof -
      have lt: "length (drop m source) < length source" using m(1,2) by simp
      have "\<exists>b'. CopyStreamData_loop ?b1 (offset + m) (drop m source) (n + m) =
          Some (True, n + m + length (drop m source), b') \<and> copied ?b1 (offset + m) (drop m source) b'"
        by (rule less.hyps [OF lt c1(1)]) (use less.prems m in simp_all)
      then show thesis using that by blast
    qed
    have pos: "(offset + i) mod ?C = k + i" if "i < m" for i
      using mod_run [of offset ?C i] that m(3) room(2) block_end_bounds(2) [OF kBlockSizeBytes_pos k]
      by (simp add: k_def)
    have "copied b offset source b'"
    proof -
      have second: "shape_ok b'" "same_but_blocks ?b1 b'"
        "\<And>i. i < length source - m \<Longrightarrow> ring_at b' ((offset + m + i) mod ?C) = Some (source ! (m + i))"
        "\<And>j v. ring_at ?b1 j = Some v \<Longrightarrow> j < ?C \<Longrightarrow> \<forall>i < length source - m. j \<noteq> (offset + m + i) mod ?C \<Longrightarrow>
          ring_at b' j = Some v"
        using b'(2) m(2) by (auto simp: copied_def)
      have apart: "(offset + i) mod ?C \<noteq> (offset + m + i') mod ?C" if "i < m" "i' < length source - m" for i i'
      proof
        assume eq: "(offset + i) mod ?C = (offset + m + i') mod ?C"
        have "offset + i = offset + m + i'"
          by (rule window_inj [OF _ _ _ _ eq, of offset]) (use that less.prems(2,3) in linarith)+
        with that(1) show False by simp
      qed
      have data: "ring_at b' ((offset + i) mod ?C) = Some (source ! i)" if i: "i < length source" for i
      proof (cases "i < m")
        case True
        then have "ring_at ?b1 ((offset + i) mod ?C) = Some (source ! i)"
          using c1(2) [of i] pos [of i] i by simp
        then show ?thesis by (rule second(4)) (use C(1) apart [OF True] in simp_all)
      next
        case False
        then show ?thesis using second(3) [of "i - m"] i by (simp add: add.assoc)
      qed
      have rest: "ring_at b' j = Some v"
        if "ring_at b j = Some v" "j < ?C" "\<forall>i < length source. j \<noteq> (offset + i) mod ?C" for j v
      proof -
        have "\<not> (k \<le> j \<and> j < k + length (take m source))"
        proof
          assume "k \<le> j \<and> j < k + length (take m source)"
          then have "j - k < m" "j = k + (j - k)" by auto
          then have "j - k < length source" "j = (offset + (j - k)) mod ?C" using pos [of "j - k"] m(2) by simp_all
          with that(3) show False by blast
        qed
        from c1(3) [OF that(1,2) this] show ?thesis
        proof (rule second(4) [OF _ that(2)], intro allI impI)
          fix i assume "i < length source - m"
          then have "m + i < length source" by simp
          with that(3) have "j \<noteq> (offset + (m + i)) mod ?C" by blast
          then show "j \<noteq> (offset + m + i) mod ?C" by (simp add: add.assoc)
        qed
      qed
      show ?thesis
        unfolding copied_def
        using second(1) same_but_blocks_trans [OF same_but_blocks_copy_into second(2)] data rest by (intro conjI) auto
    qed
    moreover have "n + m + length (drop m source) = n + length source" using m(2) by simp
    ultimately show ?thesis using step b'(1) by metis
  qed
qed

end
