(* ===== verification/Quic_Sequencer_Reading.thy ===== *)
theory Quic_Sequencer_Reading
  imports Quic_Sequencer_Buffer
begin

text \<open>
  Reading from the sequencer buffer: the invariant of a buffer that receives a stream, the blocks that a read may
  retire, and that every reading operation returns and hands out the next bytes of the stream.
\<close>

section \<open>The invariant\<close>

text \<open>
  The state of a buffer that receives the stream \<open>s\<close>: the offsets read are a prefix of the offsets received,
  everything received lies in the stream and in the window, and every byte received and not yet read is in its
  position of the ring.
\<close>

definition received_ok :: "byte list \<Rightarrow> QuicStreamSequencerBuffer \<Rightarrow> bool" where
  "received_ok s b \<longleftrightarrow>
     length s < 2 ^ 62 \<and> Valid (bytes_received b)
   \<and> {0 ..< total_bytes_read b} \<subseteq> set_points (bytes_received b)
   \<and> set_points (bytes_received b) \<subseteq> {0 ..< length s}
   \<and> set_points (bytes_received b) \<subseteq> {0 ..< total_bytes_read b + max_buffer_capacity_bytes b}"

definition unread :: "QuicStreamSequencerBuffer \<Rightarrow> nat set" where
  "unread b = {x \<in> set_points (bytes_received b). total_bytes_read b \<le> x}"

definition ring_ok :: "byte list \<Rightarrow> QuicStreamSequencerBuffer \<Rightarrow> bool" where
  "ring_ok s b \<longleftrightarrow> (\<forall>x \<in> unread b. ring_at b (x mod max_buffer_capacity_bytes b) = Some (s ! x))"

definition seq_ok :: "byte list \<Rightarrow> QuicStreamSequencerBuffer \<Rightarrow> bool" where
  "seq_ok s b \<longleftrightarrow> shape_ok b \<and> received_ok s b \<and> ring_ok s b \<and> num_bytes_buffered b = card (unread b)"

lemma seq_ok_simps:
  assumes "seq_ok s b"
  shows "shape_ok b" "received_ok s b" "ring_ok s b" "num_bytes_buffered b = card (unread b)"
    "0 < max_buffer_capacity_bytes b" "max_buffer_capacity_bytes b < 2 ^ 62" "length s < 2 ^ 62"
    "Valid (bytes_received b)" "{0 ..< total_bytes_read b} \<subseteq> set_points (bytes_received b)"
    "set_points (bytes_received b) \<subseteq> {0 ..< length s}"
    "set_points (bytes_received b) \<subseteq> {0 ..< total_bytes_read b + max_buffer_capacity_bytes b}"
  using assms by (simp_all add: seq_ok_def received_ok_def shape_ok_def)

text \<open>The first missing byte, the end of what is received, and the start of the second interval.\<close>

lemma FirstMissingByte_facts:
  assumes "Valid (bytes_received b)"
  shows "{0 ..< FirstMissingByte b} \<subseteq> set_points (bytes_received b)"
    and "FirstMissingByte b \<notin> set_points (bytes_received b)"
proof -
  consider "bytes_received b = []" | i S where "bytes_received b = i # S" by (cases "bytes_received b") auto
  then have "{0 ..< FirstMissingByte b} \<subseteq> set_points (bytes_received b)
    \<and> FirstMissingByte b \<notin> set_points (bytes_received b)"
  proof cases
    case (2 i S)
    then have "imin i < imax i" "\<forall>j \<in> set S. imax i < imin j" using assms by (simp_all add: Valid_Cons)
    with 2 show ?thesis
      by (auto simp: FirstMissingByte_def set_points_def points_def)
  qed (simp add: FirstMissingByte_def)
  then show "{0 ..< FirstMissingByte b} \<subseteq> set_points (bytes_received b)"
    "FirstMissingByte b \<notin> set_points (bytes_received b)" by auto
qed

lemma NextExpectedByte_facts:
  assumes "Valid (bytes_received b)" "bytes_received b \<noteq> []"
  shows "0 < NextExpectedByte b" "NextExpectedByte b - 1 \<in> set_points (bytes_received b)"
    "set_points (bytes_received b) \<subseteq> {0 ..< NextExpectedByte b}"
proof -
  obtain S i where R: "bytes_received b = S @ [i]" using assms(2) by (cases "bytes_received b" rule: rev_cases) auto
  have i: "imin i < imax i" "\<forall>j \<in> set S. imax j < imin i"
    using assms(1) R by (auto simp: Valid_append Valid_Cons)
  then show "0 < NextExpectedByte b" "NextExpectedByte b - 1 \<in> set_points (bytes_received b)"
    by (auto simp: NextExpectedByte_def R points_def)
  show "set_points (bytes_received b) \<subseteq> {0 ..< NextExpectedByte b}"
    using i by (fastforce simp: NextExpectedByte_def R points_def set_points_def)
qed

lemma second_interval_facts:
  assumes "Valid (bytes_received b)" "1 < length (bytes_received b)" "0 \<in> set_points (bytes_received b)"
  shows "imin (bytes_received b ! 1) \<in> set_points (bytes_received b)" "FirstMissingByte b < imin (bytes_received b ! 1)"
    "\<And>x. x \<in> set_points (bytes_received b) \<Longrightarrow> FirstMissingByte b \<le> x \<Longrightarrow> imin (bytes_received b ! 1) \<le> x"
proof -
  obtain i j S where R: "bytes_received b = i # j # S"
    using assms(2) by (cases "bytes_received b" rule: remdups_adj.cases) auto
  have v: "imin i < imax i" "imax i < imin j" "imin j < imax j" "\<forall>k \<in> set S. imax j < imin k"
    using assms(1) R by (auto simp: Valid_Cons)
  have "imin i = 0"
    using assms(3) v by (fastforce simp: R points_def set_points_def)
  then show "imin (bytes_received b ! 1) \<in> set_points (bytes_received b)" "FirstMissingByte b < imin (bytes_received b ! 1)"
    "\<And>x. x \<in> set_points (bytes_received b) \<Longrightarrow> FirstMissingByte b \<le> x \<Longrightarrow> imin (bytes_received b ! 1) \<le> x"
    using v by (fastforce simp: R FirstMissingByte_def points_def set_points_def)+
qed

lemma readable_facts:
  assumes "received_ok s b"
  shows "total_bytes_read b \<le> FirstMissingByte b" "FirstMissingByte b \<le> length s"
    "FirstMissingByte b \<le> total_bytes_read b + max_buffer_capacity_bytes b"
    "ReadableBytes b = FirstMissingByte b - total_bytes_read b"
    "total_bytes_read b \<le> length s" "total_bytes_read b < 2 ^ 62"
proof -
  let ?F = "FirstMissingByte b" and ?T = "total_bytes_read b" and ?R = "set_points (bytes_received b)"
  have V: "Valid (bytes_received b)" and sub: "{0 ..< ?T} \<subseteq> ?R" "?R \<subseteq> {0 ..< length s}"
    "?R \<subseteq> {0 ..< ?T + max_buffer_capacity_bytes b}" and s: "length s < 2 ^ 62"
    using assms by (simp_all add: received_ok_def)
  note F = FirstMissingByte_facts [OF V]
  show le: "?T \<le> ?F" using F(2) sub(1) by (meson atLeastLessThan_iff in_mono le0 not_less)
  have "{0 ..< ?F} \<subseteq> {0 ..< length s}" using F(1) sub(2) by (rule subset_trans)
  then show fs: "?F \<le> length s" by (cases "?F = 0") auto
  have "{0 ..< ?F} \<subseteq> {0 ..< ?T + max_buffer_capacity_bytes b}" using F(1) sub(3) by (rule subset_trans)
  then show "?F \<le> ?T + max_buffer_capacity_bytes b" by (cases "?F = 0") auto
  show "ReadableBytes b = ?F - ?T" unfolding ReadableBytes_def using le fs s by (intro u64_sub_small) simp_all
  show "?T \<le> length s" "?T < 2 ^ 62" using le fs s by simp_all
qed

lemma unread_readable:
  assumes "received_ok s b" "total_bytes_read b \<le> x" "x < FirstMissingByte b"
  shows "x \<in> unread b"
  using assms FirstMissingByte_facts(1) [of b] by (auto simp: unread_def received_ok_def)

section \<open>Retiring blocks\<close>

lemma same_lap:
  assumes "0 < B" "0 < C" "u \<le> y" "y \<le> x" "u mod C + (x - u) < block_end C B (u mod C)"
  shows "(y mod C) div B = (u mod C) div B"
proof -
  have "u mod C + (y - u) < block_end C B (u mod C)" using assms(3-5) by simp
  moreover from this have "(u + (y - u)) mod C = u mod C + (y - u)"
    by (intro mod_run) (simp add: block_end_def)
  ultimately show ?thesis
    using same_block(1) [OF assms(1), of "u mod C" "u mod C + (y - u)" C] assms(3) by simp
qed

text \<open>
  A block is retired after a read that ended at \<open>T - 1\<close>, either because nothing more can be read or because the
  read reached the end of the block: then no byte that is still to be read lies in a retired block.
\<close>

definition retire_point :: "QuicStreamSequencerBuffer \<Rightarrow> bool" where
  "retire_point b \<longleftrightarrow> 0 < total_bytes_read b \<and>
     (total_bytes_read b = FirstMissingByte b \<or>
      block_end (max_buffer_capacity_bytes b) kBlockSizeBytes ((total_bytes_read b - 1) mod max_buffer_capacity_bytes b)
        = (total_bytes_read b - 1) mod max_buffer_capacity_bytes b + 1)"

definition block_unused :: "QuicStreamSequencerBuffer \<Rightarrow> nat \<Rightarrow> bool" where
  "block_unused b idx \<longleftrightarrow> (\<forall>x \<in> unread b. GetBlockIndex b x \<noteq> idx)"

lemma unread_in_window: "received_ok s b \<Longrightarrow> x \<in> unread b \<Longrightarrow> x < total_bytes_read b + max_buffer_capacity_bytes b"
  by (auto simp: unread_def received_ok_def)

lemma unread_of_last_block:
  assumes ok: "shape_ok b" "received_ok s b" and T: "0 < total_bytes_read b"
    and idx: "GetBlockIndex b (total_bytes_read b - 1) = idx"
    and last: "GetBlockIndex b (u64_sub (NextExpectedByte b) 1) \<noteq> idx"
    and x: "x \<in> unread b" "GetBlockIndex b x = idx"
  shows "(total_bytes_read b - 1) mod max_buffer_capacity_bytes b + (x - (total_bytes_read b - 1))
    < block_end (max_buffer_capacity_bytes b) kBlockSizeBytes ((total_bytes_read b - 1) mod max_buffer_capacity_bytes b)"
proof -
  let ?C = "max_buffer_capacity_bytes b" and ?T = "total_bytes_read b" and ?N = "NextExpectedByte b"
  have C: "0 < ?C" using ok(1) by (simp add: shape_ok_def)
  have V: "Valid (bytes_received b)" and sub: "set_points (bytes_received b) \<subseteq> {0 ..< ?T + ?C}"
    "set_points (bytes_received b) \<subseteq> {0 ..< length s}" "length s < 2 ^ 62"
    using ok(2) by (simp_all add: received_ok_def)
  have xR: "x \<in> set_points (bytes_received b)" "?T \<le> x" using x(1) by (simp_all add: unread_def)
  then have ne: "bytes_received b \<noteq> []" by auto
  note N = NextExpectedByte_facts [OF V ne]
  have "?N - 1 < ?T + ?C" "?N - 1 < length s" "x \<le> ?N - 1" using N xR sub by (auto simp: subset_iff)
  moreover from this N(1) sub(3) have "u64_sub ?N 1 = ?N - 1" by (intro u64_sub_small) simp_all
  ultimately show ?thesis
    using block_of_previous [OF kBlockSizeBytes_pos C T xR(2), of] unread_in_window [OF ok(2) x(1)] x(2) idx last
    unfolding GetBlockIndex_def by metis
qed

lemma RetireBlockIfEmpty_safe:
  assumes ok: "shape_ok b" "received_ok s b" and point: "retire_point b"
    and idx: "GetBlockIndex b (total_bytes_read b - 1) = idx"
  shows "RetireBlockIfEmpty b idx = (True, b) \<or> RetireBlockIfEmpty b idx = RetireBlock b idx \<and> block_unused b idx"
proof -
  let ?C = "max_buffer_capacity_bytes b" and ?T = "total_bytes_read b" and ?R = "bytes_received b"
  let ?u = "?T - 1"
  have C: "0 < ?C" and V: "Valid ?R" and sub: "{0 ..< ?T} \<subseteq> set_points ?R"
    using ok by (simp_all add: shape_ok_def received_ok_def)
  have T: "0 < ?T" using point by (simp add: retire_point_def)
  have zero: "0 \<in> set_points ?R" using T sub by auto
  then have ne: "?R \<noteq> []" by auto
  note lap = same_lap [OF kBlockSizeBytes_pos C, of ?u]
  note near = unread_of_last_block [OF ok T idx]
  consider "Buffer_Empty b" | "\<not> Buffer_Empty b" "GetBlockIndex b (u64_sub (NextExpectedByte b) 1) = idx"
    | (same) "\<not> Buffer_Empty b" "GetBlockIndex b (u64_sub (NextExpectedByte b) 1) \<noteq> idx" "NextBlockToRead b = idx"
    | (other) "\<not> Buffer_Empty b" "GetBlockIndex b (u64_sub (NextExpectedByte b) 1) \<noteq> idx" "NextBlockToRead b \<noteq> idx"
    by blast
  then show ?thesis
  proof cases
    case 1
    then obtain i where "?R = [i]" "imax i = ?T" using ne by (auto simp: Buffer_Empty_def length_Suc_conv)
    then have "unread b = {}" by (auto simp: unread_def points_def)
    with 1 show ?thesis by (simp add: RetireBlockIfEmpty_def block_unused_def)
  next
    case 2
    then show ?thesis by (simp add: RetireBlockIfEmpty_def)
  next
    case other
    have "block_unused b idx"
      unfolding block_unused_def
    proof
      fix x assume x: "x \<in> unread b"
      show "GetBlockIndex b x \<noteq> idx"
      proof
        assume xi: "GetBlockIndex b x = idx"
        have Tx: "?T \<le> x" using x by (simp add: unread_def)
        have "GetBlockIndex b ?T = GetBlockIndex b ?u"
          unfolding GetBlockIndex_def by (rule lap [OF _ Tx near [OF other(2) x xi]]) simp
        with other(3) idx show False unfolding NextBlockToRead_def by simp
      qed
    qed
    with other show ?thesis by (simp add: RetireBlockIfEmpty_def)
  next
    case same
    have at_F: "?T = FirstMissingByte b" if x: "x \<in> unread b" "GetBlockIndex b x = idx" for x
    proof -
      have "?u mod ?C + (x - ?u) < block_end ?C kBlockSizeBytes (?u mod ?C)" by (rule near [OF same(2) x])
      moreover have "?T \<le> x" using x(1) by (simp add: unread_def)
      then have "1 \<le> x - ?u" using T by linarith
      ultimately have "block_end ?C kBlockSizeBytes (?u mod ?C) \<noteq> ?u mod ?C + 1" by linarith
      with point show ?thesis unfolding retire_point_def by blast
    qed
    show ?thesis
    proof (cases "1 < length ?R")
      case True
      note two = second_interval_facts [OF V True zero]
      let ?m = "imin (?R ! 1)"
      have "block_unused b idx" if m: "GetBlockIndex b ?m \<noteq> idx"
        unfolding block_unused_def
      proof
        fix x assume x: "x \<in> unread b"
        show "GetBlockIndex b x \<noteq> idx"
        proof
          assume xi: "GetBlockIndex b x = idx"
          have "FirstMissingByte b \<le> x" "x \<in> set_points ?R"
            using x unfolding unread_def at_F [OF x xi, symmetric] by simp_all
          then have "?m \<le> x" by (intro two(3))
          moreover have "?u \<le> ?m" using two(2) unfolding at_F [OF x xi, symmetric] by linarith
          ultimately have "GetBlockIndex b ?m = GetBlockIndex b ?u"
            unfolding GetBlockIndex_def by (intro lap [OF _ _ near [OF same(2) x xi]])
          with m idx show False by simp
        qed
      qed
      moreover have "RetireBlockIfEmpty b idx = (if GetBlockIndex b ?m = idx then (True, b) else RetireBlock b idx)"
        unfolding RetireBlockIfEmpty_def using same True by (simp only: if_True if_False refl)
      ultimately show ?thesis by presburger
    next
      case False
      then obtain i where i: "?R = [i]" using ne by (cases ?R) auto
      then have "imin i = 0" using zero by (simp add: points_def)
      then have F: "FirstMissingByte b = imax i" by (simp add: FirstMissingByte_def i)
      have "imax i \<noteq> ?T" using same(1) T i by (simp add: Buffer_Empty_def)
      with readable_facts(1) [OF ok(2)] F have lt: "?T < FirstMissingByte b" by simp
      then have "?T \<in> unread b" by (intro unread_readable [OF ok(2)]) simp_all
      then have "?T = FirstMissingByte b" using same(3) unfolding NextBlockToRead_def by (rule at_F)
      with lt show ?thesis by simp
    qed
  qed
qed

section \<open>One step of reading\<close>

text \<open>The counters after \<open>n\<close> bytes are taken; both loops of the code make this step.\<close>

definition consume :: "QuicStreamSequencerBuffer \<Rightarrow> nat \<Rightarrow> QuicStreamSequencerBuffer" where
  "consume b n = b\<lparr>total_bytes_read := u64_add (total_bytes_read b) n,
                   num_bytes_buffered := u64_sub (num_bytes_buffered b) n\<rparr>"

definition in_block :: "QuicStreamSequencerBuffer \<Rightarrow> nat" where
  "in_block b = min (ReadableBytes b) (u64_sub (GetBlockCapacity b (NextBlockToRead b)) (ReadOffset b))"

lemma in_block_eq:
  assumes "seq_ok s b"
  shows "in_block b = min (FirstMissingByte b - total_bytes_read b)
    (block_end (max_buffer_capacity_bytes b) kBlockSizeBytes (total_bytes_read b mod max_buffer_capacity_bytes b)
       - total_bytes_read b mod max_buffer_capacity_bytes b)"
proof -
  note f = seq_ok_simps [OF assms]
  have "total_bytes_read b mod max_buffer_capacity_bytes b < max_buffer_capacity_bytes b" using f(5) by simp
  from room_in_block [OF f(1) this] readable_facts(4) [OF f(2)] show ?thesis
    by (simp add: in_block_def NextBlockToRead_def ReadOffset_def GetBlockIndex_def GetInBlockOffset_def)
qed

lemma in_block_pos:
  assumes "seq_ok s b" "0 < ReadableBytes b"
  shows "0 < in_block b" "in_block b \<le> ReadableBytes b"
proof -
  note f = seq_ok_simps [OF assms(1)]
  have "total_bytes_read b mod max_buffer_capacity_bytes b < max_buffer_capacity_bytes b" using f(5) by simp
  from block_end_bounds(1) [OF kBlockSizeBytes_pos this] assms(2) show "0 < in_block b"
    unfolding in_block_eq [OF assms(1)] readable_facts(4) [OF f(2)] by simp
  show "in_block b \<le> ReadableBytes b" by (simp add: in_block_def)
qed

lemma unread_finite [simp]: "finite (unread b)"
  by (simp add: unread_def set_points_def points_def)

lemma unread_consume:
  assumes "seq_ok s b" "n \<le> ReadableBytes b"
  shows "total_bytes_read (consume b n) = total_bytes_read b + n"
    and "unread b = unread (consume b n) \<union> {total_bytes_read b ..< total_bytes_read b + n}"
    and "num_bytes_buffered (consume b n) = card (unread (consume b n))"
proof -
  let ?T = "total_bytes_read b"
  note f = seq_ok_simps [OF assms(1)] and r = readable_facts [OF seq_ok_simps(2) [OF assms(1)]]
  have n: "?T + n \<le> FirstMissingByte b" using assms(2) r(1,4) by linarith
  show T: "total_bytes_read (consume b n) = ?T + n"
    using n r(2) f(7) by (simp add: consume_def u64_add_small)
  have "{?T ..< ?T + n} \<subseteq> unread b" using unread_readable [OF f(2)] n by auto
  then show U: "unread b = unread (consume b n) \<union> {?T ..< ?T + n}"
    by (auto simp: unread_def T) (auto simp: consume_def)
  have "unread (consume b n) \<inter> {?T ..< ?T + n} = {}" by (auto simp: unread_def T)
  then have c: "card (unread b) = card (unread (consume b n)) + n"
    unfolding U using card_Un_disjoint [of "unread (consume b n)" "{?T ..< ?T + n}"] by simp
  have "unread b \<subseteq> {0 ..< length s}" using f(10) by (auto simp: unread_def)
  then have "card (unread b) \<le> length s" using card_mono [of "{0 ..< length s}"] by fastforce
  then have "u64_sub (num_bytes_buffered b) n = card (unread b) - n"
    unfolding f(4) using c f(7) by (intro u64_sub_small) simp_all
  then show "num_bytes_buffered (consume b n) = card (unread (consume b n))"
    using c by (simp add: consume_def)
qed

lemma seq_ok_consume:
  assumes "seq_ok s b" "n \<le> ReadableBytes b"
  shows "seq_ok s (consume b n)"
proof -
  note f = seq_ok_simps [OF assms(1)] and r = readable_facts [OF seq_ok_simps(2) [OF assms(1)]]
  note u = unread_consume [OF assms]
  have keep: "bytes_received (consume b n) = bytes_received b" "max_buffer_capacity_bytes (consume b n) = max_buffer_capacity_bytes b"
    "buffer_blocks (consume b n) = buffer_blocks b" "blocks_count (consume b n) = blocks_count b"
    by (simp_all add: consume_def)
  have "shape_ok (consume b n)" using f(1) unfolding shape_ok_def keep .
  moreover have "total_bytes_read b + n \<le> FirstMissingByte b" using assms(2) r(1,4) by linarith
  then have "{0 ..< total_bytes_read b + n} \<subseteq> {0 ..< FirstMissingByte b}" by simp
  then have "{0 ..< total_bytes_read b + n} \<subseteq> set_points (bytes_received b)"
    using FirstMissingByte_facts(1) [OF f(8)] by (rule subset_trans)
  then have "received_ok s (consume b n)"
    using f(7,8,10,11) by (auto simp: received_ok_def keep u(1))
  moreover have "ring_ok s (consume b n)"
    using f(3) u(2) by (simp add: ring_ok_def ring_at_def block_at_def keep)
  ultimately show ?thesis using u(3) by (simp add: seq_ok_def)
qed

text \<open>What a retired block leaves.\<close>

lemma seq_ok_retire:
  assumes ok: "seq_ok s b" and un: "block_unused b idx"
  shows "seq_ok s (snd (RetireBlock b idx))"
    and "total_bytes_read (snd (RetireBlock b idx)) = total_bytes_read b"
    and "bytes_received (snd (RetireBlock b idx)) = bytes_received b"
    and "total_bytes_prefetched (snd (RetireBlock b idx)) = total_bytes_prefetched b"
    and "max_buffer_capacity_bytes (snd (RetireBlock b idx)) = max_buffer_capacity_bytes b"
proof -
  note f = seq_ok_simps [OF ok]
  let ?b = "snd (RetireBlock b idx)"
  have keep: "bytes_received ?b = bytes_received b" "max_buffer_capacity_bytes ?b = max_buffer_capacity_bytes b"
    "blocks_count ?b = blocks_count b" "total_bytes_read ?b = total_bytes_read b" "num_bytes_buffered ?b = num_bytes_buffered b"
    "total_bytes_prefetched ?b = total_bytes_prefetched b"
    by (simp_all add: RetireBlock_def)
  show "total_bytes_read ?b = total_bytes_read b" "bytes_received ?b = bytes_received b"
    "total_bytes_prefetched ?b = total_bytes_prefetched b" "max_buffer_capacity_bytes ?b = max_buffer_capacity_bytes b"
    by (fact keep)+
  have u: "unread ?b = unread b" by (simp add: unread_def keep)
  have "shape_ok ?b"
    using f(1) set_update_subset_insert [of _ idx None] unfolding shape_ok_def keep
    by (fastforce simp: RetireBlock_def split: option.splits)
  moreover have "received_ok s ?b" using f(2) by (simp add: received_ok_def keep)
  moreover have "ring_ok s ?b"
    unfolding ring_ok_def u keep
  proof
    fix x assume x: "x \<in> unread b"
    let ?k = "x mod max_buffer_capacity_bytes b"
    have "ring_at b ?k = Some (s ! x)" using f(3) x by (simp add: ring_ok_def)
    moreover have "?k div kBlockSizeBytes \<noteq> idx" using un x by (simp add: block_unused_def GetBlockIndex_def)
    ultimately show "ring_at ?b ?k = Some (s ! x)"
      by (auto simp: ring_at_def block_at_def RetireBlock_def split: option.splits)
  qed
  ultimately show "seq_ok s ?b" using f(4) by (simp add: seq_ok_def keep u)
qed

lemma ring_block:
  assumes "ring_at b k = Some v"
  shows "block_at b (k div kBlockSizeBytes) \<noteq> None"
  using assms by (auto simp: ring_at_def split: option.splits)

text \<open>After a step the block is retired if the step took all it could; the retirement succeeds.\<close>

definition advanced :: "byte list \<Rightarrow> QuicStreamSequencerBuffer \<Rightarrow> nat \<Rightarrow> QuicStreamSequencerBuffer \<Rightarrow> bool" where
  "advanced s b n b' \<longleftrightarrow> seq_ok s b' \<and> total_bytes_read b' = total_bytes_read b + n
     \<and> bytes_received b' = bytes_received b \<and> total_bytes_prefetched b' = total_bytes_prefetched b
     \<and> max_buffer_capacity_bytes b' = max_buffer_capacity_bytes b"

lemma advanced_refl: "seq_ok s b \<Longrightarrow> advanced s b 0 b"
  by (simp add: advanced_def)

lemma advanced_trans: "advanced s b m b1 \<Longrightarrow> advanced s b1 n b2 \<Longrightarrow> advanced s b (m + n) b2"
  by (simp add: advanced_def)

lemma advanced_readable:
  assumes "advanced s b n b'" "seq_ok s b"
  shows "ReadableBytes b' = ReadableBytes b - n"
proof -
  have "FirstMissingByte b' = FirstMissingByte b" using assms(1) by (simp add: advanced_def FirstMissingByte_def)
  moreover have "received_ok s b'" using assms(1) by (auto simp: advanced_def seq_ok_def)
  ultimately show ?thesis
    using readable_facts(4) [of s b'] readable_facts(4) [OF seq_ok_simps(2) [OF assms(2)]] assms(1)
    by (simp add: advanced_def)
qed

lemma consume_advanced:
  assumes "seq_ok s b" "n \<le> ReadableBytes b"
  shows "advanced s b n (consume b n)"
  using seq_ok_consume [OF assms] unread_consume(1) [OF assms] by (simp add: advanced_def consume_def)

lemma RetireBlockIfEmpty_step:
  assumes ok: "seq_ok s b" and n: "n = in_block b" "0 < ReadableBytes b"
  shows "\<exists>b'. RetireBlockIfEmpty (consume b n) (NextBlockToRead b) = (True, b') \<and> advanced s b n b'"
proof -
  let ?C = "max_buffer_capacity_bytes b" and ?T = "total_bytes_read b" and ?b1 = "consume b n"
  let ?k = "?T mod ?C"
  note f = seq_ok_simps [OF ok] and r = readable_facts [OF seq_ok_simps(2) [OF ok]]
  have np: "0 < n" "n \<le> ReadableBytes b" using in_block_pos [OF ok n(2)] n(1) by simp_all
  have adv: "advanced s b n ?b1" using ok np(2) by (rule consume_advanced)
  then have b1: "seq_ok s ?b1" "total_bytes_read ?b1 = ?T + n" "bytes_received ?b1 = bytes_received b"
    "max_buffer_capacity_bytes ?b1 = ?C" by (simp_all add: advanced_def)
  have F: "FirstMissingByte ?b1 = FirstMissingByte b" by (simp add: FirstMissingByte_def b1)
  have k: "?k < ?C" using f(5) by simp
  have nr: "n \<le> block_end ?C kBlockSizeBytes ?k - ?k" using n(1) in_block_eq [OF ok] by simp
  have e: "?k < block_end ?C kBlockSizeBytes ?k" "block_end ?C kBlockSizeBytes ?k \<le> ?C"
    using block_end_bounds [OF kBlockSizeBytes_pos k] by simp_all
  have u: "(?T + n - 1) mod ?C = ?k + (n - 1)"
    using mod_run [of ?T ?C "n - 1"] nr e np(1) by simp
  have idx: "(?k + (n - 1)) div kBlockSizeBytes = ?k div kBlockSizeBytes"
    using same_block(1) [OF kBlockSizeBytes_pos, of ?k "?k + (n - 1)" ?C] nr e np(1) by simp
  have same_end: "block_end ?C kBlockSizeBytes (?k + (n - 1)) = block_end ?C kBlockSizeBytes ?k"
    unfolding block_end_def idx ..
  have "n = FirstMissingByte b - ?T \<or> n = block_end ?C kBlockSizeBytes ?k - ?k"
    using n(1) in_block_eq [OF ok] by (simp add: min_def split: if_splits)
  then have "?T + n = FirstMissingByte b \<or> block_end ?C kBlockSizeBytes ?k = ?k + (n - 1) + 1"
    using r(1) e np(1) by linarith
  then have point: "retire_point ?b1"
    unfolding retire_point_def b1 F u same_end using np(1) by simp
  have ix: "GetBlockIndex ?b1 (total_bytes_read ?b1 - 1) = NextBlockToRead b"
    unfolding GetBlockIndex_def NextBlockToRead_def b1 u idx ..
  have "ring_at b ?k = Some (s ! ?T)"
    using f(3) unread_readable [OF f(2), of ?T] np r by (simp add: ring_ok_def)
  then have "block_at b (NextBlockToRead b) \<noteq> None"
    using ring_block by (simp add: NextBlockToRead_def GetBlockIndex_def)
  then have "fst (RetireBlock ?b1 (NextBlockToRead b))"
    by (simp add: RetireBlock_def block_at_def consume_def)
  moreover have "advanced s b n (snd (RetireBlock ?b1 (NextBlockToRead b)))" if "block_unused ?b1 (NextBlockToRead b)"
    using seq_ok_retire [OF b1(1) that] adv by (simp add: advanced_def)
  ultimately show ?thesis
    using RetireBlockIfEmpty_safe [OF seq_ok_simps(1,2) [OF b1(1)] point ix] adv by (metis prod.collapse)
qed

text \<open>The bytes of a step: they are in one block and are the next bytes of the stream.\<close>

lemma block_bytes:
  assumes ok: "seq_ok s b" and n: "n \<le> in_block b" "0 < ReadableBytes b"
  shows "\<exists>block. block_at b (NextBlockToRead b) = Some block
    \<and> take n (drop (ReadOffset b) block) = take n (drop (total_bytes_read b) s)"
proof -
  let ?C = "max_buffer_capacity_bytes b" and ?T = "total_bytes_read b"
  let ?k = "?T mod ?C"
  note f = seq_ok_simps [OF ok] and r = readable_facts [OF seq_ok_simps(2) [OF ok]]
  have k: "?k < ?C" using f(5) by simp
  note e = block_end_bounds [OF kBlockSizeBytes_pos k]
  have nle: "n \<le> FirstMissingByte b - ?T" "n \<le> block_end ?C kBlockSizeBytes ?k - ?k"
    using n(1) in_block_eq [OF ok] by simp_all
  have ring: "ring_at b ((?T + i) mod ?C) = Some (s ! (?T + i))" if "?T + i < FirstMissingByte b" for i
    using f(3) unread_readable [OF f(2), of "?T + i"] that by (simp add: ring_ok_def)
  have pos: "?T + 0 < FirstMissingByte b" using n(2) r by simp
  from ring_block [OF ring [OF this]] obtain block where
    block: "block_at b (NextBlockToRead b) = Some block" by (auto simp: NextBlockToRead_def GetBlockIndex_def)
  have "NextBlockToRead b < blocks_count b"
    using index_less_count [OF f(1) k] by (simp add: NextBlockToRead_def GetBlockIndex_def)
  then have len: "length block = kBlockSizeBytes" using block_at_length [OF f(1) _ block] by simp
  have "block_end ?C kBlockSizeBytes ?k \<le> (?k div kBlockSizeBytes + 1) * kBlockSizeBytes" by (simp add: block_end_def)
  moreover have "?k = ?k div kBlockSizeBytes * kBlockSizeBytes + ?k mod kBlockSizeBytes" by simp
  ultimately have room: "?k mod kBlockSizeBytes + n \<le> kBlockSizeBytes"
    using nle(2) e(1) by (simp only: add_mult_distrib)
  have "block ! (?k mod kBlockSizeBytes + i) = s ! (?T + i)" if i: "i < n" for i
  proof -
    have "(?T + i) mod ?C = ?k + i" using mod_run [of ?T ?C i] i nle(2) e by simp
    moreover have "(?k + i) div kBlockSizeBytes = ?k div kBlockSizeBytes" "(?k + i) mod kBlockSizeBytes = ?k mod kBlockSizeBytes + i"
      using same_block [OF kBlockSizeBytes_pos, of ?k "?k + i" ?C] i nle(2) e by simp_all
    ultimately show ?thesis
      using ring [of i] i nle(1) block by (simp add: ring_at_def NextBlockToRead_def GetBlockIndex_def)
  qed
  moreover have "?T + n \<le> length s" using nle(1) r by linarith
  ultimately have "take n (drop (?k mod kBlockSizeBytes) block) = take n (drop ?T s)"
    using len room by (intro nth_equalityI) simp_all
  with block show ?thesis by (auto simp: ReadOffset_def GetInBlockOffset_def)
qed

text \<open>Only the memory and the sizes matter for the shape.\<close>

lemma shape_ok_cong:
  assumes "max_buffer_capacity_bytes b' = max_buffer_capacity_bytes b" "blocks_count b' = blocks_count b"
    "buffer_blocks b' = buffer_blocks b"
  shows "shape_ok b' = shape_ok b"
  unfolding shape_ok_def assms ..

lemma shape_ok_updates [simp]:
  "shape_ok (b\<lparr>total_bytes_read := n\<rparr>) = shape_ok b" "shape_ok (b\<lparr>num_bytes_buffered := n\<rparr>) = shape_ok b"
  "shape_ok (b\<lparr>bytes_received := R\<rparr>) = shape_ok b" "shape_ok (b\<lparr>total_bytes_prefetched := n\<rparr>) = shape_ok b"
  by (rule shape_ok_cong; simp)+

lemma shape_ok_release: "shape_ok b \<Longrightarrow> shape_ok (b\<lparr>buffer_blocks := None\<rparr>)"
  by (simp add: shape_ok_def)

section \<open>Reads\<close>

text \<open>The bytes that can be read next.\<close>

definition readable :: "byte list \<Rightarrow> QuicStreamSequencerBuffer \<Rightarrow> byte list" where
  "readable s b = take (ReadableBytes b) (drop (total_bytes_read b) s)"

lemma length_readable: "seq_ok s b \<Longrightarrow> length (readable s b) = ReadableBytes b"
  using readable_facts [of s b] by (simp add: readable_def seq_ok_def)

lemma readable_advanced:
  assumes "advanced s b n b'" "seq_ok s b"
  shows "readable s b' = drop n (readable s b)"
  using assms advanced_readable [OF assms] by (simp add: readable_def advanced_def drop_take add.commute)

lemma Readv_one_correct:
  assumes "seq_ok s b"
  shows "\<exists>b'. Readv_one b m dest = Some (QUIC_NO_ERROR, dest @ take m (readable s b), b')
    \<and> advanced s b (min m (ReadableBytes b)) b'"
  using assms
proof (induction m arbitrary: b dest rule: less_induct)
  case (less m)
  show ?case
  proof (cases "m > 0 \<and> ReadableBytes b > 0")
    case False
    then have "Readv_one b m dest = Some (QUIC_NO_ERROR, dest, b)" by (subst Readv_one.simps) auto
    moreover have "take m (readable s b) = []" using False length_readable [OF less.prems] by auto
    moreover have "min m (ReadableBytes b) = 0" using False by auto
    ultimately show ?thesis using advanced_refl [OF less.prems] by simp
  next
    case True
    define n where "n = min (in_block b) m"
    have pos: "0 < in_block b" "in_block b \<le> ReadableBytes b" using in_block_pos [OF less.prems] True by simp_all
    have n: "0 < n" "n \<le> m" "n \<le> in_block b" "n \<le> ReadableBytes b" using True pos by (auto simp: n_def)
    obtain block where block: "block_at b (NextBlockToRead b) = Some block"
      "take n (drop (ReadOffset b) block) = take n (drop (total_bytes_read b) s)"
      using block_bytes [OF less.prems n(3) conjunct2 [OF True]] by auto
    then have data: "take n (drop (ReadOffset b) block) = take n (readable s b)"
      using n(4) by (simp add: readable_def min_def)
    obtain b2 where b2: "(if n = in_block b then RetireBlockIfEmpty (consume b n) (NextBlockToRead b) else (True, consume b n)) = (True, b2)"
      "advanced s b n b2"
      using RetireBlockIfEmpty_step [OF less.prems, of n] consume_advanced [OF less.prems n(4)] True
      by (cases "n = in_block b") auto
    have c: "b\<lparr>num_bytes_buffered := u64_sub (num_bytes_buffered b) n, total_bytes_read := u64_add (total_bytes_read b) n\<rparr> = consume b n"
      by (simp add: consume_def)
    have step: "Readv_one b m dest = Readv_one b2 (m - n) (dest @ take n (readable s b))"
      by (subst Readv_one.simps)
        (simp only: True simp_thms if_True Let_def in_block_def [symmetric] n_def [symmetric] block(1) option.case data c b2(1)
          case_prod_conv not_True_eq_False if_False)
    have ok2: "seq_ok s b2" using b2(2) by (simp add: advanced_def)
    obtain b' where b': "Readv_one b2 (m - n) (dest @ take n (readable s b)) =
        Some (QUIC_NO_ERROR, (dest @ take n (readable s b)) @ take (m - n) (readable s b2), b')"
      "advanced s b2 (min (m - n) (ReadableBytes b2)) b'"
      using less.IH [OF _ ok2, of "m - n" "dest @ take n (readable s b)"] n by auto
    have "take n (readable s b) @ take (m - n) (readable s b2) = take m (readable s b)"
      using n(2) by (metis readable_advanced [OF b2(2) less.prems] le_add_diff_inverse take_add)
    moreover have "n + min (m - n) (ReadableBytes b2) = min m (ReadableBytes b)"
      using advanced_readable [OF b2(2) less.prems] n by simp
    ultimately show ?thesis using step b' advanced_trans [OF b2(2) b'(2)] by simp
  qed
qed

text \<open>How data fills the buffers of a caller, in order and as far as it goes.\<close>

fun fill_buffers :: "nat list \<Rightarrow> byte list \<Rightarrow> byte list list" where
  "fill_buffers [] data = []"
| "fill_buffers (n # ns) data = (if data = [] then [] else take n data # fill_buffers ns (drop n data))"

lemma concat_fill_buffers: "concat (fill_buffers ns data) = take (sum_list ns) data"
  by (induction ns data rule: fill_buffers.induct) (simp_all add: take_add)

lemma Readv_loop_correct:
  assumes "seq_ok s b"
  shows "\<exists>b'. Readv_loop b iov = Some (QUIC_NO_ERROR, fill_buffers iov (readable s b), b')
    \<and> advanced s b (min (sum_list iov) (ReadableBytes b)) b'"
  using assms
proof (induction iov arbitrary: b)
  case Nil
  then show ?case using advanced_refl by simp
next
  case (Cons n iov)
  note len = length_readable [OF Cons.prems]
  show ?case
  proof (cases "ReadableBytes b > 0")
    case False
    then show ?thesis using len advanced_refl [OF Cons.prems] by simp
  next
    case True
    obtain b1 where b1: "Readv_one b n [] = Some (QUIC_NO_ERROR, take n (readable s b), b1)"
      "advanced s b (min n (ReadableBytes b)) b1"
      using Readv_one_correct [OF Cons.prems, of n "[]"] by auto
    have ok1: "seq_ok s b1" using b1(2) by (simp add: advanced_def)
    obtain b' where b': "Readv_loop b1 iov = Some (QUIC_NO_ERROR, fill_buffers iov (readable s b1), b')"
      "advanced s b1 (min (sum_list iov) (ReadableBytes b1)) b'" using Cons.IH [OF ok1] by blast
    have "readable s b1 = drop n (readable s b)"
      using readable_advanced [OF b1(2) Cons.prems] len by (cases "n \<le> ReadableBytes b") simp_all
    moreover have "min n (ReadableBytes b) + min (sum_list iov) (ReadableBytes b1) = min (sum_list (n # iov)) (ReadableBytes b)"
      using advanced_readable [OF b1(2) Cons.prems] by (simp add: min_def) linarith
    moreover have "readable s b \<noteq> []" using True len by auto
    ultimately show ?thesis
      using True b1(1) b' advanced_trans [OF b1(2) b'(2)] by simp
  qed
qed

lemma seq_ok_prefetched: "seq_ok s b \<Longrightarrow> seq_ok s (b\<lparr>total_bytes_prefetched := p\<rparr>)"
proof -
  assume ok: "seq_ok s b"
  have u: "unread (b\<lparr>total_bytes_prefetched := p\<rparr>) = unread b" by (simp add: unread_def)
  show ?thesis
    using ok unfolding seq_ok_def received_ok_def ring_ok_def u
    by (simp add: ring_at_def block_at_def)
qed

lemma Readv_correct:
  assumes "seq_ok s b"
  shows "\<exists>b'. Readv b iov = Some (QUIC_NO_ERROR, fill_buffers iov (readable s b), b') \<and> seq_ok s b'
    \<and> total_bytes_read b' = total_bytes_read b + min (sum_list iov) (ReadableBytes b)
    \<and> bytes_received b' = bytes_received b \<and> max_buffer_capacity_bytes b' = max_buffer_capacity_bytes b"
proof -
  obtain b1 where b1: "Readv_loop b iov = Some (QUIC_NO_ERROR, fill_buffers iov (readable s b), b1)"
    "advanced s b (min (sum_list iov) (ReadableBytes b)) b1" using Readv_loop_correct [OF assms] by blast
  then show ?thesis by (auto simp: Readv_def advanced_def seq_ok_prefetched)
qed

lemma MarkConsumed_loop_correct:
  assumes "seq_ok s b" "n \<le> ReadableBytes b"
  shows "\<exists>b'. MarkConsumed_loop b n = Some b' \<and> advanced s b n b'"
  using assms
proof (induction n arbitrary: b rule: less_induct)
  case (less n)
  show ?case
  proof (cases "n = 0")
    case True
    then show ?thesis using advanced_refl [OF less.prems(1)] by (subst MarkConsumed_loop.simps) simp
  next
    case False
    define m where "m = min n (in_block b)"
    have pos: "0 < in_block b" "in_block b \<le> ReadableBytes b" using in_block_pos [OF less.prems(1)] less.prems(2) False by simp_all
    have m: "0 < m" "m \<le> n" "m \<le> ReadableBytes b" using False pos by (auto simp: m_def)
    define b2 where "b2 = (if in_block b = m then snd (RetireBlockIfEmpty (consume b m) (NextBlockToRead b)) else consume b m)"
    have adv: "advanced s b m b2"
      using RetireBlockIfEmpty_step [OF less.prems(1), of m] consume_advanced [OF less.prems(1) m(3)] m(1,3)
      by (cases "in_block b = m") (auto simp: b2_def)
    have step: "MarkConsumed_loop b n = MarkConsumed_loop b2 (n - m)"
      by (subst MarkConsumed_loop.simps)
        (simp only: False if_False Let_def in_block_def [symmetric] m_def [symmetric] consume_def [symmetric] b2_def [symmetric])
    have "seq_ok s b2" using adv by (simp add: advanced_def)
    moreover have "n - m \<le> ReadableBytes b2" using advanced_readable [OF adv less.prems(1)] less.prems(2) by simp
    ultimately obtain b' where "MarkConsumed_loop b2 (n - m) = Some b'" "advanced s b2 (n - m) b'"
      using less.IH [of "n - m" b2] m by auto
    then show ?thesis using step advanced_trans [OF adv] m(2) by fastforce
  qed
qed

lemma MarkConsumed_correct:
  assumes "seq_ok s b"
  shows "n > ReadableBytes b \<Longrightarrow> MarkConsumed b n = Some (False, b)"
    and "n \<le> ReadableBytes b \<Longrightarrow> \<exists>b'. MarkConsumed b n = Some (True, b') \<and> seq_ok s b'
      \<and> total_bytes_read b' = total_bytes_read b + n
      \<and> bytes_received b' = bytes_received b \<and> max_buffer_capacity_bytes b' = max_buffer_capacity_bytes b"
proof -
  show "MarkConsumed b n = Some (False, b)" if "n > ReadableBytes b" using that by (simp add: MarkConsumed_def)
  show "\<exists>b'. MarkConsumed b n = Some (True, b') \<and> seq_ok s b' \<and> total_bytes_read b' = total_bytes_read b + n
      \<and> bytes_received b' = bytes_received b \<and> max_buffer_capacity_bytes b' = max_buffer_capacity_bytes b"
    if n: "n \<le> ReadableBytes b"
    using MarkConsumed_loop_correct [OF assms n] n by (auto simp: MarkConsumed_def advanced_def seq_ok_prefetched)
qed

section \<open>Discarding\<close>

lemma RetireBlock_only_blocks: "same_but_blocks b (snd (RetireBlock b i))"
  by (simp add: same_but_blocks_def RetireBlock_def)

lemma shape_ok_retire: "shape_ok b \<Longrightarrow> shape_ok (snd (RetireBlock b i))"
  unfolding shape_ok_def RetireBlock_def using set_update_subset_insert [of _ i None]
  by (fastforce split: option.splits)

lemma Clear_fold:
  assumes "shape_ok b"
  shows "let b' = fold (\<lambda>i b. if block_at b i \<noteq> None then snd (RetireBlock b i) else b) is b
     in shape_ok b' \<and> same_but_blocks b b'"
  using assms
proof (induction "is" arbitrary: b)
  case Nil
  then show ?case by (simp add: same_but_blocks_refl)
next
  case (Cons i "is")
  let ?b1 = "if block_at b i \<noteq> None then snd (RetireBlock b i) else b"
  have "shape_ok ?b1" "same_but_blocks b ?b1"
    using Cons.prems by (simp_all add: shape_ok_retire RetireBlock_only_blocks same_but_blocks_refl)
  with Cons.IH [of ?b1] show ?case
    unfolding Let_def fold_simps comp_apply by (blast intro: same_but_blocks_trans)
qed

lemma Clear_facts:
  assumes "shape_ok b"
  shows "shape_ok (Clear b)" "total_bytes_read (Clear b) = total_bytes_read b"
    "bytes_received (Clear b) = Set_Add [] (QuicInterval 0 (total_bytes_read b))"
    "num_bytes_buffered (Clear b) = 0" "max_buffer_capacity_bytes (Clear b) = max_buffer_capacity_bytes b"
    "total_bytes_prefetched (Clear b) = total_bytes_read b"
proof -
  define b1 where "b1 = (if buffer_blocks b \<noteq> None
     then fold (\<lambda>i b. if block_at b i \<noteq> None then snd (RetireBlock b i) else b) [0..<blocks_count b] b else b)"
  have C: "Clear b = b1\<lparr>num_bytes_buffered := 0, bytes_received := Set_Add [] (QuicInterval 0 (total_bytes_read b)),
             total_bytes_prefetched := total_bytes_read b\<rparr>"
    by (simp only: Clear_def b1_def Let_def)
  have b1: "shape_ok b1" "same_but_blocks b b1"
    using Clear_fold [OF assms] assms by (simp_all add: b1_def Let_def same_but_blocks_refl)
  show "shape_ok (Clear b)" using b1(1) by (simp add: C)
  show "total_bytes_read (Clear b) = total_bytes_read b"
    "bytes_received (Clear b) = Set_Add [] (QuicInterval 0 (total_bytes_read b))"
    "num_bytes_buffered (Clear b) = 0" "max_buffer_capacity_bytes (Clear b) = max_buffer_capacity_bytes b"
    "total_bytes_prefetched (Clear b) = total_bytes_read b"
    using same_but_blocks_fields [OF b1(2)] by (simp_all add: C)
qed

lemma seq_ok_Clear:
  assumes "shape_ok b" "length s < 2 ^ 62" "total_bytes_read b \<le> length s"
  shows "seq_ok s (Clear b)" "unread (Clear b) = {}"
proof -
  note c = Clear_facts [OF assms(1)]
  have pts: "set_points (bytes_received (Clear b)) = {0 ..< total_bytes_read b}" "Valid (bytes_received (Clear b))"
    using iset.pts_add [of "[]" "QuicInterval 0 (total_bytes_read b)"] iset.inv_add [of "[]"]
    by (simp_all add: c points_QuicInterval)
  show u: "unread (Clear b) = {}" unfolding unread_def pts(1) c(2) by auto
  have "received_ok s (Clear b)" unfolding received_ok_def pts(1) c(2) using assms(2,3) pts(2) by auto
  then show "seq_ok s (Clear b)" by (simp add: seq_ok_def u ring_ok_def c)
qed

lemma FlushBufferedFrames_correct:
  assumes "seq_ok s b"
  shows "\<exists>b'. FlushBufferedFrames b = (NextExpectedByte b - total_bytes_read b, b') \<and> seq_ok s b'
    \<and> total_bytes_read b' = NextExpectedByte b \<and> total_bytes_read b \<le> NextExpectedByte b
    \<and> NextExpectedByte b \<le> length s \<and> unread b' = {} \<and> max_buffer_capacity_bytes b' = max_buffer_capacity_bytes b"
proof -
  note f = seq_ok_simps [OF assms]
  let ?N = "NextExpectedByte b" and ?T = "total_bytes_read b"
  have N: "?N \<le> length s \<and> ?T \<le> ?N"
  proof (cases "bytes_received b = []")
    case True
    then show ?thesis using f(9) by (simp add: NextExpectedByte_def)
  next
    case False
    note n = NextExpectedByte_facts [OF f(8) False]
    have "{0 ..< ?T} \<subseteq> {0 ..< ?N}" using f(9) n(3) by (rule subset_trans)
    moreover have "?N - 1 < length s" using n(2) f(10) by auto
    ultimately show ?thesis by auto
  qed
  have sh: "shape_ok (b\<lparr>total_bytes_read := ?N\<rparr>)" using f(1) by simp
  have "u64_sub ?N ?T = ?N - ?T" using N f(7) by (intro u64_sub_small) simp_all
  then show ?thesis
    using seq_ok_Clear [OF sh f(7)] N Clear_facts [OF sh] by (simp add: FlushBufferedFrames_def Let_def)
qed

lemma ReleaseWholeBuffer_correct:
  assumes "seq_ok s b"
  shows "seq_ok s (ReleaseWholeBuffer b)" "unread (ReleaseWholeBuffer b) = {}"
    "total_bytes_read (ReleaseWholeBuffer b) = total_bytes_read b" "buffer_blocks (ReleaseWholeBuffer b) = None"
proof -
  note f = seq_ok_simps [OF assms]
  have T: "total_bytes_read b \<le> length s" by (rule readable_facts(5) [OF f(2)])
  note c = seq_ok_Clear [OF f(1,7) T] and d = Clear_facts [OF f(1)]
  show u: "unread (ReleaseWholeBuffer b) = {}" using c(2) by (simp add: ReleaseWholeBuffer_def unread_def)
  show "total_bytes_read (ReleaseWholeBuffer b) = total_bytes_read b" "buffer_blocks (ReleaseWholeBuffer b) = None"
    using d by (simp_all add: ReleaseWholeBuffer_def)
  have "num_bytes_buffered (ReleaseWholeBuffer b) = 0" using d by (simp add: ReleaseWholeBuffer_def)
  moreover have "received_ok s (ReleaseWholeBuffer b)" "shape_ok (ReleaseWholeBuffer b)"
    using c(1) by (simp_all add: seq_ok_def received_ok_def shape_ok_release ReleaseWholeBuffer_def)
  ultimately show "seq_ok s (ReleaseWholeBuffer b)" by (simp add: seq_ok_def ring_ok_def u)
qed

lemma seq_ok_new:
  assumes "0 < C" "C < 2 ^ 62" "length s < 2 ^ 62"
  shows "seq_ok s (new_QuicStreamSequencerBuffer C)"
    "total_bytes_read (new_QuicStreamSequencerBuffer C) = 0" "unread (new_QuicStreamSequencerBuffer C) = {}"
    "max_buffer_capacity_bytes (new_QuicStreamSequencerBuffer C) = C"
proof -
  let ?b = "\<lparr>max_buffer_capacity_bytes = C, blocks_count = CalculateBlockCount C,
            total_bytes_read = 0, buffer_blocks = None, num_bytes_buffered = 0, bytes_received = [],
            total_bytes_prefetched = 0\<rparr>"
  have sh: "shape_ok ?b" using assms CalculateBlockCount_eq [OF assms(1,2)] by (simp add: shape_ok_def)
  show "seq_ok s (new_QuicStreamSequencerBuffer C)" "unread (new_QuicStreamSequencerBuffer C) = {}"
    using seq_ok_Clear [OF sh assms(3)] by (simp_all add: new_QuicStreamSequencerBuffer_def)
  show "total_bytes_read (new_QuicStreamSequencerBuffer C) = 0" "max_buffer_capacity_bytes (new_QuicStreamSequencerBuffer C) = C"
    using Clear_facts [OF sh] by (simp_all add: new_QuicStreamSequencerBuffer_def)
qed

end
