(* ===== verification/Quic_Sequencer_Regions.thy ===== *)
theory Quic_Sequencer_Regions
  imports Quic_Sequencer_Reading
begin

text \<open>
  The regions a client reads in place: \<open>GetReadableRegions\<close> returns the next bytes of the stream, in order and
  without a gap, and all that can be read when fewer regions than asked for come back.
\<close>

section \<open>Regions\<close>

text \<open>The memory an \<open>iovec\<close> points to.\<close>

definition region_bytes :: "QuicStreamSequencerBuffer \<Rightarrow> iovec \<Rightarrow> byte list" where
  "region_bytes b iov = (case iov of (idx, off, len) \<Rightarrow>
     (case block_at b idx of None \<Rightarrow> [] | Some block \<Rightarrow> take len (drop off block)))"

definition region_length :: "iovec \<Rightarrow> nat" where
  "region_length iov = snd (snd iov)"

text \<open>Whether the rest of the readable bytes lies in the block of the next one.\<close>

lemma end_in_same_block:
  assumes "0 < B" "k < C" "d < C"
  shows "((k + d) mod C) div B = k div B \<and> k mod B \<le> ((k + d) mod C) mod B \<longleftrightarrow> k + d < block_end C B k"
proof
  assume "k + d < block_end C B k"
  moreover from this have "(k + d) mod C = k + d" by (simp add: block_end_def)
  ultimately show "((k + d) mod C) div B = k div B \<and> k mod B \<le> ((k + d) mod C) mod B"
    using same_block [OF assms(1), of k "k + d" C] by simp
next
  assume a: "((k + d) mod C) div B = k div B \<and> k mod B \<le> ((k + d) mod C) mod B"
  let ?e = "(k + d) mod C"
  have "k \<le> ?e" using a by (metis add_le_cancel_left div_mult_mod_eq)
  moreover have "?e = k + d - C" if "\<not> k + d < C" using that assms(2,3) by (simp add: le_mod_geq)
  ultimately have lt: "k + d < C" using assms(2,3) by fastforce
  then have "(k + d) div B = k div B" using a by simp
  then have "k + d < (k div B + 1) * B"
    using assms(1) by (metis Suc_eq_plus1 dividend_less_times_div mult.commute mult_Suc_right)
  with lt show "k + d < block_end C B k" by (simp add: block_end_def)
qed

lemma last_readable:
  assumes ok: "seq_ok s b" and r: "0 < ReadableBytes b"
  shows "GetBlockIndex b (FirstMissingByte b - 1) = NextBlockToRead b
      \<and> ReadOffset b \<le> GetInBlockOffset b (FirstMissingByte b - 1) \<longleftrightarrow>
        in_block b = ReadableBytes b"
    and "in_block b = ReadableBytes b \<Longrightarrow>
      GetInBlockOffset b (FirstMissingByte b - 1) = ReadOffset b + (ReadableBytes b - 1)"
proof -
  let ?C = "max_buffer_capacity_bytes b" and ?T = "total_bytes_read b" and ?F = "FirstMissingByte b"
  note f = seq_ok_simps [OF ok] and rd = readable_facts [OF seq_ok_simps(2) [OF ok]]
  define k where "k = ?T mod ?C"
  define d where "d = ?F - 1 - ?T"
  have k: "k < ?C" using f(5) by (simp add: k_def)
  have d: "d < ?C" "ReadableBytes b = d + 1" "?F - 1 = ?T + d" using rd r by (auto simp: d_def)
  have pos: "(?F - 1) mod ?C = (k + d) mod ?C" unfolding d(3) k_def by (simp add: mod_add_left_eq)
  have ib: "in_block b = ReadableBytes b \<longleftrightarrow> k + d < block_end ?C kBlockSizeBytes k"
    using in_block_eq [OF ok] block_end_bounds(1) [OF kBlockSizeBytes_pos k] d(2) rd(4) by (auto simp: k_def min_def)
  show "GetBlockIndex b (?F - 1) = NextBlockToRead b \<and> ReadOffset b \<le> GetInBlockOffset b (?F - 1)
      \<longleftrightarrow> in_block b = ReadableBytes b"
    unfolding ib GetBlockIndex_def NextBlockToRead_def ReadOffset_def GetInBlockOffset_def pos k_def [symmetric]
    by (rule end_in_same_block [OF kBlockSizeBytes_pos k d(1)])
  assume "in_block b = ReadableBytes b"
  then have lt: "k + d < block_end ?C kBlockSizeBytes k" using ib by simp
  then have "(k + d) mod ?C = k + d" by (simp add: block_end_def)
  with same_block(2) [OF kBlockSizeBytes_pos, of k "k + d" ?C] lt
  show "GetInBlockOffset b (?F - 1) = ReadOffset b + (ReadableBytes b - 1)"
    unfolding GetInBlockOffset_def ReadOffset_def pos k_def [symmetric] d(2) by simp
qed

text \<open>Where the next region starts when a read stops at the end of a block.\<close>

lemma next_block:
  assumes ok: "seq_ok s b" and more: "in_block b < ReadableBytes b"
  shows "in_block b = u64_sub (GetBlockCapacity b (NextBlockToRead b)) (ReadOffset b)"
    and "ReadOffset (consume b (in_block b)) = 0"
    and "NextBlockToRead (consume b (in_block b)) = (NextBlockToRead b + 1) mod blocks_count b"
proof -
  let ?C = "max_buffer_capacity_bytes b" and ?T = "total_bytes_read b" and ?B = kBlockSizeBytes
  note f = seq_ok_simps [OF ok]
  show "in_block b = u64_sub (GetBlockCapacity b (NextBlockToRead b)) (ReadOffset b)"
    using more by (simp add: in_block_def min_def split: if_splits)
  define k where "k = ?T mod ?C"
  have k: "k < ?C" using f(5) by (simp add: k_def)
  have "in_block b = block_end ?C ?B k - k"
    using more in_block_eq [OF ok] readable_facts(4) [OF f(2)] by (simp add: k_def min_def split: if_splits)
  then have e: "k + in_block b = block_end ?C ?B k" using block_end_bounds(1) [OF kBlockSizeBytes_pos k] by simp
  let ?c = "consume b (in_block b)"
  have T: "total_bytes_read ?c = ?T + in_block b" "max_buffer_capacity_bytes ?c = ?C"
    using unread_consume(1) [OF ok] more by (simp_all add: consume_def)
  have at: "(?T + in_block b) mod ?C = block_end ?C ?B k mod ?C"
    using e by (metis k_def mod_add_left_eq)
  have count: "blocks_count b = (?C - 1) div ?B + 1" using f(1) by (simp add: shape_ok_def)
  have "(block_end ?C ?B k mod ?C) mod ?B = 0 \<and> (block_end ?C ?B k mod ?C) div ?B = (k div ?B + 1) mod blocks_count b"
  proof (cases "(k div ?B + 1) * ?B < ?C")
    case True
    then have "k div ?B + 1 \<le> (?C - 1) div ?B" by (simp add: less_eq_div_iff_mult_less_eq)
    with True show ?thesis by (simp add: block_end_def count)
  next
    case False
    then have "block_end ?C ?B k = ?C" by (simp add: block_end_def)
    moreover have "(?C - 1) div ?B < k div ?B + 1"
      using False f(5) by (intro less_mult_imp_div_less) simp
    then have "k div ?B + 1 = blocks_count b"
      using index_less_count [OF f(1) k] unfolding count by simp
    ultimately show ?thesis by simp
  qed
  then show "ReadOffset ?c = 0" "NextBlockToRead ?c = (NextBlockToRead b + 1) mod blocks_count b"
    unfolding ReadOffset_def NextBlockToRead_def GetInBlockOffset_def GetBlockIndex_def T at k_def [symmetric] by simp_all
qed

text \<open>One region: it starts at the next byte and is as long as the block allows.\<close>

lemma region_bytes_next:
  assumes "seq_ok s b" "n \<le> in_block b" "0 < ReadableBytes b"
  shows "region_bytes b (NextBlockToRead b, ReadOffset b, n) = take n (drop (total_bytes_read b) s)"
  using block_bytes [OF assms] by (auto simp: region_bytes_def)

lemma consume_consume:
  assumes "seq_ok s b" "m + n \<le> ReadableBytes b"
  shows "consume (consume b m) n = consume b (m + n)"
proof -
  have adv: "advanced s b m (consume b m)" using assms by (intro consume_advanced) simp_all
  then have ok: "seq_ok s (consume b m)" by (simp add: advanced_def)
  have "n \<le> ReadableBytes (consume b m)" using advanced_readable [OF adv assms(1)] assms(2) by simp
  note u1 = unread_consume(1,3) [OF ok this] and u2 = unread_consume(1,3) [OF assms] and
    u0 = unread_consume(1) [of s b m]
  have "total_bytes_read (consume (consume b m) n) = total_bytes_read (consume b (m + n))"
    using u1(1) u2(1) u0 assms by simp
  moreover from this have "unread (consume (consume b m) n) = unread (consume b (m + n))"
    by (simp add: unread_def) (simp add: consume_def)
  ultimately show ?thesis
    using u1(2) u2(2) by (simp add: consume_def)
qed

definition regions_cover :: "byte list \<Rightarrow> QuicStreamSequencerBuffer \<Rightarrow> nat \<Rightarrow> iovec list \<Rightarrow> bool" where
  "regions_cover s b cnt regs \<longleftrightarrow>
     concat (map (region_bytes b) regs) = take (sum_list (map region_length regs)) (readable s b)
   \<and> sum_list (map region_length regs) \<le> ReadableBytes b \<and> length regs \<le> cnt
   \<and> (length regs < cnt \<longrightarrow> sum_list (map region_length regs) = ReadableBytes b)"

lemma region_bytes_consume [simp]: "region_bytes (consume b n) = region_bytes b"
  by (intro ext) (simp add: region_bytes_def block_at_def consume_def)

lemma regions_cover_Cons:
  assumes ok: "seq_ok s b" and n: "n = in_block b" "n < ReadableBytes b" and rest: "regions_cover s (consume b n) cnt regs"
  shows "regions_cover s b (Suc cnt) ((NextBlockToRead b, ReadOffset b, n) # regs)"
proof -
  have adv: "advanced s b n (consume b n)" using n by (intro consume_advanced [OF ok]) simp
  have R: "ReadableBytes (consume b n) = ReadableBytes b - n" "readable s (consume b n) = drop n (readable s b)"
    using advanced_readable [OF adv ok] readable_advanced [OF adv ok] by simp_all
  have "region_bytes b (NextBlockToRead b, ReadOffset b, n) = take n (readable s b)"
    using region_bytes_next [OF ok, of n] n by (simp add: readable_def min_def)
  with rest n(2) show ?thesis
    unfolding regions_cover_def R by (auto simp: region_length_def take_add)
qed

lemma regions_cover_last:
  assumes ok: "seq_ok s b" and r: "0 < ReadableBytes b" "in_block b = ReadableBytes b" and cnt: "0 < cnt"
  shows "regions_cover s b cnt [(NextBlockToRead b, ReadOffset b, ReadableBytes b)]"
proof -
  have "region_bytes b (NextBlockToRead b, ReadOffset b, ReadableBytes b) = readable s b"
    using region_bytes_next [OF ok, of "ReadableBytes b"] r by (simp add: readable_def)
  with cnt show ?thesis
    by (auto simp: regions_cover_def region_length_def length_readable [OF ok])
qed

lemma ReadableRegions_loop_cover:
  assumes "seq_ok s b" "m < ReadableBytes b" "NextBlockToRead (consume b m) = (start + used) mod blocks_count b"
    "ReadOffset (consume b m) = 0"
  shows "regions_cover s (consume b m) cnt
    (ReadableRegions_loop b start (GetBlockIndex b (FirstMissingByte b - 1)) used cnt)"
  using assms(2-)
proof (induction cnt arbitrary: m used)
  case 0
  then show ?case by (simp add: regions_cover_def)
next
  case (Suc cnt)
  let ?c = "consume b m" and ?e = "FirstMissingByte b - 1"
  have adv: "advanced s b m ?c" using Suc.prems(1) by (intro consume_advanced [OF assms(1)]) simp
  then have okc: "seq_ok s ?c" by (simp add: advanced_def)
  have R: "ReadableBytes ?c = ReadableBytes b - m" by (rule advanced_readable [OF adv assms(1)])
  then have pos: "0 < ReadableBytes ?c" using Suc.prems(1) by simp
  have same: "GetBlockIndex ?c = GetBlockIndex b" "GetInBlockOffset ?c = GetInBlockOffset b"
    "FirstMissingByte ?c = FirstMissingByte b" "blocks_count ?c = blocks_count b" "GetBlockCapacity ?c = GetBlockCapacity b"
    by (simp_all add: fun_eq_iff GetBlockIndex_def GetInBlockOffset_def FirstMissingByte_def GetBlockCapacity_def consume_def)
  note last = last_readable [OF okc pos, unfolded same Suc.prems(3)]
  show ?case
  proof (cases "(start + used) mod blocks_count b = GetBlockIndex b ?e")
    case True
    then have eq: "in_block ?c = ReadableBytes ?c" using last(1) Suc.prems(2) by simp
    then have "GetInBlockOffset b ?e + 1 = ReadableBytes ?c" using last(2) pos by simp
    then show ?thesis
      using regions_cover_last [OF okc pos eq] True Suc.prems(2,3) by (simp add: Let_def)
  next
    case False
    then have "in_block ?c \<noteq> ReadableBytes ?c" using last(1) Suc.prems(2) by auto
    then have lt: "in_block ?c < ReadableBytes ?c" using in_block_pos(2) [OF okc pos] by simp
    note nb = next_block [OF okc lt, unfolded same Suc.prems(2,3)]
    have cap: "in_block ?c = GetBlockCapacity b ((start + used) mod blocks_count b)"
      using nb(1) by (simp add: u64_sub_def GetBlockCapacity_def kBlockSizeBytes_def Let_def split: if_splits)
    have cc: "consume ?c (in_block ?c) = consume b (m + in_block ?c)"
      using lt R by (intro consume_consume [OF assms(1)]) simp
    have "NextBlockToRead (consume b (m + in_block ?c)) = (start + (used + 1)) mod blocks_count b"
      using nb(3) cc by (simp add: mod_add_left_eq mod_Suc_eq)
    moreover have "ReadOffset (consume b (m + in_block ?c)) = 0" using nb(2) cc by simp
    moreover have "m + in_block ?c < ReadableBytes b" using lt R by simp
    ultimately have "regions_cover s (consume ?c (in_block ?c)) cnt
        (ReadableRegions_loop b start (GetBlockIndex b ?e) (used + 1) cnt)"
      unfolding cc using Suc.IH by blast
    from regions_cover_Cons [OF okc refl lt this] False show ?thesis
      by (simp add: Let_def Suc.prems(2,3) cap)
  qed
qed

lemma GetReadableRegions_cover:
  assumes ok: "seq_ok s b" and cnt: "0 < cnt"
  shows "regions_cover s b cnt (GetReadableRegions b cnt)"
proof (cases "ReadableBytes b = 0")
  case True
  then show ?thesis by (simp add: regions_cover_def GetReadableRegions_def)
next
  case False
  then have pos: "0 < ReadableBytes b" by simp
  note rd = readable_facts [OF seq_ok_simps(2) [OF ok]]
  have e: "u64_sub (FirstMissingByte b) 1 = FirstMissingByte b - 1"
    using pos rd seq_ok_simps(7) [OF ok] by (intro u64_sub_small) simp_all
  note last = last_readable [OF ok pos]
  show ?thesis
  proof (cases "in_block b = ReadableBytes b")
    case True
    then show ?thesis
      unfolding GetReadableRegions_def Let_def e using regions_cover_last [OF ok pos True cnt] last(1) False by auto
  next
    case neq: False
    then have lt: "in_block b < ReadableBytes b" using in_block_pos(2) [OF ok pos] by simp
    note nb = next_block [OF ok lt]
    have "regions_cover s (consume b (in_block b)) (cnt - 1)
        (ReadableRegions_loop b (NextBlockToRead b) (GetBlockIndex b (FirstMissingByte b - 1)) 1 (cnt - 1))"
      using ReadableRegions_loop_cover [OF ok lt nb(3,2)] .
    from regions_cover_Cons [OF ok refl lt this] cnt have
      "regions_cover s b cnt ((NextBlockToRead b, ReadOffset b, in_block b) #
        ReadableRegions_loop b (NextBlockToRead b) (GetBlockIndex b (FirstMissingByte b - 1)) 1 (cnt - 1))" by simp
    moreover have "\<not> (NextBlockToRead b = GetBlockIndex b (FirstMissingByte b - 1)
        \<and> ReadOffset b \<le> GetInBlockOffset b (FirstMissingByte b - 1))" using last(1) neq by auto
    ultimately show ?thesis
      unfolding GetReadableRegions_def Let_def e nb(1) [symmetric] using False by auto
  qed
qed

end
