(* ===== verification/Quic_Sequencer_Receiving.thy ===== *)
theory Quic_Sequencer_Receiving
  imports Quic_Sequencer_Reading
begin

text \<open>
  Receiving into the sequencer buffer: the copy of new data into the ring keeps the invariant on the fast path and
  on the slow one, and the errors of \<open>OnStreamData\<close> come exactly where they should.
\<close>

section \<open>Receiving\<close>

text \<open>The offsets \<open>X\<close> of the window have their bytes of the stream in the ring.\<close>

definition ring_holds :: "byte list \<Rightarrow> QuicStreamSequencerBuffer \<Rightarrow> nat set \<Rightarrow> bool" where
  "ring_holds s b X \<longleftrightarrow> (\<forall>x \<in> X. ring_at b (x mod max_buffer_capacity_bytes b) = Some (s ! x))"

definition window :: "QuicStreamSequencerBuffer \<Rightarrow> nat set" where
  "window b = {total_bytes_read b ..< total_bytes_read b + max_buffer_capacity_bytes b}"

text \<open>The bytes of the stream at \<open>[off, off + n)\<close>: what a frame of the peer carries.\<close>

definition stream_piece :: "byte list \<Rightarrow> nat \<Rightarrow> nat \<Rightarrow> byte list" where
  "stream_piece s off n = take n (drop off s)"

lemma length_stream_piece: "off + n \<le> length s \<Longrightarrow> length (stream_piece s off n) = n"
  by (simp add: stream_piece_def)

lemma nth_stream_piece: "off + n \<le> length s \<Longrightarrow> i < n \<Longrightarrow> stream_piece s off n ! i = s ! (off + i)"
  by (simp add: stream_piece_def)

lemma stream_piece_part:
  "a + m \<le> n \<Longrightarrow> take m (drop a (stream_piece s off n)) = stream_piece s (off + a) m"
  by (simp add: stream_piece_def drop_take min_def add.commute)

lemma ring_holds_copied:
  assumes "copied b off (stream_piece s off n) b'" "ring_holds s b X" "X \<subseteq> window b" "{off ..< off + n} \<subseteq> window b"
    and len: "off + n \<le> length s" and C: "0 < max_buffer_capacity_bytes b"
  shows "ring_holds s b' (X \<union> {off ..< off + n})"
proof -
  let ?C = "max_buffer_capacity_bytes b"
  have b': "same_but_blocks b b'"
    and data: "\<And>i. i < n \<Longrightarrow> ring_at b' ((off + i) mod ?C) = Some (s ! (off + i))"
    and rest: "\<And>j v. ring_at b j = Some v \<Longrightarrow> j < ?C \<Longrightarrow> \<forall>i<n. j \<noteq> (off + i) mod ?C \<Longrightarrow> ring_at b' j = Some v"
    using assms(1) len by (auto simp: copied_def length_stream_piece nth_stream_piece)
  have "ring_at b' (x mod ?C) = Some (s ! x)" if x: "x \<in> X \<union> {off ..< off + n}" for x
  proof (cases "x \<in> {off ..< off + n}")
    case True
    then have "x - off < n" "off + (x - off) = x" by auto
    then show ?thesis using data [of "x - off"] by simp
  next
    case False
    then have xX: "x \<in> X" using x by blast
    have "x mod ?C \<noteq> (off + i) mod ?C" if i: "i < n" for i
    proof
      assume eq: "x mod ?C = (off + i) mod ?C"
      have "off + i \<in> window b" "x \<in> window b" using assms(3,4) xX i by auto
      then have "x = off + i" by (intro window_inj [OF _ _ _ _ eq, of "total_bytes_read b"]) (simp_all add: window_def)
      with False i show False by simp
    qed
    moreover have "ring_at b (x mod ?C) = Some (s ! x)" using assms(2) xX by (simp add: ring_holds_def)
    ultimately show ?thesis using rest [of "x mod ?C"] C by simp
  qed
  then show ?thesis unfolding ring_holds_def same_but_blocks_fields(1) [OF b'] by blast
qed

lemma CopyStreamData_holds:
  assumes sh: "shape_ok b" and X: "ring_holds s b X" "X \<subseteq> window b" and R: "{off ..< off + n} \<subseteq> window b" "0 < n"
    and len: "off + n \<le> length s" and T: "total_bytes_read b < 2 ^ 62"
  shows "\<exists>b'. CopyStreamData b off (stream_piece s off n) = Some (True, n, b') \<and> shape_ok b' \<and> same_but_blocks b b'
    \<and> ring_holds s b' (X \<union> {off ..< off + n})"
proof -
  have "off \<in> window b" "off + n - 1 \<in> window b" using R by auto
  then have "total_bytes_read b \<le> off" "off + n \<le> total_bytes_read b + max_buffer_capacity_bytes b"
    using R(2) by (auto simp: window_def)
  then obtain b' where b': "CopyStreamData_loop b off (stream_piece s off n) 0 = Some (True, n, b')"
    "copied b off (stream_piece s off n) b'"
    using CopyStreamData_loop_correct [OF sh, of off "stream_piece s off n" 0] T by (auto simp: length_stream_piece [OF len])
  moreover have "0 < max_buffer_capacity_bytes b" using sh by (simp add: shape_ok_def)
  moreover have "shape_ok b'" "same_but_blocks b b'" using b'(2) by (simp_all add: copied_def)
  ultimately show ?thesis
    using ring_holds_copied [OF b'(2) X R(1) len] by (simp add: CopyStreamData_def)
qed

lemma window_same: "same_but_blocks b b' \<Longrightarrow> window b' = window b"
  by (simp add: window_def same_but_blocks_fields)

lemma CopyIntervals_holds:
  assumes "shape_ok b" "ring_holds s b X" "X \<subseteq> window b" "total_bytes_read b < 2 ^ 62" "length s < 2 ^ 62"
    and "Valid N" "set_points N \<subseteq> window b" "set_points N \<subseteq> {off ..< off + n}" "off + n \<le> length s"
  shows "\<exists>b'. CopyIntervals b off (stream_piece s off n) N m = Some (True, m + card (set_points N), b')
    \<and> shape_ok b' \<and> same_but_blocks b b' \<and> ring_holds s b' (X \<union> set_points N)"
  using assms(1-4,6-8)
proof (induction N arbitrary: b X m)
  case Nil
  then show ?case by (simp add: same_but_blocks_refl)
next
  case (Cons i N)
  have i: "imin i < imax i" using Cons.prems(5) by (simp add: Valid_Cons)
  then have "imin i \<in> points i" "imax i - 1 \<in> points i" by (auto simp: points_def)
  then have "imin i \<in> {off ..< off + n}" "imax i - 1 \<in> {off ..< off + n}" using Cons.prems(7) by auto
  then have pos: "off \<le> imin i" "imax i \<le> off + n" using i by auto
  let ?l = "imax i - imin i"
  have words: "u64_sub (imax i) (imin i) = ?l" "u64_sub (imin i) off = imin i - off"
    using i pos assms(5,9) by (simp_all add: u64_sub_small)
  have pts: "points i = {imin i ..< imin i + ?l}" using i by (simp add: points_def)
  have piece: "take ?l (drop (imin i - off) (stream_piece s off n)) = stream_piece s (imin i) ?l"
    using stream_piece_part [of "imin i - off" ?l n s off] pos i by (auto simp: le_diff_conv)
  have iw: "{imin i ..< imin i + ?l} \<subseteq> window b" "imin i + ?l \<le> length s" "0 < ?l"
    using Cons.prems(6) i pos assms(9) unfolding set_points_simps pts by auto
  obtain b1 where b1: "CopyStreamData b (imin i) (stream_piece s (imin i) ?l) = Some (True, ?l, b1)" "shape_ok b1"
    "same_but_blocks b b1" "ring_holds s b1 (X \<union> points i)"
    using CopyStreamData_holds [OF Cons.prems(1-3) iw(1,3,2) Cons.prems(4)] unfolding pts by blast
  have "X \<union> points i \<subseteq> window b1" "set_points N \<subseteq> window b1" "set_points N \<subseteq> {off ..< off + n}"
    "total_bytes_read b1 < 2 ^ 62" "Valid N"
    using Cons.prems(3-7) window_same [OF b1(3)] same_but_blocks_fields [OF b1(3)] by (auto simp: Valid_Cons)
  with Cons.IH [OF b1(2,4), of "m + ?l"] obtain b' where
    b': "CopyIntervals b1 off (stream_piece s off n) N (m + ?l) = Some (True, m + ?l + card (set_points N), b')"
      "shape_ok b'" "same_but_blocks b1 b'" "ring_holds s b' (X \<union> points i \<union> set_points N)" by blast
  have "card (set_points (i # N)) = ?l + card (set_points N)" by (rule card_set_points_Cons [OF Cons.prems(5)])
  with b1(1) b' same_but_blocks_trans [OF b1(3) b'(3)] show ?case
    by (simp add: words piece Un_assoc)
qed

text \<open>The state after the data of the offsets \<open>R\<close> has been copied, whichever path the code takes.\<close>

lemma seq_ok_received:
  assumes ok: "seq_ok s b" and A: "Valid A" "set_points A = set_points (bytes_received b) \<union> R"
    and R: "R \<subseteq> {0 ..< length s}" "R \<subseteq> {0 ..< total_bytes_read b + max_buffer_capacity_bytes b}"
    and b2: "shape_ok b2" "same_but_blocks (b\<lparr>bytes_received := A\<rparr>) b2"
      "ring_holds s b2 (unread b \<union> (R - set_points (bytes_received b)))"
    and n: "n = card (R - set_points (bytes_received b))"
  shows "seq_ok s (b2\<lparr>num_bytes_buffered := u64_add (num_bytes_buffered b2) n\<rparr>)"
proof -
  note f = seq_ok_simps [OF ok]
  let ?b = "b2\<lparr>num_bytes_buffered := u64_add (num_bytes_buffered b2) n\<rparr>" and ?P = "set_points (bytes_received b)"
  have same: "max_buffer_capacity_bytes b2 = max_buffer_capacity_bytes b" "total_bytes_read b2 = total_bytes_read b"
    "bytes_received b2 = A" "num_bytes_buffered b2 = num_bytes_buffered b"
    using same_but_blocks_fields [OF b2(2)] by simp_all
  have u: "unread ?b = unread b \<union> (R - ?P)"
  proof -
    have "x \<in> ?P \<or> total_bytes_read b \<le> x" for x
      using f(9) by (metis atLeastLessThan_iff le0 not_less subsetD)
    then show ?thesis by (auto simp: unread_def same A(2))
  qed
  have fin: "finite (R - ?P)" using R(1) finite_subset by blast
  have "unread b \<inter> (R - ?P) = {}" by (auto simp: unread_def)
  then have c: "card (unread ?b) = card (unread b) + n"
    using card_Un_disjoint [OF unread_finite fin, of b] u n by simp
  have "unread ?b \<subseteq> {0 ..< length s}" using f(10) R(1) unfolding u by (auto simp: unread_def)
  then have "card (unread ?b) \<le> length s" using card_mono [of "{0 ..< length s}"] by fastforce
  then have "u64_add (num_bytes_buffered b2) n = card (unread ?b)"
    using c f(4,7) by (simp add: same u64_add_small)
  moreover have "received_ok s ?b"
    using f(7,9-11) A R by (auto simp: received_ok_def same)
  moreover have "ring_ok s ?b"
    using b2(3) unfolding ring_ok_def u ring_holds_def by (simp add: ring_at_def block_at_def)
  ultimately show ?thesis using b2(1) by (simp add: seq_ok_def)
qed

text \<open>What a frame of the stream leaves when there are not too many gaps.\<close>

definition accepted :: "byte list \<Rightarrow> QuicStreamSequencerBuffer \<Rightarrow> nat set \<Rightarrow> QuicStreamSequencerBuffer \<Rightarrow> bool" where
  "accepted s b R b' \<longleftrightarrow> seq_ok s b' \<and> set_points (bytes_received b') = set_points (bytes_received b) \<union> R
    \<and> total_bytes_read b' = total_bytes_read b \<and> max_buffer_capacity_bytes b' = max_buffer_capacity_bytes b"

definition received_outcome ::
    "byte list \<Rightarrow> QuicStreamSequencerBuffer \<Rightarrow> nat set \<Rightarrow> (QuicErrorCode \<times> nat \<times> QuicStreamSequencerBuffer) option \<Rightarrow> bool" where
  "received_outcome s b R r \<longleftrightarrow> (\<exists>b'.
       r = Some (QUIC_NO_ERROR, card (R - set_points (bytes_received b)), b') \<and> accepted s b R b'
     \<or> r = Some (QUIC_TOO_MANY_STREAM_DATA_INTERVALS, 0, b') \<and> kMaxNumDataIntervalsAllowed \<le> length (bytes_received b')
       \<and> Valid (bytes_received b') \<and> set_points (bytes_received b') = set_points (bytes_received b) \<union> R)"

lemma unread_window: "seq_ok s b \<Longrightarrow> unread b \<subseteq> window b"
  using seq_ok_simps(11) by (fastforce simp: unread_def window_def)

lemma ring_holds_unread: "seq_ok s b \<Longrightarrow> ring_holds s (b\<lparr>bytes_received := A\<rparr>) (unread b)"
  by (simp add: seq_ok_def ring_ok_def ring_holds_def ring_at_def block_at_def)

lemma accepted_of:
  assumes "seq_ok s (b2\<lparr>num_bytes_buffered := m\<rparr>)" "same_but_blocks (b\<lparr>bytes_received := A\<rparr>) b2"
    "set_points A = set_points (bytes_received b) \<union> R"
  shows "accepted s b R (b2\<lparr>num_bytes_buffered := m\<rparr>)"
  using assms same_but_blocks_fields [OF assms(2)] by (simp add: accepted_def)

lemma OnStreamData_new:
  assumes ok: "seq_ok s b" and n: "0 < n" "off + n \<le> length s" "off + n \<le> total_bytes_read b + max_buffer_capacity_bytes b"
    and new: "bytes_received b = [] \<or> off \<ge> imax (last (bytes_received b)) \<or> IsDisjoint (bytes_received b) (QuicInterval off (off + n))"
  shows "received_outcome s b {off ..< off + n} (OnStreamData b off (stream_piece s off n))"
proof -
  let ?R = "{off ..< off + n}" and ?P = "set_points (bytes_received b)" and ?r = "QuicInterval off (off + n)"
  let ?A = "AddOptimizedForAppend (bytes_received b) ?r"
  let ?b1 = "b\<lparr>bytes_received := ?A\<rparr>"
  note f = seq_ok_simps [OF ok] and r = readable_facts [OF seq_ok_simps(2) [OF ok]]
  have len: "length (stream_piece s off n) = n" by (rule length_stream_piece [OF n(2)])
  then have ne: "stream_piece s off n \<noteq> []" using n(1) by auto
  have words: "u64_add off n = off + n" "u64_add (total_bytes_read b) (max_buffer_capacity_bytes b) = total_bytes_read b + max_buffer_capacity_bytes b"
    using n f(6,7) r(6) by (simp_all add: u64_add_small)
  have fits: "\<not> (off + n > total_bytes_read b + max_buffer_capacity_bytes b \<or> off + n < off)" using n(3) by simp
  have A: "Valid ?A" "set_points ?A = ?P \<union> ?R"
    using AddOptimizedForAppend_correct [OF f(8), of ?r] by (simp_all add: points_QuicInterval)
  have disj: "?R \<inter> ?P = {}" by (rule disjoint_or_above [OF f(8) new])
  have Rw: "?R \<subseteq> window ?b1"
  proof
    fix x assume x: "x \<in> ?R"
    then have "x \<notin> {0 ..< total_bytes_read b}" using disj f(9) by blast
    then show "x \<in> window ?b1" using x n(3) by (auto simp: window_def)
  qed
  have sh: "shape_ok ?b1" using f(1) by simp
  show ?thesis
  proof (cases "length ?A \<ge> kMaxNumDataIntervalsAllowed")
    case True
    then have "OnStreamData b off (stream_piece s off n) = Some (QUIC_TOO_MANY_STREAM_DATA_INTERVALS, 0, ?b1)"
      unfolding OnStreamData_def Let_def len words using new fits ne by simp
    with True A show ?thesis by (auto simp: received_outcome_def)
  next
    case False
    have Uw: "unread b \<subseteq> window ?b1" using unread_window [OF ok] by (simp add: window_def)
    obtain b2 where b2: "CopyStreamData ?b1 off (stream_piece s off n) = Some (True, n, b2)" "shape_ok b2"
      "same_but_blocks ?b1 b2" "ring_holds s b2 (unread b \<union> ?R)"
      using CopyStreamData_holds [OF sh ring_holds_unread [OF ok] Uw Rw n(1,2)] r(6) by auto
    have D: "?R - ?P = ?R" using disj by blast
    have fin: "OnStreamData b off (stream_piece s off n) =
        Some (QUIC_NO_ERROR, n, b2\<lparr>num_bytes_buffered := u64_add (num_bytes_buffered b2) n\<rparr>)"
      unfolding OnStreamData_def Let_def len words using new fits ne False b2(1) by simp
    have "?R \<subseteq> {0 ..< length s}" "?R \<subseteq> {0 ..< total_bytes_read b + max_buffer_capacity_bytes b}" using n by auto
    then have "seq_ok s (b2\<lparr>num_bytes_buffered := u64_add (num_bytes_buffered b2) n\<rparr>)"
      using b2(2-4) by (intro seq_ok_received [OF ok A]) (simp_all add: D)
    from accepted_of [OF this b2(3) A(2)] show ?thesis unfolding received_outcome_def fin D by auto
  qed
qed

lemma OnStreamData_overlap:
  assumes ok: "seq_ok s b" and n: "0 < n" "off + n \<le> length s" "off + n \<le> total_bytes_read b + max_buffer_capacity_bytes b"
    and old: "\<not> (bytes_received b = [] \<or> off \<ge> imax (last (bytes_received b)) \<or> IsDisjoint (bytes_received b) (QuicInterval off (off + n)))"
  shows "received_outcome s b {off ..< off + n} (OnStreamData b off (stream_piece s off n))"
proof -
  let ?R = "{off ..< off + n}" and ?P = "set_points (bytes_received b)" and ?r = "QuicInterval off (off + n)"
  let ?A = "Set_Add (bytes_received b) ?r"
  let ?b1 = "b\<lparr>bytes_received := ?A\<rparr>"
  note f = seq_ok_simps [OF ok] and r = readable_facts [OF seq_ok_simps(2) [OF ok]]
  have len: "length (stream_piece s off n) = n" by (rule length_stream_piece [OF n(2)])
  then have ne: "stream_piece s off n \<noteq> []" using n(1) by auto
  have words: "u64_add off n = off + n" "u64_add (total_bytes_read b) (max_buffer_capacity_bytes b) = total_bytes_read b + max_buffer_capacity_bytes b"
    using n f(6,7) r(6) by (simp_all add: u64_add_small)
  have fits: "\<not> (off + n > total_bytes_read b + max_buffer_capacity_bytes b \<or> off + n < off)" using n(3) by simp
  have A: "Valid ?A" "set_points ?A = ?P \<union> ?R"
    using iset.inv_add [OF f(8)] iset.pts_add [OF f(8)] by (simp_all add: points_QuicInterval)
  have one: "Valid (Set_Add [] ?r)" "set_points (Set_Add [] ?r) = ?R"
    using iset.inv_add [of "[]" ?r] iset.pts_add [of "[]" ?r] by (simp_all add: points_QuicInterval)
  obtain N where N: "Set_Difference_set (Set_Add [] ?r) (bytes_received b) = Some N" "Valid N" "set_points N = ?R - ?P"
    using Set_Difference_set_correct [OF one(1) f(8)] unfolding one(2) by blast
  have go: "OnStreamData b off (stream_piece s off n) =
     (if N = [] then Some (QUIC_NO_ERROR, 0, b)
      else if length ?A \<ge> kMaxNumDataIntervalsAllowed then Some (QUIC_TOO_MANY_STREAM_DATA_INTERVALS, 0, ?b1)
      else Option.bind (CopyIntervals ?b1 off (stream_piece s off n) N 0)
             (\<lambda>(ok, bytes_buffered, b2).
                if \<not> ok then Some (QUIC_STREAM_SEQUENCER_INVALID_STATE, bytes_buffered, b2)
                else Some (QUIC_NO_ERROR, bytes_buffered,
                       b2\<lparr>num_bytes_buffered := u64_add (num_bytes_buffered b2) bytes_buffered\<rparr>)))"
    unfolding OnStreamData_def Let_def len words using old fits ne by (simp add: N(1))
  consider (none) "N = []" | (many) "N \<noteq> []" "length ?A \<ge> kMaxNumDataIntervalsAllowed"
    | (copy) "N \<noteq> []" "\<not> length ?A \<ge> kMaxNumDataIntervalsAllowed" by blast
  then show ?thesis
  proof cases
    case none
    then have "?R - ?P = {}" using N(3) by simp
    moreover from this have "accepted s b ?R b" using ok by (auto simp: accepted_def)
    ultimately show ?thesis using none by (auto simp: received_outcome_def go)
  next
    case many
    then show ?thesis using A by (auto simp: received_outcome_def go)
  next
    case copy
    have sh: "shape_ok ?b1" using f(1) by simp
    have Uw: "unread b \<subseteq> window ?b1" using unread_window [OF ok] by (simp add: window_def)
    have Nw: "set_points N \<subseteq> window ?b1" "set_points N \<subseteq> ?R"
      using f(9) n(3) unfolding N(3) by (auto simp: window_def) (meson atLeastLessThan_iff le0 not_less subset_iff)
    obtain b2 where b2: "CopyIntervals ?b1 off (stream_piece s off n) N 0 = Some (True, card (?R - ?P), b2)"
      "shape_ok b2" "same_but_blocks ?b1 b2" "ring_holds s b2 (unread b \<union> (?R - ?P))"
      using CopyIntervals_holds [OF sh ring_holds_unread [OF ok] Uw _ f(7) N(2) Nw n(2), of 0] r(6) unfolding N(3) by auto
    have fin: "OnStreamData b off (stream_piece s off n) =
        Some (QUIC_NO_ERROR, card (?R - ?P), b2\<lparr>num_bytes_buffered := u64_add (num_bytes_buffered b2) (card (?R - ?P))\<rparr>)"
      using go copy b2(1) by simp
    have "?R \<subseteq> {0 ..< length s}" "?R \<subseteq> {0 ..< total_bytes_read b + max_buffer_capacity_bytes b}" using n by auto
    then have "seq_ok s (b2\<lparr>num_bytes_buffered := u64_add (num_bytes_buffered b2) (card (?R - ?P))\<rparr>)"
      using b2(2-4) by (intro seq_ok_received [OF ok A]) simp_all
    from accepted_of [OF this b2(3) A(2)] show ?thesis unfolding received_outcome_def fin by auto
  qed
qed

lemma OnStreamData_correct:
  assumes "seq_ok s b" "0 < n" "off + n \<le> length s" "off + n \<le> total_bytes_read b + max_buffer_capacity_bytes b"
  shows "received_outcome s b {off ..< off + n} (OnStreamData b off (stream_piece s off n))"
  using OnStreamData_new [OF assms] OnStreamData_overlap [OF assms] by blast

lemma OnStreamData_rejects:
  assumes "seq_ok s b" "off + length data < 2 ^ 65" "off < 2 ^ 64" "length data < 2 ^ 64"
  shows "data = [] \<Longrightarrow> OnStreamData b off data = Some (QUIC_EMPTY_STREAM_FRAME_NO_FIN, 0, b)"
    and "data \<noteq> [] \<Longrightarrow> off + length data > total_bytes_read b + max_buffer_capacity_bytes b \<Longrightarrow>
      OnStreamData b off data = Some (QUIC_INTERNAL_ERROR, 0, b)"
proof -
  show "OnStreamData b off data = Some (QUIC_EMPTY_STREAM_FRAME_NO_FIN, 0, b)" if "data = []"
    using that by (simp add: OnStreamData_def)
  assume d: "data \<noteq> []" "off + length data > total_bytes_read b + max_buffer_capacity_bytes b"
  note f = seq_ok_simps [OF assms(1)] and r = readable_facts [OF seq_ok_simps(2) [OF assms(1)]]
  have w: "u64_add (total_bytes_read b) (max_buffer_capacity_bytes b) = total_bytes_read b + max_buffer_capacity_bytes b"
    using f(6) r(6) by (simp add: u64_add_small)
  have "u64_add off (length data) > total_bytes_read b + max_buffer_capacity_bytes b \<or> u64_add off (length data) < off"
  proof (cases "off + length data < 2 ^ 64")
    case True
    then show ?thesis using d(2) by (simp add: u64_add_small)
  next
    case False
    then have "u64_add off (length data) = off + length data - 2 ^ 64"
      using assms(2-4) by (simp add: u64_add_def le_mod_geq)
    then show ?thesis using assms(4) False by linarith
  qed
  then show "OnStreamData b off data = Some (QUIC_INTERNAL_ERROR, 0, b)"
    using d(1) by (simp add: OnStreamData_def w)
qed

section \<open>Data of any peer\<close>

text \<open>
  A peer may send different bytes for an offset twice. The buffer keeps those that came first: a frame acts as if
  it had carried the bytes of the stream \<open>overlay\<close>, which takes from the frame only what had not been received.
\<close>

definition overlay :: "byte list \<Rightarrow> nat set \<Rightarrow> nat \<Rightarrow> byte list \<Rightarrow> byte list" where
  "overlay s P off data = map (\<lambda>x. if x \<in> {off ..< off + length data} - P then data ! (x - off)
      else if x < length s then s ! x else 0) [0 ..< max (length s) (off + length data)]"

lemma length_overlay: "length (overlay s P off data) = max (length s) (off + length data)"
  by (simp add: overlay_def)

lemma nth_overlay:
  assumes "x < max (length s) (off + length data)"
  shows "overlay s P off data ! x = (if x \<in> {off ..< off + length data} - P then data ! (x - off)
      else if x < length s then s ! x else 0)"
  using assms by (simp add: overlay_def)

lemma seq_ok_overlay:
  assumes ok: "seq_ok s b" and len: "off + length data < 2 ^ 62"
  shows "seq_ok (overlay s (set_points (bytes_received b)) off data) b"
proof -
  let ?s = "overlay s (set_points (bytes_received b)) off data"
  note f = seq_ok_simps [OF ok]
  have "length ?s < 2 ^ 62" using f(7) len by (simp add: length_overlay)
  moreover have "set_points (bytes_received b) \<subseteq> {0 ..< length ?s}" using f(10) by (auto simp: length_overlay)
  ultimately have "received_ok ?s b" using f(8,9,11) by (simp add: received_ok_def)
  moreover have "?s ! x = s ! x" if "x \<in> unread b" for x
  proof -
    have "x \<in> set_points (bytes_received b)" using that by (simp add: unread_def)
    then have "x < length s" "x \<notin> {off ..< off + length data} - set_points (bytes_received b)" using f(10) by auto
    then show ?thesis by (subst nth_overlay) auto
  qed
  then have "ring_ok ?s b" using f(3) by (simp add: ring_ok_def)
  ultimately show ?thesis using f(1,4) by (simp add: seq_ok_def)
qed

lemma overlay_data:
  assumes "a + m \<le> length data"
    and "\<And>x. off + a \<le> x \<Longrightarrow> x < off + a + m \<Longrightarrow> x \<notin> P"
  shows "take m (drop a (stream_piece (overlay s P off data) off (length data))) = take m (drop a data)"
proof -
  have "stream_piece (overlay s P off data) (off + a) m = take m (drop a data)"
  proof (rule nth_equalityI)
    show "length (stream_piece (overlay s P off data) (off + a) m) = length (take m (drop a data))"
      using assms(1) by (simp add: stream_piece_def length_overlay)
    fix i assume "i < length (stream_piece (overlay s P off data) (off + a) m)"
    then have i: "i < m" by (simp add: stream_piece_def)
    then have "stream_piece (overlay s P off data) (off + a) m ! i = overlay s P off data ! (off + a + i)"
      using assms(1) by (intro nth_stream_piece) (simp_all add: length_overlay)
    also have "\<dots> = data ! (a + i)"
      using i assms(1) assms(2) [of "off + a + i"] by (simp add: nth_overlay)
    finally show "stream_piece (overlay s P off data) (off + a) m ! i = take m (drop a data) ! i"
      using i assms(1) by simp
  qed
  then show ?thesis using stream_piece_part [of a m "length data"] assms(1) by simp
qed

lemma CopyIntervals_cong:
  assumes "\<And>i. i \<in> set N \<Longrightarrow> take (u64_sub (imax i) (imin i)) (drop (u64_sub (imin i) off) data) =
      take (u64_sub (imax i) (imin i)) (drop (u64_sub (imin i) off) data')"
  shows "CopyIntervals b off data N m = CopyIntervals b off data' N m"
  using assms by (induction N arbitrary: b m) (simp_all add: Let_def cong: if_cong)

lemma OnStreamData_overlay:
  assumes ok: "seq_ok s b" and len: "off + length data < 2 ^ 62"
  shows "OnStreamData b off data =
    OnStreamData b off (stream_piece (overlay s (set_points (bytes_received b)) off data) off (length data))"
proof -
  let ?P = "set_points (bytes_received b)" and ?n = "length data" and ?r = "QuicInterval off (off + length data)"
  let ?d = "stream_piece (overlay s ?P off data) off ?n"
  have V: "Valid (bytes_received b)" by (rule seq_ok_simps(8) [OF ok])
  have l: "length ?d = ?n" by (rule length_stream_piece) (simp add: length_overlay)
  have w: "u64_add off ?n = off + ?n" using len by (simp add: u64_add_small)
  have e: "?d = [] \<longleftrightarrow> data = []" using l by (metis length_0_conv)
  show ?thesis
  proof (cases "bytes_received b = [] \<or> off \<ge> imax (last (bytes_received b)) \<or> IsDisjoint (bytes_received b) ?r")
    case True
    have "{off ..< off + ?n} \<inter> ?P = {}" by (rule disjoint_or_above [OF V True])
    then have "take ?n (drop 0 ?d) = take ?n (drop 0 data)"
      by (intro overlay_data) auto
    then have "?d = data" using l by simp
    then show ?thesis by simp
  next
    case False
    have one: "Valid (Set_Add [] ?r)" "set_points (Set_Add [] ?r) = {off ..< off + ?n}"
      using iset.inv_add [of "[]" ?r] iset.pts_add [of "[]" ?r] by (simp_all add: points_QuicInterval)
    obtain N where N: "Set_Difference_set (Set_Add [] ?r) (bytes_received b) = Some N" "Valid N"
      "set_points N = {off ..< off + ?n} - ?P"
      using Set_Difference_set_correct [OF one(1) V] unfolding one(2) by blast
    have "CopyIntervals c off data N 0 = CopyIntervals c off ?d N 0" for c
    proof (rule CopyIntervals_cong)
      fix i assume i: "i \<in> set N"
      then have "imin i < imax i" "points i \<subseteq> {off ..< off + ?n} - ?P"
        using Valid_nonempty [OF N(2)] N(3) by (auto simp: set_points_def)
      moreover from this have "imin i \<in> points i" "imax i - 1 \<in> points i" by (auto simp: points_def)
      ultimately have b: "off \<le> imin i" "imin i < imax i" "imax i \<le> off + ?n" "\<And>x. imin i \<le> x \<Longrightarrow> x < imax i \<Longrightarrow> x \<notin> ?P"
        by (auto simp: points_def subset_iff)
      then have "u64_sub (imax i) (imin i) = imax i - imin i" "u64_sub (imin i) off = imin i - off"
        using len by (simp_all add: u64_sub_small)
      moreover have "take (imax i - imin i) (drop (imin i - off) ?d) = take (imax i - imin i) (drop (imin i - off) data)"
        using b by (intro overlay_data) auto
      ultimately show "take (u64_sub (imax i) (imin i)) (drop (u64_sub (imin i) off) data) =
          take (u64_sub (imax i) (imin i)) (drop (u64_sub (imin i) off) ?d)" by simp
    qed
    then show ?thesis unfolding OnStreamData_def Let_def l w e N(1) using False by simp
  qed
qed

text \<open>A frame with data of its own: the outcome of \<open>OnStreamData_correct\<close>, for some stream.\<close>

lemma OnStreamData_any:
  assumes ok: "seq_ok s b" and data: "data \<noteq> []" "off + length data < 2 ^ 62"
    "off + length data \<le> total_bytes_read b + max_buffer_capacity_bytes b"
  shows "received_outcome (overlay s (set_points (bytes_received b)) off data) b {off ..< off + length data}
    (OnStreamData b off data)"
  unfolding OnStreamData_overlay [OF ok data(2)]
  using data by (intro OnStreamData_correct seq_ok_overlay [OF ok]) (simp_all add: length_overlay)

end
