(* ===== verification/Quic_Sequencer_Delivery.thy ===== *)
theory Quic_Sequencer_Delivery
  imports Quic_Sequencer_Regions Quic_Sequencer_Receiving
begin

section \<open>Peeking\<close>

lemma PeekRegion_next:
  assumes ok: "seq_ok s b" and r: "0 < ReadableBytes b" "ReadableBytes b + kBlockSizeBytes \<le> max_buffer_capacity_bytes b"
  shows "PeekRegion b (total_bytes_read b) = Some (NextBlockToRead b, ReadOffset b, in_block b)"
proof -
  let ?C = "max_buffer_capacity_bytes b" and ?T = "total_bytes_read b" and ?F = "FirstMissingByte b" and ?B = kBlockSizeBytes
  note f = seq_ok_simps [OF ok] and rd = readable_facts [OF seq_ok_simps(2) [OF ok]]
  define k where "k = ?T mod ?C"
  define d where "d = ?F - ?T"
  have k: "k < ?C" using f(5) by (simp add: k_def)
  have d: "0 < d" "?F = ?T + d" "d + ?B \<le> ?C" using rd r by (auto simp: d_def)
  have pos: "?F mod ?C = (k + d) mod ?C" unfolding d(2) k_def by (simp add: mod_add_left_eq)
  note e = block_end_bounds [OF kBlockSizeBytes_pos k]
  have ib: "in_block b = min d (block_end ?C ?B k - k)" using in_block_eq [OF ok] by (simp add: d_def k_def)
  have len: "(if k div ?B = (?F mod ?C) div ?B then u64_sub ((?F mod ?C) mod ?B) (k mod ?B)
      else u64_sub (GetBlockCapacity b (k div ?B)) (k mod ?B)) = in_block b"
  proof (cases "k + d < block_end ?C ?B k")
    case True
    then have m: "(k + d) mod ?C = k + d" by (simp add: block_end_def)
    moreover have "u64_sub (k mod ?B + d) (k mod ?B) = d" using d(3) f(6) by (subst u64_sub_small) (auto simp: kBlockSizeBytes_def)
    ultimately show ?thesis
      using same_block [OF kBlockSizeBytes_pos, of k "k + d" ?C] True ib unfolding pos by (simp add: min_def)
  next
    case False
    have "((k + d) mod ?C) div ?B \<noteq> k div ?B"
    proof (cases "k + d < ?C")
      case True
      then have "(k div ?B + 1) * ?B \<le> k + d" using False by (simp add: block_end_def)
      then have "k div ?B + 1 \<le> (k + d) div ?B" by (simp add: less_eq_div_iff_mult_less_eq)
      with True show ?thesis by simp
    next
      case wrap: False
      then have "(k + d) mod ?C = k + d - ?C" using d(3) k by (simp add: le_mod_geq)
      then have le: "(k + d) mod ?C + ?B \<le> k" using wrap d(3) by linarith
      have "((k + d) mod ?C + ?B) div ?B \<le> k div ?B" using le by (rule div_le_mono)
      then show ?thesis by (simp add: kBlockSizeBytes_def)
    qed
    then have "k div ?B \<noteq> (?F mod ?C) div ?B" unfolding pos by simp
    moreover have "in_block b = block_end ?C ?B k - k" using False ib by linarith
    ultimately show ?thesis using room_in_block [OF f(1) k] by simp
  qed
  have in_range: "\<not> ?T \<ge> ?F" using d by simp
  show ?thesis
    unfolding PeekRegion_def Let_def NextBlockToRead_def ReadOffset_def GetBlockIndex_def GetInBlockOffset_def
      k_def [symmetric] len using in_range by simp
qed

text \<open>A full buffer: the first missing byte is one lap ahead, in the block of the next byte.\<close>

lemma PeekRegion_full:
  assumes ok: "seq_ok s b" and full: "ReadableBytes b = max_buffer_capacity_bytes b" and j: "j < in_block b"
  shows "PeekRegion b (total_bytes_read b + j) =
    Some (NextBlockToRead b, ReadOffset b + j, if j = 0 then 0 else 2 ^ 64 - j)"
proof -
  let ?C = "max_buffer_capacity_bytes b" and ?T = "total_bytes_read b" and ?F = "FirstMissingByte b" and ?B = kBlockSizeBytes
  note f = seq_ok_simps [OF ok] and rd = readable_facts [OF seq_ok_simps(2) [OF ok]]
  define k where "k = ?T mod ?C"
  have k: "k < ?C" using f(5) by (simp add: k_def)
  have F: "?F = ?T + ?C" using rd full by linarith
  then have Fm: "?F mod ?C = k" by (simp add: k_def)
  note e = block_end_bounds [OF kBlockSizeBytes_pos k]
  have jr: "j < block_end ?C ?B k - k" "j < ?C" using j in_block_eq [OF ok] F by (simp_all add: k_def)
  have jm: "(?T + j) mod ?C = k + j" using mod_run [of ?T ?C j] jr e by (simp add: k_def)
  have blk: "(k + j) div ?B = k div ?B" "(k + j) mod ?B = k mod ?B + j"
    using same_block [OF kBlockSizeBytes_pos, of k "k + j" ?C] jr e by simp_all
  have "u64_sub (k mod ?B) (k mod ?B + j) = (if j = 0 then 0 else 2 ^ 64 - j)"
  proof -
    have "k mod ?B + j < 2 ^ 63" using jr f(6) mod_less_divisor [OF kBlockSizeBytes_pos, of k] by (simp add: kBlockSizeBytes_def)
    moreover from this have "k mod ?B + (2 ^ 64 - (k mod ?B + j)) = 2 ^ 64 - j" by simp
    ultimately show ?thesis by (simp add: u64_sub_def)
  qed
  moreover have "\<not> ?T + j \<ge> ?F" using F jr by simp
  ultimately show ?thesis
    by (simp add: PeekRegion_def Let_def GetBlockIndex_def GetInBlockOffset_def Fm jm blk NextBlockToRead_def ReadOffset_def
      k_def [symmetric])
qed

section \<open>Runs\<close>

text \<open>
  A buffer in use: frames of the stream \<open>s\<close> arrive in any order, overlapping or repeated, and a client reads by
  copying or in place. Beside the buffer stand the bytes handed to the client so far and the offsets of the
  accepted frames.
\<close>

inductive seq_run :: "byte list \<Rightarrow> nat \<Rightarrow> QuicStreamSequencerBuffer \<Rightarrow> byte list \<Rightarrow> nat set \<Rightarrow> bool" for s C where
  start: "seq_run s C (new_QuicStreamSequencerBuffer C) [] {}"
| frame: "seq_run s C b out P \<Longrightarrow> off + n \<le> length s \<Longrightarrow>
    OnStreamData b off (stream_piece s off n) = Some (QUIC_NO_ERROR, k, b') \<Longrightarrow>
    seq_run s C b' out (P \<union> {off ..< off + n})"
| readv: "seq_run s C b out P \<Longrightarrow> Readv b iov = Some (e, dests, b') \<Longrightarrow> seq_run s C b' (out @ concat dests) P"
| in_place: "seq_run s C b out P \<Longrightarrow> 0 < cnt \<Longrightarrow> GetReadableRegions b cnt = regs \<Longrightarrow>
    n \<le> sum_list (map region_length regs) \<Longrightarrow> MarkConsumed b n = Some (done_all, b') \<Longrightarrow>
    seq_run s C b' (out @ take n (concat (map (region_bytes b) regs))) P"
| prefetch: "seq_run s C b out P \<Longrightarrow> PrefetchNextRegion b = (iov, b') \<Longrightarrow> seq_run s C b' out P"

definition run_state :: "byte list \<Rightarrow> nat \<Rightarrow> QuicStreamSequencerBuffer \<Rightarrow> byte list \<Rightarrow> nat set \<Rightarrow> bool" where
  "run_state s C b out P \<longleftrightarrow> seq_ok s b \<and> max_buffer_capacity_bytes b = C \<and> out = take (total_bytes_read b) s
     \<and> set_points (bytes_received b) = P"

lemma OnStreamData_no_error:
  assumes ok: "seq_ok s b" and n: "off + n \<le> length s"
    and r: "OnStreamData b off (stream_piece s off n) = Some (QUIC_NO_ERROR, k, b')"
  shows "accepted s b {off ..< off + n} b'" "k = card ({off ..< off + n} - set_points (bytes_received b))" "0 < n"
    "off + n \<le> total_bytes_read b + max_buffer_capacity_bytes b"
proof -
  let ?d = "stream_piece s off n"
  have len: "length ?d = n" by (rule length_stream_piece [OF n])
  have small: "off + length ?d < 2 ^ 65" "off < 2 ^ 64" "length ?d < 2 ^ 64" using n seq_ok_simps(7) [OF ok] len by simp_all
  note rej = OnStreamData_rejects [OF ok small]
  have "?d \<noteq> []" using rej(1) r by auto
  then show np: "0 < n" using len by (cases n) auto
  show w: "off + n \<le> total_bytes_read b + max_buffer_capacity_bytes b"
    using rej(2) [OF \<open>?d \<noteq> []\<close>] r unfolding len by fastforce
  from OnStreamData_correct [OF ok np n w] show "accepted s b {off ..< off + n} b'"
    "k = card ({off ..< off + n} - set_points (bytes_received b))"
    unfolding r received_outcome_def by auto
qed

lemma run_state_read:
  assumes "run_state s C b out P" "seq_ok s b'" "total_bytes_read b' = total_bytes_read b + n" "n \<le> ReadableBytes b"
    "bytes_received b' = bytes_received b" "max_buffer_capacity_bytes b' = max_buffer_capacity_bytes b"
    "data = take n (readable s b)"
  shows "run_state s C b' (out @ data) P"
  using assms by (simp add: run_state_def readable_def min_def take_add)

lemma seq_run_state:
  assumes "seq_run s C b out P" "0 < C" "C < 2 ^ 62" "length s < 2 ^ 62"
  shows "run_state s C b out P"
  using assms(1)
proof (induction rule: seq_run.induct)
  case start
  have "set_points (bytes_received (new_QuicStreamSequencerBuffer C)) = {}"
    using seq_ok_new(2,3) [OF assms(2-4)] by (simp add: unread_def)
  then show ?case using seq_ok_new [OF assms(2-4)] by (simp add: run_state_def)
next
  case (frame b out P off n k b')
  then have "seq_ok s b" by (simp add: run_state_def)
  from OnStreamData_no_error(1) [OF this frame.hyps(2,3)] frame.IH show ?case by (simp add: run_state_def accepted_def)
next
  case (readv b out P iov e dests b')
  then have ok: "seq_ok s b" by (simp add: run_state_def)
  obtain b1 where b1: "Readv b iov = Some (QUIC_NO_ERROR, fill_buffers iov (readable s b), b1)" "seq_ok s b1"
    "total_bytes_read b1 = total_bytes_read b + min (sum_list iov) (ReadableBytes b)" "bytes_received b1 = bytes_received b"
    "max_buffer_capacity_bytes b1 = max_buffer_capacity_bytes b"
    using Readv_correct [OF ok] by blast
  have "concat (fill_buffers iov (readable s b)) = take (min (sum_list iov) (ReadableBytes b)) (readable s b)"
    by (simp add: concat_fill_buffers length_readable [OF ok, symmetric] min_def)
  with run_state_read [OF readv.IH b1(2,3) _ b1(4,5)] b1(1) readv.hyps(2) show ?case by simp
next
  case (in_place b out P cnt regs n acc b')
  then have ok: "seq_ok s b" by (simp add: run_state_def)
  note cover = GetReadableRegions_cover [OF ok in_place.hyps(2), unfolded in_place.hyps(3) regions_cover_def]
  have n: "n \<le> ReadableBytes b" using cover in_place.hyps(4) by linarith
  obtain b1 where b1: "MarkConsumed b n = Some (True, b1)" "seq_ok s b1" "total_bytes_read b1 = total_bytes_read b + n"
    "bytes_received b1 = bytes_received b" "max_buffer_capacity_bytes b1 = max_buffer_capacity_bytes b"
    using MarkConsumed_correct(2) [OF ok n] by blast
  have "take n (concat (map (region_bytes b) regs)) = take n (readable s b)"
    using cover in_place.hyps(4) by (simp add: min_def)
  with run_state_read [OF in_place.IH b1(2,3) n b1(4,5)] b1(1) in_place.hyps(5) show ?case by simp
next
  case (prefetch b out P iov b')
  then have "b' = b \<or> (\<exists>p. b' = b\<lparr>total_bytes_prefetched := p\<rparr>)"
    by (auto simp: PrefetchNextRegion_def split: option.splits)
  with prefetch.IH show ?case by (auto simp: run_state_def seq_ok_prefetched)
qed

section \<open>What the buffer guarantees\<close>

lemma intervals_le_points:
  assumes "Valid S"
  shows "length S \<le> card (set_points (S :: nat QuicIntervalSet))"
  using assms
proof (induction S)
  case (Cons i S)
  have "card (set_points (i # S)) = (imax i - imin i) + card (set_points S)" by (rule card_set_points_Cons [OF Cons.prems])
  moreover have "imin i < imax i" "Valid S" using Cons.prems by (simp_all add: Valid_Cons)
  ultimately show ?case using Cons.IH by simp
qed simp

text \<open>A short stream cannot have too many gaps, so that a frame within the window is accepted.\<close>

lemma seq_run_frame:
  assumes run: "seq_run s C b out P" "0 < C" "C < 2 ^ 62" "length s < kMaxNumDataIntervalsAllowed"
    and n: "0 < n" "off + n \<le> length s" "off + n \<le> length out + C"
  shows "\<exists>b'. OnStreamData b off (stream_piece s off n) = Some (QUIC_NO_ERROR, card ({off ..< off + n} - P), b')
    \<and> seq_run s C b' out (P \<union> {off ..< off + n})"
proof -
  have ls: "length s < 2 ^ 62" using run(4) by (simp add: kMaxNumDataIntervalsAllowed_def)
  have st: "seq_ok s b" "max_buffer_capacity_bytes b = C" "length out = total_bytes_read b" "set_points (bytes_received b) = P"
    using seq_run_state [OF run(1-3) ls] readable_facts(5) [of s b] by (auto simp: run_state_def seq_ok_def)
  have w: "off + n \<le> total_bytes_read b + max_buffer_capacity_bytes b" using n(3) st by simp
  let ?R = "{off ..< off + n}"
  have "received_outcome s b ?R (OnStreamData b off (stream_piece s off n))" by (rule OnStreamData_correct [OF st(1) n(1,2) w])
  moreover have "\<not> (kMaxNumDataIntervalsAllowed \<le> length S \<and> Valid S \<and> set_points S = P \<union> ?R)" for S
  proof
    assume a: "kMaxNumDataIntervalsAllowed \<le> length S \<and> Valid S \<and> set_points S = P \<union> ?R"
    have "P \<union> ?R \<subseteq> {0 ..< length s}" using seq_ok_simps(10) [OF st(1)] st(4) n(2) by auto
    then have "card (P \<union> ?R) \<le> length s" using card_mono [of "{0 ..< length s}"] by fastforce
    then show False using a intervals_le_points [of S] run(4) by simp
  qed
  ultimately obtain b' where r: "OnStreamData b off (stream_piece s off n) = Some (QUIC_NO_ERROR, card (?R - P), b')"
    unfolding received_outcome_def st(4) by blast
  from seq_run.frame [OF run(1) n(2) r] r show ?thesis by blast
qed

text \<open>Runs for the examples below: a gap at offset 3 after a read of two bytes, and a stream that is all there.\<close>

lemma seq_run_readv:
  assumes "seq_run s C b out P" "0 < C" "C < 2 ^ 62" "length s < 2 ^ 62"
    and "n \<le> k" "{0 ..< length out + k} \<subseteq> P"
  shows "\<exists>b'. seq_run s C b' (out @ take n (drop (length out) s)) P"
proof -
  have st: "seq_ok s b" "length out = total_bytes_read b" "set_points (bytes_received b) = P"
    using seq_run_state [OF assms(1-4)] readable_facts(5) [of s b] by (auto simp: run_state_def seq_ok_def)
  have "FirstMissingByte b \<notin> P" using FirstMissingByte_facts(2) [OF seq_ok_simps(8) [OF st(1)]] st(3) by simp
  then have "length out + k \<le> FirstMissingByte b" using assms(6) by (meson atLeastLessThan_iff in_mono le0 not_less)
  then have "n \<le> ReadableBytes b" using readable_facts(4) [OF seq_ok_simps(2) [OF st(1)]] assms(5) st(2) by simp
  then have "concat (fill_buffers [n] (readable s b)) = take n (drop (length out) s)"
    unfolding concat_fill_buffers by (simp add: readable_def st(2) min_def)
  moreover obtain b' where "Readv b [n] = Some (QUIC_NO_ERROR, fill_buffers [n] (readable s b), b')"
    using Readv_correct [OF st(1)] by blast
  ultimately show ?thesis using seq_run.readv [OF assms(1)] by metis
qed

lemma seq_run_readable:
  assumes "seq_run s C b out P" "0 < C" "C < 2 ^ 62" "length s < 2 ^ 62"
    and "{0 ..< length out + k} \<subseteq> P" "length out + k \<notin> P"
  shows "ReadableBytes b = k"
proof -
  have st: "seq_ok s b" "length out = total_bytes_read b" "set_points (bytes_received b) = P"
    using seq_run_state [OF assms(1-4)] readable_facts(5) [of s b] by (auto simp: run_state_def seq_ok_def)
  note F = FirstMissingByte_facts [OF seq_ok_simps(8) [OF st(1)], unfolded st(3)]
  have "length out + k \<le> FirstMissingByte b" using assms(5) F(2) by (meson atLeastLessThan_iff in_mono le0 not_less)
  moreover have "FirstMissingByte b \<le> length out + k"
    using assms(6) F(1) by (meson atLeastLessThan_iff in_mono le0 not_less)
  ultimately show ?thesis using readable_facts(4) [OF seq_ok_simps(2) [OF st(1)]] st(2) by simp
qed

lemma example_all: "\<exists>b. seq_run [1, 2, 3] 4 b [] {0 ..< 3}"
  using seq_run_frame [OF seq_run.start [of "[1, 2, 3]" 4], of 3 0] by (auto simp: kMaxNumDataIntervalsAllowed_def)

lemma example_full: "\<exists>b. seq_run [1, 2, 3, 4] 4 b [] {0 ..< 4}"
  using seq_run_frame [OF seq_run.start [of "[1, 2, 3, 4]" 4], of 4 0] by (auto simp: kMaxNumDataIntervalsAllowed_def)

lemma example_run: "\<exists>b. seq_run [1, 2, 3, 4, 5] 4 b [1, 2] {0, 1, 2, 4}"
proof -
  let ?s = "[1, 2, 3, 4, 5 :: byte]"
  have small: "length ?s < kMaxNumDataIntervalsAllowed" by (simp add: kMaxNumDataIntervalsAllowed_def)
  obtain b1 where b1: "seq_run ?s 4 b1 [] {0 ..< 3}"
    using seq_run_frame [OF seq_run.start [of ?s 4] _ _ small, of 3 0] by auto
  obtain b2 where b2: "seq_run ?s 4 b2 [1, 2] {0 ..< 3}"
    using seq_run_readv [OF b1, of 2 3] by auto
  obtain b3 where b3: "seq_run ?s 4 b3 [1, 2] ({0 ..< 3} \<union> {4 ..< 5})"
    using seq_run_frame [OF b2 _ _ small, of 1 4] by auto
  moreover have "{0 ..< 3} \<union> {4 ..< 5} = {0, 1, 2, 4 :: nat}" by auto
  ultimately show ?thesis by auto
qed





text \<open>
  C16: A read always returns, without an error, and fills the caller's buffers with the next bytes of the stream up
  to the first gap; when all of the stream has arrived and the buffers are large enough, the client then has it all.
\<close>

theorem sequencer_reads:
  assumes "seq_run s C b out P" "0 < C" "C < 2 ^ 62" "length s < 2 ^ 62"
  shows "\<exists>b' dests. Readv b iov = Some (QUIC_NO_ERROR, dests, b')
    \<and> dests = fill_buffers iov (take (ReadableBytes b) (drop (length out) s)) \<and> seq_run s C b' (out @ concat dests) P
    \<and> (P = {0 ..< length s} \<and> length s \<le> length out + sum_list iov \<longrightarrow> out @ concat dests = s)"
proof -
  have st: "seq_ok s b" "out = take (total_bytes_read b) s" "length out = total_bytes_read b"
    "set_points (bytes_received b) = P"
    using seq_run_state [OF assms] readable_facts(5) [of s b] by (auto simp: run_state_def seq_ok_def)
  note f = seq_ok_simps [OF st(1)] and r = readable_facts [OF seq_ok_simps(2) [OF st(1)]]
  let ?d = "fill_buffers iov (readable s b)"
  obtain b' where b': "Readv b iov = Some (QUIC_NO_ERROR, ?d, b')" using Readv_correct [OF st(1)] by blast
  have "out @ concat ?d = s" if all: "P = {0 ..< length s}" "length s \<le> length out + sum_list iov"
  proof -
    have "FirstMissingByte b = length s"
      using FirstMissingByte_facts(2) [OF f(8)] r(2) st(4) all(1) by auto
    then have "readable s b = drop (total_bytes_read b) s" using r(4) by (simp add: readable_def)
    moreover have "length s - total_bytes_read b \<le> sum_list iov" using all(2) st(3) by simp
    ultimately show ?thesis using st(2) by (simp add: concat_fill_buffers)
  qed
  then show ?thesis
    using b' seq_run.readv [OF assms(1) b'] by (auto simp: readable_def st(3))
qed

theorem sequencer_reads_witness:
  "\<exists>b b'. seq_run [1, 2, 3] 4 b [] {0 ..< 3} \<and> Readv b [2, 5] = Some (QUIC_NO_ERROR, [[1, 2], [3]], b')"
proof -
  obtain b where b: "seq_run [1, 2, 3] 4 b [] {0 ..< 3}" using example_all by blast
  have "ReadableBytes b = 3" by (rule seq_run_readable [OF b]) simp_all
  with b sequencer_reads [OF b, of "[2, 5]"] show ?thesis by fastforce
qed

text \<open>
  C39: The regions returned for reading in place hold the next bytes of the stream, in order and without a gap, and
  all that can be read when there are fewer of them than the caller has room for.
\<close>

theorem sequencer_regions:
  assumes "seq_run s C b out P" "0 < C" "C < 2 ^ 62" "length s < 2 ^ 62" "0 < cnt"
  shows "let regs = GetReadableRegions b cnt; total = sum_list (map region_length regs)
    in concat (map (region_bytes b) regs) = take total (drop (length out) s)
     \<and> length regs \<le> cnt \<and> total \<le> ReadableBytes b \<and> (length regs < cnt \<longrightarrow> total = ReadableBytes b)"
proof -
  have st: "seq_ok s b" "length out = total_bytes_read b"
    using seq_run_state [OF assms(1-4)] readable_facts(5) [of s b] by (auto simp: run_state_def seq_ok_def)
  note cover = GetReadableRegions_cover [OF st(1) assms(5), unfolded regions_cover_def]
  then show ?thesis unfolding Let_def st(2) readable_def by (auto simp: min_def)
qed

theorem sequencer_regions_witness:
  "\<exists>b. seq_run [1, 2, 3] 4 b [] {0 ..< 3} \<and> length (GetReadableRegions b 2) \<le> 2"
proof -
  obtain b where b: "seq_run [1, 2, 3] 4 b [] {0 ..< 3}" using example_all by blast
  with sequencer_regions [OF b, of 2] show ?thesis by (auto simp: Let_def)
qed

text \<open>
  C40: \<open>PeekRegion\<close> fails on a full buffer: the first missing byte is then one lap ahead, in the same block, and the
  region it reports for the next byte to read is empty although the whole capacity is readable; for a later byte of
  that block the length wraps around to almost \<open>2 ^ 64\<close>.
\<close>

theorem peek_region_full_buffer:
  assumes "seq_run s C b out P" "0 < C" "C < 2 ^ 62" "length s < 2 ^ 62" "ReadableBytes b = C" "j < in_block b"
  shows "\<exists>idx off. PeekRegion b (length out + j) = Some (idx, off, if j = 0 then 0 else 2 ^ 64 - j)"
proof -
  have st: "seq_ok s b" "length out = total_bytes_read b" "ReadableBytes b = max_buffer_capacity_bytes b"
    using seq_run_state [OF assms(1-4)] readable_facts(5) [of s b] assms(5) by (auto simp: run_state_def seq_ok_def)
  from PeekRegion_full [OF st(1,3) assms(6)] st(2) show ?thesis by simp
qed

theorem peek_region_full_buffer_witness:
  "\<exists>b idx off. seq_run [1, 2, 3, 4] 4 b [] {0 ..< 4} \<and> ReadableBytes b = 4 \<and> PeekRegion b 0 = Some (idx, off, 0)
    \<and> (\<exists>idx off. PeekRegion b 1 = Some (idx, off, 2 ^ 64 - 1))"
proof -
  obtain b where b: "seq_run [1, 2, 3, 4] 4 b [] {0 ..< 4}" using example_full by blast
  have r: "ReadableBytes b = 4" by (rule seq_run_readable [OF b]) simp_all
  have "run_state [1, 2, 3, 4] 4 b [] {0 ..< 4}" by (rule seq_run_state [OF b]) simp_all
  then have st: "seq_ok [1, 2, 3, 4] b" "max_buffer_capacity_bytes b = 4" "total_bytes_read b = 0"
    by (auto simp: run_state_def)
  have "in_block b = 4"
    using in_block_eq [OF st(1)] r readable_facts(4) [OF seq_ok_simps(2) [OF st(1)]] st
    by (simp add: block_end_def kBlockSizeBytes_def)
  with peek_region_full_buffer [OF b, of 0] peek_region_full_buffer [OF b, of 1] r b show ?thesis by auto
qed

end
