(* ===== verification/Quic_Stream_Sequencer.thy ===== *)
theory Quic_Stream_Sequencer
  imports Quic_Sequencer_Delivery Quic_Frames "HOL-Library.Monad_Syntax"
begin

text \<open>
  The sequencer of a stream (src/quic/core/quic_stream_sequencer.cc and .h): it puts the frames of a stream into
  the sequencer buffer, tells the stream when there is something to read, and passes the end of the stream on.

  The sequencer and its stream call each other. The state of a model operation is therefore the whole world
  \<open>'w\<close> of the stream, and \<open>StreamInterface\<close> has, beside the callbacks of the C++ interface, the way to the sequencer
  inside it. A callback may do anything to the world, the sequencer included, and may fail to return (\<open>None\<close>).
  The counters of frames, of type \<open>int\<close> in the source, are unbounded here.
\<close>

section \<open>State\<close>

definition kStreamReceiveWindowLimit :: nat where
  "kStreamReceiveWindowLimit = 16 * 1024 * 1024"

definition kMaxOffset :: nat where
  "kMaxOffset = 2 ^ 64 - 1"

record QuicStreamSequencer =
  buffered_frames :: QuicStreamSequencerBuffer
  close_offset :: nat
  blocked :: bool
  num_frames_received :: nat
  num_duplicate_frames_received :: nat
  ignore_read_data :: bool
  level_triggered :: bool
  stop_reading_when_level_triggered :: bool

record 'w StreamInterface =
  sequencer_of :: "'w \<Rightarrow> QuicStreamSequencer"
  with_sequencer :: "QuicStreamSequencer \<Rightarrow> 'w \<Rightarrow> 'w"
  OnDataAvailable :: "'w \<Rightarrow> 'w option"
  OnFinRead :: "'w \<Rightarrow> 'w option"
  AddBytesConsumed_callback :: "nat \<Rightarrow> 'w \<Rightarrow> 'w option"
  Reset_callback :: "QuicRstStreamErrorCode \<Rightarrow> 'w \<Rightarrow> 'w option"
  CloseConnectionWithDetails :: "QuicErrorCode \<Rightarrow> 'w \<Rightarrow> 'w option"

definition new_QuicStreamSequencer :: "bool \<Rightarrow> QuicStreamSequencer" where
  "new_QuicStreamSequencer stop_reading_flag =
     \<lparr>buffered_frames = new_QuicStreamSequencerBuffer kStreamReceiveWindowLimit, close_offset = kMaxOffset,
      blocked = False, num_frames_received = 0, num_duplicate_frames_received = 0, ignore_read_data = False,
      level_triggered = False, stop_reading_when_level_triggered = stop_reading_flag\<rparr>"

definition upd_sequencer :: "'w StreamInterface \<Rightarrow> (QuicStreamSequencer \<Rightarrow> QuicStreamSequencer) \<Rightarrow> 'w \<Rightarrow> 'w" where
  "upd_sequencer I f w = with_sequencer I (f (sequencer_of I w)) w"

definition upd_buffer :: "'w StreamInterface \<Rightarrow> QuicStreamSequencerBuffer \<Rightarrow> 'w \<Rightarrow> 'w" where
  "upd_buffer I b w = upd_sequencer I (\<lambda>q. q\<lparr>buffered_frames := b\<rparr>) w"

definition buffer_of :: "'w StreamInterface \<Rightarrow> 'w \<Rightarrow> QuicStreamSequencerBuffer" where
  "buffer_of I w = buffered_frames (sequencer_of I w)"

section \<open>Operations\<close>

definition Sequencer_HasBytesToRead :: "QuicStreamSequencer \<Rightarrow> bool" where
  "Sequencer_HasBytesToRead q = HasBytesToRead (buffered_frames q)"

definition Sequencer_ReadableBytes :: "QuicStreamSequencer \<Rightarrow> nat" where
  "Sequencer_ReadableBytes q = ReadableBytes (buffered_frames q)"

definition IsClosed :: "QuicStreamSequencer \<Rightarrow> bool" where
  "IsClosed q \<longleftrightarrow> BytesConsumed (buffered_frames q) \<ge> close_offset q"

definition NumBytesBuffered :: "QuicStreamSequencer \<Rightarrow> nat" where
  "NumBytesBuffered q = BytesBuffered (buffered_frames q)"

definition NumBytesConsumed :: "QuicStreamSequencer \<Rightarrow> nat" where
  "NumBytesConsumed q = BytesConsumed (buffered_frames q)"

definition MaybeCloseStream :: "'w StreamInterface \<Rightarrow> 'w \<Rightarrow> (bool \<times> 'w) option" where
  "MaybeCloseStream I w =
     (let q = sequencer_of I w
      in if blocked q \<or> \<not> IsClosed q then Some (False, w)
         else do {
           w1 \<leftarrow> (if ignore_read_data q then OnFinRead I w else OnDataAvailable I w);
           Some (True, upd_buffer I (Clear (buffer_of I w1)) w1)
         })"

definition Sequencer_FlushBufferedFrames :: "'w StreamInterface \<Rightarrow> 'w \<Rightarrow> 'w option" where
  "Sequencer_FlushBufferedFrames I w =
     (let (bytes_flushed, b) = FlushBufferedFrames (buffer_of I w)
      in do {
        w1 \<leftarrow> AddBytesConsumed_callback I bytes_flushed (upd_buffer I b w);
        (closed, w2) \<leftarrow> MaybeCloseStream I w1;
        Some w2
      })"

definition CloseStreamAtOffset :: "'w StreamInterface \<Rightarrow> nat \<Rightarrow> 'w \<Rightarrow> 'w option" where
  "CloseStreamAtOffset I offset w =
     (let q = sequencer_of I w
      in if close_offset q \<noteq> kMaxOffset \<and> offset \<noteq> close_offset q
         then Reset_callback I QUIC_MULTIPLE_TERMINATION_OFFSETS w
         else do {
           (closed, w1) \<leftarrow> MaybeCloseStream I (upd_sequencer I (\<lambda>q. q\<lparr>close_offset := offset\<rparr>) w);
           Some w1
         })"

definition OnFrameData :: "'w StreamInterface \<Rightarrow> nat \<Rightarrow> byte list \<Rightarrow> 'w \<Rightarrow> 'w option" where
  "OnFrameData I byte_offset data w =
     (let q = sequencer_of I w;
          previous_readable_bytes = ReadableBytes (buffered_frames q)
      in do {
        (result, bytes_written, b) \<leftarrow> OnStreamData (buffered_frames q) byte_offset data;
        let w1 = upd_buffer I b w;
        if result \<noteq> QUIC_NO_ERROR then CloseConnectionWithDetails I result w1
        else if bytes_written = 0
        then Some (upd_sequencer I (\<lambda>q. q\<lparr>num_duplicate_frames_received := num_duplicate_frames_received q + 1\<rparr>) w1)
        else if blocked q then Some w1
        else if level_triggered q
        then if ReadableBytes b > previous_readable_bytes
             then if stop_reading_when_level_triggered q \<and> ignore_read_data q
                  then Sequencer_FlushBufferedFrames I w1
                  else OnDataAvailable I w1
             else Some w1
        else if previous_readable_bytes = 0 \<and> ReadableBytes b > 0
        then if ignore_read_data q then Sequencer_FlushBufferedFrames I w1 else OnDataAvailable I w1
        else Some w1
      })"

definition count_frame :: "'w StreamInterface \<Rightarrow> 'w \<Rightarrow> 'w" where
  "count_frame I w = upd_sequencer I (\<lambda>q. q\<lparr>num_frames_received := num_frames_received q + 1\<rparr>) w"

text \<open>The data of a frame: \<open>data_length\<close> bytes from \<open>data_buffer\<close> on.\<close>

definition stream_frame_data :: "QuicStreamFrame \<Rightarrow> byte list" where
  "stream_frame_data f =
     take (unat (sf_data_length f)) (case sf_data_buffer f of None \<Rightarrow> [] | Some data \<Rightarrow> data)"

definition Sequencer_OnStreamFrame :: "'w StreamInterface \<Rightarrow> QuicStreamFrame \<Rightarrow> 'w \<Rightarrow> 'w option" where
  "Sequencer_OnStreamFrame I frame w =
     (let w1 = count_frame I w;
          byte_offset = unat (sf_offset frame);
          data_len = unat (sf_data_length frame)
      in if sf_fin frame
         then do {
           w2 \<leftarrow> CloseStreamAtOffset I (u64_add byte_offset data_len) w1;
           if data_len = 0 then Some w2 else OnFrameData I byte_offset (stream_frame_data frame) w2
         }
         else OnFrameData I byte_offset (stream_frame_data frame) w1)"

definition Sequencer_OnCryptoFrame :: "'w StreamInterface \<Rightarrow> nat \<Rightarrow> byte list \<Rightarrow> 'w \<Rightarrow> 'w option" where
  "Sequencer_OnCryptoFrame I offset data w = OnFrameData I offset data (count_frame I w)"

text \<open>\<open>Readv\<close>: the bytes written into each buffer of the caller; its return value is their total length.\<close>

definition Sequencer_Readv :: "'w StreamInterface \<Rightarrow> nat list \<Rightarrow> 'w \<Rightarrow> (byte list list \<times> 'w) option" where
  "Sequencer_Readv I iov w =
     do {
       (read_error, dests, b) \<leftarrow> Readv (buffer_of I w) iov;
       let w1 = upd_buffer I b w;
       if read_error \<noteq> QUIC_NO_ERROR
       then do { w2 \<leftarrow> CloseConnectionWithDetails I read_error w1; Some (dests, w2) }
       else do { w2 \<leftarrow> AddBytesConsumed_callback I (length (concat dests)) w1; Some (dests, w2) }
     }"

definition Sequencer_Read :: "'w StreamInterface \<Rightarrow> byte list \<Rightarrow> 'w \<Rightarrow> (byte list \<times> 'w) option" where
  "Sequencer_Read I buffer w =
     do {
       (dests, w1) \<leftarrow> Sequencer_Readv I [Sequencer_ReadableBytes (sequencer_of I w)] w;
       Some (buffer @ concat dests, w1)
     }"

definition Sequencer_MarkConsumed :: "'w StreamInterface \<Rightarrow> nat \<Rightarrow> 'w \<Rightarrow> 'w option" where
  "Sequencer_MarkConsumed I num_bytes_consumed w =
     do {
       (result, b) \<leftarrow> MarkConsumed (buffer_of I w) num_bytes_consumed;
       let w1 = upd_buffer I b w;
       if \<not> result then Reset_callback I QUIC_ERROR_PROCESSING_STREAM w1
       else AddBytesConsumed_callback I num_bytes_consumed w1
     }"

definition SetBlockedUntilFlush :: "'w StreamInterface \<Rightarrow> 'w \<Rightarrow> 'w" where
  "SetBlockedUntilFlush I w = upd_sequencer I (\<lambda>q. q\<lparr>blocked := True\<rparr>) w"

definition SetUnblocked :: "'w StreamInterface \<Rightarrow> 'w \<Rightarrow> 'w option" where
  "SetUnblocked I w =
     (let w1 = upd_sequencer I (\<lambda>q. q\<lparr>blocked := False\<rparr>) w; q = sequencer_of I w1
      in if IsClosed q \<or> Sequencer_HasBytesToRead q then OnDataAvailable I w1 else Some w1)"

definition Sequencer_StopReading :: "'w StreamInterface \<Rightarrow> 'w \<Rightarrow> 'w option" where
  "Sequencer_StopReading I w =
     (if ignore_read_data (sequencer_of I w) then Some w
      else Sequencer_FlushBufferedFrames I (upd_sequencer I (\<lambda>q. q\<lparr>ignore_read_data := True\<rparr>) w))"

definition ReleaseBuffer :: "'w StreamInterface \<Rightarrow> 'w \<Rightarrow> 'w" where
  "ReleaseBuffer I w = upd_buffer I (ReleaseWholeBuffer (buffer_of I w)) w"

definition ReleaseBufferIfEmpty :: "'w StreamInterface \<Rightarrow> 'w \<Rightarrow> 'w" where
  "ReleaseBufferIfEmpty I w = (if Buffer_Empty (buffer_of I w) then ReleaseBuffer I w else w)"

definition set_level_triggered :: "'w StreamInterface \<Rightarrow> bool \<Rightarrow> 'w \<Rightarrow> 'w" where
  "set_level_triggered I b w = upd_sequencer I (\<lambda>q. q\<lparr>level_triggered := b\<rparr>) w"

section \<open>The contract between a stream and its sequencer\<close>

text \<open>
  What the sequencer keeps of a stream. \<open>J\<close> is the invariant of the rest of the stream, \<open>ok\<close> tells that the stream still accounts for the bytes it receives,
  \<open>consumed\<close> how many it has accounted for, and \<open>limit\<close> the end of the data it has let through to the sequencer.
\<close>

definition stream_inv ::
    "'w StreamInterface \<Rightarrow> ('w \<Rightarrow> bool) \<Rightarrow> ('w \<Rightarrow> bool) \<Rightarrow> ('w \<Rightarrow> nat) \<Rightarrow> ('w \<Rightarrow> nat) \<Rightarrow> 'w \<Rightarrow> bool" where
  "stream_inv I J ok consumed limit w \<longleftrightarrow>
     J w \<and> (\<exists>s. seq_ok s (buffer_of I w)) \<and> max_buffer_capacity_bytes (buffer_of I w) = kStreamReceiveWindowLimit
   \<and> (ok w \<longrightarrow> consumed w = total_bytes_read (buffer_of I w)
        \<and> set_points (bytes_received (buffer_of I w)) \<subseteq> {0 ..< limit w})"

definition evolves ::
    "'w StreamInterface \<Rightarrow> ('w \<Rightarrow> bool) \<Rightarrow> ('w \<Rightarrow> bool) \<Rightarrow> ('w \<Rightarrow> nat) \<Rightarrow> ('w \<Rightarrow> nat) \<Rightarrow> 'w \<Rightarrow> 'w \<Rightarrow> bool" where
  "evolves I J ok consumed limit w w' \<longleftrightarrow> stream_inv I J ok consumed limit w'
   \<and> total_bytes_read (buffer_of I w) \<le> total_bytes_read (buffer_of I w') \<and> (ok w' \<longrightarrow> ok w \<and> limit w \<le> limit w')"

definition stopped :: "'w StreamInterface \<Rightarrow> 'w \<Rightarrow> bool" where
  "stopped I w' \<longleftrightarrow> (\<exists>w1. CloseConnectionWithDetails I QUIC_TOO_MANY_STREAM_DATA_INTERVALS w1 = Some w')"

locale sequenced_stream =
  fixes I :: "'w StreamInterface" and J ok :: "'w \<Rightarrow> bool" and consumed limit :: "'w \<Rightarrow> nat"
  assumes get_put: "sequencer_of I (with_sequencer I q w) = q"
    and J_put: "J (with_sequencer I q w) = J w"
    and ok_put: "ok (with_sequencer I q w) = ok w"
    and consumed_put: "consumed (with_sequencer I q w) = consumed w"
    and limit_put: "limit (with_sequencer I q w) = limit w"
    and room: "J w \<Longrightarrow> ok w \<Longrightarrow> limit w \<le> consumed w + kStreamReceiveWindowLimit \<and> limit w < 2 ^ 62"
    and consume: "J w \<Longrightarrow> ok w \<Longrightarrow> consumed w + n \<le> limit w \<Longrightarrow>
      \<exists>w'. AddBytesConsumed_callback I n w = Some w' \<and> sequencer_of I w' = sequencer_of I w
        \<and> J w' \<and> ok w' \<and> consumed w' = consumed w + n \<and> limit w' = limit w"
    and consume_idle: "J w \<Longrightarrow> \<not> ok w \<Longrightarrow>
      \<exists>w'. AddBytesConsumed_callback I n w = Some w' \<and> sequencer_of I w' = sequencer_of I w \<and> J w' \<and> \<not> ok w'"
    and data_available: "stream_inv I J ok consumed limit w \<Longrightarrow>
      \<exists>w'. OnDataAvailable I w = Some w' \<and> evolves I J ok consumed limit w w'"
    and fin_read: "stream_inv I J ok consumed limit w \<Longrightarrow>
      \<exists>w'. OnFinRead I w = Some w' \<and> evolves I J ok consumed limit w w'"
    and reset: "stream_inv I J ok consumed limit w \<Longrightarrow>
      \<exists>w'. Reset_callback I e w = Some w' \<and> evolves I J ok consumed limit w w'"
    and close: "\<exists>w'. CloseConnectionWithDetails I c w = Some w'
      \<and> (stream_inv I J ok consumed limit w \<longrightarrow> evolves I J ok consumed limit w w')"
begin

lemma put_simps [simp]:
  "sequencer_of I (upd_sequencer I f w) = f (sequencer_of I w)" "J (upd_sequencer I f w) = J w" "ok (upd_sequencer I f w) = ok w"
  "consumed (upd_sequencer I f w) = consumed w" "limit (upd_sequencer I f w) = limit w"
  "sequencer_of I (upd_buffer I b w) = (sequencer_of I w)\<lparr>buffered_frames := b\<rparr>" "buffer_of I (upd_buffer I b w) = b"
  "J (upd_buffer I b w) = J w" "ok (upd_buffer I b w) = ok w" "consumed (upd_buffer I b w) = consumed w" "limit (upd_buffer I b w) = limit w"
  by (simp_all add: upd_sequencer_def upd_buffer_def buffer_of_def get_put J_put ok_put consumed_put limit_put)

lemma evolves_refl: "stream_inv I J ok consumed limit w \<Longrightarrow> evolves I J ok consumed limit w w"
  by (simp add: evolves_def)

lemma evolves_trans:
  "evolves I J ok consumed limit w w1 \<Longrightarrow> evolves I J ok consumed limit w1 w2 \<Longrightarrow> evolves I J ok consumed limit w w2"
  unfolding evolves_def by (meson order_trans)

lemma evolves_inv: "evolves I J ok consumed limit w w' \<Longrightarrow> stream_inv I J ok consumed limit w'"
  by (simp add: evolves_def)

text \<open>A change of the sequencer that leaves the buffer alone.\<close>

lemma evolves_sequencer:
  assumes "stream_inv I J ok consumed limit w" "\<And>q. buffered_frames (f q) = buffered_frames q"
  shows "evolves I J ok consumed limit w (upd_sequencer I f w)"
  using assms by (simp add: evolves_def stream_inv_def buffer_of_def)

text \<open>A change of the buffer that reads nothing and lets nothing in beyond the limit.\<close>

lemma evolves_buffer:
  assumes "stream_inv I J ok consumed limit w" "seq_ok s b" "total_bytes_read b = total_bytes_read (buffer_of I w)"
    "max_buffer_capacity_bytes b = max_buffer_capacity_bytes (buffer_of I w)"
    "ok w \<Longrightarrow> set_points (bytes_received b) \<subseteq> {0 ..< limit w}"
  shows "evolves I J ok consumed limit w (upd_buffer I b w)"
  using assms by (auto simp: evolves_def stream_inv_def)

lemma consumed_within:
  assumes "stream_inv I J ok consumed limit w" "ok w"
  shows "total_bytes_read (buffer_of I w) \<le> limit w"
proof -
  obtain s where s: "seq_ok s (buffer_of I w)" using assms(1) by (auto simp: stream_inv_def)
  have "{0 ..< total_bytes_read (buffer_of I w)} \<subseteq> {0 ..< limit w}"
    using seq_ok_simps(9) [OF s] by (rule subset_trans) (use assms in \<open>simp add: stream_inv_def\<close>)
  then show ?thesis by (cases "total_bytes_read (buffer_of I w) = 0") auto
qed

text \<open>A change of the buffer that reads \<open>n\<close> bytes, with the callback that accounts for them.\<close>

lemma evolves_read:
  assumes inv: "stream_inv I J ok consumed limit w" and b: "seq_ok s b"
    "total_bytes_read b = total_bytes_read (buffer_of I w) + n"
    "max_buffer_capacity_bytes b = max_buffer_capacity_bytes (buffer_of I w)"
    "ok w \<Longrightarrow> set_points (bytes_received b) \<subseteq> {0 ..< limit w}"
  shows "\<exists>w'. AddBytesConsumed_callback I n (upd_buffer I b w) = Some w' \<and> evolves I J ok consumed limit w w'"
proof (cases "ok w")
  case True
  have c: "consumed w = total_bytes_read (buffer_of I w)" using inv True by (simp add: stream_inv_def)
  have "{0 ..< total_bytes_read b} \<subseteq> {0 ..< limit w}" using seq_ok_simps(9) [OF b(1)] b(4) [OF True] by (rule subset_trans)
  then have "consumed w + n \<le> limit w" using b(2) c by (cases "total_bytes_read b = 0") auto
  then obtain w' where w': "AddBytesConsumed_callback I n (upd_buffer I b w) = Some w'" "sequencer_of I w' = sequencer_of I (upd_buffer I b w)"
    "J w'" "ok w'" "consumed w' = consumed w + n" "limit w' = limit w"
    using consume [of "upd_buffer I b w" n] True inv by (auto simp: stream_inv_def)
  then have "buffer_of I w' = b" by (simp add: buffer_of_def)
  then have "evolves I J ok consumed limit w w'"
    using w'(3-6) b c True inv by (auto simp: evolves_def stream_inv_def)
  with w'(1) show ?thesis by blast
next
  case False
  then obtain w' where w': "AddBytesConsumed_callback I n (upd_buffer I b w) = Some w'" "sequencer_of I w' = sequencer_of I (upd_buffer I b w)"
    "J w'" "\<not> ok w'" using consume_idle [of "upd_buffer I b w" n] inv by (auto simp: stream_inv_def)
  then have "buffer_of I w' = b" by (simp add: buffer_of_def)
  then have "evolves I J ok consumed limit w w'"
    using w'(3,4) b inv by (auto simp: evolves_def stream_inv_def)
  with w'(1) show ?thesis by blast
qed

lemma MaybeCloseStream_evolves:
  assumes inv: "stream_inv I J ok consumed limit w"
  shows "\<exists>r w'. MaybeCloseStream I w = Some (r, w') \<and> evolves I J ok consumed limit w w'
    \<and> (r \<longrightarrow> IsClosed (sequencer_of I w)) \<and> (\<not> r \<longrightarrow> w' = w)"
proof (cases "blocked (sequencer_of I w) \<or> \<not> IsClosed (sequencer_of I w)")
  case True
  then have "MaybeCloseStream I w = Some (False, w)" by (simp add: MaybeCloseStream_def)
  then show ?thesis using evolves_refl [OF inv] by blast
next
  case False
  obtain w1 where w1: "(if ignore_read_data (sequencer_of I w) then OnFinRead I w else OnDataAvailable I w) = Some w1"
    "evolves I J ok consumed limit w w1"
    using data_available [OF inv] fin_read [OF inv] by (cases "ignore_read_data (sequencer_of I w)") auto
  have inv1: "stream_inv I J ok consumed limit w1" by (rule evolves_inv [OF w1(2)])
  then obtain s where s: "seq_ok s (buffer_of I w1)" by (auto simp: stream_inv_def)
  note f = seq_ok_simps [OF s]
  have T: "total_bytes_read (buffer_of I w1) \<le> length s" by (rule readable_facts(5) [OF f(2)])
  note c = seq_ok_Clear [OF f(1,7) T] and d = Clear_facts [OF f(1)]
  have pts: "set_points (bytes_received (Clear (buffer_of I w1))) = {0 ..< total_bytes_read (buffer_of I w1)}"
    unfolding d(3) using iset.pts_add [of "[]" "QuicInterval 0 (total_bytes_read (buffer_of I w1))"]
    by (simp add: points_QuicInterval)
  have "evolves I J ok consumed limit w1 (upd_buffer I (Clear (buffer_of I w1)) w1)"
    using consumed_within [OF inv1] by (intro evolves_buffer [OF inv1 c(1) d(2,5)]) (auto simp: pts)
  moreover have "MaybeCloseStream I w = Some (True, upd_buffer I (Clear (buffer_of I w1)) w1)"
    using w1(1) False by (simp add: MaybeCloseStream_def Let_def)
  ultimately show ?thesis using evolves_trans [OF w1(2)] False by blast
qed

lemma FlushBufferedFrames_evolves:
  assumes inv: "stream_inv I J ok consumed limit w"
  shows "\<exists>w'. Sequencer_FlushBufferedFrames I w = Some w' \<and> evolves I J ok consumed limit w w'"
proof -
  obtain s where s: "seq_ok s (buffer_of I w)" using inv by (auto simp: stream_inv_def)
  let ?T = "total_bytes_read (buffer_of I w)" and ?N = "NextExpectedByte (buffer_of I w)"
  obtain b where b: "FlushBufferedFrames (buffer_of I w) = (?N - ?T, b)" "seq_ok s b" "total_bytes_read b = ?N" "?T \<le> ?N"
    "unread b = {}" "max_buffer_capacity_bytes b = max_buffer_capacity_bytes (buffer_of I w)"
    using FlushBufferedFrames_correct [OF s] by blast
  have "set_points (bytes_received b) \<subseteq> {0 ..< ?N}" using b(3,5) by (auto simp: unread_def)
  moreover have "?N \<le> limit w" if "ok w"
  proof (cases "bytes_received (buffer_of I w) = []")
    case False
    note N = NextExpectedByte_facts [OF seq_ok_simps(8) [OF s] False]
    have "?N - 1 \<in> {0 ..< limit w}" using N(2) inv that by (auto simp: stream_inv_def)
    with N(1) show ?thesis by simp
  qed (simp add: NextExpectedByte_def)
  ultimately have "ok w \<Longrightarrow> set_points (bytes_received b) \<subseteq> {0 ..< limit w}" by fastforce
  from evolves_read [OF inv b(2) _ b(6) this, of "?N - ?T"] b(3,4) obtain w1 where
    w1: "AddBytesConsumed_callback I (?N - ?T) (upd_buffer I b w) = Some w1" "evolves I J ok consumed limit w w1" by auto
  obtain r w2 where w2: "MaybeCloseStream I w1 = Some (r, w2)" "evolves I J ok consumed limit w1 w2"
    using MaybeCloseStream_evolves [OF evolves_inv [OF w1(2)]] by blast
  from evolves_trans [OF w1(2) w2(2)] b(1) w1(1) w2(1) show ?thesis
    by (simp add: Sequencer_FlushBufferedFrames_def)
qed

lemma CloseStreamAtOffset_evolves:
  assumes inv: "stream_inv I J ok consumed limit w"
  shows "\<exists>w'. CloseStreamAtOffset I off w = Some w' \<and> evolves I J ok consumed limit w w'"
proof (cases "close_offset (sequencer_of I w) \<noteq> kMaxOffset \<and> off \<noteq> close_offset (sequencer_of I w)")
  case True
  then show ?thesis using reset [OF inv] by (simp add: CloseStreamAtOffset_def)
next
  case False
  let ?w = "upd_sequencer I (\<lambda>q. q\<lparr>close_offset := off\<rparr>) w"
  have e: "evolves I J ok consumed limit w ?w" by (rule evolves_sequencer [OF inv]) simp
  obtain r w2 where w2: "MaybeCloseStream I ?w = Some (r, w2)" "evolves I J ok consumed limit ?w w2"
    using MaybeCloseStream_evolves [OF evolves_inv [OF e]] by blast
  have "CloseStreamAtOffset I off w = Some w2"
    unfolding CloseStreamAtOffset_def Let_def if_not_P [OF False] using w2(1) by simp
  with evolves_trans [OF e w2(2)] show ?thesis by blast
qed


text \<open>The data of a frame that the stream has let through.\<close>

lemma OnFrameData_evolves:
  assumes inv: "stream_inv I J ok consumed limit w"
    and fits: "data \<noteq> [] \<Longrightarrow> off + length data < 2 ^ 62"
      "data \<noteq> [] \<Longrightarrow> off + length data \<le> total_bytes_read (buffer_of I w) + kStreamReceiveWindowLimit"
      "data \<noteq> [] \<Longrightarrow> ok w \<Longrightarrow> off + length data \<le> limit w"
  shows "\<exists>w'. OnFrameData I off data w = Some w' \<and> (evolves I J ok consumed limit w w' \<or> stopped I w')"
proof -
  let ?q = "sequencer_of I w" and ?b = "buffer_of I w"
  obtain s where s: "seq_ok s ?b" using inv by (auto simp: stream_inv_def)
  have cap: "max_buffer_capacity_bytes ?b = kStreamReceiveWindowLimit" using inv by (simp add: stream_inv_def)
  have qb: "buffered_frames ?q = ?b" by (simp add: buffer_of_def)
  show ?thesis
  proof (cases "data = []")
    case True
    have r: "OnStreamData ?b off data = Some (QUIC_EMPTY_STREAM_FRAME_NO_FIN, 0, ?b)" using True by (simp add: OnStreamData_def)
    have "evolves I J ok consumed limit w (upd_buffer I ?b w)"
      using inv by (intro evolves_buffer [OF inv s]) (auto simp: stream_inv_def)
    moreover obtain w' where "CloseConnectionWithDetails I QUIC_EMPTY_STREAM_FRAME_NO_FIN (upd_buffer I ?b w) = Some w'"
      "evolves I J ok consumed limit (upd_buffer I ?b w) w'"
      using close evolves_inv [OF calculation] by blast
    ultimately show ?thesis
      using evolves_trans r by (auto simp: OnFrameData_def qb)
  next
    case False
    let ?R = "{off ..< off + length data}" and ?s = "overlay s (set_points (bytes_received ?b)) off data"
    have w: "off + length data \<le> total_bytes_read ?b + max_buffer_capacity_bytes ?b" using fits(2) [OF False] cap by simp
    from OnStreamData_any [OF s False fits(1) [OF False] w] consider
      (got) b' where "OnStreamData ?b off data = Some (QUIC_NO_ERROR, card (?R - set_points (bytes_received ?b)), b')" "accepted ?s ?b ?R b'"
    | (many) b' where "OnStreamData ?b off data = Some (QUIC_TOO_MANY_STREAM_DATA_INTERVALS, 0, b')"
      unfolding received_outcome_def by blast
    then show ?thesis
    proof cases
      case many
      obtain w' where "CloseConnectionWithDetails I QUIC_TOO_MANY_STREAM_DATA_INTERVALS (upd_buffer I b' w) = Some w'"
        using close by blast
      then show ?thesis using many by (auto simp: OnFrameData_def qb stopped_def)
    next
      case got
      let ?w1 = "upd_buffer I b' w"
      have a: "seq_ok ?s b'" "set_points (bytes_received b') = set_points (bytes_received ?b) \<union> ?R"
        "total_bytes_read b' = total_bytes_read ?b" "max_buffer_capacity_bytes b' = max_buffer_capacity_bytes ?b"
        using got(2) by (simp_all add: accepted_def)
      have e1: "evolves I J ok consumed limit w ?w1"
      proof (rule evolves_buffer [OF inv a(1,3,4)])
        assume o: "ok w"
        then have "set_points (bytes_received ?b) \<subseteq> {0 ..< limit w}" using inv by (simp add: stream_inv_def)
        moreover have "?R \<subseteq> {0 ..< limit w}" using fits(3) [OF False o] by auto
        ultimately show "set_points (bytes_received b') \<subseteq> {0 ..< limit w}" unfolding a(2) by blast
      qed
      note inv1 = evolves_inv [OF e1]
      have dup: "evolves I J ok consumed limit ?w1
          (upd_sequencer I (\<lambda>q. q\<lparr>num_duplicate_frames_received := num_duplicate_frames_received q + 1\<rparr>) ?w1)"
        by (rule evolves_sequencer [OF inv1]) simp
      obtain w2 where w2: "Sequencer_FlushBufferedFrames I ?w1 = Some w2" "evolves I J ok consumed limit ?w1 w2"
        using FlushBufferedFrames_evolves [OF inv1] by blast
      obtain w3 where w3: "OnDataAvailable I ?w1 = Some w3" "evolves I J ok consumed limit ?w1 w3"
        using data_available [OF inv1] by blast
      have "\<exists>w'. OnFrameData I off data w = Some w' \<and> evolves I J ok consumed limit ?w1 w'"
        using got(1) dup w2 w3 evolves_refl [OF inv1]
        unfolding OnFrameData_def Let_def qb by simp
      then show ?thesis using evolves_trans [OF e1] by blast
    qed
  qed
qed

text \<open>A whole frame.\<close>

definition frame_fits :: "QuicStreamFrame \<Rightarrow> 'w \<Rightarrow> bool" where
  "frame_fits frame w \<longleftrightarrow>
     (let stop = unat (sf_offset frame) + unat (sf_data_length frame)
      in sf_data_length frame = 0 \<or>
         stop < 2 ^ 62 \<and> stop \<le> total_bytes_read (buffer_of I w) + kStreamReceiveWindowLimit \<and> (ok w \<longrightarrow> stop \<le> limit w))"

lemma frame_fits_within:
  assumes "stream_inv I J ok consumed limit w" "ok w"
    "sf_data_length frame = 0 \<or> unat (sf_offset frame) + unat (sf_data_length frame) \<le> limit w"
  shows "frame_fits frame w"
proof -
  have "limit w \<le> total_bytes_read (buffer_of I w) + kStreamReceiveWindowLimit \<and> limit w < 2 ^ 62"
    using room [of w] assms(1,2) by (simp add: stream_inv_def)
  then show ?thesis using assms(3) unfolding frame_fits_def Let_def by linarith
qed

lemma OnStreamFrame_evolves:
  assumes inv: "stream_inv I J ok consumed limit w" and fits: "frame_fits frame w"
  shows "\<exists>w'. Sequencer_OnStreamFrame I frame w = Some w' \<and> (evolves I J ok consumed limit w w' \<or> stopped I w')"
proof -
  let ?w1 = "count_frame I w" and ?off = "unat (sf_offset frame)" and ?n = "unat (sf_data_length frame)"
  let ?d = "stream_frame_data frame"
  have e1: "evolves I J ok consumed limit w ?w1" unfolding count_frame_def by (rule evolves_sequencer [OF inv]) simp
  have len: "length ?d \<le> ?n" by (simp add: stream_frame_data_def)
  have data: "\<exists>w'. OnFrameData I ?off ?d w2 = Some w' \<and> (evolves I J ok consumed limit w w' \<or> stopped I w')"
    if e2: "evolves I J ok consumed limit w w2" for w2
  proof -
    have "?off + length ?d < 2 ^ 62" "?off + length ?d \<le> total_bytes_read (buffer_of I w2) + kStreamReceiveWindowLimit"
      "ok w2 \<Longrightarrow> ?off + length ?d \<le> limit w2" if "?d \<noteq> []"
    proof -
      have "sf_data_length frame \<noteq> 0" using that by (auto simp: stream_frame_data_def)
      then show "?off + length ?d < 2 ^ 62" "?off + length ?d \<le> total_bytes_read (buffer_of I w2) + kStreamReceiveWindowLimit"
        "ok w2 \<Longrightarrow> ?off + length ?d \<le> limit w2"
        using fits len e2 unfolding frame_fits_def evolves_def Let_def by auto
    qed
    from OnFrameData_evolves [OF evolves_inv [OF e2] this] show ?thesis using evolves_trans [OF e2] by blast
  qed
  show ?thesis
  proof (cases "sf_fin frame")
    case True
    obtain w2 where w2: "CloseStreamAtOffset I (u64_add ?off ?n) ?w1 = Some w2" "evolves I J ok consumed limit ?w1 w2"
      using CloseStreamAtOffset_evolves [OF evolves_inv [OF e1]] by blast
    have e2: "evolves I J ok consumed limit w w2" by (rule evolves_trans [OF e1 w2(2)])
    show ?thesis
      using data [OF e2] e2 w2(1) True by (cases "?n = 0") (simp_all add: Sequencer_OnStreamFrame_def Let_def)
  next
    case False
    then show ?thesis using data [OF e1] by (simp add: Sequencer_OnStreamFrame_def Let_def)
  qed
qed

text \<open>The calls that the data of a frame leads to.\<close>

lemma OnFrameData_calls:
  assumes inv: "stream_inv I J ok consumed limit w"
    and fits: "data \<noteq> [] \<Longrightarrow> off + length data < 2 ^ 62"
      "data \<noteq> [] \<Longrightarrow> off + length data \<le> total_bytes_read (buffer_of I w) + kStreamReceiveWindowLimit"
  shows "\<exists>b. let w1 = upd_buffer I b w in
      OnFrameData I off data w = CloseConnectionWithDetails I QUIC_EMPTY_STREAM_FRAME_NO_FIN w1
    \<or> OnFrameData I off data w = CloseConnectionWithDetails I QUIC_TOO_MANY_STREAM_DATA_INTERVALS w1
    \<or> OnFrameData I off data w = Some w1 \<or> OnFrameData I off data w = OnDataAvailable I w1
    \<or> OnFrameData I off data w =
        Some (upd_sequencer I (\<lambda>q. q\<lparr>num_duplicate_frames_received := num_duplicate_frames_received q + 1\<rparr>) w1)
    \<or> ignore_read_data (sequencer_of I w) \<and> OnFrameData I off data w = Sequencer_FlushBufferedFrames I w1"
proof -
  let ?b = "buffer_of I w"
  obtain s where s: "seq_ok s ?b" using inv by (auto simp: stream_inv_def)
  have cap: "max_buffer_capacity_bytes ?b = kStreamReceiveWindowLimit" using inv by (simp add: stream_inv_def)
  have qb: "buffered_frames (sequencer_of I w) = ?b" by (simp add: buffer_of_def)
  show ?thesis
  proof (cases "data = []")
    case True
    then have "OnFrameData I off data w = CloseConnectionWithDetails I QUIC_EMPTY_STREAM_FRAME_NO_FIN (upd_buffer I ?b w)"
      by (simp add: OnFrameData_def qb OnStreamData_def)
    then show ?thesis unfolding Let_def by blast
  next
    case False
    have w: "off + length data \<le> total_bytes_read ?b + max_buffer_capacity_bytes ?b" using fits(2) [OF False] cap by simp
    obtain e n b where r: "OnStreamData ?b off data = Some (e, n, b)" "e = QUIC_NO_ERROR \<or> e = QUIC_TOO_MANY_STREAM_DATA_INTERVALS"
      using OnStreamData_any [OF s False fits(1) [OF False] w] unfolding received_outcome_def by blast
    then show ?thesis
      by (intro exI [of _ b]) (auto simp: OnFrameData_def qb Let_def)
  qed
qed

lemma Readv_evolves:
  assumes inv: "stream_inv I J ok consumed limit w"
  shows "\<exists>s dests w'. Sequencer_Readv I iov w = Some (dests, w') \<and> evolves I J ok consumed limit w w'
    \<and> seq_ok s (buffer_of I w) \<and> dests = fill_buffers iov (readable s (buffer_of I w))"
proof -
  obtain s where s: "seq_ok s (buffer_of I w)" using inv by (auto simp: stream_inv_def)
  let ?d = "fill_buffers iov (readable s (buffer_of I w))" and ?n = "min (sum_list iov) (ReadableBytes (buffer_of I w))"
  obtain b where b: "Readv (buffer_of I w) iov = Some (QUIC_NO_ERROR, ?d, b)" "seq_ok s b"
    "total_bytes_read b = total_bytes_read (buffer_of I w) + ?n"
    "bytes_received b = bytes_received (buffer_of I w)" "max_buffer_capacity_bytes b = max_buffer_capacity_bytes (buffer_of I w)"
    using Readv_correct [OF s] by blast
  have n: "length (concat ?d) = ?n" unfolding concat_fill_buffers length_take length_readable [OF s] by simp
  obtain w' where "AddBytesConsumed_callback I ?n (upd_buffer I b w) = Some w'" "evolves I J ok consumed limit w w'"
    using evolves_read [OF inv b(2,3,5)] b(4) inv by (auto simp: stream_inv_def)
  then show ?thesis using b(1) s n by (auto simp: Sequencer_Readv_def)
qed

lemma MarkConsumed_evolves:
  assumes inv: "stream_inv I J ok consumed limit w"
  shows "\<exists>w'. Sequencer_MarkConsumed I n w = Some w' \<and> evolves I J ok consumed limit w w'"
proof -
  obtain s where s: "seq_ok s (buffer_of I w)" using inv by (auto simp: stream_inv_def)
  show ?thesis
  proof (cases "n > ReadableBytes (buffer_of I w)")
    case True
    have e: "evolves I J ok consumed limit w (upd_buffer I (buffer_of I w) w)"
      using inv by (intro evolves_buffer [OF inv s]) (auto simp: stream_inv_def)
    obtain w' where "Reset_callback I QUIC_ERROR_PROCESSING_STREAM (upd_buffer I (buffer_of I w) w) = Some w'"
      "evolves I J ok consumed limit (upd_buffer I (buffer_of I w) w) w'"
      using reset [OF evolves_inv [OF e]] by blast
    with evolves_trans [OF e] MarkConsumed_correct(1) [OF s True] show ?thesis by (simp add: Sequencer_MarkConsumed_def)
  next
    case False
    then obtain b where b: "MarkConsumed (buffer_of I w) n = Some (True, b)" "seq_ok s b"
      "total_bytes_read b = total_bytes_read (buffer_of I w) + n"
      "bytes_received b = bytes_received (buffer_of I w)" "max_buffer_capacity_bytes b = max_buffer_capacity_bytes (buffer_of I w)"
      using MarkConsumed_correct(2) [OF s] by (meson not_less)
    obtain w' where "AddBytesConsumed_callback I n (upd_buffer I b w) = Some w'" "evolves I J ok consumed limit w w'"
      using evolves_read [OF inv b(2,3,5)] b(4) inv by (auto simp: stream_inv_def)
    with b(1) show ?thesis by (simp add: Sequencer_MarkConsumed_def)
  qed
qed

lemma SetUnblocked_evolves:
  assumes inv: "stream_inv I J ok consumed limit w"
  shows "\<exists>w'. SetUnblocked I w = Some w' \<and> evolves I J ok consumed limit w w'"
proof -
  let ?w = "upd_sequencer I (\<lambda>q. q\<lparr>blocked := False\<rparr>) w"
  have e: "evolves I J ok consumed limit w ?w" by (rule evolves_sequencer [OF inv]) simp
  obtain w' where "OnDataAvailable I ?w = Some w'" "evolves I J ok consumed limit ?w w'"
    using data_available [OF evolves_inv [OF e]] by blast
  with e evolves_trans [OF e] show ?thesis by (simp add: SetUnblocked_def Let_def)
qed

lemma StopReading_evolves:
  assumes inv: "stream_inv I J ok consumed limit w"
  shows "\<exists>w'. Sequencer_StopReading I w = Some w' \<and> evolves I J ok consumed limit w w'"
proof -
  let ?w = "upd_sequencer I (\<lambda>q. q\<lparr>ignore_read_data := True\<rparr>) w"
  have e: "evolves I J ok consumed limit w ?w" by (rule evolves_sequencer [OF inv]) simp
  obtain w' where "Sequencer_FlushBufferedFrames I ?w = Some w'" "evolves I J ok consumed limit ?w w'"
    using FlushBufferedFrames_evolves [OF evolves_inv [OF e]] by blast
  with evolves_refl [OF inv] evolves_trans [OF e] show ?thesis by (simp add: Sequencer_StopReading_def)
qed

lemma ReleaseBuffer_evolves:
  assumes inv: "stream_inv I J ok consumed limit w"
  shows "evolves I J ok consumed limit w (ReleaseBuffer I w)"
proof -
  obtain s where s: "seq_ok s (buffer_of I w)" using inv by (auto simp: stream_inv_def)
  note r = ReleaseWholeBuffer_correct [OF s]
  have "set_points (bytes_received (ReleaseWholeBuffer (buffer_of I w))) \<subseteq> {0 ..< total_bytes_read (buffer_of I w)}"
    using r(2) unfolding unread_def r(3) by auto
  moreover have "max_buffer_capacity_bytes (ReleaseWholeBuffer (buffer_of I w)) = max_buffer_capacity_bytes (buffer_of I w)"
    using Clear_facts(5) [OF seq_ok_simps(1) [OF s]] by (simp add: ReleaseWholeBuffer_def)
  ultimately show ?thesis
    unfolding ReleaseBuffer_def using consumed_within [OF inv] by (intro evolves_buffer [OF inv r(1,3)]) fastforce+
qed

end

end
