(* ===== verification/Quic_Pending_Stream.thy ===== *)
theory Quic_Pending_Stream
  imports Quic_Stream_Sequencer Quic_Flow_Controller
begin

text \<open>
  A stream whose type is not known yet (\<open>PendingStream\<close> in src/quic/core/quic_stream.cc): its frames go through
  flow control, of the stream and of the connection, into its sequencer, where they wait. What the stream asks of
  the session is the list of its calls. The world of the stream is the stream itself, the flow controller of the
  connection, the environment of the clocks and those calls.
\<close>

section \<open>State\<close>

definition kMaxStreamLength :: nat where
  "kMaxStreamLength = 2 ^ 62 - 1"

record PendingStream =
  ps_id :: nat
  ps_stream_bytes_read :: nat
  ps_fin_received :: bool
  ps_flow_controller :: QuicFlowController
  ps_sequencer :: QuicStreamSequencer

datatype pending_call =
    Pending_SendRstStream nat QuicRstStreamErrorCode nat
  | Pending_CloseConnection QuicErrorCode
  | Pending_flow_control fc_action

record pending_world =
  pending :: PendingStream
  pending_connection_fc :: QuicFlowController
  pending_env :: fc_env
  pending_calls :: "pending_call list"

definition new_PendingStream ::
    "nat \<Rightarrow> nat \<Rightarrow> nat \<Rightarrow> bool \<Rightarrow> bool \<Rightarrow> PendingStream" where
  "new_PendingStream i received_window window_to_send auto_tune stop_reading_flag =
     \<lparr>ps_id = i, ps_stream_bytes_read = 0, ps_fin_received = False,
      ps_flow_controller =
        new_QuicFlowController i False received_window window_to_send kStreamReceiveWindowLimit auto_tune,
      ps_sequencer = new_QuicStreamSequencer stop_reading_flag\<rparr>"

section \<open>The interface to the sequencer\<close>

definition pending_call_add :: "pending_call list \<Rightarrow> pending_world \<Rightarrow> pending_world" where
  "pending_call_add cs w = w\<lparr>pending_calls := pending_calls w @ cs\<rparr>"

definition PendingStream_CloseConnectionWithDetails :: "QuicErrorCode \<Rightarrow> pending_world \<Rightarrow> pending_world" where
  "PendingStream_CloseConnectionWithDetails error w = pending_call_add [Pending_CloseConnection error] w"

definition PendingStream_OnDataAvailable :: "pending_world \<Rightarrow> pending_world" where
  "PendingStream_OnDataAvailable w = w"

definition PendingStream_OnFinRead :: "pending_world \<Rightarrow> pending_world" where
  "PendingStream_OnFinRead w = PendingStream_CloseConnectionWithDetails QUIC_INTERNAL_ERROR w"

definition PendingStream_AddBytesConsumed :: "nat \<Rightarrow> pending_world \<Rightarrow> pending_world" where
  "PendingStream_AddBytesConsumed bytes w =
     (case AddBytesConsumed (pending_env w) (ps_flow_controller (pending w)) (Some (pending_connection_fc w)) bytes of
        (fc, session_fc, acts) \<Rightarrow>
          (case AddBytesConsumed (pending_env w) (the session_fc) None bytes of
             (conn, _, acts') \<Rightarrow>
               pending_call_add (map Pending_flow_control (acts @ acts'))
                 (w\<lparr>pending := (pending w)\<lparr>ps_flow_controller := fc\<rparr>, pending_connection_fc := conn\<rparr>)))"

definition PendingStream_Reset :: "QuicRstStreamErrorCode \<Rightarrow> pending_world \<Rightarrow> pending_world" where
  "PendingStream_Reset error w = pending_call_add [Pending_SendRstStream (ps_id (pending w)) error 0] w"

definition pending_interface :: "pending_world StreamInterface" where
  "pending_interface =
     \<lparr>sequencer_of = (\<lambda>w. ps_sequencer (pending w)),
      with_sequencer = (\<lambda>q w. w\<lparr>pending := (pending w)\<lparr>ps_sequencer := q\<rparr>\<rparr>),
      OnDataAvailable = (\<lambda>w. Some (PendingStream_OnDataAvailable w)),
      OnFinRead = (\<lambda>w. Some (PendingStream_OnFinRead w)),
      AddBytesConsumed_callback = (\<lambda>bytes w. Some (PendingStream_AddBytesConsumed bytes w)),
      Reset_callback = (\<lambda>error w. Some (PendingStream_Reset error w)),
      CloseConnectionWithDetails = (\<lambda>error w. Some (PendingStream_CloseConnectionWithDetails error w))\<rparr>"

section \<open>Frames\<close>

definition PendingStream_MaybeIncreaseHighestReceivedOffset :: "nat \<Rightarrow> pending_world \<Rightarrow> bool \<times> pending_world" where
  "PendingStream_MaybeIncreaseHighestReceivedOffset new_offset w =
     (let fc = ps_flow_controller (pending w);
          increment = u64_sub new_offset (highest_received_byte_offset fc);
          (updated, fc1) = UpdateHighestReceivedOffset fc new_offset
      in if \<not> updated then (False, w)
         else let conn = pending_connection_fc w
              in (True, w\<lparr>pending := (pending w)\<lparr>ps_flow_controller := fc1\<rparr>,
                         pending_connection_fc :=
                           snd (UpdateHighestReceivedOffset conn (u64_add (highest_received_byte_offset conn) increment))\<rparr>))"

definition pending_violation :: "pending_world \<Rightarrow> bool" where
  "pending_violation w \<longleftrightarrow>
     FlowControlViolation (ps_flow_controller (pending w)) \<or> FlowControlViolation (pending_connection_fc w)"

definition PendingStream_OnStreamFrame :: "QuicStreamFrame \<Rightarrow> pending_world \<Rightarrow> pending_world option" where
  "PendingStream_OnStreamFrame frame w =
     (let offset = unat (sf_offset frame);
          frame_payload_size = unat (sf_data_length frame);
          is_stream_too_long = (offset > kMaxStreamLength \<or> u64_sub kMaxStreamLength offset < frame_payload_size)
      in if is_stream_too_long then Some (PendingStream_CloseConnectionWithDetails QUIC_STREAM_LENGTH_OVERFLOW w)
         else let w1 = (if sf_fin frame then w\<lparr>pending := (pending w)\<lparr>ps_fin_received := True\<rparr>\<rparr> else w);
                  w2 = w1\<lparr>pending := (pending w1)\<lparr>ps_stream_bytes_read :=
                            u64_add (ps_stream_bytes_read (pending w1)) frame_payload_size\<rparr>\<rparr>;
                  (increased, w3) = (if frame_payload_size > 0
                     then PendingStream_MaybeIncreaseHighestReceivedOffset (u64_add offset frame_payload_size) w2
                     else (False, w2))
              in if increased \<and> pending_violation w3
                 then Some (PendingStream_CloseConnectionWithDetails QUIC_FLOW_CONTROL_RECEIVED_TOO_MUCH_DATA w3)
                 else Sequencer_OnStreamFrame pending_interface frame w3)"

definition PendingStream_OnRstStreamFrame :: "QuicRstStreamFrame \<Rightarrow> pending_world \<Rightarrow> pending_world" where
  "PendingStream_OnRstStreamFrame frame w =
     (let offset = unat (rst_byte_offset frame)
      in if offset > kMaxStreamLength then PendingStream_CloseConnectionWithDetails QUIC_STREAM_LENGTH_OVERFLOW w
         else let w1 = snd (PendingStream_MaybeIncreaseHighestReceivedOffset offset w)
              in if pending_violation w1
                 then PendingStream_CloseConnectionWithDetails QUIC_FLOW_CONTROL_RECEIVED_TOO_MUCH_DATA w1
                 else w1)"

definition PendingStream_MarkConsumed :: "nat \<Rightarrow> pending_world \<Rightarrow> pending_world option" where
  "PendingStream_MarkConsumed num_bytes w = Sequencer_MarkConsumed pending_interface num_bytes w"

section \<open>The invariant\<close>

text \<open>The connection has not been closed.\<close>

definition pending_open :: "pending_world \<Rightarrow> bool" where
  "pending_open w \<longleftrightarrow> (\<forall>e. Pending_CloseConnection e \<notin> set (pending_calls w))"

text \<open>
  The accounts of an open stream: what the stream has received and not consumed is part of what the connection has
  received and not consumed, and neither is beyond its window.
\<close>

definition accounts_ok :: "QuicFlowController \<Rightarrow> QuicFlowController \<Rightarrow> bool" where
  "accounts_ok fc conn \<longleftrightarrow> fc_ok fc \<and> fc_ok conn
   \<and> receive_window_size_limit fc \<le> kStreamReceiveWindowLimit
   \<and> bytes_consumed fc \<le> highest_received_byte_offset fc \<and> highest_received_byte_offset fc < 2 ^ 62
   \<and> bytes_consumed conn + (highest_received_byte_offset fc - bytes_consumed fc) \<le> highest_received_byte_offset conn
   \<and> highest_received_byte_offset conn < 2 ^ 62
   \<and> \<not> FlowControlViolation fc \<and> \<not> FlowControlViolation conn"

definition pending_ok :: "pending_world \<Rightarrow> bool" where
  "pending_ok w \<longleftrightarrow> pending_open w \<and> accounts_ok (ps_flow_controller (pending w)) (pending_connection_fc w)"

definition pending_consumed :: "pending_world \<Rightarrow> nat" where
  "pending_consumed w = bytes_consumed (ps_flow_controller (pending w))"

definition pending_limit :: "pending_world \<Rightarrow> nat" where
  "pending_limit w = highest_received_byte_offset (ps_flow_controller (pending w))"

text \<open>Consuming bytes that have been received, at the stream and at the connection.\<close>

lemma accounts_consume:
  assumes ok: "accounts_ok fc conn" and n: "bytes_consumed fc + n \<le> highest_received_byte_offset fc"
    and r: "AddBytesConsumed env fc (Some conn) n = (fc', session_fc, acts)"
      "AddBytesConsumed env (the session_fc) None n = (conn', s', acts')"
  shows "accounts_ok fc' conn' \<and> bytes_consumed fc' = bytes_consumed fc + n
    \<and> highest_received_byte_offset fc' = highest_received_byte_offset fc
    \<and> highest_received_byte_offset conn' = highest_received_byte_offset conn
    \<and> bytes_consumed conn' = bytes_consumed conn + n"
proof -
  have f: "fc_ok fc" "fc_ok conn" "bytes_consumed fc + n \<le> receive_window_offset fc" "bytes_consumed fc + n < 2 ^ 62"
    using ok n by (auto simp: accounts_ok_def FlowControlViolation_def)
  have s: "\<forall>s. Some conn = Some s \<longrightarrow> fc_ok s" using f(2) by simp
  note a = AddBytesConsumed_facts [OF f(1) s f(3,4) r(1)] and g = AddBytesConsumed_grows [OF f(1) s f(3,4) r(1)]
  obtain c where c: "session_fc = Some c" "fc_grows conn c" "bytes_consumed c = bytes_consumed conn"
    using g by (auto simp: session_grows_def)
  have fc: "fc_ok c" using a c(1) by simp
  have "n \<le> highest_received_byte_offset fc - bytes_consumed fc" using n by simp
  then have "bytes_consumed conn + n \<le> highest_received_byte_offset conn"
    using ok by (auto simp: accounts_ok_def)
  moreover have "highest_received_byte_offset conn \<le> receive_window_offset c" "highest_received_byte_offset conn < 2 ^ 62"
    using ok c(2) by (auto simp: accounts_ok_def FlowControlViolation_def fc_grows_def)
  ultimately have fit: "bytes_consumed c + n \<le> receive_window_offset c" "bytes_consumed c + n < 2 ^ 62"
    using c(3) by simp_all
  have none: "\<forall>s. None = Some s \<longrightarrow> fc_ok s" by simp
  have r2: "AddBytesConsumed env c None n = (conn', s', acts')" using r(2) c(1) by simp
  note a2 = AddBytesConsumed_facts [OF fc none fit r2] and g2 = AddBytesConsumed_grows [OF fc none fit r2]
  show ?thesis
    using ok n a g c a2 g2 by (auto simp: accounts_ok_def FlowControlViolation_def fc_grows_def)
qed

definition pending_accounts :: "pending_world \<Rightarrow> bool" where
  "pending_accounts w \<longleftrightarrow>
     (pending_open w \<longrightarrow> accounts_ok (ps_flow_controller (pending w)) (pending_connection_fc w))"

abbreviation pending_inv :: "pending_world \<Rightarrow> bool" where
  "pending_inv \<equiv> stream_inv pending_interface pending_accounts pending_open pending_consumed pending_limit"

lemmas pending_defs = pending_interface_def pending_open_def pending_accounts_def pending_consumed_def pending_limit_def
  pending_call_add_def PendingStream_CloseConnectionWithDetails_def PendingStream_OnDataAvailable_def
  PendingStream_OnFinRead_def PendingStream_Reset_def

lemma pending_interface_simps [simp]:
  "sequencer_of pending_interface w = ps_sequencer (pending w)"
  "with_sequencer pending_interface q w = w\<lparr>pending := (pending w)\<lparr>ps_sequencer := q\<rparr>\<rparr>"
  "buffer_of pending_interface w = buffered_frames (ps_sequencer (pending w))"
  by (simp_all add: pending_interface_def buffer_of_def)

lemma pending_consume:
  "ps_sequencer (pending (PendingStream_AddBytesConsumed n w)) = ps_sequencer (pending w)"
  "pending_open (PendingStream_AddBytesConsumed n w) = pending_open w"
  "accounts_ok (ps_flow_controller (pending w)) (pending_connection_fc w) \<Longrightarrow>
     pending_consumed w + n \<le> pending_limit w \<Longrightarrow>
     accounts_ok (ps_flow_controller (pending (PendingStream_AddBytesConsumed n w)))
       (pending_connection_fc (PendingStream_AddBytesConsumed n w))
     \<and> pending_consumed (PendingStream_AddBytesConsumed n w) = pending_consumed w + n
     \<and> pending_limit (PendingStream_AddBytesConsumed n w) = pending_limit w"
proof -
  obtain fc s acts where r: "AddBytesConsumed (pending_env w) (ps_flow_controller (pending w)) (Some (pending_connection_fc w)) n = (fc, s, acts)"
    by (cases "AddBytesConsumed (pending_env w) (ps_flow_controller (pending w)) (Some (pending_connection_fc w)) n")
  obtain conn s' acts' where r': "AddBytesConsumed (pending_env w) (the s) None n = (conn, s', acts')"
    by (cases "AddBytesConsumed (pending_env w) (the s) None n")
  have e: "PendingStream_AddBytesConsumed n w = pending_call_add (map Pending_flow_control (acts @ acts'))
      (w\<lparr>pending := (pending w)\<lparr>ps_flow_controller := fc\<rparr>, pending_connection_fc := conn\<rparr>)"
    by (simp add: PendingStream_AddBytesConsumed_def r r')
  show "ps_sequencer (pending (PendingStream_AddBytesConsumed n w)) = ps_sequencer (pending w)"
    "pending_open (PendingStream_AddBytesConsumed n w) = pending_open w"
    by (auto simp: e pending_call_add_def pending_open_def)
  assume "accounts_ok (ps_flow_controller (pending w)) (pending_connection_fc w)" "pending_consumed w + n \<le> pending_limit w"
  from accounts_consume [OF this(1) this(2) [unfolded pending_consumed_def pending_limit_def] r r']
  show "accounts_ok (ps_flow_controller (pending (PendingStream_AddBytesConsumed n w)))
       (pending_connection_fc (PendingStream_AddBytesConsumed n w))
     \<and> pending_consumed (PendingStream_AddBytesConsumed n w) = pending_consumed w + n
     \<and> pending_limit (PendingStream_AddBytesConsumed n w) = pending_limit w"
    by (simp add: e pending_call_add_def pending_consumed_def pending_limit_def)
qed

lemma pending_evolves_calls:
  assumes "pending_inv w"
  shows "evolves pending_interface pending_accounts pending_open pending_consumed pending_limit w (pending_call_add cs w)"
  using assms
  by (auto simp: evolves_def stream_inv_def pending_accounts_def pending_open_def pending_call_add_def
      pending_consumed_def pending_limit_def)

interpretation pending: sequenced_stream pending_interface pending_accounts pending_open pending_consumed pending_limit
proof
  fix w :: pending_world and n :: nat and q c e
  show "sequencer_of pending_interface (with_sequencer pending_interface q w) = q"
    "pending_accounts (with_sequencer pending_interface q w) = pending_accounts w"
    "pending_open (with_sequencer pending_interface q w) = pending_open w"
    "pending_consumed (with_sequencer pending_interface q w) = pending_consumed w"
    "pending_limit (with_sequencer pending_interface q w) = pending_limit w"
    by (simp_all add: pending_accounts_def pending_open_def pending_consumed_def pending_limit_def)
  show "pending_limit w \<le> pending_consumed w + kStreamReceiveWindowLimit \<and> pending_limit w < 2 ^ 62"
    if "pending_accounts w" "pending_open w"
  proof -
    have "accounts_ok (ps_flow_controller (pending w)) (pending_connection_fc w)" using that by (simp add: pending_accounts_def)
    then show ?thesis
      by (auto simp: accounts_ok_def fc_defs FlowControlViolation_def pending_limit_def pending_consumed_def)
  qed
  show "\<exists>w'. AddBytesConsumed_callback pending_interface n w = Some w'
      \<and> sequencer_of pending_interface w' = sequencer_of pending_interface w
      \<and> pending_accounts w' \<and> pending_open w' \<and> pending_consumed w' = pending_consumed w + n \<and> pending_limit w' = pending_limit w"
    if "pending_accounts w" "pending_open w" "pending_consumed w + n \<le> pending_limit w"
    using that pending_consume [where n = n and w = w] by (simp add: pending_interface_def pending_accounts_def)
  show "\<exists>w'. AddBytesConsumed_callback pending_interface n w = Some w'
      \<and> sequencer_of pending_interface w' = sequencer_of pending_interface w \<and> pending_accounts w' \<and> \<not> pending_open w'"
    if "pending_accounts w" "\<not> pending_open w"
    using that pending_consume(1,2) [of n w] by (simp add: pending_interface_def pending_accounts_def)
  show "\<exists>w'. OnDataAvailable pending_interface w = Some w'
      \<and> evolves pending_interface pending_accounts pending_open pending_consumed pending_limit w w'" if "pending_inv w"
    using that by (simp add: evolves_def pending_interface_def PendingStream_OnDataAvailable_def)
  show "\<exists>w'. OnFinRead pending_interface w = Some w'
      \<and> evolves pending_interface pending_accounts pending_open pending_consumed pending_limit w w'" if "pending_inv w"
    using pending_evolves_calls [OF that]
    by (simp add: pending_interface_def PendingStream_OnFinRead_def PendingStream_CloseConnectionWithDetails_def)
  show "\<exists>w'. Reset_callback pending_interface e w = Some w'
      \<and> evolves pending_interface pending_accounts pending_open pending_consumed pending_limit w w'" if "pending_inv w"
    using pending_evolves_calls [OF that] by (simp add: pending_interface_def PendingStream_Reset_def)
  show "\<exists>w'. CloseConnectionWithDetails pending_interface c w = Some w'
      \<and> (pending_inv w \<longrightarrow> evolves pending_interface pending_accounts pending_open pending_consumed pending_limit w w')"
    using pending_evolves_calls [of w] by (simp add: pending_interface_def PendingStream_CloseConnectionWithDetails_def)
qed

section \<open>Runs\<close>

lemma u64_sub_kMax: "off \<le> kMaxStreamLength \<Longrightarrow> u64_sub kMaxStreamLength off = kMaxStreamLength - off"
  by (intro u64_sub_small) (simp_all add: kMaxStreamLength_def)

text \<open>What the update of the highest offset does to the accounts of an open stream.\<close>

lemma accounts_receive:
  assumes ok: "accounts_ok fc conn" and H: "highest_received_byte_offset fc < H" "H < 2 ^ 62"
    and conn: "highest_received_byte_offset conn + (H - highest_received_byte_offset fc) < 2 ^ 62"
    and fine: "\<not> FlowControlViolation (fc\<lparr>highest_received_byte_offset := H\<rparr>)"
      "\<not> FlowControlViolation (conn\<lparr>highest_received_byte_offset :=
         highest_received_byte_offset conn + (H - highest_received_byte_offset fc)\<rparr>)"
  shows "accounts_ok (fc\<lparr>highest_received_byte_offset := H\<rparr>)
    (conn\<lparr>highest_received_byte_offset := highest_received_byte_offset conn + (H - highest_received_byte_offset fc)\<rparr>)"
  using assms by (auto simp: accounts_ok_def fc_defs)

lemma pending_increase:
  assumes inv: "pending_inv w" and open1: "pending_open w" and H: "H < 2 ^ 62"
    and conn: "highest_received_byte_offset (pending_connection_fc w) + (H - pending_limit w) < 2 ^ 62"
    and r: "PendingStream_MaybeIncreaseHighestReceivedOffset H w = (up, w')"
  shows "pending_calls w' = pending_calls w \<and> ps_sequencer (pending w') = ps_sequencer (pending w)
    \<and> (\<not> up \<longrightarrow> w' = w \<and> H \<le> pending_limit w) \<and> (\<not> pending_violation w' \<longrightarrow> pending_inv w' \<and> H \<le> pending_limit w')"
proof (cases "H \<le> pending_limit w")
  case True
  then have "w' = w" "\<not> up" using r
    by (auto simp: PendingStream_MaybeIncreaseHighestReceivedOffset_def UpdateHighestReceivedOffset_def pending_limit_def)
  with True inv show ?thesis by simp
next
  case False
  let ?fc = "ps_flow_controller (pending w)" and ?conn = "pending_connection_fc w"
  let ?h = "highest_received_byte_offset (ps_flow_controller (pending w))"
  let ?fc' = "?fc\<lparr>highest_received_byte_offset := H\<rparr>"
  let ?conn' = "?conn\<lparr>highest_received_byte_offset := highest_received_byte_offset ?conn + (H - ?h)\<rparr>"
  have lt: "?h < H" using False by (simp add: pending_limit_def)
  have acc: "accounts_ok ?fc ?conn" using inv open1 by (simp add: stream_inv_def pending_accounts_def)
  have "u64_sub H ?h = H - ?h" using lt H by (intro u64_sub_small) simp_all
  moreover have "u64_add (highest_received_byte_offset ?conn) (H - ?h) = highest_received_byte_offset ?conn + (H - ?h)"
    using conn by (intro u64_add_small) (simp add: pending_limit_def)
  ultimately have w': "up" "w' = w\<lparr>pending := (pending w)\<lparr>ps_flow_controller := ?fc'\<rparr>, pending_connection_fc := ?conn'\<rparr>"
    using r lt by (auto simp: PendingStream_MaybeIncreaseHighestReceivedOffset_def UpdateHighestReceivedOffset_def Let_def)
  have "pending_inv w'" if nv: "\<not> pending_violation w'"
  proof -
    have "accounts_ok ?fc' ?conn'"
      using nv w'(2) conn by (intro accounts_receive [OF acc lt H]) (simp_all add: pending_violation_def pending_limit_def)
    then show ?thesis
      using inv open1 lt w'(2) by (auto simp: stream_inv_def pending_accounts_def pending_open_def pending_consumed_def pending_limit_def)
  qed
  then show ?thesis using w' False by (auto simp: pending_limit_def)
qed

text \<open>The codes with which a frame can close the connection.\<close>

definition peer_errors :: "QuicErrorCode set" where
  "peer_errors = {QUIC_STREAM_LENGTH_OVERFLOW, QUIC_FLOW_CONTROL_RECEIVED_TOO_MUCH_DATA, QUIC_EMPTY_STREAM_FRAME_NO_FIN,
     QUIC_TOO_MANY_STREAM_DATA_INTERVALS}"

definition pending_codes :: "pending_world \<Rightarrow> bool" where
  "pending_codes w \<longleftrightarrow> \<not> ignore_read_data (ps_sequencer (pending w))
     \<and> (\<forall>e. Pending_CloseConnection e \<in> set (pending_calls w) \<longrightarrow> e \<in> peer_errors)"

lemma pending_codes_simps [simp]:
  "(\<And>q. ignore_read_data (f q) = ignore_read_data q) \<Longrightarrow> pending_codes (upd_sequencer pending_interface f w) = pending_codes w"
  "pending_codes (upd_buffer pending_interface b w) = pending_codes w"
  "pending_codes (w\<lparr>pending := (pending w)\<lparr>ps_fin_received := x\<rparr>\<rparr>) = pending_codes w"
  "pending_codes (w\<lparr>pending := (pending w)\<lparr>ps_stream_bytes_read := y\<rparr>\<rparr>) = pending_codes w"
  by (simp_all add: pending_codes_def upd_sequencer_def upd_buffer_def)

lemma pending_codes_close:
  "pending_codes w \<Longrightarrow> e \<in> peer_errors \<Longrightarrow> pending_codes (PendingStream_CloseConnectionWithDetails e w)"
  by (auto simp: pending_codes_def PendingStream_CloseConnectionWithDetails_def pending_call_add_def)

lemma pending_codes_reset: "pending_codes w \<Longrightarrow> pending_codes (PendingStream_Reset e w)"
  by (auto simp: pending_codes_def PendingStream_Reset_def pending_call_add_def)

lemma pending_codes_consume: "pending_codes w \<Longrightarrow> pending_codes (PendingStream_AddBytesConsumed n w)"
  by (auto simp: pending_codes_def PendingStream_AddBytesConsumed_def pending_call_add_def split: prod.splits)

lemma pending_callbacks [simp]:
  "OnDataAvailable pending_interface w = Some w"
  "Reset_callback pending_interface e w = Some (PendingStream_Reset e w)"
  "CloseConnectionWithDetails pending_interface c w = Some (PendingStream_CloseConnectionWithDetails c w)"
  "AddBytesConsumed_callback pending_interface n w = Some (PendingStream_AddBytesConsumed n w)"
  by (simp_all add: pending_interface_def PendingStream_OnDataAvailable_def)

lemma pending_codes_close_at:
  assumes "pending_codes w" "CloseStreamAtOffset pending_interface off w = Some w'"
  shows "pending_codes w'"
proof -
  have i: "\<not> ignore_read_data (ps_sequencer (pending w))" using assms(1) by (simp add: pending_codes_def)
  show ?thesis
    using assms i
    by (auto simp: CloseStreamAtOffset_def MaybeCloseStream_def Let_def pending_codes_def PendingStream_Reset_def
      pending_call_add_def upd_sequencer_def upd_buffer_def split: if_splits)
qed

lemma pending_codes_frame:
  assumes inv: "pending_inv w" and codes: "pending_codes w" and fits: "pending.frame_fits frame w"
    and r: "Sequencer_OnStreamFrame pending_interface frame w = Some w'"
  shows "pending_codes w'"
proof -
  let ?off = "unat (sf_offset frame)" and ?d = "stream_frame_data frame"
  have len: "length ?d \<le> unat (sf_data_length frame)" by (simp add: stream_frame_data_def)
  have data: "pending_codes w2" if e: "evolves pending_interface pending_accounts pending_open pending_consumed pending_limit w w1"
    and c: "pending_codes w1" and r1: "OnFrameData pending_interface ?off ?d w1 = Some w2" for w1 w2
  proof -
    have fit: "?off + length ?d < 2 ^ 62"
      "?off + length ?d \<le> total_bytes_read (buffer_of pending_interface w1) + kStreamReceiveWindowLimit" if "?d \<noteq> []"
    proof -
      have "sf_data_length frame \<noteq> 0" using that by (auto simp: stream_frame_data_def)
      then show "?off + length ?d < 2 ^ 62"
        "?off + length ?d \<le> total_bytes_read (buffer_of pending_interface w1) + kStreamReceiveWindowLimit"
        using fits len e unfolding pending.frame_fits_def evolves_def Let_def by auto
    qed
    obtain b where b: "let w1' = upd_buffer pending_interface b w1 in
        Some w2 = Some (PendingStream_CloseConnectionWithDetails QUIC_EMPTY_STREAM_FRAME_NO_FIN w1')
      \<or> Some w2 = Some (PendingStream_CloseConnectionWithDetails QUIC_TOO_MANY_STREAM_DATA_INTERVALS w1')
      \<or> Some w2 = Some w1' \<or> Some w2 = Some (upd_sequencer pending_interface
          (\<lambda>q. q\<lparr>num_duplicate_frames_received := num_duplicate_frames_received q + 1\<rparr>) w1')
      \<or> ignore_read_data (ps_sequencer (pending w1))"
      using pending.OnFrameData_calls [OF pending.evolves_inv [OF e], of ?d ?off, OF fit]
      unfolding r1 Let_def pending_callbacks pending_interface_simps(1) by blast
    moreover have "\<not> ignore_read_data (ps_sequencer (pending w1))" using c by (simp add: pending_codes_def)
    moreover have "QUIC_EMPTY_STREAM_FRAME_NO_FIN \<in> peer_errors" "QUIC_TOO_MANY_STREAM_DATA_INTERVALS \<in> peer_errors"
      by (simp_all add: peer_errors_def)
    ultimately show ?thesis using c by (auto simp: Let_def intro!: pending_codes_close)
  qed
  let ?w1 = "count_frame pending_interface w"
  have e1: "evolves pending_interface pending_accounts pending_open pending_consumed pending_limit w ?w1"
    unfolding count_frame_def by (rule pending.evolves_sequencer [OF inv]) simp
  have c1: "pending_codes ?w1" using codes by (simp add: count_frame_def)
  show ?thesis
  proof (cases "sf_fin frame")
    case False
    then show ?thesis using data [OF e1 c1] r by (simp add: Sequencer_OnStreamFrame_def Let_def)
  next
    case True
    let ?stop = "u64_add ?off (unat (sf_data_length frame))"
    obtain w2 where w2: "CloseStreamAtOffset pending_interface ?stop ?w1 = Some w2"
      "evolves pending_interface pending_accounts pending_open pending_consumed pending_limit ?w1 w2"
      using pending.CloseStreamAtOffset_evolves [OF pending.evolves_inv [OF e1]] by blast
    have c2: "pending_codes w2" by (rule pending_codes_close_at [OF c1 w2(1)])
    show ?thesis
      using data [OF pending.evolves_trans [OF e1 w2(2)] c2] r True w2(1) c2
      by (auto simp: Sequencer_OnStreamFrame_def Let_def split: if_splits)
  qed
qed

lemma pending_bookkeeping [simp]:
  "pending_inv (w\<lparr>pending := (pending w)\<lparr>ps_fin_received := x\<rparr>\<rparr>) = pending_inv w"
  "pending_inv (w\<lparr>pending := (pending w)\<lparr>ps_stream_bytes_read := y\<rparr>\<rparr>) = pending_inv w"
  "pending_open (w\<lparr>pending := p\<rparr>) = pending_open w"
  by (simp_all add: stream_inv_def pending_accounts_def pending_open_def pending_consumed_def pending_limit_def)

definition frame_stop :: "QuicStreamFrame \<Rightarrow> nat" where
  "frame_stop frame = unat (sf_offset frame) + unat (sf_data_length frame)"

lemma pending_closed: "\<not> pending_open (PendingStream_CloseConnectionWithDetails e w)"
  by (auto simp: pending_open_def PendingStream_CloseConnectionWithDetails_def pending_call_add_def)

lemma pending_stopped: "stopped pending_interface w' \<Longrightarrow> \<not> pending_open w'"
  by (auto simp: stopped_def pending_closed)

lemma pending_frame_sequenced:
  assumes inv: "pending_inv w" and codes: "pending_codes w" and open1: "pending_open w"
    and lim: "sf_data_length frame = 0 \<or> frame_stop frame \<le> pending_limit w"
  shows "\<exists>w'. Sequencer_OnStreamFrame pending_interface frame w = Some w' \<and> pending_codes w' \<and> (pending_open w' \<longrightarrow> pending_inv w')"
proof -
  have fits: "pending.frame_fits frame w"
    using lim by (intro pending.frame_fits_within [OF inv open1]) (simp add: frame_stop_def)
  obtain w' where w': "Sequencer_OnStreamFrame pending_interface frame w = Some w'"
    "evolves pending_interface pending_accounts pending_open pending_consumed pending_limit w w' \<or> stopped pending_interface w'"
    using pending.OnStreamFrame_evolves [OF inv fits] by blast
  have "pending_open w' \<longrightarrow> pending_inv w'" using w'(2) pending_stopped pending.evolves_inv by blast
  with w'(1) pending_codes_frame [OF inv codes fits w'(1)] show ?thesis by blast
qed

lemma pending_frame_step:
  assumes inv: "pending_inv w" and codes: "pending_codes w" and open1: "pending_open w"
    and conn: "highest_received_byte_offset (pending_connection_fc w) + (frame_stop frame - pending_limit w) < 2 ^ 62"
  shows "\<exists>w'. PendingStream_OnStreamFrame frame w = Some w' \<and> pending_codes w' \<and> (pending_open w' \<longrightarrow> pending_inv w')"
proof -
  let ?off = "unat (sf_offset frame)" and ?n = "unat (sf_data_length frame)"
  define w1 where "w1 = (if sf_fin frame then w\<lparr>pending := (pending w)\<lparr>ps_fin_received := True\<rparr>\<rparr> else w)"
  define w2 where "w2 = w1\<lparr>pending := (pending w1)\<lparr>ps_stream_bytes_read := u64_add (ps_stream_bytes_read (pending w1)) ?n\<rparr>\<rparr>"
  obtain up w3 where w3: "(if ?n > 0 then PendingStream_MaybeIncreaseHighestReceivedOffset (u64_add ?off ?n) w2 else (False, w2)) = (up, w3)"
    by fastforce
  have w2s: "pending_inv w2" "pending_codes w2" "pending_open w2" "pending_limit w2 = pending_limit w"
    "pending_connection_fc w2 = pending_connection_fc w"
    using inv codes open1 by (simp_all add: w2_def w1_def pending_limit_def)
  show ?thesis
  proof (cases "?off > kMaxStreamLength \<or> u64_sub kMaxStreamLength ?off < ?n")
    case True
    then show ?thesis using codes
      by (simp add: PendingStream_OnStreamFrame_def Let_def pending_closed pending_codes_close peer_errors_def)
  next
    case False
    then have stop: "frame_stop frame < 2 ^ 62" using u64_sub_kMax [of ?off] by (auto simp: frame_stop_def kMaxStreamLength_def)
    then have add: "u64_add ?off ?n = frame_stop frame" by (simp add: frame_stop_def u64_add_small)
    have e: "PendingStream_OnStreamFrame frame w =
      (if up \<and> pending_violation w3
       then Some (PendingStream_CloseConnectionWithDetails QUIC_FLOW_CONTROL_RECEIVED_TOO_MUCH_DATA w3)
       else Sequencer_OnStreamFrame pending_interface frame w3)"
      unfolding PendingStream_OnStreamFrame_def Let_def if_not_P [OF False] w1_def [symmetric] w2_def [symmetric] w3 by simp
    have step: "pending_calls w3 = pending_calls w2 \<and> ps_sequencer (pending w3) = ps_sequencer (pending w2)
      \<and> (\<not> (up \<and> pending_violation w3) \<longrightarrow> pending_inv w3 \<and> (sf_data_length frame = 0 \<or> frame_stop frame \<le> pending_limit w3))"
    proof (cases "?n > 0")
      case True
      then have m: "PendingStream_MaybeIncreaseHighestReceivedOffset (frame_stop frame) w2 = (up, w3)" using w3 add by simp
      have "highest_received_byte_offset (pending_connection_fc w2) + (frame_stop frame - pending_limit w2) < 2 ^ 62"
        using conn w2s by simp
      from pending_increase [OF w2s(1,3) stop this m] w2s(1) show ?thesis by auto
    next
      case False
      then have "sf_data_length frame = 0" by (simp add: unat_gt_0)
      then show ?thesis using w3 w2s by simp
    qed
    then have c3: "pending_codes w3" and o3: "pending_open w3" using w2s by (simp_all add: pending_codes_def pending_open_def)
    show ?thesis
    proof (cases "up \<and> pending_violation w3")
      case True
      then show ?thesis using c3 by (simp add: e pending_closed pending_codes_close peer_errors_def)
    next
      case False
      then show ?thesis using pending_frame_sequenced [OF _ c3 o3] step unfolding e by auto
    qed
  qed
qed

lemma pending_rst_step:
  assumes inv: "pending_inv w" and codes: "pending_codes w" and open1: "pending_open w"
    and conn: "highest_received_byte_offset (pending_connection_fc w) + (unat (rst_byte_offset frame) - pending_limit w) < 2 ^ 62"
  shows "pending_codes (PendingStream_OnRstStreamFrame frame w)
    \<and> (pending_open (PendingStream_OnRstStreamFrame frame w) \<longrightarrow> pending_inv (PendingStream_OnRstStreamFrame frame w))"
proof (cases "unat (rst_byte_offset frame) > kMaxStreamLength")
  case True
  then show ?thesis using codes
    by (simp add: PendingStream_OnRstStreamFrame_def Let_def pending_closed pending_codes_close peer_errors_def)
next
  case False
  then have lt: "unat (rst_byte_offset frame) < 2 ^ 62" by (simp add: kMaxStreamLength_def)
  obtain up w1 where m: "PendingStream_MaybeIncreaseHighestReceivedOffset (unat (rst_byte_offset frame)) w = (up, w1)" by fastforce
  note s = pending_increase [OF inv open1 lt conn m]
  then have "pending_codes w1" using codes by (simp add: pending_codes_def)
  with s m False show ?thesis
    by (simp add: PendingStream_OnRstStreamFrame_def Let_def pending_closed pending_codes_close peer_errors_def)
qed

lemma pending_consume_step:
  assumes inv: "pending_inv w" and codes: "pending_codes w"
  shows "\<exists>w'. PendingStream_MarkConsumed n w = Some w' \<and> pending_codes w' \<and> pending_inv w'"
proof -
  obtain w' where w': "Sequencer_MarkConsumed pending_interface n w = Some w'"
    "evolves pending_interface pending_accounts pending_open pending_consumed pending_limit w w'"
    using pending.MarkConsumed_evolves [OF inv] by blast
  have "pending_codes w'"
    using w'(1) codes
    by (auto simp: Sequencer_MarkConsumed_def Let_def bind_eq_Some_conv pending_codes_reset pending_codes_consume split: if_splits)
  with w' show ?thesis by (auto simp: PendingStream_MarkConsumed_def evolves_def)
qed

text \<open>
  The life of a pending stream while the connection is open: frames, resets and the consumption of the stream type,
  the clock, and the other streams of the connection, which change its flow controller within their accounts. The
  connection carries less than \<open>2 ^ 62\<close> bytes in all.
\<close>

inductive pending_run :: "pending_world \<Rightarrow> bool" where
  start: "sw < 2 ^ 64 \<Longrightarrow> rw \<le> kStreamReceiveWindowLimit \<Longrightarrow> fc_ok conn \<Longrightarrow> \<not> FlowControlViolation conn \<Longrightarrow>
    bytes_consumed conn \<le> highest_received_byte_offset conn \<Longrightarrow> highest_received_byte_offset conn < 2 ^ 62 \<Longrightarrow>
    pending_run \<lparr>pending = new_PendingStream i sw rw at flag, pending_connection_fc = conn, pending_env = env, pending_calls = []\<rparr>"
| frame: "pending_run w \<Longrightarrow> pending_open w \<Longrightarrow>
    highest_received_byte_offset (pending_connection_fc w) + (frame_stop f - pending_limit w) < 2 ^ 62 \<Longrightarrow>
    PendingStream_OnStreamFrame f w = Some w' \<Longrightarrow> pending_run w'"
| rst: "pending_run w \<Longrightarrow> pending_open w \<Longrightarrow>
    highest_received_byte_offset (pending_connection_fc w) + (unat (rst_byte_offset r) - pending_limit w) < 2 ^ 62 \<Longrightarrow>
    pending_run (PendingStream_OnRstStreamFrame r w)"
| consume: "pending_run w \<Longrightarrow> pending_open w \<Longrightarrow> PendingStream_MarkConsumed n w = Some w' \<Longrightarrow> pending_run w'"
| clock: "pending_run w \<Longrightarrow> pending_open w \<Longrightarrow> pending_run (w\<lparr>pending_env := e\<rparr>)"
| others: "pending_run w \<Longrightarrow> pending_open w \<Longrightarrow> fc_ok conn \<Longrightarrow> \<not> FlowControlViolation conn \<Longrightarrow>
    bytes_consumed conn + (pending_limit w - pending_consumed w) \<le> highest_received_byte_offset conn \<Longrightarrow>
    highest_received_byte_offset conn < 2 ^ 62 \<Longrightarrow> pending_run (w\<lparr>pending_connection_fc := conn\<rparr>)"

lemma pending_run_inv: "pending_run w \<Longrightarrow> pending_codes w \<and> (pending_open w \<longrightarrow> pending_inv w)"
proof (induction rule: pending_run.induct)
  case (start sw rw conn i at flag env)
  let ?p = "new_PendingStream i sw rw at flag"
  have lim: "kStreamReceiveWindowLimit < 2 ^ 62" "0 < kStreamReceiveWindowLimit" by (simp_all add: kStreamReceiveWindowLimit_def)
  have "fc_ok (ps_flow_controller ?p)" using start lim by (simp add: new_PendingStream_def new_fc_ok)
  then have "accounts_ok (ps_flow_controller ?p) conn"
    using start by (simp add: accounts_ok_def new_PendingStream_def new_QuicFlowController_def FlowControlViolation_def)
  moreover note b = seq_ok_new [OF lim(2,1), of "[]"]
  moreover have "set_points (bytes_received (new_QuicStreamSequencerBuffer kStreamReceiveWindowLimit)) = {}"
    using b(2,3) by (simp add: unread_def)
  ultimately show ?case
    by (auto simp: stream_inv_def pending_accounts_def pending_open_def pending_consumed_def pending_limit_def pending_codes_def
      new_PendingStream_def new_QuicStreamSequencer_def new_QuicFlowController_def)
next
  case (frame w f w')
  then show ?case using pending_frame_step [of w f] by auto
next
  case (rst w r)
  then show ?case using pending_rst_step [of w r] by blast
next
  case (consume w n w')
  then show ?case using pending_consume_step [of w n] by auto
next
  case (clock w e)
  then show ?case by (auto simp: stream_inv_def pending_accounts_def pending_open_def pending_consumed_def pending_limit_def pending_codes_def)
next
  case (others w conn)
  then have inv: "pending_inv w" "pending_codes w" by simp_all
  then have "accounts_ok (ps_flow_controller (pending w)) (pending_connection_fc w)"
    using others.hyps(2) by (simp add: stream_inv_def pending_accounts_def)
  then have "accounts_ok (ps_flow_controller (pending w)) conn"
    using others.hyps by (simp add: accounts_ok_def pending_limit_def pending_consumed_def)
  with inv show ?case
    by (auto simp: stream_inv_def pending_accounts_def pending_open_def pending_consumed_def pending_limit_def pending_codes_def)
qed


definition example_pending :: pending_world where
  "example_pending =
     \<lparr>pending = new_PendingStream 3 100 64 False True, pending_connection_fc = new_QuicFlowController 0 True 100 64 1000 True,
      pending_env = example_fc_env, pending_calls = []\<rparr>"

definition example_pending_frame :: QuicStreamFrame where
  "example_pending_frame =
     \<lparr>sf_fin = False, sf_data_length = 3, sf_stream_id = 3, sf_data_buffer = Some [7, 8, 9], sf_offset = 2\<rparr>"


end
