(* ===== verification/Quic_Stream.thy ===== *)
theory Quic_Stream
  imports Quic_Pending_Stream Quic_Send_Buffer Quic_Versions
begin

text \<open>
  A stream (\<open>QuicStream\<close> in src/quic/core/quic_stream.cc and .h): its send buffer and its sequencer, the flow
  controllers of the stream and of the connection, and the two halves of its life cycle.

  What the stream is embedded in is a parameter, the \<open>StreamHost\<close>: the session and the connection it calls, the
  virtual methods of its subclass and the flags. These calls may come back to the stream, and therefore work on
  the whole world: the stream, the flow controller of the connection, and a state \<open>'x\<close> of their own. Methods of the
  stream that contain a loop return an option. Times are microseconds, zero for an uninitialized deadline.
\<close>

section \<open>State\<close>

datatype StreamSendingState = NO_FIN | FIN | FIN_AND_PADDING

record QuicStream =
  st_sequencer :: QuicStreamSequencer
  st_id :: nat
  st_priority :: nat
  stream_bytes_read :: nat
  stream_error :: QuicRstStreamErrorCode
  connection_error :: QuicErrorCode
  read_side_closed :: bool
  write_side_closed :: bool
  fin_buffered :: bool
  fin_sent :: bool
  fin_outstanding :: bool
  fin_lost :: bool
  fin_received :: bool
  rst_sent :: bool
  rst_received :: bool
  st_flow_controller :: QuicFlowController
  stream_contributes_to_connection_flow_control :: bool
  busy_counter :: nat
  add_random_padding_after_fin :: bool
  send_buffer :: QuicStreamSendBuffer
  buffered_data_threshold :: nat
  is_static :: bool
  deadline :: int
  stream_type :: StreamType

record 'x stream_world =
  the_stream :: QuicStream
  connection_fc :: QuicFlowController
  host_state :: 'x

text \<open>The calls to the session, the connection and the subclass that return nothing.\<close>

datatype host_call =
    CloseConnection_call QuicErrorCode
  | SendRstStream_call QuicRstStreamErrorCode nat
  | CloseStream_call
  | StreamDraining_call
  | OnStreamDoneWaitingForAcks_call
  | OnStreamWaitingForAcks_call
  | MarkConnectionLevelWriteBlocked_call
  | SendBlocked_call nat
  | SetTransmissionType_call
  | RegisterStreamPriority_call nat
  | UpdateStreamPriority_call nat
  | SendStopSending_call nat
  | Flow_control_call fc_action
  | OnDataBuffered_call nat nat
  | OnCanWriteNewData_call

record 'x StreamHost =
  host_call :: "host_call \<Rightarrow> 'x stream_world \<Rightarrow> 'x stream_world"
  host_WritevData ::
    "nat \<Rightarrow> nat \<Rightarrow> StreamSendingState \<Rightarrow> 'x stream_world \<Rightarrow> (nat \<times> bool) \<times> 'x stream_world"
  host_OnDataAvailable :: "'x stream_world \<Rightarrow> 'x stream_world option"
  host_ShouldYield :: "'x stream_world \<Rightarrow> bool"
  host_fc_env :: "'x stream_world \<Rightarrow> fc_env"
  host_transport_version :: QuicTransportVersion
  host_perspective :: Perspective
  host_session_decides_what_to_write :: bool
  host_max_data_slice_size :: nat
  host_SaveMemSlices :: "byte list list \<Rightarrow> QuicStreamSendBuffer \<Rightarrow> nat \<times> QuicStreamSendBuffer"
  host_no_window_update_flag :: bool

definition upd_stream :: "(QuicStream \<Rightarrow> QuicStream) \<Rightarrow> 'x stream_world \<Rightarrow> 'x stream_world" where
  "upd_stream f w = w\<lparr>the_stream := f (the_stream w)\<rparr>"

definition Stream_CloseConnectionWithDetails ::
    "'x StreamHost \<Rightarrow> QuicErrorCode \<Rightarrow> 'x stream_world \<Rightarrow> 'x stream_world" where
  "Stream_CloseConnectionWithDetails H error w = host_call H (CloseConnection_call error) w"

section \<open>Flow control\<close>

definition fc_calls :: "'x StreamHost \<Rightarrow> fc_action list \<Rightarrow> 'x stream_world \<Rightarrow> 'x stream_world" where
  "fc_calls H acts w = fold (\<lambda>a. host_call H (Flow_control_call a)) acts w"

definition Stream_AddBytesSent :: "'x StreamHost \<Rightarrow> nat \<Rightarrow> 'x stream_world \<Rightarrow> 'x stream_world" where
  "Stream_AddBytesSent H bytes w =
     (let (fc, acts) = AddBytesSent (st_flow_controller (the_stream w)) bytes;
          w1 = fc_calls H acts (upd_stream (\<lambda>s. s\<lparr>st_flow_controller := fc\<rparr>) w)
      in if stream_contributes_to_connection_flow_control (the_stream w1)
         then let (conn, acts') = AddBytesSent (connection_fc w1) bytes
              in fc_calls H acts' (w1\<lparr>connection_fc := conn\<rparr>)
         else w1)"

definition Stream_AddBytesConsumed :: "'x StreamHost \<Rightarrow> nat \<Rightarrow> 'x stream_world \<Rightarrow> 'x stream_world" where
  "Stream_AddBytesConsumed H bytes w =
     (if stream_type (the_stream w) = CRYPTO then w
      else let w1 = (if \<not> read_side_closed (the_stream w)
                     then (case AddBytesConsumed (host_fc_env H w) (st_flow_controller (the_stream w))
                                  (Some (connection_fc w)) bytes of
                             (fc, session_fc, acts) \<Rightarrow>
                               fc_calls H acts ((upd_stream (\<lambda>s. s\<lparr>st_flow_controller := fc\<rparr>) w)
                                 \<lparr>connection_fc := the session_fc\<rparr>))
                     else w)
           in if stream_contributes_to_connection_flow_control (the_stream w1)
              then (case AddBytesConsumed (host_fc_env H w1) (connection_fc w1) None bytes of
                      (conn, _, acts) \<Rightarrow> fc_calls H acts (w1\<lparr>connection_fc := conn\<rparr>))
              else w1)"

definition MaybeIncreaseHighestReceivedOffset :: "nat \<Rightarrow> 'x stream_world \<Rightarrow> bool \<times> 'x stream_world" where
  "MaybeIncreaseHighestReceivedOffset new_offset w =
     (let fc = st_flow_controller (the_stream w);
          increment = u64_sub new_offset (highest_received_byte_offset fc);
          (updated, fc1) = UpdateHighestReceivedOffset fc new_offset
      in if \<not> updated then (False, w)
         else let w1 = upd_stream (\<lambda>s. s\<lparr>st_flow_controller := fc1\<rparr>) w; conn = connection_fc w
              in (True,
                  if stream_contributes_to_connection_flow_control (the_stream w)
                  then w1\<lparr>connection_fc :=
                            snd (UpdateHighestReceivedOffset conn (u64_add (highest_received_byte_offset conn) increment))\<rparr>
                  else w1))"

definition Stream_violation :: "'x stream_world \<Rightarrow> bool" where
  "Stream_violation w \<longleftrightarrow>
     FlowControlViolation (st_flow_controller (the_stream w)) \<or> FlowControlViolation (connection_fc w)"

definition Stream_UpdateSendWindowOffset :: "'x StreamHost \<Rightarrow> nat \<Rightarrow> 'x stream_world \<Rightarrow> 'x stream_world" where
  "Stream_UpdateSendWindowOffset H new_window w =
     (let (unblocked, fc) = UpdateSendWindowOffset (st_flow_controller (the_stream w)) new_window;
          w1 = upd_stream (\<lambda>s. s\<lparr>st_flow_controller := fc\<rparr>) w
      in if unblocked then host_call H MarkConnectionLevelWriteBlocked_call w1 else w1)"

definition OnWindowUpdateFrame ::
    "'x StreamHost \<Rightarrow> QuicWindowUpdateFrame \<Rightarrow> 'x stream_world \<Rightarrow> 'x stream_world" where
  "OnWindowUpdateFrame H frame w =
     (if host_no_window_update_flag H \<and> stream_type (the_stream w) = READ_UNIDIRECTIONAL
      then Stream_CloseConnectionWithDetails H QUIC_WINDOW_UPDATE_RECEIVED_ON_READ_UNIDIRECTIONAL_STREAM w
      else Stream_UpdateSendWindowOffset H (unat (wu_byte_offset frame)) w)"

definition MaybeSendBlocked :: "'x StreamHost \<Rightarrow> 'x stream_world \<Rightarrow> 'x stream_world" where
  "MaybeSendBlocked H w =
     (let (stream_blocked, fc) = ShouldSendBlocked (st_flow_controller (the_stream w));
          w1 = upd_stream (\<lambda>s. s\<lparr>st_flow_controller := fc\<rparr>) w;
          w2 = (if stream_blocked then host_call H (SendBlocked_call (st_id (the_stream w1))) w1 else w1)
      in if \<not> stream_contributes_to_connection_flow_control (the_stream w2) then w2
         else let (conn_blocked, conn) = ShouldSendBlocked (connection_fc w2);
                  w3 = w2\<lparr>connection_fc := conn\<rparr>;
                  w4 = (if conn_blocked
                        then host_call H (SendBlocked_call (GetInvalidStreamId (host_transport_version H))) w3 else w3)
              in if IsBlocked (connection_fc w4) \<and> \<not> IsBlocked (st_flow_controller (the_stream w4))
                 then host_call H MarkConnectionLevelWriteBlocked_call w4 else w4)"

section \<open>Closing\<close>

text \<open>
  \<open>ReleaseBuffer\<close> of the sequencer changes nothing else of the stream, so that the sequencer can be reached
  without the interface.
\<close>

definition CloseReadSide :: "'x StreamHost \<Rightarrow> 'x stream_world \<Rightarrow> 'x stream_world" where
  "CloseReadSide H w =
     (if read_side_closed (the_stream w) then w
      else let w1 = upd_stream (\<lambda>s. s\<lparr>read_side_closed := True,
                 st_sequencer := (st_sequencer s)\<lparr>buffered_frames :=
                    ReleaseWholeBuffer (buffered_frames (st_sequencer s))\<rparr>\<rparr>) w
           in if write_side_closed (the_stream w1) then host_call H CloseStream_call w1 else w1)"

definition CloseWriteSide :: "'x StreamHost \<Rightarrow> 'x stream_world \<Rightarrow> 'x stream_world" where
  "CloseWriteSide H w =
     (if write_side_closed (the_stream w) then w
      else let w1 = upd_stream (\<lambda>s. s\<lparr>write_side_closed := True\<rparr>) w
           in if read_side_closed (the_stream w1) then host_call H CloseStream_call w1 else w1)"

definition Stream_OnFinRead :: "'x StreamHost \<Rightarrow> 'x stream_world \<Rightarrow> 'x stream_world" where
  "Stream_OnFinRead H w = CloseReadSide H (upd_stream (\<lambda>s. s\<lparr>fin_received := True\<rparr>) w)"

definition Stream_Reset :: "'x StreamHost \<Rightarrow> QuicRstStreamErrorCode \<Rightarrow> 'x stream_world \<Rightarrow> 'x stream_world" where
  "Stream_Reset H error w =
     (let w1 = upd_stream (\<lambda>s. s\<lparr>stream_error := error\<rparr>) w;
          w2 = host_call H (SendRstStream_call error (stream_bytes_written (send_buffer (the_stream w1)))) w1
      in upd_stream (\<lambda>s. s\<lparr>rst_sent := True\<rparr>) w2)"

definition OnConnectionClosed :: "'x StreamHost \<Rightarrow> QuicErrorCode \<Rightarrow> 'x stream_world \<Rightarrow> 'x stream_world" where
  "OnConnectionClosed H error w =
     (if read_side_closed (the_stream w) \<and> write_side_closed (the_stream w) then w
      else let w1 = (if error \<noteq> QUIC_NO_ERROR
                     then upd_stream (\<lambda>s. s\<lparr>stream_error := QUIC_STREAM_CONNECTION_ERROR, connection_error := error\<rparr>) w
                     else w)
           in CloseReadSide H (CloseWriteSide H w1))"

definition OnClose :: "'x StreamHost \<Rightarrow> 'x stream_world \<Rightarrow> 'x stream_world" where
  "OnClose H w =
     (let w1 = CloseWriteSide H (CloseReadSide H w);
          s = the_stream w1;
          w2 = (if \<not> fin_sent s \<and> \<not> rst_sent s
                then upd_stream (\<lambda>s. s\<lparr>rst_sent := True\<rparr>)
                       (host_call H OnStreamDoneWaitingForAcks_call
                         (host_call H (SendRstStream_call QUIC_RST_ACKNOWLEDGEMENT (stream_bytes_written (send_buffer s))) w1))
                else w1)
      in if Stream_violation w2 then w2
         else Stream_AddBytesConsumed H
                (u64_sub (highest_received_byte_offset (st_flow_controller (the_stream w2)))
                   (bytes_consumed (st_flow_controller (the_stream w2)))) w2)"

section \<open>Receiving\<close>

definition stream_interface :: "'x StreamHost \<Rightarrow> 'x stream_world StreamInterface" where
  "stream_interface H =
     \<lparr>sequencer_of = (\<lambda>w. st_sequencer (the_stream w)),
      with_sequencer = (\<lambda>q. upd_stream (\<lambda>s. s\<lparr>st_sequencer := q\<rparr>)),
      OnDataAvailable = host_OnDataAvailable H,
      OnFinRead = (\<lambda>w. Some (Stream_OnFinRead H w)),
      AddBytesConsumed_callback = (\<lambda>bytes w. Some (Stream_AddBytesConsumed H bytes w)),
      Reset_callback = (\<lambda>error w. Some (Stream_Reset H error w)),
      CloseConnectionWithDetails = (\<lambda>error w. Some (Stream_CloseConnectionWithDetails H error w))\<rparr>"

definition Stream_OnStreamFrame ::
    "'x StreamHost \<Rightarrow> QuicStreamFrame \<Rightarrow> 'x stream_world \<Rightarrow> 'x stream_world option" where
  "Stream_OnStreamFrame H frame w =
     (let offset = unat (sf_offset frame);
          frame_payload_size = unat (sf_data_length frame);
          is_stream_too_long = (offset > kMaxStreamLength \<or> u64_sub kMaxStreamLength offset < frame_payload_size)
      in if stream_type (the_stream w) = WRITE_UNIDIRECTIONAL
         then Some (Stream_CloseConnectionWithDetails H QUIC_DATA_RECEIVED_ON_WRITE_UNIDIRECTIONAL_STREAM w)
         else if is_stream_too_long then Some (Stream_CloseConnectionWithDetails H QUIC_STREAM_LENGTH_OVERFLOW w)
         else let w1 = (if sf_fin frame
                        then let w0 = upd_stream (\<lambda>s. s\<lparr>fin_received := True\<rparr>) w
                             in if fin_sent (the_stream w0) then host_call H StreamDraining_call w0 else w0
                        else w)
              in if read_side_closed (the_stream w1) then Some w1
                 else let w2 = upd_stream (\<lambda>s. s\<lparr>stream_bytes_read := u64_add (stream_bytes_read s) frame_payload_size\<rparr>) w1;
                          (increased, w3) = (if frame_payload_size > 0
                             then MaybeIncreaseHighestReceivedOffset (u64_add offset frame_payload_size) w2 else (False, w2))
                      in if increased \<and> Stream_violation w3
                         then Some (Stream_CloseConnectionWithDetails H QUIC_FLOW_CONTROL_RECEIVED_TOO_MUCH_DATA w3)
                         else Sequencer_OnStreamFrame (stream_interface H) frame w3)"

definition OnStreamReset :: "'x StreamHost \<Rightarrow> QuicRstStreamFrame \<Rightarrow> 'x stream_world \<Rightarrow> 'x stream_world" where
  "OnStreamReset H frame w =
     (let w1 = upd_stream (\<lambda>s. s\<lparr>rst_received := True\<rparr>) w; offset = unat (rst_byte_offset frame)
      in if offset > kMaxStreamLength then Stream_CloseConnectionWithDetails H QUIC_STREAM_LENGTH_OVERFLOW w1
         else let w2 = snd (MaybeIncreaseHighestReceivedOffset offset w1)
              in if Stream_violation w2
                 then Stream_CloseConnectionWithDetails H QUIC_FLOW_CONTROL_RECEIVED_TOO_MUCH_DATA w2
                 else let w3 = upd_stream (\<lambda>s. s\<lparr>stream_error := rst_error_code frame\<rparr>) w2;
                          w4 = (if \<not> VersionHasIetfQuicFrames (host_transport_version H) then CloseWriteSide H w3 else w3)
                      in CloseReadSide H w4)"

definition Stream_StopReading :: "'x StreamHost \<Rightarrow> 'x stream_world \<Rightarrow> 'x stream_world option" where
  "Stream_StopReading H w = Sequencer_StopReading (stream_interface H) w"

definition Stream_ReadableBytes :: "QuicStream \<Rightarrow> nat" where
  "Stream_ReadableBytes s = Sequencer_ReadableBytes (st_sequencer s)"

definition reading_stopped :: "QuicStream \<Rightarrow> bool" where
  "reading_stopped s \<longleftrightarrow> ignore_read_data (st_sequencer s) \<or> read_side_closed s"

definition HasFinalReceivedByteOffset :: "QuicStream \<Rightarrow> bool" where
  "HasFinalReceivedByteOffset s \<longleftrightarrow> fin_received s \<or> rst_received s"

section \<open>Sending\<close>

definition Stream_HasBufferedData :: "QuicStream \<Rightarrow> bool" where
  "Stream_HasBufferedData s \<longleftrightarrow> stream_offset (send_buffer s) > stream_bytes_written (send_buffer s)"

definition BufferedDataBytes :: "QuicStream \<Rightarrow> nat" where
  "BufferedDataBytes s = u64_sub (stream_offset (send_buffer s)) (stream_bytes_written (send_buffer s))"

definition CanWriteNewData :: "QuicStream \<Rightarrow> bool" where
  "CanWriteNewData s \<longleftrightarrow> BufferedDataBytes s < buffered_data_threshold s"

definition CanWriteNewDataAfterData :: "QuicStream \<Rightarrow> nat \<Rightarrow> bool" where
  "CanWriteNewDataAfterData s data_length \<longleftrightarrow> u64_add (BufferedDataBytes s) data_length < buffered_data_threshold s"

definition IsWaitingForAcks :: "QuicStream \<Rightarrow> bool" where
  "IsWaitingForAcks s \<longleftrightarrow> (\<not> rst_sent s \<or> stream_error s = QUIC_STREAM_NO_ERROR)
     \<and> (stream_bytes_outstanding (send_buffer s) \<noteq> 0 \<or> fin_outstanding s)"

definition Stream_HasPendingRetransmission :: "QuicStream \<Rightarrow> bool" where
  "Stream_HasPendingRetransmission s \<longleftrightarrow> HasPendingRetransmission (send_buffer s) \<or> fin_lost s"

definition IsStreamFrameOutstanding :: "QuicStream \<Rightarrow> nat \<Rightarrow> nat \<Rightarrow> bool \<Rightarrow> bool" where
  "IsStreamFrameOutstanding s offset data_length fin \<longleftrightarrow>
     IsStreamDataOutstanding (send_buffer s) offset data_length \<or> fin \<and> fin_outstanding s"

definition Stream_OnStreamDataConsumed :: "nat \<Rightarrow> 'x stream_world \<Rightarrow> 'x stream_world" where
  "Stream_OnStreamDataConsumed n w = upd_stream (\<lambda>s. s\<lparr>send_buffer := OnStreamDataConsumed (send_buffer s) n\<rparr>) w"

definition send_window :: "'x stream_world \<Rightarrow> nat" where
  "send_window w =
     (let sw = SendWindowSize (st_flow_controller (the_stream w))
      in if stream_contributes_to_connection_flow_control (the_stream w)
         then min sw (SendWindowSize (connection_fc w)) else sw)"

text \<open>What follows the write in \<open>WriteBufferedData\<close>.\<close>

definition after_write ::
    "'x StreamHost \<Rightarrow> nat \<Rightarrow> bool \<Rightarrow> bool \<Rightarrow> nat \<times> bool \<Rightarrow> 'x stream_world \<Rightarrow> 'x stream_world" where
  "after_write H write_length fin fin_with_zero_data consumed_data w =
     (let (bytes, fin_consumed) = consumed_data
      in if write_side_closed (the_stream w) then w
         else let w1 = (if bytes = write_length
                then let w0 = (if \<not> fin_with_zero_data then MaybeSendBlocked H w else w)
                     in if fin \<and> fin_consumed
                        then let w' = upd_stream (\<lambda>s. s\<lparr>fin_sent := True, fin_outstanding := True\<rparr>) w0;
                                 w'' = (if fin_received (the_stream w') then host_call H StreamDraining_call w' else w')
                             in CloseWriteSide H w''
                        else if fin \<and> \<not> fin_consumed then host_call H MarkConnectionLevelWriteBlocked_call w0
                        else w0
                else host_call H MarkConnectionLevelWriteBlocked_call w);
              w2 = (if bytes > 0 \<or> fin_consumed then upd_stream (\<lambda>s. s\<lparr>busy_counter := 0\<rparr>) w1 else w1)
         in if IsWaitingForAcks (the_stream w2) then host_call H OnStreamWaitingForAcks_call w2 else w2)"

definition WriteBufferedData :: "'x StreamHost \<Rightarrow> 'x stream_world \<Rightarrow> 'x stream_world" where
  "WriteBufferedData H w =
     (if host_ShouldYield H w then host_call H MarkConnectionLevelWriteBlocked_call w
      else let buffered = BufferedDataBytes (the_stream w);
               fin_with_zero_data = (fin_buffered (the_stream w) \<and> buffered = 0);
               window = send_window w
           in if window = 0 \<and> \<not> fin_with_zero_data then MaybeSendBlocked H w
              else let fin = (fin_buffered (the_stream w) \<and> \<not> buffered > window);
                       write_length = (if buffered > window then window else buffered);
                       w1 = (if host_session_decides_what_to_write H then host_call H SetTransmissionType_call w else w);
                       state = (if fin then if add_random_padding_after_fin (the_stream w1) then FIN_AND_PADDING else FIN
                                else NO_FIN);
                       (consumed_data, w2) =
                         host_WritevData H write_length (stream_bytes_written (send_buffer (the_stream w1))) state w1;
                       w3 = Stream_AddBytesSent H (fst consumed_data) (Stream_OnStreamDataConsumed (fst consumed_data) w2)
                   in after_write H write_length fin fin_with_zero_data consumed_data w3)"

definition closed_for_writing :: "'x StreamHost \<Rightarrow> 'x stream_world \<Rightarrow> 'x stream_world" where
  "closed_for_writing H w =
     (if stream_type (the_stream w) = READ_UNIDIRECTIONAL
      then Stream_CloseConnectionWithDetails H QUIC_TRY_TO_WRITE_DATA_ON_READ_UNIDIRECTIONAL_STREAM w else w)"

definition write_if_idle :: "'x StreamHost \<Rightarrow> bool \<Rightarrow> 'x stream_world \<Rightarrow> 'x stream_world" where
  "write_if_idle H had_buffered_data w =
     (if \<not> had_buffered_data \<and> (Stream_HasBufferedData (the_stream w) \<or> fin_buffered (the_stream w))
      then WriteBufferedData H w else w)"

text \<open>\<open>WriteOrBufferData\<close>; data that is saved is passed to \<open>OnDataBuffered\<close> of the subclass.\<close>

definition save_data :: "'x StreamHost \<Rightarrow> byte list list \<Rightarrow> nat \<Rightarrow> 'x stream_world \<Rightarrow> 'x stream_world option" where
  "save_data H iov data_length w =
     (let offset = stream_offset (send_buffer (the_stream w))
      in do {
        b \<leftarrow> SaveStreamData (host_max_data_slice_size H) (send_buffer (the_stream w)) iov 0 data_length;
        Some (host_call H (OnDataBuffered_call offset data_length) (upd_stream (\<lambda>s. s\<lparr>send_buffer := b\<rparr>) w))
      })"

definition WriteOrBufferData ::
    "'x StreamHost \<Rightarrow> byte list \<Rightarrow> bool \<Rightarrow> 'x stream_world \<Rightarrow> 'x stream_world option" where
  "WriteOrBufferData H data fin w =
     (if data = [] \<and> \<not> fin then Some w
      else if fin_buffered (the_stream w) then Some w
      else if write_side_closed (the_stream w) then Some (closed_for_writing H w)
      else let w1 = upd_stream (\<lambda>s. s\<lparr>fin_buffered := fin\<rparr>) w;
               had_buffered_data = Stream_HasBufferedData (the_stream w1)
           in if length data > 0
              then if u64_sub kMaxStreamLength (stream_offset (send_buffer (the_stream w1))) < length data
                   then Some (Stream_CloseConnectionWithDetails H QUIC_STREAM_LENGTH_OVERFLOW w1)
                   else do {
                     w2 \<leftarrow> save_data H [data] (length data) w1;
                     Some (write_if_idle H had_buffered_data w2)
                   }
              else Some (write_if_idle H had_buffered_data w1))"

definition Stream_WritevData ::
    "'x StreamHost \<Rightarrow> byte list list \<Rightarrow> bool \<Rightarrow> 'x stream_world \<Rightarrow> ((nat \<times> bool) \<times> 'x stream_world) option" where
  "Stream_WritevData H iov fin w =
     (let write_length = sum_list (map length iov); s = the_stream w
      in if write_side_closed s then Some ((0, False), closed_for_writing H w)
         else if fin_buffered s then Some ((0, False), w)
         else if u64_sub kMaxStreamLength (stream_offset (send_buffer s)) < write_length
         then Some ((0, False), Stream_CloseConnectionWithDetails H QUIC_STREAM_LENGTH_OVERFLOW w)
         else let had_buffered_data = Stream_HasBufferedData s;
                  bytes_consumed = (if CanWriteNewData s then write_length else 0);
                  fin_consumed = (bytes_consumed = write_length \<and> fin)
              in do {
                w1 \<leftarrow> (if bytes_consumed > 0 then save_data H iov write_length w else Some w);
                Some ((bytes_consumed, fin_consumed),
                  write_if_idle H had_buffered_data (upd_stream (\<lambda>s. s\<lparr>fin_buffered := fin_consumed\<rparr>) w1))
              })"

definition WriteMemSlices ::
    "'x StreamHost \<Rightarrow> byte list list \<Rightarrow> bool \<Rightarrow> 'x stream_world \<Rightarrow> (nat \<times> bool) \<times> 'x stream_world" where
  "WriteMemSlices H span fin w =
     (let s = the_stream w
      in if span = [] \<and> \<not> fin then ((0, False), w)
         else if fin_buffered s then ((0, False), w)
         else if write_side_closed s then ((0, False), closed_for_writing H w)
         else let had_buffered_data = Stream_HasBufferedData s
              in if CanWriteNewData s \<or> span = []
                 then if span \<noteq> []
                      then let offset = stream_offset (send_buffer s);
                               (bytes_consumed, b) = host_SaveMemSlices H span (send_buffer s);
                               w1 = upd_stream (\<lambda>s. s\<lparr>send_buffer := b\<rparr>) w
                           in if offset > stream_offset b \<or> kMaxStreamLength < stream_offset b
                              then ((bytes_consumed, fin), Stream_CloseConnectionWithDetails H QUIC_STREAM_LENGTH_OVERFLOW w1)
                              else let w2 = host_call H (OnDataBuffered_call offset bytes_consumed) w1
                                   in ((bytes_consumed, fin),
                                       write_if_idle H had_buffered_data (upd_stream (\<lambda>s. s\<lparr>fin_buffered := fin\<rparr>) w2))
                      else ((0, fin), write_if_idle H had_buffered_data (upd_stream (\<lambda>s. s\<lparr>fin_buffered := fin\<rparr>) w))
                 else ((0, False), write_if_idle H had_buffered_data (upd_stream (\<lambda>s. s\<lparr>fin_buffered := False\<rparr>) w)))"

section \<open>Acknowledgements and retransmissions\<close>

definition OnStreamFrameAcked ::
    "'x StreamHost \<Rightarrow> nat \<Rightarrow> nat \<Rightarrow> bool \<Rightarrow> 'x stream_world \<Rightarrow> (bool \<times> nat \<times> 'x stream_world) option" where
  "OnStreamFrameAcked H offset data_length fin_acked w =
     do {
       (acked, newly_acked_length, b) \<leftarrow> OnStreamDataAcked (send_buffer (the_stream w)) offset data_length;
       let w1 = upd_stream (\<lambda>s. s\<lparr>send_buffer := b\<rparr>) w;
       if \<not> acked then Some (False, newly_acked_length, Stream_CloseConnectionWithDetails H QUIC_INTERNAL_ERROR w1)
       else if \<not> fin_sent (the_stream w1) \<and> fin_acked
       then Some (False, newly_acked_length, Stream_CloseConnectionWithDetails H QUIC_INTERNAL_ERROR w1)
       else let new_data_acked = (newly_acked_length > 0 \<or> fin_acked \<and> fin_outstanding (the_stream w1));
                w2 = (if fin_acked then upd_stream (\<lambda>s. s\<lparr>fin_outstanding := False, fin_lost := False\<rparr>) w1 else w1)
            in Some (new_data_acked, newly_acked_length,
                 if \<not> IsWaitingForAcks (the_stream w2) then host_call H OnStreamDoneWaitingForAcks_call w2 else w2)
     }"

definition OnStreamFrameRetransmitted :: "nat \<Rightarrow> nat \<Rightarrow> bool \<Rightarrow> 'x stream_world \<Rightarrow> 'x stream_world option" where
  "OnStreamFrameRetransmitted offset data_length fin_retransmitted w =
     do {
       b \<leftarrow> OnStreamDataRetransmitted (send_buffer (the_stream w)) offset data_length;
       let w1 = upd_stream (\<lambda>s. s\<lparr>send_buffer := b\<rparr>) w;
       Some (if fin_retransmitted then upd_stream (\<lambda>s. s\<lparr>fin_lost := False\<rparr>) w1 else w1)
     }"

definition OnStreamFrameLost :: "nat \<Rightarrow> nat \<Rightarrow> bool \<Rightarrow> 'x stream_world \<Rightarrow> 'x stream_world option" where
  "OnStreamFrameLost offset data_length lost_fin w =
     do {
       b \<leftarrow> (if data_length > 0 then OnStreamDataLost (send_buffer (the_stream w)) offset data_length
              else Some (send_buffer (the_stream w)));
       let w1 = upd_stream (\<lambda>s. s\<lparr>send_buffer := b\<rparr>) w;
       Some (if lost_fin \<and> fin_outstanding (the_stream w1) then upd_stream (\<lambda>s. s\<lparr>fin_lost := True\<rparr>) w1 else w1)
     }"

definition HasDeadlinePassed :: "'x StreamHost \<Rightarrow> 'x stream_world \<Rightarrow> bool" where
  "HasDeadlinePassed H w \<longleftrightarrow> deadline (the_stream w) \<noteq> 0 \<and> \<not> env_now (host_fc_env H w) < deadline (the_stream w)"

definition OnDeadlinePassed :: "'x StreamHost \<Rightarrow> 'x stream_world \<Rightarrow> 'x stream_world" where
  "OnDeadlinePassed H w = Stream_Reset H QUIC_STREAM_TTL_EXPIRED w"

text \<open>
  The loop of \<open>RetransmitStreamData\<close> over the intervals to send again: whether all went out, whether the FIN is
  still to be sent, and the world.
\<close>

fun Retransmit_loop ::
    "'x StreamHost \<Rightarrow> bool \<Rightarrow> nat QuicInterval list \<Rightarrow> 'x stream_world \<Rightarrow> (bool \<times> bool \<times> 'x stream_world) option" where
  "Retransmit_loop H retransmit_fin [] w = Some (True, retransmit_fin, w)"
| "Retransmit_loop H retransmit_fin (interval # intervals) w =
     (let retransmission_offset = imin interval;
          retransmission_length = u64_sub (imax interval) (imin interval);
          can_bundle_fin = (retransmit_fin
            \<and> u64_add retransmission_offset retransmission_length = stream_bytes_written (send_buffer (the_stream w)));
          ((bytes, fin_consumed), w1) =
            host_WritevData H retransmission_length retransmission_offset (if can_bundle_fin then FIN else NO_FIN) w
      in do {
        w2 \<leftarrow> OnStreamFrameRetransmitted retransmission_offset bytes fin_consumed w1;
        let retransmit_fin' = (if can_bundle_fin then \<not> fin_consumed else retransmit_fin);
        if bytes < retransmission_length \<or> can_bundle_fin \<and> \<not> fin_consumed then Some (False, retransmit_fin', w2)
        else Retransmit_loop H retransmit_fin' intervals w2
      })"

definition RetransmitStreamData ::
    "'x StreamHost \<Rightarrow> nat \<Rightarrow> nat \<Rightarrow> bool \<Rightarrow> 'x stream_world \<Rightarrow> (bool \<times> 'x stream_world) option" where
  "RetransmitStreamData H offset data_length fin w =
     (if HasDeadlinePassed H w then Some (True, OnDeadlinePassed H w)
      else do {
        retransmission \<leftarrow> Set_Difference_set (Set_Add [] (QuicInterval offset (u64_add offset data_length)))
                            (bytes_acked (send_buffer (the_stream w)));
        let retransmit_fin = (fin \<and> fin_outstanding (the_stream w));
        if retransmission = [] \<and> \<not> retransmit_fin then Some (True, w)
        else do {
          (sent, fin_left, w1) \<leftarrow> Retransmit_loop H retransmit_fin retransmission w;
          if \<not> sent then Some (False, w1)
          else if fin_left
          then let ((bytes, fin_consumed), w2) =
                     host_WritevData H 0 (stream_bytes_written (send_buffer (the_stream w1))) FIN w1
               in Some (fin_consumed, w2)
          else Some (True, w1)
        }
      })"

partial_function (option) WritePendingRetransmission ::
    "'x StreamHost \<Rightarrow> 'x stream_world \<Rightarrow> 'x stream_world option" where
  "WritePendingRetransmission H w =
     (if \<not> Stream_HasPendingRetransmission (the_stream w) then Some w
      else if \<not> HasPendingRetransmission (send_buffer (the_stream w))
      then let ((bytes, fin_consumed), w1) =
                 host_WritevData H 0 (stream_bytes_written (send_buffer (the_stream w))) FIN w;
               w2 = upd_stream (\<lambda>s. s\<lparr>fin_lost := \<not> fin_consumed\<rparr>) w1
           in if \<not> fin_consumed then Some w2 else WritePendingRetransmission H w2
      else let (pending_offset, pending_length) = NextPendingRetransmission (send_buffer (the_stream w));
               can_bundle_fin = (fin_lost (the_stream w)
                 \<and> u64_add pending_offset pending_length = stream_bytes_written (send_buffer (the_stream w)));
               ((bytes, fin_consumed), w1) =
                 host_WritevData H pending_length pending_offset (if can_bundle_fin then FIN else NO_FIN) w
           in Option.bind (OnStreamFrameRetransmitted pending_offset bytes fin_consumed w1) (\<lambda>w2.
                if bytes < pending_length \<or> can_bundle_fin \<and> \<not> fin_consumed then Some w2
                else WritePendingRetransmission H w2))"

definition Stream_OnCanWrite :: "'x StreamHost \<Rightarrow> 'x stream_world \<Rightarrow> 'x stream_world option" where
  "Stream_OnCanWrite H w =
     (if HasDeadlinePassed H w then Some (OnDeadlinePassed H w)
      else if Stream_HasPendingRetransmission (the_stream w) then WritePendingRetransmission H w
      else if write_side_closed (the_stream w) then Some w
      else let s = the_stream w;
               w1 = (if Stream_HasBufferedData s \<or> fin_buffered s \<and> \<not> fin_sent s then WriteBufferedData H w else w);
               s1 = the_stream w1
           in Some (if \<not> fin_buffered s1 \<and> \<not> fin_sent s1 \<and> CanWriteNewData s1
                    then host_call H OnCanWriteNewData_call w1 else w1))"

definition Stream_WriteStreamData :: "nat \<Rightarrow> nat \<Rightarrow> QuicDataWriter \<Rightarrow> 'x stream_world \<Rightarrow> bool \<times> QuicDataWriter \<times> 'x stream_world" where
  "Stream_WriteStreamData offset data_length writer w =
     (case WriteStreamData (send_buffer (the_stream w)) offset data_length writer of
        (ok, b, writer') \<Rightarrow> (ok, writer', upd_stream (\<lambda>s. s\<lparr>send_buffer := b\<rparr>) w))"

section \<open>The rest\<close>

definition SetPriority :: "'x StreamHost \<Rightarrow> nat \<Rightarrow> 'x stream_world \<Rightarrow> 'x stream_world" where
  "SetPriority H priority w =
     host_call H (UpdateStreamPriority_call priority) (upd_stream (\<lambda>s. s\<lparr>st_priority := priority\<rparr>) w)"

definition AddRandomPaddingAfterFin :: "'x stream_world \<Rightarrow> 'x stream_world" where
  "AddRandomPaddingAfterFin w = upd_stream (\<lambda>s. s\<lparr>add_random_padding_after_fin := True\<rparr>) w"

definition MaybeSetTtl :: "'x StreamHost \<Rightarrow> int \<Rightarrow> 'x stream_world \<Rightarrow> bool \<times> 'x stream_world" where
  "MaybeSetTtl H ttl w =
     (if is_static (the_stream w) then (False, w)
      else if deadline (the_stream w) \<noteq> 0 then (False, w)
      else if \<not> host_session_decides_what_to_write H then (False, w)
      else (True, upd_stream (\<lambda>s. s\<lparr>deadline := env_now (host_fc_env H w) + ttl\<rparr>) w))"

definition SendStopSending :: "'x StreamHost \<Rightarrow> nat \<Rightarrow> 'x stream_world \<Rightarrow> 'x stream_world" where
  "SendStopSending H code w =
     (if \<not> VersionHasIetfQuicFrames (host_transport_version H) then w else host_call H (SendStopSending_call code) w)"

text \<open>The constructor, for a stream that is new or was pending; \<open>incoming\<close> is the session's \<open>IsIncomingStream\<close>.\<close>

definition construct_stream ::
    "'x StreamHost \<Rightarrow> nat \<Rightarrow> QuicStreamSequencer \<Rightarrow> bool \<Rightarrow> StreamType \<Rightarrow> nat \<Rightarrow> bool \<Rightarrow> QuicFlowController \<Rightarrow>
       bool \<Rightarrow> nat \<Rightarrow> QuicFlowController \<Rightarrow> 'x \<Rightarrow> 'x stream_world" where
  "construct_stream H i sequencer static ty bytes_read fin_rec fc incoming threshold conn x =
     (let ty' = (if VersionHasIetfQuicFrames (host_transport_version H) \<and> ty \<noteq> CRYPTO
                 then GetStreamType i (host_perspective H) incoming else ty);
          s = \<lparr>st_sequencer = sequencer, st_id = i, st_priority = 3, stream_bytes_read = bytes_read,
               stream_error = QUIC_STREAM_NO_ERROR, connection_error = QUIC_NO_ERROR, read_side_closed = False,
               write_side_closed = False, fin_buffered = False, fin_sent = False, fin_outstanding = False,
               fin_lost = False, fin_received = fin_rec, rst_sent = False, rst_received = False,
               st_flow_controller = fc, stream_contributes_to_connection_flow_control = True, busy_counter = 0,
               add_random_padding_after_fin = False, send_buffer = new_QuicStreamSendBuffer,
               buffered_data_threshold = threshold, is_static = static, deadline = 0, stream_type = ty'\<rparr>;
          w = \<lparr>the_stream = s, connection_fc = conn, host_state = x\<rparr>;
          w1 = (if ty' = WRITE_UNIDIRECTIONAL then CloseReadSide H (upd_stream (\<lambda>s. s\<lparr>fin_received := True\<rparr>) w)
                else if ty' = READ_UNIDIRECTIONAL then CloseWriteSide H (upd_stream (\<lambda>s. s\<lparr>fin_sent := True\<rparr>) w)
                else w)
      in if ty' \<noteq> CRYPTO then host_call H (RegisterStreamPriority_call 3) w1 else w1)"

definition stream_from_pending ::
    "'x StreamHost \<Rightarrow> PendingStream \<Rightarrow> StreamType \<Rightarrow> bool \<Rightarrow> bool \<Rightarrow> nat \<Rightarrow> QuicFlowController \<Rightarrow> 'x \<Rightarrow> 'x stream_world" where
  "stream_from_pending H p ty static incoming threshold conn x =
     construct_stream H (ps_id p) (ps_sequencer p) static ty (ps_stream_bytes_read p) (ps_fin_received p)
       (ps_flow_controller p) incoming threshold conn x"

end
