(* ===== verification/Quic_Stream_Sending.thy ===== *)
theory Quic_Stream_Sending
  imports Quic_Stream
begin

text \<open>
  The sending half of a stream: what \<open>QuicStream\<close> relies on of the session and the connection it is embedded in, the
  invariant of its send buffer, its FIN and the two flow controllers, and that every operation preserves it. The
  parts of the model are in the theory of the stream; this theory adds no code to it.
\<close>

section \<open>Saving data in slices\<close>

lemma copy_iov_eq: "copy_iov iov n = take n (concat iov)"
proof (induction iov n rule: copy_iov.induct)
  case (2 v iov len)
  then show ?case by (cases "len \<le> length v") (simp_all add: Let_def min_def)
qed simp

lemma CopyToBuffer_eq: "CopyToBuffer iov off n = take n (drop off (concat iov))"
proof (induction iov off n rule: CopyToBuffer.induct)
  case (2 v iov off n)
  then show ?case by (cases "off \<ge> length v") (simp_all add: copy_iov_eq)
qed simp

text \<open>What saving leaves alone.\<close>

definition same_progress :: "QuicStreamSendBuffer \<Rightarrow> QuicStreamSendBuffer \<Rightarrow> bool" where
  "same_progress b b' \<longleftrightarrow> stream_bytes_written b' = stream_bytes_written b
     \<and> stream_bytes_outstanding b' = stream_bytes_outstanding b \<and> bytes_acked b' = bytes_acked b
     \<and> pending_retransmissions b' = pending_retransmissions b"

lemma SaveMemSlice_progress: "same_progress b (SaveMemSlice b bs)"
  by (simp add: same_progress_def SaveMemSlice_def Let_def)

lemma SaveStreamData_ok:
  assumes "send_buffer_ok s W b" "0 < m" "off + n \<le> length (concat iov)" "length s + n < 2 ^ 62"
  shows "\<exists>b'. SaveStreamData m b iov off n = Some b' \<and> send_buffer_ok (s @ take n (drop off (concat iov))) W b' \<and> same_progress b b'"
  using assms
proof (induction n arbitrary: s b off rule: less_induct)
  case (less n)
  show ?case
  proof (cases "n = 0")
    case True
    then show ?thesis using less.prems(1) by (subst SaveStreamData.simps) (simp add: same_progress_def)
  next
    case False
    define k where "k = min n m"
    have k: "0 < k" "k \<le> n" using False less.prems(2) by (auto simp: k_def)
    let ?d = "take k (drop off (concat iov))"
    have ld: "length ?d = k" using k(2) less.prems(3) by simp
    have ok1: "send_buffer_ok (s @ ?d) W (SaveMemSlice b ?d)"
      using less.prems(4) k(2) ld by (intro SaveMemSlice_ok [OF less.prems(1)]) simp
    have step: "SaveStreamData m b iov off n = SaveStreamData m (SaveMemSlice b ?d) iov (off + k) (n - k)"
      using False by (subst SaveStreamData.simps) (simp add: Let_def CopyToBuffer_eq k_def [symmetric])
    have "length (s @ ?d) + (n - k) < 2 ^ 62" "off + k + (n - k) \<le> length (concat iov)"
      using ld k(2) less.prems(3,4) by simp_all
    then obtain b' where b': "SaveStreamData m (SaveMemSlice b ?d) iov (off + k) (n - k) = Some b'"
      "send_buffer_ok ((s @ ?d) @ take (n - k) (drop (off + k) (concat iov))) W b'" "same_progress (SaveMemSlice b ?d) b'"
      using less.IH [of "n - k" "s @ ?d" "SaveMemSlice b ?d" "off + k"] ok1 k less.prems(2) by auto
    have "?d @ take (n - k) (drop (off + k) (concat iov)) = take n (drop off (concat iov))"
      using k(2) by (metis drop_drop le_add_diff_inverse take_add add.commute)
    then show ?thesis using step b' SaveMemSlice_progress [of b ?d] by (auto simp: same_progress_def)
  qed
qed

section \<open>The invariant of the sending half\<close>

text \<open>
  The send buffer holds the data \<open>d\<close> written by the application, and has given out exactly what it has counted; the
  flow controllers are within their windows, and that of the stream has counted the same bytes; the FIN goes out only
  behind all the data, closes the sending side, and is what is outstanding or lost.
\<close>

definition send_inv :: "byte list \<Rightarrow> 'x stream_world \<Rightarrow> bool" where
  "send_inv d w \<longleftrightarrow> (let s = the_stream w; b = send_buffer s in
     send_buffer_ok d (stream_bytes_written b) b \<and> fc_send_ok (st_flow_controller s) \<and> fc_send_ok (connection_fc w)
   \<and> bytes_sent (st_flow_controller s) = stream_bytes_written b
   \<and> (fin_sent s \<longrightarrow> write_side_closed s \<and> stream_bytes_written b = stream_offset b)
   \<and> (fin_outstanding s \<longrightarrow> fin_sent s) \<and> (fin_lost s \<longrightarrow> fin_outstanding s))"

text \<open>A call of the host that leaves the sending half of the stream alone, except that it may close it.\<close>

definition quiet :: "'x stream_world \<Rightarrow> 'x stream_world \<Rightarrow> bool" where
  "quiet w w' \<longleftrightarrow> (let s = the_stream w; s' = the_stream w' in
     send_buffer s' = send_buffer s \<and> stream_type s' = stream_type s
   \<and> fin_buffered s' = fin_buffered s \<and> fin_sent s' = fin_sent s \<and> fin_outstanding s' = fin_outstanding s
   \<and> fin_lost s' = fin_lost s \<and> (write_side_closed s \<longrightarrow> write_side_closed s')
   \<and> stream_contributes_to_connection_flow_control s' = stream_contributes_to_connection_flow_control s
   \<and> bytes_sent (st_flow_controller s') = bytes_sent (st_flow_controller s)
   \<and> send_window_offset (st_flow_controller s') = send_window_offset (st_flow_controller s)
   \<and> (fc_send_ok (st_flow_controller s) \<longrightarrow> fc_send_ok (st_flow_controller s'))
   \<and> bytes_sent (connection_fc w') = bytes_sent (connection_fc w)
   \<and> send_window_offset (connection_fc w') = send_window_offset (connection_fc w)
   \<and> (fc_send_ok (connection_fc w) \<longrightarrow> fc_send_ok (connection_fc w')))"

text \<open>
  What the stream relies on: every call is quiet (a subclass that answers \<open>OnCanWriteNewData\<close>, the last action of
  \<open>OnCanWrite\<close>, by writing, writes in a step of its own); \<open>WritevData\<close> takes no more than it is offered, takes the FIN only with all of it, and reads the data it takes from the send buffer, which
  changes nothing but the position up to which the buffer has been read. The slices of a \<open>QuicMemSliceSpan\<close> are saved
  in their order.
\<close>

definition writes_through :: "nat \<Rightarrow> nat \<Rightarrow> StreamSendingState \<Rightarrow> 'x stream_world \<Rightarrow> (nat \<times> bool) \<times> 'x stream_world \<Rightarrow> bool" where
  "writes_through len off state w r \<longleftrightarrow>
     (case r of ((n, fin), w') \<Rightarrow>
        n \<le> len \<and> (fin \<longrightarrow> n = len \<and> state \<noteq> NO_FIN)
      \<and> (let b = send_buffer (the_stream w); b' = send_buffer (the_stream w') in
           quiet w (upd_stream (\<lambda>s. s\<lparr>send_buffer := b\<rparr>) w') \<and> same_progress b b' \<and> stream_offset b' = stream_offset b
         \<and> (\<forall>d W. send_buffer_ok d W b \<longrightarrow> off = W \<or> off + n \<le> W \<longrightarrow> off + n \<le> length d
                   \<longrightarrow> {off ..< off + n} \<inter> set_points (bytes_acked b) = {} \<longrightarrow> send_buffer_ok d (max W (off + n)) b')))"

definition host_contract :: "'x StreamHost \<Rightarrow> bool" where
  "host_contract H \<longleftrightarrow> 0 < host_max_data_slice_size H
   \<and> (\<forall>c w. quiet w (host_call H c w))
   \<and> (\<forall>len off state w. writes_through len off state w (host_WritevData H len off state w))
   \<and> (\<forall>span b. host_SaveMemSlices H span b = (length (concat span), fold (\<lambda>bs b. SaveMemSlice b bs) span b))"

lemma quiet_refl: "quiet w w"
  by (simp add: quiet_def)

lemma quiet_trans: "quiet a b \<Longrightarrow> quiet b c \<Longrightarrow> quiet a c"
  by (simp add: quiet_def Let_def)

lemma quiet_inv:
  assumes "quiet w w'" "send_inv d w"
  shows "send_inv d w'"
  using assms unfolding quiet_def send_inv_def Let_def by simp

lemma host_quiet: "host_contract H \<Longrightarrow> quiet w (host_call H c w)"
  by (simp add: host_contract_def)

text \<open>Updates of the stream that the sending half does not see.\<close>

lemma quiet_updates [simp, intro]:
  "quiet w (upd_stream (\<lambda>s. s\<lparr>rst_sent := x\<rparr>) w)" "quiet w (upd_stream (\<lambda>s. s\<lparr>stream_error := e\<rparr>) w)"
  "quiet w (upd_stream (\<lambda>s. s\<lparr>fin_received := x\<rparr>) w)" "quiet w (upd_stream (\<lambda>s. s\<lparr>busy_counter := n\<rparr>) w)"
  "quiet w (upd_stream (\<lambda>s. s\<lparr>write_side_closed := True\<rparr>) w)"
  "quiet w (upd_stream (\<lambda>s. s\<lparr>read_side_closed := True, st_sequencer := f s\<rparr>) w)"
  by (simp_all add: quiet_def upd_stream_def)

lemma quiet_if: "quiet w a \<Longrightarrow> quiet w b \<Longrightarrow> quiet w (if c then a else b)"
  by simp

lemma CloseWriteSide_quiet:
  assumes "host_contract H"
  shows "quiet w (CloseWriteSide H w)" "write_side_closed (the_stream (CloseWriteSide H w))"
proof -
  let ?w1 = "upd_stream (\<lambda>s. s\<lparr>write_side_closed := True\<rparr>) w"
  have q: "quiet ?w1 (host_call H CloseStream_call ?w1)" using host_quiet [OF assms] by simp
  show "quiet w (CloseWriteSide H w)"
    using quiet_trans [OF quiet_updates(5) q] by (simp add: CloseWriteSide_def Let_def quiet_refl)
  show "write_side_closed (the_stream (CloseWriteSide H w))"
    using q by (auto simp: CloseWriteSide_def Let_def quiet_def upd_stream_def)
qed

lemma CloseReadSide_quiet:
  assumes "host_contract H"
  shows "quiet w (CloseReadSide H w)"
proof -
  let ?w1 = "upd_stream (\<lambda>s. s\<lparr>read_side_closed := True,
                 st_sequencer := (st_sequencer s)\<lparr>buffered_frames :=
                    ReleaseWholeBuffer (buffered_frames (st_sequencer s))\<rparr>\<rparr>) w"
  have q: "quiet ?w1 (host_call H CloseStream_call ?w1)" using host_quiet [OF assms] by simp
  have "quiet w ?w1" by (rule quiet_updates(6))
  from quiet_trans [OF this q] this show ?thesis by (simp add: CloseReadSide_def Let_def quiet_refl)
qed

lemma quiet_flow_controllers:
  assumes "bytes_sent fc = bytes_sent (st_flow_controller (the_stream w))"
    "send_window_offset fc = send_window_offset (st_flow_controller (the_stream w))"
    "fc_send_ok (st_flow_controller (the_stream w)) \<Longrightarrow> fc_send_ok fc"
  shows "quiet w (upd_stream (\<lambda>s. s\<lparr>st_flow_controller := fc\<rparr>) w)"
  using assms by (simp add: quiet_def upd_stream_def)

lemma quiet_connection:
  assumes "bytes_sent fc = bytes_sent (connection_fc w)" "send_window_offset fc = send_window_offset (connection_fc w)"
    "fc_send_ok (connection_fc w) \<Longrightarrow> fc_send_ok fc"
  shows "quiet w (w\<lparr>connection_fc := fc\<rparr>)"
  using assms by (simp add: quiet_def)

lemma ShouldSendBlocked_kept:
  "bytes_sent (snd (ShouldSendBlocked fc)) = bytes_sent fc" "send_window_offset (snd (ShouldSendBlocked fc)) = send_window_offset fc"
  "fc_send_ok fc \<Longrightarrow> fc_send_ok (snd (ShouldSendBlocked fc))"
  by (auto simp: ShouldSendBlocked_def fc_send_ok_def)

lemma MaybeSendBlocked_quiet:
  assumes H: "host_contract H"
  shows "quiet w (MaybeSendBlocked H w)"
proof -
  note call = host_quiet [OF H]
  obtain sb fc where fc: "ShouldSendBlocked (st_flow_controller (the_stream w)) = (sb, fc)" by fastforce
  let ?w1 = "upd_stream (\<lambda>s. s\<lparr>st_flow_controller := fc\<rparr>) w"
  have q1: "quiet w ?w1"
    using ShouldSendBlocked_kept [of "st_flow_controller (the_stream w)"] fc by (intro quiet_flow_controllers) simp_all
  define w2 where "w2 = (if sb then host_call H (SendBlocked_call (st_id (the_stream ?w1))) ?w1 else ?w1)"
  have q2: "quiet w w2" using quiet_trans [OF q1 call] q1 by (simp add: w2_def)
  obtain cb conn where conn: "ShouldSendBlocked (connection_fc w2) = (cb, conn)" by fastforce
  let ?w3 = "w2\<lparr>connection_fc := conn\<rparr>"
  have q3: "quiet w ?w3"
    using ShouldSendBlocked_kept [of "connection_fc w2"] conn by (intro quiet_trans [OF q2] quiet_connection) simp_all
  define w4 where "w4 = (if cb then host_call H (SendBlocked_call (GetInvalidStreamId (host_transport_version H))) ?w3 else ?w3)"
  have q4: "quiet w w4" using quiet_trans [OF q3 call] q3 by (simp add: w4_def)
  have "quiet w (host_call H MarkConnectionLevelWriteBlocked_call w4)" using quiet_trans [OF q4 call] by simp
  with q2 q4 show ?thesis
    unfolding MaybeSendBlocked_def fc case_prod_conv Let_def w2_def [symmetric] conn w4_def [symmetric] by simp
qed

section \<open>Writing\<close>

lemma SendWindowSize_eq: "fc_send_ok fc \<Longrightarrow> SendWindowSize fc = send_window_offset fc - bytes_sent fc"
  by (auto simp: SendWindowSize_def fc_send_ok_def intro: u64_sub_small)

lemma AddBytesSent_within:
  assumes "fc_send_ok fc" "n \<le> SendWindowSize fc"
  shows "AddBytesSent fc n = (fc\<lparr>bytes_sent := bytes_sent fc + n\<rparr>, [])" "fc_send_ok (fc\<lparr>bytes_sent := bytes_sent fc + n\<rparr>)"
proof -
  have "bytes_sent fc + n \<le> send_window_offset fc" "send_window_offset fc < 2 ^ 64"
    using assms SendWindowSize_eq [OF assms(1)] by (auto simp: fc_send_ok_def)
  then show "AddBytesSent fc n = (fc\<lparr>bytes_sent := bytes_sent fc + n\<rparr>, [])" "fc_send_ok (fc\<lparr>bytes_sent := bytes_sent fc + n\<rparr>)"
    using assms(1) by (simp_all add: AddBytesSent_def u64_add_small fc_send_ok_def)
qed

text \<open>
  Data taken by the session within the window: counted by the send buffer and by both flow controllers, neither of
  which complains.
\<close>

lemma sent_within_window:
  fixes H :: "'x StreamHost" and w1 w2 :: "'x stream_world" and n :: nat
  assumes inv: "send_inv d w1" and r: "writes_through len (stream_bytes_written (send_buffer (the_stream w1))) state w1 ((n, fin), w2)"
    and len: "len \<le> send_window w1" "stream_bytes_written (send_buffer (the_stream w1)) + len \<le> stream_offset (send_buffer (the_stream w1))"
    and open1: "\<not> fin_sent (the_stream w1)"
  defines "w3 \<equiv> Stream_AddBytesSent H n (Stream_OnStreamDataConsumed n w2)"
  shows "send_inv d w3" "stream_bytes_written (send_buffer (the_stream w3)) = stream_bytes_written (send_buffer (the_stream w1)) + n"
    "stream_offset (send_buffer (the_stream w3)) = stream_offset (send_buffer (the_stream w1))"
    "fin_sent (the_stream w3) = fin_sent (the_stream w1)" "fin_buffered (the_stream w3) = fin_buffered (the_stream w1)"
    "write_side_closed (the_stream w1) \<longrightarrow> write_side_closed (the_stream w3)"
    "w3 = (let c = Stream_OnStreamDataConsumed n w2; fc = st_flow_controller (the_stream c)
           in (upd_stream (\<lambda>s. s\<lparr>st_flow_controller := fc\<lparr>bytes_sent := bytes_sent fc + n\<rparr>\<rparr>) c)\<lparr>connection_fc :=
             if stream_contributes_to_connection_flow_control (the_stream c)
             then (connection_fc c)\<lparr>bytes_sent := bytes_sent (connection_fc c) + n\<rparr> else connection_fc c\<rparr>)"
proof -
  let ?b1 = "send_buffer (the_stream w1)" and ?b2 = "send_buffer (the_stream w2)" and ?c = "Stream_OnStreamDataConsumed n w2"
  let ?fc = "st_flow_controller (the_stream ?c)" and ?conn = "connection_fc ?c"
  have n: "n \<le> len" and q: "quiet w1 (upd_stream (\<lambda>s. s\<lparr>send_buffer := ?b1\<rparr>) w2)" and p: "same_progress ?b1 ?b2"
    and off: "stream_offset ?b2 = stream_offset ?b1"
    using r by (auto simp: writes_through_def Let_def)
  have i: "fc_send_ok (st_flow_controller (the_stream w1))" "fc_send_ok (connection_fc w1)"
    "bytes_sent (st_flow_controller (the_stream w1)) = stream_bytes_written ?b1"
    using inv by (simp_all add: send_inv_def Let_def)
  let ?W' = "max (stream_bytes_written ?b1) (stream_bytes_written ?b1 + n)"
  have d: "send_buffer_ok d (stream_bytes_written ?b1) ?b1" using inv by (simp add: send_inv_def Let_def)
  then have "stream_offset ?b1 = length d" "{stream_bytes_written ?b1 ..< stream_bytes_written ?b1 + n} \<inter> set_points (bytes_acked ?b1) = {}"
    by (auto simp: send_buffer_ok_def)
  then have W': "stream_bytes_written ?b1 + n \<le> ?W'" "send_buffer_ok d ?W' ?b2"
    using r d len(2) n by (auto simp: writes_through_def Let_def)
  have wr: "stream_bytes_written ?b2 = stream_bytes_written ?b1" using p by (simp add: same_progress_def)
  note con = OnStreamDataConsumed_ok [OF W'(2), of n, unfolded wr, OF W'(1)]
  have same: "?fc = st_flow_controller (the_stream w2)" "?conn = connection_fc w2"
    "stream_contributes_to_connection_flow_control (the_stream ?c) = stream_contributes_to_connection_flow_control (the_stream w2)"
    by (simp_all add: Stream_OnStreamDataConsumed_def upd_stream_def)
  have fcs: "fc_send_ok ?fc" "fc_send_ok ?conn" "bytes_sent ?fc = stream_bytes_written ?b1"
    "send_window_offset ?fc = send_window_offset (st_flow_controller (the_stream w1))"
    "bytes_sent ?conn = bytes_sent (connection_fc w1)" "send_window_offset ?conn = send_window_offset (connection_fc w1)"
    "stream_contributes_to_connection_flow_control (the_stream ?c) = stream_contributes_to_connection_flow_control (the_stream w1)"
    using q i unfolding same by (simp_all add: quiet_def upd_stream_def Let_def)
  have win: "n \<le> SendWindowSize ?fc" "stream_contributes_to_connection_flow_control (the_stream ?c) \<Longrightarrow> n \<le> SendWindowSize ?conn"
    using n len(1) fcs i by (simp_all add: send_window_def SendWindowSize_eq Let_def split: if_splits)
  note a = AddBytesSent_within [OF fcs(1) win(1)] and a' = AddBytesSent_within [OF fcs(2) win(2)]
  show w3: "w3 = (let c = Stream_OnStreamDataConsumed n w2; fc = st_flow_controller (the_stream c)
           in (upd_stream (\<lambda>s. s\<lparr>st_flow_controller := fc\<lparr>bytes_sent := bytes_sent fc + n\<rparr>\<rparr>) c)\<lparr>connection_fc :=
             if stream_contributes_to_connection_flow_control (the_stream c)
             then (connection_fc c)\<lparr>bytes_sent := bytes_sent (connection_fc c) + n\<rparr> else connection_fc c\<rparr>)"
    using a(1) a'(1) by (auto simp: w3_def Stream_AddBytesSent_def fc_calls_def upd_stream_def Let_def split: if_splits)
  have sb: "send_buffer (the_stream w3) = OnStreamDataConsumed ?b2 n"
    "fin_sent (the_stream w3) = fin_sent (the_stream w2)" "fin_buffered (the_stream w3) = fin_buffered (the_stream w2)"
    "fin_outstanding (the_stream w3) = fin_outstanding (the_stream w2)" "fin_lost (the_stream w3) = fin_lost (the_stream w2)"
    "write_side_closed (the_stream w3) = write_side_closed (the_stream w2)"
    unfolding w3 by (simp_all add: Let_def Stream_OnStreamDataConsumed_def upd_stream_def)
  have fl: "fin_sent (the_stream w2) = fin_sent (the_stream w1)" "fin_buffered (the_stream w2) = fin_buffered (the_stream w1)"
    "fin_outstanding (the_stream w2) = fin_outstanding (the_stream w1)" "fin_lost (the_stream w2) = fin_lost (the_stream w1)"
    "write_side_closed (the_stream w1) \<longrightarrow> write_side_closed (the_stream w2)"
    using q by (simp_all add: quiet_def upd_stream_def Let_def)
  show "stream_bytes_written (send_buffer (the_stream w3)) = stream_bytes_written ?b1 + n" using con by (simp add: sb)
  show "stream_offset (send_buffer (the_stream w3)) = stream_offset ?b1" using off by (simp add: sb OnStreamDataConsumed_def)
  show "fin_sent (the_stream w3) = fin_sent (the_stream w1)" "fin_buffered (the_stream w3) = fin_buffered (the_stream w1)"
    "write_side_closed (the_stream w1) \<longrightarrow> write_side_closed (the_stream w3)" using fl by (simp_all add: sb)
  have nf: "\<not> fin_outstanding (the_stream w1)" "\<not> fin_lost (the_stream w1)" using inv open1 by (auto simp: send_inv_def Let_def)
  have "fc_send_ok (st_flow_controller (the_stream w3))" "bytes_sent (st_flow_controller (the_stream w3)) = stream_bytes_written ?b1 + n"
    "fc_send_ok (connection_fc w3)"
    unfolding w3 using a(2) a'(2) fcs by (simp_all add: Let_def upd_stream_def)
  then show "send_inv d w3"
    using con nf open1 fl unfolding send_inv_def Let_def sb by auto
qed

text \<open>The sending side is marked closed last: until then the invariant holds of the world with that mark.\<close>

definition mark_closed :: "'x stream_world \<Rightarrow> 'x stream_world" where
  "mark_closed w = upd_stream (\<lambda>s. s\<lparr>write_side_closed := True\<rparr>) w"

lemma mark_closed_quiet: "quiet w w' \<Longrightarrow> quiet (mark_closed w) (mark_closed w')"
  by (simp add: quiet_def mark_closed_def upd_stream_def Let_def)

lemma mark_closed_same: "write_side_closed (the_stream w) \<Longrightarrow> mark_closed w = w"
  by (simp add: mark_closed_def upd_stream_def)

lemma send_inv_marked: "send_inv d w \<Longrightarrow> send_inv d (mark_closed w)"
  unfolding mark_closed_def by (rule quiet_inv [OF quiet_updates(5)])

lemma send_fin:
  assumes H: "host_contract H" and inv: "send_inv d w"
    and all: "stream_bytes_written (send_buffer (the_stream w)) = stream_offset (send_buffer (the_stream w))"
    and q: "quiet (upd_stream (\<lambda>s. s\<lparr>fin_sent := True, fin_outstanding := True\<rparr>) w) w'"
  shows "send_inv d (CloseWriteSide H w')"
proof -
  let ?f = "upd_stream (\<lambda>s. s\<lparr>fin_sent := True, fin_outstanding := True\<rparr>) w"
  have "send_inv d (mark_closed ?f)"
    using inv all by (simp add: send_inv_def mark_closed_def upd_stream_def Let_def)
  then have "send_inv d (mark_closed (CloseWriteSide H w'))"
    using quiet_inv mark_closed_quiet [OF quiet_trans [OF q CloseWriteSide_quiet(1) [OF H]]] by blast
  then show ?thesis using CloseWriteSide_quiet(2) [OF H, of w'] by (simp add: mark_closed_same)
qed

lemma after_write_inv:
  assumes H: "host_contract H" and inv: "send_inv d w"
    and all: "bytes = write_length \<Longrightarrow> fin \<Longrightarrow>
      stream_bytes_written (send_buffer (the_stream w)) = stream_offset (send_buffer (the_stream w))"
  shows "send_inv d (after_write H write_length fin zero (bytes, fin_consumed) w)"
proof -
  note call = host_quiet [OF H]
  define w0 where "w0 = (if \<not> zero then MaybeSendBlocked H w else w)"
  have q0: "quiet w w0" using MaybeSendBlocked_quiet [OF H] by (simp add: w0_def quiet_refl)
  have inv0: "send_inv d w0" by (rule quiet_inv [OF q0 inv])
  let ?f = "upd_stream (\<lambda>s. s\<lparr>fin_sent := True, fin_outstanding := True\<rparr>) w0"
  define wf where "wf = (if fin_received (the_stream ?f) then host_call H StreamDraining_call ?f else ?f)"
  have qf: "quiet ?f wf" using call by (simp add: wf_def quiet_refl)
  have all0: "bytes = write_length \<Longrightarrow> fin \<Longrightarrow> stream_bytes_written (send_buffer (the_stream w0)) = stream_offset (send_buffer (the_stream w0))"
    using all q0 by (simp add: quiet_def Let_def)
  define w1 where "w1 = (if bytes = write_length
      then if fin \<and> fin_consumed then CloseWriteSide H wf
           else if fin \<and> \<not> fin_consumed then host_call H MarkConnectionLevelWriteBlocked_call w0 else w0
      else host_call H MarkConnectionLevelWriteBlocked_call w)"
  have inv1: "send_inv d w1"
    using send_fin [OF H inv0 all0 qf] quiet_inv [OF call inv0] quiet_inv [OF call inv] inv0 unfolding w1_def by simp
  define w2 where "w2 = (if bytes > 0 \<or> fin_consumed then upd_stream (\<lambda>s. s\<lparr>busy_counter := 0\<rparr>) w1 else w1)"
  have inv2: "send_inv d w2" using quiet_inv [OF quiet_updates(4) inv1] inv1 by (simp add: w2_def)
  have "after_write H write_length fin zero (bytes, fin_consumed) w =
    (if write_side_closed (the_stream w) then w
     else if IsWaitingForAcks (the_stream w2) then host_call H OnStreamWaitingForAcks_call w2 else w2)"
    unfolding after_write_def case_prod_conv Let_def w2_def w1_def wf_def w0_def by simp
  then show ?thesis using inv inv2 quiet_inv [OF call inv2] by simp
qed

text \<open>What the session is given to send is within the windows, and with the FIN it is all there is.\<close>

lemma WriteBufferedData_inv:
  assumes H: "host_contract H" and inv: "send_inv d w" and open_: "\<not> fin_sent (the_stream w)"
  shows "send_inv d (WriteBufferedData H w)"
proof -
  note call = host_quiet [OF H]
  let ?s = "the_stream w"
  let ?b = "send_buffer ?s" and ?buffered = "BufferedDataBytes ?s" and ?window = "send_window w"
  let ?zero = "fin_buffered ?s \<and> ?buffered = 0" and ?fin = "fin_buffered ?s \<and> \<not> ?buffered > ?window"
  let ?len = "if ?buffered > ?window then ?window else ?buffered"
  have b: "?buffered = stream_offset ?b - stream_bytes_written ?b" "stream_bytes_written ?b \<le> stream_offset ?b"
    using inv by (auto simp: BufferedDataBytes_def send_inv_def send_buffer_ok_def Let_def intro!: u64_sub_small)
  define w1 where "w1 = (if host_session_decides_what_to_write H then host_call H SetTransmissionType_call w else w)"
  have q1: "quiet w w1" using call by (simp add: w1_def quiet_refl)
  have inv1: "send_inv d w1" and open1: "\<not> fin_sent (the_stream w1)" and same: "send_buffer (the_stream w1) = ?b"
    using quiet_inv [OF q1 inv] q1 open_ by (simp_all add: quiet_def Let_def)
  have win: "send_window w1 = ?window"
    using q1 inv inv1 by (simp add: send_window_def SendWindowSize_eq quiet_def send_inv_def Let_def)
  define state where "state = (if ?fin then if add_random_padding_after_fin (the_stream w1) then FIN_AND_PADDING else FIN else NO_FIN)"
  obtain n fc w2 where r: "host_WritevData H ?len (stream_bytes_written ?b) state w1 = ((n, fc), w2)" by (metis prod.exhaust)
  have wt: "writes_through ?len (stream_bytes_written (send_buffer (the_stream w1))) state w1 ((n, fc), w2)"
    unfolding same r [symmetric] using H by (simp add: host_contract_def)
  have le: "?len \<le> send_window w1" "stream_bytes_written (send_buffer (the_stream w1)) + ?len \<le> stream_offset (send_buffer (the_stream w1))"
    unfolding win same using b by auto
  let ?w3 = "Stream_AddBytesSent H n (Stream_OnStreamDataConsumed n w2)"
  note sent = sent_within_window [OF inv1 wt le open1, of H]
  have "n = ?len \<Longrightarrow> ?fin \<Longrightarrow> stream_bytes_written (send_buffer (the_stream ?w3)) = stream_offset (send_buffer (the_stream ?w3))"
    unfolding sent(2,3) same using b by auto
  from after_write_inv [OF H sent(1) this]
  have inv3: "send_inv d (after_write H ?len ?fin ?zero (n, fc) ?w3)" by blast
  have "WriteBufferedData H w =
    (if host_ShouldYield H w then host_call H MarkConnectionLevelWriteBlocked_call w
     else if ?window = 0 \<and> \<not> ?zero then MaybeSendBlocked H w else after_write H ?len ?fin ?zero (n, fc) ?w3)"
    unfolding WriteBufferedData_def Let_def w1_def [symmetric] state_def [symmetric] same r case_prod_conv fst_conv by (rule refl)
  then show ?thesis
    using inv3 quiet_inv [OF call inv] quiet_inv [OF MaybeSendBlocked_quiet [OF H] inv] by simp
qed

section \<open>Writing from the application\<close>

lemma write_if_idle_inv:
  assumes "host_contract H" "send_inv d w" "\<not> fin_sent (the_stream w)"
  shows "send_inv d (write_if_idle H had w)"
  using WriteBufferedData_inv [OF assms] assms(2) by (simp add: write_if_idle_def)

lemma closed_for_writing_inv:
  assumes "host_contract H" "send_inv d w"
  shows "send_inv d (closed_for_writing H w)"
  using quiet_inv [OF host_quiet [OF assms(1)] assms(2)] assms(2)
  by (simp add: closed_for_writing_def Stream_CloseConnectionWithDetails_def)

text \<open>More data in the send buffer, as long as no FIN has been sent behind the data there.\<close>

lemma send_inv_append:
  assumes "send_inv d w" "\<not> fin_sent (the_stream w)" "same_progress (send_buffer (the_stream w)) b"
    "send_buffer_ok (d @ e) (stream_bytes_written (send_buffer (the_stream w))) b"
  shows "send_inv (d @ e) (upd_stream (\<lambda>s. s\<lparr>send_buffer := b\<rparr>) w)"
  using assms by (auto simp: send_inv_def same_progress_def upd_stream_def Let_def)

lemma set_fin_buffered_inv [simp]:
  "send_inv d (upd_stream (\<lambda>s. s\<lparr>fin_buffered := x\<rparr>) w) \<longleftrightarrow> send_inv d w"
  by (simp add: send_inv_def upd_stream_def Let_def)

lemma save_data_inv:
  assumes H: "host_contract H" and inv: "send_inv d w" and open_: "\<not> fin_sent (the_stream w)"
    and n: "n = length (concat iov)" "length d + n \<le> kMaxStreamLength"
  shows "\<exists>w'. save_data H iov n w = Some w' \<and> send_inv (d @ concat iov) w' \<and> \<not> fin_sent (the_stream w')"
proof -
  let ?b = "send_buffer (the_stream w)" and ?c = "OnDataBuffered_call (stream_offset (send_buffer (the_stream w))) n"
  have ok: "send_buffer_ok d (stream_bytes_written ?b) ?b" using inv by (simp add: send_inv_def Let_def)
  have m: "0 < host_max_data_slice_size H" using H by (simp add: host_contract_def)
  obtain b where b: "SaveStreamData (host_max_data_slice_size H) ?b iov 0 n = Some b"
    "send_buffer_ok (d @ take n (drop 0 (concat iov))) (stream_bytes_written ?b) b" "same_progress ?b b"
    using SaveStreamData_ok [OF ok m, of 0 n iov] n by (auto simp: kMaxStreamLength_def)
  let ?w1 = "upd_stream (\<lambda>s. s\<lparr>send_buffer := b\<rparr>) w"
  have "send_inv (d @ concat iov) ?w1" using send_inv_append [OF inv open_ b(3)] b(2) n(1) by simp
  moreover have q: "quiet ?w1 (host_call H ?c ?w1)" using host_quiet [OF H] by simp
  moreover have "\<not> fin_sent (the_stream (host_call H ?c ?w1))" using q open_ by (simp add: quiet_def upd_stream_def Let_def)
  ultimately show ?thesis using quiet_inv b(1) by (auto simp: save_data_def Let_def)
qed

text \<open>When the application's data is taken: the stream is open for writing, and not too long.\<close>

definition takes_data :: "byte list \<Rightarrow> nat \<Rightarrow> 'x stream_world \<Rightarrow> bool" where
  "takes_data d n w \<longleftrightarrow> \<not> fin_buffered (the_stream w) \<and> \<not> write_side_closed (the_stream w) \<and> length d + n \<le> kMaxStreamLength"

lemma open_no_fin: "send_inv d w \<Longrightarrow> \<not> write_side_closed (the_stream w) \<Longrightarrow> \<not> fin_sent (the_stream w)"
  by (auto simp: send_inv_def Let_def)

lemma too_long_iff:
  assumes "send_inv d w"
  shows "u64_sub kMaxStreamLength (stream_offset (send_buffer (the_stream w))) < n \<longleftrightarrow> \<not> length d + n \<le> kMaxStreamLength"
proof -
  have "stream_offset (send_buffer (the_stream w)) = length d" "length d \<le> kMaxStreamLength"
    using assms by (auto simp: send_inv_def send_buffer_ok_def kMaxStreamLength_def Let_def)
  then show ?thesis by (auto simp: u64_sub_small kMaxStreamLength_def)
qed

lemma WriteOrBufferData_inv:
  assumes H: "host_contract H" and inv: "send_inv d w"
  shows "\<exists>w'. WriteOrBufferData H data fin w = Some w'
    \<and> send_inv (if takes_data d (length data) w then d @ data else d) w'"
proof (cases "(data = [] \<and> \<not> fin) \<or> fin_buffered (the_stream w) \<or> write_side_closed (the_stream w)")
  case True
  then show ?thesis
    using inv closed_for_writing_inv [OF H inv] by (auto simp: WriteOrBufferData_def takes_data_def)
next
  case False
  let ?w1 = "upd_stream (\<lambda>s. s\<lparr>fin_buffered := fin\<rparr>) w"
  have inv1: "send_inv d ?w1" using inv by simp
  have open_: "\<not> fin_sent (the_stream ?w1)" using open_no_fin [OF inv] False by (simp add: upd_stream_def)
  note long = too_long_iff [OF inv1, of "length data"]
  have e: "WriteOrBufferData H data fin w = (if length data > 0
     then if u64_sub kMaxStreamLength (stream_offset (send_buffer (the_stream ?w1))) < length data
          then Some (Stream_CloseConnectionWithDetails H QUIC_STREAM_LENGTH_OVERFLOW ?w1)
          else Option.bind (save_data H [data] (length data) ?w1)
                 (\<lambda>w2. Some (write_if_idle H (Stream_HasBufferedData (the_stream ?w1)) w2))
     else Some (write_if_idle H (Stream_HasBufferedData (the_stream ?w1)) ?w1))"
    using False by (auto simp: WriteOrBufferData_def Let_def)
  show ?thesis
  proof (cases "length data > 0 \<and> length d + length data \<le> kMaxStreamLength")
    case True
    then obtain w2 where "save_data H [data] (length data) ?w1 = Some w2" "send_inv (d @ concat [data]) w2" "\<not> fin_sent (the_stream w2)"
      using save_data_inv [OF H inv1 open_, of "length data" "[data]"] by auto
    then show ?thesis using True False long write_if_idle_inv [OF H] unfolding e by (auto simp: takes_data_def)
  next
    case no: False
    then show ?thesis
      using long False write_if_idle_inv [OF H inv1 open_] quiet_inv [OF host_quiet [OF H] inv1]
      unfolding e by (auto simp: takes_data_def Stream_CloseConnectionWithDetails_def)
  qed
qed

lemma Stream_WritevData_inv:
  assumes H: "host_contract H" and inv: "send_inv d w"
  shows "\<exists>n fc w'. Stream_WritevData H iov fin w = Some ((n, fc), w')
    \<and> send_inv (if n > 0 then d @ concat iov else d) w' \<and> (n > 0 \<longrightarrow> n = length (concat iov)) \<and> (fc \<longrightarrow> fin)"
proof (cases "write_side_closed (the_stream w) \<or> fin_buffered (the_stream w) \<or> \<not> length d + length (concat iov) \<le> kMaxStreamLength")
  case True
  then show ?thesis
    using inv closed_for_writing_inv [OF H inv] quiet_inv [OF host_quiet [OF H] inv] too_long_iff [OF inv, of "length (concat iov)"]
    by (auto simp: Stream_WritevData_def Let_def length_concat Stream_CloseConnectionWithDetails_def)
next
  case False
  let ?l = "length (concat iov)"
  let ?n = "if CanWriteNewData (the_stream w) then ?l else 0"
  have open_: "\<not> fin_sent (the_stream w)" using open_no_fin [OF inv] False by simp
  have long: "\<not> u64_sub kMaxStreamLength (stream_offset (send_buffer (the_stream w))) < ?l"
    using too_long_iff [OF inv] False by simp
  obtain w1 where w1: "(if ?n > 0 then save_data H iov ?l w else Some w) = Some w1"
    "send_inv (if ?n > 0 then d @ concat iov else d) w1" "\<not> fin_sent (the_stream w1)"
    using save_data_inv [OF H inv open_ refl] inv open_ False by (cases "?n > 0") auto
  let ?had = "Stream_HasBufferedData (the_stream w)"
  let ?w2 = "upd_stream (\<lambda>s. s\<lparr>fin_buffered := ?n = ?l \<and> fin\<rparr>) w1"
  have e: "Stream_WritevData H iov fin w = Some ((?n, ?n = ?l \<and> fin), write_if_idle H ?had ?w2)"
    using False long w1(1) unfolding Stream_WritevData_def Let_def length_concat [symmetric] by (simp del: length_concat)
  have "send_inv (if ?n > 0 then d @ concat iov else d) (write_if_idle H ?had ?w2)"
    by (rule write_if_idle_inv [OF H], unfold set_fin_buffered_inv, rule w1(2)) (simp add: w1(3) upd_stream_def)
  then show ?thesis unfolding e by auto
qed

lemma save_slices_ok:
  "send_buffer_ok d W b \<Longrightarrow> length d + length (concat span) < 2 ^ 62 \<Longrightarrow>
   send_buffer_ok (d @ concat span) W (fold (\<lambda>bs b. SaveMemSlice b bs) span b)
   \<and> same_progress b (fold (\<lambda>bs b. SaveMemSlice b bs) span b)"
proof (induction span arbitrary: d b)
  case (Cons x span)
  then have "send_buffer_ok (d @ x) W (SaveMemSlice b x)" by (intro SaveMemSlice_ok) simp_all
  from Cons.IH [OF this] Cons.prems(2) SaveMemSlice_progress [of b x] show ?case by (simp add: same_progress_def)
qed (simp add: same_progress_def)

lemma WriteMemSlices_inv:
  assumes H: "host_contract H" and inv: "send_inv d w" and len: "length d + length (concat span) \<le> kMaxStreamLength"
  shows "case WriteMemSlices H span fin w of ((n, fc), w') \<Rightarrow>
    send_inv (if n > 0 then d @ concat span else d) w' \<and> (n > 0 \<longrightarrow> n = length (concat span)) \<and> (fc \<longrightarrow> fin)"
proof (cases "span = [] \<and> \<not> fin \<or> fin_buffered (the_stream w) \<or> write_side_closed (the_stream w)")
  case True
  then show ?thesis using inv closed_for_writing_inv [OF H inv] by (auto simp: WriteMemSlices_def Let_def)
next
  case False
  let ?b = "send_buffer (the_stream w)" and ?had = "Stream_HasBufferedData (the_stream w)"
  let ?n = "length (concat span)" and ?b' = "fold (\<lambda>bs b. SaveMemSlice b bs) span (send_buffer (the_stream w))"
  have open_: "\<not> fin_sent (the_stream w)" using open_no_fin [OF inv] False by simp
  have idle: "send_inv d (write_if_idle H ?had (upd_stream (\<lambda>s. s\<lparr>fin_buffered := x\<rparr>) w))" for x
    using inv open_ by (intro write_if_idle_inv [OF H]) (simp, simp add: upd_stream_def)
  show ?thesis
  proof (cases "CanWriteNewData (the_stream w) \<and> span \<noteq> []")
    case no: False
    then show ?thesis using False idle by (auto simp: WriteMemSlices_def Let_def)
  next
    case yes: True
    have ok: "send_buffer_ok d (stream_bytes_written ?b) ?b" using inv by (simp add: send_inv_def Let_def)
    have "length d + ?n < 2 ^ 62" using len by (simp add: kMaxStreamLength_def)
    note save = save_slices_ok [OF ok this]
    let ?w1 = "upd_stream (\<lambda>s. s\<lparr>send_buffer := ?b'\<rparr>) w" and ?c = "OnDataBuffered_call (stream_offset ?b) ?n"
    let ?w2 = "host_call H ?c ?w1"
    have inv1: "send_inv (d @ concat span) ?w1" using send_inv_append [OF inv open_] save by blast
    have offs: "stream_offset ?b = length d" "stream_offset ?b' = length d + ?n"
      using ok save by (simp_all add: send_buffer_ok_def)
    have q: "quiet ?w1 ?w2" using host_quiet [OF H] by simp
    have "\<not> fin_sent (the_stream ?w2)" using q open_ by (simp add: quiet_def upd_stream_def Let_def)
    then have "send_inv (d @ concat span) (write_if_idle H ?had (upd_stream (\<lambda>s. s\<lparr>fin_buffered := fin\<rparr>) ?w2))"
      using quiet_inv [OF q inv1] by (intro write_if_idle_inv [OF H]) (simp, simp add: upd_stream_def)
    moreover have "WriteMemSlices H span fin w =
        ((?n, fin), write_if_idle H ?had (upd_stream (\<lambda>s. s\<lparr>fin_buffered := fin\<rparr>) ?w2))"
      using False yes len H offs unfolding WriteMemSlices_def Let_def host_contract_def by simp
    moreover have "(if ?n > 0 then d @ concat span else d) = d @ concat span" by simp
    ultimately show ?thesis by (simp only: case_prod_conv) blast
  qed
qed

section \<open>Acknowledgements and losses\<close>

lemma send_inv_buffer:
  assumes "send_inv d w" "send_buffer_ok d (stream_bytes_written b) b"
    "stream_bytes_written b = stream_bytes_written (send_buffer (the_stream w))"
  shows "send_inv d (upd_stream (\<lambda>s. s\<lparr>send_buffer := b\<rparr>) w)"
  using assms by (auto simp: send_inv_def send_buffer_ok_def upd_stream_def Let_def)

lemma send_inv_acked: "send_inv d w \<Longrightarrow> send_inv d (upd_stream (\<lambda>s. s\<lparr>fin_outstanding := False, fin_lost := False\<rparr>) w)"
  by (simp add: send_inv_def upd_stream_def Let_def)

lemma send_inv_fin_lost:
  "send_inv d w \<Longrightarrow> x \<longrightarrow> fin_outstanding (the_stream w) \<Longrightarrow> send_inv d (upd_stream (\<lambda>s. s\<lparr>fin_lost := x\<rparr>) w)"
  by (simp add: send_inv_def upd_stream_def Let_def)

lemma OnStreamFrameAcked_inv:
  assumes H: "host_contract H" and inv: "send_inv d w" and n: "off + n \<le> stream_bytes_written (send_buffer (the_stream w))"
    and fin: "fin_acked \<longrightarrow> fin_sent (the_stream w)"
  shows "\<exists>w'. OnStreamFrameAcked H off n fin_acked w =
      Some (card ({off ..< off + n} - set_points (bytes_acked (send_buffer (the_stream w)))) > 0
              \<or> fin_acked \<and> fin_outstanding (the_stream w),
            card ({off ..< off + n} - set_points (bytes_acked (send_buffer (the_stream w)))), w')
    \<and> send_inv d w'"
proof -
  let ?b = "send_buffer (the_stream w)"
  have ok: "send_buffer_ok d (stream_bytes_written ?b) ?b" using inv by (simp add: send_inv_def Let_def)
  let ?k = "card ({off ..< off + n} - set_points (bytes_acked ?b))"
  obtain b where b: "OnStreamDataAcked ?b off n = Some (True, ?k, b)"
    "send_buffer_ok d (stream_bytes_written ?b) b" "stream_bytes_written b = stream_bytes_written ?b"
  proof (cases "n = 0")
    case True
    then show thesis using that [of ?b] ok by (simp add: OnStreamDataAcked_def)
  next
    case False
    then show thesis using that OnStreamDataAcked_correct [OF ok _ n] by (auto simp: acked_ok_def)
  qed
  let ?w1 = "upd_stream (\<lambda>s. s\<lparr>send_buffer := b\<rparr>) w"
  have inv1: "send_inv d ?w1" using b by (intro send_inv_buffer [OF inv]) simp_all
  define w2 where "w2 = (if fin_acked then upd_stream (\<lambda>s. s\<lparr>fin_outstanding := False, fin_lost := False\<rparr>) ?w1 else ?w1)"
  have inv2: "send_inv d w2" using inv1 send_inv_acked [OF inv1] by (simp add: w2_def)
  have "OnStreamFrameAcked H off n fin_acked w = Some (?k > 0 \<or> fin_acked \<and> fin_outstanding (the_stream w), ?k,
      if \<not> IsWaitingForAcks (the_stream w2) then host_call H OnStreamDoneWaitingForAcks_call w2 else w2)"
    using fin unfolding OnStreamFrameAcked_def b(1) w2_def by (cases fin_acked) (simp_all add: Let_def upd_stream_def)
  then show ?thesis using inv2 quiet_inv [OF host_quiet [OF H] inv2] by simp
qed

lemma OnStreamFrameLost_inv:
  assumes inv: "send_inv d w" and n: "off + n \<le> stream_bytes_written (send_buffer (the_stream w))"
  shows "\<exists>w'. OnStreamFrameLost off n lost_fin w = Some w' \<and> send_inv d w'
    \<and> set_points (pending_retransmissions (send_buffer (the_stream w'))) = set_points (pending_retransmissions (send_buffer (the_stream w)))
        \<union> ({off ..< off + n} - set_points (bytes_acked (send_buffer (the_stream w))))
    \<and> fin_lost (the_stream w') = (fin_lost (the_stream w) \<or> lost_fin \<and> fin_outstanding (the_stream w))"
proof -
  let ?b = "send_buffer (the_stream w)"
  have ok: "send_buffer_ok d (stream_bytes_written ?b) ?b" using inv by (simp add: send_inv_def Let_def)
  obtain b where b: "(if n > 0 then OnStreamDataLost ?b off n else Some ?b) = Some b"
    "send_buffer_ok d (stream_bytes_written ?b) b" "stream_bytes_written b = stream_bytes_written ?b"
    "set_points (pending_retransmissions b) = set_points (pending_retransmissions ?b) \<union> ({off ..< off + n} - set_points (bytes_acked ?b))"
  proof (cases "n = 0")
    case True
    then show thesis using that [of ?b] ok by simp
  next
    case False
    then show thesis using that OnStreamDataLost_correct [OF ok _ n] by auto
  qed
  let ?w1 = "upd_stream (\<lambda>s. s\<lparr>send_buffer := b\<rparr>) w"
  have inv1: "send_inv d ?w1" using b by (intro send_inv_buffer [OF inv]) simp_all
  let ?c = "lost_fin \<and> fin_outstanding (the_stream ?w1)"
  have e: "OnStreamFrameLost off n lost_fin w = Some (if ?c then upd_stream (\<lambda>s. s\<lparr>fin_lost := True\<rparr>) ?w1 else ?w1)"
    unfolding OnStreamFrameLost_def b(1) by (simp add: Let_def)
  then show ?thesis
    using b(4) inv1 send_inv_fin_lost [OF inv1, of True] by (cases ?c) (auto simp: upd_stream_def)
qed

section \<open>Retransmissions\<close>

text \<open>Data sent again: within what has been written, and not acknowledged.\<close>

lemma resend:
  assumes H: "host_contract H" and inv: "send_inv d w"
    and rng: "off + len \<le> stream_bytes_written (send_buffer (the_stream w))"
      "{off ..< off + len} \<inter> set_points (bytes_acked (send_buffer (the_stream w))) = {}"
    and r: "host_WritevData H len off state w = ((n, fc), w1)"
  shows "send_inv d w1" "n \<le> len" "fc \<longrightarrow> n = len \<and> state \<noteq> NO_FIN"
    "same_progress (send_buffer (the_stream w)) (send_buffer (the_stream w1))"
    "fin_lost (the_stream w1) = fin_lost (the_stream w)" "fin_outstanding (the_stream w1) = fin_outstanding (the_stream w)"
proof -
  let ?b = "send_buffer (the_stream w)" and ?b1 = "send_buffer (the_stream w1)"
  let ?q = "upd_stream (\<lambda>s. s\<lparr>send_buffer := send_buffer (the_stream w)\<rparr>) w1"
  have ok: "send_buffer_ok d (stream_bytes_written ?b) ?b" using inv by (simp add: send_inv_def Let_def)
  have "writes_through len off state w ((n, fc), w1)" using H r by (metis host_contract_def)
  then have q: "quiet w ?q" and p: "same_progress ?b ?b1" and n: "n \<le> len" "fc \<longrightarrow> n = len \<and> state \<noteq> NO_FIN"
    and keep: "\<And>d W. send_buffer_ok d W ?b \<Longrightarrow> off = W \<or> off + n \<le> W \<Longrightarrow> off + n \<le> length d
      \<Longrightarrow> {off ..< off + n} \<inter> set_points (bytes_acked ?b) = {} \<Longrightarrow> send_buffer_ok d (max W (off + n)) ?b1"
    unfolding writes_through_def Let_def case_prod_conv by blast+
  have le: "off + n \<le> stream_bytes_written ?b" using n(1) rng(1) by simp
  have "{off ..< off + n} \<subseteq> {off ..< off + len}" using n(1) by auto
  then have "{off ..< off + n} \<inter> set_points (bytes_acked ?b) = {}" using rng(2) by blast
  moreover have "off + n \<le> length d" using le ok by (simp add: send_buffer_ok_def)
  ultimately have "send_buffer_ok d (max (stream_bytes_written ?b) (off + n)) ?b1" using keep [OF ok] le by blast
  then have ok1: "send_buffer_ok d (stream_bytes_written ?b) ?b1" using le by (simp add: max_absorb1)
  have restored: "upd_stream (\<lambda>s. s\<lparr>send_buffer := ?b1\<rparr>) ?q = w1" by (simp add: upd_stream_def)
  show "send_inv d w1"
    using send_inv_buffer [OF quiet_inv [OF q inv], of ?b1] ok1 p unfolding restored
    by (simp add: same_progress_def upd_stream_def)
  show "n \<le> len" "fc \<longrightarrow> n = len \<and> state \<noteq> NO_FIN" "same_progress ?b ?b1" by (fact n p)+
  show "fin_lost (the_stream w1) = fin_lost (the_stream w)" "fin_outstanding (the_stream w1) = fin_outstanding (the_stream w)"
    using q by (simp_all add: quiet_def upd_stream_def Let_def)
qed

lemma OnStreamFrameRetransmitted_inv:
  assumes inv: "send_inv d w" and n: "off + n \<le> stream_bytes_written (send_buffer (the_stream w))"
  shows "\<exists>w'. OnStreamFrameRetransmitted off n fin w = Some w' \<and> send_inv d w'
    \<and> bytes_acked (send_buffer (the_stream w')) = bytes_acked (send_buffer (the_stream w))
    \<and> stream_bytes_written (send_buffer (the_stream w')) = stream_bytes_written (send_buffer (the_stream w))
    \<and> set_points (pending_retransmissions (send_buffer (the_stream w'))) =
        set_points (pending_retransmissions (send_buffer (the_stream w))) - {off ..< off + n}
    \<and> fin_lost (the_stream w') = (fin_lost (the_stream w) \<and> \<not> fin)"
proof -
  let ?b = "send_buffer (the_stream w)"
  have ok: "send_buffer_ok d (stream_bytes_written ?b) ?b" using inv by (simp add: send_inv_def Let_def)
  obtain b where b: "OnStreamDataRetransmitted ?b off n = Some b" "send_buffer_ok d (stream_bytes_written ?b) b"
    "bytes_acked b = bytes_acked ?b" "stream_bytes_written b = stream_bytes_written ?b"
    "set_points (pending_retransmissions b) = set_points (pending_retransmissions ?b) - {off ..< off + n}"
  proof (cases "n = 0")
    case True
    then show thesis using that [of ?b] ok by (simp add: OnStreamDataRetransmitted_def)
  next
    case False
    then show thesis using that OnStreamDataRetransmitted_correct [OF ok _ n] by auto
  qed
  let ?w1 = "upd_stream (\<lambda>s. s\<lparr>send_buffer := b\<rparr>) w"
  have inv1: "send_inv d ?w1" using b by (intro send_inv_buffer [OF inv]) simp_all
  have e: "OnStreamFrameRetransmitted off n fin w = Some (if fin then upd_stream (\<lambda>s. s\<lparr>fin_lost := False\<rparr>) ?w1 else ?w1)"
    unfolding OnStreamFrameRetransmitted_def b(1) by (simp add: Let_def)
  show ?thesis
    unfolding e using b(3-5) inv1 send_inv_fin_lost [OF inv1, of False] by (cases fin) (simp_all add: upd_stream_def)
qed

text \<open>One step of a retransmission loop: the session takes some of the data, and the stream counts it.\<close>

lemma resend_step:
  assumes H: "host_contract H" and inv: "send_inv d w"
    and rng: "off + len \<le> stream_bytes_written (send_buffer (the_stream w))"
      "{off ..< off + len} \<inter> set_points (bytes_acked (send_buffer (the_stream w))) = {}"
    and r: "host_WritevData H len off state w = ((n, fc), w1)"
  shows "\<exists>w2. OnStreamFrameRetransmitted off n fc w1 = Some w2 \<and> send_inv d w2
    \<and> bytes_acked (send_buffer (the_stream w2)) = bytes_acked (send_buffer (the_stream w))
    \<and> stream_bytes_written (send_buffer (the_stream w2)) = stream_bytes_written (send_buffer (the_stream w))
    \<and> set_points (pending_retransmissions (send_buffer (the_stream w2))) =
        set_points (pending_retransmissions (send_buffer (the_stream w))) - {off ..< off + n}
    \<and> fin_lost (the_stream w2) = (fin_lost (the_stream w) \<and> \<not> fc)"
proof -
  note re = resend [OF H inv rng r]
  have same: "bytes_acked (send_buffer (the_stream w1)) = bytes_acked (send_buffer (the_stream w))"
    "stream_bytes_written (send_buffer (the_stream w1)) = stream_bytes_written (send_buffer (the_stream w))"
    "pending_retransmissions (send_buffer (the_stream w1)) = pending_retransmissions (send_buffer (the_stream w))"
    using re(4) by (simp_all add: same_progress_def)
  have "off + n \<le> stream_bytes_written (send_buffer (the_stream w1))" using re(2) rng(1) same(2) by simp
  from OnStreamFrameRetransmitted_inv [OF re(1) this, of fc] show ?thesis unfolding same re(5) .
qed

section \<open>The retransmission loop ends\<close>

text \<open>
  What is pending shrinks: each round that goes on has sent the first interval that is pending, or the FIN.
\<close>

definition pending_work :: "'x stream_world \<Rightarrow> nat" where
  "pending_work w = card (set_points (pending_retransmissions (send_buffer (the_stream w))))
     + (if fin_lost (the_stream w) then 1 else 0)"

definition takes_everything :: "'x StreamHost \<Rightarrow> bool" where
  "takes_everything H \<longleftrightarrow> (\<forall>len off state w. fst (host_WritevData H len off state w) = (len, state \<noteq> NO_FIN))"

lemma pending_finite:
  "send_inv d w \<Longrightarrow> finite (set_points (pending_retransmissions (send_buffer (the_stream w))))"
  by (rule finite_subset [of _ "{0 ..< stream_bytes_written (send_buffer (the_stream w))}"])
    (auto simp: send_inv_def send_buffer_ok_def Let_def)

lemma u64_add_within:
  assumes "send_inv d w" "off + n \<le> stream_bytes_written (send_buffer (the_stream w))"
  shows "u64_add off n = off + n"
  using assms by (intro u64_add_small) (auto simp: send_inv_def send_buffer_ok_def Let_def)

lemma WritePendingRetransmission_ends:
  assumes H: "host_contract H"
  shows "send_inv d w \<Longrightarrow> \<exists>w'. WritePendingRetransmission H w = Some w' \<and> send_inv d w'
    \<and> (takes_everything H \<longrightarrow> \<not> Stream_HasPendingRetransmission (the_stream w'))"
proof (induction "pending_work w" arbitrary: w rule: less_induct)
  case less
  note inv = less.prems
  let ?s = "the_stream w"
  let ?b = "send_buffer ?s"
  let ?P = "set_points (pending_retransmissions ?b)"
  have ok: "send_buffer_ok d (stream_bytes_written ?b) ?b" using inv by (simp add: send_inv_def Let_def)
  have simps: "WritePendingRetransmission H w = 
     (if \<not> Stream_HasPendingRetransmission ?s then Some w
      else if \<not> HasPendingRetransmission ?b
      then let ((bytes, fin_consumed), w1) = host_WritevData H 0 (stream_bytes_written ?b) FIN w;
               w2 = upd_stream (\<lambda>s. s\<lparr>fin_lost := \<not> fin_consumed\<rparr>) w1
           in if \<not> fin_consumed then Some w2 else WritePendingRetransmission H w2
      else let (off, n) = NextPendingRetransmission ?b;
               can_bundle_fin = (fin_lost ?s \<and> u64_add off n = stream_bytes_written ?b);
               ((bytes, fin_consumed), w1) = host_WritevData H n off (if can_bundle_fin then FIN else NO_FIN) w
           in Option.bind (OnStreamFrameRetransmitted off bytes fin_consumed w1) (\<lambda>w2.
                if bytes < n \<or> can_bundle_fin \<and> \<not> fin_consumed then Some w2
                else WritePendingRetransmission H w2))"
    by (rule WritePendingRetransmission.simps)
  consider (none) "\<not> Stream_HasPendingRetransmission ?s" | (fin) "\<not> HasPendingRetransmission ?b" "fin_lost ?s"
    | (data) "HasPendingRetransmission ?b" by (auto simp: Stream_HasPendingRetransmission_def)
  then show ?case
  proof cases
    case none
    then show ?thesis unfolding simps using inv by simp
  next
    case fin
    obtain n fc w1 where r: "host_WritevData H 0 (stream_bytes_written ?b) FIN w = ((n, fc), w1)" by (metis prod.exhaust)
    have rng: "stream_bytes_written ?b + 0 \<le> stream_bytes_written ?b"
      "{stream_bytes_written ?b ..< stream_bytes_written ?b + 0} \<inter> set_points (bytes_acked ?b) = {}" by simp_all
    note re = resend [OF H inv rng r]
    let ?w2 = "upd_stream (\<lambda>s. s\<lparr>fin_lost := \<not> fc\<rparr>) w1"
    have fo: "fin_outstanding ?s" using inv fin by (simp add: send_inv_def Let_def)
    have inv2: "send_inv d ?w2" using re(1,6) fo by (intro send_inv_fin_lost) simp_all
    have "pending_work ?w2 < pending_work w" if fc
      using that fin(2) re(4) by (simp add: pending_work_def same_progress_def upd_stream_def)
    note IH = less.hyps [OF this inv2]
    have all: fc if "takes_everything H"
      using that r by (metis takes_everything_def StreamSendingState.distinct(1) fst_conv snd_conv)
    have "WritePendingRetransmission H w = (if \<not> fc then Some ?w2 else WritePendingRetransmission H ?w2)"
      unfolding simps using fin r by (simp add: Stream_HasPendingRetransmission_def Let_def)
    then show ?thesis using IH inv2 all by auto
  next
    case data
    obtain off n where nx: "NextPendingRetransmission ?b = (off, n)" by fastforce
    have n: "0 < n" "off + n \<le> stream_bytes_written ?b" "{off ..< off + n} \<subseteq> ?P"
      "{off ..< off + n} \<inter> set_points (bytes_acked ?b) = {}"
      using NextPendingRetransmission_correct [OF ok data] nx by simp_all
    let ?can = "fin_lost ?s \<and> u64_add off n = stream_bytes_written ?b"
    obtain k fc w1 where r: "host_WritevData H n off (if ?can then FIN else NO_FIN) w = ((k, fc), w1)" by (metis prod.exhaust)
    obtain w2 where w2: "OnStreamFrameRetransmitted off k fc w1 = Some w2" "send_inv d w2"
      "set_points (pending_retransmissions (send_buffer (the_stream w2))) = ?P - {off ..< off + k}"
      "fin_lost (the_stream w2) = (fin_lost ?s \<and> \<not> fc)"
      using resend_step [OF H inv n(2,4) r] by blast
    have k: "k \<le> n" using resend(2) [OF H inv n(2,4) r] .
    have "pending_work w2 < pending_work w" if "\<not> (k < n \<or> ?can \<and> \<not> fc)"
    proof -
      have "k = n" using that k by simp
      then have "off \<in> ?P" "off \<in> {off ..< off + k}" using n(1,3) by auto
      then have "?P - {off ..< off + k} \<subset> ?P" by blast
      then have "card (?P - {off ..< off + k}) < card ?P" by (rule psubset_card_mono [OF pending_finite [OF inv]])
      then show ?thesis unfolding pending_work_def w2(3,4) by simp
    qed
    note IH = less.hyps [OF this w2(2)]
    have all: "\<not> (k < n \<or> ?can \<and> \<not> fc)" if "takes_everything H"
    proof -
      have "fst (host_WritevData H n off (if ?can then FIN else NO_FIN) w) = (n, (if ?can then FIN else NO_FIN) \<noteq> NO_FIN)"
        using that unfolding takes_everything_def by blast
      then show ?thesis unfolding r by (simp split: if_splits)
    qed
    have "WritePendingRetransmission H w = (if k < n \<or> ?can \<and> \<not> fc then Some w2 else WritePendingRetransmission H w2)"
      unfolding simps nx case_prod_conv Let_def r w2(1) bind.bind_lunit
      by (simp only: data Stream_HasPendingRetransmission_def simp_thms if_True if_False)
    then show ?thesis using IH w2(2) all by (cases "k < n \<or> ?can \<and> \<not> fc") (simp_all only: if_True if_False, blast+)
  qed
qed

section \<open>Retransmitting on demand\<close>

lemma Stream_Reset_quiet: "host_contract H \<Longrightarrow> quiet w (Stream_Reset H e w)"
  unfolding Stream_Reset_def Let_def
  by (rule quiet_trans [OF quiet_trans [OF quiet_updates(2) host_quiet] quiet_updates(1)])

lemma Retransmit_loop_ends:
  assumes H: "host_contract H"
  shows "send_inv d w \<Longrightarrow>
    (\<And>i. i \<in> set is \<Longrightarrow> imin i \<le> imax i \<and> imax i \<le> stream_bytes_written (send_buffer (the_stream w))
        \<and> {imin i ..< imax i} \<inter> set_points (bytes_acked (send_buffer (the_stream w))) = {}) \<Longrightarrow>
    \<exists>sent fin_left w'. Retransmit_loop H fin is w = Some (sent, fin_left, w') \<and> send_inv d w'"
proof (induction "is" arbitrary: w fin)
  case (Cons i "is")
  note inv = Cons.prems(1)
  let ?b = "send_buffer (the_stream w)"
  let ?n = "imax i - imin i"
  have i: "imin i \<le> imax i" "imax i \<le> stream_bytes_written ?b" "{imin i ..< imin i + ?n} \<inter> set_points (bytes_acked ?b) = {}"
    using Cons.prems(2) [of i] by auto
  have rng: "imin i + ?n \<le> stream_bytes_written ?b" using i by simp
  have n: "u64_sub (imax i) (imin i) = ?n"
    using inv i by (intro u64_sub_small) (auto simp: send_inv_def send_buffer_ok_def Let_def)
  define can where "can \<longleftrightarrow> fin \<and> u64_add (imin i) ?n = stream_bytes_written ?b"
  obtain k fc w1 where r: "host_WritevData H ?n (imin i) (if can then FIN else NO_FIN) w = ((k, fc), w1)"
    by (metis prod.exhaust)
  obtain w2 where w2: "OnStreamFrameRetransmitted (imin i) k fc w1 = Some w2" "send_inv d w2"
    "bytes_acked (send_buffer (the_stream w2)) = bytes_acked ?b" "stream_bytes_written (send_buffer (the_stream w2)) = stream_bytes_written ?b"
    using resend_step [OF H inv rng i(3) r] by blast
  define fin' where "fin' = (if can then \<not> fc else fin)"
  have IH: "\<exists>sent fin_left w'. Retransmit_loop H fin' is w2 = Some (sent, fin_left, w') \<and> send_inv d w'"
    using Cons.prems(2) by (intro Cons.IH w2(2)) (simp add: w2(3,4))
  have "Retransmit_loop H fin (i # is) w =
      (if k < ?n \<or> can \<and> \<not> fc then Some (False, fin', w2) else Retransmit_loop H fin' is w2)"
    unfolding Retransmit_loop.simps(2) Let_def n can_def [symmetric] r case_prod_conv w2(1) bind.bind_lunit fin'_def
    by (rule refl)
  then show ?case using w2(2) IH by (cases "k < ?n \<or> can \<and> \<not> fc") auto
qed auto

lemma RetransmitStreamData_ends:
  assumes H: "host_contract H" and inv: "send_inv d w"
    and le: "off + n \<le> stream_bytes_written (send_buffer (the_stream w))"
  shows "\<exists>r w'. RetransmitStreamData H off n fin w = Some (r, w') \<and> send_inv d w'"
proof (cases "HasDeadlinePassed H w")
  case True
  then show ?thesis
    using quiet_inv [OF Stream_Reset_quiet [OF H] inv] by (auto simp: RetransmitStreamData_def OnDeadlinePassed_def)
next
  case False
  let ?b = "send_buffer (the_stream w)" and ?r = "QuicInterval off (off + n)"
  have V: "Valid (bytes_acked ?b)" using inv by (simp add: send_inv_def send_buffer_ok_def Let_def)
  have one: "Valid (Set_Add [] ?r)" "set_points (Set_Add [] ?r) = {off ..< off + n}"
    using iset.inv_add [of "[]" ?r] iset.pts_add [of "[]" ?r] by (simp_all add: points_QuicInterval)
  obtain L where L: "Set_Difference_set (Set_Add [] ?r) (bytes_acked ?b) = Some L" "Valid L"
    "set_points L = {off ..< off + n} - set_points (bytes_acked ?b)"
    using Set_Difference_set_correct [OF one(1) V] unfolding one(2) by blast
  have L_ok: "imin i \<le> imax i \<and> imax i \<le> stream_bytes_written ?b \<and> {imin i ..< imax i} \<inter> set_points (bytes_acked ?b) = {}"
    if "i \<in> set L" for i
  proof -
    have "set_points L \<subseteq> {0 ..< stream_bytes_written ?b}" using le unfolding L(3) by auto
    moreover have "{imin i ..< imax i} \<subseteq> set_points L" using that by (auto simp: set_points_def points_def)
    ultimately show ?thesis using Valid_bounded [OF L(2) _ that] Valid_nonempty [OF L(2) that] L(3) by auto
  qed
  let ?fin = "fin \<and> fin_outstanding (the_stream w)"
  obtain sent fin_left w1 where w1: "Retransmit_loop H ?fin L w = Some (sent, fin_left, w1)" "send_inv d w1"
    using Retransmit_loop_ends [OF H inv L_ok, of L ?fin] by blast
  let ?W = "stream_bytes_written (send_buffer (the_stream w1))"
  obtain k fc w2 where r: "host_WritevData H 0 ?W FIN w1 = ((k, fc), w2)" by (metis prod.exhaust)
  have inv2: "send_inv d w2" by (rule resend(1) [OF H w1(2) _ _ r]) simp_all
  have "RetransmitStreamData H off n fin w =
     (if L = [] \<and> \<not> ?fin then Some (True, w)
      else if \<not> sent then Some (False, w1) else if fin_left then Some (fc, w2) else Some (True, w1))"
    unfolding RetransmitStreamData_def u64_add_within [OF inv le] L(1) bind.bind_lunit Let_def if_not_P [OF False]
      w1(1) case_prod_conv r by (rule refl)
  then show ?thesis using inv w1(2) inv2 by auto
qed

lemma Stream_OnCanWrite_ends:
  assumes H: "host_contract H" and inv: "send_inv d w"
  shows "\<exists>w'. Stream_OnCanWrite H w = Some w' \<and> send_inv d w'"
proof (cases "HasDeadlinePassed H w \<or> Stream_HasPendingRetransmission (the_stream w) \<or> write_side_closed (the_stream w)")
  case True
  then show ?thesis
    using inv WritePendingRetransmission_ends [OF H inv] quiet_inv [OF Stream_Reset_quiet [OF H] inv]
    by (auto simp: Stream_OnCanWrite_def OnDeadlinePassed_def)
next
  case False
  define w1 where "w1 = (if Stream_HasBufferedData (the_stream w) \<or> fin_buffered (the_stream w) \<and> \<not> fin_sent (the_stream w)
    then WriteBufferedData H w else w)"
  have "\<not> fin_sent (the_stream w)" using open_no_fin [OF inv] False by simp
  then have inv1: "send_inv d w1" using inv WriteBufferedData_inv [OF H inv] by (simp add: w1_def)
  have "Stream_OnCanWrite H w = Some (if \<not> fin_buffered (the_stream w1) \<and> \<not> fin_sent (the_stream w1)
      \<and> CanWriteNewData (the_stream w1) then host_call H OnCanWriteNewData_call w1 else w1)"
    unfolding Stream_OnCanWrite_def Let_def w1_def [symmetric] using False by simp
  then show ?thesis using inv1 quiet_inv [OF host_quiet [OF H] inv1] by simp
qed

section \<open>The receiving half leaves the sending half alone\<close>

definition same_sending :: "QuicFlowController \<Rightarrow> QuicFlowController \<Rightarrow> bool" where
  "same_sending fc fc' \<longleftrightarrow> bytes_sent fc' = bytes_sent fc \<and> send_window_offset fc' = send_window_offset fc
     \<and> last_blocked_send_window_offset fc' = last_blocked_send_window_offset fc"

lemma same_sending_trans: "same_sending a b \<Longrightarrow> same_sending b c \<Longrightarrow> same_sending a c"
  by (simp add: same_sending_def)

lemma IncreaseWindowSize_sending: "same_sending fc (IncreaseWindowSize fc)"
  by (simp add: same_sending_def IncreaseWindowSize_def Let_def)

lemma UpdateReceiveWindow_sending:
  "UpdateReceiveWindowOffsetAndSendWindowUpdate env fc n = (fc', acts) \<Longrightarrow> same_sending fc fc'"
  by (auto simp: same_sending_def UpdateReceiveWindowOffsetAndSendWindowUpdate_def Let_def)

lemma EnsureWindowAtLeast_sending: "EnsureWindowAtLeast env fc n = (fc', acts) \<Longrightarrow> same_sending fc fc'"
  using same_sending_trans [OF IncreaseWindowSize_sending UpdateReceiveWindow_sending]
  by (auto simp: EnsureWindowAtLeast_def Let_def same_sending_def split: if_splits)

lemma MaybeIncreaseMaxWindowSize_sending:
  assumes "MaybeIncreaseMaxWindowSize env fc s = (fc', s', acts)"
  shows "same_sending fc fc' \<and> rel_option same_sending s s'"
proof -
  have a: "same_sending fc (fc\<lparr>prev_window_update_time := t\<rparr>)" for t by (simp add: same_sending_def)
  have r: "rel_option same_sending s s" by (cases s) (simp_all add: same_sending_def)
  show ?thesis
    using assms a r same_sending_trans [OF a IncreaseWindowSize_sending] EnsureWindowAtLeast_sending
    unfolding MaybeIncreaseMaxWindowSize_def Let_def by (auto split: if_splits option.splits prod.splits)
qed

lemma AddBytesConsumed_sending:
  assumes "AddBytesConsumed env fc s n = (fc', s', acts)"
  shows "same_sending fc fc'" "rel_option same_sending s s'"
proof -
  let ?fc = "fc\<lparr>bytes_consumed := u64_add (bytes_consumed fc) n\<rparr>"
  let ?fc1 = "if prev_window_update_time ?fc = 0 then ?fc\<lparr>prev_window_update_time := env_now env\<rparr> else ?fc"
  let ?avail = "u64_sub (receive_window_offset ?fc) (bytes_consumed ?fc)"
  have a: "same_sending fc ?fc1" by (simp add: same_sending_def)
  have r: "rel_option same_sending s s" by (cases s) (simp_all add: same_sending_def)
  obtain fc2 s2 acts2 where i: "MaybeIncreaseMaxWindowSize env ?fc1 s = (fc2, s2, acts2)" by (metis prod_cases3)
  obtain fc3 acts3 where u: "UpdateReceiveWindowOffsetAndSendWindowUpdate env fc2 ?avail = (fc3, acts3)" by fastforce
  have "AddBytesConsumed env fc s n = (if ?avail \<ge> WindowUpdateThreshold ?fc then (?fc1, s, []) else (fc3, s2, acts2 @ acts3))"
    unfolding AddBytesConsumed_def MaybeSendWindowUpdate_def Let_def i u case_prod_conv by (rule refl)
  moreover have "same_sending fc fc3" "rel_option same_sending s s2"
    using same_sending_trans [OF a] same_sending_trans UpdateReceiveWindow_sending [OF u] MaybeIncreaseMaxWindowSize_sending [OF i] by blast+
  ultimately show "same_sending fc fc'" "rel_option same_sending s s'" using assms a r by (auto split: if_splits)
qed

lemma quiet_same_sending:
  assumes "same_sending (st_flow_controller (the_stream w)) fc" "same_sending (connection_fc w) conn"
  shows "quiet w ((upd_stream (\<lambda>s. s\<lparr>st_flow_controller := fc\<rparr>) w)\<lparr>connection_fc := conn\<rparr>)"
  using assms by (simp add: quiet_def same_sending_def fc_send_ok_def upd_stream_def Let_def)

lemma quiet_same_connection: "same_sending (connection_fc w) conn \<Longrightarrow> quiet w (w\<lparr>connection_fc := conn\<rparr>)"
  by (simp add: quiet_def same_sending_def fc_send_ok_def Let_def)

lemma fc_calls_quiet: "host_contract H \<Longrightarrow> quiet w (fc_calls H acts w)"
proof (induction acts arbitrary: w)
  case (Cons a acts)
  then show ?case using quiet_trans [OF host_quiet [OF Cons.prems, of w "Flow_control_call a"]] by (simp add: fc_calls_def)
qed (simp add: fc_calls_def quiet_refl)

lemma Stream_AddBytesConsumed_quiet:
  assumes H: "host_contract H"
  shows "quiet w (Stream_AddBytesConsumed H n w)"
proof -
  obtain fc s acts where a: "AddBytesConsumed (host_fc_env H w) (st_flow_controller (the_stream w)) (Some (connection_fc w)) n = (fc, s, acts)"
    by (metis prod_cases3)
  obtain conn where s: "s = Some conn" "same_sending (connection_fc w) conn"
    using AddBytesConsumed_sending(2) [OF a] by (cases s) auto
  define w1 where "w1 = (if \<not> read_side_closed (the_stream w)
    then fc_calls H acts ((upd_stream (\<lambda>s. s\<lparr>st_flow_controller := fc\<rparr>) w)\<lparr>connection_fc := the s\<rparr>) else w)"
  have q1: "quiet w w1"
    using quiet_trans [OF quiet_same_sending [OF AddBytesConsumed_sending(1) [OF a] s(2)] fc_calls_quiet [OF H]]
    by (simp add: w1_def s(1) quiet_refl)
  obtain conn1 s1 acts1 where c: "AddBytesConsumed (host_fc_env H w1) (connection_fc w1) None n = (conn1, s1, acts1)" by (metis prod_cases3)
  have q2: "quiet w (fc_calls H acts1 (w1\<lparr>connection_fc := conn1\<rparr>))"
    by (rule quiet_trans [OF quiet_trans [OF q1 quiet_same_connection [OF AddBytesConsumed_sending(1) [OF c]]] fc_calls_quiet [OF H]])
  have "Stream_AddBytesConsumed H n w = (if stream_type (the_stream w) = CRYPTO then w
     else if stream_contributes_to_connection_flow_control (the_stream w1) then fc_calls H acts1 (w1\<lparr>connection_fc := conn1\<rparr>) else w1)"
    unfolding Stream_AddBytesConsumed_def Let_def a case_prod_conv w1_def [symmetric] c by (rule refl)
  then show ?thesis using q1 q2 by (simp add: quiet_refl)
qed

lemma MaybeIncreaseHighestReceivedOffset_quiet: "quiet w (snd (MaybeIncreaseHighestReceivedOffset n w))"
  by (auto simp: MaybeIncreaseHighestReceivedOffset_def UpdateHighestReceivedOffset_def quiet_def fc_send_ok_def
      upd_stream_def Let_def)

lemma OnStreamReset_quiet:
  assumes H: "host_contract H"
  shows "quiet w (OnStreamReset H frame w)"
proof -
  let ?off = "unat (rst_byte_offset frame)"
  let ?w1 = "upd_stream (\<lambda>s. s\<lparr>rst_received := True\<rparr>) w"
  let ?w2 = "snd (MaybeIncreaseHighestReceivedOffset ?off ?w1)"
  let ?w3 = "upd_stream (\<lambda>s. s\<lparr>stream_error := rst_error_code frame\<rparr>) ?w2"
  let ?w4 = "if \<not> VersionHasIetfQuicFrames (host_transport_version H) then CloseWriteSide H ?w3 else ?w3"
  have q1: "quiet w ?w1" by (simp add: quiet_def upd_stream_def)
  have q2: "quiet w ?w2" by (rule quiet_trans [OF q1 MaybeIncreaseHighestReceivedOffset_quiet])
  have q3: "quiet w ?w3" by (rule quiet_trans [OF q2 quiet_updates(2)])
  have q4: "quiet w ?w4" using q3 quiet_trans [OF q3 CloseWriteSide_quiet(1) [OF H]] by simp
  have close: "quiet w x \<Longrightarrow> quiet w (Stream_CloseConnectionWithDetails H e x)" for x e
    unfolding Stream_CloseConnectionWithDetails_def using quiet_trans host_quiet [OF H] by blast
  show ?thesis
    unfolding OnStreamReset_def Let_def
    using close [OF q1] close [OF q2] quiet_trans [OF q4 CloseReadSide_quiet [OF H]] by simp
qed

lemma OnConnectionClosed_quiet:
  assumes H: "host_contract H"
  shows "quiet w (OnConnectionClosed H e w)"
proof -
  let ?w1 = "if e \<noteq> QUIC_NO_ERROR
    then upd_stream (\<lambda>s. s\<lparr>stream_error := QUIC_STREAM_CONNECTION_ERROR, connection_error := e\<rparr>) w else w"
  have "quiet w ?w1" by (simp add: quiet_def upd_stream_def)
  from quiet_trans [OF quiet_trans [OF this CloseWriteSide_quiet(1) [OF H]] CloseReadSide_quiet [OF H]] show ?thesis
    unfolding OnConnectionClosed_def Let_def by (simp add: quiet_refl)
qed

lemma OnClose_quiet:
  assumes H: "host_contract H"
  shows "quiet w (OnClose H w)"
proof -
  let ?w1 = "CloseWriteSide H (CloseReadSide H w)"
  let ?c = "SendRstStream_call QUIC_RST_ACKNOWLEDGEMENT (stream_bytes_written (send_buffer (the_stream ?w1)))"
  have q1: "quiet w ?w1" by (rule quiet_trans [OF CloseReadSide_quiet [OF H] CloseWriteSide_quiet(1) [OF H]])
  have "quiet w (host_call H OnStreamDoneWaitingForAcks_call (host_call H ?c ?w1))"
    by (rule quiet_trans [OF quiet_trans [OF q1 host_quiet [OF H]] host_quiet [OF H]])
  from quiet_trans [OF this quiet_updates(1)]
  have "quiet w (upd_stream (\<lambda>s. s\<lparr>rst_sent := True\<rparr>) (host_call H OnStreamDoneWaitingForAcks_call (host_call H ?c ?w1)))" .
  moreover define w2 where "w2 = (if \<not> fin_sent (the_stream ?w1) \<and> \<not> rst_sent (the_stream ?w1)
    then upd_stream (\<lambda>s. s\<lparr>rst_sent := True\<rparr>) (host_call H OnStreamDoneWaitingForAcks_call (host_call H ?c ?w1)) else ?w1)"
  ultimately have q2: "quiet w w2" using q1 by simp
  show ?thesis
    unfolding OnClose_def Let_def w2_def [symmetric] using q2 quiet_trans [OF q2 Stream_AddBytesConsumed_quiet [OF H]] by simp
qed

lemma OnWindowUpdateFrame_inv:
  assumes H: "host_contract H" and inv: "send_inv d w"
  shows "send_inv d (OnWindowUpdateFrame H frame w)"
proof -
  let ?new = "unat (wu_byte_offset frame)"
  obtain u fc where u: "UpdateSendWindowOffset (st_flow_controller (the_stream w)) ?new = (u, fc)" by fastforce
  have lt: "?new < 2 ^ 64" using unsigned_less [of "wu_byte_offset frame"] by simp
  have fc: "bytes_sent fc = bytes_sent (st_flow_controller (the_stream w))" "fc_send_ok fc"
    using u lt inv by (auto simp: UpdateSendWindowOffset_def send_inv_def fc_send_ok_def Let_def split: if_splits)
  have inv1: "send_inv d (upd_stream (\<lambda>s. s\<lparr>st_flow_controller := fc\<rparr>) w)"
    using inv fc by (simp add: send_inv_def upd_stream_def Let_def)
  show ?thesis
    using inv1 quiet_inv [OF host_quiet [OF H] inv1] quiet_inv [OF host_quiet [OF H] inv]
    unfolding OnWindowUpdateFrame_def Stream_UpdateSendWindowOffset_def u Let_def Stream_CloseConnectionWithDetails_def
    by simp
qed

end
