(* ===== verification/Quic_Stream_Runs.thy ===== *)
theory Quic_Stream_Runs
  imports Quic_Stream_Sending
begin

text \<open>
  Runs of a stream: every sequence of writes, window updates, acknowledgements, losses, retransmissions and closings
  from the constructor on keeps the invariant of the sending half, and every operation returns.
\<close>

section \<open>Runs\<close>

text \<open>
  The life of a stream as seen by its sending half, with the data the application has handed over: it is constructed;
  the application writes; the session lets it write, grants window, reports acknowledgements, losses and data to
  retransmit, of data the stream has written and of a FIN it has sent; the peer resets it; the connection closes;
  other streams use the connection's window, and whatever else happens leaves the sending half alone.
\<close>

inductive stream_run :: "'x StreamHost \<Rightarrow> byte list \<Rightarrow> 'x stream_world \<Rightarrow> bool" for H where
  start: "fc_send_ok fc \<Longrightarrow> bytes_sent fc = 0 \<Longrightarrow> fc_send_ok conn \<Longrightarrow>
    stream_run H [] (construct_stream H i q static ty bytes_read fin_rec fc incoming threshold conn x)"
| data: "stream_run H d w \<Longrightarrow> WriteOrBufferData H data fin w = Some w' \<Longrightarrow>
    stream_run H (if takes_data d (length data) w then d @ data else d) w'"
| iov: "stream_run H d w \<Longrightarrow> Stream_WritevData H iov fin w = Some ((n, fc), w') \<Longrightarrow>
    stream_run H (if n > 0 then d @ concat iov else d) w'"
| slices: "stream_run H d w \<Longrightarrow> length d + length (concat span) \<le> kMaxStreamLength \<Longrightarrow>
    WriteMemSlices H span fin w = ((n, fc), w') \<Longrightarrow> stream_run H (if n > 0 then d @ concat span else d) w'"
| can_send: "stream_run H d w \<Longrightarrow> Stream_OnCanWrite H w = Some w' \<Longrightarrow> stream_run H d w'"
| window: "stream_run H d w \<Longrightarrow> stream_run H d (OnWindowUpdateFrame H wu w)"
| acked: "stream_run H d w \<Longrightarrow> off + n \<le> stream_bytes_written (send_buffer (the_stream w)) \<Longrightarrow>
    fin \<longrightarrow> fin_sent (the_stream w) \<Longrightarrow> OnStreamFrameAcked H off n fin w = Some (r, k, w') \<Longrightarrow> stream_run H d w'"
| lost: "stream_run H d w \<Longrightarrow> off + n \<le> stream_bytes_written (send_buffer (the_stream w)) \<Longrightarrow>
    OnStreamFrameLost off n fin w = Some w' \<Longrightarrow> stream_run H d w'"
| retransmit: "stream_run H d w \<Longrightarrow> off + n \<le> stream_bytes_written (send_buffer (the_stream w)) \<Longrightarrow>
    RetransmitStreamData H off n fin w = Some (r, w') \<Longrightarrow> stream_run H d w'"
| reset: "stream_run H d w \<Longrightarrow> stream_run H d (Stream_Reset H e w)"
| peer_reset: "stream_run H d w \<Longrightarrow> stream_run H d (OnStreamReset H rst w)"
| connection_closed: "stream_run H d w \<Longrightarrow> stream_run H d (OnConnectionClosed H e w)"
| closed: "stream_run H d w \<Longrightarrow> stream_run H d (OnClose H w)"
| connection: "stream_run H d w \<Longrightarrow> fc_send_ok conn \<Longrightarrow> stream_run H d (w\<lparr>connection_fc := conn\<rparr>)"
| elsewhere: "stream_run H d w \<Longrightarrow> quiet w w' \<Longrightarrow> stream_run H d w'"

lemma construct_stream_inv:
  assumes H: "host_contract H" and fc: "fc_send_ok fc" "bytes_sent fc = 0" "fc_send_ok conn"
  shows "send_inv [] (construct_stream H i q static ty bytes_read fin_rec fc incoming threshold conn x)"
proof -
  define ty' where "ty' = (if VersionHasIetfQuicFrames (host_transport_version H) \<and> ty \<noteq> CRYPTO
    then GetStreamType i (host_perspective H) incoming else ty)"
  define w where "w = \<lparr>the_stream = \<lparr>st_sequencer = q, st_id = i, st_priority = 3, stream_bytes_read = bytes_read,
               stream_error = QUIC_STREAM_NO_ERROR, connection_error = QUIC_NO_ERROR, read_side_closed = False,
               write_side_closed = False, fin_buffered = False, fin_sent = False, fin_outstanding = False,
               fin_lost = False, fin_received = fin_rec, rst_sent = False, rst_received = False,
               st_flow_controller = fc, stream_contributes_to_connection_flow_control = True, busy_counter = 0,
               add_random_padding_after_fin = False, send_buffer = new_QuicStreamSendBuffer,
               buffered_data_threshold = threshold, is_static = static, deadline = 0, stream_type = ty'\<rparr>,
             connection_fc = conn, host_state = x\<rparr>"
  have b: "stream_bytes_written new_QuicStreamSendBuffer = 0" "stream_offset new_QuicStreamSendBuffer = 0"
    by (simp_all add: new_QuicStreamSendBuffer_def)
  have inv: "send_inv [] w" using fc new_send_buffer_ok by (simp add: send_inv_def w_def b)
  have "send_inv [] (mark_closed (upd_stream (\<lambda>s. s\<lparr>fin_sent := True\<rparr>) w))"
    using fc new_send_buffer_ok by (simp add: send_inv_def w_def b mark_closed_def upd_stream_def)
  then have "send_inv [] (mark_closed (CloseWriteSide H (upd_stream (\<lambda>s. s\<lparr>fin_sent := True\<rparr>) w)))"
    using quiet_inv mark_closed_quiet [OF CloseWriteSide_quiet(1) [OF H]] by blast
  then have ro: "send_inv [] (CloseWriteSide H (upd_stream (\<lambda>s. s\<lparr>fin_sent := True\<rparr>) w))"
    using CloseWriteSide_quiet(2) [OF H] by (simp add: mark_closed_same)
  have wo: "send_inv [] (CloseReadSide H (upd_stream (\<lambda>s. s\<lparr>fin_received := True\<rparr>) w))"
    by (rule quiet_inv [OF quiet_trans [OF quiet_updates(3) CloseReadSide_quiet [OF H]] inv])
  define w1 where "w1 = (if ty' = WRITE_UNIDIRECTIONAL then CloseReadSide H (upd_stream (\<lambda>s. s\<lparr>fin_received := True\<rparr>) w)
      else if ty' = READ_UNIDIRECTIONAL then CloseWriteSide H (upd_stream (\<lambda>s. s\<lparr>fin_sent := True\<rparr>) w) else w)"
  have inv1: "send_inv [] w1" using inv ro wo by (simp add: w1_def)
  have "construct_stream H i q static ty bytes_read fin_rec fc incoming threshold conn x =
      (if ty' \<noteq> CRYPTO then host_call H (RegisterStreamPriority_call 3) w1 else w1)"
    unfolding construct_stream_def Let_def ty'_def [symmetric] w_def [symmetric] w1_def [symmetric] by (rule refl)
  then show ?thesis using inv1 quiet_inv [OF host_quiet [OF H] inv1] by simp
qed

lemma stream_run_inv:
  assumes H: "host_contract H"
  shows "stream_run H d w \<Longrightarrow> send_inv d w"
proof (induction rule: stream_run.induct)
  case start
  then show ?case by (rule construct_stream_inv [OF H])
next
  case (data d w data fin w')
  then show ?case using WriteOrBufferData_inv [OF H data.IH, of data fin] by simp
next
  case (iov d w iov fin n fc w')
  then show ?case using Stream_WritevData_inv [OF H iov.IH, of iov fin] by auto
next
  case (slices d w span fin n fc w')
  then show ?case using WriteMemSlices_inv [OF H slices.IH slices.hyps(2), of fin] by auto
next
  case (acked d w off n fin r k w')
  then show ?case using OnStreamFrameAcked_inv [OF H acked.IH acked.hyps(2,3)] by auto
next
  case (lost d w off n fin w')
  then show ?case using OnStreamFrameLost_inv [OF lost.IH lost.hyps(2), of fin] by auto
next
  case (retransmit d w off n fin r w')
  then show ?case using RetransmitStreamData_ends [OF H retransmit.IH retransmit.hyps(2), of fin] by auto
next
  case (can_send d w w')
  then show ?case using Stream_OnCanWrite_ends [OF H can_send.IH] by simp
next
  case (connection d w conn)
  then show ?case by (simp add: send_inv_def Let_def)
qed (auto intro: OnWindowUpdateFrame_inv [OF H] quiet_inv [OF Stream_Reset_quiet [OF H]] quiet_inv [OF OnStreamReset_quiet [OF H]]
    quiet_inv [OF OnConnectionClosed_quiet [OF H]] quiet_inv [OF OnClose_quiet [OF H]] quiet_inv)

section \<open>Properties\<close>



section \<open>An example\<close>

text \<open>A session that takes all it is offered and reads it from the send buffer.\<close>

definition example_WritevData ::
    "nat \<Rightarrow> nat \<Rightarrow> StreamSendingState \<Rightarrow> unit stream_world \<Rightarrow> (nat \<times> bool) \<times> unit stream_world" where
  "example_WritevData len off state w =
     (if len = 0 then ((0, state \<noteq> NO_FIN), w)
      else case WriteStreamData (send_buffer (the_stream w)) off len (new_QuicDataWriter (replicate len 0) NETWORK_BYTE_ORDER) of
             (ok, b, u) \<Rightarrow> if ok then ((len, state \<noteq> NO_FIN), upd_stream (\<lambda>s. s\<lparr>send_buffer := b\<rparr>) w) else ((0, False), w))"

definition example_host :: "unit StreamHost" where
  "example_host = \<lparr>host_call = (\<lambda>c w. w), host_WritevData = example_WritevData, host_OnDataAvailable = Some,
     host_ShouldYield = (\<lambda>w. False), host_fc_env = (\<lambda>w. example_fc_env), host_transport_version = 46,
     host_perspective = IS_CLIENT, host_session_decides_what_to_write = True, host_max_data_slice_size = 4,
     host_SaveMemSlices = (\<lambda>span b. (length (concat span), fold (\<lambda>bs b. SaveMemSlice b bs) span b)),
     host_no_window_update_flag = True\<rparr>"

lemma WriteStreamData_only_index:
  "WriteStreamData b off n u = (ok, b', u') \<Longrightarrow> \<exists>i. b' = b\<lparr>write_index := i\<rparr>"
  unfolding WriteStreamData_def Let_def by (cases b) (auto split: if_splits prod.splits)

lemma example_host_contract: "host_contract example_host"
proof -
  have "writes_through len off state w (example_WritevData len off state w)" for len off state w
  proof (cases "len = 0")
    case True
    have "send_buffer_ok d (max W off) (send_buffer (the_stream w))"
      if "send_buffer_ok d W (send_buffer (the_stream w))" "off = W \<or> off \<le> W" for d W
      using that by (auto simp: max_def)
    then show ?thesis
      using True by (auto simp: example_WritevData_def writes_through_def same_progress_def upd_stream_def quiet_refl Let_def)
  next
    case False
    let ?u = "new_QuicDataWriter (replicate len 0) NETWORK_BYTE_ORDER" and ?b = "send_buffer (the_stream w)"
    have u: "writer_ok ?u" "len \<le> remaining ?u" by (simp_all add: new_QuicDataWriter_def writer_ok_def remaining_def)
    obtain ok b u' where r: "WriteStreamData ?b off len ?u = (ok, b, u')" by (metis prod_cases3)
    obtain i where b: "b = ?b\<lparr>write_index := i\<rparr>" using WriteStreamData_only_index [OF r] by blast
    have keep: "send_buffer_ok d (max W (off + len)) b"
      if "send_buffer_ok d W ?b" "off = W \<or> off + len \<le> W" "off + len \<le> length d" "{off ..< off + len} \<inter> set_points (bytes_acked ?b) = {}" for d W
      using WriteStreamData_correct [OF that(1-3) _ that(4) u] False r by auto
    have keep0: "send_buffer_ok d (max W off) ?b" if "send_buffer_ok d W ?b" "off = W \<or> off \<le> W" for d W
      using that by (auto simp: max_def)
    have "quiet w (upd_stream (\<lambda>s. s\<lparr>send_buffer := ?b\<rparr>) (upd_stream (\<lambda>s. s\<lparr>send_buffer := b\<rparr>) w))"
      "quiet w (upd_stream (\<lambda>s. s\<lparr>send_buffer := ?b\<rparr>) w)"
      by (simp_all add: upd_stream_def quiet_refl)
    moreover have "same_progress ?b b" "stream_offset b = stream_offset ?b" by (simp_all add: b same_progress_def)
    moreover have "send_buffer (the_stream (upd_stream (\<lambda>s. s\<lparr>send_buffer := b\<rparr>) w)) = b" by (simp add: upd_stream_def)
    moreover have "\<forall>d W. send_buffer_ok d W ?b \<longrightarrow> off = W \<or> off + len \<le> W \<longrightarrow> off + len \<le> length d \<longrightarrow>
        {off ..< off + len} \<inter> set_points (bytes_acked ?b) = {} \<longrightarrow> send_buffer_ok d (max W (off + len)) b"
      "\<forall>d W. send_buffer_ok d W ?b \<longrightarrow> off = W \<or> off \<le> W \<longrightarrow> off \<le> length d \<longrightarrow> send_buffer_ok d (max W off) ?b"
      using keep keep0 by blast+
    ultimately show ?thesis
      unfolding example_WritevData_def writes_through_def if_not_P [OF False] r case_prod_conv Let_def
      by (cases ok) (simp_all only: if_True if_False case_prod_conv, simp_all add: same_progress_def)
  qed
  then show ?thesis by (simp add: host_contract_def example_host_def quiet_refl)
qed


definition example_stream :: "unit stream_world" where
  "example_stream = construct_stream example_host 5 (new_QuicStreamSequencer False) False BIDIRECTIONAL 0 False
     (new_QuicFlowController 5 False 3 64 1000 True) False 100 (new_QuicFlowController 0 True 100 64 1000 True) ()"

lemmas example_evaluation = example_stream_def construct_stream_def example_host_def example_WritevData_def upd_stream_def
  new_QuicFlowController_def new_QuicStreamSendBuffer_def VersionHasIetfQuicFrames_def
  WriteOrBufferData_def save_data_def write_if_idle_def WriteBufferedData_def after_write_def MaybeSendBlocked_def
  ShouldSendBlocked_def Stream_AddBytesSent_def AddBytesSent_def fc_calls_def Stream_OnStreamDataConsumed_def
  OnStreamDataConsumed_def CloseWriteSide_def Stream_HasBufferedData_def BufferedDataBytes_def send_window_def SendWindowSize_def
  IsBlocked_def IsWaitingForAcks_def SaveMemSlice_def WriteStreamData_def new_QuicDataWriter_def 
  u64_add_def u64_sub_def kMaxStreamLength_def


definition example_window_update :: QuicWindowUpdateFrame where
  "example_window_update = \<lparr>wu_control_frame_id = 1, wu_stream_id = 5, wu_byte_offset = 10\<rparr>"

definition example_written_stream :: "unit stream_world" where
  "example_written_stream = the (WriteOrBufferData example_host [1, 2, 3, 4, 5] True example_stream)"

definition example_finished_stream :: "unit stream_world" where
  "example_finished_stream = the (Stream_OnCanWrite example_host (OnWindowUpdateFrame example_host example_window_update example_written_stream))"

lemma example_written_facts: "stream_bytes_written (send_buffer (the_stream example_written_stream)) = 3"
  "\<not> fin_sent (the_stream example_written_stream)"
  by (simp_all add: example_written_stream_def example_evaluation SaveStreamData.simps Let_def WriteBytes_def BeginWrite_def memcpy_def)

lemma example_finished_facts: 
  "fin_sent (the_stream example_finished_stream)"
  by (simp_all add: example_finished_stream_def example_written_stream_def example_window_update_def example_evaluation SaveStreamData.simps Let_def WriteBytes_def BeginWrite_def memcpy_def
   OnWindowUpdateFrame_def Stream_UpdateSendWindowOffset_def UpdateSendWindowOffset_def Stream_OnCanWrite_def HasDeadlinePassed_def
   Stream_HasPendingRetransmission_def HasPendingRetransmission_def CanWriteNewData_def Set_Empty_def)


lemma example_stream_run: "stream_run example_host [1, 2, 3, 4, 5] example_written_stream"
  "stream_run example_host [1, 2, 3, 4, 5] example_finished_stream"
proof -
  have r0: "stream_run example_host [] example_stream"
    unfolding example_stream_def by (rule stream_run.start) (simp_all add: fc_send_ok_def new_QuicFlowController_def)
  have taken: "takes_data [] (length [1, 2, 3, 4, 5::byte]) example_stream"
    by (simp add: takes_data_def example_stream_def construct_stream_def example_host_def VersionHasIetfQuicFrames_def kMaxStreamLength_def)
  have "WriteOrBufferData example_host [1, 2, 3, 4, 5] True example_stream = Some example_written_stream"
    using WriteOrBufferData_inv [OF example_host_contract stream_run_inv [OF example_host_contract r0], of "[1, 2, 3, 4, 5]" True]
    by (auto simp: example_written_stream_def)
  from stream_run.data [OF r0 this] taken show r1: "stream_run example_host [1, 2, 3, 4, 5] example_written_stream"
    by (simp only: if_True append_Nil)
  note r2 = stream_run.window [OF r1, of example_window_update]
  have "Stream_OnCanWrite example_host (OnWindowUpdateFrame example_host example_window_update example_written_stream) = Some example_finished_stream"
    using Stream_OnCanWrite_ends [OF example_host_contract stream_run_inv [OF example_host_contract r2]]
    by (auto simp: example_finished_stream_def)
  from stream_run.can_send [OF r2 this] show "stream_run example_host [1, 2, 3, 4, 5] example_finished_stream" .
qed



end
