(* ===== verification/Quic_Control_Frames.thy ===== *)
theory Quic_Control_Frames
  imports Quic_Frames Quic_Error_Codes "HOL-Library.Monad_Syntax"
begin

text \<open>
  The manager of control frames (src/quic/core/quic_control_frame_manager.cc and .h), which delivers them reliably: it
  numbers the frames, keeps them until they are acknowledged, sends them in the order of their numbers and lost ones
  again. The deque of frames is a list whose first element has the number \<open>least_unacked\<close>; an acknowledged frame has
  its number set to zero until it reaches the front. The linked hash map of lost frames is the list of its keys in their
  order of insertion. Numbers are 32-bit words; sums with the size of the deque are taken in 64 bits and do not wrap.

  The session is a parameter: whether it takes a frame, and how its state changes. An access of the deque out of range
  and a loop that does not end are \<open>None\<close>.
\<close>

section \<open>State\<close>

record QuicControlFrameManager =
  control_frames :: "QuicFrame list"
  last_control_frame_id :: u32
  least_unacked_id :: u32
  least_unsent_id :: u32
  pending_frames :: "u32 list"
  window_update_frames :: "u32 \<rightharpoonup> u32"

record 'x ControlFrameSession =
  WriteControlFrame :: "QuicFrame \<Rightarrow> 'x \<Rightarrow> bool \<times> 'x"
  SetTransmissionType_NOT_RETRANSMISSION :: "'x \<Rightarrow> 'x"
  cs_CloseConnection :: "QuicErrorCode \<Rightarrow> 'x \<Rightarrow> 'x"
  cs_session_decides_what_to_write :: bool

definition new_QuicControlFrameManager :: QuicControlFrameManager where
  "new_QuicControlFrameManager =
     \<lparr>control_frames = [], last_control_frame_id = kInvalidControlFrameId, least_unacked_id = 1, least_unsent_id = 1,
      pending_frames = [], window_update_frames = Map.empty\<rparr>"

definition control_frame_at :: "QuicControlFrameManager \<Rightarrow> u32 \<Rightarrow> QuicFrame option" where
  "control_frame_at m i =
     (let n = unat (i - least_unacked_id m)
      in if n < length (control_frames m) then Some (control_frames m ! n) else None)"

definition HasBufferedFrames :: "QuicControlFrameManager \<Rightarrow> bool" where
  "HasBufferedFrames m \<longleftrightarrow> unat (least_unsent_id m) < unat (least_unacked_id m) + length (control_frames m)"

definition Control_HasPendingRetransmission :: "QuicControlFrameManager \<Rightarrow> bool" where
  "Control_HasPendingRetransmission m \<longleftrightarrow> pending_frames m \<noteq> []"

definition WillingToWrite :: "QuicControlFrameManager \<Rightarrow> bool" where
  "WillingToWrite m \<longleftrightarrow> Control_HasPendingRetransmission m \<or> HasBufferedFrames m"

section \<open>Acknowledgements and losses\<close>

text \<open>The loop that removes acknowledged frames from the front.\<close>

fun pop_acked :: "QuicFrame list \<Rightarrow> u32 \<Rightarrow> QuicFrame list \<times> u32" where
  "pop_acked [] least = ([], least)"
| "pop_acked (f # fs) least =
     (if GetControlFrameId f = kInvalidControlFrameId then pop_acked fs (least + 1) else (f # fs, least))"

definition OnControlFrameIdAcked ::
    "'x ControlFrameSession \<Rightarrow> u32 \<Rightarrow> QuicControlFrameManager \<times> 'x \<Rightarrow> (bool \<times> QuicControlFrameManager \<times> 'x) option" where
  "OnControlFrameIdAcked H i = (\<lambda>(m, x).
     if i = kInvalidControlFrameId then Some (False, m, x)
     else if i \<ge> least_unsent_id m then Some (False, m, cs_CloseConnection H QUIC_INTERNAL_ERROR x)
     else if i < least_unacked_id m then Some (False, m, x)
     else do {
       f \<leftarrow> control_frame_at m i;
       if GetControlFrameId f = kInvalidControlFrameId then Some (False, m, x)
       else let fs = (control_frames m)[unat (i - least_unacked_id m) := SetControlFrameId kInvalidControlFrameId f];
                (fs', least) = pop_acked fs (least_unacked_id m)
            in Some (True, m\<lparr>control_frames := fs', least_unacked_id := least,
                              pending_frames := removeAll i (pending_frames m)\<rparr>, x)
     })"

definition OnControlFrameAcked ::
    "'x ControlFrameSession \<Rightarrow> QuicFrame \<Rightarrow> QuicControlFrameManager \<times> 'x \<Rightarrow> (bool \<times> QuicControlFrameManager \<times> 'x) option" where
  "OnControlFrameAcked H frame w = do {
     let i = GetControlFrameId frame;
     (acked, m, x) \<leftarrow> OnControlFrameIdAcked H i w;
     if \<not> acked then Some (False, m, x)
     else case frame of
            WINDOW_UPDATE_FRAME g \<Rightarrow>
              if window_update_frames m (wu_stream_id g) = Some i
              then Some (True, m\<lparr>window_update_frames := (window_update_frames m)(wu_stream_id g := None)\<rparr>, x)
              else Some (True, m, x)
          | _ \<Rightarrow> Some (True, m, x)
   }"

definition OnControlFrameLost ::
    "'x ControlFrameSession \<Rightarrow> QuicFrame \<Rightarrow> QuicControlFrameManager \<times> 'x \<Rightarrow> (QuicControlFrameManager \<times> 'x) option" where
  "OnControlFrameLost H frame = (\<lambda>(m, x).
     let i = GetControlFrameId frame
     in if i = kInvalidControlFrameId then Some (m, x)
        else if i \<ge> least_unsent_id m then Some (m, cs_CloseConnection H QUIC_INTERNAL_ERROR x)
        else if i < least_unacked_id m then Some (m, x)
        else do {
          f \<leftarrow> control_frame_at m i;
          if GetControlFrameId f = kInvalidControlFrameId then Some (m, x)
          else Some (if i \<in> set (pending_frames m) then m else m\<lparr>pending_frames := pending_frames m @ [i]\<rparr>, x)
        })"

definition IsControlFrameOutstanding :: "QuicControlFrameManager \<Rightarrow> QuicFrame \<Rightarrow> bool" where
  "IsControlFrameOutstanding m frame =
     (let i = GetControlFrameId frame
      in i \<noteq> kInvalidControlFrameId \<and> unat i < unat (least_unacked_id m) + length (control_frames m)
       \<and> i \<ge> least_unacked_id m
       \<and> (case control_frame_at m i of None \<Rightarrow> False | Some f \<Rightarrow> GetControlFrameId f \<noteq> kInvalidControlFrameId))"

section \<open>Sending\<close>

text \<open>An older window update of the same stream counts as acknowledged.\<close>

definition note_window_update ::
    "'x ControlFrameSession \<Rightarrow> QuicFrame \<Rightarrow> QuicControlFrameManager \<times> 'x \<Rightarrow> (QuicControlFrameManager \<times> 'x) option" where
  "note_window_update H frame = (\<lambda>(m, x).
     case frame of
       WINDOW_UPDATE_FRAME g \<Rightarrow> do {
         let i = GetControlFrameId frame;
         let s = wu_stream_id g;
         (m1, x1) \<leftarrow> (case window_update_frames m s of
                       Some old \<Rightarrow> if i > old
                                   then map_option snd (OnControlFrameIdAcked H old (m, x)) else Some (m, x)
                     | None \<Rightarrow> Some (m, x));
         Some (m1\<lparr>window_update_frames := (window_update_frames m1)(s \<mapsto> i)\<rparr>, x1)
       }
     | _ \<Rightarrow> Some (m, x))"

definition OnControlFrameSent ::
    "'x ControlFrameSession \<Rightarrow> QuicFrame \<Rightarrow> QuicControlFrameManager \<times> 'x \<Rightarrow> (QuicControlFrameManager \<times> 'x) option" where
  "OnControlFrameSent H frame w =
     (let i = GetControlFrameId frame
      in if i = kInvalidControlFrameId then Some w
         else do {
           (m, x) \<leftarrow> note_window_update H frame w;
           if i \<in> set (pending_frames m) then Some (m\<lparr>pending_frames := removeAll i (pending_frames m)\<rparr>, x)
           else if i > least_unsent_id m then Some (m, cs_CloseConnection H QUIC_INTERNAL_ERROR x)
           else Some (m\<lparr>least_unsent_id := least_unsent_id m + 1\<rparr>, x)
         })"

partial_function (option) WriteBufferedFrames ::
    "'x ControlFrameSession \<Rightarrow> QuicControlFrameManager \<times> 'x \<Rightarrow> (QuicControlFrameManager \<times> 'x) option" where
  "WriteBufferedFrames H w =
     (if \<not> HasBufferedFrames (fst w) then Some w
      else let x = (if cs_session_decides_what_to_write H then SetTransmissionType_NOT_RETRANSMISSION H (snd w) else snd w)
           in Option.bind (control_frame_at (fst w) (least_unsent_id (fst w))) (\<lambda>frame_to_send.
                case WriteControlFrame H (CopyRetransmittableControlFrame frame_to_send) x of (ok, x') \<Rightarrow>
                  if \<not> ok then Some (fst w, x')
                  else Option.bind (OnControlFrameSent H frame_to_send (fst w, x')) (\<lambda>w'. WriteBufferedFrames H w')))"

definition Control_NextPendingRetransmission :: "QuicControlFrameManager \<Rightarrow> QuicFrame option" where
  "Control_NextPendingRetransmission m =
     (case pending_frames m of [] \<Rightarrow> None | i # _ \<Rightarrow> control_frame_at m i)"

partial_function (option) Control_WritePendingRetransmission ::
    "'x ControlFrameSession \<Rightarrow> QuicControlFrameManager \<times> 'x \<Rightarrow> (QuicControlFrameManager \<times> 'x) option" where
  "Control_WritePendingRetransmission H w =
     (if \<not> Control_HasPendingRetransmission (fst w) then Some w
      else Option.bind (Control_NextPendingRetransmission (fst w)) (\<lambda>pending.
             case WriteControlFrame H (CopyRetransmittableControlFrame pending) (snd w) of (ok, x') \<Rightarrow>
               if \<not> ok then Some (fst w, x')
               else Option.bind (OnControlFrameSent H pending (fst w, x')) (\<lambda>w'. Control_WritePendingRetransmission H w')))"

definition Control_OnCanWrite ::
    "'x ControlFrameSession \<Rightarrow> QuicControlFrameManager \<times> 'x \<Rightarrow> (QuicControlFrameManager \<times> 'x) option" where
  "Control_OnCanWrite H w =
     (if Control_HasPendingRetransmission (fst w) then Control_WritePendingRetransmission H w else WriteBufferedFrames H w)"

definition RetransmitControlFrame ::
    "'x ControlFrameSession \<Rightarrow> QuicFrame \<Rightarrow> QuicControlFrameManager \<times> 'x \<Rightarrow> (bool \<times> QuicControlFrameManager \<times> 'x) option" where
  "RetransmitControlFrame H frame = (\<lambda>(m, x).
     let i = GetControlFrameId frame
     in if i = kInvalidControlFrameId then Some (True, m, x)
        else if i \<ge> least_unsent_id m then Some (False, m, cs_CloseConnection H QUIC_INTERNAL_ERROR x)
        else if i < least_unacked_id m then Some (True, m, x)
        else do {
          f \<leftarrow> control_frame_at m i;
          if GetControlFrameId f = kInvalidControlFrameId then Some (True, m, x)
          else case WriteControlFrame H (CopyRetransmittableControlFrame frame) x of (ok, x') \<Rightarrow> Some (ok, m, x')
        })"

section \<open>New frames\<close>

definition WriteOrBufferQuicFrame ::
    "'x ControlFrameSession \<Rightarrow> QuicFrame \<Rightarrow> QuicControlFrameManager \<times> 'x \<Rightarrow> (QuicControlFrameManager \<times> 'x) option" where
  "WriteOrBufferQuicFrame H frame = (\<lambda>(m, x).
     let had_buffered_frames = HasBufferedFrames m;
         m1 = m\<lparr>control_frames := control_frames m @ [frame]\<rparr>
     in if had_buffered_frames then Some (m1, x) else WriteBufferedFrames H (m1, x))"

text \<open>The frames are constructed with the next number, \<open>++last_control_frame_id_\<close>.\<close>

definition WriteOrBuffer_next ::
    "'x ControlFrameSession \<Rightarrow> (u32 \<Rightarrow> QuicFrame) \<Rightarrow> QuicControlFrameManager \<times> 'x \<Rightarrow> (QuicControlFrameManager \<times> 'x) option" where
  "WriteOrBuffer_next H mk = (\<lambda>(m, x).
     let i = last_control_frame_id m + 1
     in WriteOrBufferQuicFrame H (mk i) (m\<lparr>last_control_frame_id := i\<rparr>, x))"

definition WriteOrBufferRstStream ::
    "'x ControlFrameSession \<Rightarrow> u32 \<Rightarrow> QuicRstStreamErrorCode \<Rightarrow> u64 \<Rightarrow> QuicControlFrameManager \<times> 'x \<Rightarrow> (QuicControlFrameManager \<times> 'x) option" where
  "WriteOrBufferRstStream H stream_id error bytes_written =
     WriteOrBuffer_next H (\<lambda>i. RST_STREAM_FRAME \<lparr>rst_control_frame_id = i, rst_stream_id = stream_id,
       rst_error_code = error, rst_ietf_error_code = of_nat error, rst_byte_offset = bytes_written\<rparr>)"

definition WriteOrBufferGoAway ::
    "'x ControlFrameSession \<Rightarrow> nat \<Rightarrow> u32 \<Rightarrow> byte list \<Rightarrow> QuicControlFrameManager \<times> 'x \<Rightarrow> (QuicControlFrameManager \<times> 'x) option" where
  "WriteOrBufferGoAway H error last_good_stream_id reason =
     WriteOrBuffer_next H (\<lambda>i. GOAWAY_FRAME \<lparr>ga_control_frame_id = i, ga_error_code = error,
       ga_last_good_stream_id = last_good_stream_id, ga_reason_phrase = reason\<rparr>)"

definition WriteOrBufferWindowUpdate ::
    "'x ControlFrameSession \<Rightarrow> u32 \<Rightarrow> u64 \<Rightarrow> QuicControlFrameManager \<times> 'x \<Rightarrow> (QuicControlFrameManager \<times> 'x) option" where
  "WriteOrBufferWindowUpdate H stream_id byte_offset =
     WriteOrBuffer_next H (\<lambda>i. WINDOW_UPDATE_FRAME \<lparr>wu_control_frame_id = i, wu_stream_id = stream_id, wu_byte_offset = byte_offset\<rparr>)"

definition WriteOrBufferBlocked ::
    "'x ControlFrameSession \<Rightarrow> u32 \<Rightarrow> QuicControlFrameManager \<times> 'x \<Rightarrow> (QuicControlFrameManager \<times> 'x) option" where
  "WriteOrBufferBlocked H stream_id =
     WriteOrBuffer_next H (\<lambda>i. BLOCKED_FRAME \<lparr>bl_control_frame_id = i, bl_stream_id = stream_id, bl_offset = 0\<rparr>)"

definition WriteOrBufferStreamsBlocked ::
    "'x ControlFrameSession \<Rightarrow> u32 \<Rightarrow> bool \<Rightarrow> QuicControlFrameManager \<times> 'x \<Rightarrow> (QuicControlFrameManager \<times> 'x) option" where
  "WriteOrBufferStreamsBlocked H count unidirectional =
     WriteOrBuffer_next H (\<lambda>i. STREAMS_BLOCKED_FRAME \<lparr>sb_control_frame_id = i, sb_stream_count = count, sb_unidirectional = unidirectional\<rparr>)"

definition WriteOrBufferMaxStreams ::
    "'x ControlFrameSession \<Rightarrow> u32 \<Rightarrow> bool \<Rightarrow> QuicControlFrameManager \<times> 'x \<Rightarrow> (QuicControlFrameManager \<times> 'x) option" where
  "WriteOrBufferMaxStreams H count unidirectional =
     WriteOrBuffer_next H (\<lambda>i. MAX_STREAMS_FRAME \<lparr>ms_control_frame_id = i, ms_stream_count = count, ms_unidirectional = unidirectional\<rparr>)"

definition WriteOrBufferStopSending ::
    "'x ControlFrameSession \<Rightarrow> u16 \<Rightarrow> u32 \<Rightarrow> QuicControlFrameManager \<times> 'x \<Rightarrow> (QuicControlFrameManager \<times> 'x) option" where
  "WriteOrBufferStopSending H code stream_id =
     WriteOrBuffer_next H (\<lambda>i. STOP_SENDING_FRAME \<lparr>ss_control_frame_id = i, ss_stream_id = stream_id, ss_application_error_code = code\<rparr>)"

definition WritePing :: "'x ControlFrameSession \<Rightarrow> QuicControlFrameManager \<times> 'x \<Rightarrow> (QuicControlFrameManager \<times> 'x) option" where
  "WritePing H = (\<lambda>(m, x).
     if HasBufferedFrames m then Some (m, x)
     else let i = last_control_frame_id m + 1
          in WriteBufferedFrames H
               (m\<lparr>last_control_frame_id := i, control_frames := control_frames m @ [PING_FRAME \<lparr>pg_control_frame_id = i\<rparr>]\<rparr>, x))"

section \<open>The invariant\<close>

text \<open>
  \<open>h\<close> is the list of all frames ever handed over; the frame with number \<open>k\<close> is \<open>h ! (k - 1)\<close>. A frame is live while it
  stands in the deque with its number.
\<close>

definition history_ok :: "QuicFrame list \<Rightarrow> bool" where
  "history_ok h \<longleftrightarrow> length h < 2 ^ 32 - 1 \<and> (\<forall>i < length h. IsControlFrame (h ! i) \<and> unat (GetControlFrameId (h ! i)) = i + 1)"

definition live :: "QuicFrame list \<Rightarrow> nat \<Rightarrow> QuicFrame list \<Rightarrow> nat \<Rightarrow> bool" where
  "live h A fs k \<longleftrightarrow> A \<le> k \<and> k < A + length fs \<and> fs ! (k - A) = h ! (k - 1)"

definition frames_ok :: "QuicFrame list \<Rightarrow> nat \<Rightarrow> nat \<Rightarrow> QuicFrame list \<Rightarrow> bool" where
  "frames_ok h A U fs \<longleftrightarrow> history_ok h \<and> 1 \<le> A \<and> A \<le> U \<and> U \<le> A + length fs \<and> A + length fs = length h + 1
     \<and> (\<forall>k. A \<le> k \<longrightarrow> k < A + length fs \<longrightarrow> live h A fs k \<or> k < U \<and> fs ! (k - A) = SetControlFrameId 0 (h ! (k - 1)))"

definition pending_ok :: "QuicFrame list \<Rightarrow> nat \<Rightarrow> nat \<Rightarrow> QuicFrame list \<Rightarrow> u32 list \<Rightarrow> bool" where
  "pending_ok h A U fs P \<longleftrightarrow> distinct P \<and> (\<forall>p \<in> set P. live h A fs (unat p) \<and> unat p < U)"

text \<open>Of the window updates of a stream only the last one sent is live.\<close>

definition updates_ok :: "QuicFrame list \<Rightarrow> nat \<Rightarrow> nat \<Rightarrow> QuicFrame list \<Rightarrow> (u32 \<rightharpoonup> u32) \<Rightarrow> bool" where
  "updates_ok h A U fs W \<longleftrightarrow> (\<forall>s p. W s = Some p \<longrightarrow> p \<noteq> 0 \<and> unat p < U)
     \<and> (\<forall>k g. live h A fs k \<longrightarrow> k < U \<longrightarrow> h ! (k - 1) = WINDOW_UPDATE_FRAME g \<longrightarrow> W (wu_stream_id g) = Some (wu_control_frame_id g))"

definition manager_ok :: "QuicFrame list \<Rightarrow> QuicControlFrameManager \<Rightarrow> bool" where
  "manager_ok h m \<longleftrightarrow> (let A = unat (least_unacked_id m); U = unat (least_unsent_id m); fs = control_frames m in
     frames_ok h A U fs \<and> pending_ok h A U fs (pending_frames m) \<and> updates_ok h A U fs (window_update_frames m)
   \<and> (fs \<noteq> [] \<longrightarrow> GetControlFrameId (hd fs) \<noteq> 0) \<and> unat (last_control_frame_id m) = length h)"

definition frame_live :: "QuicFrame list \<Rightarrow> QuicControlFrameManager \<Rightarrow> nat \<Rightarrow> bool" where
  "frame_live h m k \<longleftrightarrow> live h (unat (least_unacked_id m)) (control_frames m) k"

lemma history_id:
  assumes "history_ok h" "1 \<le> k" "k \<le> length h"
  shows "unat (GetControlFrameId (h ! (k - 1))) = k" "IsControlFrame (h ! (k - 1))" "GetControlFrameId (h ! (k - 1)) \<noteq> 0"
    "CopyRetransmittableControlFrame (h ! (k - 1)) = h ! (k - 1)"
    "GetControlFrameId (SetControlFrameId 0 (h ! (k - 1))) = 0" "SetControlFrameId 0 (h ! (k - 1)) \<noteq> h ! (k - 1)"
proof -
  have "k - 1 < length h" using assms(2,3) by simp
  then show a: "unat (GetControlFrameId (h ! (k - 1))) = k" "IsControlFrame (h ! (k - 1))"
    using assms(1,2) by (auto simp: history_ok_def)
  then show b: "GetControlFrameId (h ! (k - 1)) \<noteq> 0" using assms(2) by auto
  show "CopyRetransmittableControlFrame (h ! (k - 1)) = h ! (k - 1)" by (rule IsControlFrame_copy [OF a(2)])
  show c: "GetControlFrameId (SetControlFrameId 0 (h ! (k - 1))) = 0" using a(2) by (simp add: GetControlFrameId_set)
  show "SetControlFrameId 0 (h ! (k - 1)) \<noteq> h ! (k - 1)" using b c by metis
qed

text \<open>An entry of the deque is live exactly if its number is not zero.\<close>

lemma entry_id:
  assumes "frames_ok h A U fs" "A \<le> k" "k < A + length fs"
  shows "GetControlFrameId (fs ! (k - A)) = 0 \<longleftrightarrow> \<not> live h A fs k" "GetControlFrameId (fs ! (k - A)) = 0 \<Longrightarrow> k < U"
proof -
  have k: "1 \<le> k" "k \<le> length h" and h: "history_ok h" using assms by (auto simp: frames_ok_def)
  note i = history_id [OF h k]
  have e: "live h A fs k \<or> k < U \<and> fs ! (k - A) = SetControlFrameId 0 (h ! (k - 1))" using assms by (auto simp: frames_ok_def)
  then show "GetControlFrameId (fs ! (k - A)) = 0 \<longleftrightarrow> \<not> live h A fs k" using i assms(2,3) by (auto simp: live_def)
  with e show "GetControlFrameId (fs ! (k - A)) = 0 \<Longrightarrow> k < U" by auto
qed

lemma at_eq:
  assumes "unat (least_unacked_id m) \<le> unat i" "unat i < unat (least_unacked_id m) + length (control_frames m)"
  shows "control_frame_at m i = Some (control_frames m ! (unat i - unat (least_unacked_id m)))"
    "unat (i - least_unacked_id m) = unat i - unat (least_unacked_id m)"
proof -
  show u: "unat (i - least_unacked_id m) = unat i - unat (least_unacked_id m)"
    using assms(1) by (simp add: unat_sub word_le_nat_alt)
  show "control_frame_at m i = Some (control_frames m ! (unat i - unat (least_unacked_id m)))"
    using assms by (simp add: control_frame_at_def u Let_def)
qed

section \<open>Acknowledging\<close>

lemma pop_acked_eq:
  "pop_acked fs least = (let j = length (takeWhile (\<lambda>f. GetControlFrameId f = 0) fs) in (drop j fs, least + of_nat j))"
  by (induction fs arbitrary: least) (simp_all add: Let_def kInvalidControlFrameId_def algebra_simps)

lemma live_set:
  assumes "frames_ok h A U fs" "live h A fs n"
  shows "live h A (fs[n - A := SetControlFrameId 0 (fs ! (n - A))]) k \<longleftrightarrow> live h A fs k \<and> k \<noteq> n"
proof -
  have n: "1 \<le> n" "n \<le> length h" and h: "history_ok h" using assms by (auto simp: frames_ok_def live_def)
  note i = history_id [OF h n]
  have "k - A \<noteq> n - A" if "A \<le> k" "k \<noteq> n" using that assms(2) by (auto simp: live_def)
  then show ?thesis using assms(2) i(6) by (cases "k = n") (auto simp: live_def nth_list_update)
qed

lemma frames_ok_set:
  assumes ok: "frames_ok h A U fs" and n: "live h A fs n" "n < U"
  shows "frames_ok h A U (fs[n - A := SetControlFrameId 0 (fs ! (n - A))])"
proof -
  let ?fs = "fs[n - A := SetControlFrameId 0 (fs ! (n - A))]"
  have "live h A ?fs k \<or> k < U \<and> ?fs ! (k - A) = SetControlFrameId 0 (h ! (k - 1))" if k: "A \<le> k" "k < A + length fs" for k
  proof (cases "k = n")
    case True
    then show ?thesis using n k by (auto simp: live_def)
  next
    case False
    then have "k - A \<noteq> n - A" using k n(1) by (auto simp: live_def)
    then show ?thesis using ok k False unfolding live_set [OF ok n(1)] by (auto simp: frames_ok_def)
  qed
  then show ?thesis using ok by (auto simp: frames_ok_def)
qed

lemma live_drop: "j \<le> length fs \<Longrightarrow> live h (A + j) (drop j fs) k \<longleftrightarrow> live h A fs k \<and> A + j \<le> k"
  by (auto simp: live_def)

lemma frames_ok_drop:
  assumes ok: "frames_ok h A U fs" and j: "j \<le> length fs" "\<And>i. i < j \<Longrightarrow> GetControlFrameId (fs ! i) = 0"
  shows "frames_ok h (A + j) U (drop j fs)" "live h A fs k \<Longrightarrow> A + j \<le> k"
proof -
  have acked: "k < U \<and> \<not> live h A fs k" if "A \<le> k" "k < A + j" for k
    using entry_id [OF ok that(1)] j that by auto
  have "A + j \<le> U"
  proof (rule ccontr)
    assume "\<not> A + j \<le> U"
    then show False using acked [of U] ok by (auto simp: frames_ok_def)
  qed
  then show "frames_ok h (A + j) U (drop j fs)"
    using ok j(1) unfolding frames_ok_def live_drop [OF j(1)] by auto
  show "live h A fs k \<Longrightarrow> A + j \<le> k" using acked [of k] by (cases "A + j \<le> k") (auto simp: live_def)
qed

lemma takeWhile_acked:
  assumes "j = length (takeWhile P fs)"
  shows "j \<le> length fs" "i < j \<Longrightarrow> P (fs ! i)" "drop j fs \<noteq> [] \<Longrightarrow> \<not> P (hd (drop j fs))"
proof -
  show "j \<le> length fs" using assms length_takeWhile_le by blast
  show "i < j \<Longrightarrow> P (fs ! i)" using assms by (metis nth_mem set_takeWhileD takeWhile_nth)
  show "drop j fs \<noteq> [] \<Longrightarrow> \<not> P (hd (drop j fs))"
    using assms by (metis dropWhile_eq_drop hd_dropWhile)
qed

lemma OnControlFrameIdAcked_ok:
  assumes ok: "manager_ok h m" and i: "i \<noteq> 0" "unat i < unat (least_unsent_id m)"
  shows "\<exists>m'. OnControlFrameIdAcked H i (m, x) = Some (frame_live h m (unat i), m', x) \<and> manager_ok h m'
    \<and> least_unsent_id m' = least_unsent_id m \<and> window_update_frames m' = window_update_frames m
    \<and> (\<forall>k. frame_live h m' k \<longleftrightarrow> frame_live h m k \<and> k \<noteq> unat i)
    \<and> set (pending_frames m') \<subseteq> set (pending_frames m)"
proof (cases "frame_live h m (unat i)")
  case False
  let ?A = "unat (least_unacked_id m)"
  have f: "frames_ok h ?A (unat (least_unsent_id m)) (control_frames m)" using ok by (simp add: manager_ok_def Let_def)
  have "OnControlFrameIdAcked H i (m, x) = Some (False, m, x)"
  proof (cases "i < least_unacked_id m")
    case True
    then show ?thesis using i by (simp add: OnControlFrameIdAcked_def kInvalidControlFrameId_def word_le_nat_alt)
  next
    case ge: False
    then have r: "?A \<le> unat i" "unat i < ?A + length (control_frames m)"
      using f i(2) by (auto simp: frames_ok_def word_less_nat_alt)
    have "GetControlFrameId (control_frames m ! (unat i - ?A)) = 0"
      using entry_id(1) [OF f r] False by (simp add: frame_live_def)
    then show ?thesis
      using i ge at_eq [OF r] by (simp add: OnControlFrameIdAcked_def kInvalidControlFrameId_def word_le_nat_alt)
  qed
  then show ?thesis using False ok by auto
next
  case True
  define A where "A = unat (least_unacked_id m)"
  define U where "U = unat (least_unsent_id m)"
  define fs where "fs = control_frames m"
  have f: "frames_ok h A U fs" and P: "pending_ok h A U fs (pending_frames m)" and W: "updates_ok h A U fs (window_update_frames m)"
    and last: "unat (last_control_frame_id m) = length h"
    using ok by (simp_all add: manager_ok_def A_def U_def fs_def Let_def)
  have l: "live h A fs (unat i)" using True by (simp add: frame_live_def A_def fs_def)
  then have r: "A \<le> unat i" "unat i < A + length fs" by (auto simp: live_def)
  note at = at_eq [OF r [unfolded A_def fs_def]]
  define fs1 where "fs1 = fs[unat i - A := SetControlFrameId 0 (fs ! (unat i - A))]"
  have iU: "unat i < U" using i(2) by (simp add: U_def)
  have f1: "frames_ok h A U fs1" unfolding fs1_def by (rule frames_ok_set [OF f l iU])
  have l1: "live h A fs1 k \<longleftrightarrow> live h A fs k \<and> k \<noteq> unat i" for k unfolding fs1_def by (rule live_set [OF f l])
  define j where "j = length (takeWhile (\<lambda>f. GetControlFrameId f = 0) fs1)"
  note tw = takeWhile_acked [OF j_def]
  have f2: "frames_ok h (A + j) U (drop j fs1)" by (rule frames_ok_drop(1) [OF f1 tw(1,2)])
  have l2: "live h (A + j) (drop j fs1) k \<longleftrightarrow> live h A fs k \<and> k \<noteq> unat i" for k
    unfolding live_drop [OF tw(1)] using frames_ok_drop(2) [OF f1 tw(1,2), of k] l1 by blast
  let ?m = "m\<lparr>control_frames := drop j fs1, least_unacked_id := least_unacked_id m + of_nat j, pending_frames := removeAll i (pending_frames m)\<rparr>"
  have "A + j < 2 ^ 32" using f2 by (simp add: frames_ok_def history_ok_def)
  then have A': "unat (least_unacked_id m + of_nat j) = A + j"
    unfolding A_def by (simp add: unat_word_ariths unat_of_nat take_bit_nat_eq_self)
  have iu: "unat p \<noteq> unat i" if "p \<noteq> i" for p using that by (simp add: word_unat_eq_iff)
  have "manager_ok h ?m"
    unfolding manager_ok_def Let_def using f2 P W tw(3) last iu A'
    by (auto simp: pending_ok_def updates_ok_def l2 U_def distinct_removeAll)
  moreover have "\<not> i \<ge> least_unsent_id m" "\<not> i < least_unacked_id m"
    using i(2) r(1) by (simp_all add: A_def word_le_nat_alt word_less_nat_alt)
  moreover have "GetControlFrameId (fs ! (unat i - A)) \<noteq> 0" using entry_id(1) [OF f r] l by simp
  ultimately show ?thesis
    using True i(1) l2 at pop_acked_eq [of fs1 "least_unacked_id m"]
    by (simp add: OnControlFrameIdAcked_def kInvalidControlFrameId_def frame_live_def A' fs1_def [symmetric] j_def [symmetric]
      A_def [symmetric] fs_def [symmetric] Let_def)
qed

lemma manager_ok_D:
  assumes "manager_ok h m"
  shows "frames_ok h (unat (least_unacked_id m)) (unat (least_unsent_id m)) (control_frames m)"
    "pending_ok h (unat (least_unacked_id m)) (unat (least_unsent_id m)) (control_frames m) (pending_frames m)"
    "updates_ok h (unat (least_unacked_id m)) (unat (least_unsent_id m)) (control_frames m) (window_update_frames m)"
    "unat (last_control_frame_id m) = length h" "history_ok h"
  using assms by (simp_all add: manager_ok_def frames_ok_def Let_def)

lemma history_number:
  assumes "history_ok h" "f \<in> set (take n h)"
  shows "\<exists>k. 1 \<le> k \<and> k \<le> n \<and> k \<le> length h \<and> f = h ! (k - 1) \<and> unat (GetControlFrameId f) = k"
proof -
  obtain i where i: "i < length h" "i < n" "f = h ! i" using assms(2) by (auto simp: in_set_conv_nth)
  then have "unat (GetControlFrameId f) = Suc i" using history_id(1) [OF assms(1), of "Suc i"] by simp
  with i show ?thesis by (intro exI [of _ "Suc i"]) simp
qed

text \<open>The frames sent so far: those with a number below \<open>least_unsent\<close>.\<close>

definition frames_sent :: "QuicFrame list \<Rightarrow> QuicControlFrameManager \<Rightarrow> QuicFrame list" where
  "frames_sent h m = take (unat (least_unsent_id m) - 1) h"

lemma sent_number:
  assumes ok: "manager_ok h m" and f: "f \<in> set (frames_sent h m)"
  shows "f = h ! (unat (GetControlFrameId f) - 1)" "1 \<le> unat (GetControlFrameId f)"
    "unat (GetControlFrameId f) < unat (least_unsent_id m)" "GetControlFrameId f \<noteq> 0"
proof -
  obtain k where k: "1 \<le> k" "k \<le> unat (least_unsent_id m) - 1" "f = h ! (k - 1)" "unat (GetControlFrameId f) = k"
    using history_number [OF manager_ok_D(5) [OF ok] f [unfolded frames_sent_def]] by blast
  then show "f = h ! (unat (GetControlFrameId f) - 1)" "1 \<le> unat (GetControlFrameId f)"
    "unat (GetControlFrameId f) < unat (least_unsent_id m)" "GetControlFrameId f \<noteq> 0" by auto
qed

lemma OnControlFrameAcked_ok:
  assumes ok: "manager_ok h m" and f: "f \<in> set (frames_sent h m)"
  shows "\<exists>m'. OnControlFrameAcked H f (m, x) = Some (frame_live h m (unat (GetControlFrameId f)), m', x) \<and> manager_ok h m'
    \<and> least_unsent_id m' = least_unsent_id m
    \<and> (\<forall>k. frame_live h m' k \<longleftrightarrow> frame_live h m k \<and> k \<noteq> unat (GetControlFrameId f))
    \<and> set (pending_frames m') \<subseteq> set (pending_frames m)"
proof -
  let ?i = "GetControlFrameId f"
  note n = sent_number [OF ok f]
  obtain m1 where m1: "OnControlFrameIdAcked H ?i (m, x) = Some (frame_live h m (unat ?i), m1, x)" "manager_ok h m1"
    "least_unsent_id m1 = least_unsent_id m" "\<forall>k. frame_live h m1 k \<longleftrightarrow> frame_live h m k \<and> k \<noteq> unat ?i"
    "set (pending_frames m1) \<subseteq> set (pending_frames m)"
    using OnControlFrameIdAcked_ok [OF ok n(4,3), of H x] by blast
  show ?thesis
  proof (cases "\<exists>g. f = WINDOW_UPDATE_FRAME g \<and> frame_live h m (unat ?i) \<and> window_update_frames m1 (wu_stream_id g) = Some ?i")
    case True
    then obtain g where g: "f = WINDOW_UPDATE_FRAME g" "frame_live h m (unat ?i)" "window_update_frames m1 (wu_stream_id g) = Some ?i"
      by blast
    let ?m = "m1\<lparr>window_update_frames := (window_update_frames m1)(wu_stream_id g := None)\<rparr>"
    have "updates_ok h (unat (least_unacked_id m1)) (unat (least_unsent_id m1)) (control_frames m1)
        ((window_update_frames m1)(wu_stream_id g := None))"
      unfolding updates_ok_def
    proof (intro conjI allI impI)
      fix s p assume "((window_update_frames m1)(wu_stream_id g := None)) s = Some p"
      then show "p \<noteq> 0" "unat p < unat (least_unsent_id m1)"
        using manager_ok_D(3) [OF m1(2)] by (auto simp: updates_ok_def split: if_splits)
    next
      fix k g' assume k: "live h (unat (least_unacked_id m1)) (control_frames m1) k" "k < unat (least_unsent_id m1)"
        "h ! (k - 1) = WINDOW_UPDATE_FRAME g'"
      then have W: "window_update_frames m1 (wu_stream_id g') = Some (wu_control_frame_id g')"
        using manager_ok_D(3) [OF m1(2)] by (auto simp: updates_ok_def)
      have k1: "1 \<le> k" "k \<le> length h" using k(1) manager_ok_D(1) [OF m1(2)] by (auto simp: live_def frames_ok_def)
      have "unat (wu_control_frame_id g') = k"
        using history_id(1) [OF manager_ok_D(5) [OF ok] k1] k(3) by (simp add: GetControlFrameId_def)
      moreover have "k \<noteq> unat ?i" using m1(4) k(1) by (auto simp: frame_live_def)
      ultimately have "wu_stream_id g' \<noteq> wu_stream_id g" using W g(3) by auto
      then show "((window_update_frames m1)(wu_stream_id g := None)) (wu_stream_id g') = Some (wu_control_frame_id g')"
        using W by simp
    qed
    then have "manager_ok h ?m" using m1(2) by (simp add: manager_ok_def Let_def)
    moreover have "OnControlFrameAcked H f (m, x) = Some (True, ?m, x)"
      using m1(1) g by (simp add: OnControlFrameAcked_def Let_def)
    ultimately show ?thesis using m1 g(2) by (auto simp: frame_live_def)
  next
    case False
    then have "OnControlFrameAcked H f (m, x) = Some (frame_live h m (unat ?i), m1, x)"
      using m1(1) unfolding OnControlFrameAcked_def Let_def by (auto split: QuicFrame.splits)
    then show ?thesis using m1 by auto
  qed
qed

lemma live_at:
  assumes ok: "manager_ok h m" and i: "unat (least_unacked_id m) \<le> unat i" "unat i < unat (least_unacked_id m) + length (control_frames m)"
  shows "\<exists>f. control_frame_at m i = Some f \<and> (GetControlFrameId f = 0 \<longleftrightarrow> \<not> frame_live h m (unat i))
    \<and> (frame_live h m (unat i) \<longrightarrow> f = h ! (unat i - 1))"
  using at_eq(1) [OF i] entry_id(1) [OF manager_ok_D(1) [OF ok] i] by (auto simp: frame_live_def live_def)

lemma OnControlFrameLost_ok:
  assumes ok: "manager_ok h m" and f: "f \<in> set (frames_sent h m)"
  shows "\<exists>m'. OnControlFrameLost H f (m, x) = Some (m', x) \<and> manager_ok h m' \<and> least_unsent_id m' = least_unsent_id m
    \<and> (\<forall>k. frame_live h m' k \<longleftrightarrow> frame_live h m k)
    \<and> set (pending_frames m') = set (pending_frames m) \<union> (if frame_live h m (unat (GetControlFrameId f)) then {GetControlFrameId f} else {})"
proof -
  let ?i = "GetControlFrameId f" and ?A = "unat (least_unacked_id m)"
  note n = sent_number [OF ok f]
  show ?thesis
  proof (cases "frame_live h m (unat ?i)")
    case False
    have "OnControlFrameLost H f (m, x) = Some (m, x)"
    proof (cases "?i < least_unacked_id m")
      case True
      then show ?thesis using n by (simp add: OnControlFrameLost_def kInvalidControlFrameId_def word_le_nat_alt)
    next
      case ge: False
      then have r: "?A \<le> unat ?i" "unat ?i < ?A + length (control_frames m)"
        using manager_ok_D(1) [OF ok] n(3) by (auto simp: frames_ok_def word_less_nat_alt)
      from live_at [OF ok r] False n ge show ?thesis
        by (auto simp: OnControlFrameLost_def kInvalidControlFrameId_def word_le_nat_alt)
    qed
    then show ?thesis using False ok by auto
  next
    case True
    then have r: "?A \<le> unat ?i" "unat ?i < ?A + length (control_frames m)" by (auto simp: frame_live_def live_def)
    let ?m = "if ?i \<in> set (pending_frames m) then m else m\<lparr>pending_frames := pending_frames m @ [?i]\<rparr>"
    have e: "OnControlFrameLost H f (m, x) = Some (?m, x)"
      using live_at [OF ok r] True n r
      by (auto simp: OnControlFrameLost_def kInvalidControlFrameId_def word_le_nat_alt word_less_nat_alt)
    have "manager_ok h ?m"
      using ok True n(3) by (auto simp: manager_ok_def pending_ok_def frame_live_def Let_def)
    then show ?thesis unfolding e using True by (auto simp: frame_live_def)
  qed
qed

section \<open>Sending in order\<close>

text \<open>The next frame to send for the first time.\<close>

lemma next_unsent:
  assumes ok: "manager_ok h m" and b: "HasBufferedFrames m"
  shows "control_frame_at m (least_unsent_id m) = Some (h ! (unat (least_unsent_id m) - 1))"
    "1 \<le> unat (least_unsent_id m)" "unat (least_unsent_id m) \<le> length h"
    "GetControlFrameId (h ! (unat (least_unsent_id m) - 1)) = least_unsent_id m"
proof -
  let ?A = "unat (least_unacked_id m)" and ?U = "unat (least_unsent_id m)"
  note f = manager_ok_D(1) [OF ok]
  have r: "?A \<le> ?U" "?U < ?A + length (control_frames m)" using f b by (auto simp: frames_ok_def HasBufferedFrames_def)
  have "live h ?A (control_frames m) ?U" using f r by (auto simp: frames_ok_def)
  then show "control_frame_at m (least_unsent_id m) = Some (h ! (?U - 1))" using at_eq(1) [OF r] by (simp add: live_def)
  show u: "1 \<le> ?U" "?U \<le> length h" using f r by (auto simp: frames_ok_def)
  show "GetControlFrameId (h ! (?U - 1)) = least_unsent_id m"
    using history_id(1) [OF manager_ok_D(5) [OF ok] u] by (simp add: word_unat_eq_iff)
qed

text \<open>Counting the next frame as sent, with the table of window updates \<open>W\<close>.\<close>

lemma count_sent:
  assumes ok: "manager_ok h m" and b: "HasBufferedFrames m"
    and W: "\<And>s p. W s = Some p \<Longrightarrow> p \<noteq> 0 \<and> unat p \<le> unat (least_unsent_id m)"
      "\<And>k g. frame_live h m k \<Longrightarrow> k \<le> unat (least_unsent_id m) \<Longrightarrow> h ! (k - 1) = WINDOW_UPDATE_FRAME g \<Longrightarrow>
         W (wu_stream_id g) = Some (wu_control_frame_id g)"
  shows "manager_ok h (m\<lparr>window_update_frames := W, least_unsent_id := least_unsent_id m + 1\<rparr>)"
    "unat (least_unsent_id m + 1) = unat (least_unsent_id m) + 1"
proof -
  let ?U = "unat (least_unsent_id m)"
  note nx = next_unsent [OF ok b] and D = manager_ok_D [OF ok]
  show U1: "unat (least_unsent_id m + 1) = ?U + 1"
    using nx(3) D(5) by (simp add: history_ok_def unat_word_ariths)
  have "unat (least_unacked_id m) \<le> ?U + 1" "?U + 1 \<le> unat (least_unacked_id m) + length (control_frames m)"
    using D(1) b by (auto simp: frames_ok_def HasBufferedFrames_def)
  then have "frames_ok h (unat (least_unacked_id m)) (?U + 1) (control_frames m)"
    using D(1) unfolding frames_ok_def by (auto simp: less_Suc_eq)
  moreover have "pending_ok h (unat (least_unacked_id m)) (?U + 1) (control_frames m) (pending_frames m)"
    using D(2) by (auto simp: pending_ok_def less_Suc_eq)
  moreover have "updates_ok h (unat (least_unacked_id m)) (?U + 1) (control_frames m) W"
    using W unfolding updates_ok_def frame_live_def by (auto simp: less_Suc_eq_le)
  ultimately show "manager_ok h (m\<lparr>window_update_frames := W, least_unsent_id := least_unsent_id m + 1\<rparr>)"
    using ok U1 by (simp add: manager_ok_def Let_def)
qed

lemma updates_range:
  assumes "manager_ok h m" "window_update_frames m s = Some p"
  shows "p \<noteq> 0" "unat p < unat (least_unsent_id m)"
  using manager_ok_D(3) [OF assms(1)] assms(2) by (auto simp: updates_ok_def)

lemma updates_live:
  assumes ok: "manager_ok h m" and k: "frame_live h m k" "k < unat (least_unsent_id m)" "h ! (k - 1) = WINDOW_UPDATE_FRAME g"
  shows "window_update_frames m (wu_stream_id g) = Some (of_nat k)" "wu_control_frame_id g = of_nat k"
proof -
  have "window_update_frames m (wu_stream_id g) = Some (wu_control_frame_id g)"
    using manager_ok_D(3) [OF ok] k by (auto simp: updates_ok_def frame_live_def)
  moreover have "1 \<le> k" "k \<le> length h" using k(1) manager_ok_D(1) [OF ok] by (auto simp: live_def frames_ok_def frame_live_def)
  then have "k = unat (wu_control_frame_id g)"
    using history_id(1) [OF manager_ok_D(5) [OF ok], of k] k(3) by (simp add: GetControlFrameId_def)
  then show "wu_control_frame_id g = of_nat k" by simp
  ultimately show "window_update_frames m (wu_stream_id g) = Some (of_nat k)" by simp
qed

text \<open>The older window update of stream \<open>s\<close> is dropped.\<close>

lemma drop_older_update:
  assumes ok: "manager_ok h m"
  shows "\<exists>m1. (case window_update_frames m s of
        Some old \<Rightarrow> if least_unsent_id m > old then map_option snd (OnControlFrameIdAcked H old (m, x)) else Some (m, x)
      | None \<Rightarrow> Some (m, x)) = Some (m1, x) \<and> manager_ok h m1 \<and> least_unsent_id m1 = least_unsent_id m
    \<and> window_update_frames m1 = window_update_frames m \<and> set (pending_frames m1) \<subseteq> set (pending_frames m)
    \<and> (\<forall>k. frame_live h m1 k \<longrightarrow> frame_live h m k \<and> window_update_frames m s \<noteq> Some (of_nat k))"
proof (cases "window_update_frames m s")
  case None
  then show ?thesis using ok by simp
next
  case (Some old)
  note o = updates_range [OF ok Some]
  obtain m1 where m1: "OnControlFrameIdAcked H old (m, x) = Some (frame_live h m (unat old), m1, x)" "manager_ok h m1"
    "least_unsent_id m1 = least_unsent_id m" "window_update_frames m1 = window_update_frames m"
    "\<forall>k. frame_live h m1 k \<longleftrightarrow> frame_live h m k \<and> k \<noteq> unat old" "set (pending_frames m1) \<subseteq> set (pending_frames m)"
    using OnControlFrameIdAcked_ok [OF ok o, of H x] by blast
  have "old \<noteq> of_nat k" if "frame_live h m1 k" for k
  proof -
    have "k < 2 ^ 32" using that manager_ok_D(1) [OF m1(2)] by (auto simp: frame_live_def live_def frames_ok_def history_ok_def)
    then have "unat (of_nat k :: u32) = k" by (simp add: unat_of_nat take_bit_nat_eq_self)
    moreover have "k \<noteq> unat old" using m1(5) that by blast
    ultimately show ?thesis by metis
  qed
  then have "\<forall>k. frame_live h m1 k \<longrightarrow> frame_live h m k \<and> window_update_frames m s \<noteq> Some (of_nat k)"
    using m1(5) Some by simp
  moreover have "old < least_unsent_id m" using o(2) by (simp add: word_less_nat_alt)
  ultimately show ?thesis using m1(1-4,6) Some by (intro exI [of _ m1]) simp
qed

lemma note_window_update_other:
  "\<forall>g. f \<noteq> WINDOW_UPDATE_FRAME g \<Longrightarrow> note_window_update H f (m, x) = Some (m, x)"
  by (cases f) (simp_all add: note_window_update_def)

lemma note_window_update_new:
  assumes ok: "manager_ok h m" and b: "HasBufferedFrames m"
  defines "f \<equiv> h ! (unat (least_unsent_id m) - 1)"
  shows "\<exists>m1. note_window_update H f (m, x) = Some (m1, x) \<and> least_unsent_id m1 = least_unsent_id m
    \<and> manager_ok h (m1\<lparr>least_unsent_id := least_unsent_id m + 1\<rparr>) \<and> set (pending_frames m1) \<subseteq> set (pending_frames m)"
proof -
  let ?U = "unat (least_unsent_id m)"
  note nx = next_unsent [OF ok b]
  show ?thesis
  proof (cases "\<exists>g. f = WINDOW_UPDATE_FRAME g")
    case False
    have "window_update_frames m (wu_stream_id g) = Some (wu_control_frame_id g)"
      if k: "frame_live h m k" "k \<le> ?U" "h ! (k - 1) = WINDOW_UPDATE_FRAME g" for k g
    proof -
      have "k \<noteq> ?U" using False k(3) by (auto simp: f_def)
      then show ?thesis using updates_live [OF ok k(1) _ k(3)] k(2) by simp
    qed
    moreover have "p \<noteq> 0 \<and> unat p \<le> ?U" if "window_update_frames m s = Some p" for s p
      using updates_range [OF ok that] by simp
    ultimately have "manager_ok h (m\<lparr>window_update_frames := window_update_frames m, least_unsent_id := least_unsent_id m + 1\<rparr>)"
      by (intro count_sent(1) [OF ok b]) blast+
    then show ?thesis using note_window_update_other [where f = f and H = H and m = m and x = x] False by auto
  next
    case True
    then obtain g where g: "f = WINDOW_UPDATE_FRAME g" by blast
    let ?s = "wu_stream_id g"
    have i: "GetControlFrameId f = least_unsent_id m" "wu_control_frame_id g = least_unsent_id m"
      using nx(4) g by (simp_all add: f_def GetControlFrameId_def)
    obtain m1 where m1: "(case window_update_frames m ?s of
        Some old \<Rightarrow> if least_unsent_id m > old then map_option snd (OnControlFrameIdAcked H old (m, x)) else Some (m, x)
      | None \<Rightarrow> Some (m, x)) = Some (m1, x)" "manager_ok h m1" "least_unsent_id m1 = least_unsent_id m"
      "window_update_frames m1 = window_update_frames m" "set (pending_frames m1) \<subseteq> set (pending_frames m)"
      "\<And>k. frame_live h m1 k \<Longrightarrow> frame_live h m k \<and> window_update_frames m ?s \<noteq> Some (of_nat k)"
      using drop_older_update [OF ok, where s = ?s and H = H and x = x] by blast
    have b1: "HasBufferedFrames m1"
      using b m1(3) manager_ok_D(1) [OF ok] manager_ok_D(1) [OF m1(2)] by (auto simp: frames_ok_def HasBufferedFrames_def)
    let ?W = "(window_update_frames m1)(?s \<mapsto> least_unsent_id m)"
    have "manager_ok h (m1\<lparr>window_update_frames := ?W, least_unsent_id := least_unsent_id m1 + 1\<rparr>)"
    proof (rule count_sent(1) [OF m1(2) b1])
      fix s p assume "?W s = Some p"
      then show "p \<noteq> 0 \<and> unat p \<le> unat (least_unsent_id m1)"
        using updates_range [OF ok, of s p] nx(2) m1(3,4) by (cases "s = ?s") auto
    next
      fix k g' assume k: "frame_live h m1 k" "k \<le> unat (least_unsent_id m1)" "h ! (k - 1) = WINDOW_UPDATE_FRAME g'"
      show "?W (wu_stream_id g') = Some (wu_control_frame_id g')"
      proof (cases "k = ?U")
        case True
        then show ?thesis using k(3) g i by (simp add: f_def)
      next
        case False
        then have kU: "k < ?U" using k(2) m1(3) by simp
        have lk: "frame_live h m k" "window_update_frames m ?s \<noteq> Some (of_nat k)" using m1(6) [OF k(1)] by blast+
        note W = updates_live [OF ok lk(1) kU k(3)]
        then have "wu_stream_id g' \<noteq> ?s" using lk(2) by auto
        then show ?thesis using W m1(4) by simp
      qed
    qed
    moreover have "note_window_update H f (m, x) = Some (m1\<lparr>window_update_frames := ?W\<rparr>, x)"
      using m1(1) i(1) unfolding g note_window_update_def by simp
    ultimately show ?thesis using m1(3,5) by auto
  qed
qed

lemma OnControlFrameSent_new:
  assumes ok: "manager_ok h m" and b: "HasBufferedFrames m"
  shows "\<exists>m'. OnControlFrameSent H (h ! (unat (least_unsent_id m) - 1)) (m, x) = Some (m', x) \<and> manager_ok h m'
    \<and> unat (least_unsent_id m') = unat (least_unsent_id m) + 1 \<and> set (pending_frames m') \<subseteq> set (pending_frames m)"
proof -
  let ?f = "h ! (unat (least_unsent_id m) - 1)" and ?i = "least_unsent_id m"
  note nx = next_unsent [OF ok b]
  obtain m1 where m1: "note_window_update H ?f (m, x) = Some (m1, x)" "least_unsent_id m1 = ?i"
    "manager_ok h (m1\<lparr>least_unsent_id := ?i + 1\<rparr>)" "set (pending_frames m1) \<subseteq> set (pending_frames m)"
    using note_window_update_new [OF ok b, where H = H and x = x] by blast
  have "?i \<notin> set (pending_frames m1)" using m1(4) manager_ok_D(2) [OF ok] by (auto simp: pending_ok_def)
  moreover have "?i \<noteq> 0" using nx(2) by auto
  ultimately have "OnControlFrameSent H ?f (m, x) = Some (m1\<lparr>least_unsent_id := ?i + 1\<rparr>, x)"
    using m1(1,2) nx(4) by (simp add: OnControlFrameSent_def kInvalidControlFrameId_def Let_def)
  moreover have "unat (?i + 1) = unat ?i + 1"
    using nx(3) manager_ok_D(5) [OF ok] by (simp add: history_ok_def unat_word_ariths)
  ultimately show ?thesis using m1(3,4) by auto
qed

lemma OnControlFrameSent_pending:
  assumes ok: "manager_ok h m" and p: "p \<in> set (pending_frames m)"
  shows "OnControlFrameSent H (h ! (unat p - 1)) (m, x) = Some (m\<lparr>pending_frames := removeAll p (pending_frames m)\<rparr>, x)"
    "manager_ok h (m\<lparr>pending_frames := removeAll p (pending_frames m)\<rparr>)" "control_frame_at m p = Some (h ! (unat p - 1))"
    "h ! (unat p - 1) \<in> set (frames_sent h m)"
proof -
  let ?f = "h ! (unat p - 1)"
  have l: "frame_live h m (unat p)" "unat p < unat (least_unsent_id m)"
    using manager_ok_D(2) [OF ok] p by (auto simp: pending_ok_def frame_live_def)
  then have k: "1 \<le> unat p" "unat p \<le> length h"
    using manager_ok_D(1) [OF ok] by (auto simp: live_def frames_ok_def frame_live_def)
  have i: "GetControlFrameId ?f = p" using history_id(1) [OF manager_ok_D(5) [OF ok] k] by (simp add: word_unat_eq_iff)
  have p0: "p \<noteq> 0" using k(1) by auto
  have "note_window_update H ?f (m, x) = Some (m, x)"
  proof (cases "\<exists>g. ?f = WINDOW_UPDATE_FRAME g")
    case False
    then show ?thesis by (intro note_window_update_other) simp
  next
    case True
    then obtain g where g: "?f = WINDOW_UPDATE_FRAME g" by blast
    have W: "window_update_frames m (wu_stream_id g) = Some p" using updates_live(1) [OF ok l g] by simp
    then have "m\<lparr>window_update_frames := (window_update_frames m)(wu_stream_id g \<mapsto> p)\<rparr> = m"
      by (simp add: fun_upd_idem)
    then show ?thesis using W i unfolding g note_window_update_def by simp
  qed
  then show "OnControlFrameSent H ?f (m, x) = Some (m\<lparr>pending_frames := removeAll p (pending_frames m)\<rparr>, x)"
    using i p p0 by (simp add: OnControlFrameSent_def kInvalidControlFrameId_def Let_def)
  show "manager_ok h (m\<lparr>pending_frames := removeAll p (pending_frames m)\<rparr>)"
    using ok by (auto simp: manager_ok_def pending_ok_def distinct_removeAll Let_def)
  have "unat (least_unacked_id m) \<le> unat p" "unat p < unat (least_unacked_id m) + length (control_frames m)"
    using l(1) by (auto simp: frame_live_def live_def)
  from live_at [OF ok this] l(1) show "control_frame_at m p = Some ?f" by auto
  have "unat p - 1 < length h" "unat p - 1 < unat (least_unsent_id m) - 1" using k l(2) by auto
  then show "?f \<in> set (frames_sent h m)" by (auto simp: frames_sent_def in_set_conv_nth)
qed

section \<open>A session that keeps a log\<close>

text \<open>
  A session that takes a frame or not, whatever it has taken before, and records what it takes; the flag records a
  closed connection. The first transmissions of its log are those of frames not yet in it.
\<close>

type_synonym frame_log = "QuicFrame list \<times> bool"

definition logging_session :: "(QuicFrame list \<Rightarrow> QuicFrame \<Rightarrow> bool) \<Rightarrow> bool \<Rightarrow> frame_log ControlFrameSession" where
  "logging_session takes decides =
     \<lparr>WriteControlFrame = (\<lambda>f (log, c). if takes log f then (True, log @ [f], c) else (False, log, c)),
      SetTransmissionType_NOT_RETRANSMISSION = (\<lambda>x. x), cs_CloseConnection = (\<lambda>e (log, c). (log, True)),
      cs_session_decides_what_to_write = decides\<rparr>"

lemma logging_simps [simp]:
  "WriteControlFrame (logging_session takes decides) f (log, c) = (if takes log f then (True, log @ [f], c) else (False, log, c))"
  "SetTransmissionType_NOT_RETRANSMISSION (logging_session takes decides) x = x"
  "cs_session_decides_what_to_write (logging_session takes decides) = decides"
  by (simp_all add: logging_session_def)

definition firsts :: "QuicFrame list \<Rightarrow> QuicFrame list" where
  "firsts log = fold (\<lambda>f acc. if f \<in> set acc then acc else acc @ [f]) log []"

lemma firsts_snoc: "firsts (log @ [f]) = (if f \<in> set (firsts log) then firsts log else firsts log @ [f])"
  by (simp add: firsts_def)

definition control_inv :: "QuicFrame list \<Rightarrow> QuicControlFrameManager \<times> frame_log \<Rightarrow> bool" where
  "control_inv h = (\<lambda>(m, log, c). manager_ok h m \<and> \<not> c \<and> firsts log = frames_sent h m)"

lemma frames_sent_Suc:
  assumes ok: "manager_ok h m" and b: "HasBufferedFrames m" and m': "unat (least_unsent_id m') = unat (least_unsent_id m) + 1"
  shows "frames_sent h m' = frames_sent h m @ [h ! (unat (least_unsent_id m) - 1)]"
    "h ! (unat (least_unsent_id m) - 1) \<notin> set (frames_sent h m)"
proof -
  note nx = next_unsent [OF ok b]
  then show "frames_sent h m' = frames_sent h m @ [h ! (unat (least_unsent_id m) - 1)]"
    using take_Suc_conv_app_nth [of "unat (least_unsent_id m) - 1" h] m' by (simp add: frames_sent_def)
  show "h ! (unat (least_unsent_id m) - 1) \<notin> set (frames_sent h m)"
    using sent_number(3) [OF ok] nx(4) by fastforce
qed

lemma WriteBufferedFrames_ends:
  "control_inv h w \<Longrightarrow> \<exists>w'. WriteBufferedFrames (logging_session takes decides) w = Some w' \<and> control_inv h w'
    \<and> set (pending_frames (fst w')) \<subseteq> set (pending_frames (fst w))
    \<and> ((\<forall>log f. takes log f) \<longrightarrow> \<not> HasBufferedFrames (fst w'))"
proof (induction "length h + 1 - unat (least_unsent_id (fst w))" arbitrary: w rule: less_induct)
  case less
  let ?H = "logging_session takes decides"
  obtain m log c where w: "w = (m, log, c)" by (metis prod_cases3)
  have ok: "manager_ok h m" and c: "\<not> c" and log: "firsts log = frames_sent h m"
    using less.prems by (simp_all add: control_inv_def w)
  let ?U = "unat (least_unsent_id m)"
  let ?f = "h ! (?U - 1)"
  show ?case
  proof (cases "HasBufferedFrames m")
    case False
    then show ?thesis using less.prems unfolding w by (subst WriteBufferedFrames.simps) simp
  next
    case True
    note nx = next_unsent [OF ok True]
    have copy: "CopyRetransmittableControlFrame ?f = ?f" by (rule history_id(4) [OF manager_ok_D(5) [OF ok] nx(2,3)])
    obtain m' where m': "OnControlFrameSent ?H ?f (m, log @ [?f], c) = Some (m', log @ [?f], c)" "manager_ok h m'"
      "unat (least_unsent_id m') = ?U + 1" "set (pending_frames m') \<subseteq> set (pending_frames m)"
      using OnControlFrameSent_new [OF ok True, where H = ?H and x = "(log @ [?f], c)"] by blast
    have inv': "control_inv h (m', log @ [?f], c)"
      using m'(2) c frames_sent_Suc [OF ok True m'(3)] log by (simp add: control_inv_def firsts_snoc)
    have "length h + 1 - unat (least_unsent_id (fst (m', log @ [?f], c))) < length h + 1 - unat (least_unsent_id (fst w))"
      using m'(3) nx(3) by (simp add: w)
    note IH = less.hyps [OF this inv']
    have e: "WriteBufferedFrames ?H w = (if takes log ?f then WriteBufferedFrames ?H (m', log @ [?f], c) else Some w)"
      unfolding w using True nx(1) copy m'(1)
      by (subst WriteBufferedFrames.simps, cases decides) (simp_all add: Let_def)
    show ?thesis
      unfolding e using IH m'(4) less.prems by (cases "takes log ?f") (auto simp: w)
  qed
qed

lemma Control_WritePendingRetransmission_ends:
  "control_inv h w \<Longrightarrow> \<exists>w'. Control_WritePendingRetransmission (logging_session takes decides) w = Some w' \<and> control_inv h w'
    \<and> least_unsent_id (fst w') = least_unsent_id (fst w)
    \<and> ((\<forall>log f. takes log f) \<longrightarrow> \<not> Control_HasPendingRetransmission (fst w'))"
proof (induction "length (pending_frames (fst w))" arbitrary: w rule: less_induct)
  case less
  let ?H = "logging_session takes decides"
  obtain m log c where w: "w = (m, log, c)" by (metis prod_cases3)
  have ok: "manager_ok h m" and c: "\<not> c" and log: "firsts log = frames_sent h m"
    using less.prems by (simp_all add: control_inv_def w)
  show ?case
  proof (cases "pending_frames m")
    case Nil
    then show ?thesis
      using less.prems unfolding w by (subst Control_WritePendingRetransmission.simps) (simp add: Control_HasPendingRetransmission_def)
  next
    case (Cons p ps)
    let ?f = "h ! (unat p - 1)" and ?m = "m\<lparr>pending_frames := removeAll p (pending_frames m)\<rparr>"
    have p: "p \<in> set (pending_frames m)" using Cons by simp
    note sent = OnControlFrameSent_pending [OF ok p]
    have copy: "CopyRetransmittableControlFrame ?f = ?f"
      using sent_number [OF ok sent(4)] manager_ok_D(5) [OF ok] IsControlFrame_copy sent(4)
      by (metis frames_sent_def history_id(2) history_number)
    have inv': "control_inv h (?m, log @ [?f], c)"
      using sent(2,4) c log by (simp add: control_inv_def firsts_snoc frames_sent_def)
    have "length (removeAll p (pending_frames m)) < length (pending_frames m)"
      using Cons length_filter_less [of p "pending_frames m" "\<lambda>y. p \<noteq> y"] by (simp add: removeAll_filter_not_eq)
    then have "length (pending_frames (fst (?m, log @ [?f], c))) < length (pending_frames (fst w))" by (simp add: w)
    note IH = less.hyps [OF this inv']
    have e: "Control_WritePendingRetransmission ?H w =
        (if takes log ?f then Control_WritePendingRetransmission ?H (?m, log @ [?f], c) else Some w)"
      unfolding w using Cons sent(1) [where H = ?H and x = "(log @ [?f], c)"] sent(3) copy
      by (subst Control_WritePendingRetransmission.simps)
        (simp add: Control_HasPendingRetransmission_def Control_NextPendingRetransmission_def)
    show ?thesis unfolding e using IH less.prems by (cases "takes log ?f") (auto simp: w)
  qed
qed

section \<open>Runs\<close>

definition frame_maker :: "(u32 \<Rightarrow> QuicFrame) \<Rightarrow> bool" where
  "frame_maker mk \<longleftrightarrow> (\<forall>i. IsControlFrame (mk i) \<and> GetControlFrameId (mk i) = i)"

definition next_id :: "QuicFrame list \<Rightarrow> u32" where
  "next_id h = of_nat (length h + 1)"

text \<open>
  The life of a manager with the frames it was given: the session hands over new frames (up to the number of control
  frame ids), reports acknowledgements and losses of frames that were sent, asks for a retransmission, and lets the
  manager write.
\<close>

inductive control_run :: "frame_log ControlFrameSession \<Rightarrow> QuicFrame list \<Rightarrow> QuicControlFrameManager \<times> frame_log \<Rightarrow> bool" for H where
  start: "control_run H [] (new_QuicControlFrameManager, [], False)"
| frame: "control_run H h w \<Longrightarrow> length h < 2 ^ 32 - 2 \<Longrightarrow> frame_maker mk \<Longrightarrow> WriteOrBuffer_next H mk w = Some w' \<Longrightarrow>
    control_run H (h @ [mk (next_id h)]) w'"
| ping: "control_run H h w \<Longrightarrow> length h < 2 ^ 32 - 2 \<Longrightarrow> \<not> HasBufferedFrames (fst w) \<Longrightarrow> WritePing H w = Some w' \<Longrightarrow>
    control_run H (h @ [PING_FRAME \<lparr>pg_control_frame_id = next_id h\<rparr>]) w'"
| acked: "control_run H h w \<Longrightarrow> f \<in> set (frames_sent h (fst w)) \<Longrightarrow> OnControlFrameAcked H f w = Some (r, w') \<Longrightarrow> control_run H h w'"
| lost: "control_run H h w \<Longrightarrow> f \<in> set (frames_sent h (fst w)) \<Longrightarrow> OnControlFrameLost H f w = Some w' \<Longrightarrow> control_run H h w'"
| retransmit: "control_run H h w \<Longrightarrow> f \<in> set (frames_sent h (fst w)) \<Longrightarrow> RetransmitControlFrame H f w = Some (r, w') \<Longrightarrow>
    control_run H h w'"
| can_send: "control_run H h w \<Longrightarrow> Control_OnCanWrite H w = Some w' \<Longrightarrow> control_run H h w'"

lemma new_manager_inv: "control_inv [] (new_QuicControlFrameManager, [], False)"
  by (simp add: control_inv_def manager_ok_def new_QuicControlFrameManager_def frames_ok_def history_ok_def pending_ok_def
      updates_ok_def live_def firsts_def frames_sent_def kInvalidControlFrameId_def)

text \<open>A new frame at the end of the deque.\<close>

lemma append_frame:
  assumes inv: "control_inv h (m, log, c)" and len: "length h < 2 ^ 32 - 2"
    and f: "IsControlFrame f" "GetControlFrameId f = next_id h"
  defines "m' \<equiv> m\<lparr>last_control_frame_id := last_control_frame_id m + 1, control_frames := control_frames m @ [f]\<rparr>"
  shows "control_inv (h @ [f]) (m', log, c)" "last_control_frame_id m + 1 = next_id h"
proof -
  have ok: "manager_ok h m" and log: "\<not> c" "firsts log = frames_sent h m" using inv by (simp_all add: control_inv_def)
  note D = manager_ok_D [OF ok]
  have n: "unat (next_id h) = length h + 1"
    using len unfolding next_id_def unat_of_nat by simp
  show last: "last_control_frame_id m + 1 = next_id h"
    using D(4) by (metis add.commute of_nat_Suc of_nat_unat Suc_eq_plus1 ucast_id next_id_def)
  have hist: "history_ok (h @ [f])"
    using D(5) len f n unfolding history_ok_def by (auto simp: nth_append less_Suc_eq)
  let ?A = "unat (least_unacked_id m)" and ?U = "unat (least_unsent_id m)" and ?fs = "control_frames m"
  have A: "?A + length ?fs = length h + 1" "1 \<le> ?A" "?A \<le> ?U" "?U \<le> ?A + length ?fs" using D(1) by (auto simp: frames_ok_def)
  have lv: "live (h @ [f]) ?A (?fs @ [f]) k \<longleftrightarrow> live h ?A ?fs k \<or> k = length h + 1" for k
    using A(1,2) by (cases "k = length h + 1") (auto simp: live_def nth_append)
  have nthf: "(?fs @ [f]) ! (k - ?A) = ?fs ! (k - ?A)" "(h @ [f]) ! (k - 1) = h ! (k - 1)" if "?A \<le> k" "k < ?A + length ?fs" for k
    using that A by (auto simp: nth_append)
  have frames: "frames_ok (h @ [f]) ?A ?U (?fs @ [f])"
    using D(1) hist A nthf unfolding frames_ok_def lv by (auto simp: less_Suc_eq)
  have "pending_ok (h @ [f]) ?A ?U (?fs @ [f]) (pending_frames m)" using D(2) by (auto simp: pending_ok_def lv)
  moreover have "updates_ok (h @ [f]) ?A ?U (?fs @ [f]) (window_update_frames m)"
    using D(3) A nthf unfolding updates_ok_def lv by (auto simp: live_def)
  moreover have "GetControlFrameId (hd (?fs @ [f])) \<noteq> 0"
    using ok f(2) n by (cases ?fs) (auto simp: manager_ok_def Let_def simp flip: word_unat_eq_iff)
  ultimately have "manager_ok (h @ [f]) m'"
    using frames n last by (simp add: manager_ok_def m'_def Let_def)
  moreover have "frames_sent (h @ [f]) m' = frames_sent h m" using A by (simp add: frames_sent_def m'_def)
  ultimately show "control_inv (h @ [f]) (m', log, c)" using log by (simp add: control_inv_def)
qed

lemma WriteOrBuffer_next_ends:
  assumes inv: "control_inv h w" and len: "length h < 2 ^ 32 - 2" and mk: "frame_maker mk"
  shows "\<exists>w'. WriteOrBuffer_next (logging_session takes decides) mk w = Some w' \<and> control_inv (h @ [mk (next_id h)]) w'"
proof -
  obtain m log c where w: "w = (m, log, c)" by (metis prod_cases3)
  let ?f = "mk (next_id h)"
  have f: "IsControlFrame ?f" "GetControlFrameId ?f = next_id h" using mk by (simp_all add: frame_maker_def)
  note a = append_frame [OF inv [unfolded w] len f]
  let ?H = "logging_session takes decides"
  let ?m = "m\<lparr>last_control_frame_id := last_control_frame_id m + 1, control_frames := control_frames m @ [?f]\<rparr>"
  have "WriteOrBuffer_next ?H mk w = (if HasBufferedFrames m then Some (?m, log, c) else WriteBufferedFrames ?H (?m, log, c))"
    by (simp add: WriteOrBuffer_next_def WriteOrBufferQuicFrame_def w Let_def a(2) HasBufferedFrames_def)
  then show ?thesis using a(1) WriteBufferedFrames_ends [OF a(1), of takes decides] by auto
qed

lemma WritePing_ends:
  assumes inv: "control_inv h w" and len: "length h < 2 ^ 32 - 2" and b: "\<not> HasBufferedFrames (fst w)"
  shows "\<exists>w'. WritePing (logging_session takes decides) w = Some w'
    \<and> control_inv (h @ [PING_FRAME \<lparr>pg_control_frame_id = next_id h\<rparr>]) w'"
proof -
  obtain m log c where w: "w = (m, log, c)" by (metis prod_cases3)
  let ?f = "PING_FRAME \<lparr>pg_control_frame_id = next_id h\<rparr>"
  have f: "IsControlFrame ?f" "GetControlFrameId ?f = next_id h" by (simp_all add: IsControlFrame_def GetControlFrameId_def)
  note a = append_frame [OF inv [unfolded w] len f]
  show ?thesis
    using b WriteBufferedFrames_ends [OF a(1) [unfolded a(2)], of takes decides] by (auto simp: WritePing_def w Let_def a(2))
qed

lemma Control_OnCanWrite_ends:
  assumes "control_inv h w"
  shows "\<exists>w'. Control_OnCanWrite (logging_session takes decides) w = Some w' \<and> control_inv h w'"
  using WriteBufferedFrames_ends [OF assms] Control_WritePendingRetransmission_ends [OF assms] unfolding Control_OnCanWrite_def by metis

lemma RetransmitControlFrame_ends:
  assumes inv: "control_inv h w" and f: "f \<in> set (frames_sent h (fst w))"
  shows "\<exists>r w'. RetransmitControlFrame (logging_session takes decides) f w = Some (r, w') \<and> control_inv h w'"
proof -
  obtain m log c where w: "w = (m, log, c)" by (metis prod_cases3)
  have ok: "manager_ok h m" and c: "\<not> c" and log: "firsts log = frames_sent h m" using inv by (simp_all add: control_inv_def w)
  have fm: "f \<in> set (frames_sent h m)" using f by (simp add: w)
  note n = sent_number [OF ok fm]
  let ?i = "GetControlFrameId f"
  have k: "unat ?i \<le> length h" using n(3) manager_ok_D(1) [OF ok] by (auto simp: frames_ok_def)
  have copy: "CopyRetransmittableControlFrame f = f" using history_id(4) [OF manager_ok_D(5) [OF ok] n(2) k] n(1) by simp
  have inv': "control_inv h (m, log @ [f], c)" using ok c log fm by (simp add: control_inv_def firsts_snoc)
  have e: "\<not> ?i \<ge> least_unsent_id m" "?i \<noteq> kInvalidControlFrameId" using n by (auto simp: word_le_nat_alt kInvalidControlFrameId_def)
  show ?thesis
  proof (cases "?i < least_unacked_id m")
    case True
    then show ?thesis using e inv by (auto simp: RetransmitControlFrame_def w)
  next
    case False
    then have "unat (least_unacked_id m) \<le> unat ?i" "unat ?i < unat (least_unacked_id m) + length (control_frames m)"
      using manager_ok_D(1) [OF ok] n(3) by (auto simp: frames_ok_def word_less_nat_alt)
    then obtain g where g: "control_frame_at m ?i = Some g" using live_at [OF ok] by blast
    have "RetransmitControlFrame (logging_session takes decides) f w =
      (if GetControlFrameId g = kInvalidControlFrameId then Some (True, w)
       else if takes log f then Some (True, m, log @ [f], c) else Some (False, w))"
      using e False g copy by (simp add: RetransmitControlFrame_def w)
    then show ?thesis using inv inv' by metis
  qed
qed

lemma control_run_inv:
  assumes "control_run H h w" "H = logging_session takes decides"
  shows "control_inv h w"
  using assms(1)
proof (induction rule: control_run.induct)
  case start
  show ?case by (rule new_manager_inv)
next
  case (frame h w mk w')
  then show ?case using WriteOrBuffer_next_ends [OF frame.IH frame.hyps(2,3), of takes decides] assms(2) by simp
next
  case (ping h w w')
  then show ?case using WritePing_ends [OF ping.IH ping.hyps(2,3), of takes decides] assms(2) by simp
next
  case (acked h w f r w')
  obtain m log c where w: "w = (m, log, c)" by (metis prod_cases3)
  show ?case
    using OnControlFrameAcked_ok [of h m f H "(log, c)"] acked by (auto simp: w control_inv_def frames_sent_def)
next
  case (lost h w f w')
  obtain m log c where w: "w = (m, log, c)" by (metis prod_cases3)
  show ?case
    using OnControlFrameLost_ok [of h m f H "(log, c)"] lost by (auto simp: w control_inv_def frames_sent_def)
next
  case (retransmit h w f r w')
  then show ?case using RetransmitControlFrame_ends [OF retransmit.IH retransmit.hyps(2), of takes decides] assms(2) by auto
next
  case (can_send h w w')
  then show ?case using Control_OnCanWrite_ends [OF can_send.IH, of takes decides] assms(2) by simp
qed

section \<open>Properties\<close>

lemma outstanding_iff:
  assumes ok: "manager_ok h m" and f: "f \<in> set h"
  shows "IsControlFrameOutstanding m f \<longleftrightarrow> frame_live h m (unat (GetControlFrameId f))"
proof -
  obtain k where k: "1 \<le> k" "k \<le> length h" "f = h ! (k - 1)" "unat (GetControlFrameId f) = k"
    using history_number [OF manager_ok_D(5) [OF ok], of f "length h"] f by auto
  let ?i = "GetControlFrameId f" and ?A = "unat (least_unacked_id m)"
  have i: "?i \<noteq> kInvalidControlFrameId" using k(1,4) by (auto simp: kInvalidControlFrameId_def)
  show ?thesis
  proof (cases "?A \<le> unat ?i \<and> unat ?i < ?A + length (control_frames m)")
    case True
    then obtain g where g: "control_frame_at m ?i = Some g" "GetControlFrameId g = 0 \<longleftrightarrow> \<not> frame_live h m (unat ?i)"
      using live_at [OF ok] by blast
    then show ?thesis using True i by (auto simp: IsControlFrameOutstanding_def Let_def kInvalidControlFrameId_def word_le_nat_alt)
  next
    case False
    then show ?thesis by (auto simp: IsControlFrameOutstanding_def frame_live_def live_def Let_def word_le_nat_alt)
  qed
qed

lemma frames_sent_subset: "f \<in> set (frames_sent h m) \<Longrightarrow> f \<in> set h"
  by (auto simp: frames_sent_def dest: in_set_takeD)

lemma set_firsts: "set (firsts log) = set log"
  by (induction log rule: rev_induct) (auto simp: firsts_snoc, simp add: firsts_def)



section \<open>An example\<close>

text \<open>Two window updates of a stream, handed over to a session that takes every frame: the second supersedes the first.\<close>

definition example_update :: "u64 \<Rightarrow> u32 \<Rightarrow> QuicFrame" where
  "example_update off i = WINDOW_UPDATE_FRAME \<lparr>wu_control_frame_id = i, wu_stream_id = 4, wu_byte_offset = off\<rparr>"

definition example_control_session :: "frame_log ControlFrameSession" where
  "example_control_session = logging_session (\<lambda>_ _. True) True"

definition example_control_manager :: "QuicControlFrameManager" where
  "example_control_manager = \<lparr>control_frames = [example_update 200 2], last_control_frame_id = 2, least_unacked_id = 2,
     least_unsent_id = 3, pending_frames = [], window_update_frames = Map.empty(4 \<mapsto> 2)\<rparr>"

lemma example_control_run:
  "control_run example_control_session [example_update 100 1, example_update 200 2]
     (example_control_manager, [example_update 100 1, example_update 200 2], False)"
proof -
  let ?H = "logging_session (\<lambda>_ _. True) True"
  let ?m1 = "\<lparr>control_frames = [example_update 100 1], last_control_frame_id = 1, least_unacked_id = 1,
     least_unsent_id = 2, pending_frames = [], window_update_frames = Map.empty(4 \<mapsto> 1)\<rparr>"
  note eval = WriteOrBuffer_next_def WriteOrBufferQuicFrame_def HasBufferedFrames_def control_frame_at_def
    OnControlFrameSent_def note_window_update_def OnControlFrameIdAcked_def new_QuicControlFrameManager_def
    word_le_nat_alt word_less_nat_alt kInvalidControlFrameId_def example_update_def CopyRetransmittableControlFrame_def GetControlFrameId_def SetControlFrameId_def Let_def
  have mk: "frame_maker (example_update off)" for off
    by (simp add: frame_maker_def example_update_def IsControlFrame_def GetControlFrameId_def)
  have s1: "WriteOrBuffer_next ?H (example_update 100) (new_QuicControlFrameManager, [], False) = Some (?m1, [example_update 100 1], False)"
    by (simp add: eval WriteBufferedFrames.simps)
  have s2: "WriteOrBuffer_next ?H (example_update 200) (?m1, [example_update 100 1], False) =
      Some (example_control_manager, [example_update 100 1, example_update 200 2], False)"
    by (simp add: eval WriteBufferedFrames.simps example_control_manager_def)
  have "control_run ?H ([] @ [example_update 100 (next_id [])]) (?m1, [example_update 100 1], False)"
    by (rule control_run.frame [OF control_run.start _ mk s1]) simp
  then have "control_run ?H [example_update 100 1] (?m1, [example_update 100 1], False)" by (simp add: next_id_def)
  from control_run.frame [OF this _ mk s2] show ?thesis by (simp add: next_id_def example_control_session_def)
qed



end
