(* ===== verification/Quic_Unacked_Packets.thy ===== *)
theory Quic_Unacked_Packets
  imports Quic_Frames Quic_Versions "HOL-Library.Monad_Syntax"
begin

text \<open>
  The map of sent packets that are not yet acknowledged (src/quic/core/quic_unacked_packet_map.cc and .h,
  quic_transmission_info.cc). The deque of transmissions is a list whose first element has the number \<open>least_unacked\<close>;
  an access out of its range is \<open>None\<close>. The arrays over packet number spaces are functions. Byte counts and packet
  numbers are 64-bit values with the wrap-around written out.

  The session notifier is a parameter: a record of functions over its own state. It is asked and told about frames; to
  retransmit frames it sends packets, which come back to the map, so that function takes and returns the map as well.
  Where the code uses the notifier without asking whether it is set, it is taken as set.
\<close>

section \<open>Types\<close>

datatype TransmissionType =
  NOT_RETRANSMISSION | HANDSHAKE_RETRANSMISSION | ALL_UNACKED_RETRANSMISSION | ALL_INITIAL_RETRANSMISSION
| LOSS_RETRANSMISSION | RTO_RETRANSMISSION | TLP_RETRANSMISSION | PROBING_RETRANSMISSION

datatype SentPacketState =
  OUTSTANDING | NEVER_SENT | ACKED | UNACKABLE | HANDSHAKE_RETRANSMITTED | LOST | TLP_RETRANSMITTED
| RTO_RETRANSMITTED | PROBE_RETRANSMITTED

datatype PacketNumberSpace = INITIAL_DATA | HANDSHAKE_DATA | APPLICATION_DATA | NUM_PACKET_NUMBER_SPACES

definition IsAckable :: "SentPacketState \<Rightarrow> bool" where
  "IsAckable state \<longleftrightarrow> state \<noteq> NEVER_SENT \<and> state \<noteq> ACKED \<and> state \<noteq> UNACKABLE"

definition RetransmissionTypeToPacketState :: "TransmissionType \<Rightarrow> SentPacketState" where
  "RetransmissionTypeToPacketState retransmission_type =
     (case retransmission_type of
        ALL_UNACKED_RETRANSMISSION \<Rightarrow> UNACKABLE
      | ALL_INITIAL_RETRANSMISSION \<Rightarrow> UNACKABLE
      | HANDSHAKE_RETRANSMISSION \<Rightarrow> HANDSHAKE_RETRANSMITTED
      | LOSS_RETRANSMISSION \<Rightarrow> LOST
      | TLP_RETRANSMISSION \<Rightarrow> TLP_RETRANSMITTED
      | RTO_RETRANSMISSION \<Rightarrow> RTO_RETRANSMITTED
      | PROBING_RETRANSMISSION \<Rightarrow> PROBE_RETRANSMITTED
      | NOT_RETRANSMISSION \<Rightarrow> UNACKABLE)"

definition Utils_GetPacketNumberSpace :: "EncryptionLevel \<Rightarrow> PacketNumberSpace" where
  "Utils_GetPacketNumberSpace encryption_level =
     (case encryption_level of
        ENCRYPTION_INITIAL \<Rightarrow> INITIAL_DATA
      | ENCRYPTION_HANDSHAKE \<Rightarrow> HANDSHAKE_DATA
      | ENCRYPTION_ZERO_RTT \<Rightarrow> APPLICATION_DATA
      | ENCRYPTION_FORWARD_SECURE \<Rightarrow> APPLICATION_DATA
      | NUM_ENCRYPTION_LEVELS \<Rightarrow> NUM_PACKET_NUMBER_SPACES)"

definition FirstSendingPacketNumber :: QuicPacketNumber where
  "FirstSendingPacketNumber = 1"

definition kDefaultTCPMSS :: nat where
  "kDefaultTCPMSS = 1460"

record QuicTransmissionInfo =
  retransmittable_frames :: "QuicFrame list"
  ti_encryption_level :: EncryptionLevel
  ti_packet_number_length :: nat
  ti_bytes_sent :: u16
  ti_sent_time :: int
  ti_transmission_type :: TransmissionType
  in_flight :: bool
  ti_state :: SentPacketState
  ti_has_crypto_handshake :: bool
  ti_num_padding_bytes :: int
  ti_retransmission :: QuicPacketNumber
  ti_largest_acked :: QuicPacketNumber

definition default_QuicTransmissionInfo :: QuicTransmissionInfo where
  "default_QuicTransmissionInfo =
     \<lparr>retransmittable_frames = [], ti_encryption_level = ENCRYPTION_INITIAL, ti_packet_number_length = 1,
      ti_bytes_sent = 0, ti_sent_time = 0, ti_transmission_type = NOT_RETRANSMISSION, in_flight = False,
      ti_state = OUTSTANDING, ti_has_crypto_handshake = False, ti_num_padding_bytes = 0,
      ti_retransmission = UninitializedPacketNumber, ti_largest_acked = UninitializedPacketNumber\<rparr>"

definition new_QuicTransmissionInfo ::
    "EncryptionLevel \<Rightarrow> nat \<Rightarrow> TransmissionType \<Rightarrow> int \<Rightarrow> u16 \<Rightarrow> bool \<Rightarrow> int \<Rightarrow> QuicTransmissionInfo" where
  "new_QuicTransmissionInfo level packet_number_length transmission_type sent_time bytes has_crypto_handshake num_padding =
     \<lparr>retransmittable_frames = [], ti_encryption_level = level, ti_packet_number_length = packet_number_length,
      ti_bytes_sent = bytes, ti_sent_time = sent_time, ti_transmission_type = transmission_type, in_flight = False,
      ti_state = OUTSTANDING, ti_has_crypto_handshake = has_crypto_handshake, ti_num_padding_bytes = num_padding,
      ti_retransmission = UninitializedPacketNumber, ti_largest_acked = UninitializedPacketNumber\<rparr>"

text \<open>The members of \<open>SerializedPacket\<close> that the map reads.\<close>

record SerializedPacket =
  encrypted_length :: u16
  sp_retransmittable_frames :: "QuicFrame list"
  sp_has_crypto_handshake :: bool
  sp_num_padding_bytes :: int
  sp_packet_number :: QuicPacketNumber
  sp_packet_number_length :: nat
  sp_encryption_level :: EncryptionLevel
  sp_largest_acked :: QuicPacketNumber

record QuicUnackedPacketMap =
  um_perspective :: Perspective
  largest_sent_packet :: QuicPacketNumber
  largest_sent_packets :: "PacketNumberSpace \<Rightarrow> QuicPacketNumber"
  largest_sent_retransmittable_packets :: "PacketNumberSpace \<Rightarrow> QuicPacketNumber"
  largest_sent_largest_acked :: QuicPacketNumber
  um_largest_acked :: QuicPacketNumber
  largest_acked_packets :: "PacketNumberSpace \<Rightarrow> QuicPacketNumber"
  unacked_packets :: "QuicTransmissionInfo list"
  least_unacked :: QuicPacketNumber
  bytes_in_flight :: nat
  pending_crypto_packet_count :: nat
  last_crypto_packet_sent_time :: int
  aggregated_stream_frame :: QuicStreamFrame
  has_session_notifier :: bool
  session_decides_what_to_write :: bool
  supports_multiple_packet_number_spaces :: bool

record 'x SessionNotifier =
  OnFrameAcked :: "QuicFrame \<Rightarrow> int \<Rightarrow> int \<Rightarrow> 'x \<Rightarrow> bool \<times> 'x"
  notify_OnStreamFrameRetransmitted :: "QuicStreamFrame \<Rightarrow> 'x \<Rightarrow> 'x"
  OnFrameLost :: "QuicFrame \<Rightarrow> 'x \<Rightarrow> 'x"
  notify_RetransmitFrames :: "QuicFrame list \<Rightarrow> TransmissionType \<Rightarrow> QuicUnackedPacketMap \<times> 'x \<Rightarrow> QuicUnackedPacketMap \<times> 'x"
  IsFrameOutstanding :: "'x \<Rightarrow> QuicFrame \<Rightarrow> bool"
  HasUnackedCryptoData :: "'x \<Rightarrow> bool"
  notify_HasUnackedStreamData :: "'x \<Rightarrow> bool"

definition empty_QuicStreamFrame :: QuicStreamFrame where
  "empty_QuicStreamFrame = \<lparr>sf_fin = False, sf_data_length = 0, sf_stream_id = -1, sf_data_buffer = None, sf_offset = 0\<rparr>"

definition new_QuicUnackedPacketMap :: "Perspective \<Rightarrow> QuicUnackedPacketMap" where
  "new_QuicUnackedPacketMap p =
     \<lparr>um_perspective = p, largest_sent_packet = UninitializedPacketNumber,
      largest_sent_packets = (\<lambda>_. UninitializedPacketNumber),
      largest_sent_retransmittable_packets = (\<lambda>_. UninitializedPacketNumber),
      largest_sent_largest_acked = UninitializedPacketNumber, um_largest_acked = UninitializedPacketNumber,
      largest_acked_packets = (\<lambda>_. UninitializedPacketNumber), unacked_packets = [],
      least_unacked = FirstSendingPacketNumber, bytes_in_flight = 0, pending_crypto_packet_count = 0,
      last_crypto_packet_sent_time = 0, aggregated_stream_frame = empty_QuicStreamFrame,
      has_session_notifier = False, session_decides_what_to_write = False,
      supports_multiple_packet_number_spaces = False\<rparr>"

section \<open>Queries\<close>

text \<open>The number one above the last packet of the map, and the transmission with a number.\<close>

definition end_number :: "QuicUnackedPacketMap \<Rightarrow> QuicPacketNumber" where
  "end_number m = pn_plus (least_unacked m) (length (unacked_packets m))"

definition packet_index :: "QuicUnackedPacketMap \<Rightarrow> QuicPacketNumber \<Rightarrow> nat" where
  "packet_index m packet_number = u64_sub packet_number (least_unacked m)"

definition GetTransmissionInfo :: "QuicUnackedPacketMap \<Rightarrow> QuicPacketNumber \<Rightarrow> QuicTransmissionInfo option" where
  "GetTransmissionInfo m packet_number =
     (let i = packet_index m packet_number
      in if i < length (unacked_packets m) then Some (unacked_packets m ! i) else None)"

definition set_TransmissionInfo ::
    "QuicPacketNumber \<Rightarrow> QuicTransmissionInfo \<Rightarrow> QuicUnackedPacketMap \<Rightarrow> QuicUnackedPacketMap" where
  "set_TransmissionInfo packet_number info m =
     m\<lparr>unacked_packets := (unacked_packets m)[packet_index m packet_number := info]\<rparr>"

definition GetPacketNumberSpace :: "QuicUnackedPacketMap \<Rightarrow> EncryptionLevel \<Rightarrow> PacketNumberSpace" where
  "GetPacketNumberSpace m encryption_level =
     (if supports_multiple_packet_number_spaces m then Utils_GetPacketNumberSpace encryption_level
      else if um_perspective m = IS_CLIENT
      then (if encryption_level = ENCRYPTION_INITIAL then HANDSHAKE_DATA else APPLICATION_DATA)
      else (if encryption_level = ENCRYPTION_FORWARD_SECURE then APPLICATION_DATA else HANDSHAKE_DATA))"

definition GetPacketNumberSpace_of ::
    "QuicUnackedPacketMap \<Rightarrow> QuicPacketNumber \<Rightarrow> PacketNumberSpace option" where
  "GetPacketNumberSpace_of m packet_number =
     map_option (\<lambda>info. GetPacketNumberSpace m (ti_encryption_level info)) (GetTransmissionInfo m packet_number)"

definition HasRetransmittableFrames ::
    "'x SessionNotifier \<Rightarrow> 'x \<Rightarrow> QuicUnackedPacketMap \<Rightarrow> QuicTransmissionInfo \<Rightarrow> bool" where
  "HasRetransmittableFrames N x m info \<longleftrightarrow>
     (if \<not> session_decides_what_to_write m then retransmittable_frames info \<noteq> []
      else IsAckable (ti_state info) \<and> (\<exists>frame \<in> set (retransmittable_frames info). IsFrameOutstanding N x frame))"

definition IsPacketUsefulForMeasuringRtt ::
    "QuicUnackedPacketMap \<Rightarrow> QuicPacketNumber \<Rightarrow> QuicTransmissionInfo \<Rightarrow> bool" where
  "IsPacketUsefulForMeasuringRtt m packet_number info \<longleftrightarrow>
     IsAckable (ti_state info) \<and> (\<not> IsInitialized (um_largest_acked m) \<or> packet_number > um_largest_acked m)"

definition IsPacketUsefulForCongestionControl :: "QuicTransmissionInfo \<Rightarrow> bool" where
  "IsPacketUsefulForCongestionControl info = in_flight info"

definition IsPacketUsefulForRetransmittableData ::
    "'x SessionNotifier \<Rightarrow> 'x \<Rightarrow> QuicUnackedPacketMap \<Rightarrow> QuicTransmissionInfo \<Rightarrow> bool" where
  "IsPacketUsefulForRetransmittableData N x m info \<longleftrightarrow>
     (let waits = (IsInitialized (ti_retransmission info)
                 \<and> (\<not> IsInitialized (um_largest_acked m) \<or> ti_retransmission info > um_largest_acked m))
      in if \<not> session_decides_what_to_write m then waits \<or> HasRetransmittableFrames N x m info else waits)"

definition IsPacketUseless ::
    "'x SessionNotifier \<Rightarrow> 'x \<Rightarrow> QuicUnackedPacketMap \<Rightarrow> QuicPacketNumber \<Rightarrow> QuicTransmissionInfo \<Rightarrow> bool" where
  "IsPacketUseless N x m packet_number info \<longleftrightarrow>
     \<not> IsPacketUsefulForMeasuringRtt m packet_number info \<and> \<not> IsPacketUsefulForCongestionControl info
   \<and> \<not> IsPacketUsefulForRetransmittableData N x m info"

definition IsUnacked :: "'x SessionNotifier \<Rightarrow> 'x \<Rightarrow> QuicUnackedPacketMap \<Rightarrow> QuicPacketNumber \<Rightarrow> bool" where
  "IsUnacked N x m packet_number \<longleftrightarrow>
     \<not> (packet_number < least_unacked m \<or> packet_number \<ge> end_number m)
   \<and> (case GetTransmissionInfo m packet_number of None \<Rightarrow> False | Some info \<Rightarrow> \<not> IsPacketUseless N x m packet_number info)"

definition HasInFlightPackets :: "QuicUnackedPacketMap \<Rightarrow> bool" where
  "HasInFlightPackets m \<longleftrightarrow> bytes_in_flight m > 0"

definition GetLastPacketSentTime :: "QuicUnackedPacketMap \<Rightarrow> int" where
  "GetLastPacketSentTime m =
     (case find in_flight (rev (unacked_packets m)) of Some info \<Rightarrow> ti_sent_time info | None \<Rightarrow> 0)"

fun count_unacked :: "'x SessionNotifier \<Rightarrow> 'x \<Rightarrow> QuicUnackedPacketMap \<Rightarrow> QuicPacketNumber \<Rightarrow> QuicTransmissionInfo list \<Rightarrow> nat" where
  "count_unacked N x m packet_number [] = 0"
| "count_unacked N x m packet_number (info # infos) =
     (if \<not> IsPacketUseless N x m packet_number info then 1 else 0) + count_unacked N x m (pn_inc packet_number) infos"

definition GetNumUnackedPacketsDebugOnly :: "'x SessionNotifier \<Rightarrow> 'x \<Rightarrow> QuicUnackedPacketMap \<Rightarrow> nat" where
  "GetNumUnackedPacketsDebugOnly N x m = count_unacked N x m (least_unacked m) (unacked_packets m)"

fun HasMultipleInFlightPackets_loop :: "QuicTransmissionInfo list \<Rightarrow> nat \<Rightarrow> bool" where
  "HasMultipleInFlightPackets_loop [] num_in_flight = False"
| "HasMultipleInFlightPackets_loop (info # infos) num_in_flight =
     (let n = (if in_flight info then num_in_flight + 1 else num_in_flight)
      in n > 1 \<or> HasMultipleInFlightPackets_loop infos n)"

definition HasMultipleInFlightPackets :: "QuicUnackedPacketMap \<Rightarrow> bool" where
  "HasMultipleInFlightPackets m \<longleftrightarrow>
     bytes_in_flight m > kDefaultTCPMSS \<or> HasMultipleInFlightPackets_loop (rev (unacked_packets m)) 0"

definition HasPendingCryptoPackets :: "'x SessionNotifier \<Rightarrow> 'x \<Rightarrow> QuicUnackedPacketMap \<Rightarrow> bool" where
  "HasPendingCryptoPackets N x m \<longleftrightarrow>
     (if \<not> session_decides_what_to_write m then pending_crypto_packet_count m > 0 else HasUnackedCryptoData N x)"

definition HasUnackedRetransmittableFrames :: "'x SessionNotifier \<Rightarrow> 'x \<Rightarrow> QuicUnackedPacketMap \<Rightarrow> bool" where
  "HasUnackedRetransmittableFrames N x m \<longleftrightarrow>
     (\<exists>info \<in> set (rev (unacked_packets m)). in_flight info \<and> HasRetransmittableFrames N x m info)"

definition GetLargestAckedOfPacketNumberSpace :: "QuicUnackedPacketMap \<Rightarrow> PacketNumberSpace \<Rightarrow> QuicPacketNumber" where
  "GetLargestAckedOfPacketNumberSpace m s =
     (if s = NUM_PACKET_NUMBER_SPACES then UninitializedPacketNumber else largest_acked_packets m s)"

definition GetLargestSentRetransmittableOfPacketNumberSpace ::
    "QuicUnackedPacketMap \<Rightarrow> PacketNumberSpace \<Rightarrow> QuicPacketNumber" where
  "GetLargestSentRetransmittableOfPacketNumberSpace m s =
     (if s = NUM_PACKET_NUMBER_SPACES then UninitializedPacketNumber else largest_sent_retransmittable_packets m s)"

definition GetLargestSentPacketOfPacketNumberSpace ::
    "QuicUnackedPacketMap \<Rightarrow> EncryptionLevel \<Rightarrow> QuicPacketNumber" where
  "GetLargestSentPacketOfPacketNumberSpace m encryption_level =
     largest_sent_packets m (GetPacketNumberSpace m encryption_level)"

section \<open>Changes of single packets\<close>

definition RemoveFromInFlight :: "QuicPacketNumber \<Rightarrow> QuicUnackedPacketMap \<Rightarrow> QuicUnackedPacketMap option" where
  "RemoveFromInFlight packet_number m = do {
     info \<leftarrow> GetTransmissionInfo m packet_number;
     Some (if in_flight info
           then set_TransmissionInfo packet_number (info\<lparr>in_flight := False\<rparr>)
                  (m\<lparr>bytes_in_flight := u64_sub (bytes_in_flight m) (unat (ti_bytes_sent info))\<rparr>)
           else m)
   }"

text \<open>The walk along the retransmissions of a packet to the newest one; every step clears a link, so that it ends.\<close>

definition linked :: "QuicTransmissionInfo list \<Rightarrow> nat" where
  "linked ps = length (filter (\<lambda>info. IsInitialized (ti_retransmission info)) ps)"

lemma linked_clear:
  assumes "i < length ps" "IsInitialized (ti_retransmission (ps ! i))"
  shows "linked (ps[i := (ps ! i)\<lparr>ti_retransmission := UninitializedPacketNumber\<rparr>]) < linked ps"
proof -
  have "linked ps = linked (take i ps @ ps ! i # drop (Suc i) ps)"
    using id_take_nth_drop [OF assms(1)] by (rule arg_cong)
  then have "linked ps = linked (take i ps) + 1 + linked (drop (i + 1) ps)"
    using assms(2) by (simp add: linked_def)
  moreover have "linked (ps[i := (ps ! i)\<lparr>ti_retransmission := UninitializedPacketNumber\<rparr>]) =
      linked (take i ps) + linked (drop (i + 1) ps)"
    using assms(1) by (simp add: linked_def upd_conv_take_nth_drop IsInitialized_def)
  ultimately show ?thesis by simp
qed

function RemoveRetransmittability_loop ::
    "QuicPacketNumber \<Rightarrow> QuicTransmissionInfo list \<Rightarrow> nat \<Rightarrow> (QuicTransmissionInfo list \<times> nat) option" where
  "RemoveRetransmittability_loop least ps i =
     (if i < length ps
      then if IsInitialized (ti_retransmission (ps ! i))
           then RemoveRetransmittability_loop least
                  (ps[i := (ps ! i)\<lparr>ti_retransmission := UninitializedPacketNumber\<rparr>])
                  (u64_sub (ti_retransmission (ps ! i)) least)
           else Some (ps, i)
      else None)"
  by pat_completeness auto
termination
  by (relation "measure (\<lambda>(least, ps, i). linked ps)") (auto simp: linked_clear)

declare RemoveRetransmittability_loop.simps [simp del]

definition RemoveRetransmittability :: "QuicPacketNumber \<Rightarrow> QuicUnackedPacketMap \<Rightarrow> QuicUnackedPacketMap option" where
  "RemoveRetransmittability packet_number m = do {
     info \<leftarrow> GetTransmissionInfo m packet_number;
     if session_decides_what_to_write m
     then Some (set_TransmissionInfo packet_number
                  (info\<lparr>retransmittable_frames := [], ti_retransmission := UninitializedPacketNumber\<rparr>) m)
     else do {
       (ps, i) \<leftarrow> RemoveRetransmittability_loop (least_unacked m) (unacked_packets m) (packet_index m packet_number);
       let newest = ps ! i;
       let crypto = ti_has_crypto_handshake newest;
       Some (m\<lparr>unacked_packets := ps[i := newest\<lparr>retransmittable_frames := [], ti_has_crypto_handshake := False\<rparr>],
               pending_crypto_packet_count :=
                 (if crypto then u64_sub (pending_crypto_packet_count m) 1 else pending_crypto_packet_count m)\<rparr>)
     }
   }"

definition IncreaseLargestAcked :: "QuicPacketNumber \<Rightarrow> QuicUnackedPacketMap \<Rightarrow> QuicUnackedPacketMap" where
  "IncreaseLargestAcked n m = m\<lparr>um_largest_acked := n\<rparr>"

definition MaybeUpdateLargestAckedOfPacketNumberSpace ::
    "PacketNumberSpace \<Rightarrow> QuicPacketNumber \<Rightarrow> QuicUnackedPacketMap \<Rightarrow> QuicUnackedPacketMap" where
  "MaybeUpdateLargestAckedOfPacketNumberSpace s packet_number m =
     m\<lparr>largest_acked_packets := (largest_acked_packets m)(s := UpdateMax (largest_acked_packets m s) packet_number)\<rparr>"

text \<open>The loop over the packets, by their positions: removing the retransmittability of one does not change their number.\<close>

fun CancelRetransmissions_loop ::
    "u32 \<Rightarrow> nat list \<Rightarrow> QuicUnackedPacketMap \<Rightarrow> QuicUnackedPacketMap option" where
  "CancelRetransmissions_loop stream_id [] m = Some m"
| "CancelRetransmissions_loop stream_id (i # is) m =
     (let info = unacked_packets m ! i; packet_number = pn_plus (least_unacked m) i
      in if retransmittable_frames info = [] then CancelRetransmissions_loop stream_id is m
         else let frames = RemoveFramesForStream (retransmittable_frames info) stream_id;
                  m1 = m\<lparr>unacked_packets := (unacked_packets m)[i := info\<lparr>retransmittable_frames := frames\<rparr>]\<rparr>
              in if frames = []
                 then Option.bind (RemoveRetransmittability packet_number m1) (\<lambda>m2. CancelRetransmissions_loop stream_id is m2)
                 else CancelRetransmissions_loop stream_id is m1)"

definition CancelRetransmissionsForStream :: "u32 \<Rightarrow> QuicUnackedPacketMap \<Rightarrow> QuicUnackedPacketMap option" where
  "CancelRetransmissionsForStream stream_id m =
     CancelRetransmissions_loop stream_id [0..<length (unacked_packets m)] m"

section \<open>Sending and forgetting packets\<close>

fun RemoveObsoletePackets_loop ::
    "'x SessionNotifier \<Rightarrow> 'x \<Rightarrow> QuicUnackedPacketMap \<Rightarrow> QuicPacketNumber \<Rightarrow> QuicTransmissionInfo list
     \<Rightarrow> QuicPacketNumber \<times> QuicTransmissionInfo list" where
  "RemoveObsoletePackets_loop N x m least [] = (least, [])"
| "RemoveObsoletePackets_loop N x m least (info # infos) =
     (if \<not> IsPacketUseless N x m least info then (least, info # infos)
      else RemoveObsoletePackets_loop N x m (pn_inc least) infos)"

definition RemoveObsoletePackets :: "'x SessionNotifier \<Rightarrow> 'x \<Rightarrow> QuicUnackedPacketMap \<Rightarrow> QuicUnackedPacketMap" where
  "RemoveObsoletePackets N x m =
     (case RemoveObsoletePackets_loop N x m (least_unacked m) (unacked_packets m) of
        (least, infos) \<Rightarrow> m\<lparr>least_unacked := least, unacked_packets := infos\<rparr>)"

definition notify_retransmitted :: "'x SessionNotifier \<Rightarrow> QuicFrame list \<Rightarrow> 'x \<Rightarrow> 'x" where
  "notify_retransmitted N frames x =
     fold (\<lambda>frame x. case frame of STREAM_FRAME f \<Rightarrow> notify_OnStreamFrameRetransmitted N f x | _ \<Rightarrow> x) frames x"

definition TransferRetransmissionInfo ::
    "'x SessionNotifier \<Rightarrow> QuicPacketNumber \<Rightarrow> QuicPacketNumber \<Rightarrow> TransmissionType \<Rightarrow> QuicTransmissionInfo
     \<Rightarrow> QuicUnackedPacketMap \<times> 'x \<Rightarrow> (QuicTransmissionInfo \<times> QuicUnackedPacketMap \<times> 'x) option" where
  "TransferRetransmissionInfo N old_packet_number new_packet_number transmission_type info = (\<lambda>(m, x).
     if old_packet_number < least_unacked m then Some (info, m, x)
     else if old_packet_number > largest_sent_packet m then Some (info, m, x)
     else do {
       t \<leftarrow> GetTransmissionInfo m old_packet_number;
       let x1 = (if has_session_notifier m then notify_retransmitted N (retransmittable_frames t) x else x);
       let info1 = info\<lparr>retransmittable_frames := retransmittable_frames t,
                         ti_has_crypto_handshake := ti_has_crypto_handshake t,
                         ti_num_padding_bytes := ti_num_padding_bytes t\<rparr>;
       let t1 = t\<lparr>retransmittable_frames := retransmittable_frames info, ti_has_crypto_handshake := False\<rparr>;
       let t2 = (if transmission_type = ALL_INITIAL_RETRANSMISSION \<or> transmission_type = ALL_UNACKED_RETRANSMISSION
                 then t1\<lparr>ti_state := UNACKABLE\<rparr> else t1\<lparr>ti_retransmission := new_packet_number\<rparr>);
       Some (info1, RemoveObsoletePackets N x1 (set_TransmissionInfo old_packet_number t2 m), x1)
     })"

definition fill_never_sent :: "QuicPacketNumber \<Rightarrow> QuicUnackedPacketMap \<Rightarrow> QuicUnackedPacketMap" where
  "fill_never_sent packet_number m =
     m\<lparr>unacked_packets := unacked_packets m
         @ replicate (packet_number - end_number m) (default_QuicTransmissionInfo\<lparr>ti_state := NEVER_SENT\<rparr>)\<rparr>"

definition AddSentPacket ::
    "'x SessionNotifier \<Rightarrow> SerializedPacket \<Rightarrow> QuicPacketNumber \<Rightarrow> TransmissionType \<Rightarrow> int \<Rightarrow> bool
     \<Rightarrow> QuicUnackedPacketMap \<times> 'x \<Rightarrow> (SerializedPacket \<times> QuicUnackedPacketMap \<times> 'x) option" where
  "AddSentPacket N packet old_packet_number transmission_type sent_time set_in_flight = (\<lambda>(m, x).
     let packet_number = sp_packet_number packet;
         bytes_sent = encrypted_length packet;
         m1 = fill_never_sent packet_number m;
         info = (new_QuicTransmissionInfo (sp_encryption_level packet) (sp_packet_number_length packet) transmission_type
                   sent_time bytes_sent (sp_has_crypto_handshake packet) (sp_num_padding_bytes packet))
                  \<lparr>ti_largest_acked := sp_largest_acked packet\<rparr>;
         m2 = m1\<lparr>largest_sent_largest_acked := UpdateMax (largest_sent_largest_acked m1) (sp_largest_acked packet)\<rparr>;
         number_space = GetPacketNumberSpace m (sp_encryption_level packet)
     in if number_space = NUM_PACKET_NUMBER_SPACES then None
        else do {
          (info1, m3, x1) \<leftarrow> (if IsInitialized old_packet_number
             then TransferRetransmissionInfo N old_packet_number packet_number transmission_type info (m2, x)
             else Some (info, m2, x));
          let m4 = m3\<lparr>largest_sent_packet := packet_number\<rparr>;
          let m5 = (if supports_multiple_packet_number_spaces m4
                    then m4\<lparr>largest_sent_packets := (largest_sent_packets m4)(number_space := packet_number)\<rparr> else m4);
          let m6 = (if set_in_flight
                    then m5\<lparr>bytes_in_flight := u64_add (bytes_in_flight m5) (unat bytes_sent),
                            largest_sent_retransmittable_packets :=
                              (largest_sent_retransmittable_packets m5)(number_space := packet_number)\<rparr> else m5);
          let info2 = (if set_in_flight then info1\<lparr>in_flight := True\<rparr> else info1);
          if IsInitialized old_packet_number
          then Some (packet, m6\<lparr>unacked_packets := unacked_packets m6 @ [info2]\<rparr>, x1)
          else let info3 = info2\<lparr>retransmittable_frames := sp_retransmittable_frames packet\<rparr>;
                   m7 = m6\<lparr>unacked_packets := unacked_packets m6 @ [info3]\<rparr>;
                   m8 = (if sp_has_crypto_handshake packet
                         then m7\<lparr>pending_crypto_packet_count := u64_add (pending_crypto_packet_count m7) 1,
                                 last_crypto_packet_sent_time := sent_time\<rparr> else m7)
               in Some (packet\<lparr>sp_retransmittable_frames := retransmittable_frames info2\<rparr>, m8, x1)
        })"

section \<open>Telling the session\<close>

definition NotifyFramesAcked ::
    "'x SessionNotifier \<Rightarrow> QuicTransmissionInfo \<Rightarrow> int \<Rightarrow> int \<Rightarrow> QuicUnackedPacketMap \<times> 'x \<Rightarrow> bool \<times> QuicUnackedPacketMap \<times> 'x" where
  "NotifyFramesAcked N info ack_delay receive_timestamp = (\<lambda>(m, x).
     if \<not> has_session_notifier m then (False, m, x)
     else case fold (\<lambda>frame (new_data_acked, x).
                  case OnFrameAcked N frame ack_delay receive_timestamp x of (acked, x') \<Rightarrow> (new_data_acked \<or> acked, x'))
                (retransmittable_frames info) (False, x)
          of (new_data_acked, x') \<Rightarrow> (new_data_acked, m, x'))"

definition NotifyFramesLost :: "'x SessionNotifier \<Rightarrow> QuicTransmissionInfo \<Rightarrow> 'x \<Rightarrow> 'x" where
  "NotifyFramesLost N info x = fold (OnFrameLost N) (retransmittable_frames info) x"

definition RetransmitFrames ::
    "'x SessionNotifier \<Rightarrow> QuicTransmissionInfo \<Rightarrow> TransmissionType \<Rightarrow> QuicUnackedPacketMap \<times> 'x \<Rightarrow> QuicUnackedPacketMap \<times> 'x" where
  "RetransmitFrames N info type w = notify_RetransmitFrames N (retransmittable_frames info) type w"

definition WillStreamFrameLengthSumWrapAround :: "u16 \<Rightarrow> u16 \<Rightarrow> bool" where
  "WillStreamFrameLengthSumWrapAround lhs rhs \<longleftrightarrow> (-1) - lhs < rhs"

definition NotifyAggregatedStreamFrameAcked ::
    "'x SessionNotifier \<Rightarrow> int \<Rightarrow> QuicUnackedPacketMap \<times> 'x \<Rightarrow> QuicUnackedPacketMap \<times> 'x" where
  "NotifyAggregatedStreamFrameAcked N ack_delay = (\<lambda>(m, x).
     let agg = aggregated_stream_frame m
     in if sf_stream_id agg = -1 \<or> \<not> has_session_notifier m then (m, x)
        else (m\<lparr>aggregated_stream_frame := agg\<lparr>sf_stream_id := -1\<rparr>\<rparr>,
              snd (OnFrameAcked N (STREAM_FRAME agg) ack_delay 0 x)))"

definition can_aggregate :: "QuicStreamFrame \<Rightarrow> QuicStreamFrame \<Rightarrow> bool" where
  "can_aggregate agg f \<longleftrightarrow> sf_stream_id f = sf_stream_id agg
     \<and> sf_offset f = sf_offset agg + ucast (sf_data_length agg)
     \<and> \<not> WillStreamFrameLengthSumWrapAround (sf_data_length agg) (sf_data_length f)"

definition aggregate_frame ::
    "'x SessionNotifier \<Rightarrow> int \<Rightarrow> int \<Rightarrow> QuicFrame \<Rightarrow> QuicUnackedPacketMap \<times> 'x \<Rightarrow> QuicUnackedPacketMap \<times> 'x" where
  "aggregate_frame N ack_delay receive_timestamp frame w =
     (let agg = aggregated_stream_frame (fst w);
          flush = NotifyAggregatedStreamFrameAcked N ack_delay
      in case frame of
           STREAM_FRAME f \<Rightarrow>
             if can_aggregate agg f
             then let w1 = ((fst w)\<lparr>aggregated_stream_frame :=
                               agg\<lparr>sf_data_length := sf_data_length agg + sf_data_length f, sf_fin := sf_fin f\<rparr>\<rparr>, snd w)
                  in if sf_fin f then flush w1 else w1
             else let w1 = flush w
                  in if sf_fin f then (fst w1, snd (OnFrameAcked N frame ack_delay receive_timestamp (snd w1)))
                     else ((fst w1)\<lparr>aggregated_stream_frame := (aggregated_stream_frame (fst w1))
                              \<lparr>sf_stream_id := sf_stream_id f, sf_offset := sf_offset f,
                               sf_data_length := sf_data_length f, sf_fin := sf_fin f\<rparr>\<rparr>, snd w1)
         | _ \<Rightarrow> let w1 = flush w in (fst w1, snd (OnFrameAcked N frame ack_delay receive_timestamp (snd w1))))"

definition MaybeAggregateAckedStreamFrame ::
    "'x SessionNotifier \<Rightarrow> QuicTransmissionInfo \<Rightarrow> int \<Rightarrow> int \<Rightarrow> QuicUnackedPacketMap \<times> 'x \<Rightarrow> QuicUnackedPacketMap \<times> 'x" where
  "MaybeAggregateAckedStreamFrame N info ack_delay receive_timestamp w =
     (if \<not> has_session_notifier (fst w) then w
      else fold (aggregate_frame N ack_delay receive_timestamp) (retransmittable_frames info) w)"

section \<open>Configuration\<close>

definition SetSessionNotifier :: "QuicUnackedPacketMap \<Rightarrow> QuicUnackedPacketMap" where
  "SetSessionNotifier m = m\<lparr>has_session_notifier := True\<rparr>"

definition SetSessionDecideWhatToWrite :: "bool \<Rightarrow> QuicUnackedPacketMap \<Rightarrow> QuicUnackedPacketMap" where
  "SetSessionDecideWhatToWrite b m =
     (if IsInitialized (largest_sent_packet m) then m else m\<lparr>session_decides_what_to_write := b\<rparr>)"

definition EnableMultiplePacketNumberSpacesSupport :: "QuicUnackedPacketMap \<Rightarrow> QuicUnackedPacketMap" where
  "EnableMultiplePacketNumberSpacesSupport m =
     (if supports_multiple_packet_number_spaces m then m
      else if IsInitialized (largest_sent_packet m) then m
      else m\<lparr>supports_multiple_packet_number_spaces := True\<rparr>)"

end
