(* ===== verification/Quic_Unacked_Invariant.thy ===== *)
theory Quic_Unacked_Invariant
  imports Quic_Unacked_Packets "HOL-Library.Multiset"
begin

text \<open>
  The invariant of the map of unacknowledged packets. The packets of the map are numbered without a gap up to the last
  one sent, the bytes in flight are the sum over the packets in flight, links to retransmissions lead upwards inside the
  map, and the number of pending crypto packets counts the packets that hold crypto data. Packets are bounded by
  \<open>packet_limit\<close>, so that no sum of packet lengths wraps around.
\<close>

section \<open>The invariant\<close>

definition packet_limit :: nat where
  "packet_limit = 2 ^ 47"

definition flight_bytes :: "QuicTransmissionInfo list \<Rightarrow> nat" where
  "flight_bytes ps = (\<Sum>info\<leftarrow>ps. if in_flight info then unat (ti_bytes_sent info) else 0)"

definition crypto_packets :: "QuicTransmissionInfo list \<Rightarrow> nat" where
  "crypto_packets ps = (\<Sum>info\<leftarrow>ps. if ti_has_crypto_handshake info then 1 else 0)"

definition held_frames :: "QuicTransmissionInfo list \<Rightarrow> QuicFrame multiset" where
  "held_frames ps = (\<Sum>info\<leftarrow>ps. mset (retransmittable_frames info))"

definition links_ok :: "nat \<Rightarrow> nat \<Rightarrow> QuicTransmissionInfo list \<Rightarrow> bool" where
  "links_ok upper least ps \<longleftrightarrow> (\<forall>i < length ps. IsInitialized (ti_retransmission (ps ! i)) \<longrightarrow>
     least + i < ti_retransmission (ps ! i) \<and> ti_retransmission (ps ! i) < upper \<and> retransmittable_frames (ps ! i) = [])"

definition crypto_ok :: "QuicTransmissionInfo list \<Rightarrow> bool" where
  "crypto_ok ps \<longleftrightarrow> (\<forall>info \<in> set ps. ti_has_crypto_handshake info \<longrightarrow> retransmittable_frames info \<noteq> [])"

definition numbers_ok :: "QuicUnackedPacketMap \<Rightarrow> bool" where
  "numbers_ok m \<longleftrightarrow> 1 \<le> least_unacked m \<and> least_unacked m + length (unacked_packets m) \<le> packet_limit"

definition packets_ok :: "nat \<Rightarrow> QuicUnackedPacketMap \<Rightarrow> bool" where
  "packets_ok upper m \<longleftrightarrow> numbers_ok m \<and> bytes_in_flight m = flight_bytes (unacked_packets m)
     \<and> (\<not> session_decides_what_to_write m \<longrightarrow> links_ok upper (least_unacked m) (unacked_packets m)
        \<and> crypto_ok (unacked_packets m) \<and> pending_crypto_packet_count m = crypto_packets (unacked_packets m))"

definition unacked_ok :: "QuicUnackedPacketMap \<Rightarrow> bool" where
  "unacked_ok m \<longleftrightarrow> packets_ok (least_unacked m + length (unacked_packets m)) m
     \<and> least_unacked m + length (unacked_packets m) = (if IsInitialized (largest_sent_packet m) then largest_sent_packet m + 1 else 1)"

lemma flight_bytes_simps [simp]:
  "flight_bytes [] = 0" "flight_bytes (p # ps) = (if in_flight p then unat (ti_bytes_sent p) else 0) + flight_bytes ps"
  "flight_bytes (ps @ qs) = flight_bytes ps + flight_bytes qs"
  by (simp_all add: flight_bytes_def)

lemma crypto_packets_simps [simp]:
  "crypto_packets [] = 0" "crypto_packets (p # ps) = (if ti_has_crypto_handshake p then 1 else 0) + crypto_packets ps"
  "crypto_packets (ps @ qs) = crypto_packets ps + crypto_packets qs"
  by (simp_all add: crypto_packets_def)

lemma held_frames_simps [simp]:
  "held_frames [] = {#}" "held_frames (p # ps) = mset (retransmittable_frames p) + held_frames ps"
  "held_frames (ps @ qs) = held_frames ps + held_frames qs"
  by (simp_all add: held_frames_def)

text \<open>A sum over the packets, when one of them changes.\<close>

lemma sum_list_update_packet:
  fixes f :: "'a \<Rightarrow> 'b::comm_monoid_add"
  assumes "i < length ps"
  shows "(\<Sum>p\<leftarrow>ps[i := q]. f p) + f (ps ! i) = (\<Sum>p\<leftarrow>ps. f p) + f q"
proof -
  have "(\<Sum>p\<leftarrow>ps. f p) = (\<Sum>p\<leftarrow>take i ps @ ps ! i # drop (Suc i) ps. f p)"
    using id_take_nth_drop [OF assms] by simp
  then show ?thesis using assms by (simp add: upd_conv_take_nth_drop ac_simps)
qed

lemma flight_bytes_update:
  "i < length ps \<Longrightarrow> flight_bytes (ps[i := q]) + (if in_flight (ps ! i) then unat (ti_bytes_sent (ps ! i)) else 0)
     = flight_bytes ps + (if in_flight q then unat (ti_bytes_sent q) else 0)"
  unfolding flight_bytes_def by (rule sum_list_update_packet)

lemma crypto_packets_update:
  "i < length ps \<Longrightarrow> crypto_packets (ps[i := q]) + (if ti_has_crypto_handshake (ps ! i) then 1 else 0)
     = crypto_packets ps + (if ti_has_crypto_handshake q then 1 else 0)"
  unfolding crypto_packets_def by (rule sum_list_update_packet)

lemma held_frames_update:
  "i < length ps \<Longrightarrow> held_frames (ps[i := q]) + mset (retransmittable_frames (ps ! i))
     = held_frames ps + mset (retransmittable_frames q)"
  unfolding held_frames_def by (rule sum_list_update_packet)

lemma flight_bytes_same:
  assumes "i < length ps" "in_flight q = in_flight (ps ! i)" "ti_bytes_sent q = ti_bytes_sent (ps ! i)"
  shows "flight_bytes (ps[i := q]) = flight_bytes ps"
  using flight_bytes_update [OF assms(1), of q] unfolding assms(2,3) by simp

lemma crypto_packets_same:
  assumes "i < length ps" "ti_has_crypto_handshake q = ti_has_crypto_handshake (ps ! i)"
  shows "crypto_packets (ps[i := q]) = crypto_packets ps"
  using crypto_packets_update [OF assms(1), of q] assms(2) by simp

lemma held_frames_same:
  assumes "i < length ps" "retransmittable_frames q = retransmittable_frames (ps ! i)"
  shows "held_frames (ps[i := q]) = held_frames ps"
  using held_frames_update [OF assms(1), of q] assms(2) by simp

lemma flight_bytes_bound: "flight_bytes ps \<le> length ps * (2 ^ 16 - 1)"
proof (induction ps)
  case (Cons p ps)
  have "unat (ti_bytes_sent p) < 2 ^ 16" using unat_less_power [of "ti_bytes_sent p"] by simp
  then have "(if in_flight p then unat (ti_bytes_sent p) else 0) \<le> 2 ^ 16 - 1" by simp
  then show ?case using Cons by simp
qed simp

lemma crypto_packets_bound: "crypto_packets ps \<le> length ps"
  by (induction ps) simp_all

lemma crypto_packets_pos: "i < length ps \<Longrightarrow> ti_has_crypto_handshake (ps ! i) \<Longrightarrow> 0 < crypto_packets ps"
  by (induction ps arbitrary: i) (auto simp: nth_Cons split: nat.splits)

lemma numbers_ok_bounds:
  assumes "numbers_ok m"
  shows "least_unacked m + length (unacked_packets m) \<le> 2 ^ 47" "end_number m = least_unacked m + length (unacked_packets m)"
    "flight_bytes (unacked_packets m) < 2 ^ 63" "crypto_packets (unacked_packets m) \<le> 2 ^ 47"
proof -
  show b: "least_unacked m + length (unacked_packets m) \<le> 2 ^ 47" using assms by (simp add: numbers_ok_def packet_limit_def)
  then show "end_number m = least_unacked m + length (unacked_packets m)"
    by (simp add: end_number_def pn_plus_def u64_add_small)
  have "length (unacked_packets m) * (2 ^ 16 - 1) \<le> 2 ^ 47 * (2 ^ 16 - 1)" using b by simp
  then show "flight_bytes (unacked_packets m) < 2 ^ 63" using flight_bytes_bound [of "unacked_packets m"] by simp
  show "crypto_packets (unacked_packets m) \<le> 2 ^ 47" using crypto_packets_bound [of "unacked_packets m"] b by simp
qed

lemma tracked_info:
  assumes "numbers_ok m" "least_unacked m \<le> p" "p < least_unacked m + length (unacked_packets m)"
  shows "packet_index m p = p - least_unacked m" "p - least_unacked m < length (unacked_packets m)"
    "GetTransmissionInfo m p = Some (unacked_packets m ! (p - least_unacked m))"
proof -
  have "p < 2 ^ 64" using numbers_ok_bounds(1) [OF assms(1)] assms(3) by simp
  then show i: "packet_index m p = p - least_unacked m" using assms(2) by (simp add: packet_index_def u64_sub_small)
  show l: "p - least_unacked m < length (unacked_packets m)" using assms(2,3) by simp
  show "GetTransmissionInfo m p = Some (unacked_packets m ! (p - least_unacked m))"
    using i l by (simp add: GetTransmissionInfo_def Let_def)
qed

text \<open>Conversely, whatever is found was looked up inside the map, for numbers of 64 bits.\<close>

lemma info_index:
  assumes "GetTransmissionInfo m p = Some info"
  shows "packet_index m p < length (unacked_packets m)" "info = unacked_packets m ! packet_index m p"
  using assms by (auto simp: GetTransmissionInfo_def Let_def split: if_splits)

section \<open>Single packets\<close>

text \<open>A change of one packet that keeps what the sums count, or lowers them together with the counters.\<close>

lemma unacked_ok_D:
  assumes "unacked_ok m"
  shows "numbers_ok m" "bytes_in_flight m = flight_bytes (unacked_packets m)"
    "\<not> session_decides_what_to_write m \<Longrightarrow>
       links_ok (least_unacked m + length (unacked_packets m)) (least_unacked m) (unacked_packets m)"
    "\<not> session_decides_what_to_write m \<Longrightarrow> crypto_ok (unacked_packets m)"
    "\<not> session_decides_what_to_write m \<Longrightarrow> pending_crypto_packet_count m = crypto_packets (unacked_packets m)"
  using assms by (auto simp: unacked_ok_def packets_ok_def)

lemma links_ok_update:
  "links_ok u l ps \<Longrightarrow> \<not> IsInitialized (ti_retransmission q) \<or> i < length ps \<and> ti_retransmission q = ti_retransmission (ps ! i)
       \<and> (retransmittable_frames q = [] \<or> retransmittable_frames q = retransmittable_frames (ps ! i))
     \<Longrightarrow> links_ok u l (ps[i := q])"
  by (cases "i < length ps") (auto simp: links_ok_def nth_list_update)

lemma crypto_ok_update:
  "crypto_ok ps \<Longrightarrow> (ti_has_crypto_handshake q \<Longrightarrow> retransmittable_frames q \<noteq> []) \<Longrightarrow> crypto_ok (ps[i := q])"
  using set_update_subset_insert [of ps i q] by (auto simp: crypto_ok_def)

lemma RemoveFromInFlight_ok:
  assumes ok: "unacked_ok m" and r: "RemoveFromInFlight p m = Some m'"
  shows "unacked_ok m'" "held_frames (unacked_packets m') = held_frames (unacked_packets m)"
    "least_unacked m' = least_unacked m" "length (unacked_packets m') = length (unacked_packets m)"
    "session_decides_what_to_write m' = session_decides_what_to_write m" "largest_sent_packet m' = largest_sent_packet m"
proof -
  from r obtain info where g: "GetTransmissionInfo m p = Some info" and
    m': "m' = (if in_flight info then set_TransmissionInfo p (info\<lparr>in_flight := False\<rparr>)
                  (m\<lparr>bytes_in_flight := u64_sub (bytes_in_flight m) (unat (ti_bytes_sent info))\<rparr>) else m)"
    by (auto simp: RemoveFromInFlight_def bind_eq_Some_conv)
  let ?i = "packet_index m p" and ?ps = "unacked_packets m"
  note i = info_index [OF g]
  let ?q = "info\<lparr>in_flight := False\<rparr>"
  have "flight_bytes (?ps[?i := ?q]) = u64_sub (bytes_in_flight m) (unat (ti_bytes_sent info))" if "in_flight info"
  proof -
    have e: "flight_bytes (?ps[?i := ?q]) + unat (ti_bytes_sent info) = flight_bytes ?ps"
      using flight_bytes_update [OF i(1), of ?q] that i(2) by simp
    then have "unat (ti_bytes_sent info) \<le> bytes_in_flight m" "bytes_in_flight m < 2 ^ 64"
      using unacked_ok_D(2) [OF ok] numbers_ok_bounds(3) [OF unacked_ok_D(1) [OF ok]] by simp_all
    then show ?thesis using e unacked_ok_D(2) [OF ok] by (simp add: u64_sub_small)
  qed
  moreover have "crypto_packets (?ps[?i := ?q]) = crypto_packets ?ps" "held_frames (?ps[?i := ?q]) = held_frames ?ps"
    using crypto_packets_same [OF i(1), of ?q] held_frames_same [OF i(1), of ?q] i(2) by simp_all
  moreover have "links_ok u l (?ps[?i := ?q])" if "links_ok u l ?ps" for u l using links_ok_update [OF that, of ?q] i by simp
  moreover have "crypto_ok (?ps[?i := ?q])" if "crypto_ok ?ps" using crypto_ok_update [OF that, of ?q] that i by (simp add: crypto_ok_def)
  ultimately show "unacked_ok m'" "held_frames (unacked_packets m') = held_frames ?ps"
    "least_unacked m' = least_unacked m" "length (unacked_packets m') = length ?ps"
    "session_decides_what_to_write m' = session_decides_what_to_write m" "largest_sent_packet m' = largest_sent_packet m"
    using ok by (auto simp: m' unacked_ok_def packets_ok_def numbers_ok_def set_TransmissionInfo_def packet_index_def)
qed

lemma mark_state_ok:
  assumes ok: "unacked_ok m" and g: "GetTransmissionInfo m p = Some info"
  shows "unacked_ok (set_TransmissionInfo p (info\<lparr>ti_state := s\<rparr>) m)"
proof -
  let ?i = "packet_index m p" and ?ps = "unacked_packets m" and ?q = "info\<lparr>ti_state := s\<rparr>"
  note i = info_index [OF g]
  have "crypto_packets (?ps[?i := ?q]) = crypto_packets ?ps" "flight_bytes (?ps[?i := ?q]) = flight_bytes ?ps"
    using crypto_packets_same [OF i(1), of ?q] flight_bytes_same [OF i(1), of ?q] i(2) by simp_all
  moreover have "links_ok u l (?ps[?i := ?q])" if "links_ok u l ?ps" for u l using links_ok_update [OF that, of ?q] i by simp
  moreover have "crypto_ok (?ps[?i := ?q])" if "crypto_ok ?ps" using crypto_ok_update [OF that, of ?q] that i by (simp add: crypto_ok_def)
  ultimately show ?thesis using ok by (auto simp: unacked_ok_def packets_ok_def numbers_ok_def set_TransmissionInfo_def)
qed

section \<open>Following the retransmissions\<close>

text \<open>
  The walk returns for links that stay inside the map. It ends at the newest transmission \<open>n\<close>, which has no link of its
  own, and has changed nothing but the links of packets from the first to before the newest.
\<close>

lemma loop_newest:
  assumes "links_ok (least + length ps) least ps" "i < length ps" "least + length ps < 2 ^ 64"
  shows "\<exists>ps' n. RemoveRetransmittability_loop least ps i = Some (ps', n) \<and> i \<le> n \<and> n < length ps
    \<and> length ps' = length ps \<and> links_ok (least + length ps) least ps'
    \<and> \<not> IsInitialized (ti_retransmission (ps' ! i)) \<and> \<not> IsInitialized (ti_retransmission (ps ! n))
    \<and> (\<forall>j < length ps. ps' ! j = ps ! j
        \<or> i \<le> j \<and> j < n \<and> ps' ! j = (ps ! j)\<lparr>ti_retransmission := UninitializedPacketNumber\<rparr>)"
  using assms
proof (induction "length ps - i" arbitrary: ps i rule: less_induct)
  case less
  let ?r = "ti_retransmission (ps ! i)"
  show ?case
  proof (cases "IsInitialized ?r")
    case False
    then have "RemoveRetransmittability_loop least ps i = Some (ps, i)"
      using less.prems(2) by (subst RemoveRetransmittability_loop.simps) simp
    then show ?thesis using False less.prems(1,2) by (intro exI [of _ ps] exI [of _ i]) simp
  next
    case True
    let ?qs = "ps[i := (ps ! i)\<lparr>ti_retransmission := UninitializedPacketNumber\<rparr>]" and ?k = "u64_sub ?r least"
    have r: "least + i < ?r" "?r < least + length ps" using less.prems(1,2) True by (auto simp: links_ok_def)
    then have k: "?k = ?r - least" "i < ?k" "?k < length ps" using less.prems(3) by (simp_all add: u64_sub_small)
    have lk: "links_ok (least + length ?qs) least ?qs"
      using links_ok_update [OF less.prems(1)] by (simp add: IsInitialized_def)
    have m: "length ?qs - ?k < length ps - i" and l: "?k < length ?qs" and b: "least + length ?qs < 2 ^ 64"
      using k less.prems(3) by simp_all
    obtain ps' n where n: "RemoveRetransmittability_loop least ?qs ?k = Some (ps', n)" "?k \<le> n" "n < length ps"
      "length ps' = length ps" "links_ok (least + length ps) least ps'" "\<not> IsInitialized (ti_retransmission (?qs ! n))"
      "\<forall>j < length ps. ps' ! j = ?qs ! j
        \<or> ?k \<le> j \<and> j < n \<and> ps' ! j = (?qs ! j)\<lparr>ti_retransmission := UninitializedPacketNumber\<rparr>"
      using less.hyps [OF m lk l b] unfolding length_list_update by (elim exE conjE) (rule that)
    have i: "ps' ! i = ?qs ! i" using n(7) k(2) less.prems(2) by auto
    then have "\<not> IsInitialized (ti_retransmission (ps' ! i))" using less.prems(2) by (simp add: IsInitialized_def)
    moreover have "\<not> IsInitialized (ti_retransmission (ps ! n))" using n(2,6) k(2) by simp
    moreover have "ps' ! j = ps ! j \<or> i \<le> j \<and> j < n \<and> ps' ! j = (ps ! j)\<lparr>ti_retransmission := UninitializedPacketNumber\<rparr>"
      if j: "j < length ps" for j
    proof (cases "j = i")
      case True
      then show ?thesis using i n(2) k(2) less.prems(2) by simp
    next
      case False
      then have q: "?qs ! j = ps ! j" by simp
      from n(7) [rule_format, OF j] show ?thesis using k(2) unfolding q by auto
    qed
    moreover have "RemoveRetransmittability_loop least ps i = Some (ps', n)"
      using n(1) True less.prems(2) by (subst RemoveRetransmittability_loop.simps) simp
    moreover have "i \<le> n" using n(2) k(2) by simp
    ultimately show ?thesis using n(3-5) by blast
  qed
qed

lemma sum_list_pointwise: "length ps = length qs \<Longrightarrow> (\<forall>j < length ps. f (ps ! j) = f (qs ! j)) \<Longrightarrow> (\<Sum>p\<leftarrow>ps. f p) = (\<Sum>p\<leftarrow>qs. f p)"
  by (metis length_map nth_equalityI nth_map)

lemma link_walk:
  assumes ok: "unacked_ok m" and sd: "\<not> session_decides_what_to_write m" and p: "least_unacked m \<le> p" "p < end_number m"
  obtains ps' n where "RemoveRetransmittability_loop (least_unacked m) (unacked_packets m) (packet_index m p) = Some (ps', n)"
    "packet_index m p \<le> n" "n < length (unacked_packets m)" "length ps' = length (unacked_packets m)"
    "links_ok (least_unacked m + length (unacked_packets m)) (least_unacked m) ps'"
    "\<not> IsInitialized (ti_retransmission (ps' ! packet_index m p))" "\<not> IsInitialized (ti_retransmission (unacked_packets m ! n))"
    "\<forall>j < length (unacked_packets m). ps' ! j = unacked_packets m ! j
        \<or> packet_index m p \<le> j \<and> j < n \<and> ps' ! j = (unacked_packets m ! j)\<lparr>ti_retransmission := UninitializedPacketNumber\<rparr>"
proof -
  note b = numbers_ok_bounds [OF unacked_ok_D(1) [OF ok]]
  have p': "p < least_unacked m + length (unacked_packets m)" using p(2) b(2) by simp
  have "packet_index m p < length (unacked_packets m)" using tracked_info(1,2) [OF unacked_ok_D(1) [OF ok] p(1) p'] by simp
  then show thesis
    using loop_newest [OF unacked_ok_D(3) [OF ok sd]] b(1) that by fastforce
qed

definition same_sending :: "QuicTransmissionInfo \<Rightarrow> QuicTransmissionInfo \<Rightarrow> bool" where
  "same_sending a b \<longleftrightarrow> in_flight a = in_flight b \<and> ti_bytes_sent a = ti_bytes_sent b \<and> ti_state a = ti_state b
     \<and> ti_sent_time a = ti_sent_time b \<and> ti_encryption_level a = ti_encryption_level b"

text \<open>
  Removing the retransmittability of a packet: its data, which the newest transmission holds, is dropped there, the
  links on the way are cleared, and everything else stays as it is.
\<close>

lemma RemoveRetransmittability_ok:
  assumes ok: "unacked_ok m" and sd: "\<not> session_decides_what_to_write m" and p: "least_unacked m \<le> p" "p < end_number m"
  obtains m' n where "RemoveRetransmittability p m = Some m'" "unacked_ok m'" "p - least_unacked m \<le> n" "n < length (unacked_packets m)"
    "least_unacked m' = least_unacked m" "largest_sent_packet m' = largest_sent_packet m" "um_largest_acked m' = um_largest_acked m"
    "\<not> session_decides_what_to_write m'" "length (unacked_packets m') = length (unacked_packets m)"
    "\<forall>j < length (unacked_packets m). same_sending (unacked_packets m' ! j) (unacked_packets m ! j)
       \<and> retransmittable_frames (unacked_packets m' ! j) = (if j = n then [] else retransmittable_frames (unacked_packets m ! j))"
    "\<not> IsInitialized (ti_retransmission (unacked_packets m' ! (p - least_unacked m)))"
    "\<not> IsInitialized (ti_retransmission (unacked_packets m ! n))"
    "n = p - least_unacked m \<or> retransmittable_frames (unacked_packets m ! (p - least_unacked m)) = []"
    "bytes_in_flight m' = bytes_in_flight m"
proof -
  note nk = unacked_ok_D(1) [OF ok]
  note b = numbers_ok_bounds [OF nk]
  have p': "p < least_unacked m + length (unacked_packets m)" using p(2) b(2) by simp
  note t = tracked_info [OF nk p(1) p']
  let ?ps = "unacked_packets m" and ?i = "p - least_unacked m"
  obtain ps' n where w: "RemoveRetransmittability_loop (least_unacked m) ?ps ?i = Some (ps', n)"
    "?i \<le> n" "n < length ?ps" "length ps' = length ?ps" "links_ok (least_unacked m + length ?ps) (least_unacked m) ps'"
    "\<not> IsInitialized (ti_retransmission (ps' ! ?i))" "\<not> IsInitialized (ti_retransmission (?ps ! n))"
    and c: "\<forall>j < length ?ps. ps' ! j = ?ps ! j \<or> ?i \<le> j \<and> j < n \<and> ps' ! j = (?ps ! j)\<lparr>ti_retransmission := UninitializedPacketNumber\<rparr>"
    by (rule link_walk [OF ok sd p, unfolded t(1)])
  let ?new = "(ps' ! n)\<lparr>retransmittable_frames := [], ti_has_crypto_handshake := False\<rparr>"
  define m' where "m' = m\<lparr>unacked_packets := ps'[n := ?new], pending_crypto_packet_count :=
    (if ti_has_crypto_handshake (ps' ! n) then u64_sub (pending_crypto_packet_count m) 1 else pending_crypto_packet_count m)\<rparr>"
  have r: "RemoveRetransmittability p m = Some m'"
    using sd w(1) t by (simp add: RemoveRetransmittability_def m'_def Let_def)
  have n: "ps' ! n = ?ps ! n" using c w(3) by auto
  have keep: "in_flight (ps' ! j) = in_flight (?ps ! j)" "ti_bytes_sent (ps' ! j) = ti_bytes_sent (?ps ! j)"
    "ti_has_crypto_handshake (ps' ! j) = ti_has_crypto_handshake (?ps ! j)"
    "retransmittable_frames (ps' ! j) = retransmittable_frames (?ps ! j)" "same_sending (ps' ! j) (?ps ! j)" if "j < length ?ps" for j
    using c [rule_format, OF that] by (elim disjE conjE; simp add: same_sending_def)+
  have fb: "flight_bytes ps' = flight_bytes ?ps" and cp: "crypto_packets ps' = crypto_packets ?ps"
    unfolding flight_bytes_def crypto_packets_def by (rule sum_list_pointwise; simp add: w(4) keep)+
  have ck: "crypto_ok ps'" using unacked_ok_D(4) [OF ok sd] w(4) keep(3,4) by (fastforce simp: crypto_ok_def in_set_conv_nth)
  have n': "n < length ps'" using w(3,4) by simp
  have "flight_bytes (ps'[n := ?new]) = flight_bytes ?ps" using flight_bytes_same [OF n', of ?new] fb by simp
  moreover have "crypto_packets (ps'[n := ?new]) = pending_crypto_packet_count m'"
    using crypto_packets_update [OF n', of ?new] cp crypto_packets_pos [OF n'] unacked_ok_D(5) [OF ok sd] b(4)
    by (auto simp: m'_def u64_sub_small)
  moreover have "links_ok (least_unacked m + length ?ps) (least_unacked m) (ps'[n := ?new])"
    by (rule links_ok_update [OF w(5)]) (simp add: n w(7))
  moreover have "crypto_ok (ps'[n := ?new])" by (rule crypto_ok_update [OF ck]) simp
  ultimately have "unacked_ok m'" using ok w(4) by (simp add: unacked_ok_def packets_ok_def numbers_ok_def m'_def)
  moreover have "same_sending (unacked_packets m' ! j) (?ps ! j)
       \<and> retransmittable_frames (unacked_packets m' ! j) = (if j = n then [] else retransmittable_frames (?ps ! j))"
    if "j < length ?ps" for j
    using keep [OF that] w(4) that by (cases "j = n") (simp_all add: m'_def same_sending_def)
  moreover have "\<not> IsInitialized (ti_retransmission (unacked_packets m' ! ?i))"
    using w(6) n' by (cases "?i = n") (simp_all add: m'_def)
  moreover have "n = ?i \<or> retransmittable_frames (?ps ! ?i) = []"
    using w(1) t(2) unacked_ok_D(3) [OF ok sd]
    by (subst (asm) RemoveRetransmittability_loop.simps) (auto simp: links_ok_def split: if_splits)
  ultimately show thesis using that [OF r] w(2-4,7) sd by (simp add: m'_def)
qed

lemma RemoveRetransmittability_session:
  assumes ok: "unacked_ok m" and sd: "session_decides_what_to_write m" and r: "RemoveRetransmittability p m = Some m'"
  shows "unacked_ok m'" "least_unacked m' = least_unacked m" "length (unacked_packets m') = length (unacked_packets m)"
proof -
  from r sd obtain info where g: "GetTransmissionInfo m p = Some info" and m': "m' = set_TransmissionInfo p
      (info\<lparr>retransmittable_frames := [], ti_retransmission := UninitializedPacketNumber\<rparr>) m"
    by (auto simp: RemoveRetransmittability_def bind_eq_Some_conv)
  note i = info_index [OF g]
  have "flight_bytes (unacked_packets m') = flight_bytes (unacked_packets m)"
    using flight_bytes_same [OF i(1)] i(2) by (simp add: m' set_TransmissionInfo_def)
  then show "unacked_ok m'" "least_unacked m' = least_unacked m" "length (unacked_packets m') = length (unacked_packets m)"
    using ok sd by (simp_all add: m' set_TransmissionInfo_def unacked_ok_def packets_ok_def numbers_ok_def)
qed

section \<open>Cancelling a stream\<close>

definition cancel_at :: "u32 \<Rightarrow> nat \<Rightarrow> QuicUnackedPacketMap \<Rightarrow> QuicUnackedPacketMap option" where
  "cancel_at s i m =
     (let info = unacked_packets m ! i;
          frames = RemoveFramesForStream (retransmittable_frames info) s;
          m1 = m\<lparr>unacked_packets := (unacked_packets m)[i := info\<lparr>retransmittable_frames := frames\<rparr>]\<rparr>
      in if retransmittable_frames info = [] then Some m
         else if frames = [] then RemoveRetransmittability (pn_plus (least_unacked m) i) m1 else Some m1)"

lemma CancelRetransmissions_loop_Cons:
  "CancelRetransmissions_loop s (i # is) m = Option.bind (cancel_at s i m) (CancelRetransmissions_loop s is)"
  by (auto simp: cancel_at_def Let_def)

text \<open>A packet that holds frames has no newer transmission, so that only its own entry changes.\<close>

lemma cancel_at_ok:
  assumes ok: "unacked_ok m" and sd: "\<not> session_decides_what_to_write m" and i: "i < length (unacked_packets m)"
  obtains m' where "cancel_at s i m = Some m'" "unacked_ok m'" "\<not> session_decides_what_to_write m'"
    "least_unacked m' = least_unacked m" "length (unacked_packets m') = length (unacked_packets m)"
    "\<forall>j < length (unacked_packets m). same_sending (unacked_packets m' ! j) (unacked_packets m ! j)
       \<and> retransmittable_frames (unacked_packets m' ! j) =
        (if j = i then RemoveFramesForStream (retransmittable_frames (unacked_packets m ! i)) s
         else retransmittable_frames (unacked_packets m ! j))"
proof -
  let ?ps = "unacked_packets m"
  let ?info = "?ps ! i"
  let ?frames = "RemoveFramesForStream (retransmittable_frames ?info) s"
  note b = numbers_ok_bounds [OF unacked_ok_D(1) [OF ok]]
  show thesis
  proof (cases "retransmittable_frames ?info = []")
    case True
    then show thesis using that [of m] ok sd by (simp add: cancel_at_def same_sending_def)
  next
    case False
    then have u: "\<not> IsInitialized (ti_retransmission ?info)" using unacked_ok_D(3) [OF ok sd] i by (auto simp: links_ok_def)
    let ?q = "?info\<lparr>retransmittable_frames := ?frames, ti_has_crypto_handshake := ti_has_crypto_handshake ?info \<and> ?frames \<noteq> []\<rparr>"
    define m' where "m' = m\<lparr>unacked_packets := ?ps[i := ?q], pending_crypto_packet_count :=
      (if ti_has_crypto_handshake ?info \<and> ?frames = [] then u64_sub (pending_crypto_packet_count m) 1 else pending_crypto_packet_count m)\<rparr>"
    have "pn_plus (least_unacked m) i = least_unacked m + i" "u64_sub (least_unacked m + i) (least_unacked m) = i"
      using b(1) i by (simp_all add: pn_plus_def u64_add_small u64_sub_small)
    then have c: "cancel_at s i m = Some m'"
      using False u i RemoveRetransmittability_loop.simps [of "least_unacked m" "?ps[i := ?info\<lparr>retransmittable_frames := []\<rparr>]" i]
      by (auto simp: cancel_at_def Let_def m'_def RemoveRetransmittability_def GetTransmissionInfo_def packet_index_def sd)
    have "flight_bytes (?ps[i := ?q]) = flight_bytes ?ps" using flight_bytes_same [OF i, of ?q] by simp
    moreover have "crypto_packets (?ps[i := ?q]) = pending_crypto_packet_count m'"
      using crypto_packets_update [OF i, of ?q] crypto_packets_pos [OF i] unacked_ok_D(5) [OF ok sd] b(4)
      by (auto simp: m'_def u64_sub_small)
    moreover have "links_ok (least_unacked m + length ?ps) (least_unacked m) (?ps[i := ?q])"
      by (rule links_ok_update [OF unacked_ok_D(3) [OF ok sd]]) (simp add: u)
    moreover have "crypto_ok (?ps[i := ?q])" by (rule crypto_ok_update [OF unacked_ok_D(4) [OF ok sd]]) simp
    ultimately have "unacked_ok m'" using ok by (simp add: unacked_ok_def packets_ok_def numbers_ok_def m'_def)
    then show thesis using that [OF c] sd i by (simp add: m'_def same_sending_def nth_list_update)
  qed
qed

lemma CancelRetransmissions_loop_ok:
  assumes "unacked_ok m" "\<not> session_decides_what_to_write m" "\<forall>i \<in> set is. i < length (unacked_packets m)"
  shows "\<exists>m'. CancelRetransmissions_loop s is m = Some m' \<and> unacked_ok m' \<and> \<not> session_decides_what_to_write m'
    \<and> least_unacked m' = least_unacked m \<and> length (unacked_packets m') = length (unacked_packets m)
    \<and> (\<forall>j < length (unacked_packets m). same_sending (unacked_packets m' ! j) (unacked_packets m ! j)
        \<and> set (retransmittable_frames (unacked_packets m' ! j)) \<subseteq> set (retransmittable_frames (unacked_packets m ! j))
        \<and> (j \<in> set is \<longrightarrow> (\<forall>f \<in> set (retransmittable_frames (unacked_packets m' ! j)). \<not> frame_of_stream s f)))"
  using assms
proof (induction "is" arbitrary: m)
  case Nil
  then show ?case by (simp add: same_sending_def)
next
  case (Cons i "is")
  let ?ps = "unacked_packets m"
  let ?info = "?ps ! i"
  let ?frames = "RemoveFramesForStream (retransmittable_frames ?info) s"
  have i: "i < length ?ps" using Cons.prems(3) by simp
  obtain m1 where m1: "cancel_at s i m = Some m1" "unacked_ok m1" "\<not> session_decides_what_to_write m1"
    "least_unacked m1 = least_unacked m" "length (unacked_packets m1) = length ?ps"
    "\<forall>j < length ?ps. same_sending (unacked_packets m1 ! j) (?ps ! j) \<and> retransmittable_frames (unacked_packets m1 ! j) =
        (if j = i then ?frames else retransmittable_frames (?ps ! j))"
    by (rule cancel_at_ok [OF Cons.prems(1,2) i])
  obtain m' where m': "CancelRetransmissions_loop s is m1 = Some m'" "unacked_ok m'" "\<not> session_decides_what_to_write m'"
    "least_unacked m' = least_unacked m1" "length (unacked_packets m') = length (unacked_packets m1)"
    "\<forall>j < length (unacked_packets m1). same_sending (unacked_packets m' ! j) (unacked_packets m1 ! j)
        \<and> set (retransmittable_frames (unacked_packets m' ! j)) \<subseteq> set (retransmittable_frames (unacked_packets m1 ! j))
        \<and> (j \<in> set is \<longrightarrow> (\<forall>f \<in> set (retransmittable_frames (unacked_packets m' ! j)). \<not> frame_of_stream s f))"
    using Cons.IH [OF m1(2,3)] Cons.prems(3) m1(5) by auto
  have "same_sending (unacked_packets m' ! j) (?ps ! j)
      \<and> set (retransmittable_frames (unacked_packets m' ! j)) \<subseteq> set (retransmittable_frames (?ps ! j))
      \<and> (j \<in> set (i # is) \<longrightarrow> (\<forall>f \<in> set (retransmittable_frames (unacked_packets m' ! j)). \<not> frame_of_stream s f))"
    if "j < length ?ps" for j
    using m1(5) m1(6) [rule_format, OF that] m'(6) [rule_format, of j] that
    by (auto simp: same_sending_def RemoveFramesForStream_filter split: if_splits)
  moreover have "CancelRetransmissions_loop s (i # is) m = Some m'"
    unfolding CancelRetransmissions_loop_Cons using m1(1) m'(1) by simp
  ultimately show ?case using m1(4,5) m'(2-5) by (intro exI [of _ m']) (simp del: CancelRetransmissions_loop.simps)
qed

section \<open>Forgetting packets\<close>

lemma RemoveObsoletePackets_loop_eq:
  assumes "least + length ps < 2 ^ 64"
  obtains k where "RemoveObsoletePackets_loop N x m least ps = (least + k, drop k ps)" "k \<le> length ps"
    "\<forall>i < k. IsPacketUseless N x m (least + i) (ps ! i)" "k < length ps \<longrightarrow> \<not> IsPacketUseless N x m (least + k) (ps ! k)"
  using assms
proof (induction ps arbitrary: least thesis)
  case Nil
  then show ?case by simp
next
  case (Cons p ps)
  show ?case
  proof (cases "IsPacketUseless N x m least p")
    case False
    then show ?thesis using Cons.prems(1) [of 0] by simp
  next
    case True
    have inc: "pn_inc least = Suc least" using Cons.prems(2) by (simp add: pn_inc_def u64_add_small)
    obtain k where k: "RemoveObsoletePackets_loop N x m (Suc least) ps = (Suc least + k, drop k ps)" "k \<le> length ps"
      "\<forall>i < k. IsPacketUseless N x m (Suc least + i) (ps ! i)" "k < length ps \<longrightarrow> \<not> IsPacketUseless N x m (Suc least + k) (ps ! k)"
      using Cons.IH [of "Suc least"] Cons.prems(2) by auto
    have "\<forall>i < Suc k. IsPacketUseless N x m (least + i) ((p # ps) ! i)"
      using True k(3) by (auto simp: nth_Cons split: nat.splits)
    then show ?thesis using Cons.prems(1) [of "Suc k"] k True inc by simp
  qed
qed

lemma useless_empty:
  assumes "\<not> session_decides_what_to_write m" "IsPacketUseless N x m p info"
  shows "retransmittable_frames info = []"
  using assms by (simp add: IsPacketUseless_def IsPacketUsefulForRetransmittableData_def HasRetransmittableFrames_def Let_def)

lemma RemoveObsoletePackets_eq:
  assumes "numbers_ok m"
  obtains k where "RemoveObsoletePackets N x m =
      m\<lparr>least_unacked := least_unacked m + k, unacked_packets := drop k (unacked_packets m)\<rparr>" "k \<le> length (unacked_packets m)"
    "\<forall>i < k. IsPacketUseless N x m (least_unacked m + i) (unacked_packets m ! i)"
    "k < length (unacked_packets m) \<longrightarrow> \<not> IsPacketUseless N x m (least_unacked m + k) (unacked_packets m ! k)"
proof -
  have b: "least_unacked m + length (unacked_packets m) < 2 ^ 64" using numbers_ok_bounds(1) [OF assms] by simp
  obtain k where k: "RemoveObsoletePackets_loop N x m (least_unacked m) (unacked_packets m) = (least_unacked m + k, drop k (unacked_packets m))"
    "k \<le> length (unacked_packets m)" "\<forall>i < k. IsPacketUseless N x m (least_unacked m + i) (unacked_packets m ! i)"
    "k < length (unacked_packets m) \<longrightarrow> \<not> IsPacketUseless N x m (least_unacked m + k) (unacked_packets m ! k)"
    by (rule RemoveObsoletePackets_loop_eq [OF b, of N x m])
  show thesis by (rule that [OF _ k(2-4)]) (simp_all add: RemoveObsoletePackets_def k(1))
qed

text \<open>
  Links are checked against an upper bound of their own here, because \<open>RemoveObsoletePackets\<close> also runs while a
  retransmission is being added and the old packet is linked to it already.
\<close>

lemma sum_list_drop_zero:
  fixes f :: "'a \<Rightarrow> 'b::comm_monoid_add"
  assumes "k \<le> length ps" "\<forall>i < k. f (ps ! i) = 0"
  shows "(\<Sum>p\<leftarrow>drop k ps. f p) = (\<Sum>p\<leftarrow>ps. f p)"
proof -
  have z: "(\<forall>p \<in> set qs. f p = 0) \<Longrightarrow> (\<Sum>p\<leftarrow>qs. f p) = 0" for qs by (induction qs) simp_all
  have "(\<Sum>p\<leftarrow>take k ps. f p) = 0" using assms by (intro z) (auto simp: in_set_conv_nth)
  moreover have "(\<Sum>p\<leftarrow>ps. f p) = (\<Sum>p\<leftarrow>take k ps. f p) + (\<Sum>p\<leftarrow>drop k ps. f p)"
    by (metis append_take_drop_id map_append sum_list.append)
  ultimately show ?thesis by simp
qed

lemma links_ok_drop: "links_ok u l ps \<Longrightarrow> k \<le> length ps \<Longrightarrow> links_ok u (l + k) (drop k ps)"
  by (auto simp: links_ok_def add.assoc)

lemma RemoveObsoletePackets_sums:
  assumes nk: "numbers_ok m"
  shows "flight_bytes (unacked_packets (RemoveObsoletePackets N x m)) = flight_bytes (unacked_packets m)"
    "\<not> session_decides_what_to_write m \<Longrightarrow> held_frames (unacked_packets (RemoveObsoletePackets N x m)) = held_frames (unacked_packets m)"
    "\<not> session_decides_what_to_write m \<Longrightarrow> crypto_ok (unacked_packets m) \<Longrightarrow>
       crypto_packets (unacked_packets (RemoveObsoletePackets N x m)) = crypto_packets (unacked_packets m)
     \<and> crypto_ok (unacked_packets (RemoveObsoletePackets N x m))"
    "links_ok u (least_unacked m) (unacked_packets m) \<Longrightarrow>
       links_ok u (least_unacked (RemoveObsoletePackets N x m)) (unacked_packets (RemoveObsoletePackets N x m))"
    "numbers_ok (RemoveObsoletePackets N x m)"
    "least_unacked (RemoveObsoletePackets N x m) + length (unacked_packets (RemoveObsoletePackets N x m)) =
       least_unacked m + length (unacked_packets m)"
proof -
  obtain k where k: "RemoveObsoletePackets N x m = m\<lparr>least_unacked := least_unacked m + k, unacked_packets := drop k (unacked_packets m)\<rparr>"
    "k \<le> length (unacked_packets m)" "\<forall>i < k. IsPacketUseless N x m (least_unacked m + i) (unacked_packets m ! i)"
    by (rule RemoveObsoletePackets_eq [OF nk])
  let ?ps = "unacked_packets m"
  have f: "\<not> in_flight (?ps ! i)" if "i < k" for i
    using k(3) that by (simp add: IsPacketUseless_def IsPacketUsefulForCongestionControl_def)
  then show "flight_bytes (unacked_packets (RemoveObsoletePackets N x m)) = flight_bytes ?ps"
    unfolding flight_bytes_def k(1) using sum_list_drop_zero [OF k(2), of "\<lambda>info. if in_flight info then unat (ti_bytes_sent info) else 0"] by simp
  have e: "retransmittable_frames (?ps ! i) = []" if "\<not> session_decides_what_to_write m" "i < k" for i
    by (rule useless_empty [OF that(1) k(3) [rule_format, OF that(2)]])
  show "held_frames (unacked_packets (RemoveObsoletePackets N x m)) = held_frames ?ps" if "\<not> session_decides_what_to_write m"
    unfolding held_frames_def k(1) using that sum_list_drop_zero [OF k(2), of "\<lambda>info. mset (retransmittable_frames info)"] e by simp
  show "crypto_packets (unacked_packets (RemoveObsoletePackets N x m)) = crypto_packets ?ps
     \<and> crypto_ok (unacked_packets (RemoveObsoletePackets N x m))"
    if sd: "\<not> session_decides_what_to_write m" and c: "crypto_ok ?ps"
  proof -
    have "\<not> ti_has_crypto_handshake (?ps ! i)" if "i < k" for i
      using c e [OF sd that] k(2) that by (auto simp: crypto_ok_def)
    then have "crypto_packets (drop k ?ps) = crypto_packets ?ps"
      unfolding crypto_packets_def using sum_list_drop_zero [OF k(2), of "\<lambda>info. if ti_has_crypto_handshake info then 1 else 0"] by simp
    moreover have "crypto_ok (drop k ?ps)" using c in_set_dropD unfolding crypto_ok_def by fast
    ultimately show ?thesis by (simp add: k(1))
  qed
  show "links_ok u (least_unacked m) ?ps \<Longrightarrow>
       links_ok u (least_unacked (RemoveObsoletePackets N x m)) (unacked_packets (RemoveObsoletePackets N x m))"
    using links_ok_drop k(2) by (simp add: k(1))
  show "numbers_ok (RemoveObsoletePackets N x m)" "least_unacked (RemoveObsoletePackets N x m)
      + length (unacked_packets (RemoveObsoletePackets N x m)) = least_unacked m + length ?ps"
    using nk k(2) by (simp_all add: k(1) numbers_ok_def)
qed

lemma RemoveObsoletePackets_same [simp]:
  "session_decides_what_to_write (RemoveObsoletePackets N x m) = session_decides_what_to_write m"
  "bytes_in_flight (RemoveObsoletePackets N x m) = bytes_in_flight m"
  "pending_crypto_packet_count (RemoveObsoletePackets N x m) = pending_crypto_packet_count m"
  "largest_sent_packet (RemoveObsoletePackets N x m) = largest_sent_packet m"
  "supports_multiple_packet_number_spaces (RemoveObsoletePackets N x m) = supports_multiple_packet_number_spaces m"
  by (simp_all add: RemoveObsoletePackets_def split: prod.splits)

lemma RemoveObsoletePackets_ok:
  assumes ok: "unacked_ok m"
  shows "unacked_ok (RemoveObsoletePackets N x m)"
proof -
  note s = RemoveObsoletePackets_sums [OF unacked_ok_D(1) [OF ok], where N = N and x = x]
  show ?thesis
    unfolding unacked_ok_def packets_ok_def s(6) using ok s unacked_ok_D [OF ok] by (simp add: unacked_ok_def)
qed


section \<open>Sending\<close>

definition sendable :: "QuicUnackedPacketMap \<Rightarrow> SerializedPacket \<Rightarrow> QuicPacketNumber \<Rightarrow> bool" where
  "sendable m packet old \<longleftrightarrow> end_number m \<le> sp_packet_number packet \<and> sp_packet_number packet < packet_limit
     \<and> sp_encryption_level packet \<noteq> NUM_ENCRYPTION_LEVELS
     \<and> (sp_has_crypto_handshake packet \<longrightarrow> sp_retransmittable_frames packet \<noteq> [])
     \<and> (IsInitialized old \<longrightarrow> old < end_number m \<and> (sp_has_crypto_handshake packet \<longrightarrow> least_unacked m \<le> old))"

lemma fill_never_sent_same [simp]:
  "least_unacked (fill_never_sent p m) = least_unacked m" "bytes_in_flight (fill_never_sent p m) = bytes_in_flight m"
  "pending_crypto_packet_count (fill_never_sent p m) = pending_crypto_packet_count m"
  "session_decides_what_to_write (fill_never_sent p m) = session_decides_what_to_write m"
  "largest_sent_packet (fill_never_sent p m) = largest_sent_packet m"
  "supports_multiple_packet_number_spaces (fill_never_sent p m) = supports_multiple_packet_number_spaces m"
  "largest_sent_largest_acked (fill_never_sent p m) = largest_sent_largest_acked m"
  "has_session_notifier (fill_never_sent p m) = has_session_notifier m"
  by (simp_all add: fill_never_sent_def)

lemma fill_never_sent_ok:
  assumes ok: "unacked_ok m" and p: "end_number m \<le> p" "p < packet_limit"
  shows "packets_ok p (fill_never_sent p m)" "least_unacked m + length (unacked_packets (fill_never_sent p m)) = p"
    "held_frames (unacked_packets (fill_never_sent p m)) = held_frames (unacked_packets m)"
    "\<forall>j < length (unacked_packets m). unacked_packets (fill_never_sent p m) ! j = unacked_packets m ! j"
proof -
  let ?ps = "unacked_packets m" and ?ns = "default_QuicTransmissionInfo\<lparr>ti_state := NEVER_SENT\<rparr>"
  note b = numbers_ok_bounds [OF unacked_ok_D(1) [OF ok]]
  have "flight_bytes (replicate d ?ns) = 0" "crypto_packets (replicate d ?ns) = 0" "held_frames (replicate d ?ns) = {#}" for d
    by (induction d) (simp_all add: default_QuicTransmissionInfo_def)
  then have s: "flight_bytes (unacked_packets (fill_never_sent p m)) = flight_bytes ?ps"
    "crypto_packets (unacked_packets (fill_never_sent p m)) = crypto_packets ?ps"
    "held_frames (unacked_packets (fill_never_sent p m)) = held_frames ?ps"
    by (simp_all add: fill_never_sent_def)
  then show "held_frames (unacked_packets (fill_never_sent p m)) = held_frames ?ps" by simp
  show l: "least_unacked m + length (unacked_packets (fill_never_sent p m)) = p" using p(1) b(2) by (simp add: fill_never_sent_def)
  have "links_ok p (least_unacked m) (unacked_packets (fill_never_sent p m))" if "links_ok (end_number m) (least_unacked m) ?ps"
    using that p(1) b(2) by (auto simp: links_ok_def fill_never_sent_def nth_append default_QuicTransmissionInfo_def IsInitialized_def)
  moreover have "crypto_ok (unacked_packets (fill_never_sent p m))" if "crypto_ok ?ps"
    using that by (auto simp: crypto_ok_def fill_never_sent_def default_QuicTransmissionInfo_def)
  moreover have "numbers_ok (fill_never_sent p m)"
    using l p(2) unacked_ok_D(1) [OF ok] by (simp add: numbers_ok_def fill_never_sent_def)
  ultimately show "packets_ok p (fill_never_sent p m)"
    using unacked_ok_D [OF ok] s unfolding b(2) by (simp add: packets_ok_def)
  show "\<forall>j < length ?ps. unacked_packets (fill_never_sent p m) ! j = ?ps ! j" by (simp add: fill_never_sent_def nth_append)
qed

text \<open>
  A retransmission takes over the frames and the crypto mark of the old packet. While it is being added, the entries of
  the map and the new transmission together hold the same frames as before.
\<close>

lemma TransferRetransmissionInfo_ok:
  assumes ok: "packets_ok p m" and end_: "least_unacked m + length (unacked_packets m) = p" "p < packet_limit"
    and old: "least_unacked m \<le> old \<and> old < least_unacked m + length (unacked_packets m) \<or> old < least_unacked m \<or> largest_sent_packet m < old"
    and info: "\<not> IsInitialized (ti_retransmission info)" "retransmittable_frames info = []"
      "ti_has_crypto_handshake info \<longrightarrow> least_unacked m \<le> old \<and> old \<le> largest_sent_packet m"
  obtains info1 m1 x1 where "TransferRetransmissionInfo N old p type info (m, x) = Some (info1, m1, x1)"
    "numbers_ok m1" "least_unacked m1 + length (unacked_packets m1) = p" "bytes_in_flight m1 = bytes_in_flight m"
    "flight_bytes (unacked_packets m1) = flight_bytes (unacked_packets m)"
    "session_decides_what_to_write m1 = session_decides_what_to_write m"
    "supports_multiple_packet_number_spaces m1 = supports_multiple_packet_number_spaces m"
    "pending_crypto_packet_count m1 = pending_crypto_packet_count m"
    "\<not> IsInitialized (ti_retransmission info1)" "in_flight info1 = in_flight info" "ti_bytes_sent info1 = ti_bytes_sent info"
    "\<not> session_decides_what_to_write m \<longrightarrow>
       links_ok (p + 1) (least_unacked m1) (unacked_packets m1) \<and> crypto_ok (unacked_packets m1)
     \<and> crypto_packets (unacked_packets m1) + (if ti_has_crypto_handshake info1 then 1 else 0) = crypto_packets (unacked_packets m)
     \<and> (ti_has_crypto_handshake info1 \<longrightarrow> retransmittable_frames info1 \<noteq> [])
     \<and> held_frames (unacked_packets m1) + mset (retransmittable_frames info1) = held_frames (unacked_packets m)"
proof -
  have nk: "numbers_ok m" using ok by (simp add: packets_ok_def)
  have up: "links_ok (p + 1) (least_unacked m) (unacked_packets m)" if "\<not> session_decides_what_to_write m"
    using ok that by (auto simp: packets_ok_def links_ok_def)
  show thesis
  proof (cases "old < least_unacked m \<or> largest_sent_packet m < old")
    case True
    then have "TransferRetransmissionInfo N old p type info (m, x) = Some (info, m, x)" by (auto simp: TransferRetransmissionInfo_def)
    then show thesis
      by (rule that) (use ok nk up end_ info True in \<open>auto simp: packets_ok_def\<close>)
  next
    case False
    then have tr: "least_unacked m \<le> old" "old < least_unacked m + length (unacked_packets m)" using old by auto
    note t = tracked_info [OF nk tr]
    let ?ps = "unacked_packets m" and ?i = "old - least_unacked m"
    let ?t = "?ps ! ?i"
    define x1 where "x1 = (if has_session_notifier m then notify_retransmitted N (retransmittable_frames ?t) x else x)"
    define info1 where "info1 = info\<lparr>retransmittable_frames := retransmittable_frames ?t,
      ti_has_crypto_handshake := ti_has_crypto_handshake ?t, ti_num_padding_bytes := ti_num_padding_bytes ?t\<rparr>"
    define t1 where "t1 = ?t\<lparr>retransmittable_frames := retransmittable_frames info, ti_has_crypto_handshake := False\<rparr>"
    define t2 where "t2 = (if type = ALL_INITIAL_RETRANSMISSION \<or> type = ALL_UNACKED_RETRANSMISSION
                 then t1\<lparr>ti_state := UNACKABLE\<rparr> else t1\<lparr>ti_retransmission := p\<rparr>)"
    define m' where "m' = set_TransmissionInfo old t2 m"
    have r: "TransferRetransmissionInfo N old p type info (m, x) = Some (info1, RemoveObsoletePackets N x1 m', x1)"
      using False t(3) by (simp add: TransferRetransmissionInfo_def Let_def m'_def t2_def t1_def info1_def x1_def)
    have ps: "unacked_packets m' = ?ps[?i := t2]" and same: "least_unacked m' = least_unacked m"
      "session_decides_what_to_write m' = session_decides_what_to_write m" "bytes_in_flight m' = bytes_in_flight m"
      "supports_multiple_packet_number_spaces m' = supports_multiple_packet_number_spaces m"
      "pending_crypto_packet_count m' = pending_crypto_packet_count m"
      by (simp_all add: m'_def set_TransmissionInfo_def t(1))
    have t2: "in_flight t2 = in_flight ?t" "ti_bytes_sent t2 = ti_bytes_sent ?t" "\<not> ti_has_crypto_handshake t2"
      "retransmittable_frames t2 = []" "ti_retransmission t2 = ti_retransmission ?t \<or> ti_retransmission t2 = p"
      by (simp_all add: t2_def t1_def info(2))
    have nk': "numbers_ok m'" using nk by (simp add: numbers_ok_def ps same)
    note s = RemoveObsoletePackets_sums [OF nk', where N = N and x = x1, unfolded ps same]
    have fb: "flight_bytes (?ps[?i := t2]) = flight_bytes ?ps" by (rule flight_bytes_same [OF t(2) t2(1,2)])
    have rest: "links_ok (p + 1) (least_unacked m) (?ps[?i := t2]) \<and> crypto_ok (?ps[?i := t2])
      \<and> crypto_packets (?ps[?i := t2]) + (if ti_has_crypto_handshake info1 then 1 else 0) = crypto_packets ?ps
      \<and> held_frames (?ps[?i := t2]) + mset (retransmittable_frames info1) = held_frames ?ps
      \<and> (ti_has_crypto_handshake info1 \<longrightarrow> retransmittable_frames info1 \<noteq> [])" if sd: "\<not> session_decides_what_to_write m"
    proof (intro conjI)
      show "links_ok (p + 1) (least_unacked m) (?ps[?i := t2])"
        using up [OF sd] t2(4,5) tr end_ t(2) by (auto simp: links_ok_def nth_list_update)
      show "crypto_ok (?ps[?i := t2])" using ok sd t2(3) by (intro crypto_ok_update) (auto simp: packets_ok_def)
      show "crypto_packets (?ps[?i := t2]) + (if ti_has_crypto_handshake info1 then 1 else 0) = crypto_packets ?ps"
        using crypto_packets_update [OF t(2), of t2] t2(3) by (simp add: info1_def)
      show "held_frames (?ps[?i := t2]) + mset (retransmittable_frames info1) = held_frames ?ps"
        using held_frames_update [OF t(2), of t2] t2(4) by (simp add: info1_def)
      show "ti_has_crypto_handshake info1 \<longrightarrow> retransmittable_frames info1 \<noteq> []"
        using ok sd t(2) by (auto simp: info1_def packets_ok_def crypto_ok_def)
    qed
    show thesis
    proof (rule that [OF r])
      show "\<not> session_decides_what_to_write m \<longrightarrow>
        links_ok (p + 1) (least_unacked (RemoveObsoletePackets N x1 m')) (unacked_packets (RemoveObsoletePackets N x1 m'))
      \<and> crypto_ok (unacked_packets (RemoveObsoletePackets N x1 m'))
      \<and> crypto_packets (unacked_packets (RemoveObsoletePackets N x1 m')) + (if ti_has_crypto_handshake info1 then 1 else 0) = crypto_packets ?ps
      \<and> (ti_has_crypto_handshake info1 \<longrightarrow> retransmittable_frames info1 \<noteq> [])
      \<and> held_frames (unacked_packets (RemoveObsoletePackets N x1 m')) + mset (retransmittable_frames info1) = held_frames ?ps"
        using s(2-4) rest by simp
    qed (use s(1,5,6) fb end_ info in \<open>simp_all add: same info1_def\<close>)
  qed
qed

lemma AddSentPacket_ok:
  assumes ok: "unacked_ok m" and s: "sendable m packet old"
  obtains packet' m' x' where "AddSentPacket N packet old type t flight (m, x) = Some (packet', m', x')" "unacked_ok m'"
    "session_decides_what_to_write m' = session_decides_what_to_write m" "largest_sent_packet m' = sp_packet_number packet"
    "\<not> session_decides_what_to_write m \<longrightarrow> held_frames (unacked_packets m') =
       held_frames (unacked_packets m) + (if IsInitialized old then {#} else mset (sp_retransmittable_frames packet))"
proof -
  let ?p = "sp_packet_number packet"
  note nk = unacked_ok_D(1) [OF ok]
  note b = numbers_ok_bounds [OF nk]
  have p: "end_number m \<le> ?p" "?p < packet_limit" using s by (simp_all add: sendable_def)
  note f = fill_never_sent_ok [OF ok p]
  define info where "info = (new_QuicTransmissionInfo (sp_encryption_level packet) (sp_packet_number_length packet) type t
    (encrypted_length packet) (sp_has_crypto_handshake packet) (sp_num_padding_bytes packet))\<lparr>ti_largest_acked := sp_largest_acked packet\<rparr>"
  have info: "\<not> IsInitialized (ti_retransmission info)" "retransmittable_frames info = []" "\<not> in_flight info"
    "ti_has_crypto_handshake info = sp_has_crypto_handshake packet" "ti_bytes_sent info = encrypted_length packet"
    by (simp_all add: info_def new_QuicTransmissionInfo_def IsInitialized_def)
  define m2 where "m2 = (fill_never_sent ?p m)\<lparr>largest_sent_largest_acked :=
    UpdateMax (largest_sent_largest_acked (fill_never_sent ?p m)) (sp_largest_acked packet)\<rparr>"
  have m2: "packets_ok ?p m2" "least_unacked m2 + length (unacked_packets m2) = ?p" "least_unacked m2 = least_unacked m"
    "largest_sent_packet m2 = largest_sent_packet m" "session_decides_what_to_write m2 = session_decides_what_to_write m"
    "held_frames (unacked_packets m2) = held_frames (unacked_packets m)"
    "supports_multiple_packet_number_spaces m2 = supports_multiple_packet_number_spaces m"
    using f(1-3) by (simp_all add: m2_def packets_ok_def numbers_ok_def)
  define s where "s = GetPacketNumberSpace m (sp_encryption_level packet)"
  have sp: "s \<noteq> NUM_PACKET_NUMBER_SPACES"
    using s by (auto simp: s_def sendable_def GetPacketNumberSpace_def Utils_GetPacketNumberSpace_def split: EncryptionLevel.splits)
  obtain info1 m3 x1 where tr: "(if IsInitialized old then TransferRetransmissionInfo N old ?p type info (m2, x) else Some (info, m2, x))
      = Some (info1, m3, x1)"
    and m3: "numbers_ok m3" "least_unacked m3 + length (unacked_packets m3) = ?p"
    "bytes_in_flight m3 = flight_bytes (unacked_packets m3)"
    "session_decides_what_to_write m3 = session_decides_what_to_write m"
    and i1: "\<not> IsInitialized (ti_retransmission info1)" "\<not> in_flight info1" "ti_bytes_sent info1 = encrypted_length packet"
    and own: "\<not> session_decides_what_to_write m \<longrightarrow>
       links_ok (?p + 1) (least_unacked m3) (unacked_packets m3) \<and> crypto_ok (unacked_packets m3)
     \<and> (IsInitialized old \<longrightarrow>
         crypto_packets (unacked_packets m3) + (if ti_has_crypto_handshake info1 then 1 else 0) = pending_crypto_packet_count m3
       \<and> (ti_has_crypto_handshake info1 \<longrightarrow> retransmittable_frames info1 \<noteq> [])
       \<and> held_frames (unacked_packets m3) + mset (retransmittable_frames info1) = held_frames (unacked_packets m))
     \<and> (\<not> IsInitialized old \<longrightarrow> info1 = info \<and> crypto_packets (unacked_packets m3) = pending_crypto_packet_count m3
         \<and> held_frames (unacked_packets m3) = held_frames (unacked_packets m))"
  proof (cases "IsInitialized old")
    case False
    have "links_ok (?p + 1) (least_unacked m2) (unacked_packets m2)" if "\<not> session_decides_what_to_write m"
      using m2(1,5) that by (auto simp: packets_ok_def links_ok_def)
    then show thesis using that [of info m2 x] False m2 info by (auto simp: packets_ok_def)
  next
    case True
    have o: "old < end_number m" "ti_has_crypto_handshake info \<longrightarrow> least_unacked m2 \<le> old \<and> old \<le> largest_sent_packet m2"
      using s True ok b(2) by (auto simp: sendable_def info(4) m2(3,4) unacked_ok_def split: if_splits)
    have o': "least_unacked m2 \<le> old \<and> old < least_unacked m2 + length (unacked_packets m2)
        \<or> old < least_unacked m2 \<or> largest_sent_packet m2 < old"
      using o(1) p(1) m2(2) by linarith
    show thesis
      by (rule TransferRetransmissionInfo_ok [OF m2(1,2) p(2) o' info(1,2) o(2), of N type x])
        (rule that; use m2 True info in \<open>auto simp: packets_ok_def\<close>)
  qed
  define info2 where "info2 = (if flight then info1\<lparr>in_flight := True\<rparr> else info1)"
  define info3 where "info3 = (if IsInitialized old then info2 else info2\<lparr>retransmittable_frames := sp_retransmittable_frames packet\<rparr>)"
  obtain packet' m' where r: "AddSentPacket N packet old type t flight (m, x) = Some (packet', m', x1)"
    and m': "unacked_packets m' = unacked_packets m3 @ [info3]" "least_unacked m' = least_unacked m3" "largest_sent_packet m' = ?p"
      "session_decides_what_to_write m' = session_decides_what_to_write m3"
      "bytes_in_flight m' = (if flight then u64_add (bytes_in_flight m3) (unat (encrypted_length packet)) else bytes_in_flight m3)"
      "pending_crypto_packet_count m' = (if \<not> IsInitialized old \<and> sp_has_crypto_handshake packet
         then u64_add (pending_crypto_packet_count m3) 1 else pending_crypto_packet_count m3)"
  proof -
    have "AddSentPacket N packet old type t flight (m, x) \<noteq> None"
      unfolding AddSentPacket_def Let_def prod.case info_def [symmetric] m2_def [symmetric] s_def [symmetric] tr
      using sp by simp
    then obtain packet' m' x' where r: "AddSentPacket N packet old type t flight (m, x) = Some (packet', m', x')" by auto
    then have e: "unacked_packets m' = unacked_packets m3 @ [info3] \<and> least_unacked m' = least_unacked m3
      \<and> largest_sent_packet m' = ?p \<and> session_decides_what_to_write m' = session_decides_what_to_write m3
      \<and> bytes_in_flight m' = (if flight then u64_add (bytes_in_flight m3) (unat (encrypted_length packet)) else bytes_in_flight m3)
      \<and> pending_crypto_packet_count m' = (if \<not> IsInitialized old \<and> sp_has_crypto_handshake packet
         then u64_add (pending_crypto_packet_count m3) 1 else pending_crypto_packet_count m3) \<and> x' = x1"
      unfolding AddSentPacket_def Let_def prod.case info_def [symmetric] m2_def [symmetric] s_def [symmetric] tr
      using sp by (auto simp: info2_def info3_def split: if_splits)
    then show thesis using that r by simp
  qed
  have len: "least_unacked m' + length (unacked_packets m') = ?p + 1" using m3(2) m'(1,2) by simp
  have nk': "numbers_ok m'" using m3(1) len p(2) m'(2) by (simp add: numbers_ok_def)
  have i3: "in_flight info3 = flight" "ti_bytes_sent info3 = encrypted_length packet" "\<not> IsInitialized (ti_retransmission info3)"
    "ti_has_crypto_handshake info3 = ti_has_crypto_handshake info1"
    "retransmittable_frames info3 = (if IsInitialized old then retransmittable_frames info1 else sp_retransmittable_frames packet)"
    using i1 by (simp_all add: info2_def info3_def)
  have "flight_bytes (unacked_packets m') = flight_bytes (unacked_packets m3) + (if flight then unat (encrypted_length packet) else 0)"
    using i3(1,2) by (simp add: m'(1))
  then have "bytes_in_flight m' = flight_bytes (unacked_packets m')"
    using m'(5) m3(3) numbers_ok_bounds(3) [OF nk'] by (cases flight) (simp_all add: u64_add_small)
  moreover have "links_ok (?p + 1) (least_unacked m') (unacked_packets m') \<and> crypto_ok (unacked_packets m')
      \<and> pending_crypto_packet_count m' = crypto_packets (unacked_packets m')
      \<and> held_frames (unacked_packets m') =
       held_frames (unacked_packets m) + (if IsInitialized old then {#} else mset (sp_retransmittable_frames packet))"
    if sd: "\<not> session_decides_what_to_write m"
  proof -
    have l: "links_ok (?p + 1) (least_unacked m') (unacked_packets m')"
      using own sd i3(3) m'(1,2) by (auto simp: links_ok_def nth_append less_Suc_eq)
    have c: "crypto_ok (unacked_packets m')"
      using own sd i3(4,5) m'(1) info(4) s by (auto simp: crypto_ok_def sendable_def)
    have n: "crypto_packets (unacked_packets m3) < 2 ^ 63" using numbers_ok_bounds(4) [OF m3(1)] by simp
    have "pending_crypto_packet_count m' = crypto_packets (unacked_packets m')"
      using own sd i3(4) n by (auto simp: m'(1,6) info(4) u64_add_small)
    moreover have "held_frames (unacked_packets m') =
       held_frames (unacked_packets m) + (if IsInitialized old then {#} else mset (sp_retransmittable_frames packet))"
      using own sd i3(5) by (simp add: m'(1))
    ultimately show ?thesis using l c by simp
  qed
  moreover have "IsInitialized ?p" using p(2) by (simp add: IsInitialized_def UninitializedPacketNumber_def U64_MAX_def packet_limit_def)
  ultimately have "unacked_ok m'"
    unfolding unacked_ok_def packets_ok_def len using nk' m'(3,4) m3(4) by simp
  then show thesis using that [OF r] m'(3,4) m3(4) \<open>\<not> session_decides_what_to_write m \<Longrightarrow> _\<close> by simp
qed

section \<open>Runs\<close>

text \<open>
  What a connection does with its map. The state of the session changes freely between the calls. Packets are sent with
  growing numbers; a retransmission names an old packet, which may have been forgotten in the meantime unless the
  retransmission carries crypto data.
\<close>

inductive unacked_run :: "'x SessionNotifier \<Rightarrow> QuicUnackedPacketMap \<times> 'x \<Rightarrow> bool" for N where
  start: "unacked_run N ((if multiple then EnableMultiplePacketNumberSpacesSupport else id)
            (SetSessionDecideWhatToWrite decides ((if notifier then SetSessionNotifier else id) (new_QuicUnackedPacketMap p))), x)"
| session: "unacked_run N (m, x) \<Longrightarrow> unacked_run N (m, x')"
| send: "unacked_run N (m, x) \<Longrightarrow> sendable m packet old \<Longrightarrow>
    AddSentPacket N packet old type t flight (m, x) = Some (packet', m', x') \<Longrightarrow> unacked_run N (m', x')"
| in_flight: "unacked_run N (m, x) \<Longrightarrow> RemoveFromInFlight p m = Some m' \<Longrightarrow> unacked_run N (m', x)"
| retransmittability: "unacked_run N (m, x) \<Longrightarrow> least_unacked m \<le> p \<Longrightarrow> p < end_number m \<Longrightarrow>
    RemoveRetransmittability p m = Some m' \<Longrightarrow> unacked_run N (m', x)"
| cancel: "unacked_run N (m, x) \<Longrightarrow> \<not> session_decides_what_to_write m \<Longrightarrow>
    CancelRetransmissionsForStream s m = Some m' \<Longrightarrow> unacked_run N (m', x)"
| obsolete: "unacked_run N (m, x) \<Longrightarrow> unacked_run N (RemoveObsoletePackets N x m, x)"
| largest_acked: "unacked_run N (m, x) \<Longrightarrow> unacked_run N (IncreaseLargestAcked n m, x)"
| largest_acked_of: "unacked_run N (m, x) \<Longrightarrow> unacked_run N (MaybeUpdateLargestAckedOfPacketNumberSpace s n m, x)"
| state: "unacked_run N (m, x) \<Longrightarrow> GetTransmissionInfo m p = Some info \<Longrightarrow>
    unacked_run N (set_TransmissionInfo p (info\<lparr>ti_state := state'\<rparr>) m, x)"
| lost: "unacked_run N (m, x) \<Longrightarrow> session_decides_what_to_write m \<Longrightarrow> GetTransmissionInfo m p = Some info \<Longrightarrow>
    unacked_run N (set_TransmissionInfo p (info\<lparr>ti_retransmission := r\<rparr>) m, x)"
| acked_frames: "unacked_run N (m, x) \<Longrightarrow> NotifyFramesAcked N info delay time (m, x) = (b, m', x') \<Longrightarrow> unacked_run N (m', x')"
| aggregate: "unacked_run N (m, x) \<Longrightarrow> MaybeAggregateAckedStreamFrame N info delay time (m, x) = (m', x') \<Longrightarrow> unacked_run N (m', x')"
| flush: "unacked_run N (m, x) \<Longrightarrow> NotifyAggregatedStreamFrameAcked N delay (m, x) = (m', x') \<Longrightarrow> unacked_run N (m', x')"

lemma set_linked_ok:
  assumes ok: "unacked_ok m" and sd: "session_decides_what_to_write m" and g: "GetTransmissionInfo m p = Some info"
  shows "unacked_ok (set_TransmissionInfo p (info\<lparr>ti_retransmission := r\<rparr>) m)"
  using ok sd flight_bytes_same [OF info_index(1) [OF g], of "info\<lparr>ti_retransmission := r\<rparr>"] info_index(2) [OF g]
  by (auto simp: unacked_ok_def packets_ok_def numbers_ok_def set_TransmissionInfo_def)

definition same_packets :: "QuicUnackedPacketMap \<Rightarrow> QuicUnackedPacketMap \<Rightarrow> bool" where
  "same_packets m' m \<longleftrightarrow> (\<exists>agg. m' = m\<lparr>aggregated_stream_frame := agg\<rparr>)"

lemma same_packets_trans: "same_packets a b \<Longrightarrow> same_packets b c \<Longrightarrow> same_packets a c"
  by (auto simp: same_packets_def)

lemma same_packets_refl: "same_packets m m"
  unfolding same_packets_def by (rule exI [of _ "aggregated_stream_frame m"]) simp

lemma flush_same: "same_packets (fst (NotifyAggregatedStreamFrameAcked N d w)) (fst w)"
  using same_packets_refl [of "fst w"] by (cases w) (auto simp: NotifyAggregatedStreamFrameAcked_def Let_def same_packets_def)

lemma same_packets_set: "same_packets (m\<lparr>aggregated_stream_frame := agg\<rparr>) m"
  by (auto simp: same_packets_def)

lemma aggregate_frame_same: "same_packets (fst (aggregate_frame N d t f w)) (fst w)"
proof (cases f)
  case (STREAM_FRAME s)
  have "same_packets (fst (NotifyAggregatedStreamFrameAcked N d ((fst w)\<lparr>aggregated_stream_frame := agg\<rparr>, x))) (fst w)" for agg x
    by (rule same_packets_trans [OF flush_same]) (simp add: same_packets_set)
  moreover have "same_packets ((fst (NotifyAggregatedStreamFrameAcked N d w))\<lparr>aggregated_stream_frame := agg\<rparr>) (fst w)" for agg
    by (rule same_packets_trans [OF same_packets_set flush_same])
  ultimately show ?thesis unfolding aggregate_frame_def Let_def STREAM_FRAME QuicFrame.case
    by (simp add: flush_same same_packets_set)
qed (simp_all add: aggregate_frame_def Let_def flush_same)

lemma aggregate_same: "same_packets (fst (MaybeAggregateAckedStreamFrame N info d t w)) (fst w)"
proof -
  have "same_packets (fst (fold (aggregate_frame N d t) fs w)) (fst w)" for fs w
  proof (induction fs arbitrary: w)
    case (Cons f fs)
    show ?case unfolding fold_Cons comp_def by (rule same_packets_trans [OF Cons.IH aggregate_frame_same])
  qed (simp add: same_packets_refl)
  then show ?thesis by (simp add: MaybeAggregateAckedStreamFrame_def same_packets_refl)
qed

lemma same_packets_ok: "same_packets m' m \<Longrightarrow> unacked_ok m \<Longrightarrow> unacked_ok m'"
  by (auto simp: same_packets_def unacked_ok_def packets_ok_def numbers_ok_def)

lemma unacked_run_ok:
  "unacked_run N w \<Longrightarrow> unacked_ok (fst w)"
proof (induction rule: unacked_run.induct)
  case (start multiple decides notifier p x)
  show ?case
    by (simp add: new_QuicUnackedPacketMap_def EnableMultiplePacketNumberSpacesSupport_def SetSessionDecideWhatToWrite_def SetSessionNotifier_def
        FirstSendingPacketNumber_def unacked_ok_def packets_ok_def numbers_ok_def links_ok_def crypto_ok_def IsInitialized_def packet_limit_def)
next
  case (send m x packet old type t flight packet' m' x')
  then show ?case using AddSentPacket_ok [of m packet old N type t flight x] by (metis fst_conv option.inject prod.inject)
next
  case (in_flight m x p m')
  then show ?case using RemoveFromInFlight_ok(1) by auto
next
  case (retransmittability m x p m')
  then show ?case
    using RemoveRetransmittability_ok [of m p] RemoveRetransmittability_session(1) [of m p m'] by (metis fst_conv option.inject)
next
  case (cancel m x s m')
  then show ?case using CancelRetransmissions_loop_ok [of m "[0..<length (unacked_packets m)]" s]
    by (auto simp: CancelRetransmissionsForStream_def)
next
  case (obsolete m x)
  then show ?case using RemoveObsoletePackets_ok by simp
next
  case (largest_acked m x n)
  then show ?case by (auto simp: IncreaseLargestAcked_def unacked_ok_def packets_ok_def numbers_ok_def)
next
  case (largest_acked_of m x s n)
  then show ?case by (auto simp: MaybeUpdateLargestAckedOfPacketNumberSpace_def unacked_ok_def packets_ok_def numbers_ok_def)
next
  case (state m x p info state')
  then show ?case using mark_state_ok by simp
next
  case (lost m x p info r)
  then show ?case using set_linked_ok by simp
next
  case (acked_frames m x info delay time b m' x')
  then show ?case by (auto simp: NotifyFramesAcked_def split: if_splits prod.splits)
next
  case (aggregate m x info delay time m' x')
  then show ?case using same_packets_ok aggregate_same [of N info delay time "(m, x)"] by simp
next
  case (flush m x delay m' x')
  then show ?case using same_packets_ok flush_same [of N delay "(m, x)"] by simp
qed simp

section \<open>Properties\<close>

lemma crypto_packets_filter: "crypto_packets ps = length (filter ti_has_crypto_handshake ps)"
  by (induction ps) simp_all

lemma IsUnacked_iff:
  assumes "numbers_ok m" "least_unacked m \<le> p" "p < least_unacked m + length (unacked_packets m)"
  shows "IsUnacked N x m p \<longleftrightarrow> \<not> IsPacketUseless N x m p (unacked_packets m ! (p - least_unacked m))"
  using assms numbers_ok_bounds(2) [OF assms(1)] tracked_info(3) [OF assms] by (simp add: IsUnacked_def)

lemma IsPacketUseless_numbers [simp]:
  "IsPacketUseless N x (m\<lparr>least_unacked := l, unacked_packets := ps\<rparr>) p info = IsPacketUseless N x m p info"
  by (simp add: IsPacketUseless_def IsPacketUsefulForMeasuringRtt_def IsPacketUsefulForRetransmittableData_def HasRetransmittableFrames_def Let_def)



section \<open>An example\<close>

text \<open>A handshake packet 1 and, after a gap, its retransmission as packet 3.\<close>

definition example_notifier :: "unit SessionNotifier" where
  "example_notifier = \<lparr>OnFrameAcked = (\<lambda>_ _ _ x. (True, x)), notify_OnStreamFrameRetransmitted = (\<lambda>_ x. x), OnFrameLost = (\<lambda>_ x. x),
     notify_RetransmitFrames = (\<lambda>_ _ w. w), IsFrameOutstanding = (\<lambda>_ _. True), HasUnackedCryptoData = (\<lambda>_. False),
     notify_HasUnackedStreamData = (\<lambda>_. False)\<rparr>"

definition example_packet :: "QuicPacketNumber \<Rightarrow> QuicFrame list \<Rightarrow> SerializedPacket" where
  "example_packet n frames = \<lparr>encrypted_length = 1200, sp_retransmittable_frames = frames, sp_has_crypto_handshake = frames \<noteq> [],
     sp_num_padding_bytes = 0, sp_packet_number = n, sp_packet_number_length = 1, sp_encryption_level = ENCRYPTION_INITIAL,
     sp_largest_acked = UninitializedPacketNumber\<rparr>"

definition example_map :: QuicUnackedPacketMap where
  "example_map = fst (snd (the (AddSentPacket example_notifier (example_packet 1 [MTU_DISCOVERY_FRAME]) UninitializedPacketNumber
     NOT_RETRANSMISSION 10 True (new_QuicUnackedPacketMap IS_CLIENT, ()))))"

definition example_map' :: QuicUnackedPacketMap where
  "example_map' = fst (snd (the (AddSentPacket example_notifier (example_packet 3 []) 1 HANDSHAKE_RETRANSMISSION 20 True (example_map, ()))))"

lemmas example_map_eval = example_map_def example_map'_def AddSentPacket_def Let_def fill_never_sent_def end_number_def pn_plus_def u64_add_def
  new_QuicUnackedPacketMap_def FirstSendingPacketNumber_def example_packet_def GetPacketNumberSpace_def IsInitialized_def
  UninitializedPacketNumber_def U64_MAX_def new_QuicTransmissionInfo_def UpdateMax_def TransferRetransmissionInfo_def
  GetTransmissionInfo_def packet_index_def u64_sub_def set_TransmissionInfo_def RemoveObsoletePackets_def IsPacketUseless_def
  IsPacketUsefulForMeasuringRtt_def IsPacketUsefulForCongestionControl_def IsAckable_def default_QuicTransmissionInfo_def

lemma example_map_eq:
  "AddSentPacket example_notifier (example_packet 1 [MTU_DISCOVERY_FRAME]) UninitializedPacketNumber
     NOT_RETRANSMISSION 10 True (new_QuicUnackedPacketMap IS_CLIENT, ())
   = Some (example_packet 1 [MTU_DISCOVERY_FRAME]\<lparr>sp_retransmittable_frames := []\<rparr>, example_map, ())"
  by (simp add: example_map_eval)

lemma example_map'_eq:
  "AddSentPacket example_notifier (example_packet 3 []) 1 HANDSHAKE_RETRANSMISSION 20 True (example_map, ())
   = Some (example_packet 3 [], example_map', ())"
  by (simp add: example_map_eval)

lemma example_map_facts:
  "least_unacked example_map = 1" "end_number example_map = 2" "least_unacked example_map' = 1" "largest_sent_packet example_map' = 3"
  "\<not> session_decides_what_to_write example_map'"
  by (simp_all add: example_map_eval)

lemma example_unacked_run: "unacked_run example_notifier (example_map', ())"
proof -
  have "unacked_run example_notifier (new_QuicUnackedPacketMap IS_CLIENT, ())"
    using unacked_run.start [of example_notifier False False False IS_CLIENT "()"]
    by (simp add: SetSessionDecideWhatToWrite_def new_QuicUnackedPacketMap_def IsInitialized_def)
  then have r: "unacked_run example_notifier (example_map, ())"
    by (rule unacked_run.send [OF _ _ example_map_eq])
      (simp add: sendable_def example_packet_def packet_limit_def end_number_def new_QuicUnackedPacketMap_def FirstSendingPacketNumber_def
        pn_plus_def u64_add_def IsInitialized_def)
  then show ?thesis
    by (rule unacked_run.send [OF _ _ example_map'_eq])
      (simp add: sendable_def example_packet_def packet_limit_def example_map_facts)
qed



end
