(* ===== verification/Quic_Ack_Aggregation.thy ===== *)
theory Quic_Ack_Aggregation
  imports Quic_Unacked_Packets
begin

text \<open>
  The map of unacknowledged packets does not tell the session of every acknowledged stream frame: contiguous frames are
  first put together, over several packets, and reported as one (\<open>MaybeAggregateAckedStreamFrame\<close>,
  \<open>NotifyAggregatedStreamFrameAcked\<close>). Here this is compared with reporting each frame on its own
  (\<open>NotifyFramesAcked\<close>), for every session that treats acknowledged ranges as the streams do.
\<close>

section \<open>What the session promises\<close>

definition ack :: "'x SessionNotifier \<Rightarrow> QuicFrame \<Rightarrow> 'x \<Rightarrow> 'x" where
  "ack N f x = snd (OnFrameAcked N f 0 0 x)"

text \<open>
  The times are only passed on for statistics; of a stream frame only the stream, the range and the FIN matter; and two
  ranges that follow each other are acknowledged as their union is.
\<close>

definition joinable :: "QuicStreamFrame \<Rightarrow> QuicStreamFrame \<Rightarrow> bool" where
  "joinable f g \<longleftrightarrow> \<not> sf_fin f \<and> sf_stream_id f = sf_stream_id g \<and> sf_offset g = sf_offset f + ucast (sf_data_length f)
     \<and> unat (sf_data_length f) + unat (sf_data_length g) < 2 ^ 16
     \<and> unat (sf_offset f) + unat (sf_data_length f) \<le> 2 ^ 62"

definition joined :: "QuicStreamFrame \<Rightarrow> QuicStreamFrame \<Rightarrow> QuicStreamFrame" where
  "joined f g = f\<lparr>sf_data_length := sf_data_length f + sf_data_length g, sf_fin := sf_fin g\<rparr>"

definition ignores_times :: "'x SessionNotifier \<Rightarrow> bool" where
  "ignores_times N \<longleftrightarrow> (\<forall>f d t x. snd (OnFrameAcked N f d t x) = ack N f x)"

definition ignores_buffers :: "'x SessionNotifier \<Rightarrow> bool" where
  "ignores_buffers N \<longleftrightarrow> (\<forall>f b x. ack N (STREAM_FRAME (f\<lparr>sf_data_buffer := b\<rparr>)) x = ack N (STREAM_FRAME f) x)"

definition joins_ranges :: "'x SessionNotifier \<Rightarrow> bool" where
  "joins_ranges N \<longleftrightarrow> (\<forall>f g x. joinable f g \<longrightarrow>
     ack N (STREAM_FRAME g) (ack N (STREAM_FRAME f) x) = ack N (STREAM_FRAME (joined f g)) x)"

lemma ack_frame_cong:
  assumes "ignores_buffers N" "sf_stream_id f = sf_stream_id g" "sf_offset f = sf_offset g"
    "sf_data_length f = sf_data_length g" "sf_fin f = sf_fin g"
  shows "ack N (STREAM_FRAME f) x = ack N (STREAM_FRAME g) x"
proof -
  have "f\<lparr>sf_data_buffer := None\<rparr> = g\<lparr>sf_data_buffer := None\<rparr>" using assms(2-5) by (cases f; cases g) simp
  then show ?thesis using assms(1) unfolding ignores_buffers_def by metis
qed

section \<open>Pending acknowledgements\<close>

definition stream_frame_ok :: "QuicStreamFrame \<Rightarrow> bool" where
  "stream_frame_ok f \<longleftrightarrow> sf_stream_id f \<noteq> -1 \<and> unat (sf_offset f) + unat (sf_data_length f) \<le> 2 ^ 62"

lemma joined_ok:
  assumes "joinable f g" "stream_frame_ok g"
  shows "stream_frame_ok (joined f g)"
proof -
  have o: "unat (sf_offset g) = unat (sf_offset f) + unat (sf_data_length f)"
    using assms(1) unat_less_power [of "sf_data_length f"] by (simp add: joinable_def unat_word_ariths unat_ucast_mod)
  have "unat (sf_data_length f + sf_data_length g) = unat (sf_data_length f) + unat (sf_data_length g)"
    using assms(1) by (simp add: joinable_def unat_word_ariths)
  then show ?thesis using o assms by (simp add: stream_frame_ok_def joined_def joinable_def)
qed

text \<open>The session with the pending acknowledgement carried out.\<close>

definition settled :: "'x SessionNotifier \<Rightarrow> QuicUnackedPacketMap \<times> 'x \<Rightarrow> 'x \<Rightarrow> bool" where
  "settled N w y \<longleftrightarrow> (let agg = aggregated_stream_frame (fst w) in has_session_notifier (fst w)
     \<and> (if sf_stream_id agg = -1 then y = snd w
        else \<not> sf_fin agg \<and> stream_frame_ok agg \<and> y = ack N (STREAM_FRAME agg) (snd w)))"

lemma NotifyAggregated_settled:
  assumes "ignores_times N" "settled N w y"
  shows "snd (NotifyAggregatedStreamFrameAcked N d w) = y"
    "has_session_notifier (fst (NotifyAggregatedStreamFrameAcked N d w))"
    "sf_stream_id (aggregated_stream_frame (fst (NotifyAggregatedStreamFrameAcked N d w))) = -1"
  using assms by (cases w; auto simp: settled_def NotifyAggregatedStreamFrameAcked_def ignores_times_def Let_def split: if_splits)+

lemma wrap_iff: "WillStreamFrameLengthSumWrapAround a b \<longleftrightarrow> \<not> unat a + unat b < 2 ^ 16"
proof -
  have "unat ((-1) - a) = 2 ^ 16 - 1 - unat a"
    using unat_sub [of a "-1"] by (simp add: unsigned_minus_1_eq_mask mask_eq_exp_minus_1)
  then show ?thesis using unat_less_power [of a] by (auto simp: WillStreamFrameLengthSumWrapAround_def word_less_nat_alt)
qed

lemma aggregate_frame_settled:
  assumes N: "ignores_times N" "ignores_buffers N" "joins_ranges N" and s: "settled N w y"
    and f: "\<forall>g. frame = STREAM_FRAME g \<longrightarrow> stream_frame_ok g"
  shows "settled N (aggregate_frame N d t frame w) (ack N frame y)"
proof -
  let ?flush = "NotifyAggregatedStreamFrameAcked N d"
  note fl = NotifyAggregated_settled [OF N(1)]
  have times: "snd (OnFrameAcked N h d t x) = ack N h x" for h x using N(1) by (simp add: ignores_times_def)
  show ?thesis
  proof (cases "\<exists>g. frame = STREAM_FRAME g")
    case False
    then have "aggregate_frame N d t frame w = (fst (?flush w), snd (OnFrameAcked N frame d t (snd (?flush w))))"
      by (cases frame) (simp_all add: aggregate_frame_def Let_def)
    then show ?thesis using fl [OF s, of d] times by (simp add: settled_def Let_def)
  next
    case True
    then obtain g where g: "frame = STREAM_FRAME g" by blast
    let ?agg = "aggregated_stream_frame (fst w)"
    have ok: "stream_frame_ok g" and i: "sf_stream_id g \<noteq> -1" using f g by (simp_all add: stream_frame_ok_def)
    show ?thesis
    proof (cases "can_aggregate ?agg g")
      case True
      then have agg: "sf_stream_id ?agg \<noteq> -1" "joinable ?agg g"
        using s i by (auto simp: can_aggregate_def joinable_def wrap_iff settled_def stream_frame_ok_def Let_def split: if_splits)
      then have y: "ack N frame y = ack N (STREAM_FRAME (joined ?agg g)) (snd w)"
        using s N(3) by (simp add: settled_def joins_ranges_def g Let_def)
      let ?w = "((fst w)\<lparr>aggregated_stream_frame := joined ?agg g\<rparr>, snd w)"
      have a: "aggregate_frame N d t frame w = (if sf_fin g then ?flush ?w else ?w)"
        using True by (simp add: aggregate_frame_def g Let_def joined_def)
      have "settled N ?w (ack N frame y)" if "\<not> sf_fin g"
        using s y agg(1) that joined_ok [OF agg(2) ok] by (simp add: settled_def Let_def joined_def)
      moreover have "settled N (?flush ?w) (ack N frame y)" if "sf_fin g"
        using s y agg(1) times
        by (simp add: settled_def Let_def joined_def NotifyAggregatedStreamFrameAcked_def N(1) [unfolded ignores_times_def])
      ultimately show ?thesis using a by simp
    next
      case False
      note w1 = fl [OF s, of d]
      let ?new = "(aggregated_stream_frame (fst (?flush w)))
          \<lparr>sf_stream_id := sf_stream_id g, sf_offset := sf_offset g, sf_data_length := sf_data_length g, sf_fin := sf_fin g\<rparr>"
      have new: "stream_frame_ok ?new" "sf_stream_id ?new \<noteq> -1" using ok i by (simp_all add: stream_frame_ok_def)
      have e: "ack N frame y = ack N (STREAM_FRAME ?new) y"
        unfolding g by (rule ack_frame_cong [OF N(2)]) simp_all
      have a: "aggregate_frame N d t frame w = (if sf_fin g then (fst (?flush w), snd (OnFrameAcked N frame d t (snd (?flush w))))
          else ((fst (?flush w))\<lparr>aggregated_stream_frame := ?new\<rparr>, snd (?flush w)))"
        using False by (simp add: aggregate_frame_def g Let_def)
      show ?thesis
      proof (cases "sf_fin g")
        case True
        then show ?thesis using a w1 times by (simp add: settled_def Let_def)
      next
        case False
        then show ?thesis unfolding a settled_def Let_def using w1 e new by simp
      qed
    qed
  qed
qed

section \<open>Equivalence\<close>

lemma fold_settled:
  assumes "ignores_times N" "ignores_buffers N" "joins_ranges N" "settled N w y"
    "\<forall>g. STREAM_FRAME g \<in> set frames \<longrightarrow> stream_frame_ok g"
  shows "settled N (fold (aggregate_frame N d t) frames w) (fold (ack N) frames y)"
  using assms(4,5)
proof (induction frames arbitrary: w y)
  case (Cons f frames)
  show ?case unfolding fold_Cons comp_def
    by (rule Cons.IH) (use Cons.prems aggregate_frame_settled [OF assms(1-3)] in auto)
qed simp

lemma NotifyFramesAcked_ack:
  assumes "ignores_times N" "has_session_notifier m"
  shows "fst (snd (NotifyFramesAcked N info d t (m, x))) = m"
    "snd (snd (NotifyFramesAcked N info d t (m, x))) = fold (ack N) (retransmittable_frames info) x"
proof -
  have "snd (fold (\<lambda>frame (b, x). case OnFrameAcked N frame d t x of (acked, x') \<Rightarrow> (b \<or> acked, x')) frames (b, x)) = fold (ack N) frames x"
    for frames b x
  proof (induction frames arbitrary: b x)
    case (Cons f frames)
    have "snd (OnFrameAcked N f d t x) = ack N f x" using assms(1) by (simp add: ignores_times_def)
    then show ?case using Cons.IH by (simp split: prod.split) auto
  qed simp
  then show "fst (snd (NotifyFramesAcked N info d t (m, x))) = m"
    "snd (snd (NotifyFramesAcked N info d t (m, x))) = fold (ack N) (retransmittable_frames info) x"
    using assms(2) by (simp_all add: NotifyFramesAcked_def split: prod.split) (metis snd_conv)+
qed

text \<open>The two ways to report a list of acknowledged packets, each with its delay and time of receipt.\<close>

definition report_aggregated ::
    "'x SessionNotifier \<Rightarrow> (QuicTransmissionInfo \<times> int \<times> int) list \<Rightarrow> int \<Rightarrow> QuicUnackedPacketMap \<times> 'x \<Rightarrow> QuicUnackedPacketMap \<times> 'x" where
  "report_aggregated N packets delay w = NotifyAggregatedStreamFrameAcked N delay
     (fold (\<lambda>(info, d, t). MaybeAggregateAckedStreamFrame N info d t) packets w)"

definition report_each ::
    "'x SessionNotifier \<Rightarrow> (QuicTransmissionInfo \<times> int \<times> int) list \<Rightarrow> QuicUnackedPacketMap \<times> 'x \<Rightarrow> QuicUnackedPacketMap \<times> 'x" where
  "report_each N packets w = fold (\<lambda>(info, d, t) w. snd (NotifyFramesAcked N info d t w)) packets w"


section \<open>An example\<close>

text \<open>A session that keeps the acknowledged bytes and FINs of its streams, and the other frames in their order.\<close>

definition stream_bytes :: "QuicStreamFrame \<Rightarrow> (u32 \<times> nat) set" where
  "stream_bytes f = {sf_stream_id f} \<times> {unat (sf_offset f)..<unat (sf_offset f) + unat (sf_data_length f)}"

type_synonym acked_log = "(u32 \<times> nat) set \<times> (u32 \<times> nat) set \<times> QuicFrame list"

definition log_acked :: "QuicFrame \<Rightarrow> acked_log \<Rightarrow> acked_log" where
  "log_acked frame = (\<lambda>(bytes, fins, others).
     case frame of
       STREAM_FRAME f \<Rightarrow> (bytes \<union> stream_bytes f,
         if sf_fin f then insert (sf_stream_id f, unat (sf_offset f) + unat (sf_data_length f)) fins else fins, others)
     | _ \<Rightarrow> (bytes, fins, others @ [frame]))"

definition logging_notifier :: "acked_log SessionNotifier" where
  "logging_notifier = \<lparr>OnFrameAcked = (\<lambda>f d t x. (True, log_acked f x)), notify_OnStreamFrameRetransmitted = (\<lambda>_ x. x),
     OnFrameLost = (\<lambda>_ x. x), notify_RetransmitFrames = (\<lambda>_ _ w. w), IsFrameOutstanding = (\<lambda>_ _. True),
     HasUnackedCryptoData = (\<lambda>_. False), notify_HasUnackedStreamData = (\<lambda>_. False)\<rparr>"

lemma logging_notifier_ok: "ignores_times logging_notifier" "ignores_buffers logging_notifier" "joins_ranges logging_notifier"
proof -
  show "ignores_times logging_notifier" "ignores_buffers logging_notifier"
    by (auto simp: ignores_times_def ignores_buffers_def ack_def logging_notifier_def log_acked_def stream_bytes_def)
  have "log_acked (STREAM_FRAME g) (log_acked (STREAM_FRAME f) x) = log_acked (STREAM_FRAME (joined f g)) x" if j: "joinable f g" for f g x
  proof -
    have o: "unat (sf_offset g) = unat (sf_offset f) + unat (sf_data_length f)"
      using j unat_less_power [of "sf_data_length f"] by (simp add: joinable_def unat_word_ariths unat_ucast_mod)
    have l: "unat (sf_data_length f + sf_data_length g) = unat (sf_data_length f) + unat (sf_data_length g)"
      using j by (simp add: joinable_def unat_word_ariths)
    have "stream_bytes (joined f g) = stream_bytes f \<union> stream_bytes g"
      using j o l by (auto simp: stream_bytes_def joined_def joinable_def)
    then show ?thesis using j o l by (cases x) (auto simp: log_acked_def joinable_def joined_def)
  qed
  then show "joins_ranges logging_notifier" by (simp add: joins_ranges_def ack_def logging_notifier_def)
qed

definition example_acked :: "u64 \<Rightarrow> bool \<Rightarrow> QuicTransmissionInfo \<times> int \<times> int" where
  "example_acked offset fin = (default_QuicTransmissionInfo\<lparr>retransmittable_frames :=
     [STREAM_FRAME \<lparr>sf_fin = fin, sf_data_length = 100, sf_stream_id = 4, sf_data_buffer = None, sf_offset = offset\<rparr>]\<rparr>, 5, 7)"


end
