(* ===== verification/Quic_Loss_Detection.thy ===== *)
theory Quic_Loss_Detection
  imports Quic_Unacked_Packets
begin

text \<open>
  Detection of lost packets: src/quic/core/congestion_control/general_loss_algorithm.cc for one packet number space and
  uber_loss_algorithm.cc for all of them. Times and durations are microseconds; of the round trip statistics the values
  that are read are kept. The feature flags are a record. An access out of the range of the map is \<open>None\<close>.
\<close>

section \<open>State\<close>

datatype LossDetectionType = kNack | kTime | kAdaptiveTime | kLazyFack

definition kNumberOfNacksBeforeRetransmission :: nat where
  "kNumberOfNacksBeforeRetransmission = 3"

definition kMinLossDelayMs :: int where
  "kMinLossDelayMs = 5"

definition kDefaultLossDelayShift :: nat where
  "kDefaultLossDelayShift = 2"

definition kDefaultAdaptiveLossDelayShift :: nat where
  "kDefaultAdaptiveLossDelayShift = 4"

record RttStats =
  latest_rtt :: int
  smoothed_rtt :: int
  previous_srtt :: int

record LossFlags =
  quic_eighth_rtt_loss_detection :: bool
  quic_fix_packets_acked :: bool
  quic_fix_adaptive_time_loss :: bool

record AckedPacket =
  ap_packet_number :: QuicPacketNumber
  ap_bytes_acked :: u16
  ap_receive_timestamp :: int

record LostPacket =
  lp_packet_number :: QuicPacketNumber
  lp_bytes_lost :: u16

record GeneralLossAlgorithm =
  loss_detection_timeout :: int
  largest_sent_on_spurious_retransmit :: QuicPacketNumber
  loss_type :: LossDetectionType
  reordering_shift :: nat
  largest_previously_acked :: QuicPacketNumber
  least_in_flight :: QuicPacketNumber
  packet_number_space :: PacketNumberSpace

definition SetLossDetectionType :: "LossFlags \<Rightarrow> LossDetectionType \<Rightarrow> GeneralLossAlgorithm \<Rightarrow> GeneralLossAlgorithm" where
  "SetLossDetectionType F type a =
     (let shift = (if type = kAdaptiveTime then kDefaultAdaptiveLossDelayShift else kDefaultLossDelayShift)
      in a\<lparr>loss_detection_timeout := 0, largest_sent_on_spurious_retransmit := UninitializedPacketNumber, loss_type := type,
           reordering_shift := (if quic_eighth_rtt_loss_detection F \<and> type = kTime then 3 else shift),
           largest_previously_acked := UninitializedPacketNumber\<rparr>)"

definition new_GeneralLossAlgorithm :: "LossFlags \<Rightarrow> LossDetectionType \<Rightarrow> GeneralLossAlgorithm" where
  "new_GeneralLossAlgorithm F type = SetLossDetectionType F type
     \<lparr>loss_detection_timeout = 0, largest_sent_on_spurious_retransmit = UninitializedPacketNumber, loss_type = type,
      reordering_shift = 0, largest_previously_acked = UninitializedPacketNumber, least_in_flight = 1,
      packet_number_space = NUM_PACKET_NUMBER_SPACES\<rparr>"

definition SetPacketNumberSpace :: "PacketNumberSpace \<Rightarrow> GeneralLossAlgorithm \<Rightarrow> GeneralLossAlgorithm" where
  "SetPacketNumberSpace s a =
     (if packet_number_space a \<noteq> NUM_PACKET_NUMBER_SPACES then a else a\<lparr>packet_number_space := s\<rparr>)"

section \<open>Detection\<close>

text \<open>The step over acknowledged packets at the start.\<close>

fun skip_acked :: "AckedPacket list \<Rightarrow> QuicPacketNumber \<Rightarrow> QuicPacketNumber" where
  "skip_acked [] least = least"
| "skip_acked (acked # packets) least =
     (if ap_packet_number acked \<noteq> least then least else skip_acked packets (pn_inc least))"

definition loss_delay :: "GeneralLossAlgorithm \<Rightarrow> RttStats \<Rightarrow> int" where
  "loss_delay a rtt =
     (let max_rtt = max (previous_srtt rtt) (latest_rtt rtt)
      in max (kMinLossDelayMs * 1000) (max_rtt + max_rtt div 2 ^ reordering_shift a))"

text \<open>
  The test by the numbers of later acknowledged packets, of \<open>kNack\<close> and \<open>kLazyFack\<close>.
\<close>

definition nacked :: "GeneralLossAlgorithm \<Rightarrow> QuicPacketNumber \<Rightarrow> QuicPacketNumber \<Rightarrow> bool" where
  "nacked a largest_newly_acked packet_number \<longleftrightarrow>
     (if loss_type a = kNack
      then u64_sub largest_newly_acked packet_number \<ge> kNumberOfNacksBeforeRetransmission
      else if loss_type a = kLazyFack
      then IsInitialized (largest_previously_acked a) \<and> largest_newly_acked > largest_previously_acked a
         \<and> largest_previously_acked a > packet_number
         \<and> u64_sub (largest_previously_acked a) packet_number \<ge> kNumberOfNacksBeforeRetransmission - 1
      else False)"

definition timed :: "GeneralLossAlgorithm \<Rightarrow> QuicUnackedPacketMap \<Rightarrow> QuicPacketNumber \<Rightarrow> bool" where
  "timed a m largest_newly_acked \<longleftrightarrow>
     GetLargestSentRetransmittableOfPacketNumberSpace m (packet_number_space a) \<le> largest_newly_acked
   \<or> loss_type a = kTime \<or> loss_type a = kAdaptiveTime"

text \<open>The loop; it carries the lost packets, the timeout and the least packet in flight, uninitialized until one is found.\<close>

fun DetectLosses_loop ::
    "GeneralLossAlgorithm \<Rightarrow> QuicUnackedPacketMap \<Rightarrow> int \<Rightarrow> RttStats \<Rightarrow> QuicPacketNumber \<Rightarrow> QuicTransmissionInfo list
     \<Rightarrow> QuicPacketNumber \<Rightarrow> LostPacket list \<times> int \<times> QuicPacketNumber \<Rightarrow> (LostPacket list \<times> int \<times> QuicPacketNumber) option" where
  "DetectLosses_loop a m time rtt largest_newly_acked [] packet_number st = Some st"
| "DetectLosses_loop a m time rtt largest_newly_acked (info # infos) packet_number (packets_lost, timeout, least) =
     (if \<not> packet_number \<le> largest_newly_acked then Some (packets_lost, timeout, least)
      else let continue = DetectLosses_loop a m time rtt largest_newly_acked infos (pn_inc packet_number);
               lost = packets_lost @ [\<lparr>lp_packet_number = packet_number, lp_bytes_lost = ti_bytes_sent info\<rparr>];
               least' = (if \<not> IsInitialized least then packet_number else least)
           in if GetPacketNumberSpace m (ti_encryption_level info) \<noteq> packet_number_space a
              then continue (packets_lost, timeout, least)
              else if \<not> in_flight info then continue (packets_lost, timeout, least)
              else if nacked a largest_newly_acked packet_number then continue (lost, timeout, least)
              else if timed a m largest_newly_acked
              then let when_lost = ti_sent_time info + loss_delay a rtt
                   in if time < when_lost then Some (packets_lost, when_lost, least')
                      else continue (lost, timeout, least)
              else do {
                acked \<leftarrow> GetTransmissionInfo m largest_newly_acked;
                if ti_sent_time info + smoothed_rtt rtt < ti_sent_time acked then continue (lost, timeout, least)
                else continue (packets_lost, timeout, least')
              })"

definition DetectLosses ::
    "LossFlags \<Rightarrow> QuicUnackedPacketMap \<Rightarrow> int \<Rightarrow> RttStats \<Rightarrow> QuicPacketNumber \<Rightarrow> AckedPacket list
     \<Rightarrow> GeneralLossAlgorithm \<times> LostPacket list \<Rightarrow> (GeneralLossAlgorithm \<times> LostPacket list) option" where
  "DetectLosses F m time rtt largest_newly_acked packets_acked = (\<lambda>(a, packets_lost).
     let a0 = a\<lparr>loss_detection_timeout := 0\<rparr>;
         starts = (packets_acked \<noteq> [] \<and> ap_packet_number (hd packets_acked) = least_in_flight a)
     in if starts \<and> (\<not> quic_fix_packets_acked F \<or> ap_packet_number (last packets_acked) = largest_newly_acked)
           \<and> pn_minus (pn_plus (least_in_flight a) (length packets_acked)) 1 = largest_newly_acked
        then Some (a0\<lparr>least_in_flight := pn_plus largest_newly_acked 1, largest_previously_acked := largest_newly_acked\<rparr>, packets_lost)
        else let least1 = (if starts then skip_acked packets_acked (least_in_flight a) else least_in_flight a);
                 packet_number = least_unacked m;
                 skips = (IsInitialized least1 \<and> least1 \<ge> packet_number
                        \<and> \<not> least1 > pn_plus (largest_sent_packet m) 1);
                 offset = (if skips then u64_sub least1 packet_number else 0);
                 from = (if skips then least1 else packet_number)
             in do {
                  (lost, timeout, least) \<leftarrow> DetectLosses_loop a0 m time rtt largest_newly_acked (drop offset (unacked_packets m))
                                             from (packets_lost, 0, UninitializedPacketNumber);
                  Some (a0\<lparr>loss_detection_timeout := timeout,
                            least_in_flight := (if \<not> IsInitialized least then pn_plus largest_newly_acked 1 else least),
                            largest_previously_acked := largest_newly_acked\<rparr>, lost)
                })"

section \<open>Spurious retransmissions\<close>

fun lower_shift :: "int \<Rightarrow> int \<Rightarrow> nat \<Rightarrow> nat" where
  "lower_shift max_rtt extra_time_needed 0 = 0"
| "lower_shift max_rtt extra_time_needed (Suc shift) =
     (if max_rtt div 2 ^ Suc shift \<le> extra_time_needed then lower_shift max_rtt extra_time_needed shift else Suc shift)"

text \<open>The loop that tests at its end; it is entered with a positive shift.\<close>

fun lower_shift_do :: "int \<Rightarrow> int \<Rightarrow> nat \<Rightarrow> nat" where
  "lower_shift_do max_rtt extra_time_needed 0 = 0"
| "lower_shift_do max_rtt extra_time_needed (Suc shift) =
     (if max_rtt div 2 ^ Suc shift < extra_time_needed \<and> shift > 0 then lower_shift_do max_rtt extra_time_needed shift else shift)"

definition SpuriousRetransmitDetected ::
    "LossFlags \<Rightarrow> QuicUnackedPacketMap \<Rightarrow> int \<Rightarrow> RttStats \<Rightarrow> QuicPacketNumber \<Rightarrow> GeneralLossAlgorithm \<Rightarrow> GeneralLossAlgorithm option" where
  "SpuriousRetransmitDetected F m time rtt spurious_retransmission a =
     (if loss_type a \<noteq> kAdaptiveTime \<or> reordering_shift a = 0 then Some a
      else do {
        info \<leftarrow> GetTransmissionInfo m spurious_retransmission;
        let extra_time_needed = time - ti_sent_time info;
        let max_rtt = max (previous_srtt rtt) (latest_rtt rtt);
        if quic_fix_adaptive_time_loss F
        then Some (a\<lparr>reordering_shift := lower_shift max_rtt extra_time_needed (reordering_shift a)\<rparr>)
        else if IsInitialized (largest_sent_on_spurious_retransmit a)
              \<and> spurious_retransmission \<le> largest_sent_on_spurious_retransmit a
        then Some a
        else Some (a\<lparr>largest_sent_on_spurious_retransmit := largest_sent_packet m,
                     reordering_shift := lower_shift_do max_rtt extra_time_needed (reordering_shift a)\<rparr>)
      })"

section \<open>All packet number spaces\<close>

record UberLossAlgorithm =
  uber_loss_type :: LossDetectionType
  general_loss_algorithms :: "PacketNumberSpace \<Rightarrow> GeneralLossAlgorithm"

definition packet_number_spaces :: "PacketNumberSpace list" where
  "packet_number_spaces = [INITIAL_DATA, HANDSHAKE_DATA, APPLICATION_DATA]"

definition Uber_SetLossDetectionType :: "LossFlags \<Rightarrow> LossDetectionType \<Rightarrow> UberLossAlgorithm \<Rightarrow> UberLossAlgorithm" where
  "Uber_SetLossDetectionType F type u =
     u\<lparr>uber_loss_type := type, general_loss_algorithms := (\<lambda>s. SetLossDetectionType F type (general_loss_algorithms u s))\<rparr>"

definition new_UberLossAlgorithm :: "LossFlags \<Rightarrow> LossDetectionType \<Rightarrow> UberLossAlgorithm" where
  "new_UberLossAlgorithm F type =
     (let u = Uber_SetLossDetectionType F type
                \<lparr>uber_loss_type = type, general_loss_algorithms = (\<lambda>_. new_GeneralLossAlgorithm F kNack)\<rparr>
      in u\<lparr>general_loss_algorithms := (\<lambda>s. SetPacketNumberSpace s (general_loss_algorithms u s))\<rparr>)"

fun Uber_DetectLosses_loop ::
    "LossFlags \<Rightarrow> QuicUnackedPacketMap \<Rightarrow> int \<Rightarrow> RttStats \<Rightarrow> AckedPacket list \<Rightarrow> PacketNumberSpace list
     \<Rightarrow> UberLossAlgorithm \<times> LostPacket list \<Rightarrow> (UberLossAlgorithm \<times> LostPacket list) option" where
  "Uber_DetectLosses_loop F m time rtt packets_acked [] w = Some w"
| "Uber_DetectLosses_loop F m time rtt packets_acked (s # spaces) (u, packets_lost) =
     (let largest_acked = GetLargestAckedOfPacketNumberSpace m s
      in if \<not> IsInitialized largest_acked \<or> least_unacked m > largest_acked
         then Uber_DetectLosses_loop F m time rtt packets_acked spaces (u, packets_lost)
         else do {
           (a, lost) \<leftarrow> DetectLosses F m time rtt largest_acked packets_acked (general_loss_algorithms u s, packets_lost);
           Uber_DetectLosses_loop F m time rtt packets_acked spaces
             (u\<lparr>general_loss_algorithms := (general_loss_algorithms u)(s := a)\<rparr>, lost)
         })"

definition Uber_DetectLosses ::
    "LossFlags \<Rightarrow> QuicUnackedPacketMap \<Rightarrow> int \<Rightarrow> RttStats \<Rightarrow> QuicPacketNumber \<Rightarrow> AckedPacket list
     \<Rightarrow> UberLossAlgorithm \<times> LostPacket list \<Rightarrow> (UberLossAlgorithm \<times> LostPacket list) option" where
  "Uber_DetectLosses F m time rtt largest_newly_acked packets_acked w =
     Uber_DetectLosses_loop F m time rtt packets_acked packet_number_spaces w"

definition GetLossTimeout :: "UberLossAlgorithm \<Rightarrow> int" where
  "GetLossTimeout u =
     fold (\<lambda>s loss_timeout.
         let timeout = loss_detection_timeout (general_loss_algorithms u s)
         in if loss_timeout = 0 then timeout
            else if timeout \<noteq> 0 then min loss_timeout timeout else loss_timeout)
       packet_number_spaces 0"

definition Uber_SpuriousRetransmitDetected ::
    "LossFlags \<Rightarrow> QuicUnackedPacketMap \<Rightarrow> int \<Rightarrow> RttStats \<Rightarrow> QuicPacketNumber \<Rightarrow> UberLossAlgorithm \<Rightarrow> UberLossAlgorithm option" where
  "Uber_SpuriousRetransmitDetected F m time rtt spurious_retransmission u = do {
     s \<leftarrow> GetPacketNumberSpace_of m spurious_retransmission;
     a \<leftarrow> SpuriousRetransmitDetected F m time rtt spurious_retransmission (general_loss_algorithms u s);
     Some (u\<lparr>general_loss_algorithms := (general_loss_algorithms u)(s := a)\<rparr>)
   }"

end
