(* ===== verification/Quic_Loss_Equivalence.thy ===== *)
theory Quic_Loss_Equivalence
  imports Quic_Loss_Detection Quic_Unacked_Invariant
begin

text \<open>
  Loss detection scans the map from the least packet in flight that the previous call left behind, skips acknowledged
  packets without looking at them, returns at once when no packet is missing, and stops at the first packet that is not
  lost by time. Here it is compared with a reference definition that looks at every packet of the map.
\<close>

section \<open>The reference definition\<close>

definition candidates ::
    "GeneralLossAlgorithm \<Rightarrow> QuicUnackedPacketMap \<Rightarrow> QuicPacketNumber \<Rightarrow> nat \<Rightarrow> QuicTransmissionInfo list
     \<Rightarrow> (QuicPacketNumber \<times> QuicTransmissionInfo) list" where
  "candidates a m largest_newly_acked first infos =
     filter (\<lambda>(p, info). p \<le> largest_newly_acked \<and> GetPacketNumberSpace m (ti_encryption_level info) = packet_number_space a
                \<and> in_flight info) (enumerate first infos)"

definition is_lost ::
    "GeneralLossAlgorithm \<Rightarrow> QuicUnackedPacketMap \<Rightarrow> int \<Rightarrow> RttStats \<Rightarrow> QuicPacketNumber \<Rightarrow> QuicPacketNumber \<times> QuicTransmissionInfo \<Rightarrow> bool" where
  "is_lost a m time rtt largest_newly_acked = (\<lambda>(p, info).
     nacked a largest_newly_acked p
   \<or> (if timed a m largest_newly_acked then ti_sent_time info + loss_delay a rtt \<le> time
      else ti_sent_time info + smoothed_rtt rtt
             < ti_sent_time (unacked_packets m ! (largest_newly_acked - least_unacked m))))"

definition lost_packet :: "QuicPacketNumber \<times> QuicTransmissionInfo \<Rightarrow> LostPacket" where
  "lost_packet c = \<lparr>lp_packet_number = fst c, lp_bytes_lost = ti_bytes_sent (snd c)\<rparr>"

definition reference_lost ::
    "GeneralLossAlgorithm \<Rightarrow> QuicUnackedPacketMap \<Rightarrow> int \<Rightarrow> RttStats \<Rightarrow> QuicPacketNumber \<Rightarrow> LostPacket list" where
  "reference_lost a m time rtt largest_newly_acked = map lost_packet (filter (is_lost a m time rtt largest_newly_acked)
     (candidates a m largest_newly_acked (least_unacked m) (unacked_packets m)))"

definition reference_algorithm ::
    "GeneralLossAlgorithm \<Rightarrow> QuicUnackedPacketMap \<Rightarrow> int \<Rightarrow> RttStats \<Rightarrow> QuicPacketNumber \<Rightarrow> GeneralLossAlgorithm" where
  "reference_algorithm a m time rtt largest_newly_acked =
     (let waiting = filter (\<lambda>c. \<not> is_lost a m time rtt largest_newly_acked c)
                      (candidates a m largest_newly_acked (least_unacked m) (unacked_packets m))
      in a\<lparr>loss_detection_timeout := (if timed a m largest_newly_acked \<and> waiting \<noteq> []
                                        then ti_sent_time (snd (hd waiting)) + loss_delay a rtt else 0),
           least_in_flight := (if waiting = [] then largest_newly_acked + 1 else fst (hd waiting)),
           largest_previously_acked := largest_newly_acked\<rparr>)"

section \<open>The loop\<close>

definition sent_in_order :: "QuicTransmissionInfo list \<Rightarrow> bool" where
  "sent_in_order infos \<longleftrightarrow> sorted (map ti_sent_time (filter in_flight infos))"

lemma candidates_Nil [simp]: "candidates a m L n [] = []"
  by (simp add: candidates_def)

lemma candidates_Cons:
  "candidates a m L n (info # infos) =
     (if n \<le> L \<and> GetPacketNumberSpace m (ti_encryption_level info) = packet_number_space a \<and> in_flight info then [(n, info)] else [])
     @ candidates a m L (Suc n) infos"
  by (simp add: candidates_def)

lemma candidates_beyond: "L < n \<Longrightarrow> candidates a m L n infos = []"
  by (induction infos arbitrary: n) (simp_all add: candidates_Cons)

lemma candidates_D:
  assumes "(p, info) \<in> set (candidates a m L n infos)"
  shows "n \<le> p" "p < n + length infos" "info = infos ! (p - n)" "p \<le> L" "in_flight info" "info \<in> set infos"
    "GetPacketNumberSpace m (ti_encryption_level info) = packet_number_space a"
  using assms by (auto simp: candidates_def in_set_enumerate_eq)

lemma candidates_I:
  assumes "n \<le> p" "p < n + length infos" "p \<le> L" "in_flight (infos ! (p - n))"
    "GetPacketNumberSpace m (ti_encryption_level (infos ! (p - n))) = packet_number_space a"
  shows "(p, infos ! (p - n)) \<in> set (candidates a m L n infos)"
  using assms by (auto simp: candidates_def in_set_enumerate_eq)

lemma candidates_append:
  "candidates a m L n (xs @ ys) = candidates a m L n xs @ candidates a m L (n + length xs) ys"
  by (simp add: candidates_def enumerate_append_eq)

lemma candidates_ascending: "sorted (map fst (candidates a m L n infos))" "distinct (map fst (candidates a m L n infos))"
proof -
  have "sorted_wrt (<) (map fst (candidates a m L n infos))"
  proof (induction infos arbitrary: n)
    case (Cons i infos)
    show ?case using Cons.IH [of "Suc n"] candidates_D(1) [of _ _ a m L "Suc n" infos]
      by (fastforce simp: candidates_Cons)
  qed simp
  then show "sorted (map fst (candidates a m L n infos))" "distinct (map fst (candidates a m L n infos))"
    by (simp_all add: strict_sorted_iff)
qed

text \<open>Once a packet is waiting for its time, the later ones are, too.\<close>

lemma nacked_mono:
  assumes "nacked a L q" "p \<le> q" "q \<le> L" "L < 2 ^ 63"
  shows "nacked a L p"
  using assms
  by (auto simp: nacked_def u64_sub_small IsInitialized_def split: if_splits)

lemma waiting_in_time_order:
  assumes t: "timed a m L" and w: "\<not> is_lost a m time rtt L (p, i)" and c: "(q, j) \<in> set (candidates a m L n infos)"
    and o: "p \<le> q" "ti_sent_time i \<le> ti_sent_time j" "L < 2 ^ 63"
  shows "\<not> is_lost a m time rtt L (q, j)"
  using w t o nacked_mono [of a L q p] candidates_D(4) [OF c] by (auto simp: is_lost_def)



lemma sent_in_order_Cons:
  "sent_in_order (info # infos) \<longleftrightarrow>
     (in_flight info \<longrightarrow> (\<forall>j \<in> set infos. in_flight j \<longrightarrow> ti_sent_time info \<le> ti_sent_time j)) \<and> sent_in_order infos"
  by (auto simp: sent_in_order_def)

lemma DetectLosses_loop_reference:
  assumes "n + length infos < 2 ^ 63" "L < 2 ^ 63" "sent_in_order infos"
    and L: "GetTransmissionInfo m L = Some (unacked_packets m ! (L - least_unacked m))"
  shows "DetectLosses_loop a m time rtt L infos n (lost, timeout, least) =
    (let c = candidates a m L n infos; waiting = filter (\<lambda>c. \<not> is_lost a m time rtt L c) c
     in Some (lost @ map lost_packet (filter (is_lost a m time rtt L) c),
              if timed a m L \<and> waiting \<noteq> [] then ti_sent_time (snd (hd waiting)) + loss_delay a rtt else timeout,
              if IsInitialized least then least else if waiting = [] then least else fst (hd waiting)))"
  using assms(1,3)
proof (induction infos arbitrary: n lost timeout least)
  case Nil
  then show ?case by simp
next
  case (Cons info infos)
  let ?lost = "is_lost a m time rtt L"
  have inc: "pn_inc n = Suc n" using Cons.prems(1) by (simp add: pn_inc_def u64_add_small)
  have n: "IsInitialized n" using Cons.prems(1) by (simp add: IsInitialized_def UninitializedPacketNumber_def U64_MAX_def)
  have o: "sent_in_order infos" and b: "Suc n + length infos < 2 ^ 63" using Cons.prems by (simp_all add: sent_in_order_Cons)
  note IH = Cons.IH [OF b o]
  show ?case
  proof (cases "n \<le> L \<and> GetPacketNumberSpace m (ti_encryption_level info) = packet_number_space a \<and> in_flight info")
    case False
    show ?thesis
    proof (cases "n \<le> L")
      case True
      with False have c: "candidates a m L n (info # infos) = candidates a m L (Suc n) infos" by (simp add: candidates_Cons)
      have e: "DetectLosses_loop a m time rtt L (info # infos) n (lost, timeout, least)
          = DetectLosses_loop a m time rtt L infos (Suc n) (lost, timeout, least)"
        using False True by (simp add: Let_def inc)
      show ?thesis unfolding e c IH ..
    qed (simp add: candidates_beyond)
  next
    case True
    then have c: "candidates a m L n (info # infos) = (n, info) # candidates a m L (Suc n) infos" by (simp add: candidates_Cons)
    have lp: "\<lparr>lp_packet_number = n, lp_bytes_lost = ti_bytes_sent info\<rparr> = lost_packet (n, info)" by (simp add: lost_packet_def)
    show ?thesis
    proof (cases "?lost (n, info)")
      case True
      have e: "DetectLosses_loop a m time rtt L (info # infos) n (lost, timeout, least)
          = DetectLosses_loop a m time rtt L infos (Suc n) (lost @ [lost_packet (n, info)], timeout, least)"
        using True \<open>n \<le> L \<and> _\<close> by (auto simp: Let_def inc lp is_lost_def L split: if_splits)
      show ?thesis unfolding e c IH using True by (simp add: Let_def)
    next
      case w: False
      show ?thesis
      proof (cases "timed a m L")
        case True
        have "\<not> ?lost d" if d: "d \<in> set (candidates a m L (Suc n) infos)" for d
        proof -
          obtain q j where q: "d = (q, j)" by (metis surj_pair)
          have "n \<le> q" "j \<in> set infos" "in_flight j" using candidates_D [OF d [unfolded q]] by auto
          moreover have "ti_sent_time info \<le> ti_sent_time j"
            using Cons.prems(2) calculation \<open>n \<le> L \<and> _\<close> by (simp add: sent_in_order_Cons)
          ultimately show ?thesis using waiting_in_time_order [OF True w d [unfolded q] _ _ assms(2)] q by simp
        qed
        then have f: "filter ?lost (candidates a m L (Suc n) infos) = []" by (simp add: filter_empty_conv)
        have e: "DetectLosses_loop a m time rtt L (info # infos) n (lost, timeout, least)
            = Some (lost, ti_sent_time info + loss_delay a rtt, if IsInitialized least then least else n)"
          using True w \<open>n \<le> L \<and> _\<close> by (auto simp: Let_def is_lost_def)
        show ?thesis unfolding e c using True w f by (simp add: Let_def)
      next
        case False
        have e: "DetectLosses_loop a m time rtt L (info # infos) n (lost, timeout, least)
            = DetectLosses_loop a m time rtt L infos (Suc n) (lost, timeout, if IsInitialized least then least else n)"
          using False w \<open>n \<le> L \<and> _\<close> by (auto simp: Let_def inc is_lost_def L)
        show ?thesis unfolding e c IH using False w n by (simp add: Let_def)
      qed
    qed
  qed
qed

section \<open>The shortcuts\<close>

text \<open>Below the least packet in flight nothing of the packet number space is in flight.\<close>

definition least_ok :: "GeneralLossAlgorithm \<Rightarrow> QuicUnackedPacketMap \<Rightarrow> bool" where
  "least_ok a m \<longleftrightarrow> least_in_flight a \<le> least_unacked m + length (unacked_packets m)
     \<and> (\<forall>i < length (unacked_packets m). least_unacked m + i < least_in_flight a \<longrightarrow>
          GetPacketNumberSpace m (ti_encryption_level (unacked_packets m ! i)) = packet_number_space a \<longrightarrow>
          \<not> in_flight (unacked_packets m ! i))"

text \<open>The acknowledged packets, in the order of their numbers, have been taken out of flight.\<close>

definition acked_ok :: "QuicUnackedPacketMap \<Rightarrow> AckedPacket list \<Rightarrow> bool" where
  "acked_ok m packets_acked \<longleftrightarrow> sorted_wrt (<) (map ap_packet_number packets_acked)
     \<and> (\<forall>acked \<in> set packets_acked. ap_packet_number acked < least_unacked m + length (unacked_packets m)
          \<and> (\<forall>i < length (unacked_packets m). least_unacked m + i = ap_packet_number acked \<longrightarrow> \<not> in_flight (unacked_packets m ! i)))"

lemma strictly_ascending_all:
  assumes "sorted_wrt (<) (ns :: nat list)" "\<forall>n \<in> set ns. s \<le> n \<and> n < s + length ns"
  shows "set ns = {s..<s + length ns}"
proof (rule card_subset_eq)
  show "card (set ns) = card {s..<s + length ns}" using assms(1) by (simp add: strict_sorted_iff distinct_card)
qed (use assms(2) in auto)

lemma skip_acked_ok:
  assumes "least \<le> e" "e < 2 ^ 63" "\<forall>acked \<in> set packets. ap_packet_number acked < e"
  shows "least \<le> skip_acked packets least \<and> skip_acked packets least \<le> e
    \<and> (\<forall>p. least \<le> p \<and> p < skip_acked packets least \<longrightarrow> p \<in> ap_packet_number ` set packets)"
  using assms
proof (induction packets arbitrary: least)
  case (Cons acked packets)
  show ?case
  proof (cases "ap_packet_number acked = least")
    case True
    then have l: "least < e" using Cons.prems(3) by auto
    then have "pn_inc least = Suc least" using Cons.prems(2) by (simp add: pn_inc_def u64_add_small)
    then show ?thesis using True l Cons.IH [of "Suc least"] Cons.prems(2,3)
      by (auto simp: Suc_le_eq image_iff) (metis le_neq_implies_less not_less_eq)
  qed (use Cons.prems(1) in simp)
qed simp

text \<open>The scan may start behind packets that are not in flight.\<close>

lemma candidates_start:
  assumes "least_ok a m" "least_unacked m \<le> s"
    and s: "\<forall>i < length (unacked_packets m). least_unacked m + i < s \<longrightarrow>
          GetPacketNumberSpace m (ti_encryption_level (unacked_packets m ! i)) = packet_number_space a \<longrightarrow> \<not> in_flight (unacked_packets m ! i)"
    "s \<le> least_unacked m + length (unacked_packets m)"
  shows "candidates a m L (least_unacked m) (unacked_packets m) = candidates a m L s (drop (s - least_unacked m) (unacked_packets m))"
proof -
  let ?k = "s - least_unacked m" and ?ps = "unacked_packets m"
  have "candidates a m L (least_unacked m) (take ?k ?ps) = []"
  proof (rule ccontr)
    assume "candidates a m L (least_unacked m) (take ?k ?ps) \<noteq> []"
    then obtain p info where c: "(p, info) \<in> set (candidates a m L (least_unacked m) (take ?k ?ps))"
      by (metis list.set_intros(1) neq_Nil_conv surj_pair)
    note d = candidates_D [OF c]
    have l: "p - least_unacked m < length ?ps" "least_unacked m + (p - least_unacked m) < s" and i: "info = ?ps ! (p - least_unacked m)"
      using d(1-3) by auto
    show False using s(1) [rule_format, OF l] d(5,7) i by simp
  qed
  moreover have "candidates a m L (least_unacked m) (take ?k ?ps @ drop ?k ?ps)
      = candidates a m L (least_unacked m) (take ?k ?ps) @ candidates a m L s (drop ?k ?ps)"
    using assms(2) s(2) by (simp only: candidates_append) simp
  ultimately show ?thesis by simp
qed

lemma DetectLosses_reference:
  assumes ok: "unacked_ok m" and order: "sent_in_order (unacked_packets m)" and least: "least_ok a m" and acked: "acked_ok m packets_acked"
    and L: "least_unacked m \<le> L" "L < least_unacked m + length (unacked_packets m)"
    and fx: "quic_fix_packets_acked F \<or> (\<forall>acked \<in> set packets_acked. ap_packet_number acked \<le> L)"
  shows "DetectLosses F m time rtt L packets_acked (a, lost) =
    Some (reference_algorithm a m time rtt L, lost @ reference_lost a m time rtt L)"
proof -
  let ?ps = "unacked_packets m" and ?e = "least_unacked m + length (unacked_packets m)" and ?a0 = "a\<lparr>loss_detection_timeout := 0\<rparr>"
  let ?starts = "packets_acked \<noteq> [] \<and> ap_packet_number (hd packets_acked) = least_in_flight a"
  note nk = unacked_ok_D(1) [OF ok]
  note b = numbers_ok_bounds(1) [OF nk]
  have e: "?e = largest_sent_packet m + 1" using ok L by (auto simp: unacked_ok_def numbers_ok_def packets_ok_def split: if_splits)
  have L': "pn_plus L 1 = L + 1" using b L(2) by (simp add: pn_plus_def u64_add_small)
  have same: "candidates ?a0 m = candidates a m" "is_lost ?a0 m = is_lost a m" "timed ?a0 m = timed a m" "loss_delay ?a0 = loss_delay a"
    by (auto simp: candidates_def is_lost_def timed_def loss_delay_def nacked_def fun_eq_iff)
  have not_acked: "\<not> in_flight (?ps ! i)" if "i < length ?ps" "least_unacked m + i \<in> ap_packet_number ` set packets_acked" for i
    using acked that by (auto simp: acked_ok_def)
  show ?thesis
  proof (cases "?starts \<and> (\<not> quic_fix_packets_acked F \<or> ap_packet_number (last packets_acked) = L)
           \<and> pn_minus (pn_plus (least_in_flight a) (length packets_acked)) 1 = L")
    case True
    let ?ns = "map ap_packet_number packets_acked" and ?s = "least_in_flight a"
    have asc: "sorted_wrt (<) ?ns" and below: "\<forall>n \<in> set ?ns. n < ?e" using acked by (auto simp: acked_ok_def)
    have ne: "?ns \<noteq> []" "hd ?ns = ?s" using True by (simp_all add: hd_map)
    have len: "length ?ns \<le> ?e"
    proof -
      have "distinct ?ns" using asc unfolding strict_sorted_iff by simp
      then have "length ?ns = card (set ?ns)" by (rule distinct_card [symmetric])
      also have "\<dots> \<le> card {..<?e}" by (rule card_mono) (use below in auto)
      finally show ?thesis by simp
    qed
    have sle: "?s \<le> ?e" using least by (simp add: least_ok_def)
    have pl: "pn_plus ?s (length packets_acked) = ?s + length packets_acked" and pos: "1 \<le> ?s + length packets_acked"
      using sle len b ne by (simp_all add: pn_plus_def u64_add_small Suc_le_eq)
    then have "pn_minus (pn_plus ?s (length packets_acked)) 1 = ?s + length packets_acked - 1"
      using sle len b by (simp add: pn_minus_def u64_sub_small)
    then have "?s + length packets_acked - 1 = L" using True by simp
    then have end_: "?s + length ?ns = L + 1" using pos unfolding length_map by linarith
    have up: "n \<le> L" if "n \<in> set ?ns" for n
    proof (cases "quic_fix_packets_acked F")
      case True
      then have "last ?ns = L" using \<open>?starts \<and> _\<close> by (simp add: last_map)
      moreover have "n \<le> last ?ns" using that asc by (metis in_set_conv_nth last_conv_nth length_greater_0_conv length_pos_if_in_set
            sorted_nth_mono strict_sorted_imp_sorted Suc_pred less_Suc_eq_le diff_less zero_less_one diff_Suc_1 One_nat_def)
      ultimately show ?thesis by simp
    qed (use fx that in auto)
    have lo: "?s \<le> n" if "n \<in> set ?ns" for n
      using that asc ne by (cases ?ns) auto
    have "\<forall>n \<in> set ?ns. ?s \<le> n \<and> n < ?s + length ?ns" unfolding end_ using up lo by (simp only: Suc_eq_plus1 [symmetric] less_Suc_eq_le) blast
    then have "set ?ns = {?s..<?s + length ?ns}" by (rule strictly_ascending_all [OF asc])
    then have all: "ap_packet_number ` set packets_acked = {?s..<L + 1}" using end_ by simp
    have none: "candidates a m L (least_unacked m) ?ps = []"
    proof (rule ccontr)
      assume "candidates a m L (least_unacked m) ?ps \<noteq> []"
      then obtain p info where c: "(p, info) \<in> set (candidates a m L (least_unacked m) ?ps)"
        by (metis list.set_intros(1) neq_Nil_conv surj_pair)
      note d = candidates_D [OF c]
      let ?i = "p - least_unacked m"
      have i: "?i < length ?ps" "least_unacked m + ?i = p" using d(1,2) by auto
      have "\<not> in_flight (?ps ! ?i)"
      proof (cases "p < ?s")
        case True
        then show ?thesis using least i d(3,7) by (simp add: least_ok_def)
      next
        case False
        then show ?thesis using not_acked [OF i(1)] d(4) i(2) all by simp
      qed
      then show False using d(3,5) by simp
    qed
    have "DetectLosses F m time rtt L packets_acked (a, lost) =
        Some (?a0\<lparr>least_in_flight := pn_plus L 1, largest_previously_acked := L\<rparr>, lost)"
      using True by (simp add: DetectLosses_def Let_def)
    then show ?thesis unfolding L' by (simp add: reference_algorithm_def reference_lost_def none)
  next
    case False
    define s where "s = (if ?starts then skip_acked packets_acked (least_in_flight a) else least_in_flight a)"
    have sle: "least_in_flight a \<le> ?e" using least by (simp add: least_ok_def)
    have sk: "least_in_flight a \<le> s \<and> s \<le> ?e \<and> (\<forall>p. least_in_flight a \<le> p \<and> p < s \<longrightarrow> p \<in> ap_packet_number ` set packets_acked)"
    proof (cases ?starts)
      case True
      then show ?thesis using skip_acked_ok [OF sle, of packets_acked] acked b by (simp add: s_def acked_ok_def)
    next
      case False
      then have "s = least_in_flight a" unfolding s_def by (rule if_not_P)
      then show ?thesis using sle by auto
    qed
    have skip: "\<forall>i < length ?ps. least_unacked m + i < s \<longrightarrow>
          GetPacketNumberSpace m (ti_encryption_level (?ps ! i)) = packet_number_space a \<longrightarrow> \<not> in_flight (?ps ! i)"
      using least not_acked sk by (meson least_ok_def not_le)
    have init: "IsInitialized s" using sk b by (simp add: IsInitialized_def UninitializedPacketNumber_def U64_MAX_def)
    have "pn_plus (largest_sent_packet m) 1 = ?e" using e b by (simp add: pn_plus_def u64_add_small)
    then have skips: "(IsInitialized s \<and> s \<ge> least_unacked m \<and> \<not> s > pn_plus (largest_sent_packet m) 1) \<longleftrightarrow> least_unacked m \<le> s"
      using init sk by simp
    define k where "k = (if least_unacked m \<le> s then s - least_unacked m else 0)"
    define n where "n = (if least_unacked m \<le> s then s else least_unacked m)"
    have cand: "candidates a m L n (drop k ?ps) = candidates a m L (least_unacked m) ?ps"
      using candidates_start [OF least, of s] skip sk by (simp add: k_def n_def)
    have off: "(if least_unacked m \<le> s then u64_sub s (least_unacked m) else 0) = k" using sk b by (simp add: k_def u64_sub_small)
    have bn: "n + length (drop k ?ps) < 2 ^ 63" "L < 2 ^ 63" using b L(2) sk by (auto simp: n_def k_def)
    have order': "sent_in_order (drop k ?ps)"
    proof -
      have "sent_in_order (take k ?ps @ drop k ?ps)" using order by simp
      then show ?thesis unfolding sent_in_order_def filter_append map_append by (simp add: sorted_append)
    qed
    have info: "GetTransmissionInfo m L = Some (?ps ! (L - least_unacked m))" by (rule tracked_info(3) [OF nk L])
    have "DetectLosses F m time rtt L packets_acked (a, lost) = do {
        (lost, timeout, least) \<leftarrow> DetectLosses_loop ?a0 m time rtt L (drop k ?ps) n (lost, 0, UninitializedPacketNumber);
        Some (?a0\<lparr>loss_detection_timeout := timeout, least_in_flight := (if \<not> IsInitialized least then pn_plus L 1 else least),
                  largest_previously_acked := L\<rparr>, lost) }"
      unfolding DetectLosses_def Let_def prod.case if_not_P [OF False] s_def [symmetric] skips off n_def [symmetric] ..
    moreover have "DetectLosses_loop ?a0 m time rtt L (drop k ?ps) n (lost, 0, UninitializedPacketNumber) = (
      let c = candidates a m L (least_unacked m) ?ps; waiting = filter (\<lambda>c. \<not> is_lost a m time rtt L c) c
      in Some (lost @ map lost_packet (filter (is_lost a m time rtt L) c),
              if timed a m L \<and> waiting \<noteq> [] then ti_sent_time (snd (hd waiting)) + loss_delay a rtt else 0,
              if waiting = [] then UninitializedPacketNumber else fst (hd waiting)))"
      unfolding DetectLosses_loop_reference [OF bn order' info] same cand by (simp add: Let_def IsInitialized_def)
    moreover have "IsInitialized (fst (hd waiting))" if "waiting \<noteq> []" "set waiting \<subseteq> set (candidates a m L (least_unacked m) ?ps)" for waiting
    proof -
      have "hd waiting \<in> set (candidates a m L (least_unacked m) ?ps)" using that by auto
      then have "fst (hd waiting) \<le> L" using candidates_D(4) by (metis prod.collapse)
      then show ?thesis using bn(2) by (simp add: IsInitialized_def UninitializedPacketNumber_def U64_MAX_def)
    qed
    ultimately show ?thesis
      unfolding L' by (simp add: reference_algorithm_def reference_lost_def Let_def IsInitialized_def)
  qed
qed

section \<open>The next call\<close>

text \<open>
  What the map may look like when losses are detected again: lost packets have been taken out of flight, more packets may
  have been acknowledged, forgotten or sent.
\<close>

definition flight_after :: "QuicUnackedPacketMap \<Rightarrow> LostPacket list \<Rightarrow> QuicUnackedPacketMap \<Rightarrow> bool" where
  "flight_after m lost m' \<longleftrightarrow> um_perspective m' = um_perspective m
     \<and> supports_multiple_packet_number_spaces m' = supports_multiple_packet_number_spaces m
     \<and> least_unacked m + length (unacked_packets m) \<le> least_unacked m' + length (unacked_packets m')
     \<and> (\<forall>i < length (unacked_packets m'). in_flight (unacked_packets m' ! i) \<longrightarrow>
          (let p = least_unacked m' + i; j = p - least_unacked m in
             least_unacked m + length (unacked_packets m) \<le> p
           \<or> least_unacked m \<le> p \<and> in_flight (unacked_packets m ! j)
             \<and> ti_encryption_level (unacked_packets m ! j) = ti_encryption_level (unacked_packets m' ! i)
             \<and> p \<notin> lp_packet_number ` set lost))"

lemma flight_after_old:
  assumes "flight_after m lost m'" "i < length (unacked_packets m')" "in_flight (unacked_packets m' ! i)"
    and p: "p = least_unacked m' + i" "p < least_unacked m + length (unacked_packets m)"
  shows "least_unacked m \<le> p" "in_flight (unacked_packets m ! (p - least_unacked m))"
    "ti_encryption_level (unacked_packets m ! (p - least_unacked m)) = ti_encryption_level (unacked_packets m' ! i)"
    "p \<notin> lp_packet_number ` set lost"
proof -
  have "least_unacked m + length (unacked_packets m) \<le> p \<or> least_unacked m \<le> p \<and> in_flight (unacked_packets m ! (p - least_unacked m))
      \<and> ti_encryption_level (unacked_packets m ! (p - least_unacked m)) = ti_encryption_level (unacked_packets m' ! i)
      \<and> p \<notin> lp_packet_number ` set lost"
    using assms(1-3) unfolding flight_after_def Let_def p(1) by blast
  then show "least_unacked m \<le> p" "in_flight (unacked_packets m ! (p - least_unacked m))"
    "ti_encryption_level (unacked_packets m ! (p - least_unacked m)) = ti_encryption_level (unacked_packets m' ! i)"
    "p \<notin> lp_packet_number ` set lost"
    using p(2) by auto
qed

lemma flight_after_space: "flight_after m lost m' \<Longrightarrow> GetPacketNumberSpace m' l = GetPacketNumberSpace m l"
  by (simp add: flight_after_def GetPacketNumberSpace_def)

lemma least_ok_after:
  assumes least: "least_ok a m" and after: "flight_after m lost m'"
  shows "least_ok a m'"
  unfolding least_ok_def
proof (intro conjI allI impI notI)
  show "least_in_flight a \<le> least_unacked m' + length (unacked_packets m')"
    using least after by (auto simp: least_ok_def flight_after_def)
  fix i
  let ?p = "least_unacked m' + i"
  assume i: "i < length (unacked_packets m')" and p: "?p < least_in_flight a" and f: "in_flight (unacked_packets m' ! i)"
    and s: "GetPacketNumberSpace m' (ti_encryption_level (unacked_packets m' ! i)) = packet_number_space a"
  have "least_in_flight a \<le> least_unacked m + length (unacked_packets m)" using least by (simp add: least_ok_def)
  then have e: "?p < least_unacked m + length (unacked_packets m)" using p by simp
  note j = flight_after_old [OF after i f refl e]
  have "?p - least_unacked m < length (unacked_packets m)" "least_unacked m + (?p - least_unacked m) = ?p" using j(1) e by simp_all
  then show False
    using least p s j(2,3) flight_after_space [OF after] unfolding least_ok_def by metis
qed

lemma least_ok_reference:
  assumes after: "flight_after m lost m'" and lost: "set (reference_lost a m time rtt L) \<subseteq> set lost"
    and L: "least_unacked m \<le> L" "L < least_unacked m + length (unacked_packets m)"
  shows "least_ok (reference_algorithm a m time rtt L) m'"
proof -
  let ?ps = "unacked_packets m"
  let ?c = "candidates a m L (least_unacked m) ?ps"
  let ?waiting = "filter (\<lambda>c. \<not> is_lost a m time rtt L c) ?c"
  let ?least = "if ?waiting = [] then L + 1 else fst (hd ?waiting)"
  have alg: "least_in_flight (reference_algorithm a m time rtt L) = ?least"
    "packet_number_space (reference_algorithm a m time rtt L) = packet_number_space a"
    by (simp_all add: reference_algorithm_def Let_def)
  have le: "?least \<le> L + 1"
  proof (cases "?waiting = []")
    case False
    then have "hd ?waiting \<in> set ?c" by (metis hd_in_set filter_is_subset subsetD)
    then have "(fst (hd ?waiting), snd (hd ?waiting)) \<in> set ?c" by simp
    from candidates_D(4) [OF this] show ?thesis using False by simp
  qed simp
  show ?thesis
    unfolding least_ok_def alg
  proof (intro conjI allI impI notI)
    show "?least \<le> least_unacked m' + length (unacked_packets m')" using le L(2) after by (auto simp: flight_after_def)
    fix i
    let ?p = "least_unacked m' + i" and ?j = "least_unacked m' + i - least_unacked m"
    assume i: "i < length (unacked_packets m')" and p: "?p < ?least" and f: "in_flight (unacked_packets m' ! i)"
      and s: "GetPacketNumberSpace m' (ti_encryption_level (unacked_packets m' ! i)) = packet_number_space a"
    have "?p \<le> L" using p le by simp
    then have e: "?p < least_unacked m + length ?ps" using L(2) by simp
    note j = flight_after_old [OF after i f refl e]
    have c: "(?p, ?ps ! ?j) \<in> set ?c"
      using candidates_I [OF j(1) e \<open>?p \<le> L\<close> j(2)] j(3) s flight_after_space [OF after] by simp
    have "\<not> is_lost a m time rtt L (?p, ?ps ! ?j)"
    proof
      assume "is_lost a m time rtt L (?p, ?ps ! ?j)"
      then have "lost_packet (?p, ?ps ! ?j) \<in> set (reference_lost a m time rtt L)" using c by (simp add: reference_lost_def)
      then show False using lost j(4) by (force simp: lost_packet_def)
    qed
    then have w: "(?p, ?ps ! ?j) \<in> set ?waiting" using c by simp
    then have "?waiting \<noteq> []" by (metis empty_iff empty_set)
    moreover have "sorted (map fst ?waiting)" using candidates_ascending(1) [of a m L "least_unacked m" ?ps] by (rule sorted_filter)
    ultimately have "fst (hd ?waiting) \<le> ?p" using w by (cases ?waiting) (auto simp del: filter.simps)
    then show False using p \<open>?waiting \<noteq> []\<close> by simp
  qed
qed

section \<open>All packet number spaces\<close>

definition detects :: "QuicUnackedPacketMap \<Rightarrow> PacketNumberSpace \<Rightarrow> bool" where
  "detects m s \<longleftrightarrow> IsInitialized (largest_acked_packets m s) \<and> least_unacked m \<le> largest_acked_packets m s"

definition uber_ok :: "UberLossAlgorithm \<Rightarrow> QuicUnackedPacketMap \<Rightarrow> bool" where
  "uber_ok u m \<longleftrightarrow> (\<forall>s \<in> set packet_number_spaces.
     packet_number_space (general_loss_algorithms u s) = s \<and> least_ok (general_loss_algorithms u s) m)"

definition reference_uber :: "UberLossAlgorithm \<Rightarrow> QuicUnackedPacketMap \<Rightarrow> int \<Rightarrow> RttStats \<Rightarrow> PacketNumberSpace \<Rightarrow> GeneralLossAlgorithm" where
  "reference_uber u m time rtt s =
     (if detects m s then reference_algorithm (general_loss_algorithms u s) m time rtt (largest_acked_packets m s)
      else general_loss_algorithms u s)"

definition reference_uber_lost ::
    "UberLossAlgorithm \<Rightarrow> QuicUnackedPacketMap \<Rightarrow> int \<Rightarrow> RttStats \<Rightarrow> PacketNumberSpace \<Rightarrow> LostPacket list" where
  "reference_uber_lost u m time rtt s =
     (if detects m s then reference_lost (general_loss_algorithms u s) m time rtt (largest_acked_packets m s) else [])"

lemma Uber_loop_reference:
  assumes ok: "unacked_ok m" and order: "sent_in_order (unacked_packets m)" and acked: "acked_ok m packets_acked"
    and fx: "quic_fix_packets_acked F \<or>
       (\<forall>s \<in> set packet_number_spaces. \<forall>acked \<in> set packets_acked. ap_packet_number acked \<le> largest_acked_packets m s)"
    and largest: "\<forall>s \<in> set packet_number_spaces. detects m s \<longrightarrow> largest_acked_packets m s < least_unacked m + length (unacked_packets m)"
    and spaces: "set spaces \<subseteq> set packet_number_spaces" "distinct spaces"
    and least: "\<forall>s \<in> set spaces. least_ok (general_loss_algorithms u s) m"
  shows "\<exists>u'. Uber_DetectLosses_loop F m time rtt packets_acked spaces (u, lost) =
      Some (u', lost @ concat (map (reference_uber_lost u m time rtt) spaces))
    \<and> (\<forall>s. general_loss_algorithms u' s = (if s \<in> set spaces then reference_uber u m time rtt s else general_loss_algorithms u s))"
  using spaces least
proof (induction spaces arbitrary: u lost)
  case (Cons s spaces)
  let ?L = "largest_acked_packets m s" and ?a = "general_loss_algorithms u s"
  have s: "s \<in> set packet_number_spaces" "s \<noteq> NUM_PACKET_NUMBER_SPACES" using Cons.prems(1) by (auto simp: packet_number_spaces_def)
  have get: "GetLargestAckedOfPacketNumberSpace m s = ?L" using s(2) by (simp add: GetLargestAckedOfPacketNumberSpace_def)
  have rest: "set spaces \<subseteq> set packet_number_spaces" "distinct spaces" "s \<notin> set spaces" using Cons.prems by auto
  show ?case
  proof (cases "detects m s")
    case False
    then have "Uber_DetectLosses_loop F m time rtt packets_acked (s # spaces) (u, lost)
        = Uber_DetectLosses_loop F m time rtt packets_acked spaces (u, lost)"
      by (auto simp: detects_def get Let_def)
    then show ?thesis
      using Cons.IH [OF rest(1,2), of u lost] Cons.prems(3) False by (auto simp: reference_uber_def reference_uber_lost_def)
  next
    case True
    then have L: "least_unacked m \<le> ?L" "?L < least_unacked m + length (unacked_packets m)" using largest s(1) by (auto simp: detects_def)
    have "quic_fix_packets_acked F \<or> (\<forall>acked \<in> set packets_acked. ap_packet_number acked \<le> ?L)" using fx s(1) by blast
    then have d: "DetectLosses F m time rtt ?L packets_acked (?a, lost) =
        Some (reference_algorithm ?a m time rtt ?L, lost @ reference_lost ?a m time rtt ?L)"
      using DetectLosses_reference [OF ok order _ acked L] Cons.prems(3) by simp
    let ?u = "u\<lparr>general_loss_algorithms := (general_loss_algorithms u)(s := reference_algorithm ?a m time rtt ?L)\<rparr>"
    let ?lost = "lost @ reference_lost ?a m time rtt ?L"
    have step: "Uber_DetectLosses_loop F m time rtt packets_acked (s # spaces) (u, lost)
        = Uber_DetectLosses_loop F m time rtt packets_acked spaces (?u, ?lost)"
      using True d by (simp add: detects_def get Let_def)
    have same: "general_loss_algorithms ?u t = general_loss_algorithms u t" if "t \<in> set spaces" for t using that rest(3) by auto
    obtain u' where u': "Uber_DetectLosses_loop F m time rtt packets_acked spaces (?u, ?lost) =
        Some (u', ?lost @ concat (map (reference_uber_lost ?u m time rtt) spaces))"
      "\<forall>t. general_loss_algorithms u' t = (if t \<in> set spaces then reference_uber ?u m time rtt t else general_loss_algorithms ?u t)"
      using Cons.IH [OF rest(1,2), of ?u ?lost] Cons.prems(3) same by auto
    have m: "map (reference_uber_lost ?u m time rtt) spaces = map (reference_uber_lost u m time rtt) spaces"
      using same by (simp add: reference_uber_lost_def)
    have "general_loss_algorithms u' t =
        (if t \<in> set (s # spaces) then reference_uber u m time rtt t else general_loss_algorithms u t)" for t
      using u'(2) same [of t] True rest(3) by (cases "t = s") (auto simp: reference_uber_def)
    then show ?thesis unfolding step u'(1) m using True by (auto simp: reference_uber_lost_def [of u m time rtt s])
  qed
qed simp


section \<open>An example\<close>

text \<open>Of the packets 1 and 3 of the handshake, packet 3 has been acknowledged, and packet 1 is late.\<close>

definition example_acked_map :: QuicUnackedPacketMap where
  "example_acked_map = MaybeUpdateLargestAckedOfPacketNumberSpace HANDSHAKE_DATA 3 (the (RemoveFromInFlight 3 example_map'))"

definition example_loss_flags :: LossFlags where
  "example_loss_flags = \<lparr>quic_eighth_rtt_loss_detection = False, quic_fix_packets_acked = True, quic_fix_adaptive_time_loss = True\<rparr>"

definition example_rtt :: RttStats where
  "example_rtt = \<lparr>latest_rtt = 1000, smoothed_rtt = 1000, previous_srtt = 1000\<rparr>"

definition example_ack :: "AckedPacket list" where
  "example_ack = [\<lparr>ap_packet_number = 3, ap_bytes_acked = 1200, ap_receive_timestamp = 0\<rparr>]"

lemma example_packets:
  "unacked_packets example_map' =
     [new_QuicTransmissionInfo ENCRYPTION_INITIAL 1 NOT_RETRANSMISSION 10 1200 False 0\<lparr>in_flight := True, ti_retransmission := 3\<rparr>,
      default_QuicTransmissionInfo\<lparr>ti_state := NEVER_SENT\<rparr>,
      new_QuicTransmissionInfo ENCRYPTION_INITIAL 1 HANDSHAKE_RETRANSMISSION 20 1200 True 0
        \<lparr>in_flight := True, retransmittable_frames := [MTU_DISCOVERY_FRAME]\<rparr>]"
  by (simp add: example_map_eval)

lemma example_acked_packets:
  "unacked_packets example_acked_map = (unacked_packets example_map')[2 := (unacked_packets example_map' ! 2)\<lparr>in_flight := False\<rparr>]"
  "least_unacked example_acked_map = 1" "RemoveFromInFlight 3 example_map' \<noteq> None"
  "largest_acked_packets example_acked_map = (\<lambda>_. UninitializedPacketNumber)(HANDSHAKE_DATA := 3)"
  "largest_sent_retransmittable_packets example_acked_map HANDSHAKE_DATA = 3"
  "GetPacketNumberSpace example_acked_map ENCRYPTION_INITIAL = HANDSHAKE_DATA"
  by (simp_all add: example_acked_map_def RemoveFromInFlight_def MaybeUpdateLargestAckedOfPacketNumberSpace_def example_map_eval fun_eq_iff)

lemma example_acked_run: "unacked_run example_notifier (example_acked_map, ())"
proof -
  obtain m where m: "RemoveFromInFlight 3 example_map' = Some m" using example_acked_packets(3) by blast
  have "unacked_run example_notifier (m, ())" by (rule unacked_run.in_flight [OF example_unacked_run m])
  then show ?thesis unfolding example_acked_map_def m option.sel by (rule unacked_run.largest_acked_of)
qed

lemmas example_loss_eval = example_acked_packets example_packets new_QuicTransmissionInfo_def default_QuicTransmissionInfo_def
  packet_number_spaces_def IsInitialized_def UninitializedPacketNumber_def U64_MAX_def

lemma example_loss_ok:
  "sent_in_order (unacked_packets example_acked_map)" "acked_ok example_acked_map example_ack"
  "\<forall>s \<in> set packet_number_spaces. detects example_acked_map s \<longrightarrow>
     largest_acked_packets example_acked_map s < least_unacked example_acked_map + length (unacked_packets example_acked_map)"
  "uber_ok (new_UberLossAlgorithm example_loss_flags kNack) example_acked_map"
proof -
  have l: "length (unacked_packets example_acked_map) = 3" by (simp add: example_loss_eval)
  have all: "(\<forall>i < 3. P i) \<longleftrightarrow> P 0 \<and> P 1 \<and> P 2" for P :: "nat \<Rightarrow> bool" by (auto simp: numeral_3_eq_3 numeral_2_eq_2 All_less_Suc)
  show "sent_in_order (unacked_packets example_acked_map)" by (simp add: sent_in_order_def example_loss_eval)
  show "acked_ok example_acked_map example_ack"
    unfolding acked_ok_def l all by (simp add: example_ack_def example_loss_eval)
  show "\<forall>s \<in> set packet_number_spaces. detects example_acked_map s \<longrightarrow>
     largest_acked_packets example_acked_map s < least_unacked example_acked_map + length (unacked_packets example_acked_map)"
    unfolding l by (simp add: detects_def example_loss_eval)
  show "uber_ok (new_UberLossAlgorithm example_loss_flags kNack) example_acked_map"
    unfolding uber_ok_def least_ok_def l all
    by (simp add: new_UberLossAlgorithm_def Uber_SetLossDetectionType_def new_GeneralLossAlgorithm_def SetLossDetectionType_def
        SetPacketNumberSpace_def Let_def packet_number_spaces_def example_acked_packets(2))
qed


end
