(* ===== verification/Quic_Sent_Packets.thy ===== *)
theory Quic_Sent_Packets
  imports Quic_Loss_Detection
begin

text \<open>
  The manager of sent packets (src/quic/core/quic_sent_packet_manager.cc and .h): what happens when a packet is sent, when
  an ACK frame arrives, and when the retransmission timer fires. The linked hash map of pending retransmissions is the
  list of its entries in their order of insertion; the iterator over the acknowledged intervals is the number of intervals
  that it has passed from the back.

  The host is a parameter: the session notifier, the clock, the congestion controller with its pacer, the visitor of
  network changes, and the update of the round trip statistics, which computes with floating point numbers. When the
  session retransmits frames at once, it sends packets through the manager, so that this function takes and returns the
  manager. The debug delegate is left out. An access out of range and a walk that does not end are \<open>None\<close>.
\<close>

section \<open>State\<close>

datatype AckResult =
  PACKETS_NEWLY_ACKED | NO_PACKETS_NEWLY_ACKED | UNSENT_PACKETS_ACKED | UNACKABLE_PACKETS_ACKED
| PACKETS_ACKED_IN_WRONG_PACKET_NUMBER_SPACE

datatype RetransmissionTimeoutMode = RTO_MODE | TLP_MODE | HANDSHAKE_MODE | LOSS_MODE

record QuicConnectionStats =
  bytes_spuriously_retransmitted :: nat
  packets_spuriously_retransmitted :: nat
  packets_lost_count :: nat
  crypto_retransmit_count :: nat
  loss_timeout_count :: nat
  tlp_count :: nat
  rto_count :: nat

record QuicSentPacketManager =
  unacked_map :: QuicUnackedPacketMap
  pending_retransmissions :: "(QuicPacketNumber \<times> TransmissionType) list"
  stats :: QuicConnectionStats
  rtt_stats :: RttStats
  uber_loss_algorithm :: UberLossAlgorithm
  first_rto_transmission :: QuicPacketNumber
  consecutive_rto_count :: nat
  consecutive_tlp_count :: nat
  consecutive_crypto_retransmission_count :: nat
  pending_timer_transmission_count :: nat
  max_tail_loss_probes :: nat
  max_rto_packets :: nat
  use_new_rto :: bool
  packets_acked :: "AckedPacket list"
  packets_lost :: "LostPacket list"
  largest_newly_acked :: QuicPacketNumber
  largest_mtu_acked :: u16
  handshake_confirmed :: bool
  largest_packet_peer_knows_is_acked :: QuicPacketNumber
  largest_packets_peer_knows_is_acked :: "PacketNumberSpace \<Rightarrow> QuicPacketNumber"
  last_ack_frame :: QuicAckFrame
  rtt_updated :: bool
  acked_packets_iter :: nat
  loss_removes_from_inflight :: bool

record 'x SentPacketHost =
  notifier :: "'x SessionNotifier"
  host_RetransmitFrames :: "QuicFrame list \<Rightarrow> TransmissionType \<Rightarrow> QuicSentPacketManager \<times> 'x \<Rightarrow> QuicSentPacketManager \<times> 'x"
  clock_Now :: "'x \<Rightarrow> int"
  loss_flags :: LossFlags
  quic_optimize_inflight_check :: bool
  UpdateRtt :: "int \<Rightarrow> int \<Rightarrow> int \<Rightarrow> RttStats \<Rightarrow> RttStats"
  ExpireSmoothedMetrics :: "RttStats \<Rightarrow> RttStats"
  sender_OnPacketSent :: "int \<Rightarrow> nat \<Rightarrow> QuicPacketNumber \<Rightarrow> u16 \<Rightarrow> bool \<Rightarrow> 'x \<Rightarrow> 'x"
  sender_OnCongestionEvent :: "bool \<Rightarrow> nat \<Rightarrow> int \<Rightarrow> AckedPacket list \<Rightarrow> LostPacket list \<Rightarrow> 'x \<Rightarrow> 'x"
  sender_OnRetransmissionTimeout :: "bool \<Rightarrow> 'x \<Rightarrow> 'x"
  record_bandwidth :: "int \<Rightarrow> RttStats \<Rightarrow> 'x \<Rightarrow> 'x"
  has_network_change_visitor :: bool
  OnCongestionChange :: "'x \<Rightarrow> 'x"
  OnPathMtuIncreased :: "u16 \<Rightarrow> 'x \<Rightarrow> 'x"

type_synonym 'x sent_world = "QuicSentPacketManager \<times> 'x"

abbreviation sm_decides :: "QuicSentPacketManager \<Rightarrow> bool" where
  "sm_decides s \<equiv> session_decides_what_to_write (unacked_map s)"

definition RetransmissionLeavesBytesInFlight :: "TransmissionType \<Rightarrow> bool" where
  "RetransmissionLeavesBytesInFlight type \<longleftrightarrow>
     type = TLP_RETRANSMISSION \<or> type = PROBING_RETRANSMISSION \<or> type = RTO_RETRANSMISSION"

definition ShouldForceRetransmission :: "TransmissionType \<Rightarrow> bool" where
  "ShouldForceRetransmission type \<longleftrightarrow>
     type = HANDSHAKE_RETRANSMISSION \<or> type = TLP_RETRANSMISSION \<or> type = PROBING_RETRANSMISSION \<or> type = RTO_RETRANSMISSION"

text \<open>Changes of the map inside the manager; the entries of the linked hash map by their keys.\<close>

definition on_map :: "(QuicUnackedPacketMap \<Rightarrow> QuicUnackedPacketMap option) \<Rightarrow> QuicSentPacketManager \<Rightarrow> QuicSentPacketManager option" where
  "on_map f s = map_option (\<lambda>m. s\<lparr>unacked_map := m\<rparr>) (f (unacked_map s))"

definition on_info ::
    "QuicPacketNumber \<Rightarrow> (QuicTransmissionInfo \<Rightarrow> QuicTransmissionInfo) \<Rightarrow> QuicSentPacketManager \<Rightarrow> QuicSentPacketManager option" where
  "on_info packet_number f s = on_map (\<lambda>m. map_option (\<lambda>info. set_TransmissionInfo packet_number (f info) m)
     (GetTransmissionInfo m packet_number)) s"

definition erase_pending :: "QuicPacketNumber \<Rightarrow> QuicSentPacketManager \<Rightarrow> QuicSentPacketManager" where
  "erase_pending packet_number s =
     s\<lparr>pending_retransmissions := filter (\<lambda>e. fst e \<noteq> packet_number) (pending_retransmissions s)\<rparr>"

definition sm_HasRetransmittableFrames :: "'x SentPacketHost \<Rightarrow> 'x sent_world \<Rightarrow> QuicTransmissionInfo \<Rightarrow> bool" where
  "sm_HasRetransmittableFrames H w info = HasRetransmittableFrames (notifier H) (snd w) (unacked_map (fst w)) info"

section \<open>Marking packets\<close>

definition HandleRetransmission ::
    "'x SentPacketHost \<Rightarrow> TransmissionType \<Rightarrow> QuicPacketNumber \<Rightarrow> 'x sent_world \<Rightarrow> 'x sent_world option" where
  "HandleRetransmission H transmission_type packet_number = (\<lambda>(s, x). do {
     info \<leftarrow> GetTransmissionInfo (unacked_map s) packet_number;
     if ShouldForceRetransmission transmission_type
     then Some (host_RetransmitFrames H (retransmittable_frames info) transmission_type (s, x))
     else let x1 = NotifyFramesLost (notifier H) info x
          in if retransmittable_frames info = [] then Some (s, x1)
             else do {
               s1 \<leftarrow> on_info packet_number (\<lambda>info. info\<lparr>ti_retransmission :=
                       (if transmission_type = LOSS_RETRANSMISSION then pn_plus (largest_sent_packet (unacked_map s)) 1
                        else UninitializedPacketNumber)\<rparr>) s;
               Some (s1, x1)
             }
   })"

definition MarkForRetransmission ::
    "'x SentPacketHost \<Rightarrow> TransmissionType \<Rightarrow> QuicPacketNumber \<Rightarrow> 'x sent_world \<Rightarrow> 'x sent_world option" where
  "MarkForRetransmission H transmission_type packet_number = (\<lambda>(s, x). do {
     s1 \<leftarrow> (if \<not> loss_removes_from_inflight s \<and> \<not> RetransmissionLeavesBytesInFlight transmission_type
             then on_map (RemoveFromInFlight packet_number) s else Some s);
     info \<leftarrow> GetTransmissionInfo (unacked_map s1) packet_number;
     if \<not> sm_decides s1
     then if \<not> sm_HasRetransmittableFrames H (s1, x) info then Some (s1, x)
          else if packet_number \<in> fst ` set (pending_retransmissions s1) then Some (s1, x)
          else Some (s1\<lparr>pending_retransmissions := pending_retransmissions s1 @ [(packet_number, transmission_type)]\<rparr>, x)
     else do {
       (s2, x2) \<leftarrow> HandleRetransmission H transmission_type packet_number (s1, x);
       s3 \<leftarrow> on_info packet_number (\<lambda>info. info\<lparr>ti_state := RetransmissionTypeToPacketState transmission_type\<rparr>) s2;
       Some (s3, x2)
     }
   })"

definition RecordOneSpuriousRetransmission :: "QuicTransmissionInfo \<Rightarrow> QuicSentPacketManager \<Rightarrow> QuicSentPacketManager" where
  "RecordOneSpuriousRetransmission info s =
     s\<lparr>stats := (stats s)\<lparr>bytes_spuriously_retransmitted := u64_add (bytes_spuriously_retransmitted (stats s)) (unat (ti_bytes_sent info)),
                          packets_spuriously_retransmitted := u64_add (packets_spuriously_retransmitted (stats s)) 1\<rparr>\<rparr>"

partial_function (option) GetNewestRetransmission_loop ::
    "QuicUnackedPacketMap \<Rightarrow> QuicPacketNumber \<Rightarrow> QuicPacketNumber \<Rightarrow> QuicPacketNumber option" where
  "GetNewestRetransmission_loop m packet_number retransmission =
     (if \<not> IsInitialized retransmission then Some packet_number
      else Option.bind (GetTransmissionInfo m retransmission) (\<lambda>info.
             GetNewestRetransmission_loop m retransmission (ti_retransmission info)))"

definition GetNewestRetransmission ::
    "QuicSentPacketManager \<Rightarrow> QuicPacketNumber \<Rightarrow> QuicTransmissionInfo \<Rightarrow> QuicPacketNumber option" where
  "GetNewestRetransmission s packet_number info =
     (if sm_decides s then Some packet_number
      else GetNewestRetransmission_loop (unacked_map s) packet_number (ti_retransmission info))"

partial_function (option) RecordSpuriousRetransmissions_loop ::
    "QuicPacketNumber \<Rightarrow> QuicSentPacketManager \<Rightarrow> QuicSentPacketManager option" where
  "RecordSpuriousRetransmissions_loop retransmission s =
     (if \<not> IsInitialized retransmission then Some s
      else Option.bind (GetTransmissionInfo (unacked_map s) retransmission) (\<lambda>info.
             RecordSpuriousRetransmissions_loop (ti_retransmission info) (RecordOneSpuriousRetransmission info s)))"

definition spurious_detected ::
    "'x SentPacketHost \<Rightarrow> QuicPacketNumber \<Rightarrow> 'x sent_world \<Rightarrow> QuicSentPacketManager option" where
  "spurious_detected H packet_number = (\<lambda>(s, x). do {
     u \<leftarrow> Uber_SpuriousRetransmitDetected (loss_flags H) (unacked_map s) (clock_Now H x) (rtt_stats s) packet_number (uber_loss_algorithm s);
     Some (s\<lparr>uber_loss_algorithm := u\<rparr>)
   })"

definition RecordSpuriousRetransmissions ::
    "'x SentPacketHost \<Rightarrow> QuicTransmissionInfo \<Rightarrow> QuicPacketNumber \<Rightarrow> 'x sent_world \<Rightarrow> QuicSentPacketManager option" where
  "RecordSpuriousRetransmissions H info acked_packet_number = (\<lambda>(s, x).
     if sm_decides s
     then let s1 = RecordOneSpuriousRetransmission info s
          in if ti_transmission_type info = LOSS_RETRANSMISSION then spurious_detected H acked_packet_number (s1, x) else Some s1
     else do {
       s1 \<leftarrow> RecordSpuriousRetransmissions_loop (ti_retransmission info) s;
       next_info \<leftarrow> GetTransmissionInfo (unacked_map s1) (ti_retransmission info);
       if ti_transmission_type next_info = LOSS_RETRANSMISSION
       then spurious_detected H (ti_retransmission info) (s1, x) else Some s1
     })"

definition notify_acked ::
    "'x SentPacketHost \<Rightarrow> QuicTransmissionInfo \<Rightarrow> int \<Rightarrow> int \<Rightarrow> 'x sent_world \<Rightarrow> bool \<times> 'x sent_world" where
  "notify_acked H info delay receive_timestamp = (\<lambda>(s, x).
     case NotifyFramesAcked (notifier H) info delay receive_timestamp (unacked_map s, x) of
       (new_data, m, x') \<Rightarrow> (new_data, s\<lparr>unacked_map := m\<rparr>, x'))"

definition flush_aggregated :: "'x SentPacketHost \<Rightarrow> int \<Rightarrow> 'x sent_world \<Rightarrow> 'x sent_world" where
  "flush_aggregated H delay = (\<lambda>(s, x).
     case NotifyAggregatedStreamFrameAcked (notifier H) delay (unacked_map s, x) of (m, x') \<Rightarrow> (s\<lparr>unacked_map := m\<rparr>, x'))"

text \<open>The part of \<open>MarkPacketHandled\<close> that tells the session, for the newest transmission and for an older one.\<close>

definition newest_handled ::
    "'x SentPacketHost \<Rightarrow> QuicPacketNumber \<Rightarrow> QuicTransmissionInfo \<Rightarrow> int \<Rightarrow> int \<Rightarrow> 'x sent_world \<Rightarrow> 'x sent_world option" where
  "newest_handled H packet_number info delay receive_timestamp w =
     (if sm_decides (fst w) \<and> ti_transmission_type info = NOT_RETRANSMISSION
      then case MaybeAggregateAckedStreamFrame (notifier H) info delay receive_timestamp (unacked_map (fst w), snd w) of
             (m, x) \<Rightarrow> Some ((fst w)\<lparr>unacked_map := m\<rparr>, x)
      else let w1 = (if sm_decides (fst w) then flush_aggregated H delay w else w);
               (new_data_acked, w2) = notify_acked H info delay receive_timestamp w1
           in if sm_decides (fst w2) \<and> \<not> new_data_acked \<and> ti_transmission_type info \<noteq> NOT_RETRANSMISSION
              then do {
                s \<leftarrow> RecordSpuriousRetransmissions H info packet_number w2;
                Some (s, snd w2)
              }
              else Some w2)"

definition older_handled ::
    "'x SentPacketHost \<Rightarrow> QuicPacketNumber \<Rightarrow> QuicTransmissionInfo \<Rightarrow> QuicPacketNumber \<Rightarrow> int \<Rightarrow> int \<Rightarrow> 'x sent_world \<Rightarrow> 'x sent_world option" where
  "older_handled H packet_number info newest_transmission delay receive_timestamp w = do {
     s1 \<leftarrow> RecordSpuriousRetransmissions H info packet_number w;
     newest_info \<leftarrow> GetTransmissionInfo (unacked_map s1) newest_transmission;
     let w2 = snd (notify_acked H newest_info delay receive_timestamp (s1, snd w));
     if ti_has_crypto_handshake newest_info
     then do {
       s3 \<leftarrow> on_map (RemoveFromInFlight newest_transmission) (fst w2);
       Some (s3, snd w2)
     }
     else Some w2
   }"

definition MarkPacketHandled ::
    "'x SentPacketHost \<Rightarrow> QuicPacketNumber \<Rightarrow> int \<Rightarrow> int \<Rightarrow> 'x sent_world \<Rightarrow> 'x sent_world option" where
  "MarkPacketHandled H packet_number delay receive_timestamp = (\<lambda>(s, x). do {
     info \<leftarrow> GetTransmissionInfo (unacked_map s) packet_number;
     newest_transmission \<leftarrow> GetNewestRetransmission s packet_number info;
     let s1 = erase_pending newest_transmission s;
     (s2, x2) \<leftarrow> (if newest_transmission = packet_number
                   then newest_handled H packet_number info delay receive_timestamp (s1, x)
                   else older_handled H packet_number info newest_transmission delay receive_timestamp (s1, x));
     let grows = (has_network_change_visitor H \<and> ti_bytes_sent info > largest_mtu_acked s2);
     let s3 = (if grows then s2\<lparr>largest_mtu_acked := ti_bytes_sent info\<rparr> else s2);
     let x3 = (if grows then OnPathMtuIncreased H (ti_bytes_sent info) x2 else x2);
     s4 \<leftarrow> on_map (RemoveFromInFlight packet_number) s3;
     s5 \<leftarrow> on_map (RemoveRetransmittability packet_number) s4;
     s6 \<leftarrow> on_info packet_number (\<lambda>info. info\<lparr>ti_state := ACKED\<rparr>) s5;
     Some (s6, x3)
   })"

section \<open>Losses and congestion\<close>

definition count_lost :: "QuicSentPacketManager \<Rightarrow> QuicSentPacketManager" where
  "count_lost s = s\<lparr>stats := (stats s)\<lparr>packets_lost_count := u64_add (packets_lost_count (stats s)) 1\<rparr>\<rparr>"

fun mark_lost :: "'x SentPacketHost \<Rightarrow> LostPacket list \<Rightarrow> 'x sent_world \<Rightarrow> 'x sent_world option" where
  "mark_lost H [] w = Some w"
| "mark_lost H (packet # packets) (s, x) = do {
     let s1 = count_lost s;
     s2 \<leftarrow> (if loss_removes_from_inflight s1 then on_map (RemoveFromInFlight (lp_packet_number packet)) s1 else Some s1);
     w \<leftarrow> MarkForRetransmission H LOSS_RETRANSMISSION (lp_packet_number packet) (s2, x);
     mark_lost H packets w
   }"

definition InvokeLossDetection :: "'x SentPacketHost \<Rightarrow> int \<Rightarrow> 'x sent_world \<Rightarrow> 'x sent_world option" where
  "InvokeLossDetection H time = (\<lambda>(s, x). do {
     let s1 = (if packets_acked s \<noteq> [] then s\<lparr>largest_newly_acked := ap_packet_number (last (packets_acked s))\<rparr> else s);
     (u, lost) \<leftarrow> Uber_DetectLosses (loss_flags H) (unacked_map s1) time (rtt_stats s1) (largest_newly_acked s1) (packets_acked s1)
                    (uber_loss_algorithm s1, packets_lost s1);
     mark_lost H lost (s1\<lparr>uber_loss_algorithm := u, packets_lost := lost\<rparr>, x)
   })"

definition MaybeInvokeCongestionEvent :: "'x SentPacketHost \<Rightarrow> bool \<Rightarrow> nat \<Rightarrow> int \<Rightarrow> 'x sent_world \<Rightarrow> 'x sent_world" where
  "MaybeInvokeCongestionEvent H updated prior_in_flight event_time = (\<lambda>(s, x).
     if \<not> updated \<and> packets_acked s = [] \<and> packets_lost s = [] then (s, x)
     else let x1 = sender_OnCongestionEvent H updated prior_in_flight event_time (packets_acked s) (packets_lost s) x
          in (s\<lparr>packets_acked := [], packets_lost := []\<rparr>,
              if has_network_change_visitor H then OnCongestionChange H x1 else x1))"

text \<open>The reset of the backoff counters on a new round trip time.\<close>

definition rtt_progress :: "'x SentPacketHost \<Rightarrow> bool \<Rightarrow> 'x sent_world \<Rightarrow> 'x sent_world" where
  "rtt_progress H updated = (\<lambda>(s, x).
     if \<not> updated then (s, x)
     else let spurious = (consecutive_rto_count s > 0 \<and> LargestAcked (last_ack_frame s) < first_rto_transmission s);
              real = (consecutive_rto_count s > 0 \<and> \<not> LargestAcked (last_ack_frame s) < first_rto_transmission s)
          in (s\<lparr>rtt_stats := (if spurious then ExpireSmoothedMetrics H (rtt_stats s) else rtt_stats s),
                consecutive_rto_count := 0, consecutive_tlp_count := 0, consecutive_crypto_retransmission_count := 0\<rparr>,
              if real \<and> \<not> use_new_rto s then sender_OnRetransmissionTimeout H True x else x))"

definition PostProcessNewlyAckedPackets :: "'x SentPacketHost \<Rightarrow> int \<Rightarrow> bool \<Rightarrow> nat \<Rightarrow> 'x sent_world \<Rightarrow> 'x sent_world option" where
  "PostProcessNewlyAckedPackets H ack_receive_time updated prior_bytes_in_flight w = do {
     let w1 = (if sm_decides (fst w) then flush_aggregated H (ack_delay_time (last_ack_frame (fst w))) w else w);
     (s2, x2) \<leftarrow> InvokeLossDetection H ack_receive_time w1;
     let s3 = (if consecutive_rto_count s2 > 0 \<and> \<not> use_new_rto s2 then s2\<lparr>packets_lost := []\<rparr> else s2);
     let (s4, x4) = MaybeInvokeCongestionEvent H updated prior_bytes_in_flight ack_receive_time (s3, x2);
     let s5 = s4\<lparr>unacked_map := RemoveObsoletePackets (notifier H) x4 (unacked_map s4)\<rparr>;
     let x5 = record_bandwidth H ack_receive_time (rtt_stats s5) x4;
     let (s6, x6) = rtt_progress H updated (s5, x5);
     let frame = last_ack_frame s6;
     Some (s6\<lparr>last_ack_frame := frame\<lparr>ack_packets := snd (RemoveUpTo (ack_packets frame) (least_unacked (unacked_map s6))),
                                       received_packet_times := []\<rparr>\<rparr>, x6)
   }"

section \<open>ACK frames\<close>

definition MaybeUpdateRTT ::
    "'x SentPacketHost \<Rightarrow> QuicPacketNumber \<Rightarrow> int \<Rightarrow> int \<Rightarrow> 'x sent_world \<Rightarrow> (bool \<times> QuicSentPacketManager) option" where
  "MaybeUpdateRTT H largest delay ack_receive_time = (\<lambda>(s, x).
     if \<not> IsUnacked (notifier H) x (unacked_map s) largest then Some (False, s)
     else do {
       info \<leftarrow> GetTransmissionInfo (unacked_map s) largest;
       if ti_sent_time info = 0 then Some (False, s)
       else Some (True, s\<lparr>rtt_stats := UpdateRtt H (ack_receive_time - ti_sent_time info) delay ack_receive_time (rtt_stats s)\<rparr>)
     })"

definition OnAckFrameStart ::
    "'x SentPacketHost \<Rightarrow> QuicPacketNumber \<Rightarrow> int \<Rightarrow> int \<Rightarrow> 'x sent_world \<Rightarrow> QuicSentPacketManager option" where
  "OnAckFrameStart H largest delay ack_receive_time w = do {
     (updated, s) \<leftarrow> MaybeUpdateRTT H largest delay ack_receive_time w;
     Some (s\<lparr>rtt_updated := updated, last_ack_frame := (last_ack_frame s)\<lparr>ack_delay_time := delay\<rparr>, acked_packets_iter := 0\<rparr>)
   }"

text \<open>The loop that adds the packets from \<open>acked\<close> down to \<open>newly_acked_start\<close>.\<close>

partial_function (option) add_newly_acked ::
    "QuicPacketNumber \<Rightarrow> QuicPacketNumber \<Rightarrow> AckedPacket list \<Rightarrow> AckedPacket list option" where
  "add_newly_acked newly_acked_start acked packets =
     (if \<not> acked \<ge> newly_acked_start then Some packets
      else let packets' = packets @ [\<lparr>ap_packet_number = acked, ap_bytes_acked = 0, ap_receive_timestamp = 0\<rparr>]
           in if acked = FirstSendingPacketNumber then Some packets'
              else add_newly_acked newly_acked_start (pn_dec acked) packets')"

text \<open>The loop over the intervals acknowledged before, from the last one that has not been passed.\<close>

fun OnAckRange_loop ::
    "QuicPacketNumber QuicInterval list \<Rightarrow> QuicPacketNumber \<Rightarrow> QuicPacketNumber \<Rightarrow> nat \<times> AckedPacket list
     \<Rightarrow> (nat \<times> AckedPacket list) option" where
  "OnAckRange_loop [] start upper (iter, packets) = do {
     packets' \<leftarrow> add_newly_acked start (pn_minus upper 1) packets;
     Some (iter, packets')
   }"
| "OnAckRange_loop (interval # intervals) start upper (iter, packets) = do {
     packets' \<leftarrow> add_newly_acked (max start (imax interval)) (pn_minus upper 1) packets;
     if start > imin interval then Some (iter, packets')
     else let upper' = min upper (imin interval)
          in if start < upper' then OnAckRange_loop intervals start upper' (iter + 1, packets') else Some (iter + 1, packets')
   }"

definition OnAckRange :: "QuicPacketNumber \<Rightarrow> QuicPacketNumber \<Rightarrow> QuicSentPacketManager \<Rightarrow> QuicSentPacketManager option" where
  "OnAckRange start upper s =
     (let frame = last_ack_frame s;
          increases = (\<not> IsInitialized (largest_acked frame) \<or> upper > pn_plus (largest_acked frame) 1);
          s1 = (if increases
                then s\<lparr>unacked_map := IncreaseLargestAcked (pn_minus upper 1) (unacked_map s),
                       last_ack_frame := frame\<lparr>largest_acked := pn_minus upper 1\<rparr>\<rparr> else s);
          least = least_unacked (unacked_map s1)
      in if IsInitialized least \<and> upper \<le> least then Some s1
         else do {
           (iter, packets) \<leftarrow> OnAckRange_loop (drop (acked_packets_iter s1) (rev (ack_packets (last_ack_frame s1))))
                                (max start least) upper (acked_packets_iter s1, packets_acked s1);
           Some (s1\<lparr>acked_packets_iter := iter, packets_acked := packets\<rparr>)
         })"

fun set_timestamp :: "QuicPacketNumber \<Rightarrow> int \<Rightarrow> AckedPacket list \<Rightarrow> AckedPacket list" where
  "set_timestamp packet_number timestamp [] = []"
| "set_timestamp packet_number timestamp (packet # packets) =
     (if ap_packet_number packet = packet_number then packet\<lparr>ap_receive_timestamp := timestamp\<rparr> # packets
      else packet # set_timestamp packet_number timestamp packets)"

definition OnAckTimestamp :: "QuicPacketNumber \<Rightarrow> int \<Rightarrow> QuicSentPacketManager \<Rightarrow> QuicSentPacketManager" where
  "OnAckTimestamp packet_number timestamp s =
     s\<lparr>last_ack_frame := (last_ack_frame s)\<lparr>received_packet_times := received_packet_times (last_ack_frame s) @ [(packet_number, timestamp)]\<rparr>,
       packets_acked := set_timestamp packet_number timestamp (packets_acked s)\<rparr>"

text \<open>
  The loop over the newly acknowledged packets: those before the current one, in the order of the vector, and those from
  it on. A result ends the loop and the operation.
\<close>

definition peer_knows :: "PacketNumberSpace \<Rightarrow> QuicTransmissionInfo \<Rightarrow> QuicSentPacketManager \<Rightarrow> QuicSentPacketManager" where
  "peer_knows space info s =
     (let s1 = s\<lparr>largest_packet_peer_knows_is_acked := UpdateMax (largest_packet_peer_knows_is_acked s) (ti_largest_acked info)\<rparr>
      in if supports_multiple_packet_number_spaces (unacked_map s)
         then s1\<lparr>largest_packets_peer_knows_is_acked := (largest_packets_peer_knows_is_acked s1)
                  (space := UpdateMax (largest_packets_peer_knows_is_acked s1 space) (ti_largest_acked info))\<rparr>
         else s1)"

fun OnAckFrameEnd_loop ::
    "'x SentPacketHost \<Rightarrow> EncryptionLevel \<Rightarrow> AckedPacket list \<Rightarrow> AckedPacket list \<Rightarrow> 'x sent_world
     \<Rightarrow> (AckResult option \<times> 'x sent_world) option" where
  "OnAckFrameEnd_loop H level before [] (s, x) = Some (None, s\<lparr>packets_acked := before\<rparr>, x)"
| "OnAckFrameEnd_loop H level before (acked # rest) (s, x) =
     (let packet_number = ap_packet_number acked;
          multiple = supports_multiple_packet_number_spaces (unacked_map s);
          fails = (\<lambda>result. Some (Some result, s\<lparr>packets_acked := before @ acked # rest\<rparr>, x))
      in do {
           info \<leftarrow> GetTransmissionInfo (unacked_map s) packet_number;
           let space = GetPacketNumberSpace (unacked_map s) (ti_encryption_level info);
           if \<not> IsAckable (ti_state info)
           then if ti_state info \<noteq> ACKED \<and> multiple
                then fails (if ti_state info = NEVER_SENT then UNSENT_PACKETS_ACKED else UNACKABLE_PACKETS_ACKED)
                else OnAckFrameEnd_loop H level (before @ [acked]) rest (s, x)
           else if multiple \<and> Utils_GetPacketNumberSpace level \<noteq> space
           then fails PACKETS_ACKED_IN_WRONG_PACKET_NUMBER_SPACE
           else do {
             let s1 = s\<lparr>last_ack_frame := (last_ack_frame s)\<lparr>ack_packets := Queue_Add (ack_packets (last_ack_frame s)) packet_number\<rparr>\<rparr>;
             let s2 = peer_knows space info s1;
             let acked' = (if in_flight info then acked\<lparr>ap_bytes_acked := ti_bytes_sent info\<rparr> else acked);
             let s3 = (if in_flight info then s2 else s2\<lparr>largest_newly_acked := packet_number\<rparr>);
             let s4 = s3\<lparr>unacked_map := MaybeUpdateLargestAckedOfPacketNumberSpace space packet_number (unacked_map s3)\<rparr>;
             w \<leftarrow> MarkPacketHandled H packet_number (ack_delay_time (last_ack_frame s4)) (ap_receive_timestamp acked') (s4, x);
             OnAckFrameEnd_loop H level (before @ [acked']) rest w
           }
         })"

definition OnAckFrameEnd ::
    "'x SentPacketHost \<Rightarrow> int \<Rightarrow> EncryptionLevel \<Rightarrow> 'x sent_world \<Rightarrow> (AckResult \<times> 'x sent_world) option" where
  "OnAckFrameEnd H ack_receive_time ack_decrypted_level = (\<lambda>(s, x). do {
     let prior_bytes_in_flight = bytes_in_flight (unacked_map s);
     (result, s1, x1) \<leftarrow> OnAckFrameEnd_loop H ack_decrypted_level [] (rev (packets_acked s)) (s, x);
     case result of
       Some r \<Rightarrow> Some (r, s1, x1)
     | None \<Rightarrow> do {
         let acked_new_packet = (packets_acked s1 \<noteq> []);
         w \<leftarrow> PostProcessNewlyAckedPackets H ack_receive_time (rtt_updated s1) prior_bytes_in_flight (s1, x1);
         Some (if acked_new_packet then PACKETS_NEWLY_ACKED else NO_PACKETS_NEWLY_ACKED, w)
       }
   })"

section \<open>Sending\<close>

definition OnPacketSent ::
    "'x SentPacketHost \<Rightarrow> SerializedPacket \<Rightarrow> QuicPacketNumber \<Rightarrow> int \<Rightarrow> TransmissionType \<Rightarrow> bool \<Rightarrow> 'x sent_world
     \<Rightarrow> (bool \<times> SerializedPacket \<times> 'x sent_world) option" where
  "OnPacketSent H packet original_packet_number sent_time transmission_type has_retransmittable_data = (\<lambda>(s, x).
     let s1 = (if IsInitialized original_packet_number then erase_pending original_packet_number s else s);
         s2 = (if pending_timer_transmission_count s1 > 0
               then s1\<lparr>pending_timer_transmission_count := pending_timer_transmission_count s1 - 1\<rparr> else s1);
         x1 = sender_OnPacketSent H sent_time (bytes_in_flight (unacked_map s2)) (sp_packet_number packet) (encrypted_length packet)
                has_retransmittable_data x
     in do {
          (packet', m, x2) \<leftarrow> AddSentPacket (notifier H) packet original_packet_number transmission_type sent_time
                                 has_retransmittable_data (unacked_map s2, x1);
          Some (has_retransmittable_data, packet', s2\<lparr>unacked_map := m\<rparr>, x2)
        })"

text \<open>The first pending retransmission, but crypto packets before others; \<open>begin()\<close> of an empty map is \<open>None\<close>.\<close>

fun first_crypto :: "QuicUnackedPacketMap \<Rightarrow> (QuicPacketNumber \<times> TransmissionType) list \<Rightarrow> (QuicPacketNumber \<times> TransmissionType) option option" where
  "first_crypto m [] = Some None"
| "first_crypto m (e # es) = do {
     info \<leftarrow> GetTransmissionInfo m (fst e);
     if ti_has_crypto_handshake info then Some (Some e) else first_crypto m es
   }"

definition sm_NextPendingRetransmission ::
    "'x SentPacketHost \<Rightarrow> 'x sent_world \<Rightarrow> (QuicPacketNumber \<times> TransmissionType \<times> QuicTransmissionInfo) option" where
  "sm_NextPendingRetransmission H = (\<lambda>(s, x).
     case pending_retransmissions s of
       [] \<Rightarrow> None
     | e # es \<Rightarrow> do {
         found \<leftarrow> (if HasPendingCryptoPackets (notifier H) x (unacked_map s) then first_crypto (unacked_map s) (e # es) else Some None);
         let (packet_number, transmission_type) = (case found of Some c \<Rightarrow> c | None \<Rightarrow> e);
         info \<leftarrow> GetTransmissionInfo (unacked_map s) packet_number;
         Some (packet_number, transmission_type, info)
       })"

fun keep_retransmittable ::
    "'x SentPacketHost \<Rightarrow> 'x sent_world \<Rightarrow> (QuicPacketNumber \<times> TransmissionType) list \<Rightarrow> (QuicPacketNumber \<times> TransmissionType) list option" where
  "keep_retransmittable H w [] = Some []"
| "keep_retransmittable H w (e # es) = do {
     info \<leftarrow> GetTransmissionInfo (unacked_map (fst w)) (fst e);
     es' \<leftarrow> keep_retransmittable H w es;
     Some (if sm_HasRetransmittableFrames H w info then e # es' else es')
   }"

definition sm_CancelRetransmissionsForStream :: "'x SentPacketHost \<Rightarrow> u32 \<Rightarrow> 'x sent_world \<Rightarrow> 'x sent_world option" where
  "sm_CancelRetransmissionsForStream H stream_id = (\<lambda>(s, x).
     if sm_decides s then Some (s, x)
     else do {
       s1 \<leftarrow> on_map (CancelRetransmissionsForStream stream_id) s;
       es \<leftarrow> keep_retransmittable H (s1, x) (pending_retransmissions s1);
       Some (s1\<lparr>pending_retransmissions := es\<rparr>, x)
     })"

section \<open>Loops over the map\<close>

text \<open>The numbers of the packets of the map, in the order of the iterators.\<close>

definition packet_numbers :: "QuicSentPacketManager \<Rightarrow> QuicPacketNumber list" where
  "packet_numbers s = map (\<lambda>i. pn_plus (least_unacked (unacked_map s)) i) [0..<length (unacked_packets (unacked_map s))]"

fun mark_all :: "'x SentPacketHost \<Rightarrow> TransmissionType \<Rightarrow> QuicPacketNumber list \<Rightarrow> 'x sent_world \<Rightarrow> 'x sent_world option" where
  "mark_all H type [] w = Some w"
| "mark_all H type (p # ps) w = Option.bind (MarkForRetransmission H type p w) (mark_all H type ps)"

fun RetransmitUnackedPackets_loop ::
    "'x SentPacketHost \<Rightarrow> TransmissionType \<Rightarrow> QuicPacketNumber list \<Rightarrow> 'x sent_world \<Rightarrow> 'x sent_world option" where
  "RetransmitUnackedPackets_loop H type [] w = Some w"
| "RetransmitUnackedPackets_loop H type (p # ps) w = do {
     info \<leftarrow> GetTransmissionInfo (unacked_map (fst w)) p;
     if type = ALL_UNACKED_RETRANSMISSION \<or> ti_encryption_level info = ENCRYPTION_ZERO_RTT
     then do {
       s1 \<leftarrow> (if loss_removes_from_inflight (fst w) \<and> in_flight info then on_map (RemoveFromInFlight p) (fst w) else Some (fst w));
       w2 \<leftarrow> (if sm_HasRetransmittableFrames H (s1, snd w) info then MarkForRetransmission H type p (s1, snd w) else Some (s1, snd w));
       RetransmitUnackedPackets_loop H type ps w2
     }
     else RetransmitUnackedPackets_loop H type ps w
   }"

definition RetransmitUnackedPackets :: "'x SentPacketHost \<Rightarrow> TransmissionType \<Rightarrow> 'x sent_world \<Rightarrow> 'x sent_world option" where
  "RetransmitUnackedPackets H type w = RetransmitUnackedPackets_loop H type (packet_numbers (fst w)) w"

text \<open>A packet that is neutered is neither in flight nor retransmitted any more.\<close>

definition neuter :: "QuicPacketNumber \<Rightarrow> QuicSentPacketManager \<Rightarrow> QuicSentPacketManager option" where
  "neuter p s = do {
     s1 \<leftarrow> on_map (RemoveFromInFlight p) (erase_pending p s);
     on_map (RemoveRetransmittability p) s1
   }"

fun NeuterUnencryptedPackets_loop :: "'x SentPacketHost \<Rightarrow> 'x \<Rightarrow> QuicPacketNumber list \<Rightarrow> QuicSentPacketManager \<Rightarrow> QuicSentPacketManager option" where
  "NeuterUnencryptedPackets_loop H x [] s = Some s"
| "NeuterUnencryptedPackets_loop H x (p # ps) s = do {
     info \<leftarrow> GetTransmissionInfo (unacked_map s) p;
     s1 \<leftarrow> (if sm_decides s
             then if retransmittable_frames info \<noteq> [] \<and> ti_encryption_level info = ENCRYPTION_INITIAL
                  then on_map (RemoveFromInFlight p) s else Some s
             else if ti_encryption_level info = ENCRYPTION_INITIAL
                     \<and> (loss_removes_from_inflight s \<or> sm_HasRetransmittableFrames H (s, x) info)
                  then neuter p s else Some s);
     NeuterUnencryptedPackets_loop H x ps s1
   }"

definition NeuterUnencryptedPackets :: "'x SentPacketHost \<Rightarrow> 'x sent_world \<Rightarrow> QuicSentPacketManager option" where
  "NeuterUnencryptedPackets H w = NeuterUnencryptedPackets_loop H (snd w) (packet_numbers (fst w)) (fst w)"

fun NeuterHandshakePackets_loop :: "'x SentPacketHost \<Rightarrow> 'x \<Rightarrow> QuicPacketNumber list \<Rightarrow> QuicSentPacketManager \<Rightarrow> QuicSentPacketManager option" where
  "NeuterHandshakePackets_loop H x [] s = Some s"
| "NeuterHandshakePackets_loop H x (p # ps) s = do {
     info \<leftarrow> GetTransmissionInfo (unacked_map s) p;
     let handshake = (GetPacketNumberSpace (unacked_map s) (ti_encryption_level info) = HANDSHAKE_DATA);
     s1 \<leftarrow> (if sm_decides s
             then if retransmittable_frames info \<noteq> [] \<and> handshake then on_map (RemoveFromInFlight p) s else Some s
             else if handshake \<and> sm_HasRetransmittableFrames H (s, x) info then neuter p s else Some s);
     NeuterHandshakePackets_loop H x ps s1
   }"

definition NeuterHandshakePackets :: "'x SentPacketHost \<Rightarrow> 'x sent_world \<Rightarrow> QuicSentPacketManager option" where
  "NeuterHandshakePackets H w = NeuterHandshakePackets_loop H (snd w) (packet_numbers (fst w)) (fst w)"

definition SetHandshakeConfirmed :: "'x SentPacketHost \<Rightarrow> 'x sent_world \<Rightarrow> QuicSentPacketManager option" where
  "SetHandshakeConfirmed H = (\<lambda>(s, x). NeuterHandshakePackets H (s\<lparr>handshake_confirmed := True\<rparr>, x))"

section \<open>The retransmission timer\<close>

definition may_retransmit :: "'x SentPacketHost \<Rightarrow> 'x sent_world \<Rightarrow> QuicTransmissionInfo \<Rightarrow> bool" where
  "may_retransmit H w info \<longleftrightarrow>
     \<not> (\<not> in_flight info \<or> sm_decides (fst w) \<and> ti_state info \<noteq> OUTSTANDING \<or> \<not> sm_HasRetransmittableFrames H w info)"

fun MaybeRetransmitOldestPacket_loop ::
    "'x SentPacketHost \<Rightarrow> TransmissionType \<Rightarrow> QuicPacketNumber list \<Rightarrow> 'x sent_world \<Rightarrow> (bool \<times> 'x sent_world) option" where
  "MaybeRetransmitOldestPacket_loop H type [] w = Some (False, w)"
| "MaybeRetransmitOldestPacket_loop H type (p # ps) w = do {
     info \<leftarrow> GetTransmissionInfo (unacked_map (fst w)) p;
     if \<not> may_retransmit H w info then MaybeRetransmitOldestPacket_loop H type ps w
     else do {
       w1 \<leftarrow> MarkForRetransmission H type p w;
       Some (True, w1)
     }
   }"

definition MaybeRetransmitOldestPacket :: "'x SentPacketHost \<Rightarrow> TransmissionType \<Rightarrow> 'x sent_world \<Rightarrow> (bool \<times> 'x sent_world) option" where
  "MaybeRetransmitOldestPacket H type w = MaybeRetransmitOldestPacket_loop H type (packet_numbers (fst w)) w"

text \<open>When the session decides, the packets are marked after the loop, because marking sends packets.\<close>

fun RetransmitCryptoPackets_loop ::
    "'x SentPacketHost \<Rightarrow> QuicPacketNumber list \<Rightarrow> QuicPacketNumber list \<Rightarrow> 'x sent_world \<Rightarrow> (QuicPacketNumber list \<times> 'x sent_world) option" where
  "RetransmitCryptoPackets_loop H [] later w = Some (later, w)"
| "RetransmitCryptoPackets_loop H (p # ps) later w = do {
     info \<leftarrow> GetTransmissionInfo (unacked_map (fst w)) p;
     if \<not> (may_retransmit H w info \<and> ti_has_crypto_handshake info) then RetransmitCryptoPackets_loop H ps later w
     else do {
       (s1, x1) \<leftarrow> (if sm_decides (fst w) then Some w else MarkForRetransmission H HANDSHAKE_RETRANSMISSION p w);
       RetransmitCryptoPackets_loop H ps (if sm_decides (fst w) then later @ [p] else later)
         (s1\<lparr>pending_timer_transmission_count := u64_add (pending_timer_transmission_count s1) 1\<rparr>, x1)
     }
   }"

definition RetransmitCryptoPackets :: "'x SentPacketHost \<Rightarrow> 'x sent_world \<Rightarrow> 'x sent_world option" where
  "RetransmitCryptoPackets H = (\<lambda>(s, x). do {
     let s1 = s\<lparr>consecutive_crypto_retransmission_count := u64_add (consecutive_crypto_retransmission_count s) 1\<rparr>;
     (later, w) \<leftarrow> RetransmitCryptoPackets_loop H (packet_numbers s1) [] (s1, x);
     mark_all H HANDSHAKE_RETRANSMISSION later w
   })"

fun RetransmitRtoPackets_loop ::
    "'x SentPacketHost \<Rightarrow> QuicPacketNumber list \<Rightarrow> QuicPacketNumber list \<Rightarrow> 'x sent_world \<Rightarrow> (QuicPacketNumber list \<times> 'x sent_world) option" where
  "RetransmitRtoPackets_loop H [] later w = Some (later, w)"
| "RetransmitRtoPackets_loop H (p # ps) later w = do {
     info \<leftarrow> GetTransmissionInfo (unacked_map (fst w)) p;
     let marks = ((\<not> sm_decides (fst w) \<or> ti_state info = OUTSTANDING) \<and> sm_HasRetransmittableFrames H w info
                  \<and> pending_timer_transmission_count (fst w) < max_rto_packets (fst w));
     let later' = (if marks \<and> sm_decides (fst w) then later @ [p] else later);
     (s1, x1) \<leftarrow> (if marks \<and> \<not> sm_decides (fst w) then MarkForRetransmission H RTO_RETRANSMISSION p w else Some w);
     let s2 = (if marks then s1\<lparr>pending_timer_transmission_count := u64_add (pending_timer_transmission_count s1) 1\<rparr> else s1);
     info2 \<leftarrow> GetTransmissionInfo (unacked_map s2) p;
     let has_retransmissions = (if sm_decides s2 then ti_state info2 \<noteq> OUTSTANDING else IsInitialized (ti_retransmission info2));
     s3 \<leftarrow> (if in_flight info2 \<and> \<not> has_retransmissions \<and> \<not> sm_HasRetransmittableFrames H (s2, x1) info2
             then on_map (RemoveFromInFlight p) s2 else Some s2);
     RetransmitRtoPackets_loop H ps later' (s3, x1)
   }"

definition RetransmitRtoPackets :: "'x SentPacketHost \<Rightarrow> 'x sent_world \<Rightarrow> 'x sent_world option" where
  "RetransmitRtoPackets H w = do {
     (later, s1, x1) \<leftarrow> RetransmitRtoPackets_loop H (packet_numbers (fst w)) [] w;
     let s2 = (if pending_timer_transmission_count s1 > 0
               then s1\<lparr>first_rto_transmission := (if consecutive_rto_count s1 = 0
                                                    then pn_plus (largest_sent_packet (unacked_map s1)) 1 else first_rto_transmission s1),
                       consecutive_rto_count := u64_add (consecutive_rto_count s1) 1\<rparr> else s1);
     mark_all H RTO_RETRANSMISSION later (s2, x1)
   }"

definition MaybeRetransmitTailLossProbe :: "'x SentPacketHost \<Rightarrow> 'x sent_world \<Rightarrow> (bool \<times> 'x sent_world) option" where
  "MaybeRetransmitTailLossProbe H w =
     (if pending_timer_transmission_count (fst w) = 0 then Some (False, w)
      else do {
        (sent, s1, x1) \<leftarrow> MaybeRetransmitOldestPacket H TLP_RETRANSMISSION w;
        if \<not> sent
        then do {
          w2 \<leftarrow> (if quic_optimize_inflight_check H
                  then RetransmitRtoPackets H (s1\<lparr>pending_timer_transmission_count := 0\<rparr>, x1) else Some (s1, x1));
          Some (False, w2)
        }
        else Some (True, s1, x1)
      })"

definition GetRetransmissionMode :: "'x SentPacketHost \<Rightarrow> 'x sent_world \<Rightarrow> RetransmissionTimeoutMode" where
  "GetRetransmissionMode H = (\<lambda>(s, x).
     if \<not> handshake_confirmed s \<and> HasPendingCryptoPackets (notifier H) x (unacked_map s) then HANDSHAKE_MODE
     else if GetLossTimeout (uber_loss_algorithm s) \<noteq> 0 then LOSS_MODE
     else if consecutive_tlp_count s < max_tail_loss_probes s
             \<and> (quic_optimize_inflight_check H \<or> HasUnackedRetransmittableFrames (notifier H) x (unacked_map s)) then TLP_MODE
     else RTO_MODE)"

definition OnRetransmissionTimeout :: "'x SentPacketHost \<Rightarrow> 'x sent_world \<Rightarrow> 'x sent_world option" where
  "OnRetransmissionTimeout H = (\<lambda>(s, x).
     case GetRetransmissionMode H (s, x) of
       HANDSHAKE_MODE \<Rightarrow>
         RetransmitCryptoPackets H (s\<lparr>stats := (stats s)\<lparr>crypto_retransmit_count := u64_add (crypto_retransmit_count (stats s)) 1\<rparr>\<rparr>, x)
     | LOSS_MODE \<Rightarrow> do {
         let s1 = s\<lparr>stats := (stats s)\<lparr>loss_timeout_count := u64_add (loss_timeout_count (stats s)) 1\<rparr>\<rparr>;
         let prior_in_flight = bytes_in_flight (unacked_map s1);
         let now = clock_Now H x;
         w \<leftarrow> InvokeLossDetection H now (s1, x);
         Some (MaybeInvokeCongestionEvent H False prior_in_flight now w)
       }
     | TLP_MODE \<Rightarrow>
         Some (s\<lparr>stats := (stats s)\<lparr>tlp_count := u64_add (tlp_count (stats s)) 1\<rparr>,
                 consecutive_tlp_count := u64_add (consecutive_tlp_count s) 1, pending_timer_transmission_count := 1\<rparr>, x)
     | RTO_MODE \<Rightarrow>
         RetransmitRtoPackets H (s\<lparr>stats := (stats s)\<lparr>rto_count := u64_add (rto_count (stats s)) 1\<rparr>\<rparr>, x))"

end
