(* ===== verification/Quic_Ack_Ranges.thy ===== *)
theory Quic_Ack_Ranges
  imports Quic_Sent_Packets Quic_Unacked_Invariant
begin

text \<open>
  The ranges of an ACK frame (\<open>QuicSentPacketManager::OnAckRange\<close>). The code walks over the packets acknowledged before
  with an iterator that never goes back during the frame; the reference takes the packets of the ranges that have not been
  acknowledged. Both give the same packets in the same order.
\<close>

section \<open>The reference\<close>

definition newly_acked :: "QuicPacketNumber \<Rightarrow> AckedPacket" where
  "newly_acked p = \<lparr>ap_packet_number = p, ap_bytes_acked = 0, ap_receive_timestamp = 0\<rparr>"

text \<open>The numbers from \<open>lower\<close> to before \<open>upper\<close> outside a set, the largest first.\<close>

definition outside :: "nat set \<Rightarrow> nat \<Rightarrow> nat \<Rightarrow> nat list" where
  "outside A lower upper = rev (filter (\<lambda>p. p \<notin> A) [lower..<upper])"

text \<open>The ranges of a frame arrive from the largest down and do not overlap.\<close>

fun descending_ranges :: "nat \<Rightarrow> (QuicPacketNumber \<times> QuicPacketNumber) list \<Rightarrow> bool" where
  "descending_ranges bound [] = True"
| "descending_ranges bound ((start, upper) # ranges) \<longleftrightarrow>
     1 \<le> start \<and> start < upper \<and> upper \<le> bound \<and> descending_ranges start ranges"

fun OnAckRanges :: "(QuicPacketNumber \<times> QuicPacketNumber) list \<Rightarrow> QuicSentPacketManager \<Rightarrow> QuicSentPacketManager option" where
  "OnAckRanges [] s = Some s"
| "OnAckRanges ((start, upper) # ranges) s = Option.bind (OnAckRange start upper s) (OnAckRanges ranges)"

lemma outside_set [simp]: "set (outside A lower upper) = {p. lower \<le> p \<and> p < upper \<and> p \<notin> A}"
  by (auto simp: outside_def)

lemma outside_descending: "sorted_wrt (>) (outside A lower upper)"
  by (simp add: outside_def sorted_wrt_rev sorted_wrt_filter)

lemma descending_unique:
  fixes xs ys :: "nat list"
  assumes "sorted_wrt (>) xs" "sorted_wrt (>) ys" "set xs = set ys"
  shows "xs = ys"
proof -
  have "sorted_wrt (<) (rev xs)" "sorted_wrt (<) (rev ys)" using assms(1,2) by (simp_all add: sorted_wrt_rev)
  then have "rev xs = rev ys" using strict_sorted_equal [of "rev xs" "rev ys"] assms(3) by simp
  then show ?thesis by simp
qed

lemma outside_empty: "upper \<le> lower \<Longrightarrow> outside A lower upper = []"
  by (simp add: outside_def)

lemma outside_split: "lower \<le> middle \<Longrightarrow> middle \<le> upper \<Longrightarrow> outside A lower upper = outside A middle upper @ outside A lower middle"
  by (rule descending_unique) (auto simp: outside_descending sorted_wrt_append)

lemma outside_cong: "(\<And>p. lower \<le> p \<Longrightarrow> p < upper \<Longrightarrow> p \<in> A \<longleftrightarrow> p \<in> B) \<Longrightarrow> outside A lower upper = outside B lower upper"
  by (rule descending_unique) (auto simp: outside_descending)

section \<open>The loops\<close>

lemma add_newly_acked_outside:
  assumes "1 \<le> lower" "1 \<le> upper" "upper < 2 ^ 64"
  shows "add_newly_acked lower (pn_minus upper 1) packets = Some (packets @ map newly_acked (outside {} lower upper))"
  using assms
proof (induction upper arbitrary: packets)
  case (Suc upper)
  have m: "pn_minus (Suc upper) 1 = upper" using Suc.prems by (simp add: pn_minus_def u64_sub_small)
  show ?case
  proof (cases "lower \<le> upper")
    case False
    then show ?thesis unfolding m by (subst add_newly_acked.simps) (simp add: outside_empty)
  next
    case True
    then have o: "outside {} lower (Suc upper) = upper # outside {} lower upper" by (simp add: outside_def)
    show ?thesis
    proof (cases "upper = 1")
      case one: True
      then have "lower = 1" using True Suc.prems(1) by simp
      then show ?thesis using one True unfolding m o
        by (subst add_newly_acked.simps) (simp add: FirstSendingPacketNumber_def outside_empty newly_acked_def)
    next
      case False
      have d: "pn_dec upper = pn_minus upper 1" by (simp add: pn_dec_def pn_minus_def)
      have up: "1 \<le> upper" "upper < 2 ^ 64" using True Suc.prems by simp_all
      note IH = Suc.IH [OF Suc.prems(1) up]
      show ?thesis using False True IH [of "packets @ [newly_acked upper]"] unfolding m o
        by (subst add_newly_acked.simps) (simp add: FirstSendingPacketNumber_def newly_acked_def [symmetric] d)
    qed
  qed
qed simp

lemma Valid_rev_Cons:
  "Valid (rev (i # S)) \<longleftrightarrow> Valid (rev S) \<and> imin i < imax i \<and> (\<forall>j \<in> set S. imax j < imin i)"
  by (auto simp: Valid_append Valid_Cons)

lemma below_points: "\<forall>j \<in> set S. imax j < b \<Longrightarrow> p \<in> set_points S \<Longrightarrow> p < b"
  by (auto simp: set_points_def points_def)

text \<open>
  The loop adds the packets of the range outside the intervals that are left, and passes only intervals that do not reach
  below the range.
\<close>

lemma OnAckRange_loop_outside:
  assumes "Valid (rev ivs)" "1 \<le> start" "start < upper" "upper < 2 ^ 64"
  shows "\<exists>j \<le> length ivs. OnAckRange_loop ivs start upper (iter, packets) =
     Some (iter + j, packets @ map newly_acked (outside (set_points ivs) start upper))
   \<and> (\<forall>iv \<in> set (take j ivs). start \<le> imin iv)"
  using assms
proof (induction ivs arbitrary: upper iter packets)
  case Nil
  then show ?case using add_newly_acked_outside [of start upper packets] by simp
next
  case (Cons iv ivs)
  have iv: "Valid (rev ivs)" "imin iv < imax iv" "\<forall>j \<in> set ivs. imax j < imin iv"
    using Cons.prems(1) unfolding Valid_rev_Cons by simp_all
  let ?A = "set_points (iv # ivs)"
  have A: "p \<in> ?A \<longleftrightarrow> p < imax iv" if "imin iv \<le> p" for p
    using that below_points [OF iv(3), of p] by (auto simp: points_def)
  have A': "p \<in> ?A \<longleftrightarrow> p \<in> set_points ivs" if "p < imin iv" for p using that by (auto simp: points_def)
  let ?packets = "packets @ map newly_acked (outside {} (max start (imax iv)) upper)"
  have add: "add_newly_acked (max start (imax iv)) (pn_minus upper 1) packets = Some ?packets"
    using add_newly_acked_outside [of "max start (imax iv)" upper packets] Cons.prems(2-4) by simp
  have part: "outside {} (max start (imax iv)) upper = outside ?A lower upper"
    if "imin iv \<le> lower" "start \<le> lower" "lower \<le> max start (imax iv)" for lower
  proof (rule descending_unique)
    show "set (outside {} (max start (imax iv)) upper) = set (outside ?A lower upper)"
    proof (intro set_eqI)
      fix p
      show "p \<in> set (outside {} (max start (imax iv)) upper) \<longleftrightarrow> p \<in> set (outside ?A lower upper)"
      proof (cases "lower \<le> p")
        case True
        then have "p \<in> ?A \<longleftrightarrow> p < imax iv" using A that(1) by simp
        then show ?thesis using True that(2,3) by (auto simp del: set_points_simps)
      next
        case False
        then show ?thesis using that(3) by (auto simp del: set_points_simps)
      qed
    qed
  qed (rule outside_descending)+
  show ?case
  proof (cases "start > imin iv")
    case True
    then show ?thesis using part [of start] add by (intro exI [of _ 0]) simp
  next
    case False
    let ?upper = "min upper (imin iv)"
    have low: "?packets @ map newly_acked (outside (set_points ivs) start ?upper) = packets @ map newly_acked (outside ?A start upper)"
    proof -
      have "outside {} (max start (imax iv)) upper = outside ?A ?upper upper"
      proof (cases "upper \<le> imin iv")
        case True
        then show ?thesis using iv(2) by (simp add: outside_empty)
      next
        case False
        then show ?thesis using part [of "imin iv"] \<open>\<not> start > imin iv\<close> iv(2) by simp
      qed
      moreover have "outside (set_points ivs) start ?upper = outside ?A start ?upper"
        by (rule outside_cong) (simp add: A' del: set_points_simps)
      moreover have "outside ?A start upper = outside ?A ?upper upper @ outside ?A start ?upper"
        using False Cons.prems(3) by (intro outside_split) simp_all
      ultimately show ?thesis by simp
    qed
    show ?thesis
    proof (cases "start < ?upper")
      case True
      have up: "?upper < 2 ^ 64" using Cons.prems(4) by simp
      obtain j where j: "j \<le> length ivs" "OnAckRange_loop ivs start ?upper (iter + 1, ?packets) =
          Some (iter + 1 + j, ?packets @ map newly_acked (outside (set_points ivs) start ?upper))"
        "\<forall>iv \<in> set (take j ivs). start \<le> imin iv"
        using Cons.IH [OF iv(1) Cons.prems(2) True up, of "iter + 1" ?packets] by (elim exE conjE) (rule that)
      have "OnAckRange_loop (iv # ivs) start upper (iter, packets) = OnAckRange_loop ivs start ?upper (iter + 1, ?packets)"
        using add False True by simp
      then have "OnAckRange_loop (iv # ivs) start upper (iter, packets) =
          Some (iter + Suc j, packets @ map newly_acked (outside ?A start upper))"
        unfolding j(2) low by simp
      then show ?thesis using j(1,3) False by (intro exI [of _ "Suc j"]) simp
    next
      case last: False
      have "OnAckRange_loop (iv # ivs) start upper (iter, packets) = Some (iter + 1, ?packets)"
        using add False last Cons.prems(3) by simp
      moreover have "?packets = packets @ map newly_acked (outside ?A start upper)"
        using low last by (simp add: outside_empty del: set_points_simps)
      ultimately show ?thesis using False by (intro exI [of _ 1]) simp
    qed
  qed
qed

section \<open>A frame\<close>

lemma OnAckRange_outside:
  assumes Q: "Valid (ack_packets (last_ack_frame s))" and r: "1 \<le> start" "start < upper" "upper < U64_MAX"
    and least: "IsInitialized (least_unacked (unacked_map s))"
    and largest: "largest_acked (last_ack_frame s) < 2 ^ 64"
    and passed: "\<forall>iv \<in> set (take (acked_packets_iter s) (rev (ack_packets (last_ack_frame s)))). upper \<le> imin iv"
  obtains s' where "OnAckRange start upper s = Some s'"
    "packets_acked s' = packets_acked s @ map newly_acked
       (outside (set_points (ack_packets (last_ack_frame s))) (max start (least_unacked (unacked_map s))) upper)"
    "ack_packets (last_ack_frame s') = ack_packets (last_ack_frame s)"
    "\<forall>iv \<in> set (take (acked_packets_iter s') (rev (ack_packets (last_ack_frame s)))). start \<le> imin iv"
    "least_unacked (unacked_map s') = least_unacked (unacked_map s)" "unacked_packets (unacked_map s') = unacked_packets (unacked_map s)"
    "largest_acked (last_ack_frame s') = UpdateMax (largest_acked (last_ack_frame s)) (upper - 1)"
proof -
  let ?Q = "ack_packets (last_ack_frame s)" and ?k = "acked_packets_iter s" and ?least = "least_unacked (unacked_map s)"
  define s1 where "s1 = (if \<not> IsInitialized (largest_acked (last_ack_frame s)) \<or> upper > pn_plus (largest_acked (last_ack_frame s)) 1
    then s\<lparr>unacked_map := IncreaseLargestAcked (pn_minus upper 1) (unacked_map s),
           last_ack_frame := (last_ack_frame s)\<lparr>largest_acked := pn_minus upper 1\<rparr>\<rparr> else s)"
  have s1: "ack_packets (last_ack_frame s1) = ?Q" "acked_packets_iter s1 = ?k" "packets_acked s1 = packets_acked s"
    "least_unacked (unacked_map s1) = ?least" "unacked_packets (unacked_map s1) = unacked_packets (unacked_map s)"
    by (simp_all add: s1_def IncreaseLargestAcked_def)
  have minus: "pn_minus upper 1 = upper - 1" using r by (simp add: pn_minus_def u64_sub_small U64_MAX_def)
  have large: "largest_acked (last_ack_frame s1) = UpdateMax (largest_acked (last_ack_frame s)) (upper - 1)"
  proof -
    have "IsInitialized (upper - 1)" using r(3) by (simp add: IsInitialized_def UninitializedPacketNumber_def U64_MAX_def)
    moreover have "pn_plus (largest_acked (last_ack_frame s)) 1 = largest_acked (last_ack_frame s) + 1"
      if "IsInitialized (largest_acked (last_ack_frame s))"
      using that largest by (simp add: IsInitialized_def UninitializedPacketNumber_def U64_MAX_def pn_plus_def u64_add_small)
    ultimately show ?thesis unfolding s1_def minus by (auto simp: UpdateMax_def max_def)
  qed
  have run: "OnAckRange start upper s = (if upper \<le> ?least then Some s1 else do {
      (iter, packets) \<leftarrow> OnAckRange_loop (drop ?k (rev ?Q)) (max start ?least) upper (?k, packets_acked s);
      Some (s1\<lparr>acked_packets_iter := iter, packets_acked := packets\<rparr>) })"
    unfolding OnAckRange_def Let_def s1_def [symmetric] s1(1-4) using least by simp
  show thesis
  proof (cases "upper \<le> ?least")
    case True
    have "\<forall>iv \<in> set (take (acked_packets_iter s1) (rev ?Q)). start \<le> imin iv" using passed r(2) unfolding s1(2) by force
    then show thesis using True by (intro that [of s1]) (simp_all add: run s1 large outside_empty)
  next
    case False
    let ?start = "max start ?least" and ?ivs = "drop ?k (rev ?Q)"
    have V: "Valid (rev ?ivs)" using Q append_take_drop_id [of "length ?Q - ?k" ?Q] Valid_append [of "take (length ?Q - ?k) ?Q" "drop (length ?Q - ?k) ?Q"]
      by (simp add: rev_drop)
    have b: "1 \<le> ?start" "?start < upper" "upper < 2 ^ 64" using r False by (simp_all add: U64_MAX_def)
    obtain j where j: "j \<le> length ?ivs" "OnAckRange_loop ?ivs ?start upper (?k, packets_acked s) =
        Some (?k + j, packets_acked s @ map newly_acked (outside (set_points ?ivs) ?start upper))"
      "\<forall>iv \<in> set (take j ?ivs). ?start \<le> imin iv"
      using OnAckRange_loop_outside [OF V b, of ?k "packets_acked s"] by (elim exE conjE) (rule that)
    have o: "outside (set_points ?ivs) ?start upper = outside (set_points ?Q) ?start upper"
    proof (rule outside_cong)
      fix p assume p: "p < upper"
      have "p \<notin> set_points (take ?k (rev ?Q))" using passed p by (force simp: set_points_def points_def)
      moreover have "set_points ?Q = set_points (take ?k (rev ?Q)) \<union> set_points ?ivs"
        unfolding set_points_def by (metis append_take_drop_id set_append set_rev UN_Un)
      ultimately show "p \<in> set_points ?ivs \<longleftrightarrow> p \<in> set_points ?Q" by simp
    qed
    let ?s' = "s1\<lparr>acked_packets_iter := ?k + j, packets_acked := packets_acked s @ map newly_acked (outside (set_points ?Q) ?start upper)\<rparr>"
    have "\<forall>iv \<in> set (take (?k + j) (rev ?Q)). start \<le> imin iv"
      using passed j(3) r(2) unfolding take_add set_append by force
    then show thesis using False j(2) by (intro that [of ?s']) (simp_all add: run o s1 large)
  qed
qed

lemma descending_ranges_bound: "descending_ranges bound ranges \<Longrightarrow> (start, upper) \<in> set ranges \<Longrightarrow> start < upper \<and> upper \<le> bound"
  by (induction bound ranges rule: descending_ranges.induct) fastforce+

lemma OnAckRanges_outside:
  assumes "Valid (ack_packets (last_ack_frame s))" "descending_ranges bound ranges" "bound < U64_MAX"
    and "IsInitialized (least_unacked (unacked_map s))" "largest_acked (last_ack_frame s) < 2 ^ 64"
    and "\<forall>iv \<in> set (take (acked_packets_iter s) (rev (ack_packets (last_ack_frame s)))). bound \<le> imin iv"
  shows "\<exists>s'. OnAckRanges ranges s = Some s' \<and> packets_acked s' = packets_acked s @ map newly_acked
       (rev (filter (\<lambda>p. p \<notin> set_points (ack_packets (last_ack_frame s)) \<and> (\<exists>(start, upper) \<in> set ranges. start \<le> p \<and> p < upper))
              [least_unacked (unacked_map s)..<bound]))
     \<and> ack_packets (last_ack_frame s') = ack_packets (last_ack_frame s) \<and> unacked_packets (unacked_map s') = unacked_packets (unacked_map s)
     \<and> least_unacked (unacked_map s') = least_unacked (unacked_map s)
     \<and> largest_acked (last_ack_frame s') = (case ranges of [] \<Rightarrow> largest_acked (last_ack_frame s)
          | (start, upper) # _ \<Rightarrow> UpdateMax (largest_acked (last_ack_frame s)) (upper - 1))"
  using assms
proof (induction ranges arbitrary: s bound)
  case (Cons range ranges)
  obtain start upper where range: "range = (start, upper)" by (cases range)
  let ?Q = "ack_packets (last_ack_frame s)" and ?least = "least_unacked (unacked_map s)" and ?L = "largest_acked (last_ack_frame s)"
  have r: "1 \<le> start" "start < upper" "upper \<le> bound" "descending_ranges start ranges"
    using Cons.prems(2) unfolding range by simp_all
  have u: "upper < U64_MAX" and passed: "\<forall>iv \<in> set (take (acked_packets_iter s) (rev ?Q)). upper \<le> imin iv"
    using r(3) Cons.prems(3,6) by force+
  obtain s1 where s1: "OnAckRange start upper s = Some s1"
    "packets_acked s1 = packets_acked s @ map newly_acked (outside (set_points ?Q) (max start ?least) upper)"
    "ack_packets (last_ack_frame s1) = ?Q" "\<forall>iv \<in> set (take (acked_packets_iter s1) (rev ?Q)). start \<le> imin iv"
    "least_unacked (unacked_map s1) = ?least" "unacked_packets (unacked_map s1) = unacked_packets (unacked_map s)"
    "largest_acked (last_ack_frame s1) = UpdateMax ?L (upper - 1)"
    by (rule OnAckRange_outside [OF Cons.prems(1) r(1,2) u Cons.prems(4,5) passed])
  have d: "upper - 1 < 2 ^ 64" using u unfolding U64_MAX_def by linarith
  have l: "start < U64_MAX" "UpdateMax ?L (upper - 1) < 2 ^ 64"
    using r(2) u d Cons.prems(5) by (simp_all add: UpdateMax_def)
  have i: "IsInitialized (upper - 1)" using u by (simp add: IsInitialized_def UninitializedPacketNumber_def)
  note IH = Cons.IH [of s1 start, unfolded s1(3,5,6,7), OF Cons.prems(1) r(4) l(1) Cons.prems(4) l(2) s1(4)]
  let ?in = "\<lambda>ranges p. \<exists>(start, upper) \<in> set ranges. start \<le> p \<and> p < upper"
  have tail: "p < start" if "?in ranges p" for p using that descending_ranges_bound [OF r(4)] by force
  have list: "outside (set_points ?Q) (max start ?least) upper @ rev (filter (\<lambda>p. p \<notin> set_points ?Q \<and> ?in ranges p) [?least..<start])
      = rev (filter (\<lambda>p. p \<notin> set_points ?Q \<and> ?in (range # ranges) p) [?least..<bound])" (is "?l = ?r")
  proof (rule descending_unique)
    show "sorted_wrt (>) ?l" "sorted_wrt (>) ?r"
      by (auto simp: sorted_wrt_append outside_descending sorted_wrt_rev sorted_wrt_filter)
    show "set ?l = set ?r" using r(2,3) tail unfolding range by fastforce
  qed
  have top: "UpdateMax (UpdateMax ?L (upper - 1)) (b - 1) = UpdateMax ?L (upper - 1)" if "ranges = (a, b) # rest" for a b rest
    using that r(2,4) i by (auto simp: UpdateMax_def max_def)
  obtain s' where s': "OnAckRanges ranges s1 = Some s'" "packets_acked s' = packets_acked s1 @ map newly_acked
      (rev (filter (\<lambda>p. p \<notin> set_points ?Q \<and> ?in ranges p) [?least..<start]))"
    "ack_packets (last_ack_frame s') = ?Q" "unacked_packets (unacked_map s') = unacked_packets (unacked_map s)"
    "least_unacked (unacked_map s') = ?least" "largest_acked (last_ack_frame s') = (case ranges of [] \<Rightarrow> UpdateMax ?L (upper - 1)
          | (start, b) # _ \<Rightarrow> UpdateMax (UpdateMax ?L (upper - 1)) (b - 1))"
    using IH by (elim exE conjE) (rule that)
  show ?case
  proof (intro exI [of _ s'] conjI)
    show "OnAckRanges (range # ranges) s = Some s'" using s1(1) s'(1) by (simp add: range)
    show "packets_acked s' = packets_acked s @ map newly_acked (rev (filter (\<lambda>p. p \<notin> set_points ?Q \<and> ?in (range # ranges) p) [?least..<bound]))"
      unfolding s'(2) s1(2) list [symmetric] by simp
    show "largest_acked (last_ack_frame s') = (case range # ranges of [] \<Rightarrow> ?L | (start, upper) # _ \<Rightarrow> UpdateMax ?L (upper - 1))"
      unfolding s'(6) range using top by (cases ranges) auto
  qed (rule s'(3-5))+
qed simp

section \<open>Properties\<close>

text \<open>
  C12: The ranges of an ACK frame, given from the largest down after \<open>OnAckFrameStart\<close>, leave in \<open>packets_acked_\<close> exactly the
  packets of the ranges that are not below the least unacked packet and that no earlier frame has acknowledged, each once and
  in descending order, for every split into ranges and every set of packets acknowledged before; the largest acknowledged
  packet grows to the top of the first range, and neither the packets of the map nor those acknowledged before change.
\<close>

theorem ack_ranges_newly_acked:
  assumes "OnAckFrameStart H largest delay time (s0, x) = Some s" "packets_acked s0 = []"
    and "Valid (ack_packets (last_ack_frame s0))" "IsInitialized (least_unacked (unacked_map s0))" "largest_acked (last_ack_frame s0) < 2 ^ 64"
    and "descending_ranges bound ranges" "bound < U64_MAX"
  shows "\<exists>s'. OnAckRanges ranges s = Some s' \<and> packets_acked s' = map newly_acked
       (rev (filter (\<lambda>p. p \<notin> set_points (ack_packets (last_ack_frame s0)) \<and> (\<exists>(start, upper) \<in> set ranges. start \<le> p \<and> p < upper))
              [least_unacked (unacked_map s0)..<bound]))
     \<and> ack_packets (last_ack_frame s') = ack_packets (last_ack_frame s0)
     \<and> unacked_packets (unacked_map s') = unacked_packets (unacked_map s0)
     \<and> least_unacked (unacked_map s') = least_unacked (unacked_map s0)
     \<and> largest_acked (last_ack_frame s') = (case ranges of [] \<Rightarrow> largest_acked (last_ack_frame s0)
          | (start, upper) # _ \<Rightarrow> UpdateMax (largest_acked (last_ack_frame s0)) (upper - 1))"
proof -
  have s: "unacked_map s = unacked_map s0" "ack_packets (last_ack_frame s) = ack_packets (last_ack_frame s0)"
    "largest_acked (last_ack_frame s) = largest_acked (last_ack_frame s0)" "acked_packets_iter s = 0" "packets_acked s = []"
    using assms(1,2) by (auto simp: OnAckFrameStart_def MaybeUpdateRTT_def bind_eq_Some_conv split: if_splits)
  show ?thesis using OnAckRanges_outside [of s bound ranges, unfolded s] assms(3-7) by simp
qed

section \<open>An example\<close>

text \<open>Of the packets 1 and 3 of the handshake, packet 3 has been acknowledged; packet 2 was never sent.\<close>

definition example_manager :: QuicSentPacketManager where
  "example_manager =
     \<lparr>unacked_map = (new_QuicUnackedPacketMap IS_CLIENT)
        \<lparr>largest_sent_packet := 3, bytes_in_flight := 1200, has_session_notifier := True, session_decides_what_to_write := True,
         supports_multiple_packet_number_spaces := True,
         unacked_packets :=
           [new_QuicTransmissionInfo ENCRYPTION_INITIAL 1 NOT_RETRANSMISSION 10 1200 False 0
              \<lparr>in_flight := True, retransmittable_frames := [MTU_DISCOVERY_FRAME]\<rparr>,
            default_QuicTransmissionInfo\<lparr>ti_state := NEVER_SENT\<rparr>,
            new_QuicTransmissionInfo ENCRYPTION_INITIAL 1 NOT_RETRANSMISSION 20 1200 False 0\<lparr>ti_state := ACKED\<rparr>]\<rparr>,
      pending_retransmissions = [], stats = \<lparr>bytes_spuriously_retransmitted = 0, packets_spuriously_retransmitted = 0,
        packets_lost_count = 0, crypto_retransmit_count = 0, loss_timeout_count = 0, tlp_count = 0, rto_count = 0\<rparr>,
      rtt_stats = \<lparr>latest_rtt = 1000, smoothed_rtt = 1000, previous_srtt = 1000\<rparr>,
      uber_loss_algorithm = new_UberLossAlgorithm
        \<lparr>quic_eighth_rtt_loss_detection = False, quic_fix_packets_acked = True, quic_fix_adaptive_time_loss = True\<rparr> kNack,
      first_rto_transmission = UninitializedPacketNumber, consecutive_rto_count = 0, consecutive_tlp_count = 0,
      consecutive_crypto_retransmission_count = 0, pending_timer_transmission_count = 0, max_tail_loss_probes = 2,
      max_rto_packets = 2, use_new_rto = False, packets_acked = [], packets_lost = [], largest_newly_acked = 3, largest_mtu_acked = 0,
      handshake_confirmed = False, largest_packet_peer_knows_is_acked = UninitializedPacketNumber,
      largest_packets_peer_knows_is_acked = (\<lambda>_. UninitializedPacketNumber),
      last_ack_frame = new_QuicAckFrame\<lparr>largest_acked := 3, ack_packets := [QuicInterval 3 4]\<rparr>,
      rtt_updated = False, acked_packets_iter = 1, loss_removes_from_inflight = True\<rparr>"

definition example_host :: "unit SentPacketHost" where
  "example_host =
     \<lparr>notifier = example_notifier, host_RetransmitFrames = (\<lambda>_ _ w. w), clock_Now = (\<lambda>_. 100),
      loss_flags = \<lparr>quic_eighth_rtt_loss_detection = False, quic_fix_packets_acked = True, quic_fix_adaptive_time_loss = True\<rparr>,
      quic_optimize_inflight_check = False, UpdateRtt = (\<lambda>send_delta delay now rtt. rtt\<lparr>latest_rtt := send_delta\<rparr>),
      ExpireSmoothedMetrics = (\<lambda>rtt. rtt), sender_OnPacketSent = (\<lambda>_ _ _ _ _ x. x), sender_OnCongestionEvent = (\<lambda>_ _ _ _ _ x. x),
      sender_OnRetransmissionTimeout = (\<lambda>_ x. x), record_bandwidth = (\<lambda>_ _ x. x), has_network_change_visitor = False,
      OnCongestionChange = (\<lambda>x. x), OnPathMtuIncreased = (\<lambda>_ x. x)\<rparr>"

definition example_started :: QuicSentPacketManager where
  "example_started = example_manager\<lparr>rtt_updated := False,
     last_ack_frame := (last_ack_frame example_manager)\<lparr>ack_delay_time := 25\<rparr>, acked_packets_iter := 0\<rparr>"

lemmas example_manager_eval = example_manager_def new_QuicUnackedPacketMap_def FirstSendingPacketNumber_def new_QuicAckFrame_def
  new_QuicTransmissionInfo_def default_QuicTransmissionInfo_def IsInitialized_def UninitializedPacketNumber_def U64_MAX_def

lemma example_started_eq: "OnAckFrameStart example_host 3 25 100 (example_manager, ()) = Some example_started"
  by (simp add: OnAckFrameStart_def MaybeUpdateRTT_def example_started_def IsUnacked_def IsPacketUseless_def
      IsPacketUsefulForMeasuringRtt_def IsPacketUsefulForCongestionControl_def IsPacketUsefulForRetransmittableData_def
      HasRetransmittableFrames_def IsAckable_def end_number_def pn_plus_def u64_add_def GetTransmissionInfo_def packet_index_def
      u64_sub_def example_manager_eval)

theorem ack_ranges_newly_acked_witness:
  "\<exists>s'. OnAckRanges [(1, 4)] example_started = Some s' \<and> packets_acked s' = [newly_acked 2, newly_acked 1]"
proof -
  have e: "packets_acked example_manager = []" "Valid (ack_packets (last_ack_frame example_manager))"
    "IsInitialized (least_unacked (unacked_map example_manager))" "largest_acked (last_ack_frame example_manager) < 2 ^ 64"
    "descending_ranges 4 [(1, 4)]" "(4 :: nat) < U64_MAX"
    "least_unacked (unacked_map example_manager) = 1" "set_points (ack_packets (last_ack_frame example_manager)) = {3}"
    by (auto simp: example_manager_eval Valid_Cons points_def)
  show ?thesis using ack_ranges_newly_acked [OF example_started_eq e(1-6)] unfolding e(7,8) by (auto simp: upt_rec numeral_2_eq_2)
qed

end
