(* ===== verification/Quic_Ack_Outcome.thy ===== *)
theory Quic_Ack_Outcome
  imports Quic_Ack_Ranges Quic_Unacked_Invariant
begin

text \<open>
  The end of an ACK frame (\<open>QuicSentPacketManager::OnAckFrameEnd\<close>), when the session decides what to write: which packets
  become acknowledged, and which error ends the frame.
\<close>

section \<open>A packet is handled\<close>

text \<open>What the calls of the session may change of the manager, as far as an ACK frame reads it.\<close>

definition same_for_acks :: "QuicSentPacketManager \<Rightarrow> QuicSentPacketManager \<Rightarrow> bool" where
  "same_for_acks s' s \<longleftrightarrow> same_packets (unacked_map s') (unacked_map s) \<and> last_ack_frame s' = last_ack_frame s
     \<and> packets_acked s' = packets_acked s"

lemma same_for_acks_refl: "same_for_acks s s"
  by (simp add: same_for_acks_def same_packets_refl)

lemma same_for_acks_trans: "same_for_acks a b \<Longrightarrow> same_for_acks b c \<Longrightarrow> same_for_acks a c"
  using same_packets_trans by (auto simp: same_for_acks_def)

lemma same_packets_D:
  assumes "same_packets m' m"
  shows "unacked_packets m' = unacked_packets m" "least_unacked m' = least_unacked m" "GetTransmissionInfo m' p = GetTransmissionInfo m p"
    "session_decides_what_to_write m' = session_decides_what_to_write m" "um_perspective m' = um_perspective m"
    "supports_multiple_packet_number_spaces m' = supports_multiple_packet_number_spaces m"
  using assms by (auto simp: same_packets_def GetTransmissionInfo_def packet_index_def Let_def)

lemma NotifyFramesAcked_map: "fst (snd (NotifyFramesAcked N info d t (m, x))) = m"
  by (simp add: NotifyFramesAcked_def split: prod.splits)

lemma notify_acked_same: "same_for_acks (fst (snd (notify_acked H info d t w))) (fst w)"
  using NotifyFramesAcked_map [of "notifier H" info d t "unacked_map (fst w)" "snd w"]
  by (auto simp: notify_acked_def same_for_acks_def same_packets_refl split: prod.splits)

lemma flush_aggregated_same: "same_for_acks (fst (flush_aggregated H d w)) (fst w)"
  using flush_same [of "notifier H" d "(unacked_map (fst w), snd w)"]
  by (auto simp: flush_aggregated_def same_for_acks_def split: prod.splits)

lemma SpuriousRetransmitDetected_tracked:
  "GetTransmissionInfo m p = Some info \<Longrightarrow> \<exists>a'. SpuriousRetransmitDetected F m time rtt p a = Some a'"
  by (simp add: SpuriousRetransmitDetected_def Let_def)

lemma spurious_detected_session:
  assumes "GetTransmissionInfo (unacked_map (fst w)) p = Some info"
  obtains s' where "spurious_detected H p w = Some s'" "same_for_acks s' (fst w)"
proof -
  obtain s x where w: "w = (s, x)" by (cases w)
  let ?space = "GetPacketNumberSpace (unacked_map s) (ti_encryption_level info)"
  obtain a where "SpuriousRetransmitDetected (loss_flags H) (unacked_map s) (clock_Now H x) (rtt_stats s) p
      (general_loss_algorithms (uber_loss_algorithm s) ?space) = Some a"
    using SpuriousRetransmitDetected_tracked [of "unacked_map s" p info] assms unfolding w fst_conv by blast
  then have "spurious_detected H p w = Some (s\<lparr>uber_loss_algorithm := (uber_loss_algorithm s)
      \<lparr>general_loss_algorithms := (general_loss_algorithms (uber_loss_algorithm s))(?space := a)\<rparr>\<rparr>)"
    using assms w by (simp add: spurious_detected_def Uber_SpuriousRetransmitDetected_def GetPacketNumberSpace_of_def)
  then show thesis by (rule that) (simp add: w same_for_acks_def same_packets_refl)
qed

lemma RecordSpuriousRetransmissions_session:
  assumes "sm_decides (fst w)" "GetTransmissionInfo (unacked_map (fst w)) p = Some info"
  obtains s' where "RecordSpuriousRetransmissions H info' p w = Some s'" "same_for_acks s' (fst w)"
proof -
  let ?w = "(RecordOneSpuriousRetransmission info' (fst w), snd w)"
  have s: "same_for_acks (fst ?w) (fst w)" "unacked_map (fst ?w) = unacked_map (fst w)"
    by (simp_all add: RecordOneSpuriousRetransmission_def same_for_acks_def same_packets_refl)
  obtain s' where s': "spurious_detected H p ?w = Some s'" "same_for_acks s' (fst ?w)"
    using spurious_detected_session [of ?w p info] assms(2) s(2) by metis
  show thesis
  proof (cases "ti_transmission_type info' = LOSS_RETRANSMISSION")
    case True
    then show thesis using that [of s'] s' same_for_acks_trans [OF s'(2) s(1)] assms(1)
      by (cases w) (simp add: RecordSpuriousRetransmissions_def)
  next
    case False
    then show thesis using that [of "fst ?w"] s(1) assms(1) by (cases w) (simp add: RecordSpuriousRetransmissions_def Let_def)
  qed
qed

lemma newest_handled_session:
  assumes sd: "sm_decides (fst w)" and g: "GetTransmissionInfo (unacked_map (fst w)) p = Some info"
  obtains w' where "newest_handled H p info' d t w = Some w'" "same_for_acks (fst w') (fst w)"
proof (cases "ti_transmission_type info' = NOT_RETRANSMISSION")
  case True
  let ?a = "MaybeAggregateAckedStreamFrame (notifier H) info' d t (unacked_map (fst w), snd w)"
  have "newest_handled H p info' d t w = Some ((fst w)\<lparr>unacked_map := fst ?a\<rparr>, snd ?a)"
    using True sd by (simp add: newest_handled_def split: prod.splits)
  moreover have "same_packets (fst ?a) (unacked_map (fst w))"
    using aggregate_same [of "notifier H" info' d t "(unacked_map (fst w), snd w)"] by simp
  then have "same_for_acks ((fst w)\<lparr>unacked_map := fst ?a\<rparr>) (fst w)" by (simp add: same_for_acks_def)
  ultimately show thesis using that [of "((fst w)\<lparr>unacked_map := fst ?a\<rparr>, snd ?a)"] by simp
next
  case False
  let ?w1 = "flush_aggregated H d w" and ?n = "notify_acked H info' d t (flush_aggregated H d w)"
  have same: "same_for_acks (fst (snd ?n)) (fst w)" by (rule same_for_acks_trans [OF notify_acked_same flush_aggregated_same])
  then have "same_packets (unacked_map (fst (snd ?n))) (unacked_map (fst w))" by (simp add: same_for_acks_def)
  note m = same_packets_D [OF this]
  have sd': "sm_decides (fst (snd ?n))" using m(4) sd by simp
  obtain s' where s': "RecordSpuriousRetransmissions H info' p (snd ?n) = Some s'" "same_for_acks s' (fst (snd ?n))"
    using RecordSpuriousRetransmissions_session [OF sd', of p info H info'] g m(3) by metis
  have run: "newest_handled H p info' d t w = (if \<not> fst ?n then Some (s', snd (snd ?n)) else Some (snd ?n))"
  proof -
    obtain b s2 x2 where n: "?n = (b, s2, x2)" by (cases ?n)
    show ?thesis using False sd sd' s'(1) unfolding newest_handled_def Let_def by (simp add: n)
  qed
  show thesis
  proof (cases "fst ?n")
    case True
    then show thesis using that [of "snd ?n"] run same by simp
  next
    case False
    then show thesis using that [of "(s', snd (snd ?n))"] run same_for_acks_trans [OF s'(2) same] by simp
  qed
qed

definition acked_info :: "QuicTransmissionInfo \<Rightarrow> QuicTransmissionInfo" where
  "acked_info info = info\<lparr>in_flight := False, retransmittable_frames := [],
     ti_retransmission := UninitializedPacketNumber, ti_state := ACKED\<rparr>"

text \<open>The last three steps, on the map.\<close>

lemma acknowledge_map:
  assumes ok: "unacked_ok m" and sd: "session_decides_what_to_write m" and g: "GetTransmissionInfo m p = Some info"
  obtains m1 m2 info2 where "RemoveFromInFlight p m = Some m1" "RemoveRetransmittability p m1 = Some m2"
    "GetTransmissionInfo m2 p = Some info2" "unacked_ok (set_TransmissionInfo p (info2\<lparr>ti_state := ACKED\<rparr>) m2)"
    "set_TransmissionInfo p (info2\<lparr>ti_state := ACKED\<rparr>) m2 = m\<lparr>bytes_in_flight := bytes_in_flight m1,
       unacked_packets := (unacked_packets m)[packet_index m p := acked_info info]\<rparr>"
proof -
  note i = info_index [OF g]
  have stay: "(unacked_packets m)[packet_index m p := info\<lparr>in_flight := False\<rparr>] = unacked_packets m" if "\<not> in_flight info"
  proof -
    have "info\<lparr>in_flight := False\<rparr> = info" using that by (cases info) simp
    then show ?thesis unfolding i(2) by simp
  qed
  define m1 where "m1 = (if in_flight info then set_TransmissionInfo p (info\<lparr>in_flight := False\<rparr>)
      (m\<lparr>bytes_in_flight := u64_sub (bytes_in_flight m) (unat (ti_bytes_sent info))\<rparr>) else m)"
  have r1: "RemoveFromInFlight p m = Some m1" using g by (simp add: RemoveFromInFlight_def m1_def)
  note ok1 = RemoveFromInFlight_ok [OF ok r1]
  have m1: "m1 = m\<lparr>bytes_in_flight := bytes_in_flight m1,
      unacked_packets := (unacked_packets m)[packet_index m p := info\<lparr>in_flight := False\<rparr>]\<rparr>"
    by (cases "in_flight info") (simp_all add: m1_def set_TransmissionInfo_def stay, simp add: packet_index_def)
  have x: "packet_index m1 p = packet_index m p" using ok1(3) by (simp add: packet_index_def)
  have g1: "GetTransmissionInfo m1 p = Some (info\<lparr>in_flight := False\<rparr>)"
    using i(1) by (subst m1) (simp add: GetTransmissionInfo_def packet_index_def)
  define m2 where "m2 = set_TransmissionInfo p (info\<lparr>in_flight := False, retransmittable_frames := [],
      ti_retransmission := UninitializedPacketNumber\<rparr>) m1"
  have r2: "RemoveRetransmittability p m1 = Some m2" using g1 sd ok1(5) by (simp add: RemoveRetransmittability_def m2_def)
  have sd1: "session_decides_what_to_write m1" using sd ok1(5) by simp
  have m2: "m2 = m\<lparr>bytes_in_flight := bytes_in_flight m1, unacked_packets := (unacked_packets m)[packet_index m p :=
      info\<lparr>in_flight := False, retransmittable_frames := [], ti_retransmission := UninitializedPacketNumber\<rparr>]\<rparr>"
    unfolding m2_def set_TransmissionInfo_def x by (subst (1 2) m1) simp
  have g2: "GetTransmissionInfo m2 p = Some (info\<lparr>in_flight := False, retransmittable_frames := [],
      ti_retransmission := UninitializedPacketNumber\<rparr>)"
    using i(1) by (simp add: m2 GetTransmissionInfo_def packet_index_def)
  have "set_TransmissionInfo p (info\<lparr>in_flight := False, retransmittable_frames := [], ti_retransmission := UninitializedPacketNumber,
      ti_state := ACKED\<rparr>) m2 = m\<lparr>bytes_in_flight := bytes_in_flight m1, unacked_packets := (unacked_packets m)[packet_index m p := acked_info info]\<rparr>"
    by (simp add: m2 set_TransmissionInfo_def packet_index_def acked_info_def)
  then show thesis
    using that [OF r1 r2 g2 mark_state_ok [OF RemoveRetransmittability_session(1) [OF ok1(1) sd1 r2] g2]] by simp
qed

text \<open>What handling a packet leaves of the manager.\<close>

lemma MarkPacketHandled_session:
  assumes ok: "unacked_ok (unacked_map s)" and sd: "sm_decides s" and g: "GetTransmissionInfo (unacked_map s) p = Some info"
  obtains s' x' where "MarkPacketHandled H p d t (s, x) = Some (s', x')" "unacked_ok (unacked_map s')" "sm_decides s'"
    "unacked_packets (unacked_map s') = (unacked_packets (unacked_map s))[packet_index (unacked_map s) p := acked_info info]"
    "least_unacked (unacked_map s') = least_unacked (unacked_map s)" "um_perspective (unacked_map s') = um_perspective (unacked_map s)"
    "supports_multiple_packet_number_spaces (unacked_map s') = supports_multiple_packet_number_spaces (unacked_map s)"
    "last_ack_frame s' = last_ack_frame s" "packets_acked s' = packets_acked s"
proof -
  let ?s1 = "erase_pending p s"
  have s1: "same_for_acks ?s1 s" "sm_decides ?s1" "GetTransmissionInfo (unacked_map ?s1) p = Some info"
    using sd g by (simp_all add: erase_pending_def same_for_acks_def same_packets_refl)
  obtain s2 x2 where n: "newest_handled H p info d t (?s1, x) = Some (s2, x2)" "same_for_acks s2 ?s1"
    using newest_handled_session [of "(?s1, x)" p info H info d t] s1(2,3) by (metis fst_conv prod.collapse)
  have "same_for_acks s2 s" by (rule same_for_acks_trans [OF n(2) s1(1)])
  then have same: "same_packets (unacked_map s2) (unacked_map s)" "last_ack_frame s2 = last_ack_frame s" "packets_acked s2 = packets_acked s"
    by (simp_all add: same_for_acks_def)
  note m = same_packets_D [OF same(1)]
  have ok2: "unacked_ok (unacked_map s2)" by (rule same_packets_ok [OF same(1) ok])
  define s3 where "s3 = (if has_network_change_visitor H \<and> ti_bytes_sent info > largest_mtu_acked s2
    then s2\<lparr>largest_mtu_acked := ti_bytes_sent info\<rparr> else s2)"
  define x3 where "x3 = (if has_network_change_visitor H \<and> ti_bytes_sent info > largest_mtu_acked s2
    then OnPathMtuIncreased H (ti_bytes_sent info) x2 else x2)"
  have s3: "unacked_map s3 = unacked_map s2" "last_ack_frame s3 = last_ack_frame s2" "packets_acked s3 = packets_acked s2"
    by (simp_all add: s3_def)
  have sd2: "session_decides_what_to_write (unacked_map s2)" and g2: "GetTransmissionInfo (unacked_map s2) p = Some info"
    using sd g m(3,4) by simp_all
  obtain m1 m2 info2 where a: "RemoveFromInFlight p (unacked_map s2) = Some m1" "RemoveRetransmittability p m1 = Some m2"
    "GetTransmissionInfo m2 p = Some info2" "unacked_ok (set_TransmissionInfo p (info2\<lparr>ti_state := ACKED\<rparr>) m2)"
    "set_TransmissionInfo p (info2\<lparr>ti_state := ACKED\<rparr>) m2 = (unacked_map s2)\<lparr>bytes_in_flight := bytes_in_flight m1,
       unacked_packets := (unacked_packets (unacked_map s2))[packet_index (unacked_map s2) p := acked_info info]\<rparr>"
    by (rule acknowledge_map [OF ok2 sd2 g2])
  let ?m = "set_TransmissionInfo p (info2\<lparr>ti_state := ACKED\<rparr>) m2"
  have "MarkPacketHandled H p d t (s, x) = Some (s3\<lparr>unacked_map := ?m\<rparr>, x3)"
    using g sd n(1) a(1-3) s3(1) unfolding MarkPacketHandled_def Let_def prod.case
    by (simp add: GetNewestRetransmission_def on_map_def on_info_def s3_def [symmetric] x3_def [symmetric])
  then show thesis
    by (rule that) (simp_all add: a(4), simp_all add: a(5) sd m same s3 packet_index_def)
qed

section \<open>The reference\<close>

definition info_of :: "QuicUnackedPacketMap \<Rightarrow> QuicPacketNumber \<Rightarrow> QuicTransmissionInfo" where
  "info_of m p = unacked_packets m ! (p - least_unacked m)"

definition inside :: "QuicUnackedPacketMap \<Rightarrow> QuicPacketNumber \<Rightarrow> bool" where
  "inside m p \<longleftrightarrow> least_unacked m \<le> p \<and> p < least_unacked m + length (unacked_packets m)"

text \<open>The error that an acknowledgement of a packet is, if it is one.\<close>

definition refusal :: "EncryptionLevel \<Rightarrow> QuicUnackedPacketMap \<Rightarrow> QuicPacketNumber \<Rightarrow> AckResult option" where
  "refusal level m p =
     (if \<not> supports_multiple_packet_number_spaces m \<or> ti_state (info_of m p) = ACKED then None
      else if ti_state (info_of m p) = NEVER_SENT then Some UNSENT_PACKETS_ACKED
      else if ti_state (info_of m p) = UNACKABLE then Some UNACKABLE_PACKETS_ACKED
      else if Utils_GetPacketNumberSpace (ti_encryption_level (info_of m p)) \<noteq> Utils_GetPacketNumberSpace level
      then Some PACKETS_ACKED_IN_WRONG_PACKET_NUMBER_SPACE
      else None)"

definition first_refusal :: "EncryptionLevel \<Rightarrow> QuicUnackedPacketMap \<Rightarrow> QuicPacketNumber list \<Rightarrow> AckResult option" where
  "first_refusal level m ps = (case dropWhile (\<lambda>p. refusal level m p = None) ps of [] \<Rightarrow> None | p # _ \<Rightarrow> refusal level m p)"

text \<open>The packets that become acknowledged: those that can be, up to the first error.\<close>

definition handled :: "EncryptionLevel \<Rightarrow> QuicUnackedPacketMap \<Rightarrow> QuicPacketNumber list \<Rightarrow> QuicPacketNumber list" where
  "handled level m ps = filter (\<lambda>p. IsAckable (ti_state (info_of m p))) (takeWhile (\<lambda>p. refusal level m p = None) ps)"

definition packets_after :: "QuicUnackedPacketMap \<Rightarrow> QuicPacketNumber list \<Rightarrow> QuicTransmissionInfo list" where
  "packets_after m hs = map (\<lambda>i. let info = unacked_packets m ! i in if least_unacked m + i \<in> set hs then acked_info info else info)
     [0..<length (unacked_packets m)]"

definition credited :: "QuicUnackedPacketMap \<Rightarrow> QuicPacketNumber list \<Rightarrow> AckedPacket \<Rightarrow> AckedPacket" where
  "credited m hs acked =
     (let p = ap_packet_number acked
      in if p \<in> set hs \<and> in_flight (info_of m p) then acked\<lparr>ap_bytes_acked := ti_bytes_sent (info_of m p)\<rparr> else acked)"

lemma first_refusal_simps [simp]:
  "first_refusal level m [] = None"
  "first_refusal level m (p # ps) = (case refusal level m p of None \<Rightarrow> first_refusal level m ps | Some r \<Rightarrow> Some r)"
  by (auto simp: first_refusal_def split: option.splits)

lemma handled_simps [simp]:
  "handled level m [] = []"
  "handled level m (p # ps) = (if refusal level m p = None
     then if IsAckable (ti_state (info_of m p)) then p # handled level m ps else handled level m ps else [])"
  by (auto simp: handled_def)

lemma handled_subset: "set (handled level m ps) \<subseteq> set ps"
  by (auto simp: handled_def dest: set_takeWhileD)

text \<open>The reference depends on the packets that it looks at only.\<close>

lemma refusal_cong:
  "info_of m' p = info_of m p \<Longrightarrow> supports_multiple_packet_number_spaces m' = supports_multiple_packet_number_spaces m
     \<Longrightarrow> refusal level m' p = refusal level m p"
  by (simp add: refusal_def)

lemma reference_cong:
  assumes "\<forall>p \<in> set ps. info_of m' p = info_of m p" "supports_multiple_packet_number_spaces m' = supports_multiple_packet_number_spaces m"
  shows "first_refusal level m' ps = first_refusal level m ps" "handled level m' ps = handled level m ps"
  using assms by (induction ps) (auto simp: refusal_cong [of m' _ m] split: option.split)

lemma packets_after_none: "packets_after m [] = unacked_packets m"
  by (simp add: packets_after_def map_nth)

lemma packets_after_Cons:
  assumes "inside m p" "least_unacked m' = least_unacked m"
    and "unacked_packets m' = (unacked_packets m)[p - least_unacked m := acked_info (info_of m p)]" "p \<notin> set hs"
  shows "packets_after m' hs = packets_after m (p # hs)"
proof (rule nth_equalityI)
  fix i assume i: "i < length (packets_after m' hs)"
  then have l: "i < length (unacked_packets m)" using assms(3) by (simp add: packets_after_def)
  show "packets_after m' hs ! i = packets_after m (p # hs) ! i"
  proof (cases "i = p - least_unacked m")
    case True
    then have "least_unacked m + i = p" using assms(1) by (simp add: inside_def)
    then show ?thesis using assms l True by (simp add: packets_after_def info_of_def)
  next
    case False
    then have "least_unacked m + i \<noteq> p" by auto
    then show ?thesis using assms l False by (simp add: packets_after_def Let_def)
  qed
qed (simp add: packets_after_def assms(3))

section \<open>The loop\<close>

lemma tracked_inside:
  assumes "unacked_ok m" "inside m p"
  shows "packet_index m p = p - least_unacked m" "p - least_unacked m < length (unacked_packets m)"
    "GetTransmissionInfo m p = Some (info_of m p)" "pn_ok p"
  using tracked_info [OF unacked_ok_D(1) [OF assms(1)]] numbers_ok_bounds(1) [OF unacked_ok_D(1) [OF assms(1)]] assms(2)
  by (simp_all add: inside_def info_of_def pn_ok_def U64_MAX_def)

text \<open>One step: the packet is passed over, refused, or handled.\<close>

lemma loop_passed:
  assumes "unacked_ok (unacked_map s)" "inside (unacked_map s) (ap_packet_number a)"
    and "refusal level (unacked_map s) (ap_packet_number a) = None" "\<not> IsAckable (ti_state (info_of (unacked_map s) (ap_packet_number a)))"
  shows "OnAckFrameEnd_loop H level before (a # rest) (s, x) = OnAckFrameEnd_loop H level (before @ [a]) rest (s, x)"
  using assms tracked_inside(3) [OF assms(1,2)] by (auto simp: Let_def refusal_def IsAckable_def split: if_splits)

lemma loop_refused:
  assumes "unacked_ok (unacked_map s)" "inside (unacked_map s) (ap_packet_number a)"
    and "refusal level (unacked_map s) (ap_packet_number a) = Some r"
  shows "OnAckFrameEnd_loop H level before (a # rest) (s, x) = Some (Some r, s\<lparr>packets_acked := before @ a # rest\<rparr>, x)"
  using assms tracked_inside(3) [OF assms(1,2)]
  by (auto simp: Let_def refusal_def IsAckable_def GetPacketNumberSpace_def split: if_splits)

lemma loop_handled:
  assumes ok: "unacked_ok (unacked_map s)" and sd: "sm_decides s" and p: "inside (unacked_map s) p" "p = ap_packet_number a"
    and v: "refusal level (unacked_map s) p = None" "IsAckable (ti_state (info_of (unacked_map s) p))"
  obtains s' x' where "OnAckFrameEnd_loop H level before (a # rest) (s, x)
      = OnAckFrameEnd_loop H level (before @ [credited (unacked_map s) [p] a]) rest (s', x')"
    "unacked_ok (unacked_map s')" "sm_decides s'" "least_unacked (unacked_map s') = least_unacked (unacked_map s)"
    "unacked_packets (unacked_map s') = (unacked_packets (unacked_map s))[p - least_unacked (unacked_map s) := acked_info (info_of (unacked_map s) p)]"
    "supports_multiple_packet_number_spaces (unacked_map s') = supports_multiple_packet_number_spaces (unacked_map s)"
    "ack_packets (last_ack_frame s') = Queue_Add (ack_packets (last_ack_frame s)) p"
proof -
  let ?m = "unacked_map s" and ?info = "info_of (unacked_map s) p"
  note t = tracked_inside [OF ok p(1)]
  let ?space = "GetPacketNumberSpace ?m (ti_encryption_level ?info)"
  define s2 where "s2 = peer_knows ?space ?info
    (s\<lparr>last_ack_frame := (last_ack_frame s)\<lparr>ack_packets := Queue_Add (ack_packets (last_ack_frame s)) p\<rparr>\<rparr>)"
  define s3 where "s3 = (if in_flight ?info then s2 else s2\<lparr>largest_newly_acked := p\<rparr>)"
  define s4 where "s4 = s3\<lparr>unacked_map := MaybeUpdateLargestAckedOfPacketNumberSpace ?space p (unacked_map s3)\<rparr>"
  have m3: "unacked_map s3 = ?m" by (simp add: s3_def s2_def peer_knows_def Let_def)
  have m4: "unacked_packets (unacked_map s4) = unacked_packets ?m" "least_unacked (unacked_map s4) = least_unacked ?m"
    "sm_decides s4" "supports_multiple_packet_number_spaces (unacked_map s4) = supports_multiple_packet_number_spaces ?m"
    "unacked_ok (unacked_map s4)"
    using sd ok by (auto simp: s4_def m3 MaybeUpdateLargestAckedOfPacketNumberSpace_def unacked_ok_def packets_ok_def numbers_ok_def)
  have q4: "ack_packets (last_ack_frame s4) = Queue_Add (ack_packets (last_ack_frame s)) p"
    by (simp add: s4_def s3_def s2_def peer_knows_def Let_def)
  have g4: "GetTransmissionInfo (unacked_map s4) p = Some ?info" using t(3) m4(1,2) by (auto simp: GetTransmissionInfo_def packet_index_def Let_def split: if_splits)
  let ?a = "credited ?m [p] a"
  obtain s5 x5 where s5: "MarkPacketHandled H p (ack_delay_time (last_ack_frame s4)) (ap_receive_timestamp ?a) (s4, x) = Some (s5, x5)"
    "unacked_ok (unacked_map s5)" "sm_decides s5"
    "unacked_packets (unacked_map s5) = (unacked_packets (unacked_map s4))[packet_index (unacked_map s4) p := acked_info ?info]"
    "least_unacked (unacked_map s5) = least_unacked (unacked_map s4)" "um_perspective (unacked_map s5) = um_perspective (unacked_map s4)"
    "supports_multiple_packet_number_spaces (unacked_map s5) = supports_multiple_packet_number_spaces (unacked_map s4)"
    "last_ack_frame s5 = last_ack_frame s4" "packets_acked s5 = packets_acked s4"
    by (rule MarkPacketHandled_session [OF m4(5,3) g4])
  have a: "?a = (if in_flight ?info then a\<lparr>ap_bytes_acked := ti_bytes_sent ?info\<rparr> else a)"
    using p(2) by (simp add: credited_def)
  have ackable: "IsAckable (ti_state ?info)"
    "\<not> (supports_multiple_packet_number_spaces ?m \<and> Utils_GetPacketNumberSpace level \<noteq> ?space)"
    using v by (auto simp: refusal_def GetPacketNumberSpace_def IsAckable_def split: if_splits)
  have "OnAckFrameEnd_loop H level before (a # rest) (s, x) = OnAckFrameEnd_loop H level (before @ [?a]) rest (s5, x5)"
    unfolding OnAckFrameEnd_loop.simps Let_def p(2) [symmetric] t(3) bind.bind_lunit
    unfolding s2_def [symmetric] s3_def [symmetric] s4_def [symmetric] a [symmetric] s5(1) bind.bind_lunit
    using ackable by (cases "supports_multiple_packet_number_spaces ?m") simp_all
  then show thesis
    by (rule that) (simp_all add: s5 m4 q4 packet_index_def t(1) [unfolded packet_index_def])
qed

lemma credited_cong:
  assumes "\<forall>a \<in> set rest. info_of m' (ap_packet_number a) = info_of m (ap_packet_number a)"
    and "\<forall>a \<in> set rest. ap_packet_number a \<in> set hs' \<longleftrightarrow> ap_packet_number a \<in> set hs"
  shows "map (credited m' hs') rest = map (credited m hs) rest"
  using assms by (auto simp: credited_def Let_def)

lemma credited_none: "credited m [] = (\<lambda>a. a)"
  by (rule ext) (simp add: credited_def)

abbreviation acked_numbers :: "AckedPacket list \<Rightarrow> QuicPacketNumber list" where
  "acked_numbers packets \<equiv> map ap_packet_number packets"

lemma OnAckFrameEnd_loop_outcome:
  assumes "unacked_ok (unacked_map s)" "sm_decides s" "Valid (ack_packets (last_ack_frame s))"
    and "distinct (acked_numbers rest)" "\<forall>p \<in> set (acked_numbers rest). inside (unacked_map s) p"
  shows "\<exists>s' x'. OnAckFrameEnd_loop H level before rest (s, x) = Some (first_refusal level (unacked_map s) (acked_numbers rest), s', x')
     \<and> unacked_ok (unacked_map s') \<and> least_unacked (unacked_map s') = least_unacked (unacked_map s)
     \<and> unacked_packets (unacked_map s') = packets_after (unacked_map s) (handled level (unacked_map s) (acked_numbers rest))
     \<and> packets_acked s' = before @ map (credited (unacked_map s) (handled level (unacked_map s) (acked_numbers rest))) rest
     \<and> Valid (ack_packets (last_ack_frame s'))
     \<and> set_points (ack_packets (last_ack_frame s')) =
         set_points (ack_packets (last_ack_frame s)) \<union> set (handled level (unacked_map s) (acked_numbers rest))"
  using assms
proof (induction rest arbitrary: s x before)
  case Nil
  then show ?case by (auto simp: packets_after_none unacked_ok_def packets_ok_def numbers_ok_def)
next
  case (Cons a rest)
  let ?m = "unacked_map s" and ?p = "ap_packet_number a" and ?ps = "acked_numbers rest"
  have p: "inside ?m ?p" "?p \<notin> set ?ps" "distinct ?ps" "\<forall>q \<in> set ?ps. inside ?m q" using Cons.prems(4,5) by simp_all
  note step = loop_passed [OF Cons.prems(1) p(1)] loop_refused [OF Cons.prems(1) p(1)] loop_handled [OF Cons.prems(1,2) p(1) refl]
  show ?case
  proof (cases "refusal level ?m ?p")
    case (Some r)
    have "map (credited ?m []) (a # rest) = a # rest" by (simp add: credited_none)
    then show ?thesis using step(2) [OF Some, of H before rest x] Some Cons.prems(1-3)
      by (simp add: packets_after_none del: OnAckFrameEnd_loop.simps)
  next
    case None
    show ?thesis
    proof (cases "IsAckable (ti_state (info_of ?m ?p))")
      case False
      have not: "?p \<notin> set (handled level ?m ?ps)" using p(2) handled_subset by blast
      then have c: "credited ?m (handled level ?m ?ps) a = a" by (simp add: credited_def)
      show ?thesis
        using Cons.IH [OF Cons.prems(1-3) p(3,4), of "before @ [a]" x] step(1) [OF None False, of H before rest x] None False c
        by (simp del: OnAckFrameEnd_loop.simps)
    next
      case True
      obtain s' x' where s': "OnAckFrameEnd_loop H level before (a # rest) (s, x)
          = OnAckFrameEnd_loop H level (before @ [credited ?m [?p] a]) rest (s', x')"
        "unacked_ok (unacked_map s')" "sm_decides s'" "least_unacked (unacked_map s') = least_unacked ?m"
        "unacked_packets (unacked_map s') = (unacked_packets ?m)[?p - least_unacked ?m := acked_info (info_of ?m ?p)]"
        "supports_multiple_packet_number_spaces (unacked_map s') = supports_multiple_packet_number_spaces ?m"
        "ack_packets (last_ack_frame s') = Queue_Add (ack_packets (last_ack_frame s)) ?p"
        by (rule step(3) [OF None True])
      note q = Queue_Add_correct [OF Cons.prems(3) tracked_inside(4) [OF Cons.prems(1) p(1)], folded s'(7)]
      have i: "\<forall>q \<in> set ?ps. inside (unacked_map s') q" using p(4) s'(4,5) by (simp add: inside_def)
      have same: "info_of (unacked_map s') q = info_of ?m q" if "q \<in> set ?ps" for q
      proof -
        have "inside ?m q" using that p(4) by blast
        moreover have "q \<noteq> ?p" using that p(2) by blast
        ultimately have "q - least_unacked ?m \<noteq> ?p - least_unacked ?m" using p(1) by (auto simp: inside_def)
        then show ?thesis using s'(4,5) by (simp add: info_of_def)
      qed
      let ?hs = "handled level ?m ?ps"
      have cong: "first_refusal level (unacked_map s') ?ps = first_refusal level ?m ?ps" "handled level (unacked_map s') ?ps = ?hs"
        using reference_cong [of ?ps "unacked_map s'" ?m level] same s'(6) by blast+
      have after: "packets_after (unacked_map s') ?hs = packets_after ?m (?p # ?hs)"
        using packets_after_Cons [OF p(1) s'(4,5)] p(2) handled_subset by blast
      have credit: "map (credited (unacked_map s') ?hs) rest = map (credited ?m (?p # ?hs)) rest"
      proof (rule credited_cong)
        have "ap_packet_number b \<noteq> ?p" if "b \<in> set rest" for b using p(2) imageI [OF that, of ap_packet_number] by force
        then show "\<forall>b \<in> set rest. ap_packet_number b \<in> set ?hs \<longleftrightarrow> ap_packet_number b \<in> set (?p # ?hs)" by simp
      qed (use same in simp)
      have first: "credited ?m [?p] a = credited ?m (?p # ?hs) a" by (simp add: credited_def)
      obtain s'' x'' where r: "OnAckFrameEnd_loop H level (before @ [credited ?m (?p # ?hs) a]) rest (s', x') = Some (first_refusal level ?m ?ps, s'', x'')"
        "unacked_ok (unacked_map s'')" "least_unacked (unacked_map s'') = least_unacked ?m"
        "unacked_packets (unacked_map s'') = packets_after ?m (?p # ?hs)"
        "packets_acked s'' = (before @ [credited ?m (?p # ?hs) a]) @ map (credited ?m (?p # ?hs)) rest"
        "Valid (ack_packets (last_ack_frame s''))"
        "set_points (ack_packets (last_ack_frame s'')) = insert ?p (set_points (ack_packets (last_ack_frame s))) \<union> set ?hs"
        using Cons.IH [OF s'(2,3) conjunct1 [OF q] p(3) i, of "before @ [credited ?m [?p] a]" x']
        unfolding cong after credit s'(4) conjunct2 [OF q] first by (elim exE conjE) (rule that)
      have h: "handled level ?m (acked_numbers (a # rest)) = ?p # ?hs"
        "first_refusal level ?m (acked_numbers (a # rest)) = first_refusal level ?m ?ps"
        using None True by simp_all
      show ?thesis unfolding h s'(1) first
        by (intro exI [of _ s''] exI [of _ x''] conjI) (simp_all add: r del: OnAckFrameEnd_loop.simps)
    qed
  qed
qed

section \<open>The frame\<close>

lemma packets_after_step:
  assumes "inside m p" "p \<notin> set hs"
  shows "packets_after m (p # hs) = (packets_after m hs)[p - least_unacked m := acked_info (info_of m p)]"
    "packets_after m hs ! (p - least_unacked m) = info_of m p"
proof -
  have l: "p - least_unacked m < length (unacked_packets m)" "least_unacked m + (p - least_unacked m) = p"
    using assms(1) by (auto simp: inside_def)
  show n: "packets_after m hs ! (p - least_unacked m) = info_of m p" using l assms(2) by (simp add: packets_after_def info_of_def)
  show "packets_after m (p # hs) = (packets_after m hs)[p - least_unacked m := acked_info (info_of m p)]"
  proof (rule nth_equalityI)
    fix i assume "i < length (packets_after m (p # hs))"
    then have i: "i < length (unacked_packets m)" by (simp add: packets_after_def)
    show "packets_after m (p # hs) ! i = (packets_after m hs)[p - least_unacked m := acked_info (info_of m p)] ! i"
    proof (cases "i = p - least_unacked m")
      case True
      then show ?thesis using i l by (simp add: packets_after_def info_of_def)
    next
      case False
      then have "least_unacked m + i \<noteq> p" by auto
      then show ?thesis using i False by (simp add: packets_after_def Let_def)
    qed
  qed (simp add: packets_after_def)
qed

text \<open>The bytes of the acknowledged packets leave the flight.\<close>

lemma packets_after_flight:
  assumes "\<forall>p \<in> set hs. inside m p" "distinct hs"
  shows "flight_bytes (packets_after m hs) + (\<Sum>p\<leftarrow>hs. if in_flight (info_of m p) then unat (ti_bytes_sent (info_of m p)) else 0)
     = flight_bytes (unacked_packets m)"
  using assms
proof (induction hs)
  case (Cons p hs)
  have p: "inside m p" "p \<notin> set hs" using Cons.prems by simp_all
  have l: "p - least_unacked m < length (packets_after m hs)" using p(1) by (auto simp: packets_after_def inside_def)
  show ?case
    using flight_bytes_update [OF l, of "acked_info (info_of m p)", unfolded packets_after_step(2) [OF p]] Cons
      packets_after_step(1) [OF p] by (simp add: acked_info_def)
qed (simp add: packets_after_none)

lemma OnAckRange_map: "OnAckRange start upper s = Some s' \<Longrightarrow> \<exists>n. unacked_map s' = (unacked_map s)\<lparr>um_largest_acked := n\<rparr>"
  by (auto simp: OnAckRange_def Let_def IncreaseLargestAcked_def bind_eq_Some_conv split: if_splits intro: exI [of _ "um_largest_acked (unacked_map s)"])

lemma OnAckRanges_map: "OnAckRanges ranges s = Some s' \<Longrightarrow> \<exists>n. unacked_map s' = (unacked_map s)\<lparr>um_largest_acked := n\<rparr>"
proof (induction ranges arbitrary: s)
  case Nil
  then show ?case by (auto intro: exI [of _ "um_largest_acked (unacked_map s)"])
next
  case (Cons range ranges)
  then obtain s1 where "OnAckRange (fst range) (snd range) s = Some s1" "OnAckRanges ranges s1 = Some s'"
    by (cases range) (auto simp: bind_eq_Some_conv)
  then show ?case using OnAckRange_map Cons.IH by fastforce
qed

lemma reference_largest_acked [simp]:
  "info_of (m\<lparr>um_largest_acked := n\<rparr>) = info_of m" "refusal level (m\<lparr>um_largest_acked := n\<rparr>) = refusal level m"
  "inside (m\<lparr>um_largest_acked := n\<rparr>) = inside m" "unacked_ok (m\<lparr>um_largest_acked := n\<rparr>) = unacked_ok m"
  by (auto simp: info_of_def refusal_def inside_def unacked_ok_def packets_ok_def numbers_ok_def fun_eq_iff)

text \<open>The packets that a frame acknowledges anew, in ascending order.\<close>

definition frame_packets :: "QuicSentPacketManager \<Rightarrow> (QuicPacketNumber \<times> QuicPacketNumber) list \<Rightarrow> QuicPacketNumber list" where
  "frame_packets s ranges =
     filter (\<lambda>p. p \<notin> set_points (ack_packets (last_ack_frame s)) \<and> (\<exists>(start, upper) \<in> set ranges. start \<le> p \<and> p < upper))
       [least_unacked (unacked_map s)..<end_number (unacked_map s)]"

definition sent_bytes :: "QuicUnackedPacketMap \<Rightarrow> QuicPacketNumber list \<Rightarrow> nat" where
  "sent_bytes m hs = (\<Sum>p\<leftarrow>hs. if in_flight (info_of m p) then unat (ti_bytes_sent (info_of m p)) else 0)"



end
