(* ===== verification/Spec2Isabelle.thy ===== *)
theory Spec2Isabelle
  imports Quic_UFloat16 Quic_Wire_Codec Quic_Interval_Set Quic_Packet_Number Quic_Flow_Controller
    Quic_Stream_Id_Manager Quic_Send_Buffer Quic_Google_Frames Quic_Stream_Payload Quic_Stream_Runs
    Quic_Control_Frames Quic_Unacked_Invariant Quic_Ack_Aggregation Quic_Loss_Equivalence Quic_Ack_Outcome
begin

text \<open>
  A verification development for the core of a QUIC implementation, the C++ library under src/quic/core.

  \<^bold>\<open>The program.\<close> A connection exchanges packets; the framer turns a list of frames into the bytes of a packet and
  back. A session owns the streams of a connection. A stream keeps data of the application in a send buffer until the
  peer has acknowledged it, and puts received data back into order in its sequencer; flow controllers of the stream
  and of the connection bound how much either side may send. Stream ids are handed out and accepted within limits
  by a stream id manager. Packet numbers, received bytes and acknowledged bytes are kept as sets of intervals.

  \<^bold>\<open>Shared ground.\<close> Quic_Prelude holds the machine integers (\<open>u8\<close> to \<open>u64\<close> as words; offsets and sizes that the
  code keeps in 64 bits are natural numbers with the wrap-around of \<open>u64_add\<close> and \<open>u64_sub\<close> written out), lemmas on
  lists and options, and the copying of bytes. Quic_Error_Codes holds the error codes that modelled parts produce.

  \<^bold>\<open>Wire format.\<close> Quic_Data_Reader and Quic_Data_Writer model quic_data_reader.cc and quic_data_writer.cc, a cursor
  over a buffer with every read and write; Quic_UFloat16 the 16-bit floats of ACK delays; Quic_Wire_Codec shows that what
  is written is read back, for integers of both byte orders, strings and variable-length integers.

  \<^bold>\<open>Intervals.\<close> Quic_Interval and Quic_Interval_Set model quic_interval.h and quic_interval_set.h: a sorted list of
  disjoint, non-adjacent intervals. Its operations are shown to compute on the set of points (\<open>set_points\<close>) and to
  keep the list \<open>Valid\<close>; the locale \<open>point_set\<close> is the contract other theories use. Quic_Packet_Number models
  quic_packet_number.cc and the PacketNumberQueue of quic_ack_frame.cc, which refines a set of numbers.

  \<^bold>\<open>Flow control and stream ids.\<close> Quic_Flow_Controller models quic_flow_controller.cc with the session's controller
  and the clock as arguments: the sender stays within the window, the receiver's window never shrinks and stays open.
  Quic_Versions and Quic_Stream_Id_Manager model the arithmetic of stream ids (quic_versions.h, quic_utils.cc) and
  quic_stream_id_manager.cc.

  \<^bold>\<open>Frames.\<close> Quic_Frames models the structs of frames/ and quic_frame.cc; Quic_Ietf_Frames, Quic_Ietf_Data_Frames,
  Quic_Ietf_Ack and Quic_Ietf_Framer the writing and reading of every IETF frame in quic_framer.cc and the loops over
  the frames of a packet; Quic_Google_Frames the frames of the older versions. Quic_Frame_Codec states as a locale what a
  frame codec promises (what is emitted is delivered, and no prefix of it is) and is interpreted for each kind of frame;
  Quic_Ietf_Roundtrip composes these to packets: what AppendIetfFrames writes, ProcessIetfFrameData reads back.

  \<^bold>\<open>Sending.\<close> Quic_Send_Buffer models quic_stream_send_buffer.cc: slices of the stream, a write index, the sets of
  acknowledged bytes and of bytes to retransmit. Quic_Stream_Payload connects it with the framer: a packet carries
  the bytes of the stream. Quic_Stream models quic_stream.cc; the session, the connection, the subclass and the flags are
  the record \<open>StreamHost\<close>, whose functions take and return the whole world because calls may come back to the stream.
  Quic_Stream_Sending states what the stream relies on of them (\<open>host_contract\<close>) and that every operation keeps the
  invariant of the sending half; Quic_Stream_Runs does so for all sequences of operations, shows that all of them
  return, and gives a host that satisfies the contract.

  \<^bold>\<open>Control frames.\<close> Quic_Control_Frames models quic_control_frame_manager.cc over an abstract session: frames are first
  sent in the order in which they were handed over, whatever is refused, lost or acknowledged in between, no
  unacknowledged frame is dropped, and when the session takes every frame nothing is left to send.

  \<^bold>\<open>Sent packets.\<close> Quic_Unacked_Packets models quic_unacked_packet_map.cc, the map of the packets that are not yet
  acknowledged, over an abstract session notifier. Quic_Unacked_Invariant shows for all runs that its counters are the
  sums over the packets, that links to retransmissions stay inside the map, that no frame is lost or doubled, and that only
  useless packets are forgotten; Quic_Ack_Aggregation that acknowledgements put together are equivalent to single ones.
  Quic_Loss_Detection models general_loss_algorithm.cc and uber_loss_algorithm.cc; Quic_Loss_Equivalence compares the
  incremental detection with a scan of the whole map.
  Quic_Sent_Packets models the manager above them, quic_sent_packet_manager.cc: sending, ACK frames, losses and
  retransmissions by the timer, with the congestion controller and the session as a parameter. Quic_Ack_Ranges shows that the
  walk over the ranges of an ACK frame finds exactly the packets that are newly acknowledged, and Quic_Ack_Outcome what the
  end of the frame makes of them: which become acknowledged and leave the flight, and which error ends the frame.

  \<^bold>\<open>Receiving.\<close> Quic_Sequencer_Buffer models quic_stream_sequencer_buffer.cc, a ring of blocks; Quic_Sequencer_Reading,
  Quic_Sequencer_Receiving and Quic_Sequencer_Regions show, for the invariant \<open>seq_ok\<close>, that blocks hold the window of
  the stream, that no block is released early, and what each operation returns; Quic_Sequencer_Delivery concludes for all
  interleavings of frames and reads. Quic_Stream_Sequencer models quic_stream_sequencer.cc over an abstract
  \<open>StreamInterface\<close>; its locale \<open>sequenced_stream\<close> holds what the sequencer relies on of a stream, and is interpreted for
  the pending streams of Quic_Pending_Stream, where flow control keeps every frame within the buffer.

  \<^bold>\<open>Loops, fuel and errors.\<close> No definition uses fuel. Loops over data are structural; the other loops (interval
  sets, the sequencer buffer, retransmissions) are partial functions into options, and theorems show that they return.
  Failed reads and writes, refused frames and closed connections are values: booleans, error codes, or calls recorded
  in the state, as in the code. Checks that only log (QUIC_BUG, DCHECK) are not modelled where the code goes on.
  Offsets are bounded by 2^62 where a theorem needs it, which the code enforces by \<open>kMaxStreamLength\<close>.

  \<^bold>\<open>Not modelled.\<close> Packet headers and the protection of packets (the cryptography is BoringSSL's), QuicConnection,
  QuicSession and the dispatcher (event loops over sockets, alarms and hash tables; what streams rely on of the session
  is a contract), the manager of received packets, congestion control and the delays of the retransmission timer (floating
  point), the packet creator, the handshake, the HTTP layers and header compression, SPDY and HTTP/2, the platform layer,
  tools and tests. Printing and logging are left out everywhere.
\<close>

end
